(* ===== verification/Ufs_Prelude.thy ===== *)
theory Ufs_Prelude
  imports Main "HOL-Library.Word" "HOL-Library.Sublist"
begin

text \<open>
  Shared vocabulary of the development: the machine integer types of the C sources, the
  little-endian byte encoding of 32- and 64-bit fields (what \<open>memcpy\<close> of a struct does on the
  supported hosts), replacing a range of bytes inside a buffer (\<open>memcpy\<close> into a block), writing a
  buffer into a byte-addressed image, and the fact collections that the component theories extend.
\<close>

unbundle bit_operations_syntax

section \<open>Machine integers\<close>

type_synonym u8 = "8 word"
type_synonym u32 = "32 word"
type_synonym u64 = "64 word"
type_synonym bytes = "u8 list"

text \<open>Block numbers stay sums of numerals.\<close>

declare add_2_eq_Suc [simp del] add_2_eq_Suc' [simp del]

named_theorems enc_simps \<open>lengths and round trips of the byte encodings\<close>
named_theorems io_simps \<open>effect of the block layer on states without injected faults\<close>
named_theorems frame_simps \<open>fields of the world that an operation leaves alone\<close>

section \<open>Little-endian words\<close>

definition le_bytes :: "nat \<Rightarrow> 'a::len word \<Rightarrow> bytes" where
  "le_bytes n x = map (\<lambda>i. ucast (drop_bit (8 * i) x)) [0..<n]"

fun of_le_bytes :: "bytes \<Rightarrow> 'a::len word" where
  "of_le_bytes [] = 0"
| "of_le_bytes (b # bs) = ucast b OR push_bit 8 (of_le_bytes bs)"

lemma length_le_bytes [simp, enc_simps]: "length (le_bytes n x) = n"
  by (simp add: le_bytes_def)

lemma nth_le_bytes: "i < n \<Longrightarrow> le_bytes n x ! i = ucast (drop_bit (8 * i) x)"
  by (simp add: le_bytes_def)

lemma bit_of_le_bytes:
  "bit (of_le_bytes bs :: 'a::len word) k \<longleftrightarrow>
     k < LENGTH('a) \<and> k div 8 < length bs \<and> bit (bs ! (k div 8)) (k mod 8)"
proof (induction bs arbitrary: k)
  case Nil
  then show ?case by simp
next
  case (Cons b bs)
  have high: "k div 8 = Suc ((k - 8) div 8)" "k mod 8 = (k - 8) mod 8" if "8 \<le> k"
    using that by (simp_all add: le_div_geq le_mod_geq)
  have wide: "bit b k \<Longrightarrow> k < 8" for k
    using bit_imp_le_length [of b k] by simp
  show ?case
  proof (cases "k < 8")
    case True
    then show ?thesis by (auto simp: bit_simps)
  next
    case False
    then show ?thesis
      using high wide by (auto simp: bit_simps Cons.IH)
  qed
qed

lemma of_le_bytes_le_bytes:
  assumes "LENGTH('a::len) = 8 * n"
  shows "of_le_bytes (le_bytes n (x :: 'a word)) = x"
proof (rule bit_word_eqI)
  fix k assume "k < LENGTH('a)"
  with assms show "bit (of_le_bytes (le_bytes n x) :: 'a word) k = bit x k"
    by (auto simp: bit_of_le_bytes nth_le_bytes bit_simps less_mult_imp_div_less mult.commute)
qed

lemma le_bytes_of_le_bytes:
  assumes "LENGTH('a::len) = 8 * n" and "length bs = n"
  shows "le_bytes n (of_le_bytes bs :: 'a word) = bs"
proof (rule nth_equalityI)
  show "length (le_bytes n (of_le_bytes bs :: 'a word)) = length bs"
    using assms by simp
  fix i assume "i < length (le_bytes n (of_le_bytes bs :: 'a word))"
  then have i: "i < n" by simp
  show "le_bytes n (of_le_bytes bs :: 'a word) ! i = bs ! i"
  proof (rule bit_word_eqI)
    fix k assume "k < LENGTH(8)"
    then have k: "k < 8" by simp
    with i assms have "8 * i + k < LENGTH('a)" by simp
    with k i assms show "bit (le_bytes n (of_le_bytes bs :: 'a word) ! i) k = bit (bs ! i) k"
      by (simp add: nth_le_bytes bit_simps bit_of_le_bytes)
  qed
qed

definition le32 :: "u32 \<Rightarrow> bytes" where
  "le32 x = le_bytes 4 x"

definition of_le32 :: "bytes \<Rightarrow> u32" where
  "of_le32 bs = of_le_bytes bs"

definition le64 :: "u64 \<Rightarrow> bytes" where
  "le64 x = le_bytes 8 x"

definition of_le64 :: "bytes \<Rightarrow> u64" where
  "of_le64 bs = of_le_bytes bs"

lemma length_le32 [simp, enc_simps]: "length (le32 x) = 4"
  by (simp add: le32_def)

lemma length_le64 [simp, enc_simps]: "length (le64 x) = 8"
  by (simp add: le64_def)

lemma of_le32_le32 [simp, enc_simps]: "of_le32 (le32 x) = x"
  by (simp add: of_le32_def le32_def of_le_bytes_le_bytes)

lemma of_le64_le64 [simp, enc_simps]: "of_le64 (le64 x) = x"
  by (simp add: of_le64_def le64_def of_le_bytes_le_bytes)

lemma le32_of_le32 [simp, enc_simps]: "length bs = 4 \<Longrightarrow> le32 (of_le32 bs) = bs"
  by (simp add: of_le32_def le32_def le_bytes_of_le_bytes)

lemma le64_of_le64 [simp, enc_simps]: "length bs = 8 \<Longrightarrow> le64 (of_le64 bs) = bs"
  by (simp add: of_le64_def le64_def le_bytes_of_le_bytes)

section \<open>Fields of a buffer and copies into a buffer\<close>

text \<open>
  \<open>field off n bs\<close> is the \<open>n\<close> bytes at offset \<open>off\<close>; \<open>overlay off new bs\<close> is
  \<open>memcpy(bs + off, new, sizeof new)\<close>.
\<close>

definition field :: "nat \<Rightarrow> nat \<Rightarrow> 'a list \<Rightarrow> 'a list" where
  "field off n bs = take n (drop off bs)"

definition overlay :: "nat \<Rightarrow> 'a list \<Rightarrow> 'a list \<Rightarrow> 'a list" where
  "overlay off new bs = take off bs @ new @ drop (off + length new) bs"

lemma length_field [simp]: "off + n \<le> length bs \<Longrightarrow> length (field off n bs) = n"
  by (simp add: field_def)

lemma length_overlay [simp]:
  "off + length new \<le> length bs \<Longrightarrow> length (overlay off new bs) = length bs"
  by (simp add: overlay_def)

lemma nth_field: "i < n \<Longrightarrow> off + n \<le> length bs \<Longrightarrow> field off n bs ! i = bs ! (off + i)"
  by (simp add: field_def)

lemma nth_overlay:
  assumes "off + length new \<le> length bs" and "i < length bs"
  shows "overlay off new bs ! i =
    (if off \<le> i \<and> i < off + length new then new ! (i - off) else bs ! i)"
  using assms by (auto simp: overlay_def nth_append min_def)

lemma field_overlay_same [simp]:
  "off + length new \<le> length bs \<Longrightarrow> n = length new \<Longrightarrow> field off n (overlay off new bs) = new"
  by (simp add: field_def overlay_def)

lemma field_overlay_other:
  assumes "off + length new \<le> length bs" and "o2 + n \<le> length bs"
    and "o2 + n \<le> off \<or> off + length new \<le> o2"
  shows "field o2 n (overlay off new bs) = field o2 n bs"
proof (rule nth_equalityI)
  show "length (field o2 n (overlay off new bs)) = length (field o2 n bs)"
    using assms by simp
  fix i assume "i < length (field o2 n (overlay off new bs))"
  then have "i < n" using assms by simp
  then show "field o2 n (overlay off new bs) ! i = field o2 n bs ! i"
    using assms by (auto simp: nth_field nth_overlay)
qed

lemma overlay_field_id [simp]: "off + n \<le> length bs \<Longrightarrow> overlay off (field off n bs) bs = bs"
  by (simp add: overlay_def field_def min_def) (metis append_take_drop_id drop_drop add.commute)

lemma overlay_overlay_same [simp]:
  "off + length new \<le> length bs \<Longrightarrow> length new = length new2 \<Longrightarrow>
   overlay off new2 (overlay off new bs) = overlay off new2 bs"
  by (simp add: overlay_def)

section \<open>Byte-addressed images\<close>

definition write_bytes :: "nat \<Rightarrow> bytes \<Rightarrow> (nat \<Rightarrow> u8) \<Rightarrow> (nat \<Rightarrow> u8)" where
  "write_bytes off data f =
     (\<lambda>a. if off \<le> a \<and> a < off + length data then data ! (a - off) else f a)"

lemma write_bytes_Nil [simp]: "write_bytes off [] f = f"
  by (auto simp: write_bytes_def fun_eq_iff)

lemma write_bytes_append:
  "write_bytes off (xs @ ys) f = write_bytes (off + length xs) ys (write_bytes off xs f)"
  by (auto simp: write_bytes_def fun_eq_iff nth_append)

lemma write_bytes_outside:
  "a < off \<or> off + length data \<le> a \<Longrightarrow> write_bytes off data f a = f a"
  by (auto simp: write_bytes_def)

section \<open>List searches and loops\<close>

text \<open>The first index in \<open>[i, hi)\<close> that satisfies \<open>p\<close>: a C \<open>for\<close> loop that leaves at the first hit.\<close>

function first_from :: "(nat \<Rightarrow> bool) \<Rightarrow> nat \<Rightarrow> nat \<Rightarrow> nat option" where
  "first_from p i hi = (if i < hi then if p i then Some i else first_from p (Suc i) hi else None)"
  by pat_completeness auto
termination
  by (relation "measure (\<lambda>(p, i, hi). hi - i)") auto

declare first_from.simps [simp del]

lemma first_from_None: "first_from p i hi = None \<longleftrightarrow> (\<forall>k. i \<le> k \<longrightarrow> k < hi \<longrightarrow> \<not> p k)"
proof (induction p i hi rule: first_from.induct)
  case (1 p i hi)
  show ?case
  proof (cases "i < hi \<and> \<not> p i")
    case True
    then have "first_from p i hi = first_from p (Suc i) hi"
      by (simp add: first_from.simps [of p i hi])
    also have "\<dots> = None \<longleftrightarrow> (\<forall>k. Suc i \<le> k \<longrightarrow> k < hi \<longrightarrow> \<not> p k)"
      using "1.IH" True by simp
    finally show ?thesis
      using True by (metis Suc_le_eq le_neq_implies_less less_imp_le)
  next
    case False
    then show ?thesis by (auto simp: first_from.simps [of p i hi])
  qed
qed

lemma first_from_Some:
  "first_from p i hi = Some k \<longleftrightarrow> i \<le> k \<and> k < hi \<and> p k \<and> (\<forall>j. i \<le> j \<longrightarrow> j < k \<longrightarrow> \<not> p j)"
proof (induction p i hi rule: first_from.induct)
  case (1 p i hi)
  have unfold: "first_from p i hi =
      (if i < hi then if p i then Some i else first_from p (Suc i) hi else None)"
    by (rule first_from.simps)
  consider (hit) "i < hi" "p i" | (skip) "i < hi" "\<not> p i" | (stop) "hi \<le> i" by linarith
  then show ?case
  proof cases
    case hit
    then have "first_from p i hi = Some i"
      using unfold by simp
    moreover have "k = i" if "i \<le> k" "\<forall>j. i \<le> j \<longrightarrow> j < k \<longrightarrow> \<not> p j"
      using that hit by (metis order_le_less order_refl)
    ultimately show ?thesis using hit by auto
  next
    case skip
    then have "(first_from p i hi = Some k) \<longleftrightarrow>
        Suc i \<le> k \<and> k < hi \<and> p k \<and> (\<forall>j. Suc i \<le> j \<longrightarrow> j < k \<longrightarrow> \<not> p j)"
      using "1.IH" unfold by simp
    then show ?thesis
      using skip by (metis Suc_leD Suc_le_eq le_neq_implies_less)
  next
    case stop
    then show ?thesis using unfold by simp
  qed
qed

lemma first_from_cong:
  "(\<And>k. i \<le> k \<Longrightarrow> k < hi \<Longrightarrow> p k = q k) \<Longrightarrow> first_from p i hi = first_from q i hi"
proof (induction p i hi rule: first_from.induct)
  case (1 p i hi)
  then show ?case
    by (auto simp: first_from.simps [of p i hi] first_from.simps [of q i hi])
qed

lemmas first_from_iffs = first_from_None first_from_Some

end
