(* ===== verification/Ufs_Layout.thy ===== *)
theory Ufs_Layout
  imports Ufs_Prelude
begin

text \<open>
  The constants and persistent structures of \<open>include/userfs.h\<close> and \<open>include/ufs_internal.h\<close>
  (superblock, timestamp, inode, directory entry) and the two journal records of
  \<open>src/journal.c\<close>, with the byte layout the C compiler gives them (every field naturally
  aligned, no padding between fields, little-endian integers). The encodings are what the
  \<open>memcpy\<close> calls of the sources do; each comes with its length and its round trip in both
  directions. Fixed-size arrays are lists, and the well-formedness predicates say which length
  they have.
\<close>

section \<open>Constants\<close>

abbreviation (input) UFS_BLOCK_SIZE :: nat where "UFS_BLOCK_SIZE \<equiv> 512"
abbreviation (input) UFS_MAX_NAME :: nat where "UFS_MAX_NAME \<equiv> 31"
abbreviation (input) UFS_MAX_PATH :: nat where "UFS_MAX_PATH \<equiv> 255"
abbreviation (input) UFS_MAX_OPEN_FILES :: nat where "UFS_MAX_OPEN_FILES \<equiv> 32"
abbreviation (input) UFS_TYPE_FILE :: u32 where "UFS_TYPE_FILE \<equiv> 1"
abbreviation (input) UFS_TYPE_DIR :: u32 where "UFS_TYPE_DIR \<equiv> 2"
abbreviation (input) UFS_TYPE_SYMLINK :: u32 where "UFS_TYPE_SYMLINK \<equiv> 3"

abbreviation (input) UFS_MAGIC :: u32 where "UFS_MAGIC \<equiv> 0x55465331"
abbreviation (input) UFS_VERSION :: u32 where "UFS_VERSION \<equiv> 2"
abbreviation (input) UFS_TOTAL_BLOCKS :: nat where "UFS_TOTAL_BLOCKS \<equiv> 32768"
abbreviation (input) UFS_IMAGE_SIZE :: nat where "UFS_IMAGE_SIZE \<equiv> 16777216"
abbreviation (input) UFS_MAX_INODES :: nat where "UFS_MAX_INODES \<equiv> 512"
abbreviation (input) UFS_ROOT_INODE :: nat where "UFS_ROOT_INODE \<equiv> 0"
abbreviation (input) UFS_INODE_SIZE :: nat where "UFS_INODE_SIZE \<equiv> 128"
abbreviation (input) UFS_DIRENT_SIZE :: nat where "UFS_DIRENT_SIZE \<equiv> 64"
abbreviation (input) UFS_DIRECT_BLOCKS :: nat where "UFS_DIRECT_BLOCKS \<equiv> 8"
abbreviation (input) UFS_INVALID_BLOCK :: u32 where "UFS_INVALID_BLOCK \<equiv> 0xFFFFFFFF"

abbreviation (input) UFS_SUPERBLOCK_BLK :: nat where "UFS_SUPERBLOCK_BLK \<equiv> 0"
abbreviation (input) UFS_INODE_BITMAP_BLK :: nat where "UFS_INODE_BITMAP_BLK \<equiv> 1"
abbreviation (input) UFS_INODE_BITMAP_BLOCKS :: nat where "UFS_INODE_BITMAP_BLOCKS \<equiv> 1"
abbreviation (input) UFS_BLOCK_BITMAP_START_BLK :: nat where "UFS_BLOCK_BITMAP_START_BLK \<equiv> 2"
abbreviation (input) UFS_BLOCK_BITMAP_BLOCKS :: nat where "UFS_BLOCK_BITMAP_BLOCKS \<equiv> 8"
abbreviation (input) UFS_INODE_TABLE_START_BLK :: nat where "UFS_INODE_TABLE_START_BLK \<equiv> 10"
abbreviation (input) UFS_INODE_TABLE_BLOCKS :: nat where "UFS_INODE_TABLE_BLOCKS \<equiv> 128"
abbreviation (input) UFS_JOURNAL_START_BLK :: nat where "UFS_JOURNAL_START_BLK \<equiv> 138"
abbreviation (input) UFS_JOURNAL_BLOCKS :: nat where "UFS_JOURNAL_BLOCKS \<equiv> 2048"
abbreviation (input) UFS_JOURNAL_COMMIT_BLK :: nat where "UFS_JOURNAL_COMMIT_BLK \<equiv> 2185"
abbreviation (input) UFS_DATA_REGION_START_BLK :: nat where "UFS_DATA_REGION_START_BLK \<equiv> 2186"
abbreviation (input) UFS_DATA_REGION_BLOCKS :: nat where "UFS_DATA_REGION_BLOCKS \<equiv> 30582"

abbreviation (input) UFS_JOURNAL_MAGIC :: u32 where "UFS_JOURNAL_MAGIC \<equiv> 0x4A4F5552"
abbreviation (input) UFS_JOURNAL_COMMIT_MAGIC :: u32 where "UFS_JOURNAL_COMMIT_MAGIC \<equiv> 0x434F4D4D"
abbreviation (input) UFS_MAX_TX_BLOCKS :: nat where "UFS_MAX_TX_BLOCKS \<equiv> 124"
abbreviation (input) UFS_STATE_CLEAN :: u32 where "UFS_STATE_CLEAN \<equiv> 0"
abbreviation (input) UFS_STATE_DIRTY :: u32 where "UFS_STATE_DIRTY \<equiv> 1"

section \<open>Concatenated fields\<close>

lemma field_append_skip [enc_simps]:
  "length xs \<le> off \<Longrightarrow> field off n (xs @ ys) = field (off - length xs) n ys"
  by (simp add: field_def)

lemma field_append_here [enc_simps]:
  "length xs = n \<Longrightarrow> field 0 n (xs @ ys) = xs"
  by (simp add: field_def)

lemma field_all [enc_simps]: "length xs = n \<Longrightarrow> field 0 n xs = xs"
  by (simp add: field_def)

lemma field_join: "field o1 n bs @ field (o1 + n) m bs = field o1 (n + m) bs"
  by (simp add: field_def take_add add.commute [of o1 n])

lemma field_field: "i + k \<le> n \<Longrightarrow> field i k (field j n bs) = field (j + i) k bs"
  by (simp add: field_def drop_take add.commute min_def)

subsection \<open>Arrays of 32-bit words\<close>

definition enc_words :: "u32 list \<Rightarrow> bytes" where
  "enc_words ws = concat (map le32 ws)"

definition dec_words :: "nat \<Rightarrow> bytes \<Rightarrow> u32 list" where
  "dec_words n bs = map (\<lambda>k. of_le32 (field (4 * k) 4 bs)) [0..<n]"

lemma length_enc_words [simp, enc_simps]: "length (enc_words ws) = 4 * length ws"
  by (induction ws) (simp_all add: enc_words_def)

lemma length_dec_words [simp, enc_simps]: "length (dec_words n bs) = n"
  by (simp add: dec_words_def)

lemma nth_dec_words: "k < n \<Longrightarrow> dec_words n bs ! k = of_le32 (field (4 * k) 4 bs)"
  by (simp add: dec_words_def)

lemma field_enc_words: "k < length ws \<Longrightarrow> field (4 * k) 4 (enc_words ws) = le32 (ws ! k)"
proof (induction ws arbitrary: k)
  case Nil
  then show ?case by simp
next
  case (Cons w ws)
  have split: "enc_words (w # ws) = le32 w @ enc_words ws"
    by (simp add: enc_words_def)
  show ?case
  proof (cases k)
    case 0
    then show ?thesis by (simp add: split field_append_here)
  next
    case (Suc j)
    then show ?thesis
      using Cons by (simp add: split field_append_skip)
  qed
qed

lemma dec_enc_words [simp, enc_simps]: "length ws = n \<Longrightarrow> dec_words n (enc_words ws) = ws"
  by (rule nth_equalityI) (simp_all add: nth_dec_words field_enc_words)

lemma dec_words_Suc:
  "dec_words (Suc n) bs = of_le32 (field 0 4 bs) # dec_words n (drop 4 bs)"
proof -
  have upt: "[0..<Suc n] = 0 # map Suc [0..<n]"
    by (simp add: map_Suc_upt upt_conv_Cons del: upt_Suc)
  have "field (4 + 4 * k) 4 bs = field (4 * k) 4 (drop 4 bs)" for k
    by (simp add: field_def add.commute)
  then show ?thesis
    by (simp add: dec_words_def upt o_def del: upt_Suc)
qed

lemma enc_dec_words [simp, enc_simps]: "length bs = 4 * n \<Longrightarrow> enc_words (dec_words n bs) = bs"
proof (induction n arbitrary: bs)
  case 0
  then show ?case by (simp add: dec_words_def enc_words_def)
next
  case (Suc n)
  then have "enc_words (dec_words n (drop 4 bs)) = drop 4 bs" by simp
  moreover have "le32 (of_le32 (field 0 4 bs)) = take 4 bs"
    using Suc.prems by (simp add: field_def)
  ultimately show ?case
    by (simp add: dec_words_Suc enc_words_def)
qed

section \<open>Superblock\<close>

record ufs_superblock =
  sb_magic :: u32
  sb_version :: u32
  sb_block_size :: u32
  sb_total_blocks :: u32
  sb_inode_bitmap_start :: u32
  sb_inode_bitmap_blocks :: u32
  sb_block_bitmap_start :: u32
  sb_block_bitmap_blocks :: u32
  sb_inode_table_start :: u32
  sb_inode_table_blocks :: u32
  sb_data_region_start :: u32
  sb_data_region_blocks :: u32
  sb_total_inodes :: u32
  sb_root_inode :: u32
  sb_free_inodes :: u32
  sb_free_blocks :: u32
  sb_journal_start :: u32
  sb_journal_blocks :: u32
  sb_journal_sequence :: u32
  sb_state :: u32
  sb_features :: u32
  sb_padding :: bytes

definition sb_words :: "ufs_superblock \<Rightarrow> u32 list" where
  "sb_words sb =
     [sb_magic sb, sb_version sb, sb_block_size sb, sb_total_blocks sb,
      sb_inode_bitmap_start sb, sb_inode_bitmap_blocks sb,
      sb_block_bitmap_start sb, sb_block_bitmap_blocks sb,
      sb_inode_table_start sb, sb_inode_table_blocks sb,
      sb_data_region_start sb, sb_data_region_blocks sb,
      sb_total_inodes sb, sb_root_inode sb, sb_free_inodes sb, sb_free_blocks sb,
      sb_journal_start sb, sb_journal_blocks sb, sb_journal_sequence sb,
      sb_state sb, sb_features sb]"

definition sb_of_words :: "u32 list \<Rightarrow> bytes \<Rightarrow> ufs_superblock" where
  "sb_of_words ws pad =
     \<lparr>sb_magic = ws ! 0, sb_version = ws ! 1, sb_block_size = ws ! 2, sb_total_blocks = ws ! 3,
      sb_inode_bitmap_start = ws ! 4, sb_inode_bitmap_blocks = ws ! 5,
      sb_block_bitmap_start = ws ! 6, sb_block_bitmap_blocks = ws ! 7,
      sb_inode_table_start = ws ! 8, sb_inode_table_blocks = ws ! 9,
      sb_data_region_start = ws ! 10, sb_data_region_blocks = ws ! 11,
      sb_total_inodes = ws ! 12, sb_root_inode = ws ! 13, sb_free_inodes = ws ! 14,
      sb_free_blocks = ws ! 15, sb_journal_start = ws ! 16, sb_journal_blocks = ws ! 17,
      sb_journal_sequence = ws ! 18, sb_state = ws ! 19, sb_features = ws ! 20,
      sb_padding = pad\<rparr>"

definition enc_superblock :: "ufs_superblock \<Rightarrow> bytes" where
  "enc_superblock sb = enc_words (sb_words sb) @ sb_padding sb"

definition dec_superblock :: "bytes \<Rightarrow> ufs_superblock" where
  "dec_superblock bs = sb_of_words (dec_words 21 (field 0 84 bs)) (field 84 428 bs)"

definition sb_wf :: "ufs_superblock \<Rightarrow> bool" where
  "sb_wf sb \<longleftrightarrow> length (sb_padding sb) = 428"

lemma length_sb_words [simp]: "length (sb_words sb) = 21"
  by (simp add: sb_words_def)

lemma sb_of_words_words: "sb_of_words (sb_words sb) (sb_padding sb) = sb"
  by (simp add: sb_of_words_def sb_words_def numeral_eq_Suc)

lemma sb_words_of_words: "length ws = 21 \<Longrightarrow> sb_words (sb_of_words ws pad) = ws"
  by (rule nth_equalityI)
    (auto simp: sb_words_def sb_of_words_def less_Suc_eq numeral_eq_Suc)

lemma length_enc_superblock [simp, enc_simps]: "sb_wf sb \<Longrightarrow> length (enc_superblock sb) = 512"
  by (simp add: enc_superblock_def sb_wf_def)

lemma sb_wf_dec [simp]: "length bs = 512 \<Longrightarrow> sb_wf (dec_superblock bs)"
  by (simp add: sb_wf_def dec_superblock_def sb_of_words_def)

lemma dec_enc_superblock [simp, enc_simps]:
  "sb_wf sb \<Longrightarrow> dec_superblock (enc_superblock sb) = sb"
  by (simp add: dec_superblock_def enc_superblock_def sb_wf_def enc_simps sb_of_words_words)

lemma enc_dec_superblock [simp, enc_simps]:
  "length bs = 512 \<Longrightarrow> enc_superblock (dec_superblock bs) = bs"
  using field_join [of 0 84 bs 428]
  by (simp add: enc_superblock_def dec_superblock_def sb_words_of_words enc_simps)
    (simp add: sb_of_words_def field_all)

section \<open>Timestamps\<close>

text \<open>\<open>dt_sec\<close> is an \<open>int64_t\<close> and \<open>dt_nsec\<close> an \<open>int32_t\<close>; \<open>sint\<close> reads them.\<close>

record ufs_disk_time =
  dt_sec :: u64
  dt_nsec :: u32
  dt_reserved :: u32

definition enc_time :: "ufs_disk_time \<Rightarrow> bytes" where
  "enc_time t = le64 (dt_sec t) @ le32 (dt_nsec t) @ le32 (dt_reserved t)"

definition dec_time :: "bytes \<Rightarrow> ufs_disk_time" where
  "dec_time bs = \<lparr>dt_sec = of_le64 (field 0 8 bs), dt_nsec = of_le32 (field 8 4 bs),
                  dt_reserved = of_le32 (field 12 4 bs)\<rparr>"

definition zero_time :: ufs_disk_time where
  "zero_time = \<lparr>dt_sec = 0, dt_nsec = 0, dt_reserved = 0\<rparr>"

lemma length_enc_time [simp, enc_simps]: "length (enc_time t) = 16"
  by (simp add: enc_time_def)

lemma dec_enc_time [simp, enc_simps]: "dec_time (enc_time t) = t"
  by (simp add: dec_time_def enc_time_def enc_simps)

lemma enc_dec_time [simp, enc_simps]:
  assumes "length bs = 16" shows "enc_time (dec_time bs) = bs"
proof -
  have "enc_time (dec_time bs) = field 0 8 bs @ field 8 4 bs @ field 12 4 bs"
    using assms by (simp add: enc_time_def dec_time_def)
  also have "\<dots> = bs"
    using assms field_join [of 8 4 bs 4] field_join [of 0 8 bs 8] by (simp add: field_all)
  finally show ?thesis .
qed

section \<open>Inodes\<close>

record ufs_inode =
  ino_type :: u32
  ino_flags :: u32
  ino_mode :: u32
  ino_uid :: u32
  ino_gid :: u32
  ino_link_count :: u32
  ino_size :: u64
  ino_block_count :: u32
  ino_direct :: "u32 list"
  ino_single_indirect :: u32
  ino_double_indirect :: u32
  ino_generation :: u32
  ino_atime :: ufs_disk_time
  ino_mtime :: ufs_disk_time
  ino_ctime :: ufs_disk_time

definition ino_wf :: "ufs_inode \<Rightarrow> bool" where
  "ino_wf i \<longleftrightarrow> length (ino_direct i) = UFS_DIRECT_BLOCKS"

definition enc_inode :: "ufs_inode \<Rightarrow> bytes" where
  "enc_inode i =
     le32 (ino_type i) @ le32 (ino_flags i) @ le32 (ino_mode i) @ le32 (ino_uid i) @
     le32 (ino_gid i) @ le32 (ino_link_count i) @ le64 (ino_size i) @
     le32 (ino_block_count i) @ enc_words (ino_direct i) @
     le32 (ino_single_indirect i) @ le32 (ino_double_indirect i) @ le32 (ino_generation i) @
     enc_time (ino_atime i) @ enc_time (ino_mtime i) @ enc_time (ino_ctime i)"

definition dec_inode :: "bytes \<Rightarrow> ufs_inode" where
  "dec_inode bs =
     \<lparr>ino_type = of_le32 (field 0 4 bs), ino_flags = of_le32 (field 4 4 bs),
      ino_mode = of_le32 (field 8 4 bs), ino_uid = of_le32 (field 12 4 bs),
      ino_gid = of_le32 (field 16 4 bs), ino_link_count = of_le32 (field 20 4 bs),
      ino_size = of_le64 (field 24 8 bs), ino_block_count = of_le32 (field 32 4 bs),
      ino_direct = dec_words 8 (field 36 32 bs),
      ino_single_indirect = of_le32 (field 68 4 bs),
      ino_double_indirect = of_le32 (field 72 4 bs),
      ino_generation = of_le32 (field 76 4 bs),
      ino_atime = dec_time (field 80 16 bs), ino_mtime = dec_time (field 96 16 bs),
      ino_ctime = dec_time (field 112 16 bs)\<rparr>"

lemma length_enc_inode [simp, enc_simps]: "ino_wf i \<Longrightarrow> length (enc_inode i) = 128"
  by (simp add: enc_inode_def ino_wf_def)

lemma ino_wf_dec [simp]: "ino_wf (dec_inode bs)"
  by (simp add: ino_wf_def dec_inode_def)

lemma dec_enc_inode [simp, enc_simps]: "ino_wf i \<Longrightarrow> dec_inode (enc_inode i) = i"
  by (simp add: dec_inode_def enc_inode_def ino_wf_def enc_simps)

lemma enc_dec_inode [simp, enc_simps]:
  assumes len: "length bs = 128" shows "enc_inode (dec_inode bs) = bs"
proof -
  have "enc_inode (dec_inode bs) =
      field 0 4 bs @ field 4 4 bs @ field 8 4 bs @ field 12 4 bs @ field 16 4 bs @
      field 20 4 bs @ field 24 8 bs @ field 32 4 bs @ field 36 32 bs @ field 68 4 bs @
      field 72 4 bs @ field 76 4 bs @ field 80 16 bs @ field 96 16 bs @ field 112 16 bs"
    using len by (simp add: enc_inode_def dec_inode_def)
  also have "\<dots> = field 0 128 bs"
    by (simp add: field_join [of 96 16 bs 16, simplified] field_join [of 80 16 bs 32, simplified]
        field_join [of 76 4 bs 48, simplified] field_join [of 72 4 bs 52, simplified]
        field_join [of 68 4 bs 56, simplified] field_join [of 36 32 bs 60, simplified]
        field_join [of 32 4 bs 92, simplified] field_join [of 24 8 bs 96, simplified]
        field_join [of 20 4 bs 104, simplified] field_join [of 16 4 bs 108, simplified]
        field_join [of 12 4 bs 112, simplified] field_join [of 8 4 bs 116, simplified]
        field_join [of 4 4 bs 120, simplified] field_join [of 0 4 bs 124, simplified])
  also have "\<dots> = bs" using len by (simp add: field_all)
  finally show ?thesis .
qed

section \<open>Directory entries\<close>

record ufs_disk_dirent =
  de_used :: u32
  de_inode_number :: u32
  de_type :: u32
  de_name :: bytes
  de_reserved :: "u32 list"

definition de_wf :: "ufs_disk_dirent \<Rightarrow> bool" where
  "de_wf d \<longleftrightarrow> length (de_name d) = 32 \<and> length (de_reserved d) = 5"

definition enc_dirent :: "ufs_disk_dirent \<Rightarrow> bytes" where
  "enc_dirent d = le32 (de_used d) @ le32 (de_inode_number d) @ le32 (de_type d) @
     de_name d @ enc_words (de_reserved d)"

definition dec_dirent :: "bytes \<Rightarrow> ufs_disk_dirent" where
  "dec_dirent bs =
     \<lparr>de_used = of_le32 (field 0 4 bs), de_inode_number = of_le32 (field 4 4 bs),
      de_type = of_le32 (field 8 4 bs), de_name = field 12 32 bs,
      de_reserved = dec_words 5 (field 44 20 bs)\<rparr>"

definition zero_dirent :: ufs_disk_dirent where
  "zero_dirent = \<lparr>de_used = 0, de_inode_number = 0, de_type = 0,
     de_name = replicate 32 0, de_reserved = replicate 5 0\<rparr>"

lemma length_enc_dirent [simp, enc_simps]: "de_wf d \<Longrightarrow> length (enc_dirent d) = 64"
  by (simp add: enc_dirent_def de_wf_def)

lemma de_wf_dec [simp]: "length bs = 64 \<Longrightarrow> de_wf (dec_dirent bs)"
  by (simp add: de_wf_def dec_dirent_def)

lemma dec_enc_dirent [simp, enc_simps]: "de_wf d \<Longrightarrow> dec_dirent (enc_dirent d) = d"
  by (simp add: dec_dirent_def enc_dirent_def de_wf_def enc_simps)

lemma enc_dec_dirent [simp, enc_simps]:
  assumes len: "length bs = 64" shows "enc_dirent (dec_dirent bs) = bs"
proof -
  have "enc_dirent (dec_dirent bs) =
      field 0 4 bs @ field 4 4 bs @ field 8 4 bs @ field 12 32 bs @ field 44 20 bs"
    using len by (simp add: enc_dirent_def dec_dirent_def)
  also have "\<dots> = field 0 64 bs"
    by (simp add: field_join [of 12 32 bs 20, simplified] field_join [of 8 4 bs 52, simplified]
        field_join [of 4 4 bs 56, simplified] field_join [of 0 4 bs 60, simplified])
  also have "\<dots> = bs" using len by (simp add: field_all)
  finally show ?thesis .
qed

section \<open>Journal records\<close>

record ufs_journal_header =
  jh_magic :: u32
  jh_seq :: u32
  jh_num_blocks :: u32
  jh_checksum :: u32
  jh_target_blocks :: "u32 list"

record ufs_journal_commit =
  jc_magic :: u32
  jc_seq :: u32
  jc_padding :: bytes

definition jh_wf :: "ufs_journal_header \<Rightarrow> bool" where
  "jh_wf h \<longleftrightarrow> length (jh_target_blocks h) = UFS_MAX_TX_BLOCKS"

definition enc_header :: "ufs_journal_header \<Rightarrow> bytes" where
  "enc_header h = le32 (jh_magic h) @ le32 (jh_seq h) @ le32 (jh_num_blocks h) @
     le32 (jh_checksum h) @ enc_words (jh_target_blocks h)"

definition dec_header :: "bytes \<Rightarrow> ufs_journal_header" where
  "dec_header bs =
     \<lparr>jh_magic = of_le32 (field 0 4 bs), jh_seq = of_le32 (field 4 4 bs),
      jh_num_blocks = of_le32 (field 8 4 bs), jh_checksum = of_le32 (field 12 4 bs),
      jh_target_blocks = dec_words 124 (field 16 496 bs)\<rparr>"

definition zero_header :: ufs_journal_header where
  "zero_header = \<lparr>jh_magic = 0, jh_seq = 0, jh_num_blocks = 0, jh_checksum = 0,
     jh_target_blocks = replicate 124 0\<rparr>"

definition jc_wf :: "ufs_journal_commit \<Rightarrow> bool" where
  "jc_wf c \<longleftrightarrow> length (jc_padding c) = 504"

definition enc_commit :: "ufs_journal_commit \<Rightarrow> bytes" where
  "enc_commit c = le32 (jc_magic c) @ le32 (jc_seq c) @ jc_padding c"

definition dec_commit :: "bytes \<Rightarrow> ufs_journal_commit" where
  "dec_commit bs = \<lparr>jc_magic = of_le32 (field 0 4 bs), jc_seq = of_le32 (field 4 4 bs),
     jc_padding = field 8 504 bs\<rparr>"

definition zero_commit :: ufs_journal_commit where
  "zero_commit = \<lparr>jc_magic = 0, jc_seq = 0, jc_padding = replicate 504 0\<rparr>"

lemma length_enc_header [simp, enc_simps]: "jh_wf h \<Longrightarrow> length (enc_header h) = 512"
  by (simp add: enc_header_def jh_wf_def)

lemma jh_wf_dec [simp]: "jh_wf (dec_header bs)"
  by (simp add: jh_wf_def dec_header_def)

lemma jh_wf_zero [simp]: "jh_wf zero_header"
  by (simp add: jh_wf_def zero_header_def)

lemma dec_enc_header [simp, enc_simps]: "jh_wf h \<Longrightarrow> dec_header (enc_header h) = h"
  by (simp add: dec_header_def enc_header_def jh_wf_def enc_simps)

lemma length_enc_commit [simp, enc_simps]: "jc_wf c \<Longrightarrow> length (enc_commit c) = 512"
  by (simp add: enc_commit_def jc_wf_def)

lemma jc_wf_zero [simp]: "jc_wf zero_commit"
  by (simp add: jc_wf_def zero_commit_def)

lemma dec_enc_commit [simp, enc_simps]: "jc_wf c \<Longrightarrow> dec_commit (enc_commit c) = c"
  by (simp add: dec_commit_def enc_commit_def jc_wf_def enc_simps)

end
