(* ===== verification/Ufs_World.thy ===== *)
theory Ufs_World
  imports Ufs_Layout
begin

text \<open>
  The state a UserFS process works on and the language its functions are written in.

  The record \<open>world\<close> holds the host file behind the disk image (its current bytes, the bytes
  that survived the last \<open>fsync\<close> and the writes since), the process globals of the sources
  (\<open>g_ufs\<close>, \<open>g_journal_seq\<close>, \<open>current_ufs_umask\<close>, \<open>descriptor_table\<close>, the operation lock),
  \<open>errno\<close>, the credentials and the clock of the caller, and a script of system-call outcomes:
  each system call takes the next entry, \<open>Fault e\<close> makes it fail with errno \<open>e\<close> and
  \<open>Xfer n\<close> lets it move at most \<open>n\<close> bytes; when the script is used up every call succeeds.
  \<open>stack_junk\<close> is what an uninitialised local field happens to hold; \<open>memory\<close> and \<open>next_map\<close> are the
  process memory behind anonymous mappings and the address the next one gets.
  A theorem that quantifies over the script covers every pattern of I/O errors, interrupted
  calls and short transfers.

  A C function that returns 0 or a value, or -1 with \<open>errno\<close> set, is an \<open>'a op\<close>: from a world
  it gives \<open>Some\<close> of the result or \<open>None\<close> for -1, and the world it leaves. The combinators
  below are the control-flow patterns of the sources.
\<close>

section \<open>The world\<close>

datatype errno = ENOENT | EEXIST | ENOSPC | ENOTDIR | EISDIR | ENOTEMPTY | EINVAL | EBADF
  | EACCES | EMFILE | EBUSY | ELOOP | EIO | ENODEV | EFBIG | ENAMETOOLONG | EPERM | EMLINK
  | ENOMEM | ESTALE | EINTR | EOTHER nat

datatype sysres = Xfer nat | Fault errno

datatype lock_kind = F_RDLCK | F_WRLCK

record timespec =
  tv_sec :: u64
  tv_nsec :: u64

record file_io_descriptor =
  fde_in_use :: bool
  fde_inode_number :: u32
  fde_inode_generation :: u32
  fde_offset :: u64
  fde_flags :: u32

definition zero_descriptor :: file_io_descriptor where
  "zero_descriptor = \<lparr>fde_in_use = False, fde_inode_number = 0, fde_inode_generation = 0,
     fde_offset = 0, fde_flags = 0\<rparr>"

record ufs_mapping =
  map_in_use :: bool
  map_address :: nat
  map_length :: u64
  map_file_offset :: u64
  map_inode_number :: u32
  map_inode_generation :: u32
  map_protection :: u32
  map_flags :: u32

definition zero_mapping :: ufs_mapping where
  "zero_mapping = \<lparr>map_in_use = False, map_address = 0, map_length = 0, map_file_offset = 0,
     map_inode_number = 0, map_inode_generation = 0, map_protection = 0, map_flags = 0\<rparr>"

record world =
  img :: "nat \<Rightarrow> u8"
  img_exists :: bool
  img_len :: nat
  stable :: "nat \<Rightarrow> u8"
  unsynced :: "(nat \<times> bytes) list"
  script :: "sysres list"
  errno :: errno
  ufs_mounted :: bool
  ufs_fd :: int
  ufs_sb :: ufs_superblock
  journal_seq :: u32
  ufs_umask :: u32
  euid :: u32
  egid :: u32
  sup_groups :: "u32 list"
  clock :: "nat \<Rightarrow> timespec"
  ticks :: nat
  descriptor_table :: "file_io_descriptor list"
  lock_depth :: nat
  mutex_held :: bool
  image_lock :: "lock_kind option"
  stack_junk :: u32
  mapping_table :: "ufs_mapping list"
  memory :: "nat \<Rightarrow> u8"
  next_map :: nat

type_synonym ('s, 'a) st_op = "'s \<Rightarrow> 'a option \<times> 's"
type_synonym 'a op = "(world, 'a) st_op"

section \<open>Control flow\<close>

definition ret :: "'a \<Rightarrow> ('s, 'a) st_op" where
  "ret x w = (Some x, w)"

text \<open>\<open>errno = e; return -1;\<close>, and \<open>return -1;\<close> with \<open>errno\<close> as a callee left it.\<close>

definition fail :: "errno \<Rightarrow> 'a op" where
  "fail e w = (None, w\<lparr>errno := e\<rparr>)"

definition fail_same :: "('s, 'a) st_op" where
  "fail_same w = (None, w)"

text \<open>\<open>if (m != 0) return -1;\<close> then the rest.\<close>

definition on_ok :: "('s, 'a) st_op \<Rightarrow> ('a \<Rightarrow> ('s, 'b) st_op) \<Rightarrow> ('s, 'b) st_op" where
  "on_ok m k w = (case m w of (None, w1) \<Rightarrow> (None, w1) | (Some x, w1) \<Rightarrow> k x w1)"

text \<open>\<open>if (m == 0) ok else err\<close>.\<close>

definition attempt ::
  "('s, 'a) st_op \<Rightarrow> ('a \<Rightarrow> ('s, 'b) st_op) \<Rightarrow> ('s, 'b) st_op \<Rightarrow> ('s, 'b) st_op" where
  "attempt m ok err w = (case m w of (None, w1) \<Rightarrow> err w1 | (Some x, w1) \<Rightarrow> ok x w1)"

text \<open>\<open>(void)m;\<close> then the rest.\<close>

definition discard :: "('s, 'a) st_op \<Rightarrow> ('s, 'b) st_op \<Rightarrow> ('s, 'b) st_op" where
  "discard m k w = k (snd (m w))"

definition require :: "bool \<Rightarrow> errno \<Rightarrow> 'a op \<Rightarrow> 'a op" where
  "require c e k = (if c then k else fail e)"

definition asking :: "('s \<Rightarrow> 'x) \<Rightarrow> ('x \<Rightarrow> ('s, 'a) st_op) \<Rightarrow> ('s, 'a) st_op" where
  "asking f k w = k (f w) w"

definition modify :: "('s \<Rightarrow> 's) \<Rightarrow> ('s, 'a) st_op \<Rightarrow> ('s, 'a) st_op" where
  "modify f k w = k (f w)"

text \<open>\<open>saved_errno = errno; (void)cleanup; errno = saved_errno; return -1;\<close>\<close>

definition fail_after :: "'a op \<Rightarrow> 'b op" where
  "fail_after cleanup w = (None, (snd (cleanup w))\<lparr>errno := errno w\<rparr>)"

text \<open>
  A function with an in/out parameter (a \<open>struct ufs_inode *\<close>) works on pairs of that parameter
  and the world; it leaves the parameter changed also when it fails. \<open>on_world\<close> calls a function
  that does not get the parameter.
\<close>

definition on_world :: "'a op \<Rightarrow> ('p \<times> world, 'a) st_op" where
  "on_world m s = (case m (snd s) of (r, w) \<Rightarrow> (r, (fst s, w)))"

text \<open>A counted loop over \<open>is\<close> with loop variables \<open>s\<close> that stops at the first failure.\<close>

fun for_each :: "nat list \<Rightarrow> (nat \<Rightarrow> 'v \<Rightarrow> ('s, 'v) st_op) \<Rightarrow> 'v \<Rightarrow> ('s, 'v) st_op" where
  "for_each [] body s = ret s"
| "for_each (i # is) body s = on_ok (body i s) (for_each is body)"

text \<open>A search loop that returns from inside its body: the first \<open>Some\<close>, or \<open>None\<close> at the end.\<close>

fun find_each :: "nat list \<Rightarrow> (nat \<Rightarrow> ('s, 'a option) st_op) \<Rightarrow> ('s, 'a option) st_op" where
  "find_each [] body = ret None"
| "find_each (i # is) body = on_ok (body i) (\<lambda>r. case r of
      Some x \<Rightarrow> ret (Some x) | None \<Rightarrow> find_each is body)"

lemmas op_defs = ret_def fail_def fail_same_def on_ok_def attempt_def discard_def require_def
  asking_def modify_def fail_after_def on_world_def

lemma on_ok_Some: "m w = (Some x, w1) \<Longrightarrow> on_ok m k w = k x w1"
  by (simp add: on_ok_def)

lemma on_ok_None: "m w = (None, w1) \<Longrightarrow> on_ok m k w = (None, w1)"
  by (simp add: on_ok_def)

lemma attempt_Some: "m w = (Some x, w1) \<Longrightarrow> attempt m ok err w = ok x w1"
  by (simp add: attempt_def)

lemma attempt_None: "m w = (None, w1) \<Longrightarrow> attempt m ok err w = err w1"
  by (simp add: attempt_def)

lemma discard_run: "m w = (r, w1) \<Longrightarrow> discard m k w = k w1"
  by (simp add: discard_def)

lemma require_True [simp]: "require True e k = k"
  by (simp add: require_def)

lemma require_False [simp]: "require False e k = fail e"
  by (simp add: require_def)

lemma on_world_run: "m w = (r, w1) \<Longrightarrow> on_world m (p, w) = (r, (p, w1))"
  by (simp add: on_world_def)

lemmas run_simps = on_ok_Some on_ok_None attempt_Some attempt_None discard_run on_world_run

lemma on_ok_eq_Some:
  "on_ok m k w = (Some y, w2) \<longleftrightarrow> (\<exists>x w1. m w = (Some x, w1) \<and> k x w1 = (Some y, w2))"
  by (auto simp: on_ok_def split: prod.splits option.splits)

lemma on_ok_eq_None:
  "on_ok m k w = (None, w2) \<longleftrightarrow>
     m w = (None, w2) \<or> (\<exists>x w1. m w = (Some x, w1) \<and> k x w1 = (None, w2))"
  by (auto simp: on_ok_def split: prod.splits option.splits)

lemma on_ok_assoc: "on_ok (on_ok m k) h = on_ok m (\<lambda>x. on_ok (k x) h)"
  by (auto simp: fun_eq_iff on_ok_def split: prod.splits option.splits)

lemma on_ok_ret_left [simp]: "on_ok (ret x) k = k x"
  by (simp add: fun_eq_iff on_ok_def ret_def)

lemma for_each_append:
  "for_each (is @ js) body s = on_ok (for_each is body s) (for_each js body)"
  by (induction "is" arbitrary: s)
    (auto simp: fun_eq_iff on_ok_def ret_def split: prod.splits option.splits)

section \<open>What an operation keeps\<close>

text \<open>
  \<open>preserves P m\<close>: an operation never leaves a world that satisfies \<open>P\<close> for one that does not,
  whatever its result and whatever system calls fail. The rules follow the combinators, so a
  frame property of a C function follows from those of its callees.
\<close>

definition preserves :: "('s \<Rightarrow> bool) \<Rightarrow> ('s, 'a) st_op \<Rightarrow> bool" where
  "preserves P m \<longleftrightarrow> (\<forall>w. P w \<longrightarrow> P (snd (m w)))"

named_theorems preserves_intros \<open>preservation by the combinators and by finished operations\<close>

lemma preservesI: "(\<And>w. P w \<Longrightarrow> P (snd (m w))) \<Longrightarrow> preserves P m"
  by (simp add: preserves_def)

lemma preservesD: "preserves P m \<Longrightarrow> P w \<Longrightarrow> P (snd (m w))"
  by (simp add: preserves_def)

lemma preservesE: "preserves P m \<Longrightarrow> P w \<Longrightarrow> m w = (r, w1) \<Longrightarrow> P w1"
  by (metis preserves_def snd_conv)

lemma preserves_ret [preserves_intros]: "preserves P (ret x)"
  by (simp add: preserves_def ret_def)

lemma preserves_fail_same [preserves_intros]: "preserves P fail_same"
  by (simp add: preserves_def fail_same_def)

lemma preserves_fail [preserves_intros]:
  "(\<And>w e. P (w\<lparr>errno := e\<rparr>) = P w) \<Longrightarrow> preserves P (fail e)"
  by (simp add: preserves_def fail_def)

lemma preserves_on_ok [preserves_intros]:
  "preserves P m \<Longrightarrow> (\<And>x. preserves P (k x)) \<Longrightarrow> preserves P (on_ok m k)"
  unfolding preserves_def on_ok_def
  by (simp add: case_prod_unfold option.case_eq_if)

lemma preserves_attempt [preserves_intros]:
  "preserves P m \<Longrightarrow> (\<And>x. preserves P (ok x)) \<Longrightarrow> preserves P err \<Longrightarrow>
   preserves P (attempt m ok err)"
  unfolding preserves_def attempt_def
  by (simp add: case_prod_unfold option.case_eq_if)

lemma preserves_discard [preserves_intros]:
  "preserves P m \<Longrightarrow> preserves P k \<Longrightarrow> preserves P (discard m k)"
  by (simp add: preserves_def discard_def)

lemma preserves_require [preserves_intros]:
  "(\<And>w e. P (w\<lparr>errno := e\<rparr>) = P w) \<Longrightarrow> (c \<Longrightarrow> preserves P k) \<Longrightarrow> preserves P (require c e k)"
  by (simp add: require_def preserves_fail)

lemma preserves_asking [preserves_intros]:
  "(\<And>x. preserves P (k x)) \<Longrightarrow> preserves P (asking f k)"
  by (simp add: preserves_def asking_def)

lemma preserves_modify [preserves_intros]:
  "(\<And>w. P w \<Longrightarrow> P (f w)) \<Longrightarrow> preserves P k \<Longrightarrow> preserves P (modify f k)"
  by (simp add: preserves_def modify_def)

lemma preserves_fail_after [preserves_intros]:
  "(\<And>w e. P (w\<lparr>errno := e\<rparr>) = P w) \<Longrightarrow> preserves P m \<Longrightarrow> preserves P (fail_after m)"
  by (simp add: preserves_def fail_after_def)

lemma preserves_on_world [preserves_intros]:
  "preserves P m \<Longrightarrow> preserves (\<lambda>s. P (snd s)) (on_world m)"
  by (auto simp: preserves_def on_world_def split: prod.splits)

lemma preserves_if [preserves_intros]:
  "(c \<Longrightarrow> preserves P a) \<Longrightarrow> (\<not> c \<Longrightarrow> preserves P b) \<Longrightarrow> preserves P (if c then a else b)"
  by simp

lemma preserves_case_option [preserves_intros]:
  "preserves P a \<Longrightarrow> (\<And>x. preserves P (b x)) \<Longrightarrow> preserves P (case v of None \<Rightarrow> a | Some x \<Rightarrow> b x)"
  by (cases v) simp_all

lemma preserves_case_prod [preserves_intros]:
  "(\<And>x y. preserves P (f x y)) \<Longrightarrow> preserves P (case v of (x, y) \<Rightarrow> f x y)"
  by (cases v) simp

lemma preserves_for_each [preserves_intros]:
  "(\<And>i s. preserves P (body i s)) \<Longrightarrow> preserves P (for_each is body s)"
  by (induction "is" arbitrary: s) (auto intro: preserves_intros)

section \<open>System calls\<close>

definition syscall :: "(nat option \<Rightarrow> 'a op) \<Rightarrow> 'a op" where
  "syscall k w = (case script w of
      [] \<Rightarrow> k None w
    | Xfer n # r \<Rightarrow> k (Some n) (w\<lparr>script := r\<rparr>)
    | Fault e # r \<Rightarrow> (None, w\<lparr>script := r, errno := e\<rparr>))"

definition limited :: "nat option \<Rightarrow> nat \<Rightarrow> nat" where
  "limited lim n = (case lim of None \<Rightarrow> n | Some m \<Rightarrow> min m n)"

text \<open>\<open>pread\<close> returns the bytes it moved, none of them past the end of the file.\<close>

definition file_bytes :: "world \<Rightarrow> nat \<Rightarrow> nat \<Rightarrow> bytes" where
  "file_bytes w off n = map (img w) [off..<min (off + n) (img_len w)]"

definition pread :: "nat \<Rightarrow> nat \<Rightarrow> bytes op" where
  "pread n off = syscall (\<lambda>lim. asking (\<lambda>w. file_bytes w off (limited lim n)) ret)"

definition store_bytes :: "nat \<Rightarrow> bytes \<Rightarrow> world \<Rightarrow> world" where
  "store_bytes off data w = (if data = [] then w else
     w\<lparr>img := write_bytes off data (img w), img_len := max (img_len w) (off + length data),
       unsynced := unsynced w @ [(off, data)]\<rparr>)"

definition pwrite :: "bytes \<Rightarrow> nat \<Rightarrow> nat op" where
  "pwrite data off = syscall (\<lambda>lim. let d = take (limited lim (length data)) data in
     modify (store_bytes off d) (ret (length d)))"

definition fsync_image :: "unit op" where
  "fsync_image = syscall (\<lambda>_. modify (\<lambda>w. w\<lparr>stable := img w, unsynced := []\<rparr>) (ret ()))"

definition clock_gettime :: "timespec op" where
  "clock_gettime = syscall (\<lambda>_. asking (\<lambda>w. clock w (ticks w))
     (\<lambda>t. modify (\<lambda>w. w\<lparr>ticks := Suc (ticks w)\<rparr>) (ret t)))"

text \<open>A system call of which only success or failure matters.\<close>

definition plain_call :: "unit op" where
  "plain_call = syscall (\<lambda>_. ret ())"

lemma syscall_calm: "script w = [] \<Longrightarrow> syscall k w = k None w"
  by (simp add: syscall_def)

lemma preserves_syscall [preserves_intros]:
  assumes "\<And>w e s. P (w\<lparr>script := s, errno := e\<rparr>) = P w" and "\<And>w s. P (w\<lparr>script := s\<rparr>) = P w"
    and "\<And>lim. preserves P (k lim)"
  shows "preserves P (syscall k)"
  using assms
  by (auto simp: preserves_def syscall_def split: list.splits sysres.splits)

lemma limited_None [simp]: "limited None n = n"
  by (simp add: limited_def)

lemma limited_le: "limited lim n \<le> n"
  by (simp add: limited_def split: option.splits)

lemma img_store_bytes [simp]: "img (store_bytes off d w) = write_bytes off d (img w)"
  by (simp add: store_bytes_def)

lemma store_bytes_fields [simp]:
  "stable (store_bytes off d w) = stable w" "script (store_bytes off d w) = script w"
  "errno (store_bytes off d w) = errno w" "ufs_mounted (store_bytes off d w) = ufs_mounted w"
  "ufs_fd (store_bytes off d w) = ufs_fd w" "ufs_sb (store_bytes off d w) = ufs_sb w"
  "journal_seq (store_bytes off d w) = journal_seq w"
  "ufs_umask (store_bytes off d w) = ufs_umask w" "euid (store_bytes off d w) = euid w"
  "egid (store_bytes off d w) = egid w" "sup_groups (store_bytes off d w) = sup_groups w"
  "clock (store_bytes off d w) = clock w" "ticks (store_bytes off d w) = ticks w"
  "descriptor_table (store_bytes off d w) = descriptor_table w"
  "lock_depth (store_bytes off d w) = lock_depth w" "mutex_held (store_bytes off d w) = mutex_held w"
  "image_lock (store_bytes off d w) = image_lock w" "img_exists (store_bytes off d w) = img_exists w"
  "stack_junk (store_bytes off d w) = stack_junk w" "mapping_table (store_bytes off d w) = mapping_table w"
  "memory (store_bytes off d w) = memory w" "next_map (store_bytes off d w) = next_map w"
  by (simp_all add: store_bytes_def)

lemma img_len_store_bytes:
  "off + length d \<le> img_len w \<Longrightarrow> img_len (store_bytes off d w) = img_len w"
  by (simp add: store_bytes_def)

lemma store_bytes_script_errno:
  "store_bytes off d (w\<lparr>script := s, errno := e\<rparr>) = (store_bytes off d w)\<lparr>script := s, errno := e\<rparr>"
  "store_bytes off d (w\<lparr>script := s\<rparr>) = (store_bytes off d w)\<lparr>script := s\<rparr>"
  "store_bytes off d (w\<lparr>errno := e\<rparr>) = (store_bytes off d w)\<lparr>errno := e\<rparr>"
  by (simp_all add: store_bytes_def)

end
