(* ===== verification/Ufs_Interfaces.thy ===== *)
theory Ufs_Interfaces
  imports Ufs_Prelude
begin

text \<open>
  The contracts the components of UserFS rely on, as locales: a store of numbered cells (blocks of
  the image, inodes of the inode table), an allocator of numbered slots that returns the first
  unused one (inode bitmap and block bitmap), an allocator whose slots are released again, and a map
  from names to numbers (directories).
  The client lemmas proved here once are used through the interpretations in the theories of the
  components that provide the operations.
\<close>

section \<open>Cells\<close>

definition put_all :: "(nat \<Rightarrow> 'v \<Rightarrow> 's \<Rightarrow> 's) \<Rightarrow> (nat \<times> 'v) list \<Rightarrow> 's \<Rightarrow> 's" where
  "put_all put xs s = fold (\<lambda>(i, v). put i v) xs s"

lemma put_all_Nil [simp]: "put_all put [] s = s"
  by (simp add: put_all_def)

lemma put_all_Cons [simp]: "put_all put ((i, v) # xs) s = put_all put xs (put i v s)"
  by (simp add: put_all_def)

lemma put_all_append [simp]: "put_all put (xs @ ys) s = put_all put ys (put_all put xs s)"
  by (simp add: put_all_def)

locale cell_store =
  fixes get :: "'s \<Rightarrow> nat \<Rightarrow> 'v"
    and put :: "nat \<Rightarrow> 'v \<Rightarrow> 's \<Rightarrow> 's"
    and fits :: "nat \<Rightarrow> 'v \<Rightarrow> bool"
  assumes get_put: "fits i v \<Longrightarrow> get (put i v s) j = (if i = j then v else get s j)"
begin

lemma get_put_same: "fits i v \<Longrightarrow> get (put i v s) i = v"
  by (simp add: get_put)

lemma get_put_other: "fits i v \<Longrightarrow> i \<noteq> j \<Longrightarrow> get (put i v s) j = get s j"
  by (simp add: get_put)

lemma get_put_all:
  "\<forall>(i, v) \<in> set xs. fits i v \<Longrightarrow>
   get (put_all put xs s) j = (case map_of (rev xs) j of None \<Rightarrow> get s j | Some v \<Rightarrow> v)"
proof (induction xs arbitrary: s)
  case Nil
  then show ?case by simp
next
  case (Cons x xs)
  then show ?case
    by (cases x) (auto simp: get_put map_add_def split: option.splits)
qed

lemma get_put_all_distinct:
  assumes "\<forall>(i, v) \<in> set xs. fits i v" and "distinct (map fst xs)"
  shows "get (put_all put xs s) j = (case map_of xs j of None \<Rightarrow> get s j | Some v \<Rightarrow> v)"
proof -
  have "map_of (rev xs) = map_of xs"
    using assms(2) by (intro map_of_inject_set [THEN iffD2]) (simp_all add: rev_map [symmetric])
  with get_put_all [OF assms(1)] show ?thesis by simp
qed

lemma get_put_all_untouched:
  "\<forall>(i, v) \<in> set xs. fits i v \<Longrightarrow> j \<notin> fst ` set xs \<Longrightarrow> get (put_all put xs s) j = get s j"
  by (simp add: get_put_all map_of_eq_None_iff [THEN iffD2])

text \<open>Redo: cells that are written anyway may hold anything before the writes.\<close>

lemma put_all_redo:
  assumes "\<forall>(i, v) \<in> set xs. fits i v"
    and "\<And>j. j \<notin> fst ` set xs \<Longrightarrow> get s j = get t j"
  shows "get (put_all put xs s) j = get (put_all put xs t) j"
proof (cases "j \<in> fst ` set xs")
  case True
  then obtain v where "map_of (rev xs) j = Some v"
    by (metis image_set map_of_eq_None_iff not_None_eq set_rev)
  then show ?thesis by (simp add: get_put_all [OF assms(1)])
next
  case False
  then show ?thesis using assms by (simp add: get_put_all_untouched)
qed

lemma put_all_idempotent:
  "\<forall>(i, v) \<in> set xs. fits i v \<Longrightarrow> get (put_all put xs (put_all put xs s)) j = get (put_all put xs s) j"
  by (rule put_all_redo) (auto simp: get_put_all_untouched)

text \<open>
  A redo may also run over any state that holds, cell by cell, an old or a final value: what a
  crash in the middle of the writes leaves.
\<close>

lemma put_all_finishes:
  assumes "\<forall>(i, v) \<in> set xs. fits i v"
    and "\<And>j. get t j = get s j \<or> get t j = get (put_all put xs s) j"
  shows "get (put_all put xs t) j = get (put_all put xs s) j"
proof (rule put_all_redo [OF assms(1)])
  fix j assume "j \<notin> fst ` set xs"
  then show "get t j = get s j"
    using assms(2) [of j] by (simp add: get_put_all_untouched [OF assms(1)])
qed

end

section \<open>Slots\<close>

definition unused_slots :: "('s \<Rightarrow> nat \<Rightarrow> bool) \<Rightarrow> nat \<Rightarrow> nat \<Rightarrow> 's \<Rightarrow> nat set" where
  "unused_slots used lo hi s = {i. lo \<le> i \<and> i < hi \<and> \<not> used s i}"

lemma finite_unused_slots [simp]: "finite (unused_slots used lo hi s)"
  by (rule finite_subset [of _ "{..<hi}"]) (auto simp: unused_slots_def)

lemma first_unused:
  "first_from (\<lambda>i. \<not> used s i) lo hi = Some i \<longleftrightarrow>
     i \<in> unused_slots used lo hi s \<and> (\<forall>j \<in> unused_slots used lo hi s. i \<le> j)"
  by (auto simp: first_from_Some unused_slots_def not_less [symmetric])

lemma none_unused:
  "first_from (\<lambda>i. \<not> used s i) lo hi = None \<longleftrightarrow> unused_slots used lo hi s = {}"
  by (auto simp: first_from_None unused_slots_def)

fun alloc_many :: "('s \<Rightarrow> nat option \<times> 's) \<Rightarrow> nat \<Rightarrow> 's \<Rightarrow> nat list \<times> 's" where
  "alloc_many alloc 0 s = ([], s)"
| "alloc_many alloc (Suc n) s = (case alloc s of
      (None, s1) \<Rightarrow> ([], s1)
    | (Some i, s1) \<Rightarrow> (case alloc_many alloc n s1 of (is, s2) \<Rightarrow> (i # is, s2)))"

locale slot_allocator =
  fixes inv :: "'s \<Rightarrow> bool"
    and used :: "'s \<Rightarrow> nat \<Rightarrow> bool"
    and lo hi :: nat
    and claim :: "nat \<Rightarrow> 's \<Rightarrow> 's"
    and alloc :: "'s \<Rightarrow> nat option \<times> 's"
  assumes alloc_full: "inv s \<Longrightarrow> unused_slots used lo hi s = {} \<Longrightarrow> fst (alloc s) = None"
    and alloc_first: "inv s \<Longrightarrow> first_from (\<lambda>i. \<not> used s i) lo hi = Some i \<Longrightarrow>
      alloc s = (Some i, claim i s)"
    and claim_inv: "inv s \<Longrightarrow> i \<in> unused_slots used lo hi s \<Longrightarrow> inv (claim i s)"
    and claim_used: "inv s \<Longrightarrow> i \<in> unused_slots used lo hi s \<Longrightarrow> lo \<le> j \<Longrightarrow> j < hi \<Longrightarrow>
      used (claim i s) j \<longleftrightarrow> j = i \<or> used s j"
begin

lemma alloc_None_iff: "inv s \<Longrightarrow> fst (alloc s) = None \<longleftrightarrow> unused_slots used lo hi s = {}"
  using alloc_full alloc_first none_unused [of used s lo hi]
  by (cases "first_from (\<lambda>i. \<not> used s i) lo hi") fastforce+

lemma alloc_SomeD:
  assumes "inv s" and "alloc s = (Some i, s1)"
  shows "first_from (\<lambda>k. \<not> used s k) lo hi = Some i" and "s1 = claim i s"
proof -
  have "first_from (\<lambda>k. \<not> used s k) lo hi \<noteq> None"
    using assms alloc_full none_unused [of used s lo hi] by fastforce
  then obtain k where k: "first_from (\<lambda>k. \<not> used s k) lo hi = Some k" by blast
  with assms alloc_first [of s k] show "first_from (\<lambda>k. \<not> used s k) lo hi = Some i"
    and "s1 = claim i s" by auto
qed

lemma alloc_unused: "inv s \<Longrightarrow> alloc s = (Some i, s1) \<Longrightarrow> i \<in> unused_slots used lo hi s"
  using alloc_SomeD first_unused by metis

lemma alloc_least: "inv s \<Longrightarrow> alloc s = (Some i, s1) \<Longrightarrow> j \<in> unused_slots used lo hi s \<Longrightarrow> i \<le> j"
  using alloc_SomeD first_unused by metis

lemma alloc_inv: "inv s \<Longrightarrow> alloc s = (Some i, s1) \<Longrightarrow> inv s1"
  using alloc_SomeD(2) alloc_unused claim_inv by blast

lemma alloc_used:
  "inv s \<Longrightarrow> alloc s = (Some i, s1) \<Longrightarrow> lo \<le> j \<Longrightarrow> j < hi \<Longrightarrow> used s1 j \<longleftrightarrow> j = i \<or> used s j"
  using alloc_SomeD(2) alloc_unused claim_used by blast

lemma claim_unused:
  assumes "inv s" and "i \<in> unused_slots used lo hi s"
  shows "unused_slots used lo hi (claim i s) = unused_slots used lo hi s - {i}"
  using assms claim_used [OF assms] by (auto simp: unused_slots_def)

lemma alloc_count:
  assumes "inv s" and "alloc s = (Some i, s1)"
  shows "Suc (card (unused_slots used lo hi s1)) = card (unused_slots used lo hi s)"
  using assms alloc_unused [OF assms] alloc_SomeD(2) [OF assms] claim_unused
  by (metis card_Suc_Diff1 finite_unused_slots)

text \<open>Successive allocations never hand out a slot twice, and succeed as long as slots are left.\<close>

lemma alloc_many_fresh:
  "inv s \<Longrightarrow> alloc_many alloc n s = (is, s1) \<Longrightarrow>
   distinct is \<and> set is \<subseteq> unused_slots used lo hi s"
proof (induction n arbitrary: s "is" s1)
  case 0
  then show ?case by simp
next
  case (Suc n)
  show ?case
  proof (cases "alloc s")
    case (Pair r s2)
    show ?thesis
    proof (cases r)
      case None
      with Pair Suc.prems show ?thesis by simp
    next
      case (Some i)
      with Pair have a: "alloc s = (Some i, s2)" by simp
      obtain js s3 where m: "alloc_many alloc n s2 = (js, s3)" by fastforce
      with a Suc.prems have r: "is = i # js" "s1 = s3" by auto
      from Suc.prems a have inv2: "inv s2" using alloc_inv by blast
      have sub: "unused_slots used lo hi s2 = unused_slots used lo hi s - {i}"
        using Suc.prems(1) a alloc_SomeD(2) alloc_unused claim_unused by blast
      from Suc.IH [OF inv2 m] show ?thesis
        using r sub alloc_unused [OF Suc.prems(1) a] by auto
    qed
  qed
qed

lemma alloc_many_length:
  "inv s \<Longrightarrow> n \<le> card (unused_slots used lo hi s) \<Longrightarrow> length (fst (alloc_many alloc n s)) = n"
proof (induction n arbitrary: s)
  case 0
  then show ?case by simp
next
  case (Suc n)
  then have "unused_slots used lo hi s \<noteq> {}" by auto
  with Suc.prems(1) have "fst (alloc s) \<noteq> None" by (simp add: alloc_None_iff)
  then obtain i s1 where a: "alloc s = (Some i, s1)" by (cases "alloc s") auto
  have "inv s1" using Suc.prems(1) a by (rule alloc_inv)
  moreover have "n \<le> card (unused_slots used lo hi s1)"
    using Suc.prems alloc_count [OF Suc.prems(1) a] by simp
  ultimately have "length (fst (alloc_many alloc n s1)) = n" by (rule Suc.IH)
  then show ?case by (simp add: a case_prod_unfold)
qed

end

locale recycling_allocator = slot_allocator +
  fixes release :: "nat \<Rightarrow> 's \<Rightarrow> 's"
  assumes release_inv: "inv s \<Longrightarrow> lo \<le> i \<Longrightarrow> i < hi \<Longrightarrow> inv (release i s)"
    and release_used: "inv s \<Longrightarrow> lo \<le> i \<Longrightarrow> i < hi \<Longrightarrow> lo \<le> j \<Longrightarrow> j < hi \<Longrightarrow>
      used (release i s) j \<longleftrightarrow> j \<noteq> i \<and> used s j"
begin

lemma release_unused:
  "inv s \<Longrightarrow> lo \<le> i \<Longrightarrow> i < hi \<Longrightarrow>
   unused_slots used lo hi (release i s) = insert i (unused_slots used lo hi s)"
  by (auto simp: unused_slots_def release_used)

text \<open>A slot that is released right after its allocation is the next one to be handed out.\<close>

lemma alloc_release_alloc:
  assumes "inv s" and "alloc s = (Some i, s1)"
  shows "fst (alloc (release i s1)) = Some i"
proof -
  have u: "i \<in> unused_slots used lo hi s" using assms by (rule alloc_unused)
  then have range: "lo \<le> i" "i < hi" by (auto simp: unused_slots_def)
  have inv1: "inv s1" using assms by (rule alloc_inv)
  have "unused_slots used lo hi (release i s1) = insert i (unused_slots used lo hi s1)"
    using inv1 range by (rule release_unused)
  also have "unused_slots used lo hi s1 = unused_slots used lo hi s - {i}"
    using assms u alloc_SomeD(2) claim_unused by blast
  finally have same: "unused_slots used lo hi (release i s1) = unused_slots used lo hi s"
    using u by auto
  have "first_from (\<lambda>k. \<not> used (release i s1) k) lo hi = Some i"
    using u alloc_least [OF assms] by (auto simp: first_unused same)
  moreover have "inv (release i s1)" using inv1 range by (rule release_inv)
  ultimately show ?thesis by (simp add: alloc_first)
qed

lemma release_count:
  assumes "inv s" and "lo \<le> i" and "i < hi" and "used s i"
  shows "card (unused_slots used lo hi (release i s)) = Suc (card (unused_slots used lo hi s))"
  using assms by (simp add: release_unused) (simp add: unused_slots_def card_insert_if)

end

section \<open>Name maps\<close>

text \<open>
  A partial map from names to numbers behind three operations that may fail: what a directory offers.
  A history of insertions and deletions acts on the map like the steps of it that succeeded.
\<close>

datatype name_step = Link string nat | Unlink string

fun apply_step :: "name_step \<Rightarrow> bool \<Rightarrow> (string \<rightharpoonup> nat) \<Rightarrow> (string \<rightharpoonup> nat)" where
  "apply_step (Link x v) ok m = (if ok then m(x \<mapsto> v) else m)"
| "apply_step (Unlink x) ok m = (if ok then m(x := None) else m)"

text \<open>The steps that must have failed, and the ones that cannot have failed.\<close>

fun outcome_fits :: "name_step \<Rightarrow> bool \<Rightarrow> (string \<rightharpoonup> nat) \<Rightarrow> bool" where
  "outcome_fits (Link x v) ok m \<longleftrightarrow> (m x \<noteq> None \<longrightarrow> \<not> ok)"
| "outcome_fits (Unlink x) ok m \<longleftrightarrow> (ok \<longleftrightarrow> m x \<noteq> None)"

fun apply_steps :: "(name_step \<times> bool) list \<Rightarrow> (string \<rightharpoonup> nat) \<Rightarrow> (string \<rightharpoonup> nat) option" where
  "apply_steps [] m = Some m"
| "apply_steps ((step, ok) # rest) m = (if outcome_fits step ok m then apply_steps rest (apply_step step ok m) else None)"

fun run_steps :: "(string \<Rightarrow> nat \<Rightarrow> 's \<Rightarrow> unit option \<times> 's) \<Rightarrow> (string \<Rightarrow> 's \<Rightarrow> unit option \<times> 's) \<Rightarrow>
    name_step list \<Rightarrow> 's \<Rightarrow> bool list \<times> 's" where
  "run_steps add remove [] s = ([], s)"
| "run_steps add remove (step # rest) s =
     (case (case step of Link x v \<Rightarrow> add x v s | Unlink x \<Rightarrow> remove x s) of (r, s1) \<Rightarrow>
      case run_steps add remove rest s1 of (oks, s2) \<Rightarrow> ((r \<noteq> None) # oks, s2))"

fun step_proper :: "(string \<Rightarrow> nat \<Rightarrow> bool) \<Rightarrow> name_step \<Rightarrow> bool" where
  "step_proper proper (Link x v) = proper x v"
| "step_proper proper (Unlink x) = True"

locale name_map =
  fixes inv :: "'s \<Rightarrow> bool"
    and entries :: "'s \<Rightarrow> string \<rightharpoonup> nat"
    and proper :: "string \<Rightarrow> nat \<Rightarrow> bool"
    and find :: "string \<Rightarrow> 's \<Rightarrow> nat option \<times> 's"
    and add :: "string \<Rightarrow> nat \<Rightarrow> 's \<Rightarrow> unit option \<times> 's"
    and remove :: "string \<Rightarrow> 's \<Rightarrow> unit option \<times> 's"
  assumes find_entry: "inv s \<Longrightarrow> fst (find x s) = entries s x"
    and find_keeps: "inv s \<Longrightarrow> inv (snd (find x s)) \<and> entries (snd (find x s)) = entries s"
    and add_Some: "inv s \<Longrightarrow> proper x v \<Longrightarrow> add x v s = (Some u, s1) \<Longrightarrow>
      inv s1 \<and> entries s x = None \<and> entries s1 = (entries s)(x \<mapsto> v)"
    and add_None: "inv s \<Longrightarrow> proper x v \<Longrightarrow> add x v s = (None, s1) \<Longrightarrow> inv s1 \<and> entries s1 = entries s"
    and remove_Some: "inv s \<Longrightarrow> remove x s = (Some u, s1) \<Longrightarrow>
      inv s1 \<and> entries s x \<noteq> None \<and> entries s1 = (entries s)(x := None)"
    and remove_None: "inv s \<Longrightarrow> remove x s = (None, s1) \<Longrightarrow> inv s1 \<and> entries s x = None \<and> entries s1 = entries s"
begin

lemma find_after_add:
  assumes "inv s" and "proper x v" and "add x v s = (Some u, s1)"
  shows "fst (find x s1) = Some v" and "y \<noteq> x \<Longrightarrow> fst (find y s1) = fst (find y s)"
  using add_Some [OF assms] find_entry assms(1) by simp_all

lemma add_twice_fails:
  assumes "inv s" and "proper x v" and "proper x v'" and "add x v s = (Some u, s1)"
  shows "fst (add x v' s1) = None"
proof -
  have "inv s1" "entries s1 x \<noteq> None" using add_Some [OF assms(1,2,4)] by simp_all
  then show ?thesis using add_Some [OF _ assms(3)] by (cases "add x v' s1"; cases "fst (add x v' s1)") fastforce+
qed

lemma remove_undoes_add:
  assumes "inv s" and "proper x v" and "add x v s = (Some u, s1)"
  shows "fst (remove x s1) \<noteq> None" and "entries (snd (remove x s1)) = entries s"
proof -
  note a = add_Some [OF assms]
  obtain r s2 where r: "remove x s1 = (r, s2)" by fastforce
  have some: "r \<noteq> None" using remove_None [of s1 x s2] r a by (cases r) auto
  obtain u' where "r = Some u'" using some by blast
  then have u: "remove x s1 = (Some u', s2)" using r by simp
  show "fst (remove x s1) \<noteq> None" using some r by simp
  show "entries (snd (remove x s1)) = entries s" using remove_Some [OF _ u] a u by (simp add: fun_upd_idem)
qed

lemma find_after_remove:
  assumes "inv s" shows "fst (find x (snd (remove x s))) = None"
proof -
  obtain r s1 where r: "remove x s = (r, s1)" by fastforce
  then show ?thesis using remove_Some [OF assms] remove_None [OF assms] find_entry [of s1 x] by (cases r) fastforce+
qed

lemma one_step:
  assumes "inv s" and "step_proper proper step"
    and "(case step of Link x v \<Rightarrow> add x v s | Unlink x \<Rightarrow> remove x s) = (r, s1)"
  shows "inv s1" "entries s1 = apply_step step (r \<noteq> None) (entries s)" "outcome_fits step (r \<noteq> None) (entries s)"
proof -
  have "inv s1 \<and> entries s1 = apply_step step (r \<noteq> None) (entries s) \<and> outcome_fits step (r \<noteq> None) (entries s)"
  proof (cases step)
    case (Link x v)
    then show ?thesis using assms add_Some [OF assms(1), of x v] add_None [OF assms(1), of x v] by (cases r) auto
  next
    case (Unlink x)
    then show ?thesis using assms remove_Some [OF assms(1), of x] remove_None [OF assms(1), of x] by (cases r) auto
  qed
  then show "inv s1" "entries s1 = apply_step step (r \<noteq> None) (entries s)" "outcome_fits step (r \<noteq> None) (entries s)"
    by simp_all
qed

lemma run_steps_refine:
  "inv s \<Longrightarrow> list_all (step_proper proper) steps \<Longrightarrow> run_steps add remove steps s = (oks, s1) \<Longrightarrow>
   length oks = length steps \<and> inv s1 \<and> apply_steps (zip steps oks) (entries s) = Some (entries s1)"
proof (induction steps arbitrary: s oks)
  case Nil
  then show ?case by simp
next
  case (Cons step rest)
  obtain r s2 where step: "(case step of Link x v \<Rightarrow> add x v s | Unlink x \<Rightarrow> remove x s) = (r, s2)" by fastforce
  obtain oks2 s3 where rest: "run_steps add remove rest s2 = (oks2, s3)" by fastforce
  have eq: "oks = (r \<noteq> None) # oks2" "s1 = s3" using Cons.prems(3) by (simp_all add: step rest)
  have p: "step_proper proper step" "list_all (step_proper proper) rest" using Cons.prems(2) by simp_all
  note one = one_step [OF Cons.prems(1) p(1) step]
  show ?case using Cons.IH [OF one(1) p(2) rest [folded eq(2)]] one(2,3) by (simp add: eq(1))
qed

end

end
