(* ===== verification/Ufs_Image.thy ===== *)
theory Ufs_Image
  imports Ufs_World Ufs_Interfaces
begin

text \<open>
  The block layer of \<open>src/userfs.c\<close>: the retry loops \<open>read_exact\<close> and \<open>write_exact\<close>, the block
  operations, the superblock flush, \<open>ufs_sync_image\<close> and \<open>ufs_init_inode\<close>. Their effect is
  described by two views: \<open>blk w b\<close>, the 512 bytes of block \<open>b\<close>, and \<open>put_blk\<close>, the world after
  block \<open>b\<close> was written. A \<open>calm\<close> world injects no faults; for any other script the lemmas say
  what a failed call can leave behind. The last part is the crash model: a crash keeps the bytes
  of the last \<open>fsync\<close> and any subsequence of the writes since.
\<close>

section \<open>Exact transfers\<close>

text \<open>
  \<open>acc\<close> is what was read so far, so \<open>total\<close> is its length. The loop ends: a failed or
  interrupted call uses up a script entry, a successful one makes progress.
\<close>

function read_exact :: "nat \<Rightarrow> nat \<Rightarrow> bytes \<Rightarrow> bytes op" where
  "read_exact count off acc w =
     (if length acc < count then
        (case pread (count - length acc) (off + length acc) w of
           (None, w1) \<Rightarrow> if errno w1 = EINTR then read_exact count off acc w1 else (None, w1)
         | (Some amount, w1) \<Rightarrow>
             if amount = [] then fail EIO w1 else read_exact count off (acc @ amount) w1)
      else (Some acc, w))"
  by pat_completeness auto

lemma pread_None_script: "pread n off w = (None, w1) \<Longrightarrow> length (script w1) < length (script w)"
  by (auto simp: pread_def syscall_def asking_def ret_def split: list.splits sysres.splits)

lemma pread_Some_script: "pread n off w = (Some bs, w1) \<Longrightarrow> length (script w1) \<le> length (script w)"
  by (auto simp: pread_def syscall_def asking_def ret_def split: list.splits sysres.splits)

lemma pread_cases_script:
  "(None, w1) = pread n off w \<Longrightarrow> length (script w1) < length (script w)"
  "(Some bs, w1) = pread n off w \<Longrightarrow> length (script w1) \<le> length (script w)"
  using pread_None_script [of n off w w1] pread_Some_script [of n off w bs w1] by simp_all

lemma progress_measure:
  "(s1::nat) \<le> s \<Longrightarrow> t < n \<Longrightarrow> 0 < k \<Longrightarrow> s1 + (n - (t + k)) < s + n - t"
  by linarith

lemma progress_list:
  "(s1::nat) \<le> s \<Longrightarrow> t < n \<Longrightarrow> xs \<noteq> [] \<Longrightarrow> s1 + (n - (t + length xs)) < s + n - t"
  by (cases xs) auto

termination read_exact
  by (relation "measure (\<lambda>(count, off, acc, w). length (script w) + (count - length acc))")
    (auto dest: pread_cases_script intro!: progress_list)

declare read_exact.simps [simp del]

text \<open>In \<open>write_exact\<close>, \<open>sent\<close> bytes of the buffer are out already.\<close>

function write_exact :: "bytes \<Rightarrow> nat \<Rightarrow> nat \<Rightarrow> unit op" where
  "write_exact buffer off sent w =
     (if sent < length buffer then
        (case pwrite (drop sent buffer) (off + sent) w of
           (None, w1) \<Rightarrow> if errno w1 = EINTR then write_exact buffer off sent w1 else (None, w1)
         | (Some amount, w1) \<Rightarrow>
             if amount = 0 then fail EIO w1 else write_exact buffer off (sent + amount) w1)
      else (Some (), w))"
  by pat_completeness auto

lemma pwrite_None_script: "pwrite d off w = (None, w1) \<Longrightarrow> length (script w1) < length (script w)"
  by (auto simp: pwrite_def syscall_def modify_def ret_def Let_def split: list.splits sysres.splits)

lemma pwrite_Some_script: "pwrite d off w = (Some n, w1) \<Longrightarrow> length (script w1) \<le> length (script w)"
  by (auto simp: pwrite_def syscall_def modify_def ret_def Let_def split: list.splits sysres.splits)

lemma pwrite_cases_script:
  "(None, w1) = pwrite d off w \<Longrightarrow> length (script w1) < length (script w)"
  "(Some n, w1) = pwrite d off w \<Longrightarrow> length (script w1) \<le> length (script w)"
  using pwrite_None_script [of d off w w1] pwrite_Some_script [of d off w n w1] by simp_all

termination write_exact
  by (relation "measure (\<lambda>(buffer, off, sent, w). length (script w) + (length buffer - sent))")
    (auto dest: pwrite_cases_script intro!: progress_measure)

declare write_exact.simps [simp del]

section \<open>Block operations\<close>

text \<open>
  Buffers are never null in the model. \<open>ufs_write_block\<close> writes the 512 bytes its buffer points
  to; the callers below pass buffers of that length.
\<close>

definition ufs_read_block :: "nat \<Rightarrow> bytes op" where
  "ufs_read_block block_number = asking ufs_fd (\<lambda>fd.
     require (0 \<le> fd) ENODEV (
     require (block_number < UFS_TOTAL_BLOCKS) EINVAL (
     read_exact UFS_BLOCK_SIZE (block_number * UFS_BLOCK_SIZE) [])))"

definition ufs_write_block :: "nat \<Rightarrow> bytes \<Rightarrow> unit op" where
  "ufs_write_block block_number buffer = asking ufs_fd (\<lambda>fd.
     require (0 \<le> fd) ENODEV (
     require (block_number < UFS_TOTAL_BLOCKS) EINVAL (
     write_exact buffer (block_number * UFS_BLOCK_SIZE) 0)))"

definition ufs_flush_superblock :: "unit op" where
  "ufs_flush_superblock = asking (\<lambda>w. (ufs_mounted w, ufs_fd w, ufs_sb w)) (\<lambda>(m, fd, sb).
     require (m \<and> 0 \<le> fd) ENODEV (
     ufs_write_block UFS_SUPERBLOCK_BLK (enc_superblock sb)))"

definition ufs_sync_image :: "unit op" where
  "ufs_sync_image = asking ufs_fd (\<lambda>fd. require (0 \<le> fd) ENODEV fsync_image)"

definition ufs_init_inode :: "u32 \<Rightarrow> ufs_inode" where
  "ufs_init_inode type =
     \<lparr>ino_type = type, ino_flags = 0, ino_mode = 0, ino_uid = 0, ino_gid = 0,
      ino_link_count = 0, ino_size = 0, ino_block_count = 0,
      ino_direct = replicate UFS_DIRECT_BLOCKS UFS_INVALID_BLOCK,
      ino_single_indirect = UFS_INVALID_BLOCK, ino_double_indirect = UFS_INVALID_BLOCK,
      ino_generation = 0, ino_atime = zero_time, ino_mtime = zero_time, ino_ctime = zero_time\<rparr>"

lemma ino_wf_init [simp]: "ino_wf (ufs_init_inode t)"
  by (simp add: ino_wf_def ufs_init_inode_def)

section \<open>Blocks of the image\<close>

definition blk_of :: "(nat \<Rightarrow> u8) \<Rightarrow> nat \<Rightarrow> bytes" where
  "blk_of f b = map f [b * UFS_BLOCK_SIZE..<b * UFS_BLOCK_SIZE + UFS_BLOCK_SIZE]"

definition blk :: "world \<Rightarrow> nat \<Rightarrow> bytes" where
  "blk w b = blk_of (img w) b"

definition put_blk :: "nat \<Rightarrow> bytes \<Rightarrow> world \<Rightarrow> world" where
  "put_blk b buf w = store_bytes (b * UFS_BLOCK_SIZE) buf w"

lemma length_blk_of [simp]: "length (blk_of f b) = 512"
  by (simp add: blk_of_def)

lemma length_blk [simp]: "length (blk w b) = 512"
  by (simp add: blk_def)

lemma nth_blk_of: "i < 512 \<Longrightarrow> blk_of f b ! i = f (b * 512 + i)"
  by (simp add: blk_of_def)

lemma block_apart:
  assumes "b \<noteq> (c::nat)" and "i < 512"
  shows "c * 512 + i < b * 512 \<or> b * 512 + 512 \<le> c * 512 + i"
  using assms by linarith

lemma blk_of_write_bytes:
  assumes "length buf = 512"
  shows "blk_of (write_bytes (b * 512) buf f) c = (if b = c then buf else blk_of f c)"
proof (rule nth_equalityI)
  show "length (blk_of (write_bytes (b * 512) buf f) c) = length (if b = c then buf else blk_of f c)"
    using assms by simp
  fix i assume "i < length (blk_of (write_bytes (b * 512) buf f) c)"
  then have i: "i < 512" by simp
  show "blk_of (write_bytes (b * 512) buf f) c ! i = (if b = c then buf else blk_of f c) ! i"
  proof (cases "b = c")
    case True
    then show ?thesis using i assms by (simp add: nth_blk_of write_bytes_def)
  next
    case False
    then have "c * 512 + i < b * 512 \<or> b * 512 + length buf \<le> c * 512 + i"
      using block_apart i assms by simp
    then have "write_bytes (b * 512) buf f (c * 512 + i) = f (c * 512 + i)"
      by (rule write_bytes_outside)
    with False show ?thesis using i by (simp add: nth_blk_of)
  qed
qed

lemma blk_of_eqI: "(\<And>i. i < 512 \<Longrightarrow> f (b * 512 + i) = g (b * 512 + i)) \<Longrightarrow> blk_of f b = blk_of g b"
  by (rule nth_equalityI) (simp_all add: nth_blk_of)

lemma blk_put_blk [simp]:
  "length buf = 512 \<Longrightarrow> blk (put_blk b buf w) c = (if b = c then buf else blk w c)"
  by (simp add: blk_def put_blk_def blk_of_write_bytes)

interpretation block_cells: cell_store blk put_blk "\<lambda>b buf. length buf = 512"
  by unfold_locales simp

lemma put_blk_fields [simp]:
  "stable (put_blk b d w) = stable w" "script (put_blk b d w) = script w"
  "errno (put_blk b d w) = errno w" "ufs_mounted (put_blk b d w) = ufs_mounted w"
  "ufs_fd (put_blk b d w) = ufs_fd w" "ufs_sb (put_blk b d w) = ufs_sb w"
  "journal_seq (put_blk b d w) = journal_seq w"
  "ufs_umask (put_blk b d w) = ufs_umask w" "euid (put_blk b d w) = euid w"
  "egid (put_blk b d w) = egid w" "sup_groups (put_blk b d w) = sup_groups w"
  "clock (put_blk b d w) = clock w" "ticks (put_blk b d w) = ticks w"
  "descriptor_table (put_blk b d w) = descriptor_table w"
  "lock_depth (put_blk b d w) = lock_depth w" "mutex_held (put_blk b d w) = mutex_held w"
  "image_lock (put_blk b d w) = image_lock w" "img_exists (put_blk b d w) = img_exists w"
  "stack_junk (put_blk b d w) = stack_junk w" "mapping_table (put_blk b d w) = mapping_table w"
  "memory (put_blk b d w) = memory w" "next_map (put_blk b d w) = next_map w"
  by (simp_all add: put_blk_def)

lemma unsynced_put_blk [simp]:
  "length buf = 512 \<Longrightarrow> unsynced (put_blk b buf w) = unsynced w @ [(b * 512, buf)]"
  by (auto simp: put_blk_def store_bytes_def)

lemma blk_other_fields [simp]:
  "blk (w\<lparr>errno := e\<rparr>) = blk w" "blk (w\<lparr>script := s\<rparr>) = blk w"
  "blk (w\<lparr>stable := st\<rparr>) = blk w" "blk (w\<lparr>unsynced := us\<rparr>) = blk w"
  "blk (w\<lparr>ufs_sb := sb\<rparr>) = blk w" "blk (w\<lparr>ufs_mounted := m\<rparr>) = blk w"
  "blk (w\<lparr>ufs_fd := fd\<rparr>) = blk w" "blk (w\<lparr>journal_seq := q\<rparr>) = blk w"
  "blk (w\<lparr>ticks := t\<rparr>) = blk w" "blk (w\<lparr>descriptor_table := dt\<rparr>) = blk w"
  "blk (w\<lparr>ufs_umask := um\<rparr>) = blk w" "blk (w\<lparr>lock_depth := d\<rparr>) = blk w"
  "blk (w\<lparr>mutex_held := mh\<rparr>) = blk w" "blk (w\<lparr>image_lock := il\<rparr>) = blk w"
  "blk (w\<lparr>mapping_table := mt\<rparr>) = blk w" "blk (w\<lparr>memory := mem\<rparr>) = blk w"
  "blk (w\<lparr>next_map := nm\<rparr>) = blk w"
  by (simp_all add: blk_def fun_eq_iff)

section \<open>Worlds without faults\<close>

definition calm :: "world \<Rightarrow> bool" where
  "calm w \<longleftrightarrow> script w = [] \<and> 0 \<le> ufs_fd w \<and> img_len w = UFS_IMAGE_SIZE"

lemma calm_fields [simp]:
  "calm (w\<lparr>errno := e\<rparr>) = calm w" "calm (w\<lparr>ufs_sb := sb\<rparr>) = calm w"
  "calm (w\<lparr>stable := st\<rparr>) = calm w" "calm (w\<lparr>unsynced := us\<rparr>) = calm w"
  "calm (w\<lparr>ufs_mounted := m\<rparr>) = calm w" "calm (w\<lparr>journal_seq := q\<rparr>) = calm w"
  "calm (w\<lparr>ticks := t\<rparr>) = calm w" "calm (w\<lparr>descriptor_table := dt\<rparr>) = calm w"
  "calm (w\<lparr>ufs_umask := um\<rparr>) = calm w" "calm (w\<lparr>lock_depth := d\<rparr>) = calm w"
  "calm (w\<lparr>mutex_held := mh\<rparr>) = calm w" "calm (w\<lparr>image_lock := il\<rparr>) = calm w"
  "calm (w\<lparr>mapping_table := mt\<rparr>) = calm w" "calm (w\<lparr>memory := mem\<rparr>) = calm w"
  "calm (w\<lparr>next_map := nm\<rparr>) = calm w"
  by (simp_all add: calm_def)

lemma calm_put_blk [simp]:
  "length buf = 512 \<Longrightarrow> b < UFS_TOTAL_BLOCKS \<Longrightarrow> calm w \<Longrightarrow> calm (put_blk b buf w)"
  by (auto simp: calm_def put_blk_def store_bytes_def)

lemma read_exact_calm:
  assumes "script w = []" and "off + count \<le> img_len w" and "0 < count"
  shows "read_exact count off [] w = (Some (map (img w) [off..<off + count]), w)"
proof -
  have p: "pread count off w = (Some (map (img w) [off..<off + count]), w)"
    using assms by (simp add: pread_def syscall_calm asking_def ret_def file_bytes_def)
  have nonempty: "map (img w) [off..<off + count] \<noteq> []" using assms by simp
  have finished: "read_exact count off (map (img w) [off..<off + count]) w =
      (Some (map (img w) [off..<off + count]), w)"
    by (subst read_exact.simps) simp
  show ?thesis
    using assms nonempty by (subst read_exact.simps) (simp add: p finished)
qed

lemma write_exact_calm:
  assumes "script w = []" and "buffer \<noteq> []"
  shows "write_exact buffer off 0 w = (Some (), store_bytes off buffer w)"
proof -
  have p: "pwrite buffer off w = (Some (length buffer), store_bytes off buffer w)"
    using assms by (simp add: pwrite_def syscall_calm modify_def ret_def)
  have finished: "write_exact buffer off (length buffer) w1 = (Some (), w1)" for w1
    by (subst write_exact.simps) simp
  show ?thesis
    using assms by (subst write_exact.simps) (simp add: p finished)
qed

lemma ufs_read_block_calm [io_simps]:
  assumes "calm w" and "b < UFS_TOTAL_BLOCKS"
  shows "ufs_read_block b w = (Some (blk w b), w)"
  using assms by (simp add: ufs_read_block_def calm_def asking_def read_exact_calm blk_def blk_of_def)

lemma ufs_write_block_calm [io_simps]:
  assumes "calm w" and "b < UFS_TOTAL_BLOCKS" and "length buf = 512"
  shows "ufs_write_block b buf w = (Some (), put_blk b buf w)"
proof -
  from assms have "buf \<noteq> []" by auto
  with assms show ?thesis
    by (simp add: ufs_write_block_def calm_def asking_def write_exact_calm put_blk_def)
qed

lemma ufs_sync_image_calm [io_simps]:
  "calm w \<Longrightarrow> ufs_sync_image w = (Some (), w\<lparr>stable := img w, unsynced := []\<rparr>)"
  by (simp add: ufs_sync_image_def calm_def asking_def fsync_image_def syscall_calm modify_def ret_def)

lemma ufs_flush_superblock_calm [io_simps]:
  assumes "calm w" and "ufs_mounted w" and "sb_wf (ufs_sb w)"
  shows "ufs_flush_superblock w = (Some (), put_blk 0 (enc_superblock (ufs_sb w)) w)"
  using assms by (simp add: ufs_flush_superblock_def asking_def io_simps) (simp add: calm_def io_simps)

lemma ufs_block_range [io_simps]:
  "\<not> b < UFS_TOTAL_BLOCKS \<Longrightarrow> 0 \<le> ufs_fd w \<Longrightarrow> ufs_read_block b w = fail EINVAL w"
  "\<not> b < UFS_TOTAL_BLOCKS \<Longrightarrow> 0 \<le> ufs_fd w \<Longrightarrow> ufs_write_block b buf w = fail EINVAL w"
  by (simp_all add: ufs_read_block_def ufs_write_block_def asking_def require_def)

section \<open>Short transfers\<close>

lemma pwrite_progress:
  assumes "script w = Xfer n # s" and "0 < n" and "data \<noteq> []"
  shows "pwrite data off w =
    (Some (min n (length data)), store_bytes off (take n data) (w\<lparr>script := s\<rparr>))"
  using assms by (cases "n \<le> length data") (simp_all add: pwrite_def syscall_def limited_def Let_def modify_def ret_def)

definition no_hard_faults :: "sysres list \<Rightarrow> bool" where
  "no_hard_faults s \<longleftrightarrow> (\<forall>r \<in> set s. r = Fault EINTR \<or> (\<exists>n > 0. r = Xfer n))"

lemma no_hard_faults_Cons:
  "no_hard_faults (r # s) \<longleftrightarrow> (r = Fault EINTR \<or> (\<exists>n > 0. r = Xfer n)) \<and> no_hard_faults s"
  by (simp add: no_hard_faults_def)

lemma write_bytes_step:
  assumes "0 < n" and "sent < length buffer"
  shows "write_bytes (off + (sent + min n (length buffer - sent))) (drop (sent + min n (length buffer - sent)) buffer)
      (write_bytes (off + sent) (take n (drop sent buffer)) f) = write_bytes (off + sent) (drop sent buffer) f"
proof -
  let ?m = "min n (length buffer - sent)"
  have "take n (drop sent buffer) @ drop (sent + ?m) buffer = drop sent buffer"
    by (metis append_take_drop_id drop_drop length_drop min.commute take_all_iff min_def drop_all add.commute nat_le_linear)
  moreover have "length (take n (drop sent buffer)) = ?m" by (simp add: min.commute)
  ultimately show ?thesis
    using write_bytes_append [of "off + sent" "take n (drop sent buffer)" "drop (sent + ?m) buffer" f]
    by (simp add: add.assoc)
qed

lemma write_exact_progress:
  "no_hard_faults (script w) \<Longrightarrow> sent \<le> length buffer \<Longrightarrow>
   \<exists>w1. write_exact buffer off sent w = (Some (), w1) \<and> no_hard_faults (script w1) \<and>
     img w1 = write_bytes (off + sent) (drop sent buffer) (img w)"
proof (induction buffer off sent w rule: write_exact.induct)
  case (1 buffer off sent w)
  note unfold = write_exact.simps [of buffer off sent w]
  show ?case
  proof (cases "sent < length buffer")
    case False
    then show ?thesis using 1 unfold by simp
  next
    case True
    then have ne: "drop sent buffer \<noteq> []" by simp
    show ?thesis
    proof (cases "script w")
      case Nil
      then have p: "pwrite (drop sent buffer) (off + sent) w =
          (Some (length buffer - sent), store_bytes (off + sent) (drop sent buffer) w)"
        using True by (simp add: pwrite_def syscall_def Let_def modify_def ret_def)
      have "write_exact buffer off (length buffer) v = (Some (), v)" for v
        by (subst write_exact.simps) simp
      then show ?thesis using p True unfold Nil 1(3) by (simp add: no_hard_faults_def)
    next
      case (Cons r s)
      with 1(3) have r: "r = Fault EINTR \<or> (\<exists>n > 0. r = Xfer n)" and s: "no_hard_faults s"
        by (simp_all add: no_hard_faults_Cons)
      from r show ?thesis
      proof
        assume "r = Fault EINTR"
        then have p: "pwrite (drop sent buffer) (off + sent) w = (None, w\<lparr>script := s, errno := EINTR\<rparr>)"
          using Cons by (simp add: pwrite_def syscall_def)
        have "\<exists>w1. write_exact buffer off sent (w\<lparr>script := s, errno := EINTR\<rparr>) = (Some (), w1) \<and>
            no_hard_faults (script w1) \<and> img w1 = write_bytes (off + sent) (drop sent buffer) (img w)"
          using 1(1) [OF True p [symmetric] refl] s 1(4) by simp
        then show ?thesis using unfold p True by simp
      next
        assume "\<exists>n > 0. r = Xfer n"
        then obtain n where n: "0 < n" "r = Xfer n" by blast
        let ?m = "min n (length buffer - sent)"
        let ?w = "store_bytes (off + sent) (take n (drop sent buffer)) (w\<lparr>script := s\<rparr>)"
        have p: "pwrite (drop sent buffer) (off + sent) w = (Some ?m, ?w)"
          using pwrite_progress [OF Cons [unfolded n(2)] n(1) ne] by simp
        have m: "?m \<noteq> 0" using n True by simp
        have "\<exists>w1. write_exact buffer off (sent + ?m) ?w = (Some (), w1) \<and> no_hard_faults (script w1) \<and>
            img w1 = write_bytes (off + (sent + ?m)) (drop (sent + ?m) buffer) (img ?w)"
          using 1(2) [OF True p [symmetric] refl m] s True by simp
        then show ?thesis
          using unfold p True m write_bytes_step [OF n(1) True] by simp
      qed
    qed
  qed
qed

lemma read_exact_progress:
  "no_hard_faults (script w) \<Longrightarrow> off + count \<le> img_len w \<Longrightarrow> n \<le> count \<Longrightarrow>
   acc = map (img w) [off..<off + n] \<Longrightarrow>
   \<exists>w1. read_exact count off acc w = (Some (map (img w) [off..<off + count]), w1) \<and>
     no_hard_faults (script w1) \<and> img w1 = img w"
proof (induction count off acc w arbitrary: n rule: read_exact.induct)
  case (1 count off acc w)
  note unfold = read_exact.simps [of count off acc w]
  have len: "length acc = n" using 1(6) by simp
  show ?case
  proof (cases "n < count")
    case False
    then show ?thesis using 1 unfold len by simp
  next
    case True
    have upt: "map (img w) [off..<off + n] @ map (img w) [off + n..<off + n + m] = map (img w) [off..<off + (n + m)]" for m
      using upt_add_eq_append [of off "off + n" m] by (simp add: add.assoc)
    show ?thesis
    proof (cases "script w")
      case Nil
      then have p: "pread (count - length acc) (off + length acc) w =
          (Some (map (img w) [off + n..<off + n + (count - n)]), w)"
        using 1(4) True len by (simp add: pread_def syscall_def asking_def ret_def file_bytes_def)
      have "read_exact count off (map (img w) [off..<off + count]) v = (Some (map (img w) [off..<off + count]), v)" for v
        by (subst read_exact.simps) simp
      then show ?thesis
        using p True unfold Nil 1(3,6) upt [of "count - n"] by (simp add: no_hard_faults_def)
    next
      case (Cons r s)
      with 1(3) have r: "r = Fault EINTR \<or> (\<exists>n > 0. r = Xfer n)" and s: "no_hard_faults s"
        by (simp_all add: no_hard_faults_Cons)
      from r show ?thesis
      proof
        assume "r = Fault EINTR"
        then have p: "pread (count - length acc) (off + length acc) w = (None, w\<lparr>script := s, errno := EINTR\<rparr>)"
          using Cons by (simp add: pread_def syscall_def)
        show ?thesis
          using 1(1) [OF True [folded len] p [symmetric] refl, of n] s 1(4,5,6) unfold p True len by simp
      next
        assume "\<exists>k > 0. r = Xfer k"
        then obtain k where k: "0 < k" "r = Xfer k" by blast
        let ?m = "min k (count - n)"
        let ?new = "map (img w) [off + n..<off + n + ?m]"
        have p: "pread (count - length acc) (off + length acc) w = (Some ?new, w\<lparr>script := s\<rparr>)"
          using 1(4) True len Cons k
          by (simp add: pread_def syscall_def asking_def ret_def file_bytes_def limited_def min.commute)
        have ne: "?new \<noteq> []" using k True by simp
        have "acc @ ?new = map (img w) [off..<off + (n + ?m)]" using upt 1(6) by simp
        then have "\<exists>w1. read_exact count off (acc @ ?new) (w\<lparr>script := s\<rparr>) =
            (Some (map (img w) [off..<off + count]), w1) \<and> no_hard_faults (script w1) \<and> img w1 = img w"
          using 1(2) [OF True [folded len] p [symmetric] refl ne, of "n + ?m"] s 1(4) True by simp
        moreover have "read_exact count off acc w = read_exact count off (acc @ ?new) (w\<lparr>script := s\<rparr>)"
          using True [folded len] ne unfolding unfold p by (simp only: prod.case option.case if_True if_False)
        ultimately show ?thesis by simp
      qed
    qed
  qed
qed

text \<open>An image of zero bytes: the concrete world of the examples.\<close>

definition blank_world :: world where
  "blank_world = \<lparr>img = \<lambda>_. 0, img_exists = True, img_len = UFS_IMAGE_SIZE, stable = \<lambda>_. 0,
     unsynced = [], script = [], errno = EIO, ufs_mounted = True, ufs_fd = 3,
     ufs_sb = dec_superblock (replicate 512 0), journal_seq = 1, ufs_umask = 18, euid = 0, egid = 0,
     sup_groups = [], clock = \<lambda>_. \<lparr>tv_sec = 1000, tv_nsec = 5\<rparr>, ticks = 0,
     descriptor_table = replicate UFS_MAX_OPEN_FILES zero_descriptor, lock_depth = 0,
     mutex_held = False, image_lock = None, stack_junk = 0,
     mapping_table = replicate 32 zero_mapping, memory = \<lambda>_. 0, next_map = 65536\<rparr>"

text \<open>C40: Block I/O copes with every pattern of short and interrupted transfers. As long as each system
  call moves at least one byte or fails with EINTR, \<open>ufs_write_block\<close> succeeds and changes exactly
  its block, and \<open>ufs_read_block\<close> succeeds, returns the block and changes nothing.\<close>

theorem block_io_short_transfers:
  assumes "no_hard_faults (script w)" and "0 \<le> ufs_fd w" and "img_len w = UFS_IMAGE_SIZE"
    and "b < UFS_TOTAL_BLOCKS" and "length buf = UFS_BLOCK_SIZE"
  shows "(\<exists>w1. ufs_write_block b buf w = (Some (), w1) \<and> (\<forall>c. blk w1 c = (if c = b then buf else blk w c))) \<and>
    (\<exists>w1. ufs_read_block b w = (Some (blk w b), w1) \<and> img w1 = img w)"
proof
  obtain w1 where "write_exact buf (b * 512) 0 w = (Some (), w1)"
      "img w1 = write_bytes (b * 512) buf (img w)"
    using write_exact_progress [OF assms(1), of 0 buf "b * 512"] by auto
  then show "\<exists>w1. ufs_write_block b buf w = (Some (), w1) \<and> (\<forall>c. blk w1 c = (if c = b then buf else blk w c))"
    using assms by (auto simp: ufs_write_block_def asking_def blk_def blk_of_write_bytes)
  have "\<exists>w1. read_exact 512 (b * 512) [] w = (Some (map (img w) [b * 512..<b * 512 + 512]), w1) \<and> img w1 = img w"
    using read_exact_progress [OF assms(1), of "b * 512" 512 0] assms by auto
  then show "\<exists>w1. ufs_read_block b w = (Some (blk w b), w1) \<and> img w1 = img w"
    using assms by (auto simp: ufs_read_block_def asking_def blk_def blk_of_def)
qed

theorem block_io_short_transfers_witness:
  "\<exists>w1. ufs_write_block 7 (replicate 512 9) (blank_world\<lparr>script := [Xfer 100, Fault EINTR, Xfer 7]\<rparr>) = (Some (), w1) \<and>
     blk w1 7 = replicate 512 9"
  using block_io_short_transfers [of "blank_world\<lparr>script := [Xfer 100, Fault EINTR, Xfer 7]\<rparr>" 7 "replicate 512 9"]
  by (auto simp: no_hard_faults_def blank_world_def)


end
