(* ===== verification/Ufs_Bitmap.thy ===== *)
theory Ufs_Bitmap
  imports Ufs_Image
begin

text \<open>
  The bit operations and the bitmap block I/O of \<open>src/userfs_storage.c\<close>. The inode bitmap is
  block 1; the block bitmap is the concatenation of blocks 2 to 9, one bit per block of the image.
\<close>

section \<open>Bit operations\<close>

definition bitmap_test :: "bytes \<Rightarrow> nat \<Rightarrow> bool" where
  "bitmap_test bitmap k \<longleftrightarrow> drop_bit (k mod 8) (bitmap ! (k div 8)) AND 1 \<noteq> 0"

definition bitmap_set :: "bytes \<Rightarrow> nat \<Rightarrow> bytes" where
  "bitmap_set bitmap k = bitmap[k div 8 := bitmap ! (k div 8) OR push_bit (k mod 8) 1]"

definition bitmap_clear :: "bytes \<Rightarrow> nat \<Rightarrow> bytes" where
  "bitmap_clear bitmap k = bitmap[k div 8 := bitmap ! (k div 8) AND NOT (push_bit (k mod 8) 1)]"

lemma length_bitmap_set [simp]: "length (bitmap_set bm k) = length bm"
  by (simp add: bitmap_set_def)

lemma length_bitmap_clear [simp]: "length (bitmap_clear bm k) = length bm"
  by (simp add: bitmap_clear_def)

lemma bitmap_test_bit: "bitmap_test bm k = bit (bm ! (k div 8)) (k mod 8)"
  by (simp add: bitmap_test_def and_one_eq bit_iff_odd_drop_bit flip: odd_iff_mod_2_eq_one)

lemma same_bit_iff: "(k::nat) div 8 = j div 8 \<and> k mod 8 = j mod 8 \<longleftrightarrow> k = j"
  by (metis div_mult_mod_eq)

lemma bit_single_u8: "bit ((2 :: u8) ^ n) m \<longleftrightarrow> m = n \<and> n < 8"
  by (auto simp: bit_exp_iff)

lemma bitmap_test_set:
  assumes "k < 8 * length bm" and "j < 8 * length bm"
  shows "bitmap_test (bitmap_set bm k) j \<longleftrightarrow> j = k \<or> bitmap_test bm j"
proof -
  have "j div 8 < length bm" "k div 8 < length bm" "k mod 8 < 8"
    using assms by (simp_all add: less_mult_imp_div_less mult.commute)
  then show ?thesis
    using same_bit_iff [of k j] same_bit_iff [of j k]
    by (auto simp: bitmap_test_bit bitmap_set_def nth_list_update bit_or_iff bit_single_u8)
qed

lemma bitmap_test_clear:
  assumes "k < 8 * length bm" and "j < 8 * length bm"
  shows "bitmap_test (bitmap_clear bm k) j \<longleftrightarrow> j \<noteq> k \<and> bitmap_test bm j"
proof -
  have "j div 8 < length bm" "k div 8 < length bm" "k mod 8 < 8" "j mod 8 < 8"
    using assms by (simp_all add: less_mult_imp_div_less mult.commute)
  then show ?thesis
    using same_bit_iff [of k j] same_bit_iff [of j k]
    by (auto simp: bitmap_test_bit bitmap_clear_def nth_list_update bit_and_iff bit_not_iff
        bit_single_u8)
qed

section \<open>Bitmap block I/O\<close>

definition read_inode_bitmap :: "bytes op" where
  "read_inode_bitmap = asking ufs_mounted (\<lambda>m. require m EINVAL (
     ufs_read_block UFS_INODE_BITMAP_BLK))"

definition write_inode_bitmap :: "bytes \<Rightarrow> unit op" where
  "write_inode_bitmap bitmap = asking ufs_mounted (\<lambda>m. require m EINVAL (
     ufs_write_block UFS_INODE_BITMAP_BLK bitmap))"

definition read_block_bitmap :: "bytes op" where
  "read_block_bitmap = asking ufs_mounted (\<lambda>m. require m EINVAL (
     for_each [0..<UFS_BLOCK_BITMAP_BLOCKS] (\<lambda>i bitmap.
       on_ok (ufs_read_block (UFS_BLOCK_BITMAP_START_BLK + i)) (\<lambda>b. ret (bitmap @ b))) []))"

definition write_block_bitmap :: "bytes \<Rightarrow> unit op" where
  "write_block_bitmap bitmap = asking ufs_mounted (\<lambda>m. require m EINVAL (
     for_each [0..<UFS_BLOCK_BITMAP_BLOCKS] (\<lambda>i _.
       ufs_write_block (UFS_BLOCK_BITMAP_START_BLK + i) (field (i * UFS_BLOCK_SIZE) UFS_BLOCK_SIZE bitmap)) ()))"

section \<open>Views of the bitmaps\<close>

text \<open>\<open>live\<close>: a mounted image and no injected faults.\<close>

definition live :: "world \<Rightarrow> bool" where
  "live w \<longleftrightarrow> calm w \<and> ufs_mounted w \<and> sb_wf (ufs_sb w)"

lemma live_put_blk [simp]:
  "length buf = 512 \<Longrightarrow> b < UFS_TOTAL_BLOCKS \<Longrightarrow> live w \<Longrightarrow> live (put_blk b buf w)"
  by (simp add: live_def)

lemma live_fields [simp]:
  "live (w\<lparr>errno := e\<rparr>) = live w" "live (w\<lparr>stable := st\<rparr>) = live w"
  "live (w\<lparr>unsynced := us\<rparr>) = live w" "live (w\<lparr>journal_seq := q\<rparr>) = live w"
  "live (w\<lparr>ticks := t\<rparr>) = live w" "live (w\<lparr>descriptor_table := dt\<rparr>) = live w"
  "live (w\<lparr>ufs_umask := um\<rparr>) = live w" "live (w\<lparr>lock_depth := d\<rparr>) = live w"
  "live (w\<lparr>mutex_held := mh\<rparr>) = live w" "live (w\<lparr>image_lock := il\<rparr>) = live w"
  "live (w\<lparr>mapping_table := mt\<rparr>) = live w" "live (w\<lparr>memory := mem\<rparr>) = live w"
  "live (w\<lparr>next_map := nm\<rparr>) = live w"
  by (simp_all add: live_def)

lemma liveD:
  assumes "live w" shows "calm w" and "ufs_mounted w" and "sb_wf (ufs_sb w)"
  using assms by (simp_all add: live_def)

lemma live_blank [simp]: "live blank_world" "calm blank_world"
  by (simp_all add: live_def calm_def blank_world_def sb_wf_def dec_superblock_def sb_of_words_def)

text \<open>With these simp rules, \<open>live_def\<close> itself is only unfolded before simplification.\<close>

lemmas live_parts [simp] = liveD

definition block_bitmap :: "world \<Rightarrow> bytes" where
  "block_bitmap w = concat (map (\<lambda>i. blk w (UFS_BLOCK_BITMAP_START_BLK + i)) [0..<8])"

definition block_used :: "world \<Rightarrow> nat \<Rightarrow> bool" where
  "block_used w b = bitmap_test (block_bitmap w) b"

definition inode_used :: "world \<Rightarrow> nat \<Rightarrow> bool" where
  "inode_used w n = bitmap_test (blk w UFS_INODE_BITMAP_BLK) n"

definition put_block_bitmap :: "bytes \<Rightarrow> world \<Rightarrow> world" where
  "put_block_bitmap bm w =
     put_all put_blk (map (\<lambda>i. (2 + i, field (i * 512) 512 bm)) [0..<8]) w"

lemma upt_8: "[0..<8] = [0, 1, 2, 3, 4, 5, 6, 7::nat]"
  by (simp add: upt_rec)

lemma length_block_bitmap [simp]: "length (block_bitmap w) = 4096"
  by (simp add: block_bitmap_def upt_8)

lemma block_bitmap_cong:
  "(\<And>i. i < 8 \<Longrightarrow> blk w (2 + i) = blk v (2 + i)) \<Longrightarrow> block_bitmap w = block_bitmap v"
  unfolding block_bitmap_def by (rule arg_cong [of _ _ concat]) simp

lemma block_bitmap_put_blk [simp]:
  "length buf = 512 \<Longrightarrow> b < 2 \<or> 10 \<le> b \<Longrightarrow> block_bitmap (put_blk b buf w) = block_bitmap w"
  by (rule block_bitmap_cong) auto

lemma block_used_put_blk [simp]:
  "length buf = 512 \<Longrightarrow> b < 2 \<or> 10 \<le> b \<Longrightarrow> block_used (put_blk b buf w) = block_used w"
  by (simp add: block_used_def fun_eq_iff)

lemma blk_put_block_bitmap:
  assumes "length bm = 4096"
  shows "blk (put_block_bitmap bm w) b =
    (if 2 \<le> b \<and> b < 10 then field ((b - 2) * 512) 512 bm else blk w b)"
proof -
  consider "b < 2 \<or> 10 \<le> b" | "b = 2" | "b = 3" | "b = 4" | "b = 5" | "b = 6" | "b = 7" | "b = 8" | "b = 9"
    by linarith
  then show ?thesis
    by cases (use assms in \<open>simp_all add: put_block_bitmap_def upt_8\<close>)
qed

lemma field_chunks:
  "length bm = 4096 \<Longrightarrow> concat (map (\<lambda>i. field (i * 512) 512 bm) [0..<8]) = bm"
  using field_join [of 0 512 bm 512] field_join [of 0 1024 bm 512] field_join [of 0 1536 bm 512]
    field_join [of 0 2048 bm 512] field_join [of 0 2560 bm 512] field_join [of 0 3072 bm 512]
    field_join [of 0 3584 bm 512]
  by (simp add: upt_8 field_all flip: append_assoc)

lemma block_bitmap_put_block_bitmap [simp]:
  assumes "length bm = 4096"
  shows "block_bitmap (put_block_bitmap bm w) = bm"
proof -
  have "map (\<lambda>i. blk (put_block_bitmap bm w) (2 + i)) [0..<8] = map (\<lambda>i. field (i * 512) 512 bm) [0..<8]"
    using assms by (simp add: blk_put_block_bitmap)
  then show ?thesis
    unfolding block_bitmap_def using field_chunks [OF assms] by (simp only:)
qed

lemma put_all_fields [simp]:
  "script (put_all put_blk xs w) = script w" "errno (put_all put_blk xs w) = errno w"
  "ufs_mounted (put_all put_blk xs w) = ufs_mounted w" "ufs_fd (put_all put_blk xs w) = ufs_fd w"
  "ufs_sb (put_all put_blk xs w) = ufs_sb w" "stable (put_all put_blk xs w) = stable w"
  "journal_seq (put_all put_blk xs w) = journal_seq w" "ticks (put_all put_blk xs w) = ticks w"
  "descriptor_table (put_all put_blk xs w) = descriptor_table w"
  "clock (put_all put_blk xs w) = clock w" "euid (put_all put_blk xs w) = euid w"
  "egid (put_all put_blk xs w) = egid w" "sup_groups (put_all put_blk xs w) = sup_groups w"
  "ufs_umask (put_all put_blk xs w) = ufs_umask w"
  by (induction xs arbitrary: w) (auto simp: put_all_def)

lemma calm_put_all [simp]:
  "\<forall>(i, v) \<in> set xs. i < UFS_TOTAL_BLOCKS \<and> length v = 512 \<Longrightarrow> calm w \<Longrightarrow> calm (put_all put_blk xs w)"
  by (induction xs arbitrary: w) auto

lemma put_block_bitmap_fields [simp]:
  "script (put_block_bitmap bm w) = script w" "errno (put_block_bitmap bm w) = errno w"
  "ufs_mounted (put_block_bitmap bm w) = ufs_mounted w" "ufs_fd (put_block_bitmap bm w) = ufs_fd w"
  "ufs_sb (put_block_bitmap bm w) = ufs_sb w" "stable (put_block_bitmap bm w) = stable w"
  "journal_seq (put_block_bitmap bm w) = journal_seq w" "ticks (put_block_bitmap bm w) = ticks w"
  "descriptor_table (put_block_bitmap bm w) = descriptor_table w"
  "clock (put_block_bitmap bm w) = clock w" "euid (put_block_bitmap bm w) = euid w"
  "egid (put_block_bitmap bm w) = egid w" "sup_groups (put_block_bitmap bm w) = sup_groups w"
  "ufs_umask (put_block_bitmap bm w) = ufs_umask w"
  by (simp_all add: put_block_bitmap_def)

lemma calm_put_block_bitmap [simp]:
  "length bm = 4096 \<Longrightarrow> calm w \<Longrightarrow> calm (put_block_bitmap bm w)"
  by (simp add: put_block_bitmap_def)

lemma live_put_block_bitmap [simp]:
  "length bm = 4096 \<Longrightarrow> live w \<Longrightarrow> live (put_block_bitmap bm w)"
  unfolding live_def by simp

section \<open>The bitmap I/O on live worlds\<close>

lemma read_inode_bitmap_live [io_simps]:
  "live w \<Longrightarrow> read_inode_bitmap w = (Some (blk w 1), w)"
  by (simp add: read_inode_bitmap_def asking_def io_simps)

lemma write_inode_bitmap_live [io_simps]:
  "live w \<Longrightarrow> length bm = 512 \<Longrightarrow> write_inode_bitmap bm w = (Some (), put_blk 1 bm w)"
  by (simp add: write_inode_bitmap_def asking_def io_simps)

lemma for_each_read_blocks:
  "calm w \<Longrightarrow> (\<forall>i \<in> set is. start + i < UFS_TOTAL_BLOCKS) \<Longrightarrow>
   for_each is (\<lambda>i acc. on_ok (ufs_read_block (start + i)) (\<lambda>b. ret (acc @ b))) acc w =
     (Some (acc @ concat (map (\<lambda>i. blk w (start + i)) is)), w)"
  by (induction "is" arbitrary: acc) (simp_all add: op_defs io_simps)

lemma for_each_write_blocks:
  "calm w \<Longrightarrow> (\<forall>i \<in> set is. start + i < UFS_TOTAL_BLOCKS \<and> length (f i) = 512) \<Longrightarrow>
   for_each is (\<lambda>i _. ufs_write_block (start + i) (f i)) () w =
     (Some (), put_all put_blk (map (\<lambda>i. (start + i, f i)) is) w)"
  by (induction "is" arbitrary: w) (simp_all add: op_defs io_simps)

lemma read_block_bitmap_live [io_simps]:
  "live w \<Longrightarrow> read_block_bitmap w = (Some (block_bitmap w), w)"
  by (simp add: read_block_bitmap_def asking_def for_each_read_blocks block_bitmap_def)

lemma write_block_bitmap_live [io_simps]:
  "live w \<Longrightarrow> length bm = 4096 \<Longrightarrow> write_block_bitmap bm w = (Some (), put_block_bitmap bm w)"
  by (simp add: write_block_bitmap_def asking_def for_each_write_blocks put_block_bitmap_def)

text \<open>Reading back what was written, and the bits after an update.\<close>

lemma block_used_put_block_bitmap [simp]:
  "length bm = 4096 \<Longrightarrow> block_used (put_block_bitmap bm w) = bitmap_test bm"
  by (simp add: block_used_def fun_eq_iff)

lemma block_used_set:
  "b < UFS_TOTAL_BLOCKS \<Longrightarrow> c < UFS_TOTAL_BLOCKS \<Longrightarrow>
   bitmap_test (bitmap_set (block_bitmap w) b) c \<longleftrightarrow> c = b \<or> block_used w c"
  by (simp add: block_used_def bitmap_test_set)

lemma block_used_clear:
  "b < UFS_TOTAL_BLOCKS \<Longrightarrow> c < UFS_TOTAL_BLOCKS \<Longrightarrow>
   bitmap_test (bitmap_clear (block_bitmap w) b) c \<longleftrightarrow> c \<noteq> b \<and> block_used w c"
  by (simp add: block_used_def bitmap_test_clear)

lemma inode_used_put_blk [simp]:
  "length buf = 512 \<Longrightarrow> b \<noteq> 1 \<Longrightarrow> inode_used (put_blk b buf w) = inode_used w"
  by (simp add: inode_used_def fun_eq_iff)

lemma inode_used_set:
  "i < UFS_MAX_INODES \<Longrightarrow> j < UFS_MAX_INODES \<Longrightarrow>
   bitmap_test (bitmap_set (blk w 1) i) j \<longleftrightarrow> j = i \<or> inode_used w j"
  by (simp add: inode_used_def bitmap_test_set)

lemma inode_used_clear:
  "i < UFS_MAX_INODES \<Longrightarrow> j < UFS_MAX_INODES \<Longrightarrow>
   bitmap_test (bitmap_clear (blk w 1) i) j \<longleftrightarrow> j \<noteq> i \<and> inode_used w j"
  by (simp add: inode_used_def bitmap_test_clear)

end
