(* ===== verification/Ufs_Inode.thy ===== *)
theory Ufs_Inode
  imports Ufs_Bitmap
begin

text \<open>
  The inode table of \<open>src/userfs_storage.c\<close>: \<open>read_inode\<close> and \<open>write_inode\<close>, four inodes of 128
  bytes in each of the blocks 10 to 137. \<open>inode_at w n\<close> is the inode stored in slot \<open>n\<close> and
  \<open>put_inode n ino w\<close> the world after it was written; together they are a cell store.
\<close>

abbreviation (input) inodes_per_block :: nat where "inodes_per_block \<equiv> 4"

definition read_inode :: "nat \<Rightarrow> ufs_inode op" where
  "read_inode inode_num = asking ufs_mounted (\<lambda>m.
     require m EINVAL (
     require (inode_num < UFS_MAX_INODES) EINVAL (
     let block = UFS_INODE_TABLE_START_BLK + inode_num div inodes_per_block;
         offset_in_block = (inode_num mod inodes_per_block) * UFS_INODE_SIZE in
     on_ok (ufs_read_block block) (\<lambda>buf.
     ret (dec_inode (field offset_in_block UFS_INODE_SIZE buf))))))"

definition write_inode :: "nat \<Rightarrow> ufs_inode \<Rightarrow> unit op" where
  "write_inode inode_num inode = asking ufs_mounted (\<lambda>m.
     require m EINVAL (
     require (inode_num < UFS_MAX_INODES) EINVAL (
     let block = UFS_INODE_TABLE_START_BLK + inode_num div inodes_per_block;
         offset_in_block = (inode_num mod inodes_per_block) * UFS_INODE_SIZE in
     on_ok (ufs_read_block block) (\<lambda>buf.
     ufs_write_block block (overlay offset_in_block (enc_inode inode) buf)))))"

section \<open>Views\<close>

definition inode_in :: "bytes \<Rightarrow> nat \<Rightarrow> ufs_inode" where
  "inode_in buf n = dec_inode (field ((n mod 4) * 128) 128 buf)"

definition inode_at :: "world \<Rightarrow> nat \<Rightarrow> ufs_inode" where
  "inode_at w n = inode_in (blk w (10 + n div 4)) n"

definition inode_block :: "world \<Rightarrow> nat \<Rightarrow> ufs_inode \<Rightarrow> bytes" where
  "inode_block w n ino = overlay ((n mod 4) * 128) (enc_inode ino) (blk w (10 + n div 4))"

definition put_inode :: "nat \<Rightarrow> ufs_inode \<Rightarrow> world \<Rightarrow> world" where
  "put_inode n ino w = put_blk (10 + n div 4) (inode_block w n ino) w"

lemma inode_slot_bound: "((n::nat) mod 4) * 128 + 128 \<le> 512"
  using mod_less_divisor [of 4 n] by linarith

lemma length_inode_block [simp]: "ino_wf ino \<Longrightarrow> length (inode_block w n ino) = 512"
  using inode_slot_bound [of n] by (simp add: inode_block_def)

lemma ino_wf_inode_at [simp]: "ino_wf (inode_at w n)"
  by (simp add: inode_at_def inode_in_def)

lemma inode_in_overlay:
  assumes "ino_wf ino" and "length buf = 512" and "n div 4 = m div 4"
  shows "inode_in (overlay ((n mod 4) * 128) (enc_inode ino) buf) m =
    (if n = m then ino else inode_in buf m)"
proof (cases "n = m")
  case True
  then show ?thesis
    using assms inode_slot_bound [of n] by (simp add: inode_in_def)
next
  case False
  with assms(3) have "n mod 4 \<noteq> m mod 4" by (metis div_mult_mod_eq)
  then have "m mod 4 * 128 + 128 \<le> n mod 4 * 128 \<or> n mod 4 * 128 + 128 \<le> m mod 4 * 128"
    by linarith
  then show ?thesis
    using False assms inode_slot_bound [of n] inode_slot_bound [of m]
    by (simp add: inode_in_def field_overlay_other)
qed

lemma inode_at_put_inode [simp]:
  assumes "ino_wf ino"
  shows "inode_at (put_inode n ino w) m = (if n = m then ino else inode_at w m)"
  using assms inode_in_overlay [OF assms, of "blk w (10 + n div 4)" n m]
  by (auto simp: inode_at_def put_inode_def inode_block_def)

interpretation inode_cells: cell_store inode_at put_inode "\<lambda>n ino. ino_wf ino"
  by unfold_locales simp

lemma inode_at_put_blk [simp]:
  "length buf = 512 \<Longrightarrow> n < UFS_MAX_INODES \<Longrightarrow> b < 10 \<or> 138 \<le> b \<Longrightarrow>
   inode_at (put_blk b buf w) n = inode_at w n"
  by (auto simp: inode_at_def)

lemma inode_at_fields [simp]:
  "inode_at (w\<lparr>errno := e\<rparr>) = inode_at w" "inode_at (w\<lparr>ufs_sb := sb\<rparr>) = inode_at w"
  "inode_at (w\<lparr>stable := st\<rparr>) = inode_at w" "inode_at (w\<lparr>unsynced := us\<rparr>) = inode_at w"
  "inode_at (w\<lparr>journal_seq := q\<rparr>) = inode_at w" "inode_at (w\<lparr>ticks := t\<rparr>) = inode_at w"
  "inode_at (w\<lparr>descriptor_table := dt\<rparr>) = inode_at w"
  by (simp_all add: inode_at_def fun_eq_iff)

lemma inode_at_put_block_bitmap [simp]:
  "length bm = 4096 \<Longrightarrow> inode_at (put_block_bitmap bm w) n = inode_at w n"
  by (simp add: inode_at_def blk_put_block_bitmap)

lemma put_inode_fields [simp]:
  "script (put_inode n i w) = script w" "errno (put_inode n i w) = errno w"
  "ufs_mounted (put_inode n i w) = ufs_mounted w" "ufs_fd (put_inode n i w) = ufs_fd w"
  "ufs_sb (put_inode n i w) = ufs_sb w" "stable (put_inode n i w) = stable w"
  "journal_seq (put_inode n i w) = journal_seq w" "ticks (put_inode n i w) = ticks w"
  "descriptor_table (put_inode n i w) = descriptor_table w" "clock (put_inode n i w) = clock w"
  "euid (put_inode n i w) = euid w" "egid (put_inode n i w) = egid w"
  "sup_groups (put_inode n i w) = sup_groups w" "ufs_umask (put_inode n i w) = ufs_umask w"
  by (simp_all add: put_inode_def)

lemma live_put_inode [simp]:
  "ino_wf i \<Longrightarrow> n < UFS_MAX_INODES \<Longrightarrow> live w \<Longrightarrow> live (put_inode n i w)"
  by (simp add: put_inode_def less_mult_imp_div_less)

lemma block_used_put_inode [simp]:
  "ino_wf i \<Longrightarrow> block_used (put_inode n i w) = block_used w"
  by (simp add: put_inode_def)

lemma inode_used_put_inode [simp]:
  "ino_wf i \<Longrightarrow> inode_used (put_inode n i w) = inode_used w"
  by (simp add: put_inode_def)

lemma blk_put_inode [simp]:
  "ino_wf i \<Longrightarrow> n < UFS_MAX_INODES \<Longrightarrow> b < 10 \<or> 138 \<le> b \<Longrightarrow> blk (put_inode n i w) b = blk w b"
  by (auto simp: put_inode_def)

section \<open>Correctness\<close>

lemma read_inode_live [io_simps]:
  assumes "live w" and "n < UFS_MAX_INODES"
  shows "read_inode n w = (Some (inode_at w n), w)"
proof -
  have "n div 4 < 128" using assms(2) by linarith
  with assms show ?thesis
    by (simp add: read_inode_def asking_def io_simps Let_def run_simps ret_def inode_at_def inode_in_def)
qed

lemma write_inode_live [io_simps]:
  assumes "live w" and "n < UFS_MAX_INODES" and "ino_wf ino"
  shows "write_inode n ino w = (Some (), put_inode n ino w)"
proof -
  have "n div 4 < 128" using assms(2) by linarith
  moreover have "length (overlay (n mod 4 * 128) (enc_inode ino) (blk w (10 + n div 4))) = 512"
    using assms(3) inode_slot_bound [of n] by simp
  ultimately show ?thesis
    using assms
    by (simp add: write_inode_def asking_def io_simps Let_def run_simps put_inode_def inode_block_def)
qed

lemma read_inode_errors [io_simps]:
  "\<not> ufs_mounted w \<Longrightarrow> read_inode n w = fail EINVAL w"
  "\<not> n < UFS_MAX_INODES \<Longrightarrow> read_inode n w = fail EINVAL w"
  by (simp_all add: read_inode_def asking_def require_def)

lemma write_inode_errors [io_simps]:
  "\<not> ufs_mounted w \<Longrightarrow> write_inode n i w = fail EINVAL w"
  "\<not> n < UFS_MAX_INODES \<Longrightarrow> write_inode n i w = fail EINVAL w"
  by (simp_all add: write_inode_def asking_def require_def)

section \<open>Properties\<close>

text \<open>The inode table behaves as an array of 512 inodes: after \<open>write_inode\<close> of slot \<open>n\<close>,
  \<open>read_inode\<close> gives the new inode for \<open>n\<close> and the old one for every other slot, also for the three
  that share its block, and both bitmaps are untouched; slots from 512 on are refused with EINVAL
  and nothing is written.\<close>

lemma inode_table_array:
  assumes "live w" and "ino_wf ino" and "m < UFS_MAX_INODES"
  shows "if n < UFS_MAX_INODES
    then \<exists>w1. write_inode n ino w = (Some (), w1) \<and> live w1 \<and>
      read_inode m w1 = (Some (if m = n then ino else inode_at w m), w1) \<and>
      block_used w1 = block_used w \<and> inode_used w1 = inode_used w
    else write_inode n ino w = (None, w\<lparr>errno := EINVAL\<rparr>) \<and> read_inode n w = (None, w\<lparr>errno := EINVAL\<rparr>)"
  using assms by (simp add: io_simps fail_def)

lemma inode_table_array_witness:
  "\<exists>w1. write_inode 5 (ufs_init_inode 1) blank_world = (Some (), w1) \<and>
     read_inode 5 w1 = (Some (ufs_init_inode 1), w1)"
  using inode_table_array [OF live_blank(1) ino_wf_init, of 5 5 1] by auto

end
