(* ===== verification/Ufs_Alloc.thy ===== *)
theory Ufs_Alloc
  imports Ufs_Inode
begin

text \<open>
  Allocation and release of data blocks and allocation of inodes (\<open>src/userfs_storage.c\<close>). On a
  live world each function is a pure transformer of the world: \<open>grab_block\<close> and \<open>drop_block\<close> for
  the block bitmap, \<open>claim_inode\<close> for the inode bitmap; the two allocators are interpretations of
  the slot allocators of the interface theory. \<open>free_inode\<close> needs the truncation of the next
  theories and is defined there.
\<close>

section \<open>Functions\<close>

definition zero_block :: "nat \<Rightarrow> unit op" where
  "zero_block block_num = ufs_write_block block_num (replicate UFS_BLOCK_SIZE 0)"

definition init_pointer_block :: "nat \<Rightarrow> unit op" where
  "init_pointer_block block_num =
     ufs_write_block block_num (enc_words (replicate 128 UFS_INVALID_BLOCK))"

definition add_free_blocks :: "u32 \<Rightarrow> world \<Rightarrow> world" where
  "add_free_blocks d w = w\<lparr>ufs_sb := (ufs_sb w)\<lparr>sb_free_blocks := sb_free_blocks (ufs_sb w) + d\<rparr>\<rparr>"

definition add_free_inodes :: "u32 \<Rightarrow> world \<Rightarrow> world" where
  "add_free_inodes d w = w\<lparr>ufs_sb := (ufs_sb w)\<lparr>sb_free_inodes := sb_free_inodes (ufs_sb w) + d\<rparr>\<rparr>"

definition allocate_data_block :: "nat op" where
  "allocate_data_block = asking ufs_mounted (\<lambda>m.
     require m EINVAL (
     on_ok read_block_bitmap (\<lambda>bitmap.
       (case first_from (\<lambda>b. \<not> bitmap_test bitmap b) UFS_DATA_REGION_START_BLK UFS_TOTAL_BLOCKS of
          None \<Rightarrow> fail ENOSPC
        | Some b \<Rightarrow>
            on_ok (write_block_bitmap (bitmap_set bitmap b)) (\<lambda>_.
            attempt (zero_block b)
              (\<lambda>_. modify (add_free_blocks (- 1)) (discard ufs_flush_superblock (ret b)))
              (discard (write_block_bitmap (bitmap_clear (bitmap_set bitmap b) b)) fail_same))))))"

definition free_data_block :: "nat \<Rightarrow> unit op" where
  "free_data_block block_num = asking ufs_mounted (\<lambda>m.
     require m EINVAL (
     require (\<not> (block_num < UFS_DATA_REGION_START_BLK \<or> UFS_TOTAL_BLOCKS \<le> block_num)) EINVAL (
     on_ok read_block_bitmap (\<lambda>bitmap.
       if \<not> bitmap_test bitmap block_num then ret ()
       else on_ok (write_block_bitmap (bitmap_clear bitmap block_num)) (\<lambda>_.
         modify (add_free_blocks 1) (discard ufs_flush_superblock (ret ())))))))"

definition next_generation :: "u32 \<Rightarrow> u32" where
  "next_generation g = (if g \<noteq> 0 then (if g + 1 = 0 then 1 else g + 1) else 1)"

definition allocate_inode :: "nat op" where
  "allocate_inode = asking ufs_mounted (\<lambda>m.
     require m EINVAL (
     on_ok read_inode_bitmap (\<lambda>bitmap.
       (case first_from (\<lambda>i. \<not> bitmap_test bitmap i) 1 UFS_MAX_INODES of
          None \<Rightarrow> fail ENOSPC
        | Some i \<Rightarrow>
            (let occupy = (\<lambda>gen.
               attempt (write_inode i ((ufs_init_inode 0)\<lparr>ino_generation := gen\<rparr>))
                 (\<lambda>_. modify (add_free_inodes (- 1)) (discard ufs_flush_superblock (ret i)))
                 (discard (write_inode_bitmap (bitmap_clear (bitmap_set bitmap i) i)) fail_same)) in
             on_ok (write_inode_bitmap (bitmap_set bitmap i)) (\<lambda>_.
             attempt (read_inode i)
               (\<lambda>existing. occupy (next_generation (ino_generation existing)))
               (occupy 1)))))))"

section \<open>Transformers\<close>

definition flushed :: "world \<Rightarrow> world" where
  "flushed w = put_blk UFS_SUPERBLOCK_BLK (enc_superblock (ufs_sb w)) w"

definition grab_block :: "nat \<Rightarrow> world \<Rightarrow> world" where
  "grab_block b w = flushed (add_free_blocks (- 1)
     (put_blk b (replicate 512 0) (put_block_bitmap (bitmap_set (block_bitmap w) b) w)))"

definition drop_block :: "nat \<Rightarrow> world \<Rightarrow> world" where
  "drop_block b w = flushed (add_free_blocks 1
     (put_block_bitmap (bitmap_clear (block_bitmap w) b) w))"

definition claim_inode :: "nat \<Rightarrow> world \<Rightarrow> world" where
  "claim_inode i w = flushed (add_free_inodes (- 1)
     (put_inode i ((ufs_init_inode 0)\<lparr>ino_generation := next_generation (ino_generation (inode_at w i))\<rparr>)
       (put_blk 1 (bitmap_set (blk w 1) i) w)))"

lemma live_add_free [simp]:
  "live (add_free_blocks d w) = live w" "live (add_free_inodes d w) = live w"
  unfolding live_def add_free_blocks_def add_free_inodes_def sb_wf_def by simp_all

lemma add_free_views [simp]:
  "blk (add_free_blocks d w) = blk w" "blk (add_free_inodes d w) = blk w"
  "block_bitmap (add_free_blocks d w) = block_bitmap w"
  "block_bitmap (add_free_inodes d w) = block_bitmap w"
  "block_used (add_free_blocks d w) = block_used w" "block_used (add_free_inodes d w) = block_used w"
  "inode_used (add_free_blocks d w) = inode_used w" "inode_used (add_free_inodes d w) = inode_used w"
  "inode_at (add_free_blocks d w) = inode_at w" "inode_at (add_free_inodes d w) = inode_at w"
  "ufs_sb (add_free_blocks d w) = (ufs_sb w)\<lparr>sb_free_blocks := sb_free_blocks (ufs_sb w) + d\<rparr>"
  "ufs_sb (add_free_inodes d w) = (ufs_sb w)\<lparr>sb_free_inodes := sb_free_inodes (ufs_sb w) + d\<rparr>"
  "errno (add_free_blocks d w) = errno w" "errno (add_free_inodes d w) = errno w"
  "descriptor_table (add_free_blocks d w) = descriptor_table w"
  "descriptor_table (add_free_inodes d w) = descriptor_table w"
  by (simp_all add: add_free_blocks_def add_free_inodes_def fun_eq_iff block_used_def
      block_bitmap_def inode_used_def)

lemma flushed_views [simp]:
  assumes "live w"
  shows "blk (flushed w) b = (if b = 0 then enc_superblock (ufs_sb w) else blk w b)"
    "live (flushed w)" "ufs_sb (flushed w) = ufs_sb w" "block_used (flushed w) = block_used w"
    "block_bitmap (flushed w) = block_bitmap w"
    "inode_used (flushed w) = inode_used w" "n < UFS_MAX_INODES \<Longrightarrow> inode_at (flushed w) n = inode_at w n"
    "errno (flushed w) = errno w" "descriptor_table (flushed w) = descriptor_table w"
  using assms by (auto simp: flushed_def)

lemma ufs_flush_superblock_live [io_simps]:
  "live w \<Longrightarrow> ufs_flush_superblock w = (Some (), flushed w)"
  by (simp add: ufs_flush_superblock_calm flushed_def)

lemma zero_block_live [io_simps]:
  "live w \<Longrightarrow> b < UFS_TOTAL_BLOCKS \<Longrightarrow> zero_block b w = (Some (), put_blk b (replicate 512 0) w)"
  by (simp add: zero_block_def io_simps)

lemma init_pointer_block_live [io_simps]:
  "live w \<Longrightarrow> b < UFS_TOTAL_BLOCKS \<Longrightarrow>
   init_pointer_block b w = (Some (), put_blk b (enc_words (replicate 128 UFS_INVALID_BLOCK)) w)"
  by (simp add: init_pointer_block_def io_simps)

subsection \<open>Views of a grabbed or dropped block\<close>

lemma grab_block_views [simp]:
  assumes "live w" and "UFS_DATA_REGION_START_BLK \<le> b" and "b < UFS_TOTAL_BLOCKS"
  shows "live (grab_block b w)"
    "2186 \<le> c \<Longrightarrow> blk (grab_block b w) c = (if c = b then replicate 512 0 else blk w c)"
    "c < UFS_TOTAL_BLOCKS \<Longrightarrow> block_used (grab_block b w) c \<longleftrightarrow> c = b \<or> block_used w c"
    "inode_used (grab_block b w) = inode_used w"
    "n < UFS_MAX_INODES \<Longrightarrow> inode_at (grab_block b w) n = inode_at w n"
    "ufs_sb (grab_block b w) = (ufs_sb w)\<lparr>sb_free_blocks := sb_free_blocks (ufs_sb w) - 1\<rparr>"
    "errno (grab_block b w) = errno w" "descriptor_table (grab_block b w) = descriptor_table w"
  using assms
  by (auto simp: grab_block_def blk_put_block_bitmap block_used_set inode_used_def)

lemma drop_block_views [simp]:
  assumes "live w" and "UFS_DATA_REGION_START_BLK \<le> b" and "b < UFS_TOTAL_BLOCKS"
  shows "live (drop_block b w)"
    "2186 \<le> c \<Longrightarrow> blk (drop_block b w) c = blk w c"
    "c < UFS_TOTAL_BLOCKS \<Longrightarrow> block_used (drop_block b w) c \<longleftrightarrow> c \<noteq> b \<and> block_used w c"
    "inode_used (drop_block b w) = inode_used w"
    "n < UFS_MAX_INODES \<Longrightarrow> inode_at (drop_block b w) n = inode_at w n"
    "ufs_sb (drop_block b w) = (ufs_sb w)\<lparr>sb_free_blocks := sb_free_blocks (ufs_sb w) + 1\<rparr>"
    "errno (drop_block b w) = errno w" "descriptor_table (drop_block b w) = descriptor_table w"
  using assms
  by (auto simp: drop_block_def blk_put_block_bitmap block_used_clear inode_used_def)

lemma claim_inode_views [simp]:
  assumes "live w" and "i < UFS_MAX_INODES"
  shows "live (claim_inode i w)"
    "138 \<le> c \<Longrightarrow> blk (claim_inode i w) c = blk w c"
    "block_used (claim_inode i w) = block_used w"
    "j < UFS_MAX_INODES \<Longrightarrow> inode_used (claim_inode i w) j \<longleftrightarrow> j = i \<or> inode_used w j"
    "n < UFS_MAX_INODES \<Longrightarrow> inode_at (claim_inode i w) n =
       (if n = i then (ufs_init_inode 0)\<lparr>ino_generation := next_generation (ino_generation (inode_at w i))\<rparr>
        else inode_at w n)"
    "ufs_sb (claim_inode i w) = (ufs_sb w)\<lparr>sb_free_inodes := sb_free_inodes (ufs_sb w) - 1\<rparr>"
    "errno (claim_inode i w) = errno w" "descriptor_table (claim_inode i w) = descriptor_table w"
proof -
  have wf: "ino_wf ((ufs_init_inode 0)\<lparr>ino_generation := g\<rparr>)" for g
    by (simp add: ino_wf_def ufs_init_inode_def)
  show "live (claim_inode i w)" "138 \<le> c \<Longrightarrow> blk (claim_inode i w) c = blk w c"
    "block_used (claim_inode i w) = block_used w"
    "n < UFS_MAX_INODES \<Longrightarrow> inode_at (claim_inode i w) n =
       (if n = i then (ufs_init_inode 0)\<lparr>ino_generation := next_generation (ino_generation (inode_at w i))\<rparr>
        else inode_at w n)"
    "ufs_sb (claim_inode i w) = (ufs_sb w)\<lparr>sb_free_inodes := sb_free_inodes (ufs_sb w) - 1\<rparr>"
    "errno (claim_inode i w) = errno w" "descriptor_table (claim_inode i w) = descriptor_table w"
    using assms wf by (auto simp: claim_inode_def)
  show "j < UFS_MAX_INODES \<Longrightarrow> inode_used (claim_inode i w) j \<longleftrightarrow> j = i \<or> inode_used w j"
    using assms wf by (simp add: claim_inode_def inode_used_put_inode)
      (simp add: inode_used_def bitmap_test_set)
qed

section \<open>The functions on live worlds\<close>

lemma allocate_data_block_live [io_simps]:
  assumes "live w"
  shows "allocate_data_block w =
    (case first_from (\<lambda>b. \<not> block_used w b) UFS_DATA_REGION_START_BLK UFS_TOTAL_BLOCKS of
       None \<Rightarrow> fail ENOSPC w | Some b \<Rightarrow> (Some b, grab_block b w))"
proof (cases "first_from (\<lambda>b. \<not> block_used w b) UFS_DATA_REGION_START_BLK UFS_TOTAL_BLOCKS")
  case None
  then show ?thesis
    using assms
    by (simp add: allocate_data_block_def asking_def io_simps run_simps block_used_def)
next
  case (Some b)
  then have "b < UFS_TOTAL_BLOCKS" by (simp add: first_from_Some)
  then show ?thesis
    using assms Some
    by (simp add: allocate_data_block_def asking_def io_simps run_simps block_used_def
        modify_def ret_def grab_block_def)
qed

lemma free_data_block_live [io_simps]:
  assumes "live w"
  shows "free_data_block b w =
    (if b < UFS_DATA_REGION_START_BLK \<or> UFS_TOTAL_BLOCKS \<le> b then fail EINVAL w
     else if block_used w b then (Some (), drop_block b w) else (Some (), w))"
  using assms
  by (auto simp: free_data_block_def asking_def io_simps run_simps block_used_def
      modify_def ret_def drop_block_def require_def)

lemma allocate_inode_live [io_simps]:
  assumes "live w"
  shows "allocate_inode w =
    (case first_from (\<lambda>i. \<not> inode_used w i) 1 UFS_MAX_INODES of
       None \<Rightarrow> fail ENOSPC w | Some i \<Rightarrow> (Some i, claim_inode i w))"
proof (cases "first_from (\<lambda>i. \<not> inode_used w i) 1 UFS_MAX_INODES")
  case None
  then show ?thesis
    using assms by (simp add: allocate_inode_def asking_def io_simps run_simps inode_used_def)
next
  case (Some i)
  then have "i < UFS_MAX_INODES" by (simp add: first_from_Some)
  moreover have "ino_wf ((ufs_init_inode 0)\<lparr>ino_generation := g\<rparr>)" for g
    by (simp add: ino_wf_def ufs_init_inode_def)
  ultimately show ?thesis
    using assms Some
    by (simp add: allocate_inode_def asking_def io_simps run_simps inode_used_def Let_def
        modify_def ret_def claim_inode_def)
qed

interpretation data_blocks: recycling_allocator live block_used UFS_DATA_REGION_START_BLK
  UFS_TOTAL_BLOCKS grab_block allocate_data_block drop_block
proof unfold_locales
  fix s assume "live s" "unused_slots block_used UFS_DATA_REGION_START_BLK UFS_TOTAL_BLOCKS s = {}"
  then have "first_from (\<lambda>b. \<not> block_used s b) UFS_DATA_REGION_START_BLK UFS_TOTAL_BLOCKS = None"
    by (simp only: none_unused)
  then show "fst (allocate_data_block s) = None"
    using \<open>live s\<close> by (simp add: allocate_data_block_live fail_def)
qed (auto simp: allocate_data_block_live unused_slots_def)

interpretation inode_slots: slot_allocator live inode_used 1 UFS_MAX_INODES claim_inode allocate_inode
proof unfold_locales
  fix s assume "live s" "unused_slots inode_used 1 UFS_MAX_INODES s = {}"
  then have "first_from (\<lambda>i. \<not> inode_used s i) 1 UFS_MAX_INODES = None"
    by (simp only: none_unused)
  then show "fst (allocate_inode s) = None"
    using \<open>live s\<close> by (simp add: allocate_inode_live fail_def)
qed (auto simp: allocate_inode_live unused_slots_def)

section \<open>Properties\<close>

text \<open>C38: \<open>allocate_data_block\<close> fails, with ENOSPC and an unchanged image, exactly when every block of
  the data region is in use. Otherwise it returns the lowest unused block of the data region, never
  a metadata block; that block is zero filled, its bit is the only one that changes, every other
  block of the journal and data region keeps its contents, no inode changes, and the free-block
  count goes down by one.\<close>

theorem allocate_data_block_spec:
  assumes "live w"
  shows "case allocate_data_block w of
      (None, w1) \<Rightarrow> unused_slots block_used UFS_DATA_REGION_START_BLK UFS_TOTAL_BLOCKS w = {} \<and>
        w1 = w\<lparr>errno := ENOSPC\<rparr>
    | (Some b, w1) \<Rightarrow> UFS_DATA_REGION_START_BLK \<le> b \<and> b < UFS_TOTAL_BLOCKS \<and> \<not> block_used w b \<and>
        (\<forall>c. UFS_DATA_REGION_START_BLK \<le> c \<and> c < b \<longrightarrow> block_used w c) \<and>
        (\<forall>c. UFS_DATA_REGION_START_BLK \<le> c \<longrightarrow>
           blk w1 c = (if c = b then replicate UFS_BLOCK_SIZE 0 else blk w c)) \<and>
        (\<forall>c < UFS_TOTAL_BLOCKS. block_used w1 c = (c = b \<or> block_used w c)) \<and>
        (\<forall>n < UFS_MAX_INODES. inode_at w1 n = inode_at w n) \<and> inode_used w1 = inode_used w \<and>
        sb_free_blocks (ufs_sb w1) = sb_free_blocks (ufs_sb w) - 1 \<and> live w1"
proof (cases "first_from (\<lambda>b. \<not> block_used w b) UFS_DATA_REGION_START_BLK UFS_TOTAL_BLOCKS")
  case None
  then show ?thesis
    using assms by (simp add: allocate_data_block_live fail_def flip: none_unused)
next
  case (Some b)
  then have "2186 \<le> b" "b < 32768" "\<not> block_used w b" "\<forall>c. 2186 \<le> c \<and> c < b \<longrightarrow> block_used w c"
    by (auto simp: first_from_Some)
  then show ?thesis
    using assms Some by (simp add: allocate_data_block_live)
qed

lemma blank_unused: "b < UFS_TOTAL_BLOCKS \<Longrightarrow> \<not> block_used blank_world b"
proof -
  assume b: "b < UFS_TOTAL_BLOCKS"
  have "blk blank_world c = replicate 512 0" for c
    by (simp add: blk_def blk_of_def blank_world_def map_replicate_const)
  then have "x = 0" if "x \<in> set (block_bitmap blank_world)" for x
    using that by (auto simp: block_bitmap_def)
  moreover have "b div 8 < length (block_bitmap blank_world)" using b by simp
  ultimately have "block_bitmap blank_world ! (b div 8) = 0" by (metis nth_mem)
  then show ?thesis by (simp add: block_used_def bitmap_test_def)
qed

theorem allocate_data_block_spec_witness:
  "fst (allocate_data_block blank_world) = Some 2186"
proof -
  have u: "\<not> block_used blank_world 2186" by (rule blank_unused) simp
  show ?thesis
    using allocate_data_block_spec [OF live_blank(1)] u
    by (auto simp: unused_slots_def split: prod.splits option.splits)
qed

text \<open>\<open>free_data_block\<close> refuses blocks outside the data region with EINVAL, so the superblock, the
  bitmaps, the inode table and the journal are never released; freeing a free block changes
  nothing; otherwise exactly the one bit is cleared and the free-block count goes up by one, and
  the next allocation after allocate-then-free returns the same block again.\<close>

lemma free_data_block_spec:
  assumes "live w"
  shows "(b < UFS_DATA_REGION_START_BLK \<or> UFS_TOTAL_BLOCKS \<le> b \<longrightarrow>
        free_data_block b w = (None, w\<lparr>errno := EINVAL\<rparr>)) \<and>
    (UFS_DATA_REGION_START_BLK \<le> b \<and> b < UFS_TOTAL_BLOCKS \<longrightarrow>
      (\<exists>w1. free_data_block b w = (Some (), w1) \<and> live w1 \<and> (\<not> block_used w b \<longrightarrow> w1 = w) \<and>
        (\<forall>c < UFS_TOTAL_BLOCKS. block_used w1 c = (c \<noteq> b \<and> block_used w c)) \<and>
        (\<forall>c \<ge> UFS_DATA_REGION_START_BLK. blk w1 c = blk w c) \<and>
        sb_free_blocks (ufs_sb w1) = sb_free_blocks (ufs_sb w) + (if block_used w b then 1 else 0))) \<and>
    (\<forall>i w1. allocate_data_block w = (Some i, w1) \<longrightarrow>
       (\<exists>w2. free_data_block i w1 = (Some (), w2) \<and> fst (allocate_data_block w2) = Some i))"
proof (intro conjI impI allI)
  assume "b < UFS_DATA_REGION_START_BLK \<or> UFS_TOTAL_BLOCKS \<le> b"
  then show "free_data_block b w = (None, w\<lparr>errno := EINVAL\<rparr>)"
    using assms by (simp add: free_data_block_live fail_def)
next
  assume "UFS_DATA_REGION_START_BLK \<le> b \<and> b < UFS_TOTAL_BLOCKS"
  then show "\<exists>w1. free_data_block b w = (Some (), w1) \<and> live w1 \<and> (\<not> block_used w b \<longrightarrow> w1 = w) \<and>
        (\<forall>c < UFS_TOTAL_BLOCKS. block_used w1 c = (c \<noteq> b \<and> block_used w c)) \<and>
        (\<forall>c \<ge> UFS_DATA_REGION_START_BLK. blk w1 c = blk w c) \<and>
        sb_free_blocks (ufs_sb w1) = sb_free_blocks (ufs_sb w) + (if block_used w b then 1 else 0)"
    using assms by (cases "block_used w b") (auto simp: free_data_block_live)
next
  fix i w1 assume a: "allocate_data_block w = (Some i, w1)"
  have "i \<in> unused_slots block_used 2186 32768 w" using data_blocks.alloc_unused [OF assms a] .
  then have i: "2186 \<le> i" "i < 32768" by (auto simp: unused_slots_def)
  have "live w1" using data_blocks.alloc_inv [OF assms a] .
  moreover have "block_used w1 i" using data_blocks.alloc_used [OF assms a i] by simp
  ultimately have "free_data_block i w1 = (Some (), drop_block i w1)"
    using i by (simp add: free_data_block_live)
  then show "\<exists>w2. free_data_block i w1 = (Some (), w2) \<and> fst (allocate_data_block w2) = Some i"
    using data_blocks.alloc_release_alloc [OF assms a] by blast
qed

lemma free_data_block_spec_witness:
  "free_data_block 2185 blank_world = (None, blank_world\<lparr>errno := EINVAL\<rparr>)"
  using free_data_block_spec [OF live_blank(1), of 2185] by simp

text \<open>C39: \<open>allocate_inode\<close> never hands out the root inode or a used one: it returns the lowest unused
  inode from 1 on, or ENOSPC with an unchanged image when there is none. The inode is fresh, its
  generation is the successor of the one the slot had before and never 0 (so handles to an earlier
  file in that slot are recognisably stale), every other inode and bit is unchanged, and the
  free-inode count goes down by one.\<close>

theorem allocate_inode_spec:
  assumes "live w"
  shows "case allocate_inode w of
      (None, w1) \<Rightarrow> unused_slots inode_used 1 UFS_MAX_INODES w = {} \<and> w1 = w\<lparr>errno := ENOSPC\<rparr>
    | (Some i, w1) \<Rightarrow> 1 \<le> i \<and> i < UFS_MAX_INODES \<and> \<not> inode_used w i \<and>
        (\<forall>j. 1 \<le> j \<and> j < i \<longrightarrow> inode_used w j) \<and>
        (\<forall>j < UFS_MAX_INODES. inode_used w1 j = (j = i \<or> inode_used w j)) \<and>
        (\<forall>j < UFS_MAX_INODES. j \<noteq> i \<longrightarrow> inode_at w1 j = inode_at w j) \<and>
        ino_type (inode_at w1 i) = 0 \<and> ino_size (inode_at w1 i) = 0 \<and>
        (\<forall>p \<in> set (ino_direct (inode_at w1 i)). p = UFS_INVALID_BLOCK) \<and>
        ino_generation (inode_at w1 i) \<noteq> 0 \<and>
        (ino_generation (inode_at w i) \<noteq> - 1 \<longrightarrow>
           ino_generation (inode_at w1 i) = ino_generation (inode_at w i) + 1) \<and>
        sb_free_inodes (ufs_sb w1) = sb_free_inodes (ufs_sb w) - 1 \<and> block_used w1 = block_used w \<and> live w1"
proof (cases "first_from (\<lambda>i. \<not> inode_used w i) 1 UFS_MAX_INODES")
  case None
  then show ?thesis
    using assms by (simp add: allocate_inode_live fail_def flip: none_unused)
next
  case (Some i)
  then have i: "1 \<le> i" "i < UFS_MAX_INODES" "\<not> inode_used w i" "\<forall>j. 1 \<le> j \<and> j < i \<longrightarrow> inode_used w j"
    by (auto simp: first_from_Some)
  have g: "next_generation g \<noteq> 0" "g \<noteq> - 1 \<Longrightarrow> next_generation g = g + 1" for g
    by (auto simp: next_generation_def eq_neg_iff_add_eq_0)
  show ?thesis
    using assms Some i g by (simp add: allocate_inode_live ufs_init_inode_def)
qed

lemma blank_inodes_unused: "n < UFS_MAX_INODES \<Longrightarrow> \<not> inode_used blank_world n"
proof -
  assume "n < UFS_MAX_INODES"
  then have "n div 8 < 512" by simp
  then have "blk blank_world 1 ! (n div 8) = 0" by (simp add: blk_def nth_blk_of) (simp add: blank_world_def)
  then show ?thesis by (simp add: inode_used_def bitmap_test_def)
qed

theorem allocate_inode_spec_witness: "fst (allocate_inode blank_world) = Some 1"
proof -
  have u: "\<not> inode_used blank_world 1" by (rule blank_inodes_unused) simp
  show ?thesis
    using allocate_inode_spec [OF live_blank(1)] u
    by (auto simp: unused_slots_def split: prod.splits option.splits)
qed

text \<open>Successive allocations never hand out the same block twice, and \<open>n\<close> of them all succeed as
  long as \<open>n\<close> data blocks are unused.\<close>

lemma allocations_distinct:
  assumes "live w" and "alloc_many allocate_data_block n w = (bs, w1)"
  shows "distinct bs \<and> set bs \<subseteq> unused_slots block_used UFS_DATA_REGION_START_BLK UFS_TOTAL_BLOCKS w \<and>
    (n \<le> card (unused_slots block_used UFS_DATA_REGION_START_BLK UFS_TOTAL_BLOCKS w) \<longrightarrow> length bs = n)"
  using data_blocks.alloc_many_fresh [OF assms] data_blocks.alloc_many_length [OF assms(1), of n] assms(2) by simp

lemma allocations_distinct_witness:
  "distinct (fst (alloc_many allocate_data_block 3 blank_world))"
  using allocations_distinct [OF live_blank(1), of 3 "fst (alloc_many allocate_data_block 3 blank_world)"
    "snd (alloc_many allocate_data_block 3 blank_world)"] by simp

end
