(* ===== verification/Ufs_Blockmap.thy ===== *)
theory Ufs_Blockmap
  imports Ufs_Alloc
begin

text \<open>
  From logical blocks of a file to blocks of the image (\<open>src/userfs_storage.c\<close>): 8 direct pointers,
  a single indirect block with 128 and a double indirect block with 128 times 128 pointers.
  \<open>ensure_inode_data_block\<close> and \<open>free_inode_blocks_after\<close> work on the caller's inode in memory and
  the world; they leave the inode changed also when they fail.
\<close>

abbreviation (input) UFS_PTRS_PER_BLOCK :: nat where "UFS_PTRS_PER_BLOCK \<equiv> 128"
abbreviation (input) UFS_SINGLE_INDIRECT_CAPACITY :: nat where "UFS_SINGLE_INDIRECT_CAPACITY \<equiv> 128"
abbreviation (input) UFS_DOUBLE_INDIRECT_CAPACITY :: nat where "UFS_DOUBLE_INDIRECT_CAPACITY \<equiv> 16384"
abbreviation (input) UFS_MAX_FILE_BLOCKS :: nat where "UFS_MAX_FILE_BLOCKS \<equiv> 16520"

type_synonym 'a inode_op = "(ufs_inode \<times> world, 'a) st_op"

text \<open>A call with a local inode: its result and the inode it leaves.\<close>

definition with_inode :: "'a inode_op \<Rightarrow> ufs_inode \<Rightarrow> ufs_inode op" where
  "with_inode m inode w = (case m (inode, w) of
      (None, (inode, w)) \<Rightarrow> (None, w) | (Some _, (inode, w)) \<Rightarrow> (Some inode, w))"

section \<open>Functions\<close>

definition read_pointers :: "u32 \<Rightarrow> u32 list op" where
  "read_pointers b = on_ok (ufs_read_block (unat b)) (\<lambda>buf. ret (dec_words UFS_PTRS_PER_BLOCK buf))"

definition get_inode_data_block :: "ufs_inode \<Rightarrow> nat \<Rightarrow> u32 op" where
  "get_inode_data_block inode logical_block =
     (if logical_block < UFS_DIRECT_BLOCKS then ret (ino_direct inode ! logical_block)
      else let lb = logical_block - UFS_DIRECT_BLOCKS in
      if lb < UFS_SINGLE_INDIRECT_CAPACITY then
        if ino_single_indirect inode = UFS_INVALID_BLOCK then ret UFS_INVALID_BLOCK
        else on_ok (read_pointers (ino_single_indirect inode)) (\<lambda>ptrs. ret (ptrs ! lb))
      else let lb = lb - UFS_SINGLE_INDIRECT_CAPACITY in
      if lb < UFS_DOUBLE_INDIRECT_CAPACITY then
        if ino_double_indirect inode = UFS_INVALID_BLOCK then ret UFS_INVALID_BLOCK
        else on_ok (read_pointers (ino_double_indirect inode)) (\<lambda>l1.
          let idx1 = lb div UFS_PTRS_PER_BLOCK; idx2 = lb mod UFS_PTRS_PER_BLOCK in
          if l1 ! idx1 = UFS_INVALID_BLOCK then ret UFS_INVALID_BLOCK
          else on_ok (read_pointers (l1 ! idx1)) (\<lambda>l2. ret (l2 ! idx2)))
      else fail EFBIG)"

text \<open>The two ways in which \<open>ensure_inode_data_block\<close> extends the map: a new pointer block, and a new
  data block entered into a pointer block that is written back.\<close>

definition new_pointer_block :: "u32 op" where
  "new_pointer_block = on_ok allocate_data_block (\<lambda>nb.
     attempt (init_pointer_block nb) (\<lambda>_. ret (of_nat nb)) (discard (free_data_block nb) fail_same))"

definition fill_pointer :: "u32 \<Rightarrow> u32 list \<Rightarrow> nat \<Rightarrow> u32 op" where
  "fill_pointer pb ptrs k =
     (if ptrs ! k = UFS_INVALID_BLOCK then
        on_ok allocate_data_block (\<lambda>nb.
        attempt (ufs_write_block (unat pb) (enc_words (ptrs[k := of_nat nb])))
          (\<lambda>_. ret (of_nat nb)) (discard (free_data_block nb) fail_same))
      else ret (ptrs ! k))"

definition set_direct :: "nat \<Rightarrow> u32 \<Rightarrow> ufs_inode \<Rightarrow> ufs_inode" where
  "set_direct k b i = i\<lparr>ino_direct := (ino_direct i)[k := b]\<rparr>"

definition ensure_direct :: "nat \<Rightarrow> (u32 \<times> bool) inode_op" where
  "ensure_direct lb = asking fst (\<lambda>inode.
     if ino_direct inode ! lb = UFS_INVALID_BLOCK then
       on_ok (on_world allocate_data_block) (\<lambda>nb.
       modify (apfst (set_direct lb (of_nat nb))) (ret (of_nat nb, True)))
     else ret (ino_direct inode ! lb, False))"

definition ensure_single :: "nat \<Rightarrow> (u32 \<times> bool) inode_op" where
  "ensure_single lb = asking fst (\<lambda>inode.
     let rest = (\<lambda>dirty. asking (ino_single_indirect \<circ> fst) (\<lambda>pb.
           on_ok (on_world (read_pointers pb)) (\<lambda>ptrs.
           on_ok (on_world (fill_pointer pb ptrs lb)) (\<lambda>phys. ret (phys, dirty))))) in
     if ino_single_indirect inode = UFS_INVALID_BLOCK then
       on_ok (on_world new_pointer_block) (\<lambda>nb.
       modify (apfst (\<lambda>i. i\<lparr>ino_single_indirect := nb\<rparr>)) (rest True))
     else rest False)"

definition ensure_double :: "nat \<Rightarrow> (u32 \<times> bool) inode_op" where
  "ensure_double lb2 = asking fst (\<lambda>inode.
     let idx1 = lb2 div UFS_PTRS_PER_BLOCK; idx2 = lb2 mod UFS_PTRS_PER_BLOCK;
         level2 = (\<lambda>dirty l1b. on_ok (on_world (read_pointers l1b)) (\<lambda>l2.
           on_ok (on_world (fill_pointer l1b l2 idx2)) (\<lambda>phys. ret (phys, dirty))));
         rest = (\<lambda>dirty. asking (ino_double_indirect \<circ> fst) (\<lambda>pb.
           on_ok (on_world (read_pointers pb)) (\<lambda>l1.
           if l1 ! idx1 = UFS_INVALID_BLOCK then
             on_ok (on_world new_pointer_block) (\<lambda>nb.
             attempt (on_world (ufs_write_block (unat pb) (enc_words (l1[idx1 := nb]))))
               (\<lambda>_. level2 dirty nb)
               (discard (on_world (free_data_block (unat nb))) fail_same))
           else level2 dirty (l1 ! idx1)))) in
     if ino_double_indirect inode = UFS_INVALID_BLOCK then
       on_ok (on_world new_pointer_block) (\<lambda>nb.
       modify (apfst (\<lambda>i. i\<lparr>ino_double_indirect := nb\<rparr>)) (rest True))
     else rest False)"

definition ensure_inode_data_block :: "nat \<Rightarrow> nat \<Rightarrow> u32 inode_op" where
  "ensure_inode_data_block inode_num logical_block =
     (if UFS_MAX_FILE_BLOCKS \<le> logical_block then on_world (fail EFBIG)
      else on_ok
        (if logical_block < UFS_DIRECT_BLOCKS then ensure_direct logical_block
         else if logical_block - UFS_DIRECT_BLOCKS < UFS_SINGLE_INDIRECT_CAPACITY
         then ensure_single (logical_block - UFS_DIRECT_BLOCKS)
         else ensure_double (logical_block - UFS_DIRECT_BLOCKS - UFS_SINGLE_INDIRECT_CAPACITY))
        (\<lambda>(phys, inode_dirty).
          if inode_dirty then asking fst (\<lambda>inode.
            on_ok (on_world (write_inode inode_num inode)) (\<lambda>_. ret phys))
          else ret phys))"

subsection \<open>Releasing the blocks behind a file\<close>

text \<open>The loop over one pointer block: \<open>start\<close> is the first index to release; the flags are
  \<open>changed\<close> and \<open>any_remaining\<close>.\<close>

definition free_pointers :: "nat \<Rightarrow> u32 list \<Rightarrow> (u32 list \<times> bool \<times> bool) op" where
  "free_pointers start ptrs =
     for_each [0..<UFS_PTRS_PER_BLOCK] (\<lambda>i (ptrs, changed, any_remaining).
       if start \<le> i then
         if ptrs ! i \<noteq> UFS_INVALID_BLOCK then
           on_ok (free_data_block (unat (ptrs ! i))) (\<lambda>_.
           ret (ptrs[i := UFS_INVALID_BLOCK], True, any_remaining))
         else ret (ptrs, changed, any_remaining)
       else ret (ptrs, changed, any_remaining \<or> ptrs ! i \<noteq> UFS_INVALID_BLOCK))
     (ptrs, False, False)"

text \<open>A pointer block of data blocks: release from \<open>start\<close> on, write it back if it changed, release
  the block itself when nothing is left and \<open>start\<close> is 0. Tells whether it was released.\<close>

definition free_pointer_block :: "nat \<Rightarrow> u32 \<Rightarrow> bool op" where
  "free_pointer_block start pb =
     on_ok (read_pointers pb) (\<lambda>ptrs.
     on_ok (free_pointers start ptrs) (\<lambda>(ptrs, changed, any_remaining).
     on_ok (if changed then ufs_write_block (unat pb) (enc_words ptrs) else ret ()) (\<lambda>_.
     if \<not> any_remaining \<and> start = 0 then
       on_ok (free_data_block (unat pb)) (\<lambda>_. ret True)
     else ret False)))"

definition free_level1 :: "nat \<Rightarrow> u32 list \<Rightarrow> (u32 list \<times> bool \<times> bool) op" where
  "free_level1 start_lb2 l1 =
     for_each [0..<UFS_PTRS_PER_BLOCK] (\<lambda>idx1 (l1, l1_changed, any_l1_remaining).
       let block_start_lb2 = idx1 * UFS_PTRS_PER_BLOCK;
           block_end_lb2 = block_start_lb2 + UFS_PTRS_PER_BLOCK in
       if l1 ! idx1 = UFS_INVALID_BLOCK then ret (l1, l1_changed, any_l1_remaining)
       else if block_end_lb2 \<le> start_lb2 then ret (l1, l1_changed, True)
       else
         on_ok (free_pointer_block
                 (if block_start_lb2 < start_lb2 then start_lb2 - block_start_lb2 else 0) (l1 ! idx1)) (\<lambda>released.
         if released then ret (l1[idx1 := UFS_INVALID_BLOCK], True, any_l1_remaining)
         else ret (l1, l1_changed, True)))
     (l1, False, False)"

definition free_direct :: "nat \<Rightarrow> bool inode_op" where
  "free_direct keep_blocks =
     for_each [(if keep_blocks < UFS_DIRECT_BLOCKS then keep_blocks else UFS_DIRECT_BLOCKS)..<UFS_DIRECT_BLOCKS]
       (\<lambda>i dirty. asking fst (\<lambda>inode.
         if ino_direct inode ! i \<noteq> UFS_INVALID_BLOCK then
           on_ok (on_world (free_data_block (unat (ino_direct inode ! i)))) (\<lambda>_.
           modify (apfst (set_direct i UFS_INVALID_BLOCK)) (ret True))
         else ret dirty)) False"

definition free_single :: "nat \<Rightarrow> bool \<Rightarrow> bool inode_op" where
  "free_single keep_blocks dirty = asking (ino_single_indirect \<circ> fst) (\<lambda>pb.
     if pb \<noteq> UFS_INVALID_BLOCK then
       on_ok (on_world (free_pointer_block
               (if UFS_DIRECT_BLOCKS < keep_blocks then keep_blocks - UFS_DIRECT_BLOCKS else 0) pb)) (\<lambda>released.
       if released then modify (apfst (\<lambda>i. i\<lparr>ino_single_indirect := UFS_INVALID_BLOCK\<rparr>)) (ret True)
       else ret dirty)
     else ret dirty)"

definition free_double :: "nat \<Rightarrow> bool \<Rightarrow> bool inode_op" where
  "free_double keep_blocks dirty = asking (ino_double_indirect \<circ> fst) (\<lambda>pb.
     if pb \<noteq> UFS_INVALID_BLOCK then
       on_ok (on_world (read_pointers pb)) (\<lambda>l1.
       let base = UFS_DIRECT_BLOCKS + UFS_SINGLE_INDIRECT_CAPACITY;
           start_lb2 = (if base < keep_blocks then keep_blocks - base else 0) in
       on_ok (on_world (free_level1 start_lb2 l1)) (\<lambda>(l1, l1_changed, any_l1_remaining).
       on_ok (if l1_changed then on_world (ufs_write_block (unat pb) (enc_words l1)) else ret ()) (\<lambda>_.
       if \<not> any_l1_remaining \<and> start_lb2 = 0 then
         on_ok (on_world (free_data_block (unat pb))) (\<lambda>_.
         modify (apfst (\<lambda>i. i\<lparr>ino_double_indirect := UFS_INVALID_BLOCK\<rparr>)) (ret True))
       else ret dirty)))
     else ret dirty)"

definition free_inode_blocks_after :: "nat \<Rightarrow> nat \<Rightarrow> unit inode_op" where
  "free_inode_blocks_after inode_num keep_blocks =
     on_ok (free_direct keep_blocks) (\<lambda>dirty.
     on_ok (free_single keep_blocks dirty) (\<lambda>dirty.
     on_ok (free_double keep_blocks dirty) (\<lambda>dirty.
     if dirty then asking fst (\<lambda>inode. on_world (write_inode inode_num inode)) else ret ())))"

section \<open>Truncation and release of inodes\<close>

definition blocks_of_size :: "u64 \<Rightarrow> nat" where
  "blocks_of_size bytes = unat (ucast ((bytes + of_nat UFS_BLOCK_SIZE - 1) div of_nat UFS_BLOCK_SIZE) :: u32)"

text \<open>Zeroing the tail of the last block is best effort: its failures are ignored.\<close>

definition zero_tail :: "u64 \<Rightarrow> ufs_inode \<Rightarrow> unit op" where
  "zero_tail new_size inode =
     attempt (get_inode_data_block inode (blocks_of_size new_size - 1)) (\<lambda>phys.
       if phys \<noteq> UFS_INVALID_BLOCK then
         attempt (ufs_read_block (unat phys)) (\<lambda>buf.
           let off = unat new_size mod UFS_BLOCK_SIZE in
           discard (ufs_write_block (unat phys) (overlay off (replicate (UFS_BLOCK_SIZE - off) 0) buf)) (ret ()))
           (ret ())
       else ret ()) (ret ())"

definition grow_inode :: "nat \<Rightarrow> nat \<Rightarrow> nat \<Rightarrow> u64 \<Rightarrow> unit inode_op" where
  "grow_inode inode_num old_blocks new_blocks old_size =
     for_each [old_blocks..<new_blocks] (\<lambda>lb _.
       attempt (ensure_inode_data_block inode_num lb) (\<lambda>_. ret ())
         (discard (free_inode_blocks_after inode_num old_blocks) (
          modify (apfst (\<lambda>i. i\<lparr>ino_size := old_size\<rparr>)) (
          asking fst (\<lambda>inode. discard (on_world (write_inode inode_num inode)) fail_same)))))
     ()"

definition ufs_truncate_inode :: "nat \<Rightarrow> u64 \<Rightarrow> unit inode_op" where
  "ufs_truncate_inode inode_num new_size =
     (if UFS_MAX_FILE_BLOCKS * UFS_BLOCK_SIZE < unat new_size then on_world (fail EFBIG)
      else asking (ino_size \<circ> fst) (\<lambda>old_size.
        let new_blocks = blocks_of_size new_size; old_blocks = blocks_of_size old_size in
        on_ok
          (if old_size < new_size then grow_inode inode_num old_blocks new_blocks old_size
           else if new_size < old_size then
             on_ok (free_inode_blocks_after inode_num new_blocks) (\<lambda>_.
             if 0 < new_size \<and> unat new_size mod UFS_BLOCK_SIZE \<noteq> 0
             then asking fst (\<lambda>inode. on_world (zero_tail new_size inode)) else ret ())
           else ret ())
          (\<lambda>_. modify (apfst (\<lambda>i. i\<lparr>ino_size := new_size, ino_block_count := of_nat new_blocks\<rparr>)) (
            asking fst (\<lambda>inode. on_world (write_inode inode_num inode))))))"

definition free_inode :: "nat \<Rightarrow> unit op" where
  "free_inode inode_num = asking ufs_mounted (\<lambda>m.
     require m EINVAL (
     require (inode_num < UFS_MAX_INODES) EINVAL (
     require (inode_num \<noteq> UFS_ROOT_INODE) EBUSY (
     on_ok read_inode_bitmap (\<lambda>bitmap.
     if \<not> bitmap_test bitmap inode_num then ret ()
     else
       on_ok (read_inode inode_num) (\<lambda>inode.
       on_ok (with_inode (ufs_truncate_inode inode_num 0) inode) (\<lambda>inode.
       on_ok (write_inode inode_num ((ufs_init_inode 0)\<lparr>ino_generation := ino_generation inode\<rparr>)) (\<lambda>_.
       on_ok (write_inode_bitmap (bitmap_clear bitmap inode_num)) (\<lambda>_.
       modify (add_free_inodes 1) (discard ufs_flush_superblock (ret ())))))))))))"

end
