(* ===== verification/Ufs_Sync.thy ===== *)
theory Ufs_Sync
  imports Ufs_Image
begin

text \<open>
  The operation lock of \<open>src/ufs_sync.c\<close> as one thread sees it: a recursion depth, the process mutex
  and the lock on the image file, taken in this order by the outermost operation and released by
  the matching unlock. A nested operation only counts the depth and keeps the kind of lock that is
  held. Waiting for other threads and processes is part of the system calls.
\<close>

section \<open>Functions\<close>

text \<open>\<open>fcntl(F_SETLKW)\<close>, repeated while it is interrupted.\<close>

function fcntl_setlkw :: "lock_kind \<Rightarrow> unit op" where
  "fcntl_setlkw kind w =
     (case plain_call w of
        (None, w1) \<Rightarrow> if errno w1 = EINTR then fcntl_setlkw kind w1 else (None, w1)
      | (Some _, w1) \<Rightarrow> (Some (), w1\<lparr>image_lock := Some kind\<rparr>))"
  by pat_completeness auto

lemma plain_call_None_script: "plain_call w = (None, w1) \<Longrightarrow> length (script w1) < length (script w)"
  by (auto simp: plain_call_def syscall_def ret_def split: list.splits sysres.splits)

termination fcntl_setlkw
  by (relation "measure (\<lambda>(kind, w). length (script w))") (auto dest: plain_call_None_script sym)

declare fcntl_setlkw.simps [simp del]

text \<open>A pthread call: its error is a return value, not \<open>errno\<close>.\<close>

definition pthread_call :: "unit op" where
  "pthread_call w = (case plain_call w of (r, w1) \<Rightarrow> (r, w1\<lparr>errno := errno w\<rparr>))"

definition lock_image :: "lock_kind \<Rightarrow> unit op" where
  "lock_image kind = asking (\<lambda>w. ufs_mounted w \<and> 0 \<le> ufs_fd w) (\<lambda>ok.
     require ok ENODEV (fcntl_setlkw kind))"

text \<open>The first call stands for \<open>pthread_once\<close> and \<open>pthread_mutex_lock\<close>, whose error is assigned to \<open>errno\<close>.\<close>

definition lock_operation :: "lock_kind \<Rightarrow> unit op" where
  "lock_operation kind = asking lock_depth (\<lambda>depth.
     if 0 < depth then modify (\<lambda>w. w\<lparr>lock_depth := depth + 1\<rparr>) (ret ())
     else on_ok plain_call (\<lambda>_.
       modify (\<lambda>w. w\<lparr>mutex_held := True\<rparr>) (
       attempt (lock_image kind)
         (\<lambda>_. modify (\<lambda>w. w\<lparr>lock_depth := 1\<rparr>) (ret ()))
         (modify (\<lambda>w. w\<lparr>mutex_held := False\<rparr>) fail_same))))"

definition ufs_operation_read_lock :: "unit op" where
  "ufs_operation_read_lock = lock_operation F_RDLCK"

definition ufs_operation_write_lock :: "unit op" where
  "ufs_operation_write_lock = lock_operation F_WRLCK"

definition ufs_operation_unlock :: "unit op" where
  "ufs_operation_unlock = asking lock_depth (\<lambda>depth.
     if depth = 0 then ret ()
     else modify (\<lambda>w. w\<lparr>lock_depth := depth - 1\<rparr>) (
       if depth - 1 \<noteq> 0 then ret ()
       else discard (asking ufs_fd (\<lambda>fd.
           if 0 \<le> fd then on_ok plain_call (\<lambda>_. modify (\<lambda>w. w\<lparr>image_lock := None\<rparr>) (ret ()))
           else ret ()))
         (modify (\<lambda>w. w\<lparr>mutex_held := False\<rparr>) (ret ()))))"

text \<open>
  The wrapper of every public operation: take the lock, run the operation, save \<open>errno\<close>, unlock,
  restore \<open>errno\<close>, return the operation's result.
\<close>

definition unlock_after :: "'a op \<Rightarrow> 'a op" where
  "unlock_after m w = (case m w of (r, w1) \<Rightarrow> (r, (snd (ufs_operation_unlock w1))\<lparr>errno := errno w1\<rparr>))"

definition with_lock :: "unit op \<Rightarrow> 'a op \<Rightarrow> 'a op" where
  "with_lock lock m = on_ok lock (\<lambda>_. unlock_after m)"

section \<open>Faultless runs\<close>

lemma plain_call_calm [io_simps]: "script w = [] \<Longrightarrow> plain_call w = (Some (), w)"
  by (simp add: plain_call_def syscall_def ret_def)

lemma pthread_call_calm [io_simps]: "script w = [] \<Longrightarrow> pthread_call w = (Some (), w)"
  by (simp add: pthread_call_def io_simps)

lemma fcntl_setlkw_calm [io_simps]:
  "script w = [] \<Longrightarrow> fcntl_setlkw kind w = (Some (), w\<lparr>image_lock := Some kind\<rparr>)"
  by (subst fcntl_setlkw.simps) (simp add: io_simps)

definition unlocked :: "world \<Rightarrow> bool" where
  "unlocked w \<longleftrightarrow> lock_depth w = 0 \<and> \<not> mutex_held w \<and> image_lock w = None"

definition locked :: "lock_kind \<Rightarrow> world \<Rightarrow> world" where
  "locked kind w = w\<lparr>mutex_held := True, image_lock := Some kind, lock_depth := 1\<rparr>"

lemma lock_outermost [io_simps]:
  "calm w \<Longrightarrow> ufs_mounted w \<Longrightarrow> lock_depth w = 0 \<Longrightarrow> lock_operation kind w = (Some (), locked kind w)"
  by (simp add: lock_operation_def asking_def run_simps io_simps modify_def lock_image_def ret_def
      calm_def locked_def attempt_def)

lemma lock_nested [io_simps]:
  "0 < lock_depth w \<Longrightarrow> lock_operation kind w = (Some (), w\<lparr>lock_depth := lock_depth w + 1\<rparr>)"
  by (simp add: lock_operation_def asking_def modify_def ret_def)

lemma unlock_nested [io_simps]:
  "1 < lock_depth w \<Longrightarrow> ufs_operation_unlock w = (Some (), w\<lparr>lock_depth := lock_depth w - 1\<rparr>)"
  by (simp add: ufs_operation_unlock_def asking_def modify_def ret_def)

lemma unlock_outermost [io_simps]:
  "calm w \<Longrightarrow> lock_depth w = 1 \<Longrightarrow>
   ufs_operation_unlock w = (Some (), w\<lparr>lock_depth := 0, image_lock := None, mutex_held := False\<rparr>)"
  by (simp add: ufs_operation_unlock_def asking_def modify_def ret_def calm_def discard_def run_simps io_simps)

end
