(* ===== verification/Ufs_Metadata.thy ===== *)
theory Ufs_Metadata
  imports Ufs_Sync
begin

text \<open>
  The path-free part of \<open>src/metadata.c\<close>: the process umask, timestamps and the relatime rule, the
  permission check and the metadata of a new inode. The \<open>mode_t\<close>, \<open>uid_t\<close> and \<open>gid_t\<close> values and
  the \<open>int\<close> access masks are 32-bit words; \<open>time_t\<close> and \<open>long\<close> are 64-bit words read by \<open>sint\<close>.
  The sources never write the \<open>reserved\<close> field of the local timestamp they copy into inodes; the
  model takes it from \<open>stack_junk\<close>. The octal masks of the sources are written in hexadecimal:
  0777 is 0x1FF, 0666 is 0x1B6.
\<close>

abbreviation (input) R_OK :: u32 where "R_OK \<equiv> 4"
abbreviation (input) W_OK :: u32 where "W_OK \<equiv> 2"
abbreviation (input) X_OK :: u32 where "X_OK \<equiv> 1"
abbreviation (input) F_OK :: u32 where "F_OK \<equiv> 0"

section \<open>Umask\<close>

definition ufs_set_umask :: "u32 \<Rightarrow> u32 op" where
  "ufs_set_umask new_mask =
     attempt pthread_call
       (\<lambda>_. asking ufs_umask (\<lambda>old_mask.
          modify (\<lambda>w. w\<lparr>ufs_umask := new_mask AND 0x1FF\<rparr>) (discard pthread_call (ret old_mask))))
       (asking ufs_umask ret)"

definition get_ufs_umask :: "u32 op" where
  "get_ufs_umask = discard pthread_call (asking ufs_umask (\<lambda>mask. discard pthread_call (ret mask)))"

section \<open>Timestamps\<close>

definition ufs_get_current_disk_time :: "ufs_disk_time op" where
  "ufs_get_current_disk_time = on_ok clock_gettime (\<lambda>now. asking stack_junk (\<lambda>junk.
     ret \<lparr>dt_sec = tv_sec now, dt_nsec = ucast (tv_nsec now), dt_reserved = junk\<rparr>))"

definition ufs_disk_time_to_timespec :: "ufs_disk_time \<Rightarrow> timespec" where
  "ufs_disk_time_to_timespec d = \<lparr>tv_sec = dt_sec d, tv_nsec = scast (dt_nsec d)\<rparr>"

definition ufs_timespec_to_disk_time :: "timespec \<Rightarrow> ufs_disk_time \<Rightarrow> ufs_disk_time" where
  "ufs_timespec_to_disk_time t d = d\<lparr>dt_sec := tv_sec t, dt_nsec := ucast (tv_nsec t)\<rparr>"

definition ufs_touch_atime :: "ufs_inode \<Rightarrow> ufs_inode op" where
  "ufs_touch_atime inode = attempt ufs_get_current_disk_time
     (\<lambda>now. ret (inode\<lparr>ino_atime := now\<rparr>)) (ret inode)"

definition ufs_touch_mtime_ctime :: "ufs_inode \<Rightarrow> ufs_inode op" where
  "ufs_touch_mtime_ctime inode = attempt ufs_get_current_disk_time
     (\<lambda>now. ret (inode\<lparr>ino_mtime := now, ino_ctime := now\<rparr>)) (ret inode)"

definition ufs_touch_ctime :: "ufs_inode \<Rightarrow> ufs_inode op" where
  "ufs_touch_ctime inode = attempt ufs_get_current_disk_time
     (\<lambda>now. ret (inode\<lparr>ino_ctime := now\<rparr>)) (ret inode)"

definition disk_time_compare :: "ufs_disk_time \<Rightarrow> ufs_disk_time \<Rightarrow> int" where
  "disk_time_compare a b =
     (if sint (dt_sec a) < sint (dt_sec b) then - 1
      else if sint (dt_sec b) < sint (dt_sec a) then 1
      else if sint (dt_nsec a) < sint (dt_nsec b) then - 1
      else if sint (dt_nsec b) < sint (dt_nsec a) then 1
      else 0)"

text \<open>The age is a 64-bit difference; it wraps as the compiled subtraction does.\<close>

definition ufs_should_update_atime :: "ufs_inode \<Rightarrow> bool op" where
  "ufs_should_update_atime inode = on_ok ufs_get_current_disk_time (\<lambda>now.
     if disk_time_compare (ino_atime inode) (ino_mtime inode) < 0 then ret True
     else if disk_time_compare (ino_atime inode) (ino_ctime inode) < 0 then ret True
     else if 24 * 60 * 60 \<le> sint (dt_sec now - dt_sec (ino_atime inode)) then ret True
     else ret False)"

section \<open>Permissions\<close>

definition valid_access_mode :: "u32 \<Rightarrow> unit op" where
  "valid_access_mode requested =
     require (requested AND NOT (R_OK OR W_OK OR X_OK OR F_OK) = 0) EINVAL (ret ())"

definition group_contains :: "u32 \<Rightarrow> u32 \<Rightarrow> u32 list \<Rightarrow> bool" where
  "group_contains inode_gid caller_gid supplementary \<longleftrightarrow>
     caller_gid = inode_gid \<or> inode_gid \<in> set supplementary"

definition ufs_mode_allows :: "ufs_inode \<Rightarrow> u32 \<Rightarrow> u32 \<Rightarrow> u32 list \<Rightarrow> u32 \<Rightarrow> unit op" where
  "ufs_mode_allows inode caller_uid caller_gid supplementary requested =
     on_ok (valid_access_mode requested) (\<lambda>_.
     if requested = F_OK then ret ()
     else if caller_uid = 0 then ret ()
     else
       let permission_bits =
             (if caller_uid = ino_uid inode then drop_bit 6 (ino_mode inode) AND 7
              else if group_contains (ino_gid inode) caller_gid supplementary
              then drop_bit 3 (ino_mode inode) AND 7
              else ino_mode inode AND 7);
           required = (if requested AND R_OK \<noteq> 0 then 4 else 0) OR
             (if requested AND W_OK \<noteq> 0 then 2 else 0) OR
             (if requested AND X_OK \<noteq> 0 then 1 else 0) in
       require (permission_bits AND required = required) EACCES (ret ()))"

text \<open>The calls are \<open>getgroups\<close> for the count, \<open>malloc\<close> and \<open>getgroups\<close> for the groups.\<close>

definition ufs_check_access_inode :: "ufs_inode \<Rightarrow> u32 \<Rightarrow> unit op" where
  "ufs_check_access_inode inode requested =
     on_ok (valid_access_mode requested) (\<lambda>_.
     on_ok plain_call (\<lambda>_.
     asking (\<lambda>w. (sup_groups w, euid w, egid w)) (\<lambda>(groups, uid, gid).
     on_ok (if groups \<noteq> [] then attempt plain_call (\<lambda>_. plain_call) (fail ENOMEM) else ret ()) (\<lambda>_.
     ufs_mode_allows inode uid gid groups requested))))"

section \<open>Metadata of a new inode\<close>

definition default_mode :: "u32 \<Rightarrow> u32 \<Rightarrow> u32" where
  "default_mode requested_mode d = (if requested_mode AND 0x1FF = 0 then d else requested_mode AND 0x1FF)"

definition ufs_initialize_metadata :: "ufs_inode \<Rightarrow> u32 \<Rightarrow> u32 \<Rightarrow> ufs_inode op" where
  "ufs_initialize_metadata inode type requested_mode =
     on_ok get_ufs_umask (\<lambda>umask_value.
     on_ok
       (if type = UFS_TYPE_FILE then ret (default_mode requested_mode 0x1B6 AND NOT umask_value)
        else if type = UFS_TYPE_DIR then ret (default_mode requested_mode 0x1FF AND NOT umask_value)
        else if type = UFS_TYPE_SYMLINK then ret 0x1FF
        else fail EINVAL) (\<lambda>mode.
     on_ok ufs_get_current_disk_time (\<lambda>now.
     asking (\<lambda>w. (euid w, egid w)) (\<lambda>(uid, gid).
     ret (inode\<lparr>ino_type := type, ino_mode := mode, ino_uid := uid, ino_gid := gid,
            ino_link_count := 1, ino_atime := now, ino_mtime := now, ino_ctime := now\<rparr>)))))"

section \<open>Stat\<close>

record ufs_stat =
  st_type :: u32
  st_size :: u64
  st_blocks :: u32
  st_mode :: u32
  st_uid :: u32
  st_gid :: u32
  st_link_count :: u32
  st_atime :: timespec
  st_mtime :: timespec
  st_ctime :: timespec

definition ufs_fill_stat_from_inode :: "ufs_inode \<Rightarrow> ufs_stat" where
  "ufs_fill_stat_from_inode inode =
     \<lparr>st_type = ino_type inode, st_size = ino_size inode, st_blocks = ino_block_count inode,
      st_mode = ino_mode inode, st_uid = ino_uid inode, st_gid = ino_gid inode,
      st_link_count = ino_link_count inode,
      st_atime = ufs_disk_time_to_timespec (ino_atime inode),
      st_mtime = ufs_disk_time_to_timespec (ino_mtime inode),
      st_ctime = ufs_disk_time_to_timespec (ino_ctime inode)\<rparr>"

section \<open>Permission bits\<close>

text \<open>The position of the permission bits that apply to a caller: owner, group or others.\<close>

definition access_class :: "ufs_inode \<Rightarrow> u32 \<Rightarrow> u32 \<Rightarrow> u32 list \<Rightarrow> nat" where
  "access_class inode caller_uid caller_gid supplementary =
     (if caller_uid = ino_uid inode then 6
      else if group_contains (ino_gid inode) caller_gid supplementary then 3 else 0)"

definition bits_of :: "u32 \<Rightarrow> nat set" where
  "bits_of x = {k. bit x k}"

lemma low_mask_iff: "(x :: u32) AND NOT (mask n) = 0 \<longleftrightarrow> (\<forall>k \<in> bits_of x. k < n)"
proof -
  have "k < 32" if "bit x k" for k using bit_imp_le_length [OF that] by simp
  then show ?thesis by (auto simp: bits_of_def bit_eq_iff bit_simps)
qed

lemma access_mask: "(4 OR 2 OR 1 OR 0 :: u32) = mask 3"
  by (simp add: mask_eq_exp_minus_1)

lemma valid_access_mode_run:
  "valid_access_mode r w = (if bits_of r \<subseteq> {..<3} then (Some (), w) else (None, w\<lparr>errno := EINVAL\<rparr>))"
proof -
  have "r AND NOT (R_OK OR W_OK OR X_OK OR F_OK) = 0 \<longleftrightarrow> bits_of r \<subseteq> {..<3}"
    unfolding access_mask low_mask_iff by auto
  then show ?thesis by (simp add: valid_access_mode_def require_def ret_def fail_def del: One_nat_def)
qed

lemma bit_pow2_u32: "bit (4 :: u32) k \<longleftrightarrow> k = 2" "bit (2 :: u32) k \<longleftrightarrow> k = 1" "bit (1 :: u32) k \<longleftrightarrow> k = 0"
proof -
  have p: "bit (2 ^ n :: u32) k \<longleftrightarrow> k = n" if "n < 32" for n
    using that by (auto simp: bit_exp_iff)
  show "bit (4 :: u32) k \<longleftrightarrow> k = 2" "bit (2 :: u32) k \<longleftrightarrow> k = 1" "bit (1 :: u32) k \<longleftrightarrow> k = 0"
    using p [of 2] p [of 1] p [of 0] by simp_all
qed

lemma and_pow2_u32: "r AND 4 \<noteq> 0 \<longleftrightarrow> bit r 2" "r AND 2 \<noteq> 0 \<longleftrightarrow> bit r 1" "r AND 1 \<noteq> 0 \<longleftrightarrow> bit (r :: u32) 0"
  using and_exp_eq_0_iff_not_bit [of r 2] and_exp_eq_0_iff_not_bit [of r 1] and_exp_eq_0_iff_not_bit [of r 0]
  by simp_all

lemma bit_when_u32:
  "bit (if c then (4 :: u32) else 0) k \<longleftrightarrow> c \<and> k = 2"
  "bit (if c then (2 :: u32) else 0) k \<longleftrightarrow> c \<and> k = 1"
  "bit (if c then (1 :: u32) else 0) k \<longleftrightarrow> c \<and> k = 0"
  using bit_pow2_u32 [of k] by simp_all

lemma required_bits:
  assumes "bits_of r \<subseteq> {..<3}"
  shows "(if r AND R_OK \<noteq> 0 then (4 :: u32) else 0) OR (if r AND W_OK \<noteq> 0 then 2 else 0) OR
    (if r AND X_OK \<noteq> 0 then 1 else 0) = r"
proof (rule bit_word_eqI)
  fix k assume "k < LENGTH(32)"
  have "k = 0 \<or> k = 1 \<or> k = 2" if "bit r k"
    using assms that by (auto simp: bits_of_def)
  then show "bit ((if r AND R_OK \<noteq> 0 then (4 :: u32) else 0) OR (if r AND W_OK \<noteq> 0 then 2 else 0) OR
      (if r AND X_OK \<noteq> 0 then 1 else 0)) k = bit r k"
    unfolding and_pow2_u32 bit_or_iff bit_when_u32 by blast
qed

lemma granted_bits:
  assumes "bits_of r \<subseteq> {..<3}"
  shows "(drop_bit s m AND 7) AND r = r \<longleftrightarrow> (+) s ` bits_of r \<subseteq> bits_of m"
proof -
  have seven: "(7 :: u32) = mask 3" by (simp add: mask_eq_exp_minus_1)
  have "bit ((drop_bit s m AND 7) AND r) k \<longleftrightarrow> bit m (s + k) \<and> bit r k" for k
    using assms unfolding seven by (auto simp: bit_simps bits_of_def)
  moreover have "k < 32" if "bit r k" for k using bit_imp_le_length [OF that] by simp
  ultimately show ?thesis by (auto simp: bit_eq_iff bits_of_def)
qed

lemma mode_allows_run:
  "ufs_mode_allows inode caller_uid caller_gid supplementary r w =
     (if \<not> bits_of r \<subseteq> {..<3} then (None, w\<lparr>errno := EINVAL\<rparr>)
      else if r = 0 \<or> caller_uid = 0 \<or>
        (+) (access_class inode caller_uid caller_gid supplementary) ` bits_of r \<subseteq> bits_of (ino_mode inode)
      then (Some (), w) else (None, w\<lparr>errno := EACCES\<rparr>))"
proof (cases "bits_of r \<subseteq> {..<3}")
  case True
  have "(if caller_uid = ino_uid inode then drop_bit 6 (ino_mode inode) AND 7
       else if group_contains (ino_gid inode) caller_gid supplementary then drop_bit 3 (ino_mode inode) AND 7
       else ino_mode inode AND 7) =
      drop_bit (access_class inode caller_uid caller_gid supplementary) (ino_mode inode) AND 7"
    by (simp add: access_class_def)
  then show ?thesis using True
    by (auto simp: ufs_mode_allows_def on_ok_Some valid_access_mode_run required_bits granted_bits Let_def
        require_def ret_def fail_def)
next
  case False
  then show ?thesis by (simp add: ufs_mode_allows_def on_ok_None valid_access_mode_run)
qed

text \<open>The permission check. A request with bits other than R, W and X is refused with EINVAL; otherwise
  the superuser and the empty request pass, and anyone else passes exactly if every requested bit is
  set in the one class (owner, else group, else others) that applies to the caller: an owner
  without a permission does not get it through the group. The check changes nothing but \<open>errno\<close>.\<close>

lemma mode_allows_spec:
  "ufs_mode_allows inode caller_uid caller_gid supplementary r w =
     (if \<not> bits_of r \<subseteq> {..<3} then (None, w\<lparr>errno := EINVAL\<rparr>)
      else if r = 0 \<or> caller_uid = 0 \<or>
        (+) (access_class inode caller_uid caller_gid supplementary) ` bits_of r \<subseteq> bits_of (ino_mode inode)
      then (Some (), w) else (None, w\<lparr>errno := EACCES\<rparr>))"
  by (rule mode_allows_run)

lemma ufs_check_access_inode_calm [io_simps]:
  assumes "script w = []"
  shows "ufs_check_access_inode inode r w = ufs_mode_allows inode (euid w) (egid w) (sup_groups w) r w"
proof (cases "bits_of r \<subseteq> {..<3}")
  case True
  then show ?thesis using assms
    by (simp add: ufs_check_access_inode_def on_ok_Some valid_access_mode_run plain_call_calm asking_def
        attempt_Some ret_def)
next
  case False
  then show ?thesis
    by (simp add: ufs_check_access_inode_def ufs_mode_allows_def on_ok_None valid_access_mode_run)
qed

end
