(* ===== verification/Ufs_Path.thy ===== *)
theory Ufs_Path
  imports Ufs_World
begin

text \<open>
  The path functions of \<open>src/namespace.c\<close> that need no disk: \<open>validate_path\<close> and
  \<open>normalize_absolute_path\<close>. Paths are HOL strings without the terminating NUL; a pointer into a path
  is the rest of the string. Both are compared with a specification on the list of components.
\<close>

abbreviation (input) slash :: char where "slash \<equiv> CHR ''/''"
abbreviation (input) dot :: char where "dot \<equiv> CHR ''.''"

section \<open>Functions\<close>

text \<open>The loop of \<open>validate_path\<close>; index \<open>length path\<close> is the terminating NUL.\<close>

function components_ok :: "string \<Rightarrow> nat \<Rightarrow> nat \<Rightarrow> bool" where
  "components_ok path start index =
     (if index \<le> length path then
        if index = length path \<or> path ! index = slash then
          (let component_length = index - start in
           if component_length = 0 \<or> UFS_MAX_NAME < component_length \<or>
              (component_length = 1 \<and> path ! start = dot) \<or>
              (component_length = 2 \<and> path ! start = dot \<and> path ! (start + 1) = dot)
           then False
           else components_ok path (index + 1) (index + 1))
        else components_ok path start (index + 1)
      else True)"
  by pat_completeness auto
termination
  by (relation "measure (\<lambda>(path, start, index). Suc (length path) - index)") auto

declare components_ok.simps [simp del]

definition validate_path :: "string \<Rightarrow> unit op" where
  "validate_path path =
     require (path \<noteq> [] \<and> path ! 0 = slash) EINVAL (
     require (\<not> (length path = 0 \<or> UFS_MAX_PATH < length path)) EINVAL (
     if length path = 1 then ret ()
     else require (path ! (length path - 1) \<noteq> slash) EINVAL (
       require (components_ok path 1 1) EINVAL (ret ()))))"

text \<open>\<open>starts\<close> is the stack \<open>component_starts\<close>, its length is \<open>depth\<close>.\<close>

function normalize_loop :: "string \<Rightarrow> nat list \<Rightarrow> string \<Rightarrow> string op" where
  "normalize_loop input starts output =
     (let input = dropWhile (\<lambda>c. c = slash) input;
          component = takeWhile (\<lambda>c. c \<noteq> slash) input;
          rest = dropWhile (\<lambda>c. c \<noteq> slash) input;
          len = length component in
      if input = [] then ret output
      else if len = 1 \<and> component ! 0 = dot then normalize_loop rest starts output
      else if len = 2 \<and> component ! 0 = dot \<and> component ! 1 = dot then
        (case starts of [] \<Rightarrow> normalize_loop rest [] output
         | s # ss \<Rightarrow> normalize_loop rest ss (take s output))
      else if UFS_MAX_NAME < len then fail ENAMETOOLONG
      else if UFS_MAX_PATH < length output + (if 1 < length output then 1 else 0) + len
      then fail ENAMETOOLONG
      else normalize_loop rest (length output # starts)
        ((if 1 < length output then output @ [slash] else output) @ component))"
  by pat_completeness auto

lemma normalize_progress:
  assumes "dropWhile (\<lambda>c. c = slash) input \<noteq> []"
  shows "length (dropWhile (\<lambda>c. c \<noteq> slash) (dropWhile (\<lambda>c. c = slash) input)) < length input"
proof -
  obtain c cs where d: "dropWhile (\<lambda>c. c = slash) input = c # cs"
    using assms by (cases "dropWhile (\<lambda>c. c = slash) input") auto
  then have "c \<noteq> slash" using hd_dropWhile [OF assms] by simp
  then have "length (dropWhile (\<lambda>c. c \<noteq> slash) (c # cs)) \<le> length cs"
    by (simp add: length_dropWhile_le)
  also have "\<dots> < length (dropWhile (\<lambda>c. c = slash) input)" by (simp add: d)
  also have "\<dots> \<le> length input" by (rule length_dropWhile_le)
  finally show ?thesis by (simp add: d)
qed

termination normalize_loop
  by (relation "measure (\<lambda>(input, starts, output). length input)")
    (simp_all only: in_measure case_prod_conv wf_measure normalize_progress not_False_eq_True)

declare normalize_loop.simps [simp del]

definition normalize_absolute_path :: "string \<Rightarrow> string op" where
  "normalize_absolute_path input =
     require (input \<noteq> [] \<and> input ! 0 = slash) EINVAL (normalize_loop input [] [slash])"

section \<open>Component lists\<close>

text \<open>The components of a path without its leading slash, empty ones included, and back.\<close>

function path_parts :: "string \<Rightarrow> string list" where
  "path_parts s = takeWhile (\<lambda>c. c \<noteq> slash) s #
     (case dropWhile (\<lambda>c. c \<noteq> slash) s of [] \<Rightarrow> [] | _ # r \<Rightarrow> path_parts r)"
  by pat_completeness auto

lemma part_progress: "dropWhile P s = c # r \<Longrightarrow> length r < length s"
  by (metis Suc_le_eq length_Cons length_dropWhile_le)

termination path_parts
  by (relation "measure length") (auto simp: part_progress)

declare path_parts.simps [simp del]

definition path_of :: "string list \<Rightarrow> string" where
  "path_of cs = (if cs = [] then [slash] else concat (map ((#) slash) cs))"

definition valid_component :: "string \<Rightarrow> bool" where
  "valid_component c \<longleftrightarrow> c \<noteq> [] \<and> slash \<notin> set c \<and> length c \<le> UFS_MAX_NAME \<and> c \<noteq> ''.'' \<and> c \<noteq> ''..''"

definition valid_path :: "string \<Rightarrow> bool" where
  "valid_path path \<longleftrightarrow> length path \<le> UFS_MAX_PATH \<and> path \<in> path_of ` lists (Collect valid_component)"

lemma path_parts_last: "slash \<notin> set s \<Longrightarrow> path_parts s = [s]"
proof -
  assume "slash \<notin> set s"
  then have "takeWhile (\<lambda>c. c \<noteq> slash) s = s" "dropWhile (\<lambda>c. c \<noteq> slash) s = []"
    by (auto simp only: takeWhile_eq_all_conv dropWhile_eq_Nil_conv)
  then show ?thesis by (simp only: path_parts.simps [of s] list.case)
qed

lemma path_parts_more: "slash \<notin> set c \<Longrightarrow> path_parts (c @ slash # r) = c # path_parts r"
proof -
  assume "slash \<notin> set c"
  then have "\<And>x. x \<in> set c \<Longrightarrow> x \<noteq> slash" by auto
  then show ?thesis by (simp add: path_parts.simps [of "c @ slash # r"] takeWhile_append2 dropWhile_append2)
qed

lemmas path_parts_rules = path_parts_last path_parts_more

lemma parts_induct [case_names last more]:
  assumes "\<And>s. slash \<notin> set s \<Longrightarrow> P s" and "\<And>c r. slash \<notin> set c \<Longrightarrow> P r \<Longrightarrow> P (c @ slash # r)"
  shows "P s"
proof (induction s rule: measure_induct_rule [of length])
  case (less s)
  show ?case
  proof (cases "slash \<in> set s")
    case True
    then obtain c r where "s = c @ slash # r" "slash \<notin> set c" by (metis split_list_first)
    then show ?thesis using less assms(2) by simp
  qed (rule assms(1))
qed

lemma path_parts_no_slash: "c \<in> set (path_parts s) \<Longrightarrow> slash \<notin> set c"
  by (induction s rule: parts_induct) (auto simp: path_parts_rules)

lemma path_parts_not_Nil [simp]: "path_parts s \<noteq> []"
  by (simp add: path_parts.simps [of s])

lemma concat_path_parts: "concat (map ((#) slash) (path_parts s)) = slash # s"
  by (induction s rule: parts_induct) (simp_all add: path_parts_rules)

lemma path_parts_concat:
  "\<forall>d \<in> set (c # cs). slash \<notin> set d \<Longrightarrow> path_parts (tl (concat (map ((#) slash) (c # cs)))) = c # cs"
  by (induction cs arbitrary: c) (simp_all add: path_parts_rules)

lemma path_of_in_iff:
  "path \<in> path_of ` lists (Collect valid_component) \<longleftrightarrow>
     path = [slash] \<or> (path \<noteq> [] \<and> path ! 0 = slash \<and> (\<forall>c \<in> set (path_parts (tl path)). valid_component c))"
  (is "?L \<longleftrightarrow> ?R")
proof
  assume ?L
  then obtain cs where cs: "path = path_of cs" "\<forall>c \<in> set cs. valid_component c" by auto
  show ?R
  proof (cases cs)
    case Nil
    then show ?thesis using cs by (simp add: path_of_def)
  next
    case (Cons d ds)
    have "path_parts (tl path) = cs"
      using cs Cons path_parts_concat [of d ds] by (auto simp: path_of_def valid_component_def)
    then show ?thesis using cs Cons by (simp add: path_of_def)
  qed
next
  assume ?R
  then show ?L
  proof
    assume "path = [slash]"
    then have "path = path_of []" by (simp add: path_of_def)
    then show ?L by blast
  next
    assume r: "path \<noteq> [] \<and> path ! 0 = slash \<and> (\<forall>c \<in> set (path_parts (tl path)). valid_component c)"
    then have "slash # tl path = path" by (cases path) auto
    then have "path = path_of (path_parts (tl path))"
      using concat_path_parts [of "tl path"] by (simp add: path_of_def path_parts.simps [of "tl path"])
    then show ?L using r by (metis (no_types, lifting) imageI in_listsI mem_Collect_eq)
  qed
qed

section \<open>Validation\<close>

lemma components_ok_iff:
  "start \<le> index \<Longrightarrow> index \<le> length path \<Longrightarrow> \<forall>k. start \<le> k \<longrightarrow> k < index \<longrightarrow> path ! k \<noteq> slash \<Longrightarrow>
   components_ok path start index \<longleftrightarrow> (\<forall>c \<in> set (path_parts (drop start path)). valid_component c)"
proof (induction path start index rule: components_ok.induct)
  case (1 path start index)
  define c where "c = take (index - start) (drop start path)"
  have len: "length c = index - start" using "1.prems" by (simp add: c_def)
  have nth: "c ! i = path ! (start + i)" if "i < index - start" for i
    using that "1.prems" by (simp add: c_def)
  have noslash: "slash \<notin> set c"
    using "1.prems" by (auto simp: in_set_conv_nth len nth)
  have split: "drop start path = c @ drop index path"
    using "1.prems" by (simp add: c_def) (metis append_take_drop_id drop_drop le_add_diff_inverse2)
  have bad: "index - start = 0 \<or> UFS_MAX_NAME < index - start \<or> (index - start = 1 \<and> path ! start = dot) \<or>
      (index - start = 2 \<and> path ! start = dot \<and> path ! (start + 1) = dot) \<longleftrightarrow> \<not> valid_component c"
  proof -
    have "c = ''.'' \<longleftrightarrow> index - start = 1 \<and> path ! start = dot"
      using len nth [of 0] by (cases c) auto
    moreover have "c = ''..'' \<longleftrightarrow> index - start = 2 \<and> path ! start = dot \<and> path ! (start + 1) = dot"
      using len nth [of 0] nth [of 1]
      by (cases c; cases "tl c") (auto simp: numeral_2_eq_2 simp del: add_2_eq_Suc')
    moreover have "c = [] \<longleftrightarrow> index - start = 0" using len by auto
    ultimately show ?thesis using noslash len by (auto simp: valid_component_def)
  qed
  show ?case
  proof (cases "index = length path \<or> path ! index = slash")
    case True
    have parts: "path_parts (drop start path) =
        c # (if index = length path then [] else path_parts (drop (index + 1) path))"
    proof (cases "index = length path")
      case True
      then have "drop start path = c" using split by simp
      then show ?thesis using True noslash by (simp add: path_parts_rules)
    next
      case False
      then have "drop index path = slash # drop (index + 1) path"
        using True "1.prems" by (metis Cons_nth_drop_Suc Suc_eq_plus1 le_neq_implies_less)
      then show ?thesis using split False noslash by (simp add: path_parts_rules)
    qed
    have step: "components_ok path start index \<longleftrightarrow> valid_component c \<and> components_ok path (index + 1) (index + 1)"
      using True "1.prems" bad by (subst components_ok.simps) (simp add: Let_def)
    show ?thesis
    proof (cases "valid_component c \<and> index < length path")
      case v: True
      have "components_ok path (index + 1) (index + 1) \<longleftrightarrow>
          (\<forall>d \<in> set (path_parts (drop (index + 1) path)). valid_component d)"
        using "1.IH"(1) [OF _ True refl] "1.prems" v bad by simp
      then show ?thesis using step parts v by simp
    next
      case False
      then have "\<not> valid_component c \<or> index = length path" using "1.prems" by auto
      then show ?thesis
        using step parts by (auto simp: components_ok.simps [of path "Suc (length path)"])
    qed
  next
    case False
    then have lt: "index < length path" using "1.prems" by auto
    then have "components_ok path start index = components_ok path start (index + 1)"
      using False by (subst components_ok.simps) simp
    also have "\<dots> = (\<forall>d \<in> set (path_parts (drop start path)). valid_component d)"
    proof (rule "1.IH"(2))
      show "\<forall>k. start \<le> k \<longrightarrow> k < index + 1 \<longrightarrow> path ! k \<noteq> slash"
        using "1.prems" False by (auto simp: less_Suc_eq)
    qed (use "1.prems" False lt in auto)
    finally show ?thesis .
  qed
qed

lemma parts_no_trailing_slash:
  "\<forall>c \<in> set (path_parts s). valid_component c \<Longrightarrow> s \<noteq> [] \<and> last s \<noteq> slash"
  by (induction s rule: parts_induct) (auto simp: path_parts_rules valid_component_def dest: last_in_set)

lemma validate_path_run:
  "validate_path path w = (if valid_path path then (Some (), w) else (None, w\<lparr>errno := EINVAL\<rparr>))"
proof (cases "path \<noteq> [] \<and> path ! 0 = slash \<and> length path \<le> UFS_MAX_PATH \<and> length path \<noteq> 1")
  case True
  then have tl: "tl path = drop 1 path" "2 \<le> length path" by (auto simp: drop_Suc Suc_le_eq neq_Nil_conv)
  have ok: "components_ok path 1 1 \<longleftrightarrow> (\<forall>c \<in> set (path_parts (tl path)). valid_component c)"
    using components_ok_iff [of 1 1 path] tl by simp
  have "path ! (length path - 1) \<noteq> slash" if "components_ok path 1 1"
    using parts_no_trailing_slash [of "tl path"] that ok True
    by (metis last_conv_nth last_tl)
  then show ?thesis
    using True ok tl by (auto simp: validate_path_def valid_path_def path_of_in_iff require_def ret_def fail_def)
next
  case False
  then show ?thesis
    by (auto simp: validate_path_def valid_path_def path_of_in_iff require_def ret_def fail_def length_Suc_conv)
qed

text \<open>\<open>validate_path\<close> accepts exactly the paths of at most 255 characters that are a slash, or that
  are built from components of 1 to 31 characters without slashes, none of them a single or a double
  dot; every other string is refused with EINVAL, and nothing else changes.\<close>

lemma validate_path_spec:
  "validate_path path w = (if valid_path path then (Some (), w) else (None, w\<lparr>errno := EINVAL\<rparr>))"
  by (rule validate_path_run)

text \<open>Concrete paths: the longest component, an empty component and a component that is a dot.\<close>

lemma valid_path_examples:
  "valid_path ''/etc/rc''" "valid_path ''/''" "\<not> valid_path ''/a//b''" "\<not> valid_path ''/a/./b''"
  by (simp_all add: valid_path_def path_of_in_iff path_parts.simps valid_component_def)

section \<open>Normalization\<close>

text \<open>
  The specification works on components: empty ones and single dots vanish, a double dot removes the
  component before it, and a result that is too long at any time is an error. The stack has the last
  component first.
\<close>

fun norm_parts :: "string list \<Rightarrow> string list \<Rightarrow> string list option" where
  "norm_parts st [] = Some st"
| "norm_parts st (c # cs) =
     (if c = [] \<or> c = ''.'' then norm_parts st cs
      else if c = ''..'' then norm_parts (tl st) cs
      else if UFS_MAX_NAME < length c \<or> UFS_MAX_PATH < length (path_of (rev (c # st))) then None
      else norm_parts (c # st) cs)"

fun apply_part :: "string \<Rightarrow> string list \<Rightarrow> string list" where
  "apply_part c st = (if c = [] \<or> c = ''.'' then st else if c = ''..'' then tl st else c # st)"

fun starts_of :: "string list \<Rightarrow> nat list" where
  "starts_of [] = []"
| "starts_of (c # st) = length (path_of (rev st)) # starts_of st"

lemma path_of_snoc:
  "[] \<notin> set cs \<Longrightarrow> path_of (cs @ [c]) = (if 1 < length (path_of cs) then path_of cs @ [slash] else path_of cs) @ c"
  by (cases cs; cases "hd cs") (auto simp: path_of_def)

lemma normalize_loop_slash: "normalize_loop (slash # r) starts output = normalize_loop r starts output"
  by (simp add: normalize_loop.simps [of "slash # r"] normalize_loop.simps [of r])

lemma normalize_loop_part:
  assumes "c \<noteq> []" and "slash \<notin> set c" and "rest = [] \<or> rest \<noteq> [] \<and> hd rest = slash"
  shows "normalize_loop (c @ rest) starts output =
     (if c = ''.'' then normalize_loop rest starts output
      else if c = ''..'' then (case starts of [] \<Rightarrow> normalize_loop rest [] output
         | s # ss \<Rightarrow> normalize_loop rest ss (take s output))
      else if UFS_MAX_NAME < length c then fail ENAMETOOLONG
      else if UFS_MAX_PATH < length output + (if 1 < length output then 1 else 0) + length c
      then fail ENAMETOOLONG
      else normalize_loop rest (length output # starts)
        ((if 1 < length output then output @ [slash] else output) @ c))"
proof -
  have "\<And>x. x \<in> set c \<Longrightarrow> x \<noteq> slash" using assms by auto
  then have w: "takeWhile (\<lambda>x. x \<noteq> slash) (c @ rest) = c" "dropWhile (\<lambda>x. x \<noteq> slash) (c @ rest) = rest"
    using assms(3) by (cases rest; simp add: takeWhile_append2 dropWhile_append2)+
  have skip: "dropWhile (\<lambda>x. x = slash) (c @ rest) = c @ rest"
    using assms by (cases c) auto
  have dots: "length c = 1 \<and> c ! 0 = dot \<longleftrightarrow> c = ''.''" "length c = 2 \<and> c ! 0 = dot \<and> c ! 1 = dot \<longleftrightarrow> c = ''..''"
    by (auto simp: length_Suc_conv numeral_2_eq_2 simp del: add_2_eq_Suc')
  show ?thesis
    using assms(1) by (subst normalize_loop.simps) (simp only: Let_def skip w dots append_is_Nil_conv simp_thms if_False)
qed

lemma normalize_loop_norm:
  "set st \<subseteq> Collect valid_component \<Longrightarrow>
   normalize_loop input (starts_of st) (path_of (rev st)) w =
     (case norm_parts st (path_parts input) of
        None \<Rightarrow> (None, w\<lparr>errno := ENAMETOOLONG\<rparr>) | Some st \<Rightarrow> (Some (path_of (rev st)), w))"
proof (induction input arbitrary: st rule: parts_induct)
  case (last s)
  have fin: "normalize_loop [] ns p w = (Some p, w)" for ns p
    by (simp add: normalize_loop.simps ret_def)
  show ?case
  proof (cases "s = []")
    case True
    then show ?thesis by (simp add: fin path_parts_rules)
  next
    case False
    have ne: "[] \<notin> set (rev st)" using last.prems by (auto simp: valid_component_def)
    have take: "take (length (path_of (rev ds))) (path_of (rev ds @ [d])) = path_of (rev ds)" if "st = d # ds" for d ds
      using ne that by (subst path_of_snoc) auto
    show ?thesis
      using False last.hyps normalize_loop_part [OF False last.hyps, of "[]"] path_of_snoc [OF ne, of s]
      by (cases st) (auto simp: path_parts_rules fin fail_def take)
  qed
next
  case (more c r)
  show ?case
  proof (cases "c = []")
    case True
    then show ?thesis using more path_parts_more [of "[]" r] by (simp add: normalize_loop_slash)
  next
    case False
    have ne: "[] \<notin> set (rev st)" using more.prems by (auto simp: valid_component_def)
    have take: "take (length (path_of (rev ds))) (path_of (rev ds @ [d])) = path_of (rev ds)" if "st = d # ds" for d ds
      using ne that by (subst path_of_snoc) auto
    have push: "normalize_loop r (length (path_of (rev st)) # starts_of st) (path_of (rev (c # st))) w =
      (case norm_parts (c # st) (path_parts r) of
        None \<Rightarrow> (None, w\<lparr>errno := ENAMETOOLONG\<rparr>) | Some st \<Rightarrow> (Some (path_of (rev st)), w))"
      if "c \<noteq> ''.''" "c \<noteq> ''..''" "length c \<le> UFS_MAX_NAME"
      using more.IH [of "c # st"] more.prems more.hyps(1) False that by (simp add: valid_component_def)
    have pop: "normalize_loop r (starts_of (tl st)) (path_of (rev (tl st))) w =
      (case norm_parts (tl st) (path_parts r) of
        None \<Rightarrow> (None, w\<lparr>errno := ENAMETOOLONG\<rparr>) | Some st \<Rightarrow> (Some (path_of (rev st)), w))"
      using more.IH [of "tl st"] more.prems by (cases st) auto
    have same: "normalize_loop r (starts_of st) (path_of (rev st)) w =
      (case norm_parts st (path_parts r) of
        None \<Rightarrow> (None, w\<lparr>errno := ENAMETOOLONG\<rparr>) | Some st \<Rightarrow> (Some (path_of (rev st)), w))"
      using more.IH more.prems by simp
    have parts: "path_parts (c @ slash # r) = c # path_parts r" using more.hyps(1) by (rule path_parts_more)
    note step = normalize_loop_part [OF False more.hyps(1), of "slash # r", simplified normalize_loop_slash]
    show ?thesis
    proof (cases "c = ''..''")
      case True
      show ?thesis using step pop parts take True by (cases st) simp_all
    next
      case nd: False
      then show ?thesis
        using step push same parts False path_of_snoc [OF ne, of c] by (auto simp: fail_def)
    qed
  qed
qed

lemma norm_parts_result:
  "norm_parts st cs = Some st' \<Longrightarrow> \<forall>c \<in> set cs. slash \<notin> set c \<Longrightarrow> valid_path (path_of (rev st)) \<Longrightarrow>
   set st \<subseteq> Collect valid_component \<Longrightarrow> st' = fold apply_part cs st \<and> valid_path (path_of (rev st'))"
proof (induction cs arbitrary: st)
  case Nil
  then show ?case by simp
next
  case (Cons c cs)
  have pop: "valid_path (path_of (rev (tl st)))"
  proof (cases st)
    case (Cons d ds)
    then have "[] \<notin> set (rev ds)" using Cons.prems(4) by (auto simp: valid_component_def)
    then have "length (path_of (rev ds)) \<le> length (path_of (rev ds @ [d]))"
      by (simp add: path_of_snoc)
    then show ?thesis using Cons Cons.prems(3,4) by (auto simp: valid_path_def intro!: imageI)
  qed (use Cons.prems in auto)
  show ?case
  proof (cases "c = [] \<or> c = ''.'' \<or> c = ''..''")
    case True
    then show ?thesis using Cons.prems Cons.IH [of st] Cons.IH [of "tl st"] pop
      by (cases st) auto
  next
    case False
    then have "valid_component c" "length (path_of (rev (c # st))) \<le> UFS_MAX_PATH"
        "norm_parts (c # st) cs = Some st'"
      using Cons.prems by (auto simp: valid_component_def split: if_splits)
    moreover from this have "valid_path (path_of (rev (c # st)))"
      using Cons.prems(4) by (auto simp: valid_path_def intro!: imageI)
    ultimately show ?thesis using False Cons.IH [of "c # st"] Cons.prems by auto
  qed
qed

lemma normalize_absolute_path_run:
  "normalize_absolute_path input w =
     (if input \<noteq> [] \<and> input ! 0 = slash then
        case norm_parts [] (path_parts input) of
          None \<Rightarrow> (None, w\<lparr>errno := ENAMETOOLONG\<rparr>) | Some st \<Rightarrow> (Some (path_of (rev st)), w)
      else (None, w\<lparr>errno := EINVAL\<rparr>))"
proof -
  have init: "path_of [] = [slash]" by (simp add: path_of_def)
  show ?thesis
    using normalize_loop_norm [of "[]" input w]
    by (auto simp: normalize_absolute_path_def require_def fail_def init split: option.splits)
qed

text \<open>Normalization of the path behind a symbolic link. \<open>normalize_absolute_path\<close> refuses a relative
  path with EINVAL; otherwise it either fails with ENAMETOOLONG or returns the path of the components
  that are left when empty components and dots are dropped and double dots take back the component
  before them (at the root they do nothing). What it returns is always a path that
  \<open>validate_path\<close> accepts.\<close>

lemma normalize_spec:
  "(case normalize_absolute_path input w of
      (None, w1) \<Rightarrow>
        (if input \<noteq> [] \<and> input ! 0 = slash
         then norm_parts [] (path_parts input) = None \<and> w1 = w\<lparr>errno := ENAMETOOLONG\<rparr>
         else w1 = w\<lparr>errno := EINVAL\<rparr>)
    | (Some p, w1) \<Rightarrow> w1 = w \<and> input \<noteq> [] \<and> input ! 0 = slash \<and>
        norm_parts [] (path_parts input) \<noteq> None \<and>
        p = path_of (rev (fold apply_part (path_parts input) [])) \<and> valid_path p)"
proof -
  have init: "path_of [] = [slash]" by (simp add: path_of_def)
  have "valid_path (path_of (rev []))" by (simp add: valid_path_def path_of_in_iff init)
  then have res: "st = fold apply_part (path_parts input) [] \<and> valid_path (path_of (rev st))"
    if "norm_parts [] (path_parts input) = Some st" for st
    using norm_parts_result [OF that] path_parts_no_slash by auto
  show ?thesis
    using res by (auto simp: normalize_absolute_path_run split: option.splits)
qed

end
