(* ===== verification/Ufs_Directory.thy ===== *)
theory Ufs_Directory
  imports Ufs_Blockmap Ufs_Metadata Ufs_Path
begin

text \<open>
  Directories of \<open>src/namespace.c\<close>: eight entries of 64 bytes in each block, and the four operations
  \<open>directory_find\<close>, \<open>directory_add\<close>, \<open>directory_remove\<close>, \<open>directory_is_empty\<close>. Names are strings;
  on disk they end at the first NUL of their 32 bytes.
\<close>

section \<open>Entries of a block\<close>

abbreviation (input) dirents_per_block :: nat where "dirents_per_block \<equiv> 8"

definition char_of_byte :: "u8 \<Rightarrow> char" where
  "char_of_byte b = char_of (unat b)"

definition byte_of_char :: "char \<Rightarrow> u8" where
  "byte_of_char c = of_nat (of_char c)"

text \<open>The C string in a character array.\<close>

definition c_string :: "bytes \<Rightarrow> string" where
  "c_string bs = map char_of_byte (takeWhile (\<lambda>b. b \<noteq> 0) bs)"

text \<open>\<open>strcpy\<close> into an array that was cleared before.\<close>

definition name_field :: "string \<Rightarrow> bytes" where
  "name_field name = map byte_of_char name @ replicate (32 - length name) 0"

definition dirents :: "bytes \<Rightarrow> ufs_disk_dirent list" where
  "dirents buf = map (\<lambda>i. dec_dirent (field (i * UFS_DIRENT_SIZE) UFS_DIRENT_SIZE buf)) [0..<dirents_per_block]"

definition enc_dirents :: "ufs_disk_dirent list \<Rightarrow> bytes" where
  "enc_dirents es = concat (map enc_dirent es)"

definition entry_named :: "string \<Rightarrow> ufs_disk_dirent \<Rightarrow> bool" where
  "entry_named name d \<longleftrightarrow> de_used d \<noteq> 0 \<and> c_string (de_name d) = name"

definition new_dirent :: "string \<Rightarrow> nat \<Rightarrow> u32 \<Rightarrow> ufs_disk_dirent" where
  "new_dirent name target type = zero_dirent\<lparr>de_used := 1, de_inode_number := of_nat target,
     de_type := type, de_name := name_field name\<rparr>"

section \<open>Functions\<close>

definition directory_find :: "nat \<Rightarrow> string \<Rightarrow> nat op" where
  "directory_find dir_inode_num name =
     on_ok (read_inode dir_inode_num) (\<lambda>directory.
     require (ino_type directory = UFS_TYPE_DIR) ENOTDIR (
     on_ok (find_each [0..<unat (ino_block_count directory)] (\<lambda>logical.
       on_ok (attempt (get_inode_data_block directory logical)
               (\<lambda>physical. require (physical \<noteq> UFS_INVALID_BLOCK) EIO (ret physical)) (fail EIO)) (\<lambda>physical.
       on_ok (ufs_read_block (unat physical)) (\<lambda>buf.
       ret (case first_from (\<lambda>slot. entry_named name (dirents buf ! slot)) 0 dirents_per_block of
              None \<Rightarrow> None | Some slot \<Rightarrow> Some (unat (de_inode_number (dirents buf ! slot))))))))
     (\<lambda>found. case found of Some n \<Rightarrow> ret n | None \<Rightarrow> fail ENOENT)))"

text \<open>The block of a directory in the loops that pass \<open>errno\<close> on unchanged.\<close>

definition directory_block :: "ufs_inode \<Rightarrow> nat \<Rightarrow> (u32 \<times> bytes) op" where
  "directory_block directory logical =
     on_ok (get_inode_data_block directory logical) (\<lambda>physical.
     if physical = UFS_INVALID_BLOCK then fail_same
     else on_ok (ufs_read_block (unat physical)) (\<lambda>buf. ret (physical, buf)))"

definition directory_add :: "nat \<Rightarrow> string \<Rightarrow> nat \<Rightarrow> u32 \<Rightarrow> unit op" where
  "directory_add dir_inode_num name target_inode_num type =
     require (\<not> (name = [] \<or> UFS_MAX_NAME < length name \<or>
       (type \<noteq> UFS_TYPE_FILE \<and> type \<noteq> UFS_TYPE_DIR \<and> type \<noteq> UFS_TYPE_SYMLINK))) EINVAL (
     on_ok (read_inode dir_inode_num) (\<lambda>directory.
     require (ino_type directory = UFS_TYPE_DIR) ENOTDIR (
     attempt (directory_find dir_inode_num name) (\<lambda>_. fail EEXIST)
     (asking errno (\<lambda>e. if e \<noteq> ENOENT then fail_same else
     on_ok (find_each [0..<unat (ino_block_count directory)] (\<lambda>logical.
       on_ok (directory_block directory logical) (\<lambda>(physical, buf).
       (case first_from (\<lambda>slot. de_used (dirents buf ! slot) = 0) 0 dirents_per_block of
          None \<Rightarrow> ret None
        | Some slot \<Rightarrow>
            on_ok (ufs_write_block (unat physical)
              (enc_dirents ((dirents buf)[slot := new_dirent name target_inode_num type]))) (\<lambda>_.
            ret (Some ()))))))
     (\<lambda>added. case added of Some _ \<Rightarrow> ret ()
      | None \<Rightarrow>
          require (unat (ino_block_count directory) < UFS_DIRECT_BLOCKS) ENOSPC (
          on_ok allocate_data_block (\<lambda>physical.
          attempt (ufs_write_block physical
              (enc_dirents (new_dirent name target_inode_num type # replicate (dirents_per_block - 1) zero_dirent)))
            (\<lambda>_. attempt (write_inode dir_inode_num
                (directory\<lparr>ino_direct := (ino_direct directory)[unat (ino_block_count directory) := of_nat physical],
                   ino_block_count := ino_block_count directory + 1,
                   ino_size := ucast (ino_block_count directory + 1) * of_nat UFS_BLOCK_SIZE\<rparr>))
              ret (discard (free_data_block physical) fail_same))
            (discard (free_data_block physical) fail_same)))))))))"

definition directory_remove :: "nat \<Rightarrow> string \<Rightarrow> unit op" where
  "directory_remove dir_inode_num name =
     on_ok (read_inode dir_inode_num) (\<lambda>directory.
     require (ino_type directory = UFS_TYPE_DIR) ENOTDIR (
     on_ok (find_each [0..<unat (ino_block_count directory)] (\<lambda>logical.
       on_ok (directory_block directory logical) (\<lambda>(physical, buf).
       (case first_from (\<lambda>slot. entry_named name (dirents buf ! slot)) 0 dirents_per_block of
          None \<Rightarrow> ret None
        | Some slot \<Rightarrow>
            on_ok (ufs_write_block (unat physical) (enc_dirents ((dirents buf)[slot := zero_dirent]))) (\<lambda>_.
            ret (Some ()))))))
     (\<lambda>removed. case removed of Some _ \<Rightarrow> ret () | None \<Rightarrow> fail ENOENT)))"

definition directory_is_empty :: "nat \<Rightarrow> bool op" where
  "directory_is_empty dir_inode_num =
     on_ok (read_inode dir_inode_num) (\<lambda>directory.
     require (ino_type directory = UFS_TYPE_DIR) ENOTDIR (
     on_ok (find_each [0..<unat (ino_block_count directory)] (\<lambda>logical.
       on_ok (directory_block directory logical) (\<lambda>(physical, buf).
       ret (if \<exists>d \<in> set (dirents buf). de_used d \<noteq> 0 then Some () else None))))
     (\<lambda>used. ret (used = None))))"

end
