(* ===== verification/Ufs_Handles.thy ===== *)
theory Ufs_Handles
  imports Ufs_Sync
begin

text \<open>
  The two tables of open objects: the 32 file descriptors of \<open>src/file_io.c\<close> and the 32 mappings of
  \<open>src/mmap_io.c\<close>, with the functions that only look at them or update one entry.
\<close>

abbreviation (input) UFS_O_RDONLY :: u32 where "UFS_O_RDONLY \<equiv> 1"
abbreviation (input) UFS_O_WRONLY :: u32 where "UFS_O_WRONLY \<equiv> 2"
abbreviation (input) UFS_O_RDWR :: u32 where "UFS_O_RDWR \<equiv> 3"
abbreviation (input) UFS_O_APPEND :: u32 where "UFS_O_APPEND \<equiv> 4"
abbreviation (input) UFS_MAX_MAPPINGS :: nat where "UFS_MAX_MAPPINGS \<equiv> 32"

section \<open>File descriptors\<close>

definition descriptor_table_reset :: "world \<Rightarrow> world" where
  "descriptor_table_reset w = w\<lparr>descriptor_table := replicate UFS_MAX_OPEN_FILES zero_descriptor\<rparr>"

definition inode_is_open :: "nat \<Rightarrow> world \<Rightarrow> bool" where
  "inode_is_open inode_number w \<longleftrightarrow>
     first_from (\<lambda>fd. fde_in_use (descriptor_table w ! fd) \<and>
       unat (fde_inode_number (descriptor_table w ! fd)) = inode_number) 0 UFS_MAX_OPEN_FILES \<noteq> None"

definition validate_open_flags :: "u32 \<Rightarrow> unit op" where
  "validate_open_flags flags =
     (let access_mode = flags AND UFS_O_RDWR; unknown_bits = flags AND NOT (UFS_O_RDWR OR UFS_O_APPEND) in
      require (\<not> (unknown_bits \<noteq> 0 \<or>
        (access_mode \<noteq> UFS_O_RDONLY \<and> access_mode \<noteq> UFS_O_WRONLY \<and> access_mode \<noteq> UFS_O_RDWR) \<or>
        (flags AND UFS_O_APPEND \<noteq> 0 \<and> access_mode = UFS_O_RDONLY))) EINVAL (ret ()))"

definition allocate_descriptor :: "nat op" where
  "allocate_descriptor = asking descriptor_table (\<lambda>table.
     case first_from (\<lambda>fd. \<not> fde_in_use (table ! fd)) 0 UFS_MAX_OPEN_FILES of
       Some fd \<Rightarrow> ret fd | None \<Rightarrow> fail EMFILE)"

text \<open>The checked descriptor as an index of the table.\<close>

definition validate_descriptor :: "int \<Rightarrow> nat op" where
  "validate_descriptor fd = asking descriptor_table (\<lambda>table.
     require (\<not> (fd < 0 \<or> int UFS_MAX_OPEN_FILES \<le> fd \<or> \<not> fde_in_use (table ! nat fd))) EBADF (ret (nat fd)))"

definition descriptor_can_read :: "file_io_descriptor \<Rightarrow> bool" where
  "descriptor_can_read d \<longleftrightarrow> fde_flags d AND UFS_O_RDWR \<noteq> UFS_O_WRONLY"

definition descriptor_can_write :: "file_io_descriptor \<Rightarrow> bool" where
  "descriptor_can_write d \<longleftrightarrow> fde_flags d AND UFS_O_RDWR \<noteq> UFS_O_RDONLY"

definition descriptor :: "nat \<Rightarrow> world \<Rightarrow> file_io_descriptor" where
  "descriptor fd w = descriptor_table w ! fd"

definition set_descriptor :: "nat \<Rightarrow> file_io_descriptor \<Rightarrow> world \<Rightarrow> world" where
  "set_descriptor fd d w = w\<lparr>descriptor_table := (descriptor_table w)[fd := d]\<rparr>"

definition set_offset :: "nat \<Rightarrow> u64 \<Rightarrow> world \<Rightarrow> world" where
  "set_offset fd p w = set_descriptor fd ((descriptor fd w)\<lparr>fde_offset := p\<rparr>) w"

definition require_mounted :: "unit op" where
  "require_mounted = asking ufs_mounted (\<lambda>m. require m ENODEV (ret ()))"

definition file_io_get_fd_info :: "int \<Rightarrow> (u32 \<times> u32 \<times> u32) op" where
  "file_io_get_fd_info fd =
     on_ok require_mounted (\<lambda>_.
     on_ok (validate_descriptor fd) (\<lambda>k.
     asking (descriptor k) (\<lambda>d. ret (fde_inode_number d, fde_inode_generation d, fde_flags d))))"

section \<open>Mappings\<close>

definition lock_mappings :: "unit op" where
  "lock_mappings = plain_call"

definition unlock_mappings :: "unit op" where
  "unlock_mappings = discard pthread_call (ret ())"

definition find_mapping :: "nat \<Rightarrow> nat op" where
  "find_mapping address = asking mapping_table (\<lambda>table.
     case first_from (\<lambda>k. map_in_use (table ! k) \<and> map_address (table ! k) = address) 0 UFS_MAX_MAPPINGS of
       Some k \<Rightarrow> ret k | None \<Rightarrow> fail EINVAL)"

definition ufs_mmap_has_active :: "bool op" where
  "ufs_mmap_has_active = attempt lock_mappings
     (\<lambda>_. asking mapping_table (\<lambda>table.
        discard unlock_mappings
          (ret (first_from (\<lambda>k. map_in_use (table ! k)) 0 UFS_MAX_MAPPINGS \<noteq> None))))
     (ret True)"

definition ufs_mmap_inode_is_mapped :: "nat \<Rightarrow> bool op" where
  "ufs_mmap_inode_is_mapped inode_number = attempt lock_mappings
     (\<lambda>_. asking mapping_table (\<lambda>table.
        discard unlock_mappings
          (ret (first_from (\<lambda>k. map_in_use (table ! k) \<and>
             unat (map_inode_number (table ! k)) = inode_number) 0 UFS_MAX_MAPPINGS \<noteq> None))))
     (ret True)"

section \<open>Faultless runs\<close>

lemma lock_mappings_calm [io_simps]: "script w = [] \<Longrightarrow> lock_mappings w = (Some (), w)"
  by (simp add: lock_mappings_def io_simps)

lemma unlock_mappings_calm [io_simps]: "script w = [] \<Longrightarrow> unlock_mappings w = (Some (), w)"
  by (simp add: unlock_mappings_def discard_def io_simps ret_def)

lemma ufs_mmap_has_active_calm [io_simps]:
  "script w = [] \<Longrightarrow> ufs_mmap_has_active w = (Some (\<exists>k < UFS_MAX_MAPPINGS. map_in_use (mapping_table w ! k)), w)"
  by (simp add: ufs_mmap_has_active_def run_simps io_simps asking_def ret_def first_from_None)

lemma ufs_mmap_inode_is_mapped_calm [io_simps]:
  "script w = [] \<Longrightarrow> ufs_mmap_inode_is_mapped n w = (Some (\<exists>k < UFS_MAX_MAPPINGS. map_in_use (mapping_table w ! k) \<and>
     unat (map_inode_number (mapping_table w ! k)) = n), w)"
  by (simp add: ufs_mmap_inode_is_mapped_def run_simps io_simps asking_def ret_def first_from_None)

end
