(* ===== verification/Ufs_Resolve.thy ===== *)
theory Ufs_Resolve
  imports Ufs_Directory Ufs_Handles
begin

text \<open>
  Path resolution of \<open>src/namespace.c\<close>: \<open>read_symlink_target\<close>, \<open>resolve_absolute\<close> with its limit on
  symbolic links (39 are followed, the 40th gives ELOOP), \<open>resolve_path_ex\<close> and \<open>resolve_parent\<close>. In \<open>resolve_from\<close>, one turn of the loop of
  \<open>resolve_absolute\<close>, \<open>rest\<close> is \<open>path + position\<close>; the recursive call behind a symbolic link starts
  again at the root with the expanded path and the depth increased.
\<close>

abbreviation (input) UFS_RESOLVE_FOLLOW_FINAL :: u32 where "UFS_RESOLVE_FOLLOW_FINAL \<equiv> 1"
abbreviation (input) UFS_RESOLVE_NOFOLLOW_FINAL :: u32 where "UFS_RESOLVE_NOFOLLOW_FINAL \<equiv> 2"
abbreviation (input) UFS_MAX_SYMLINK_DEPTH :: nat where "UFS_MAX_SYMLINK_DEPTH \<equiv> 40"

section \<open>Functions\<close>

definition read_symlink_target :: "ufs_inode \<Rightarrow> bytes op" where
  "read_symlink_target inode =
     (if ino_type inode \<noteq> UFS_TYPE_SYMLINK \<or> ino_size inode = 0 \<or> UFS_MAX_PATH < unat (ino_size inode) \<or>
         ino_block_count inode = 0
      then fail EIO
      else attempt (get_inode_data_block inode 0) (\<lambda>physical.
        require (physical \<noteq> UFS_INVALID_BLOCK) EIO (
        on_ok (ufs_read_block (unat physical)) (\<lambda>block. ret (take (unat (ino_size inode)) block))))
        (fail EIO))"

text \<open>The path that replaces the one being resolved: \<open>snprintf\<close> into a buffer of 513 bytes.\<close>

definition expand_symlink :: "string \<Rightarrow> string \<Rightarrow> string \<Rightarrow> string" where
  "expand_symlink parent_path target remainder =
     (if target \<noteq> [] \<and> target ! 0 = slash then target @ remainder
      else if parent_path = [slash] then [slash] @ target @ remainder
      else parent_path @ [slash] @ target @ remainder)"

definition push_component :: "string \<Rightarrow> string \<Rightarrow> string" where
  "push_component parent_path component =
     (if 1 < length parent_path then parent_path @ [slash] else parent_path) @ component"

definition follow_symlink :: "ufs_inode \<Rightarrow> string \<Rightarrow> string \<Rightarrow> string op" where
  "follow_symlink inode parent_path remainder =
     on_ok (read_symlink_target inode) (\<lambda>target.
     let combined = expand_symlink parent_path (c_string target) remainder in
     require (\<not> UFS_MAX_PATH * 2 + 3 \<le> length combined) ENAMETOOLONG (
     normalize_absolute_path combined))"

function resolve_from :: "u32 \<Rightarrow> nat \<Rightarrow> string \<Rightarrow> nat \<Rightarrow> string \<Rightarrow> nat op" where
  "resolve_from flags depth rest current parent_path w =
     (if rest = [] then (Some current, w)
      else case read_inode current w of (None, w) \<Rightarrow> (None, w) | (Some current_inode, w) \<Rightarrow>
      (case ufs_check_access_inode current_inode X_OK w of (None, w) \<Rightarrow> (None, w) | (Some _, w) \<Rightarrow>
      (let component = takeWhile (\<lambda>c. c \<noteq> slash) rest; remainder = dropWhile (\<lambda>c. c \<noteq> slash) rest in
       if component = [] \<or> UFS_MAX_NAME < length component then fail ENAMETOOLONG w
       else case directory_find current component w of (None, w) \<Rightarrow> (None, w) | (Some next_inode, w) \<Rightarrow>
       (case read_inode next_inode w of (None, w) \<Rightarrow> (None, w) | (Some inode, w) \<Rightarrow>
         if ino_type inode = UFS_TYPE_SYMLINK \<and>
            \<not> (remainder = [] \<and> flags AND UFS_RESOLVE_NOFOLLOW_FINAL \<noteq> 0)
         then case follow_symlink inode parent_path remainder w of (None, w) \<Rightarrow> (None, w) | (Some path, w) \<Rightarrow>
           if UFS_MAX_SYMLINK_DEPTH \<le> depth + 1 then fail ELOOP w
           else if path = [slash] then (Some UFS_ROOT_INODE, w)
           else resolve_from flags (depth + 1) (drop 1 path) UFS_ROOT_INODE [slash] w
         else if remainder \<noteq> [] \<and> ino_type inode \<noteq> UFS_TYPE_DIR then fail ENOTDIR w
         else if remainder = [] then (Some next_inode, w)
         else if UFS_MAX_PATH < length parent_path + (if 1 < length parent_path then 1 else 0) + length component
         then fail ENAMETOOLONG w
         else resolve_from flags depth (drop 1 remainder) next_inode (push_component parent_path component) w))))"
  by pat_completeness auto

lemma rest_progress:
  assumes "rest \<noteq> []" and "takeWhile (\<lambda>c. c \<noteq> slash) rest \<noteq> []"
  shows "length (drop 1 (dropWhile (\<lambda>c. c \<noteq> slash) rest)) < length rest"
proof -
  have "length (takeWhile (\<lambda>c. c \<noteq> slash) rest) + length (dropWhile (\<lambda>c. c \<noteq> slash) rest) = length rest"
    by (metis length_append takeWhile_dropWhile_id)
  moreover have "0 < length (takeWhile (\<lambda>c. c \<noteq> slash) rest)" using assms(2) by simp
  ultimately show ?thesis using assms(1) by (simp only: length_drop)
qed

termination resolve_from
proof (relation "measures [\<lambda>(flags, depth, rest, current, parent_path, w). UFS_MAX_SYMLINK_DEPTH - depth,
    \<lambda>(flags, depth, rest, current, parent_path, w). length rest]", goal_cases)
  case 1
  then show ?case by simp
next
  case 2
  then show ?case by simp arith
next
  case 3
  then show ?case using rest_progress by (simp only: in_measures case_prod_conv) simp
qed

declare resolve_from.simps [simp del]

text \<open>One turn of the loop with the combinators.\<close>

lemma resolve_from_turn:
  "resolve_from flags depth rest current parent_path =
     (if rest = [] then ret current
      else on_ok (read_inode current) (\<lambda>current_inode.
      on_ok (ufs_check_access_inode current_inode X_OK) (\<lambda>_.
      let component = takeWhile (\<lambda>c. c \<noteq> slash) rest; remainder = dropWhile (\<lambda>c. c \<noteq> slash) rest in
      if component = [] \<or> UFS_MAX_NAME < length component then fail ENAMETOOLONG
      else on_ok (directory_find current component) (\<lambda>next_inode.
        on_ok (read_inode next_inode) (\<lambda>inode.
        if ino_type inode = UFS_TYPE_SYMLINK \<and> \<not> (remainder = [] \<and> flags AND UFS_RESOLVE_NOFOLLOW_FINAL \<noteq> 0)
        then on_ok (follow_symlink inode parent_path remainder) (\<lambda>path.
          if UFS_MAX_SYMLINK_DEPTH \<le> depth + 1 then fail ELOOP
          else if path = [slash] then ret UFS_ROOT_INODE
          else resolve_from flags (depth + 1) (drop 1 path) UFS_ROOT_INODE [slash])
        else if remainder \<noteq> [] \<and> ino_type inode \<noteq> UFS_TYPE_DIR then fail ENOTDIR
        else if remainder = [] then ret next_inode
        else if UFS_MAX_PATH < length parent_path + (if 1 < length parent_path then 1 else 0) + length component
        then fail ENAMETOOLONG
        else resolve_from flags depth (drop 1 remainder) next_inode (push_component parent_path component))))))"
  by (rule ext, subst resolve_from.simps)
    (simp add: on_ok_def ret_def Let_def if_distrib [of "\<lambda>f. f w" for w] cong: option.case_cong if_cong prod.case_cong)

definition resolve_absolute :: "string \<Rightarrow> u32 \<Rightarrow> nat \<Rightarrow> nat op" where
  "resolve_absolute path flags depth =
     (if UFS_MAX_SYMLINK_DEPTH \<le> depth then fail ELOOP
      else if path = [slash] then ret UFS_ROOT_INODE
      else resolve_from flags depth (drop 1 path) UFS_ROOT_INODE [slash])"

definition resolve_path_ex :: "string \<Rightarrow> u32 \<Rightarrow> nat op" where
  "resolve_path_ex path flags =
     require (\<not> (flags \<noteq> 0 \<and> flags \<noteq> UFS_RESOLVE_FOLLOW_FINAL \<and> flags \<noteq> UFS_RESOLVE_NOFOLLOW_FINAL)) EINVAL (
     on_ok require_mounted (\<lambda>_.
     on_ok (validate_path path) (\<lambda>_.
     resolve_absolute path flags 0)))"

definition resolve_path :: "string \<Rightarrow> nat op" where
  "resolve_path path = resolve_path_ex path UFS_RESOLVE_FOLLOW_FINAL"

text \<open>\<open>strrchr\<close>: what follows the last slash, and what precedes it.\<close>

definition final_name :: "string \<Rightarrow> string" where
  "final_name path = rev (takeWhile (\<lambda>c. c \<noteq> slash) (rev path))"

definition parent_of :: "string \<Rightarrow> string" where
  "parent_of path = (let n = length path - length (final_name path) - 1 in
     if n = 0 then [slash] else take n path)"

definition resolve_parent :: "string \<Rightarrow> (nat \<times> string) op" where
  "resolve_parent path =
     on_ok require_mounted (\<lambda>_.
     on_ok (validate_path path) (\<lambda>_.
     require (path \<noteq> [slash]) EINVAL (
     on_ok (resolve_path (parent_of path)) (\<lambda>parent. ret (parent, final_name path)))))"

end
