(* ===== verification/Ufs_Namespace.thy ===== *)
theory Ufs_Namespace
  imports Ufs_Resolve
begin

text \<open>
  The namespace operations of \<open>src/namespace.c\<close>: \<open>create_node\<close> behind mkdir and create, rmdir, unlink,
  listdir, stat, lstat, link, symlink and readlink, each with its cleanup paths, and the wrappers
  that take the operation lock. A \<open>(void)\<close> cleanup between saving and restoring \<open>errno\<close> is
  \<open>fail_after\<close>.
\<close>

section \<open>Common steps\<close>

text \<open>Resolve the parent, read it and require write and search permission.\<close>

definition writable_parent :: "string \<Rightarrow> (nat \<times> string) op" where
  "writable_parent path =
     on_ok (resolve_parent path) (\<lambda>(parent, name).
     on_ok (read_inode parent) (\<lambda>parent_inode.
     on_ok (ufs_check_access_inode parent_inode (W_OK OR X_OK)) (\<lambda>_. ret (parent, name))))"

definition if_name_free :: "nat \<Rightarrow> string \<Rightarrow> 'a op \<Rightarrow> 'a op" where
  "if_name_free parent name k =
     attempt (directory_find parent name) (\<lambda>_. fail EEXIST)
       (asking errno (\<lambda>e. if e \<noteq> ENOENT then fail_same else k))"

definition touch_parent :: "nat \<Rightarrow> unit op" where
  "touch_parent parent =
     on_ok (read_inode parent) (\<lambda>parent_inode.
     on_ok (ufs_touch_mtime_ctime parent_inode) (\<lambda>parent_inode.
     write_inode parent parent_inode))"

text \<open>The inode in a freshly allocated slot, with the generation the allocator gave it.\<close>

definition prepare_inode :: "nat \<Rightarrow> u32 \<Rightarrow> u32 \<Rightarrow> ufs_inode op" where
  "prepare_inode inode_num type mode =
     on_ok (read_inode inode_num) (\<lambda>inode.
     ufs_initialize_metadata ((ufs_init_inode type)\<lparr>ino_generation := ino_generation inode\<rparr>) type mode)"

section \<open>Operations\<close>

definition create_node :: "string \<Rightarrow> u32 \<Rightarrow> unit op" where
  "create_node path type =
     on_ok (writable_parent path) (\<lambda>(parent, name).
     if_name_free parent name (
     on_ok allocate_inode (\<lambda>inode_num.
     attempt
       (on_ok (prepare_inode inode_num type 0) (\<lambda>inode.
        on_ok (write_inode inode_num inode) (\<lambda>_.
        directory_add parent name inode_num type)))
       (\<lambda>_. touch_parent parent)
       (fail_after (free_inode inode_num)))))"

definition ufs_mkdir_unlocked :: "string \<Rightarrow> unit op" where
  "ufs_mkdir_unlocked path = create_node path UFS_TYPE_DIR"

definition ufs_create_unlocked :: "string \<Rightarrow> unit op" where
  "ufs_create_unlocked path = create_node path UFS_TYPE_FILE"

definition ufs_rmdir_unlocked :: "string \<Rightarrow> unit op" where
  "ufs_rmdir_unlocked path =
     require (path \<noteq> [slash]) EBUSY (
     on_ok (writable_parent path) (\<lambda>(parent, name).
     on_ok (directory_find parent name) (\<lambda>target_num.
     on_ok (read_inode target_num) (\<lambda>target.
     require (ino_type target = UFS_TYPE_DIR) ENOTDIR (
     on_ok (directory_is_empty target_num) (\<lambda>empty.
     require empty ENOTEMPTY (
     on_ok (directory_remove parent name) (\<lambda>_.
     attempt (free_inode target_num)
       (\<lambda>_. touch_parent parent)
       (fail_after (directory_add parent name target_num UFS_TYPE_DIR))))))))))"

definition ufs_unlink_unlocked :: "string \<Rightarrow> unit op" where
  "ufs_unlink_unlocked path =
     require (path \<noteq> [slash]) EISDIR (
     on_ok (writable_parent path) (\<lambda>(parent, name).
     on_ok (directory_find parent name) (\<lambda>target_num.
     on_ok (read_inode target_num) (\<lambda>target.
     require (ino_type target \<noteq> UFS_TYPE_DIR) EISDIR (
     require (ino_type target = UFS_TYPE_FILE \<or> ino_type target = UFS_TYPE_SYMLINK) EINVAL (
     asking (inode_is_open target_num) (\<lambda>open.
     on_ok (if open then ret True else ufs_mmap_inode_is_mapped target_num) (\<lambda>busy.
     require (\<not> busy) EBUSY (
     on_ok (directory_remove parent name) (\<lambda>_.
     let restore = directory_add parent name target_num (ino_type target) in
     if ino_link_count target = 0 then discard restore (fail EIO)
     else
       on_ok (ufs_touch_ctime (target\<lparr>ino_link_count := ino_link_count target - 1\<rparr>)) (\<lambda>target.
       attempt (if ino_link_count target = 0 then free_inode target_num else write_inode target_num target)
         (\<lambda>_. touch_parent parent)
         (fail_after restore))))))))))))"

type_synonym ufs_dirent = "string \<times> u32 \<times> u64"

fun list_slots :: "nat \<Rightarrow> ufs_disk_dirent list \<Rightarrow> ufs_dirent list \<Rightarrow> ufs_dirent list op" where
  "list_slots max_entries [] entries = ret entries"
| "list_slots max_entries (d # ds) entries =
     (if \<not> length entries < max_entries then ret entries
      else if de_used d \<noteq> 0 then
        on_ok (read_inode (unat (de_inode_number d))) (\<lambda>item.
        list_slots max_entries ds (entries @ [(c_string (de_name d), ino_type item, ino_size item)]))
      else list_slots max_entries ds entries)"

definition ufs_listdir_unlocked :: "string \<Rightarrow> nat \<Rightarrow> ufs_dirent list op" where
  "ufs_listdir_unlocked path max_entries =
     on_ok (resolve_path path) (\<lambda>directory_num.
     on_ok (read_inode directory_num) (\<lambda>directory.
     on_ok (ufs_check_access_inode directory (R_OK OR X_OK)) (\<lambda>_.
     require (ino_type directory = UFS_TYPE_DIR) ENOTDIR (
     for_each [0..<unat (ino_block_count directory)] (\<lambda>logical entries.
       if \<not> length entries < max_entries then ret entries
       else on_ok (directory_block directory logical) (\<lambda>(physical, buf).
         list_slots max_entries (dirents buf) entries)) []))))"

definition ufs_stat_unlocked :: "string \<Rightarrow> ufs_stat op" where
  "ufs_stat_unlocked path =
     on_ok (resolve_path path) (\<lambda>inode_num.
     on_ok (read_inode inode_num) (\<lambda>inode. ret (ufs_fill_stat_from_inode inode)))"

definition ufs_lstat_unlocked :: "string \<Rightarrow> ufs_stat op" where
  "ufs_lstat_unlocked path =
     on_ok (resolve_path_ex path UFS_RESOLVE_NOFOLLOW_FINAL) (\<lambda>inode_num.
     on_ok (read_inode inode_num) (\<lambda>inode. ret (ufs_fill_stat_from_inode inode)))"

definition ufs_link_unlocked :: "string \<Rightarrow> string \<Rightarrow> unit op" where
  "ufs_link_unlocked existing_path new_path =
     on_ok (resolve_path_ex existing_path UFS_RESOLVE_NOFOLLOW_FINAL) (\<lambda>inode_num.
     on_ok (read_inode inode_num) (\<lambda>inode.
     require (ino_type inode \<noteq> UFS_TYPE_DIR) EPERM (
     require (ino_type inode = UFS_TYPE_FILE \<or> ino_type inode = UFS_TYPE_SYMLINK) EINVAL (
     require (ino_link_count inode \<noteq> - 1) EMLINK (
     on_ok (writable_parent new_path) (\<lambda>(parent, name).
     if_name_free parent name (
     on_ok (directory_add parent name inode_num (ino_type inode)) (\<lambda>_.
     on_ok (ufs_touch_ctime (inode\<lparr>ino_link_count := ino_link_count inode + 1\<rparr>)) (\<lambda>inode.
     attempt (write_inode inode_num inode)
       (\<lambda>_. touch_parent parent)
       (fail_after (directory_remove parent name)))))))))))"

definition ufs_symlink_unlocked :: "string \<Rightarrow> string \<Rightarrow> unit op" where
  "ufs_symlink_unlocked target link_path =
     require (target \<noteq> []) ENOENT (
     require (length target \<le> UFS_MAX_PATH) ENAMETOOLONG (
     on_ok (writable_parent link_path) (\<lambda>(parent, name).
     if_name_free parent name (
     on_ok allocate_inode (\<lambda>inode_num.
     attempt
       (on_ok (prepare_inode inode_num UFS_TYPE_SYMLINK 0x1FF) (\<lambda>inode.
        on_ok allocate_data_block (\<lambda>physical. ret (inode, physical))))
       (\<lambda>(inode, physical).
          let inode = (set_direct 0 (of_nat physical) inode)\<lparr>ino_block_count := 1, ino_size := of_nat (length target)\<rparr>;
              block = map byte_of_char target @ replicate (UFS_BLOCK_SIZE - length target) 0 in
          attempt (ufs_write_block physical block)
            (\<lambda>_. attempt
               (on_ok (write_inode inode_num inode) (\<lambda>_. directory_add parent name inode_num UFS_TYPE_SYMLINK))
               (\<lambda>_. touch_parent parent)
               (fail_after (free_inode inode_num)))
            (fail_after (discard (free_data_block physical) (free_inode inode_num))))
       (fail_after (free_inode inode_num)))))))"

text \<open>An error of \<open>ufs_should_update_atime\<close> is -1, which counts as true here.\<close>

definition ufs_readlink_unlocked :: "string \<Rightarrow> nat \<Rightarrow> bytes op" where
  "ufs_readlink_unlocked path bufsize =
     require (bufsize \<noteq> 0) EINVAL (
     on_ok (resolve_path_ex path UFS_RESOLVE_NOFOLLOW_FINAL) (\<lambda>inode_num.
     on_ok (read_inode inode_num) (\<lambda>inode.
     require (ino_type inode = UFS_TYPE_SYMLINK) EINVAL (
     on_ok (read_symlink_target inode) (\<lambda>target.
     let copied = (if unat (ino_size inode) < bufsize then unat (ino_size inode) else bufsize) in
     on_ok (attempt (ufs_should_update_atime inode) ret (ret True)) (\<lambda>update.
     if update then
       on_ok (ufs_touch_atime inode) (\<lambda>inode.
       on_ok (write_inode inode_num inode) (\<lambda>_. ret (take copied target)))
     else ret (take copied target)))))))"

section \<open>Public operations\<close>

definition ufs_mkdir :: "string \<Rightarrow> unit op" where
  "ufs_mkdir path = with_lock ufs_operation_write_lock (ufs_mkdir_unlocked path)"

definition ufs_create :: "string \<Rightarrow> unit op" where
  "ufs_create path = with_lock ufs_operation_write_lock (ufs_create_unlocked path)"

definition ufs_rmdir :: "string \<Rightarrow> unit op" where
  "ufs_rmdir path = with_lock ufs_operation_write_lock (ufs_rmdir_unlocked path)"

definition ufs_unlink :: "string \<Rightarrow> unit op" where
  "ufs_unlink path = with_lock ufs_operation_write_lock (ufs_unlink_unlocked path)"

definition ufs_listdir :: "string \<Rightarrow> nat \<Rightarrow> ufs_dirent list op" where
  "ufs_listdir path max_entries = with_lock ufs_operation_read_lock (ufs_listdir_unlocked path max_entries)"

definition ufs_stat_op :: "string \<Rightarrow> ufs_stat op" where
  "ufs_stat_op path = with_lock ufs_operation_read_lock (ufs_stat_unlocked path)"

definition ufs_lstat :: "string \<Rightarrow> ufs_stat op" where
  "ufs_lstat path = with_lock ufs_operation_read_lock (ufs_lstat_unlocked path)"

definition ufs_link :: "string \<Rightarrow> string \<Rightarrow> unit op" where
  "ufs_link existing_path new_path = with_lock ufs_operation_write_lock (ufs_link_unlocked existing_path new_path)"

definition ufs_symlink :: "string \<Rightarrow> string \<Rightarrow> unit op" where
  "ufs_symlink target link_path = with_lock ufs_operation_write_lock (ufs_symlink_unlocked target link_path)"

definition ufs_readlink :: "string \<Rightarrow> nat \<Rightarrow> bytes op" where
  "ufs_readlink path bufsize = with_lock ufs_operation_read_lock (ufs_readlink_unlocked path bufsize)"

end
