(* ===== verification/Ufs_Crash.thy ===== *)
theory Ufs_Crash
  imports Ufs_Image
begin

text \<open>
  The crash model of the block layer. The kernel may write the blocks back in any order between two
  \<open>fsync\<close> calls, so a crash leaves the bytes of the last \<open>fsync\<close> overwritten by some subsequence of
  the writes since; a write of one 512-byte sector is atomic. Points of time inside an operation
  are its runs in which a later system call fails: after the failing call the sources issue no
  further write on the paths considered here, so a theorem about every script of faults is a
  theorem about every point at which the machine can stop. \<open>sector_script\<close> excludes transfers of a
  part of a sector.
\<close>

section \<open>Crash images\<close>

lemma subseq_set: "subseq ys xs \<Longrightarrow> set ys \<subseteq> set xs"
  by (induction rule: list_emb.induct) auto

lemma subseq_keeps_distinct: "subseq ys xs \<Longrightarrow> distinct xs \<Longrightarrow> distinct ys"
  by (induction rule: list_emb.induct) (auto dest: subseq_set)

lemma subseq_of_map: "subseq ws (map f xs) \<Longrightarrow> \<exists>ys. subseq ys xs \<and> ws = map f ys"
  by (auto simp: subseq_conv_nths nths_map)

definition apply_writes :: "(nat \<times> bytes) list \<Rightarrow> (nat \<Rightarrow> u8) \<Rightarrow> (nat \<Rightarrow> u8)" where
  "apply_writes ws f = fold (\<lambda>(off, d). write_bytes off d) ws f"

definition crash_image :: "world \<Rightarrow> (nat \<Rightarrow> u8) \<Rightarrow> bool" where
  "crash_image w f \<longleftrightarrow> (\<exists>ws. subseq ws (unsynced w) \<and> f = apply_writes ws (stable w))"

definition coherent :: "world \<Rightarrow> bool" where
  "coherent w \<longleftrightarrow> img w = apply_writes (unsynced w) (stable w)"

text \<open>The process that finds the image after the crash: nothing pending, no faults.\<close>

definition reboot :: "(nat \<Rightarrow> u8) \<Rightarrow> world \<Rightarrow> world" where
  "reboot f w = w\<lparr>img := f, stable := f, unsynced := [], script := [], ufs_mounted := False,
     journal_seq := 1\<rparr>"

lemma apply_writes_Nil [simp]: "apply_writes [] f = f"
  by (simp add: apply_writes_def)

lemma apply_writes_append [simp]:
  "apply_writes (xs @ ys) f = apply_writes ys (apply_writes xs f)"
  by (simp add: apply_writes_def)

lemma apply_writes_Cons [simp]:
  "apply_writes ((off, d) # ws) f = apply_writes ws (write_bytes off d f)"
  by (simp add: apply_writes_def)

lemma crash_image_current: "coherent w \<Longrightarrow> crash_image w (img w)"
  by (auto simp: crash_image_def coherent_def)

lemma crash_image_synced [simp]:
  "unsynced w = [] \<Longrightarrow> crash_image w f \<longleftrightarrow> f = stable w"
  by (auto simp: crash_image_def dest: list_emb_Nil2)

lemma apply_writes_outside:
  "(\<And>off d. (off, d) \<in> set ws \<Longrightarrow> a < off \<or> off + length d \<le> a) \<Longrightarrow> apply_writes ws f a = f a"
  by (induction ws arbitrary: f) (auto simp: write_bytes_outside)

section \<open>Block writes and crashes\<close>

definition put_img :: "nat \<Rightarrow> bytes \<Rightarrow> (nat \<Rightarrow> u8) \<Rightarrow> (nat \<Rightarrow> u8)" where
  "put_img b buf f = write_bytes (b * UFS_BLOCK_SIZE) buf f"

definition sectors :: "(nat \<times> bytes) list \<Rightarrow> (nat \<times> bytes) list" where
  "sectors xs = map (\<lambda>(b, buf). (b * UFS_BLOCK_SIZE, buf)) xs"

interpretation img_cells: cell_store blk_of put_img "\<lambda>b buf. length buf = 512"
  by unfold_locales (simp add: put_img_def blk_of_write_bytes)

lemma apply_sectors: "apply_writes (sectors xs) f = put_all put_img xs f"
  by (induction xs arbitrary: f) (auto simp: sectors_def put_img_def)

lemma unsynced_put_all:
  "\<forall>(i, v) \<in> set xs. length v = 512 \<Longrightarrow>
   unsynced (put_all put_blk xs w) = unsynced w @ sectors xs"
  by (induction xs arbitrary: w) (auto simp: sectors_def)

lemma img_put_all: "img (put_all put_blk xs w) = put_all put_img xs (img w)"
  by (induction xs arbitrary: w) (auto simp: put_blk_def put_img_def)

lemma stable_put_all [simp]: "stable (put_all put_blk xs w) = stable w"
  by (induction xs arbitrary: w) auto

lemma subseq_sectors: "subseq ws (sectors xs) \<Longrightarrow> \<exists>ys. subseq ys xs \<and> ws = sectors ys"
  unfolding sectors_def by (rule subseq_of_map)

text \<open>A crash in the middle of a batch of block writes.\<close>

lemma crash_image_batch:
  assumes "\<forall>(i, v) \<in> set xs. length v = 512" and "crash_image (put_all put_blk xs w) f"
  obtains old ys where "crash_image w old" and "subseq ys xs" and "f = put_all put_img ys old"
proof -
  from assms obtain ws where ws: "subseq ws (unsynced w @ sectors xs)"
    and f: "f = apply_writes ws (stable w)"
    by (auto simp: crash_image_def unsynced_put_all)
  from ws obtain us vs where split: "ws = us @ vs" "subseq us (unsynced w)" "subseq vs (sectors xs)"
    using subseq_appendE by blast
  from split(3) obtain ys where "subseq ys xs" "vs = sectors ys"
    using subseq_sectors by blast
  moreover have "crash_image w (apply_writes us (stable w))"
    using split(2) unfolding crash_image_def by blast
  ultimately show ?thesis
    using that split(1) f by (simp add: apply_sectors)
qed

lemma subseq_fits:
  "subseq ys xs \<Longrightarrow> \<forall>(i, v) \<in> set xs. length v = 512 \<Longrightarrow> \<forall>(i, v) \<in> set ys. length v = (512::nat)"
  using subseq_set [of ys xs] by auto

lemma distinct_fst_subseq: "subseq ys xs \<Longrightarrow> distinct (map fst xs) \<Longrightarrow> distinct (map fst ys)"
  by (rule subseq_keeps_distinct [OF subseq_map])

text \<open>With distinct targets every block holds its old or its new contents after the crash.\<close>

lemma blk_of_partial:
  assumes "\<forall>(i, v) \<in> set xs. length v = 512" and "distinct (map fst xs)" and "subseq ys xs"
  shows "blk_of (put_all put_img ys old) b = blk_of old b \<or>
    (\<exists>v. map_of xs b = Some v \<and> blk_of (put_all put_img ys old) b = v)"
proof (cases "map_of ys b")
  case None
  then show ?thesis
    using img_cells.get_put_all_distinct [OF subseq_fits [OF assms(3,1)] distinct_fst_subseq [OF assms(3,2)]]
    by simp
next
  case (Some v)
  then have "(b, v) \<in> set xs"
    using subseq_set [OF assms(3)] map_of_SomeD [of ys b v] by auto
  then have "map_of xs b = Some v"
    using assms(2) by (simp add: map_of_eq_Some_iff)
  then show ?thesis
    using Some img_cells.get_put_all_distinct [OF subseq_fits [OF assms(3,1)] distinct_fst_subseq [OF assms(3,2)]]
    by simp
qed

lemma blk_of_partial_outside:
  assumes "\<forall>(i, v) \<in> set xs. length v = 512" and "subseq ys xs" and "b \<notin> fst ` set xs"
  shows "blk_of (put_all put_img ys old) b = blk_of old b"
proof (rule img_cells.get_put_all_untouched)
  show "\<forall>(i, v) \<in> set ys. length v = 512" using assms(2,1) by (rule subseq_fits)
  show "b \<notin> fst ` set ys" using assms(3) subseq_set [OF assms(2)] by auto
qed

section \<open>Runs with injected faults\<close>

definition sector_script :: "world \<Rightarrow> bool" where
  "sector_script w \<longleftrightarrow> (\<forall>r \<in> set (script w). case r of Xfer n \<Rightarrow> UFS_BLOCK_SIZE \<le> n | Fault e \<Rightarrow> True)"

definition steady :: "world \<Rightarrow> bool" where
  "steady w \<longleftrightarrow> sector_script w \<and> 0 \<le> ufs_fd w \<and> img_len w = UFS_IMAGE_SIZE"

text \<open>Equal up to \<open>errno\<close> and the rest of the script.\<close>

definition same_disk :: "world \<Rightarrow> world \<Rightarrow> bool" where
  "same_disk w v \<longleftrightarrow> img w = img v \<and> stable w = stable v \<and> unsynced w = unsynced v \<and>
     img_len w = img_len v \<and> ufs_fd w = ufs_fd v"

definition synced :: "world \<Rightarrow> world" where
  "synced w = w\<lparr>stable := img w, unsynced := []\<rparr>"

lemma same_disk_refl [simp]: "same_disk w w"
  by (simp add: same_disk_def)

lemma same_disk_trans: "same_disk u v \<Longrightarrow> same_disk v w \<Longrightarrow> same_disk u w"
  by (simp add: same_disk_def)

lemma same_disk_script [simp]:
  "same_disk (w\<lparr>script := s, errno := e\<rparr>) v = same_disk w v"
  "same_disk (w\<lparr>script := s\<rparr>) v = same_disk w v" "same_disk (w\<lparr>errno := e\<rparr>) v = same_disk w v"
  by (simp_all add: same_disk_def)

lemma same_disk_put_blk: "same_disk w v \<Longrightarrow> same_disk (put_blk b buf w) (put_blk b buf v)"
  by (auto simp: same_disk_def put_blk_def store_bytes_def)

lemma same_disk_put_all: "same_disk w v \<Longrightarrow> same_disk (put_all put_blk xs w) (put_all put_blk xs v)"
  by (induction xs arbitrary: w v) (auto simp: same_disk_put_blk)

lemma same_disk_synced: "same_disk w v \<Longrightarrow> same_disk (synced w) (synced v)"
  by (simp add: same_disk_def synced_def)

lemma same_disk_blk: "same_disk w v \<Longrightarrow> blk w = blk v"
  unfolding same_disk_def by (intro ext) (simp add: blk_def)

lemma same_disk_crash: "same_disk w v \<Longrightarrow> crash_image w = crash_image v"
  unfolding same_disk_def by (intro ext) (simp add: crash_image_def)

lemma synced_views [simp]:
  "blk (synced w) = blk w" "stable (synced w) = img w" "unsynced (synced w) = []"
  "img (synced w) = img w" "coherent (synced w)" "script (synced w) = script w"
  "ufs_fd (synced w) = ufs_fd w" "img_len (synced w) = img_len w" "calm (synced w) = calm w"
  by (simp_all add: synced_def coherent_def)

lemma sync_calm [io_simps]: "calm w \<Longrightarrow> ufs_sync_image w = (Some (), synced w)"
  by (simp add: ufs_sync_image_calm synced_def)

lemma coherent_put_blk: "length buf = 512 \<Longrightarrow> coherent w \<Longrightarrow> coherent (put_blk b buf w)"
  by (simp add: coherent_def) (simp add: put_blk_def)

text \<open>One sector write either happens as a whole or not at all.\<close>

lemma write_exact_sector:
  assumes "sector_script w" and "length buf = 512"
  shows "\<exists>s e. set s \<subseteq> set (script w) \<and>
    (write_exact buf off 0 w = (Some (), (store_bytes off buf w)\<lparr>script := s, errno := e\<rparr>) \<or>
     write_exact buf off 0 w = (None, w\<lparr>script := s, errno := e\<rparr>))"
  using assms
proof (induction "length (script w)" arbitrary: w rule: less_induct)
  case less
  have finished: "write_exact buf off 512 v = (Some (), v)" for v
    using less.prems(2) by (subst write_exact.simps) simp
  have unfold: "write_exact buf off 0 w = (case pwrite buf off w of
      (None, w1) \<Rightarrow> if errno w1 = EINTR then write_exact buf off 0 w1 else (None, w1)
    | (Some amount, w1) \<Rightarrow> if amount = 0 then fail EIO w1 else write_exact buf off (0 + amount) w1)"
    using less.prems(2) by (subst write_exact.simps) simp
  show ?case
  proof (cases "script w")
    case Nil
    then have "write_exact buf off 0 w = (Some (), store_bytes off buf w)"
      using less.prems(2) by (intro write_exact_calm) auto
    with Nil have "write_exact buf off 0 w = (Some (), (store_bytes off buf w)\<lparr>script := [], errno := errno w\<rparr>)"
      by (simp add: store_bytes_def)
    then show ?thesis by (metis empty_set empty_subsetI)
  next
    case (Cons r rs)
    have sub: "set rs \<subseteq> set (script w)" using Cons by auto
    show ?thesis
    proof (cases r)
      case (Xfer n)
      with Cons less.prems have "512 \<le> n" by (simp add: sector_script_def)
      then have "pwrite buf off w = (Some 512, store_bytes off buf (w\<lparr>script := rs\<rparr>))"
        using Cons Xfer less.prems(2)
        by (simp add: pwrite_def syscall_def limited_def Let_def modify_def ret_def)
      then have "write_exact buf off 0 w =
          (Some (), (store_bytes off buf w)\<lparr>script := rs, errno := errno w\<rparr>)"
        using finished by (simp add: unfold store_bytes_def)
      with sub show ?thesis by blast
    next
      case (Fault e)
      have p: "pwrite buf off w = (None, w\<lparr>script := rs, errno := e\<rparr>)"
        using Cons Fault by (simp add: pwrite_def syscall_def)
      show ?thesis
      proof (cases "e = EINTR")
        case True
        let ?w1 = "w\<lparr>script := rs, errno := e\<rparr>"
        have "length (script ?w1) < length (script w)" using Cons by simp
        moreover have "sector_script ?w1" using less.prems(1) Cons by (simp add: sector_script_def)
        ultimately have "\<exists>s e. set s \<subseteq> set (script ?w1) \<and>
            (write_exact buf off 0 ?w1 = (Some (), (store_bytes off buf ?w1)\<lparr>script := s, errno := e\<rparr>) \<or>
             write_exact buf off 0 ?w1 = (None, ?w1\<lparr>script := s, errno := e\<rparr>))"
          using less.hyps less.prems(2) by blast
        moreover have "write_exact buf off 0 w = write_exact buf off 0 ?w1"
          using p True by (simp add: unfold)
        ultimately show ?thesis
          using sub by (auto simp: store_bytes_script_errno)
      next
        case False
        with p have "write_exact buf off 0 w = (None, w\<lparr>script := rs, errno := e\<rparr>)"
          by (simp add: unfold)
        with sub show ?thesis by blast
      qed
    qed
  qed
qed

lemma steady_script: "set s \<subseteq> set (script w) \<Longrightarrow> steady w \<Longrightarrow> steady (w\<lparr>script := s, errno := e\<rparr>)"
  by (auto simp: steady_def sector_script_def)

lemma steady_put_blk:
  "b < UFS_TOTAL_BLOCKS \<Longrightarrow> length buf = 512 \<Longrightarrow> steady w \<Longrightarrow> steady (put_blk b buf w)"
  by (auto simp: steady_def sector_script_def put_blk_def store_bytes_def)

lemma write_block_outcome:
  assumes "steady w" and "b < UFS_TOTAL_BLOCKS" and "length buf = 512"
    and "ufs_write_block b buf w = (r, w1)"
  shows "steady w1 \<and> (if r = None then same_disk w1 w else same_disk w1 (put_blk b buf w))"
proof -
  have run: "ufs_write_block b buf w = write_exact buf (b * 512) 0 w"
    using assms by (simp add: ufs_write_block_def asking_def steady_def)
  from assms have "sector_script w" by (simp add: steady_def)
  then obtain s e where s: "set s \<subseteq> set (script w)" and
    d: "write_exact buf (b * 512) 0 w = (Some (), (put_blk b buf w)\<lparr>script := s, errno := e\<rparr>) \<or>
        write_exact buf (b * 512) 0 w = (None, w\<lparr>script := s, errno := e\<rparr>)"
    using write_exact_sector [of w buf "b * 512"] assms(3) by (auto simp: put_blk_def)
  from s assms have "steady (w\<lparr>script := s, errno := e\<rparr>)"
    and "steady ((put_blk b buf w)\<lparr>script := s, errno := e\<rparr>)"
    by (auto intro!: steady_script steady_put_blk)
  with d assms(4) show ?thesis by (auto simp: run)
qed

text \<open>A read moves no data to the disk; if it succeeds it returns the block.\<close>

lemma read_exact_sector:
  assumes "sector_script w" and "off + 512 \<le> img_len w"
  shows "\<exists>s e. set s \<subseteq> set (script w) \<and>
    (read_exact 512 off [] w = (Some (map (img w) [off..<off + 512]), w\<lparr>script := s, errno := e\<rparr>) \<or>
     read_exact 512 off [] w = (None, w\<lparr>script := s, errno := e\<rparr>))"
  using assms
proof (induction "length (script w)" arbitrary: w rule: less_induct)
  case less
  have finished: "read_exact 512 off (map (img w) [off..<off + 512]) v =
      (Some (map (img w) [off..<off + 512]), v)" for v
    by (subst read_exact.simps) simp
  have unfold: "read_exact 512 off [] w = (case pread 512 off w of
      (None, w1) \<Rightarrow> if errno w1 = EINTR then read_exact 512 off [] w1 else (None, w1)
    | (Some amount, w1) \<Rightarrow> if amount = [] then fail EIO w1 else read_exact 512 off ([] @ amount) w1)"
    by (subst read_exact.simps) simp
  show ?case
  proof (cases "script w")
    case Nil
    with less.prems have "read_exact 512 off [] w =
        (Some (map (img w) [off..<off + 512]), w\<lparr>script := [], errno := errno w\<rparr>)"
      by (simp add: read_exact_calm)
    then show ?thesis by (metis empty_set empty_subsetI)
  next
    case (Cons r rs)
    have sub: "set rs \<subseteq> set (script w)" using Cons by auto
    show ?thesis
    proof (cases r)
      case (Xfer n)
      with Cons less.prems have "512 \<le> n" by (simp add: sector_script_def)
      then have "pread 512 off w = (Some (map (img w) [off..<off + 512]), w\<lparr>script := rs\<rparr>)"
        using Cons Xfer less.prems(2)
        by (simp add: pread_def syscall_def limited_def asking_def ret_def file_bytes_def)
      then have "read_exact 512 off [] w =
          (Some (map (img w) [off..<off + 512]), w\<lparr>script := rs, errno := errno w\<rparr>)"
        using finished by (simp add: unfold)
      with sub show ?thesis by blast
    next
      case (Fault e)
      have p: "pread 512 off w = (None, w\<lparr>script := rs, errno := e\<rparr>)"
        using Cons Fault by (simp add: pread_def syscall_def)
      show ?thesis
      proof (cases "e = EINTR")
        case True
        let ?w1 = "w\<lparr>script := rs, errno := e\<rparr>"
        have "length (script ?w1) < length (script w)" using Cons by simp
        moreover have "sector_script ?w1" using less.prems(1) Cons by (simp add: sector_script_def)
        moreover have "off + 512 \<le> img_len ?w1" using less.prems(2) by simp
        ultimately obtain s e where "set s \<subseteq> set rs" and
            "read_exact 512 off [] ?w1 = (Some (map (img ?w1) [off..<off + 512]), ?w1\<lparr>script := s, errno := e\<rparr>) \<or>
             read_exact 512 off [] ?w1 = (None, ?w1\<lparr>script := s, errno := e\<rparr>)"
          using less.hyps [of ?w1] by auto
        moreover have "read_exact 512 off [] w = read_exact 512 off [] ?w1"
          using p True by (simp add: unfold)
        ultimately show ?thesis using sub by auto
      next
        case False
        with p have "read_exact 512 off [] w = (None, w\<lparr>script := rs, errno := e\<rparr>)"
          by (simp add: unfold)
        with sub show ?thesis by blast
      qed
    qed
  qed
qed

lemma read_block_outcome:
  assumes "steady w" and "b < UFS_TOTAL_BLOCKS" and "ufs_read_block b w = (r, w1)"
  shows "steady w1 \<and> same_disk w1 w \<and> (r = None \<or> r = Some (blk w b))"
proof -
  have run: "ufs_read_block b w = read_exact 512 (b * 512) [] w"
    using assms by (simp add: ufs_read_block_def asking_def steady_def)
  have "sector_script w" "b * 512 + 512 \<le> img_len w"
    using assms(1,2) by (simp_all add: steady_def)
  then obtain s e where s: "set s \<subseteq> set (script w)" and
    d: "read_exact 512 (b * 512) [] w = (Some (blk w b), w\<lparr>script := s, errno := e\<rparr>) \<or>
        read_exact 512 (b * 512) [] w = (None, w\<lparr>script := s, errno := e\<rparr>)"
    using read_exact_sector [of w "b * 512"] by (auto simp: blk_def blk_of_def)
  from s assms(1) have "steady (w\<lparr>script := s, errno := e\<rparr>)" by (rule steady_script)
  with d assms(3) show ?thesis by (auto simp: run)
qed

lemma sync_outcome:
  assumes "steady w" and "ufs_sync_image w = (r, w1)"
  shows "steady w1 \<and> (if r = None then same_disk w1 w else same_disk w1 (synced w))"
  using assms
  by (auto simp: ufs_sync_image_def asking_def steady_def fsync_image_def syscall_def modify_def
      ret_def synced_def same_disk_def sector_script_def split: list.splits sysres.splits)

text \<open>A batch of block writes and the \<open>fsync\<close> after it.\<close>

fun write_list :: "(nat \<times> bytes) list \<Rightarrow> unit op" where
  "write_list [] = ret ()"
| "write_list ((b, buf) # xs) = on_ok (ufs_write_block b buf) (\<lambda>_. write_list xs)"

definition batch :: "(nat \<times> bytes) list \<Rightarrow> unit op" where
  "batch xs = on_ok (write_list xs) (\<lambda>_. ufs_sync_image)"

lemma for_each_write_list:
  "for_each is (\<lambda>i _. ufs_write_block (t i) (f i)) () = write_list (map (\<lambda>i. (t i, f i)) is)"
  by (induction "is") (simp_all add: ret_def fun_eq_iff on_ok_def split: prod.splits option.splits)

lemma write_list_append:
  "write_list (xs @ ys) = on_ok (write_list xs) (\<lambda>_. write_list ys)"
  by (induction xs rule: write_list.induct)
    (simp_all add: fun_eq_iff on_ok_def ret_def split: prod.splits option.splits)

lemma write_list_calm:
  "calm w \<Longrightarrow> \<forall>(i, v) \<in> set xs. i < UFS_TOTAL_BLOCKS \<and> length v = 512 \<Longrightarrow>
   write_list xs w = (Some (), put_all put_blk xs w)"
  by (induction xs arbitrary: w rule: write_list.induct) (auto simp: ret_def io_simps run_simps)

lemma write_list_outcome:
  "steady w \<Longrightarrow> \<forall>(i, v) \<in> set xs. i < UFS_TOTAL_BLOCKS \<and> length v = 512 \<Longrightarrow>
   write_list xs w = (r, w1) \<Longrightarrow>
   steady w1 \<and> (if r = None then \<exists>k. same_disk w1 (put_all put_blk (take k xs) w)
                else same_disk w1 (put_all put_blk xs w))"
proof (induction xs arbitrary: w rule: write_list.induct)
  case 1
  then show ?case by (simp add: ret_def)
next
  case (2 b buf xs)
  obtain r2 w2 where run: "ufs_write_block b buf w = (r2, w2)" by fastforce
  have out: "steady w2 \<and> (if r2 = None then same_disk w2 w else same_disk w2 (put_blk b buf w))"
    using "2.prems" by (intro write_block_outcome [OF _ _ _ run]) auto
  show ?case
  proof (cases r2)
    case None
    with run "2.prems"(3) have "r = None" "w1 = w2" by (simp_all add: on_ok_def)
    moreover have "same_disk w2 (put_all put_blk (take 0 ((b, buf) # xs)) w)"
      using out None by simp
    ultimately show ?thesis using out by (metis (mono_tags))
  next
    case (Some u)
    with run "2.prems"(3) have rest: "write_list xs w2 = (r, w1)" by (simp add: on_ok_def)
    have sd: "same_disk w2 (put_blk b buf w)" using out Some by simp
    have IH: "steady w1 \<and> (if r = None then \<exists>k. same_disk w1 (put_all put_blk (take k xs) w2)
        else same_disk w1 (put_all put_blk xs w2))"
      using "2.IH" [OF _ _ rest] out "2.prems"(2) by (cases u) auto
    show ?thesis
    proof (cases r)
      case None
      with IH obtain k where "same_disk w1 (put_all put_blk (take k xs) w2)" by auto
      then have "same_disk w1 (put_all put_blk (take (Suc k) ((b, buf) # xs)) w)"
        using sd by (auto intro: same_disk_trans same_disk_put_all)
      with None IH show ?thesis by (metis (mono_tags))
    next
      case (Some v)
      with IH sd show ?thesis by (auto intro: same_disk_trans same_disk_put_all)
    qed
  qed
qed

lemma batch_outcome:
  assumes "steady w" and "\<forall>(i, v) \<in> set xs. i < UFS_TOTAL_BLOCKS \<and> length v = 512"
    and "batch xs w = (r, w1)"
  shows "steady w1 \<and> (if r = None then \<exists>k. same_disk w1 (put_all put_blk (take k xs) w)
                else same_disk w1 (synced (put_all put_blk xs w)))"
proof -
  obtain r2 w2 where run: "write_list xs w = (r2, w2)" by fastforce
  note out = write_list_outcome [OF assms(1,2) run]
  show ?thesis
  proof (cases r2)
    case None
    with run assms(3) out show ?thesis by (simp add: batch_def on_ok_def)
  next
    case (Some u)
    then have sd: "same_disk w2 (put_all put_blk xs w)" using out by simp
    have sy: "ufs_sync_image w2 = (r, w1)" using Some run assms(3) by (simp add: batch_def on_ok_def)
    from sync_outcome [OF _ sy] out
    have s: "steady w1 \<and> (if r = None then same_disk w1 w2 else same_disk w1 (synced w2))" by simp
    show ?thesis
    proof (cases r)
      case None
      with s sd have "same_disk w1 (put_all put_blk (take (length xs) xs) w)"
        by (auto intro: same_disk_trans)
      with None s show ?thesis by (metis (mono_tags))
    next
      case (Some v)
      with s sd show ?thesis by (auto intro: same_disk_trans same_disk_synced)
    qed
  qed
qed

text \<open>Several batches one after the other, as a commit issues them.\<close>

fun batches :: "(nat \<times> bytes) list list \<Rightarrow> unit op" where
  "batches [] = ret ()"
| "batches (xs # xss) = on_ok (batch xs) (\<lambda>_. batches xss)"

definition run_batches :: "(nat \<times> bytes) list list \<Rightarrow> world \<Rightarrow> world" where
  "run_batches xss w = fold (\<lambda>xs w. synced (put_all put_blk xs w)) xss w"

lemma run_batches_simps [simp]:
  "run_batches [] w = w" "run_batches (xs # xss) w = run_batches xss (synced (put_all put_blk xs w))"
  by (simp_all add: run_batches_def)

lemma same_disk_run_batches: "same_disk w v \<Longrightarrow> same_disk (run_batches xss w) (run_batches xss v)"
  by (induction xss arbitrary: w v) (auto intro: same_disk_synced same_disk_put_all)

text \<open>A run that fails stops inside one batch, with all batches before it on disk.\<close>

definition stopped_in :: "(nat \<times> bytes) list list \<Rightarrow> world \<Rightarrow> world \<Rightarrow> bool" where
  "stopped_in xss w w1 \<longleftrightarrow> (\<exists>pre xs post k. xss = pre @ xs # post \<and>
     same_disk w1 (put_all put_blk (take k xs) (run_batches pre w)))"

lemma stopped_in_Cons:
  "stopped_in (xs # xss) w w1 \<longleftrightarrow>
     (\<exists>k. same_disk w1 (put_all put_blk (take k xs) w)) \<or>
     stopped_in xss (synced (put_all put_blk xs w)) w1"
proof
  assume "stopped_in (xs # xss) w w1"
  then obtain pre ys post k where p: "xs # xss = pre @ ys # post"
    "same_disk w1 (put_all put_blk (take k ys) (run_batches pre w))"
    unfolding stopped_in_def by blast
  show "(\<exists>k. same_disk w1 (put_all put_blk (take k xs) w)) \<or> stopped_in xss (synced (put_all put_blk xs w)) w1"
    using p by (cases pre) (auto simp: stopped_in_def)
next
  assume "(\<exists>k. same_disk w1 (put_all put_blk (take k xs) w)) \<or> stopped_in xss (synced (put_all put_blk xs w)) w1"
  then show "stopped_in (xs # xss) w w1"
  proof
    assume "\<exists>k. same_disk w1 (put_all put_blk (take k xs) w)"
    then have "\<exists>k. same_disk w1 (put_all put_blk (take k xs) (run_batches [] w))" by simp
    then show ?thesis unfolding stopped_in_def by blast
  next
    assume "stopped_in xss (synced (put_all put_blk xs w)) w1"
    then obtain pre ys post k where "xss = pre @ ys # post"
      "same_disk w1 (put_all put_blk (take k ys) (run_batches pre (synced (put_all put_blk xs w))))"
      unfolding stopped_in_def by blast
    then have "xs # xss = (xs # pre) @ ys # post"
      "same_disk w1 (put_all put_blk (take k ys) (run_batches (xs # pre) w))" by simp_all
    then show ?thesis unfolding stopped_in_def by blast
  qed
qed

lemma stopped_in_Nil [simp]: "\<not> stopped_in [] w w1"
  by (simp add: stopped_in_def)

lemma stopped_in_same: "same_disk w v \<Longrightarrow> stopped_in xss w w1 \<Longrightarrow> stopped_in xss v w1"
  unfolding stopped_in_def
  using same_disk_trans [OF _ same_disk_put_all [OF same_disk_run_batches [of w v]]] by blast

lemma batches_outcome:
  "steady w \<Longrightarrow> \<forall>xs \<in> set xss. \<forall>(i, v) \<in> set xs. i < UFS_TOTAL_BLOCKS \<and> length v = 512 \<Longrightarrow>
   batches xss w = (r, w1) \<Longrightarrow>
   steady w1 \<and> (if r = None then stopped_in xss w w1 else same_disk w1 (run_batches xss w))"
proof (induction xss arbitrary: w)
  case Nil
  then show ?case by (simp add: ret_def)
next
  case (Cons xs xss)
  obtain r2 w2 where run: "batch xs w = (r2, w2)" by fastforce
  have out: "steady w2 \<and> (if r2 = None then \<exists>k. same_disk w2 (put_all put_blk (take k xs) w)
      else same_disk w2 (synced (put_all put_blk xs w)))"
    using Cons.prems by (intro batch_outcome [OF _ _ run]) auto
  show ?case
  proof (cases r2)
    case None
    with run Cons.prems(3) have "r = None" "w1 = w2" by (simp_all add: run_simps)
    with out None show ?thesis by (simp add: stopped_in_Cons)
  next
    case (Some u)
    have "batches xss w2 = (r, w1)" using run Some Cons.prems(3) by (simp add: run_simps)
    from Cons.IH [OF _ _ this] out Cons.prems(2)
    have "steady w1 \<and> (if r = None then stopped_in xss w2 w1 else same_disk w1 (run_batches xss w2))"
      by simp
    moreover have "same_disk w2 (synced (put_all put_blk xs w))" using out Some by simp
    ultimately show ?thesis
      by (cases r) (auto simp: stopped_in_Cons intro: stopped_in_same same_disk_trans same_disk_run_batches)
  qed
qed

text \<open>Crash images of a batch that starts on a synced disk.\<close>

lemma crash_image_partial:
  assumes "unsynced v = []" and "stable v = img v" and "\<forall>(i, v) \<in> set xs. length v = 512"
    and "same_disk w1 (put_all put_blk (take k xs) v)" and "crash_image w1 f"
  obtains ys where "subseq ys xs" and "f = put_all put_img ys (img v)"
proof -
  have fits: "\<forall>(i, v) \<in> set (take k xs). length v = 512"
    using assms(3) by (meson in_set_takeD)
  have "crash_image (put_all put_blk (take k xs) v) f"
    using assms(4,5) same_disk_crash by metis
  with fits obtain old ys where o: "crash_image v old" "subseq ys (take k xs)" "f = put_all put_img ys old"
    by (rule crash_image_batch)
  moreover have "subseq (take k xs) xs" by (simp add: prefix_imp_subseq take_is_prefix)
  ultimately show ?thesis
    using that assms(1,2) by (metis crash_image_synced subseq_order.trans)
qed

end
