(* ===== verification/Ufs_Journal.thy ===== *)
theory Ufs_Journal
  imports Ufs_Crash Ufs_Inode
begin

text \<open>
  The redo journal of \<open>src/journal.c\<close>: transactions of at most 124 block images, the five steps of
  \<open>ufs_tx_commit\<close> and the recovery at mount time, and what staging does to the blocks a
  transaction holds (\<open>staged\<close>).
\<close>

section \<open>Transactions\<close>

record ufs_transaction =
  tx_seq :: u32
  tx_num_blocks :: nat
  tx_target_blocks :: "nat list"
  tx_buffers :: "bytes list"

definition zero_tx :: ufs_transaction where
  "zero_tx = \<lparr>tx_seq = 0, tx_num_blocks = 0, tx_target_blocks = replicate UFS_MAX_TX_BLOCKS 0,
     tx_buffers = replicate UFS_MAX_TX_BLOCKS (replicate UFS_BLOCK_SIZE 0)\<rparr>"

definition calculate_checksum :: "bytes \<Rightarrow> u32" where
  "calculate_checksum bs = foldl (\<lambda>sum b. sum + ucast b) 0 bs"

definition ufs_tx_begin :: "ufs_transaction op" where
  "ufs_tx_begin = asking journal_seq (\<lambda>seq.
     modify (\<lambda>w. w\<lparr>journal_seq := seq + 1\<rparr>) (ret (zero_tx\<lparr>tx_seq := seq, tx_num_blocks := 0\<rparr>)))"

definition bad_target :: "nat \<Rightarrow> bool" where
  "bad_target t \<longleftrightarrow> UFS_TOTAL_BLOCKS \<le> t \<or>
     (UFS_JOURNAL_START_BLK \<le> t \<and> t < UFS_JOURNAL_START_BLK + UFS_JOURNAL_BLOCKS)"

definition tx_find :: "ufs_transaction \<Rightarrow> nat \<Rightarrow> nat option" where
  "tx_find tx target = first_from (\<lambda>i. tx_target_blocks tx ! i = target) 0 (tx_num_blocks tx)"

text \<open>The staging functions change the transaction only when they succeed; they return it.\<close>

definition ufs_tx_stage_block :: "ufs_transaction \<Rightarrow> nat \<Rightarrow> bytes \<Rightarrow> ufs_transaction op" where
  "ufs_tx_stage_block tx target_block after_image =
     require (\<not> bad_target target_block) EINVAL (
     case tx_find tx target_block of
       Some i \<Rightarrow> ret (tx\<lparr>tx_buffers := (tx_buffers tx)[i := after_image]\<rparr>)
     | None \<Rightarrow>
         require (tx_num_blocks tx < UFS_MAX_TX_BLOCKS) ENOSPC (
         ret (tx\<lparr>tx_target_blocks := (tx_target_blocks tx)[tx_num_blocks tx := target_block],
                 tx_buffers := (tx_buffers tx)[tx_num_blocks tx := after_image],
                 tx_num_blocks := tx_num_blocks tx + 1\<rparr>)))"

definition ufs_tx_stage_inode :: "ufs_transaction \<Rightarrow> nat \<Rightarrow> ufs_inode \<Rightarrow> ufs_transaction op" where
  "ufs_tx_stage_inode tx inode_number inode =
     require (inode_number < UFS_MAX_INODES) EINVAL (
     let inodes_per_block = UFS_BLOCK_SIZE div UFS_INODE_SIZE;
         block_number = UFS_INODE_TABLE_START_BLK + inode_number div inodes_per_block;
         offset = (inode_number mod inodes_per_block) * UFS_INODE_SIZE in
     case tx_find tx block_number of
       Some i \<Rightarrow> ufs_tx_stage_block tx block_number
                   (overlay offset (enc_inode inode) (tx_buffers tx ! i))
     | None \<Rightarrow> on_ok (ufs_read_block block_number) (\<lambda>block.
         ufs_tx_stage_block tx block_number (overlay offset (enc_inode inode) block)))"

definition ufs_tx_abort :: "ufs_transaction \<Rightarrow> ufs_transaction" where
  "ufs_tx_abort tx = zero_tx"

definition tx_header :: "ufs_transaction \<Rightarrow> ufs_journal_header" where
  "tx_header tx =
     \<lparr>jh_magic = UFS_JOURNAL_MAGIC, jh_seq = tx_seq tx, jh_num_blocks = of_nat (tx_num_blocks tx),
      jh_checksum = foldl (\<lambda>sum i. sum + calculate_checksum (tx_buffers tx ! i)) 0 [0..<tx_num_blocks tx],
      jh_target_blocks = map (\<lambda>i. of_nat (tx_target_blocks tx ! i)) [0..<tx_num_blocks tx] @
        replicate (UFS_MAX_TX_BLOCKS - tx_num_blocks tx) 0\<rparr>"

definition tx_commit_record :: "ufs_transaction \<Rightarrow> ufs_journal_commit" where
  "tx_commit_record tx = zero_commit\<lparr>jc_magic := UFS_JOURNAL_COMMIT_MAGIC, jc_seq := tx_seq tx\<rparr>"

definition clear_journal :: "unit op" where
  "clear_journal =
     on_ok (ufs_write_block UFS_JOURNAL_START_BLK (enc_header zero_header)) (\<lambda>_.
     on_ok (ufs_write_block UFS_JOURNAL_COMMIT_BLK (enc_commit zero_commit)) (\<lambda>_.
     ufs_sync_image))"

definition ufs_tx_commit :: "ufs_transaction \<Rightarrow> unit op" where
  "ufs_tx_commit tx =
     (if tx_num_blocks tx = 0 then ret ()
      else
        on_ok (ufs_write_block UFS_JOURNAL_START_BLK (enc_header (tx_header tx))) (\<lambda>_.
        on_ok (for_each [0..<tx_num_blocks tx] (\<lambda>i _.
                 ufs_write_block (UFS_JOURNAL_START_BLK + 1 + i) (tx_buffers tx ! i)) ()) (\<lambda>_.
        on_ok ufs_sync_image (\<lambda>_.
        on_ok (ufs_write_block UFS_JOURNAL_COMMIT_BLK (enc_commit (tx_commit_record tx))) (\<lambda>_.
        on_ok ufs_sync_image (\<lambda>_.
        on_ok (for_each [0..<tx_num_blocks tx] (\<lambda>i _.
                 ufs_write_block (tx_target_blocks tx ! i) (tx_buffers tx ! i)) ()) (\<lambda>_.
        on_ok ufs_sync_image (\<lambda>_.
        clear_journal))))))))"

section \<open>Recovery\<close>

text \<open>The checksum loop: \<open>None\<close> is the \<open>goto clear_journal\<close> on a bad target.\<close>

fun verify_payload :: "ufs_journal_header \<Rightarrow> nat list \<Rightarrow> u32 \<Rightarrow> u32 option op" where
  "verify_payload header [] acc = ret (Some acc)"
| "verify_payload header (i # is) acc =
     (if bad_target (unat (jh_target_blocks header ! i)) then ret None
      else on_ok (ufs_read_block (UFS_JOURNAL_START_BLK + 1 + i)) (\<lambda>buffer.
        verify_payload header is (acc + calculate_checksum buffer)))"

definition ufs_journal_recover :: "unit op" where
  "ufs_journal_recover =
     on_ok (ufs_read_block UFS_JOURNAL_START_BLK) (\<lambda>header_block.
     let header = dec_header header_block; n = unat (jh_num_blocks header) in
     if jh_magic header \<noteq> UFS_JOURNAL_MAGIC then ret ()
     else if n = 0 \<or> UFS_MAX_TX_BLOCKS < n then clear_journal
     else
       on_ok (ufs_read_block UFS_JOURNAL_COMMIT_BLK) (\<lambda>commit_block.
       let commit = dec_commit commit_block in
       if jc_magic commit \<noteq> UFS_JOURNAL_COMMIT_MAGIC \<or> jc_seq commit \<noteq> jh_seq header
       then clear_journal
       else
         on_ok (verify_payload header [0..<n] 0) (\<lambda>verified.
         if verified \<noteq> Some (jh_checksum header) then clear_journal
         else
           on_ok (for_each [0..<n] (\<lambda>i _.
             on_ok (ufs_read_block (UFS_JOURNAL_START_BLK + 1 + i)) (\<lambda>buffer.
             ufs_write_block (unat (jh_target_blocks header ! i)) buffer)) ()) (\<lambda>_.
           on_ok ufs_sync_image (\<lambda>_.
           clear_journal)))))"

section \<open>Staged blocks\<close>

definition staged :: "ufs_transaction \<Rightarrow> (nat \<times> bytes) list" where
  "staged tx = map (\<lambda>i. (tx_target_blocks tx ! i, tx_buffers tx ! i)) [0..<tx_num_blocks tx]"

definition tx_wf :: "ufs_transaction \<Rightarrow> bool" where
  "tx_wf tx \<longleftrightarrow> tx_num_blocks tx \<le> UFS_MAX_TX_BLOCKS \<and>
     length (tx_target_blocks tx) = UFS_MAX_TX_BLOCKS \<and> length (tx_buffers tx) = UFS_MAX_TX_BLOCKS \<and>
     (\<forall>b \<in> set (tx_buffers tx). length b = UFS_BLOCK_SIZE) \<and>
     (\<forall>t \<in> set (map fst (staged tx)). \<not> bad_target t) \<and> distinct (map fst (staged tx))"

lemma length_staged [simp]: "length (staged tx) = tx_num_blocks tx"
  by (simp add: staged_def)

lemma nth_staged:
  "i < tx_num_blocks tx \<Longrightarrow> staged tx ! i = (tx_target_blocks tx ! i, tx_buffers tx ! i)"
  by (simp add: staged_def)

lemma tx_find_None: "tx_find tx t = None \<longleftrightarrow> t \<notin> set (map fst (staged tx))"
  by (auto simp: tx_find_def first_from_None staged_def)

lemma tx_find_SomeD:
  "tx_find tx t = Some i \<Longrightarrow> i < tx_num_blocks tx \<and> tx_target_blocks tx ! i = t"
  by (simp add: tx_find_def first_from_Some)

lemma map_of_list_update:
  "i < length xs \<Longrightarrow> fst (xs ! i) = k \<Longrightarrow> distinct (map fst xs) \<Longrightarrow>
   map_of (xs[i := (k, v)]) = (map_of xs)(k \<mapsto> v)"
proof (induction xs arbitrary: i)
  case Nil
  then show ?case by simp
next
  case (Cons x xs)
  show ?case
  proof (cases i)
    case 0
    with Cons.prems show ?thesis by (cases x) (auto simp: fun_eq_iff)
  next
    case (Suc j)
    with Cons.prems have "map_of (xs[j := (k, v)]) = (map_of xs)(k \<mapsto> v)"
      by (intro Cons.IH) simp_all
    moreover have "fst x \<noteq> k" using Cons.prems Suc by auto
    ultimately show ?thesis using Suc by (cases x) (auto simp: fun_eq_iff)
  qed
qed

lemma staged_replace:
  assumes "tx_wf tx" and "i < tx_num_blocks tx"
  shows "staged (tx\<lparr>tx_buffers := (tx_buffers tx)[i := v]\<rparr>) =
    (staged tx)[i := (tx_target_blocks tx ! i, v)]"
  using assms by (intro nth_equalityI) (auto simp: staged_def tx_wf_def nth_list_update)

definition tx_push :: "ufs_transaction \<Rightarrow> nat \<Rightarrow> bytes \<Rightarrow> ufs_transaction" where
  "tx_push tx t v = tx\<lparr>tx_target_blocks := (tx_target_blocks tx)[tx_num_blocks tx := t],
     tx_buffers := (tx_buffers tx)[tx_num_blocks tx := v], tx_num_blocks := tx_num_blocks tx + 1\<rparr>"

lemma staged_push:
  assumes "tx_wf tx" and "tx_num_blocks tx < UFS_MAX_TX_BLOCKS"
  shows "staged (tx_push tx t v) = staged tx @ [(t, v)]"
  using assms by (simp add: staged_def tx_wf_def tx_push_def)

text \<open>What staging does, on every branch.\<close>

lemma stage_block_cases:
  "ufs_tx_stage_block tx t v w =
     (if bad_target t then fail EINVAL w
      else case tx_find tx t of
        Some i \<Rightarrow> (Some (tx\<lparr>tx_buffers := (tx_buffers tx)[i := v]\<rparr>), w)
      | None \<Rightarrow> if tx_num_blocks tx < UFS_MAX_TX_BLOCKS then (Some (tx_push tx t v), w)
          else fail ENOSPC w)"
  by (simp add: ufs_tx_stage_block_def require_def ret_def tx_push_def split: option.splits)

lemma tx_wf_replace:
  assumes "tx_wf tx" and "i < tx_num_blocks tx" and "length v = 512"
  shows "tx_wf (tx\<lparr>tx_buffers := (tx_buffers tx)[i := v]\<rparr>)"
proof -
  let ?tx = "tx\<lparr>tx_buffers := (tx_buffers tx)[i := v]\<rparr>"
  have "map fst (staged ?tx) = map fst (staged tx)"
    by (simp add: staged_def)
  moreover have "\<forall>b \<in> set ((tx_buffers tx)[i := v]). length b = 512"
    using assms(1,3) set_update_subset_insert [of "tx_buffers tx" i v] by (auto simp: tx_wf_def)
  ultimately show ?thesis using assms(1) by (simp add: tx_wf_def del: map_map)
qed

lemma tx_wf_push:
  assumes "tx_wf tx" and "tx_num_blocks tx < UFS_MAX_TX_BLOCKS" and "length v = 512"
    and "\<not> bad_target t" and "t \<notin> set (map fst (staged tx))"
  shows "tx_wf (tx_push tx t v)"
proof -
  have b: "\<forall>b \<in> set ((tx_buffers tx)[tx_num_blocks tx := v]). length b = 512"
    using assms(1,3) set_update_subset_insert [of "tx_buffers tx" "tx_num_blocks tx" v]
    by (auto simp: tx_wf_def)
  have s: "map fst (staged (tx_push tx t v)) = map fst (staged tx) @ [t]"
    by (simp add: staged_push [OF assms(1,2)])
  show ?thesis
    unfolding tx_wf_def s using assms b by (auto simp: tx_wf_def tx_push_def)
qed

lemma stage_block_staged:
  assumes "tx_wf tx" and "length v = 512" and "ufs_tx_stage_block tx t v w = (Some tx1, w1)"
  shows "tx_wf tx1 \<and> tx_seq tx1 = tx_seq tx \<and> w1 = w \<and>
    map_of (staged tx1) = (map_of (staged tx))(t \<mapsto> v)"
proof (cases "tx_find tx t")
  case None
  with assms have f: "tx1 = tx_push tx t v" "tx_num_blocks tx < UFS_MAX_TX_BLOCKS" "\<not> bad_target t" "w1 = w"
    by (auto simp: stage_block_cases fail_def split: if_splits)
  have new: "t \<notin> set (map fst (staged tx))" using None tx_find_None by blast
  then have "map_of (staged tx) t = None" by (simp add: map_of_eq_None_iff)
  then have "map_of (staged tx @ [(t, v)]) = (map_of (staged tx))(t \<mapsto> v)"
    by (auto simp: map_add_def fun_eq_iff split: option.splits)
  then show ?thesis
    using f tx_wf_push [OF assms(1) f(2) assms(2) f(3) new] staged_push [OF assms(1) f(2)]
    by (simp add: tx_push_def)
next
  case (Some i)
  with assms have f: "tx1 = tx\<lparr>tx_buffers := (tx_buffers tx)[i := v]\<rparr>" "w1 = w"
    by (auto simp: stage_block_cases fail_def split: if_splits)
  from Some have i: "i < tx_num_blocks tx" "tx_target_blocks tx ! i = t"
    using tx_find_SomeD by blast+
  have "map_of ((staged tx)[i := (t, v)]) = (map_of (staged tx))(t \<mapsto> v)"
    using i assms(1) by (intro map_of_list_update) (simp_all add: nth_staged tx_wf_def)
  then show ?thesis
    using f i tx_wf_replace [OF assms(1) i(1) assms(2)] staged_replace [OF assms(1) i(1)] by simp
qed

lemma tx_wf_begin: "ufs_tx_begin w = (Some tx, w1) \<Longrightarrow> tx_wf tx \<and> staged tx = [] \<and> tx_seq tx = journal_seq w"
  by (auto simp: ufs_tx_begin_def asking_def modify_def ret_def tx_wf_def zero_tx_def staged_def)

lemma map_of_staged_find:
  assumes "tx_wf tx"
  shows "map_of (staged tx) t = (case tx_find tx t of None \<Rightarrow> None | Some i \<Rightarrow> Some (tx_buffers tx ! i))"
proof (cases "tx_find tx t")
  case None
  then show ?thesis using tx_find_None [of tx t] by (simp add: map_of_eq_None_iff)
next
  case (Some i)
  then have "i < tx_num_blocks tx" "tx_target_blocks tx ! i = t"
    using tx_find_SomeD by blast+
  then have "(t, tx_buffers tx ! i) \<in> set (staged tx)" by (auto simp: staged_def)
  then have "map_of (staged tx) t = Some (tx_buffers tx ! i)"
    using assms by (intro map_of_is_SomeI) (simp_all add: tx_wf_def)
  with Some show ?thesis by simp
qed

text \<open>An inode as the transaction sees it: in the staged image of its table block, or on disk.\<close>

definition tx_block :: "ufs_transaction \<Rightarrow> world \<Rightarrow> nat \<Rightarrow> bytes" where
  "tx_block tx w b = (case map_of (staged tx) b of None \<Rightarrow> blk w b | Some v \<Rightarrow> v)"

definition tx_inode :: "ufs_transaction \<Rightarrow> world \<Rightarrow> nat \<Rightarrow> ufs_inode" where
  "tx_inode tx w n = inode_in (tx_block tx w (10 + n div 4)) n"

lemma length_tx_block: "tx_wf tx \<Longrightarrow> length (tx_block tx w b) = 512"
  by (auto simp: tx_block_def tx_wf_def staged_def dest!: map_of_SomeD split: option.splits)

lemma stage_inode_run:
  assumes "tx_wf tx" and "calm w" and "n < UFS_MAX_INODES"
  shows "ufs_tx_stage_inode tx n ino w =
    ufs_tx_stage_block tx (10 + n div 4) (overlay (n mod 4 * 128) (enc_inode ino) (tx_block tx w (10 + n div 4))) w"
proof -
  have "n div 4 < 128" using assms(3) by linarith
  then show ?thesis
    using assms map_of_staged_find [OF assms(1), of "10 + n div 4"]
    by (auto simp: ufs_tx_stage_inode_def Let_def tx_block_def run_simps io_simps split: option.splits)
qed

section \<open>Properties\<close>

text \<open>C27: Staging a block, on every branch. Targets outside the image or inside the journal are
  refused with EINVAL, a 125th distinct target with ENOSPC; otherwise the transaction then maps
  the target to the new image and every other target as before, in one new slot only if the
  target was not staged yet (the newest image of a block wins). The transaction stays well formed
  and nothing is written.\<close>

theorem stage_block_spec:
  assumes "tx_wf tx" and "length v = UFS_BLOCK_SIZE"
  shows "case ufs_tx_stage_block tx t v w of
      (Some tx1, w1) \<Rightarrow> w1 = w \<and> \<not> bad_target t \<and> tx_wf tx1 \<and> tx_seq tx1 = tx_seq tx \<and>
        map_of (staged tx1) = (map_of (staged tx))(t \<mapsto> v) \<and>
        tx_num_blocks tx1 = tx_num_blocks tx + (if t \<in> dom (map_of (staged tx)) then 0 else 1)
    | (None, w1) \<Rightarrow> bad_target t \<and> w1 = w\<lparr>errno := EINVAL\<rparr> \<or>
        \<not> bad_target t \<and> t \<notin> dom (map_of (staged tx)) \<and> tx_num_blocks tx = UFS_MAX_TX_BLOCKS \<and>
        w1 = w\<lparr>errno := ENOSPC\<rparr>"
proof (cases "ufs_tx_stage_block tx t v w")
  case (Pair r w1)
  have dom: "t \<in> dom (map_of (staged tx)) \<longleftrightarrow> tx_find tx t \<noteq> None"
    by (simp add: map_of_staged_find [OF assms(1)] domIff split: option.splits)
  show ?thesis
  proof (cases r)
    case None
    with Pair assms(1) dom show ?thesis
      by (auto simp: stage_block_cases fail_def tx_wf_def split: if_splits option.splits)
  next
    case (Some tx1)
    with Pair have "ufs_tx_stage_block tx t v w = (Some tx1, w1)" by simp
    from stage_block_staged [OF assms this] this show ?thesis
      using Some dom Pair
      by (auto simp: stage_block_cases fail_def tx_push_def split: if_splits option.splits)
  qed
qed

theorem stage_block_spec_witness:
  "let tx = zero_tx\<lparr>tx_seq := 1\<rparr> in
   case ufs_tx_stage_block tx 3000 (replicate 512 7) blank_world of
     (Some tx1, w1) \<Rightarrow> map_of (staged tx1) 3000 = Some (replicate 512 7) | (None, w1) \<Rightarrow> False"
proof -
  have wf: "tx_wf (zero_tx\<lparr>tx_seq := 1\<rparr>)" by (simp add: tx_wf_def zero_tx_def staged_def)
  show ?thesis
    using stage_block_spec [OF wf, of "replicate 512 7" 3000 blank_world]
    by (auto simp: Let_def bad_target_def zero_tx_def split: prod.splits option.splits)
qed

text \<open>Staging an inode gives read-your-writes inside the transaction: seen through the staged
  images and the disk below them, exactly that inode changes, also when other inodes of the same
  table block were staged before.\<close>

lemma stage_inode_view:
  assumes "tx_wf tx" and "calm w" and "ino_wf ino"
    and "ufs_tx_stage_inode tx n ino w = (Some tx1, w1)"
  shows "n < UFS_MAX_INODES \<and> w1 = w \<and> tx_wf tx1 \<and>
    tx_inode tx1 w m = (if m = n then ino else tx_inode tx w m)"
proof -
  let ?b = "10 + n div 4"
  let ?v = "overlay (n mod 4 * 128) (enc_inode ino) (tx_block tx w ?b)"
  have n: "n < UFS_MAX_INODES"
    using assms(4) by (auto simp: ufs_tx_stage_inode_def require_def fail_def split: if_splits)
  have len: "length ?v = 512"
    using inode_slot_bound [of n] length_tx_block [OF assms(1)] assms(3) by simp
  have run: "ufs_tx_stage_block tx ?b ?v w = (Some tx1, w1)"
    using stage_inode_run [OF assms(1,2) n] assms(4) by simp
  note st = stage_block_staged [OF assms(1) len run]
  have "tx_block tx1 w b = (if b = ?b then ?v else tx_block tx w b)" for b
    using st by (simp add: tx_block_def)
  moreover have "inode_in ?v m = (if n = m then ino else inode_in (tx_block tx w ?b) m)" if "n div 4 = m div 4"
    using assms(3) length_tx_block [OF assms(1)] that by (intro inode_in_overlay)
  ultimately show ?thesis using n st by (auto simp: tx_inode_def)
qed

lemma stage_inode_view_witness:
  "case ufs_tx_stage_inode zero_tx 6 (ufs_init_inode 1) blank_world of
     (Some tx1, w1) \<Rightarrow> ino_type (tx_inode tx1 blank_world 6) = 1 | (None, w1) \<Rightarrow> False"
proof -
  have wf: "tx_wf zero_tx" by (simp add: tx_wf_def zero_tx_def staged_def)
  have "fst (ufs_tx_stage_inode zero_tx 6 (ufs_init_inode 1) blank_world) \<noteq> None"
    by (subst stage_inode_run [OF wf live_blank(2)])
      (simp_all add: stage_block_cases bad_target_def zero_tx_def tx_find_def first_from.simps)
  then obtain tx1 w1 where r: "ufs_tx_stage_inode zero_tx 6 (ufs_init_inode 1) blank_world = (Some tx1, w1)"
    by (cases "ufs_tx_stage_inode zero_tx 6 (ufs_init_inode 1) blank_world") auto
  have "tx_inode tx1 blank_world 6 = ufs_init_inode 1"
    using stage_inode_view [OF wf live_blank(2) ino_wf_init r, of 6] by simp
  then show ?thesis unfolding r by (simp add: ufs_init_inode_def)
qed

end
