(* ===== verification/Ufs_Recovery.thy ===== *)
theory Ufs_Recovery
  imports Ufs_Journal
begin

text \<open>
  Recovery of \<open>src/journal.c\<close>, described as a function on images (\<open>recovered_img\<close>): which journals
  are replayed, what a run with any faults leaves, and why recovery may be repeated after a crash
  in the middle of it.
\<close>

section \<open>Recovery as a function on images\<close>

definition in_journal :: "nat \<Rightarrow> bool" where
  "in_journal b \<longleftrightarrow> UFS_JOURNAL_START_BLK \<le> b \<and> b < UFS_JOURNAL_START_BLK + UFS_JOURNAL_BLOCKS"

definition journal_header :: "(nat \<Rightarrow> u8) \<Rightarrow> ufs_journal_header" where
  "journal_header f = dec_header (blk_of f UFS_JOURNAL_START_BLK)"

definition commit_record :: "(nat \<Rightarrow> u8) \<Rightarrow> ufs_journal_commit" where
  "commit_record f = dec_commit (blk_of f UFS_JOURNAL_COMMIT_BLK)"

definition journal_targets :: "(nat \<Rightarrow> u8) \<Rightarrow> nat list" where
  "journal_targets f = map (\<lambda>i. unat (jh_target_blocks (journal_header f) ! i))
     [0..<unat (jh_num_blocks (journal_header f))]"

definition journal_buffers :: "(nat \<Rightarrow> u8) \<Rightarrow> bytes list" where
  "journal_buffers f = map (\<lambda>i. blk_of f (UFS_JOURNAL_START_BLK + 1 + i))
     [0..<unat (jh_num_blocks (journal_header f))]"

definition journal_entries :: "(nat \<Rightarrow> u8) \<Rightarrow> (nat \<times> bytes) list" where
  "journal_entries f = zip (journal_targets f) (journal_buffers f)"

definition payload_sum :: "bytes list \<Rightarrow> u32" where
  "payload_sum bufs = foldl (\<lambda>s b. s + calculate_checksum b) 0 bufs"

text \<open>A journal that recovery replays; every other one it discards.\<close>

definition journal_complete :: "(nat \<Rightarrow> u8) \<Rightarrow> bool" where
  "journal_complete f \<longleftrightarrow> jh_magic (journal_header f) = UFS_JOURNAL_MAGIC \<and>
     jh_num_blocks (journal_header f) \<noteq> 0 \<and> unat (jh_num_blocks (journal_header f)) \<le> UFS_MAX_TX_BLOCKS \<and>
     jc_magic (commit_record f) = UFS_JOURNAL_COMMIT_MAGIC \<and>
     jc_seq (commit_record f) = jh_seq (journal_header f) \<and>
     (\<forall>t \<in> set (journal_targets f). \<not> bad_target t) \<and>
     payload_sum (journal_buffers f) = jh_checksum (journal_header f)"

definition recovered_img :: "(nat \<Rightarrow> u8) \<Rightarrow> (nat \<Rightarrow> u8)" where
  "recovered_img f = (if journal_complete f then put_all put_img (journal_entries f) f else f)"

definition clears :: "(nat \<times> bytes) list" where
  "clears = [(UFS_JOURNAL_START_BLK, enc_header zero_header), (UFS_JOURNAL_COMMIT_BLK, enc_commit zero_commit)]"

lemma clear_journal_batch: "clear_journal = batch clears"
  by (auto simp: clear_journal_def batch_def clears_def fun_eq_iff on_ok_def ret_def
      split: prod.splits option.splits)

lemma clears_fit [simp]: "\<forall>(i, v) \<in> set clears. i < UFS_TOTAL_BLOCKS \<and> length v = 512"
  by (simp add: clears_def)

lemma in_journal_simps [simp]:
  "in_journal 138" "in_journal 2185" "i < 124 \<Longrightarrow> in_journal (139 + i)" "i < 124 \<Longrightarrow> in_journal (Suc (138 + i))"
  by (simp_all add: in_journal_def)

lemma not_bad_target: "\<not> bad_target t \<longleftrightarrow> t < UFS_TOTAL_BLOCKS \<and> \<not> in_journal t"
  by (auto simp: bad_target_def in_journal_def)

lemma map_fst_entries: "map fst (journal_entries f) = journal_targets f"
  by (simp add: journal_entries_def journal_targets_def journal_buffers_def)

lemma entries_map:
  "journal_entries f = map (\<lambda>i. (unat (jh_target_blocks (journal_header f) ! i), blk_of f (139 + i)))
     [0..<unat (jh_num_blocks (journal_header f))]"
  by (simp add: journal_entries_def journal_targets_def journal_buffers_def zip_map_map zip_same_conv_map)

lemma entries_fit:
  "journal_complete f \<Longrightarrow> \<forall>(i, v) \<in> set (journal_entries f). i < UFS_TOTAL_BLOCKS \<and> length v = 512"
  by (auto simp: journal_complete_def entries_map journal_targets_def not_bad_target)

lemma entries_length: "journal_complete f \<Longrightarrow> \<forall>(i, v) \<in> set (journal_entries f). length v = 512"
  using entries_fit [of f] by auto

lemma entries_outside: "journal_complete f \<Longrightarrow> in_journal b \<Longrightarrow> b \<notin> fst ` set (journal_entries f)"
  by (auto simp: journal_complete_def entries_map journal_targets_def not_bad_target)

text \<open>The journal is read from the journal blocks only.\<close>

lemma journal_header_cong: "(\<And>b. in_journal b \<Longrightarrow> blk_of f b = blk_of g b) \<Longrightarrow> journal_header f = journal_header g"
  by (simp add: journal_header_def)

lemma commit_record_cong: "(\<And>b. in_journal b \<Longrightarrow> blk_of f b = blk_of g b) \<Longrightarrow> commit_record f = commit_record g"
  by (simp add: commit_record_def)

lemma journal_buffers_cong:
  assumes "\<And>b. in_journal b \<Longrightarrow> blk_of f b = blk_of g b"
    and "unat (jh_num_blocks (journal_header f)) \<le> 124"
  shows "journal_buffers f = journal_buffers g"
proof -
  have "journal_header f = journal_header g" using assms(1) by (rule journal_header_cong)
  with assms show ?thesis by (auto simp: journal_buffers_def)
qed

lemma journal_cong:
  assumes "\<And>b. in_journal b \<Longrightarrow> blk_of f b = blk_of g b"
  shows "journal_complete f = journal_complete g"
    and "journal_complete f \<Longrightarrow> journal_entries f = journal_entries g"
proof -
  have h: "journal_header f = journal_header g" using assms by (rule journal_header_cong)
  have c: "commit_record f = commit_record g" using assms by (rule commit_record_cong)
  have t: "journal_targets f = journal_targets g" by (simp add: journal_targets_def h)
  have b: "unat (jh_num_blocks (journal_header f)) \<le> 124 \<Longrightarrow> journal_buffers f = journal_buffers g"
    using assms by (rule journal_buffers_cong)
  show "journal_complete f = journal_complete g"
    using b by (auto simp: journal_complete_def h c t)
  show "journal_complete f \<Longrightarrow> journal_entries f = journal_entries g"
    using b by (simp add: journal_complete_def journal_entries_def t)
qed

text \<open>Redo: any mixture of old and new target blocks recovers to the same image.\<close>

lemma recovered_redo:
  assumes complete: "journal_complete f"
    and journal: "\<And>b. in_journal b \<Longrightarrow> blk_of g b = blk_of f b"
    and rest: "\<And>b. b \<notin> fst ` set (journal_entries f) \<Longrightarrow> \<not> in_journal b \<Longrightarrow> blk_of g b = blk_of f b"
  shows "journal_complete g" and "blk_of (recovered_img g) b = blk_of (recovered_img f) b"
proof -
  have j: "\<And>b. in_journal b \<Longrightarrow> blk_of f b = blk_of g b" by (simp add: journal)
  show g: "journal_complete g" using complete journal_cong(1) [OF j] by simp
  have e: "journal_entries g = journal_entries f" using complete journal_cong(2) [OF j] by simp
  have "blk_of g c = blk_of f c" if "c \<notin> fst ` set (journal_entries f)" for c
    using that journal rest by (cases "in_journal c") auto
  then have "blk_of (put_all put_img (journal_entries f) g) b = blk_of (put_all put_img (journal_entries f) f) b"
    by (intro img_cells.put_all_redo entries_length complete)
  then show "blk_of (recovered_img g) b = blk_of (recovered_img f) b"
    using complete g e by (simp add: recovered_img_def)
qed

section \<open>Runs of recovery\<close>

lemma blk_img: "blk w b = blk_of (img w) b"
  by (simp add: blk_def)

lemma verify_payload_outcome:
  "steady w \<Longrightarrow> \<forall>i \<in> set is. i < UFS_MAX_TX_BLOCKS \<Longrightarrow> verify_payload h is acc w = (r, w1) \<Longrightarrow>
   steady w1 \<and> same_disk w1 w \<and>
   (r = None \<or> r = Some (if \<exists>i \<in> set is. bad_target (unat (jh_target_blocks h ! i)) then None
      else Some (foldl (\<lambda>s b. s + calculate_checksum b) acc (map (\<lambda>i. blk w (139 + i)) is))))"
proof (induction "is" arbitrary: acc w)
  case Nil
  then show ?case by (simp add: ret_def)
next
  case (Cons i "is")
  show ?case
  proof (cases "bad_target (unat (jh_target_blocks h ! i))")
    case True
    with Cons.prems show ?thesis by (auto simp: ret_def)
  next
    case ok: False
    obtain r2 w2 where run: "ufs_read_block (139 + i) w = (r2, w2)" by fastforce
    have out: "steady w2 \<and> same_disk w2 w \<and> (r2 = None \<or> r2 = Some (blk w (139 + i)))"
      using Cons.prems by (intro read_block_outcome [OF _ _ run]) auto
    show ?thesis
    proof (cases r2)
      case None
      with run ok Cons.prems(3) out show ?thesis by (simp add: on_ok_def)
    next
      case (Some buf)
      with out have buf: "buf = blk w (139 + i)" by simp
      have "verify_payload h is (acc + calculate_checksum buf) w2 = (r, w1)"
        using Cons.prems(3) ok run Some by (simp add: on_ok_def)
      from Cons.IH [OF _ _ this] out Cons.prems(2)
      have "steady w1 \<and> same_disk w1 w2 \<and>
        (r = None \<or> r = Some (if \<exists>i \<in> set is. bad_target (unat (jh_target_blocks h ! i)) then None
          else Some (foldl (\<lambda>s b. s + calculate_checksum b) (acc + calculate_checksum buf)
            (map (\<lambda>i. blk w2 (139 + i)) is))))"
        by simp
      moreover have "blk w2 = blk w" using out same_disk_blk by blast
      ultimately show ?thesis using out ok buf by (auto intro: same_disk_trans)
    qed
  qed
qed

lemma blk_put_blk_journal:
  "length buf = 512 \<Longrightarrow> \<not> in_journal t \<Longrightarrow> in_journal b \<Longrightarrow> blk (put_blk t buf w) b = blk w b"
  by auto

definition replay_writes :: "(nat \<Rightarrow> nat) \<Rightarrow> world \<Rightarrow> nat list \<Rightarrow> (nat \<times> bytes) list" where
  "replay_writes t w is = map (\<lambda>i. (t i, blk w (139 + i))) is"

lemma replay_outcome:
  "steady w \<Longrightarrow> \<forall>i \<in> set is. i < UFS_MAX_TX_BLOCKS \<and> \<not> bad_target (t i) \<Longrightarrow>
   for_each is (\<lambda>i _. on_ok (ufs_read_block (139 + i)) (\<lambda>buffer. ufs_write_block (t i) buffer)) () w = (r, w1) \<Longrightarrow>
   steady w1 \<and> (if r = None then \<exists>k. same_disk w1 (put_all put_blk (take k (replay_writes t w is)) w)
                else same_disk w1 (put_all put_blk (replay_writes t w is) w))"
proof (induction "is" arbitrary: w)
  case Nil
  then show ?case by (simp add: ret_def replay_writes_def)
next
  case (Cons i "is")
  have i: "139 + i < UFS_TOTAL_BLOCKS" "t i < UFS_TOTAL_BLOCKS" "\<not> in_journal (t i)"
    using Cons.prems(2) by (auto simp: not_bad_target)
  obtain r2 w2 where run2: "ufs_read_block (139 + i) w = (r2, w2)" by fastforce
  note out2 = read_block_outcome [OF Cons.prems(1) i(1) run2]
  obtain r3 w3 where run3: "ufs_write_block (t i) (blk w (139 + i)) w2 = (r3, w3)" by fastforce
  have out3: "steady w3 \<and> (if r3 = None then same_disk w3 w2 else same_disk w3 (put_blk (t i) (blk w (139 + i)) w2))"
    using out2 i by (intro write_block_outcome [OF _ _ _ run3]) auto
  have step: "(r, w1) = (case r2 of None \<Rightarrow> (None, w2) | Some b \<Rightarrow>
      (case r3 of None \<Rightarrow> (None, w3) | Some u \<Rightarrow>
        for_each is (\<lambda>i _. on_ok (ufs_read_block (139 + i)) (\<lambda>buffer. ufs_write_block (t i) buffer)) () w3))"
    using Cons.prems(3) run2 run3 out2 by (cases r2; cases r3) (auto simp: run_simps)
  show ?case
  proof (cases "r2 = None \<or> r3 = None")
    case True
    with step out2 out3 have "r = None" "steady w1" "same_disk w1 w"
      by (auto split: option.splits intro: same_disk_trans)
    moreover have "same_disk w1 (put_all put_blk (take 0 (replay_writes t w (i # is))) w)"
      using \<open>same_disk w1 w\<close> by simp
    ultimately show ?thesis by metis
  next
    case False
    then have rest: "for_each is (\<lambda>i _. on_ok (ufs_read_block (139 + i)) (\<lambda>buffer. ufs_write_block (t i) buffer)) () w3 = (r, w1)"
      using step by auto
    let ?w = "put_blk (t i) (blk w (139 + i)) w"
    have sd: "same_disk w3 ?w"
      using False out2 out3 by (auto intro: same_disk_trans same_disk_put_blk)
    have same: "replay_writes t w3 is = replay_writes t w is"
      using Cons.prems(2) i(3) same_disk_blk [OF sd] by (auto simp: replay_writes_def)
    have IH: "steady w1 \<and> (if r = None then \<exists>k. same_disk w1 (put_all put_blk (take k (replay_writes t w is)) w3)
                else same_disk w1 (put_all put_blk (replay_writes t w is) w3))"
      using Cons.IH [OF _ _ rest, unfolded same] out3 Cons.prems(2) by simp
    have cons: "replay_writes t w (i # is) = (t i, blk w (139 + i)) # replay_writes t w is"
      by (simp add: replay_writes_def)
    show ?thesis
    proof (cases r)
      case None
      with IH obtain k where "same_disk w1 (put_all put_blk (take k (replay_writes t w is)) w3)" by auto
      then have "same_disk w1 (put_all put_blk (take (Suc k) (replay_writes t w (i # is))) w)"
        using sd by (auto simp: cons intro: same_disk_trans same_disk_put_all)
      with None IH show ?thesis by metis
    next
      case (Some v)
      with IH sd show ?thesis by (auto simp: cons intro: same_disk_trans same_disk_put_all)
    qed
  qed
qed

lemma replay_entries:
  "replay_writes (\<lambda>i. unat (jh_target_blocks (journal_header (img w)) ! i)) w
     [0..<unat (jh_num_blocks (journal_header (img w)))] = journal_entries (img w)"
  by (simp add: replay_writes_def entries_map blk_img)

lemma clear_outcome:
  assumes "steady v" and "same_disk v base" and "clear_journal v = (r, w1)"
  shows "steady w1 \<and> (if r = None then \<exists>k. same_disk w1 (put_all put_blk (take k clears) base)
           else same_disk w1 (synced (put_all put_blk clears base)))"
proof -
  have out: "steady w1 \<and> (if r = None then \<exists>k. same_disk w1 (put_all put_blk (take k clears) v)
           else same_disk w1 (synced (put_all put_blk clears v)))"
    using assms(1,3) by (intro batch_outcome) (simp_all add: clear_journal_batch)
  have "same_disk (put_all put_blk xs v) (put_all put_blk xs base)" for xs
    using assms(2) by (rule same_disk_put_all)
  then show ?thesis
    using out by (cases r) (auto intro: same_disk_trans same_disk_synced)
qed

definition recover_base :: "world \<Rightarrow> world" where
  "recover_base w = (if journal_complete (img w)
     then synced (put_all put_blk (journal_entries (img w)) w) else w)"

definition recovery_end :: "world \<Rightarrow> unit option \<Rightarrow> world \<Rightarrow> bool" where
  "recovery_end w r w1 \<longleftrightarrow>
     (same_disk w1 w \<and> (r = None \<or> jh_magic (journal_header (img w)) \<noteq> UFS_JOURNAL_MAGIC)) \<or>
     (journal_complete (img w) \<and> r = None \<and>
        (\<exists>k. same_disk w1 (put_all put_blk (take k (journal_entries (img w))) w))) \<or>
     (r = None \<and> (\<exists>k. same_disk w1 (put_all put_blk (take k clears) (recover_base w)))) \<or>
     (r \<noteq> None \<and> same_disk w1 (synced (put_all put_blk clears (recover_base w))))"

lemma recovery_end_clear:
  assumes "steady v" and "same_disk v (recover_base w)" and "clear_journal v = (r, w1)"
  shows "steady w1 \<and> recovery_end w r w1"
  using clear_outcome [OF assms] by (cases r) (auto simp: recovery_end_def)

lemma replay_end:
  assumes v: "steady v" "same_disk v w" and complete: "journal_complete (img w)"
    and run: "on_ok (for_each [0..<unat (jh_num_blocks (journal_header (img w)))] (\<lambda>i _.
        on_ok (ufs_read_block (139 + i)) (\<lambda>buffer.
        ufs_write_block (unat (jh_target_blocks (journal_header (img w)) ! i)) buffer)) ()) (\<lambda>_.
      on_ok ufs_sync_image (\<lambda>_. clear_journal)) v = (r, w1)"
  shows "steady w1 \<and> recovery_end w r w1"
proof -
  have img: "img v = img w" using v(2) by (simp add: same_disk_def)
  obtain r2 w2 where run2: "for_each [0..<unat (jh_num_blocks (journal_header (img w)))] (\<lambda>i _.
        on_ok (ufs_read_block (139 + i)) (\<lambda>buffer.
        ufs_write_block (unat (jh_target_blocks (journal_header (img w)) ! i)) buffer)) () v = (r2, w2)"
    by fastforce
  have entries: "replay_writes (\<lambda>i. unat (jh_target_blocks (journal_header (img w)) ! i)) v
      [0..<unat (jh_num_blocks (journal_header (img w)))] = journal_entries (img w)"
    using replay_entries [of v] by (simp only: img)
  have "steady w2 \<and> (if r2 = None then \<exists>k. same_disk w2 (put_all put_blk (take k (journal_entries (img w))) v)
      else same_disk w2 (put_all put_blk (journal_entries (img w)) v))"
    using complete by (intro replay_outcome [OF v(1) _ run2, unfolded entries])
      (auto simp: journal_complete_def journal_targets_def)
  then have out2: "steady w2 \<and> (if r2 = None then \<exists>k. same_disk w2 (put_all put_blk (take k (journal_entries (img w))) w)
      else same_disk w2 (put_all put_blk (journal_entries (img w)) w))"
    using same_disk_put_all [OF v(2)] by (cases r2) (auto intro: same_disk_trans)
  obtain r3 w3 where run3: "ufs_sync_image w2 = (r3, w3)" by fastforce
  note out3 = sync_outcome [OF conjunct1 [OF out2] run3]
  show ?thesis
  proof (cases r2)
    case None
    with run run2 have "r = None" "w1 = w2" by (simp_all add: run_simps)
    with None out2 complete show ?thesis by (auto simp: recovery_end_def)
  next
    case s2: (Some u)
    show ?thesis
    proof (cases r3)
      case None
      with run run2 run3 s2 have f: "r = None" "w1 = w3" by (simp_all add: run_simps)
      have "same_disk w3 (put_all put_blk (take (length (journal_entries (img w))) (journal_entries (img w))) w)"
        using None s2 out2 out3 by (auto intro: same_disk_trans)
      with f complete out3 show ?thesis unfolding recovery_end_def by blast
    next
      case (Some u)
      with run run2 run3 s2 have clr: "clear_journal w3 = (r, w1)" by (simp add: run_simps)
      have "same_disk w3 (recover_base w)"
        using Some s2 out2 out3 complete by (auto simp: recover_base_def intro: same_disk_trans same_disk_synced)
      with out3 clr show ?thesis by (intro recovery_end_clear) auto
    qed
  qed
qed

text \<open>After the header: \<open>sane\<close> is what has been checked so far.\<close>

definition header_sane :: "(nat \<Rightarrow> u8) \<Rightarrow> bool" where
  "header_sane f \<longleftrightarrow> jh_magic (journal_header f) = UFS_JOURNAL_MAGIC \<and>
     \<not> (unat (jh_num_blocks (journal_header f)) = 0 \<or> UFS_MAX_TX_BLOCKS < unat (jh_num_blocks (journal_header f)))"

definition commit_matches :: "(nat \<Rightarrow> u8) \<Rightarrow> bool" where
  "commit_matches f \<longleftrightarrow> \<not> (jc_magic (commit_record f) \<noteq> UFS_JOURNAL_COMMIT_MAGIC \<or>
     jc_seq (commit_record f) \<noteq> jh_seq (journal_header f))"

lemma journal_complete_stages:
  "journal_complete f \<longleftrightarrow> header_sane f \<and> commit_matches f \<and>
     (\<forall>t \<in> set (journal_targets f). \<not> bad_target t) \<and>
     payload_sum (journal_buffers f) = jh_checksum (journal_header f)"
  by (auto simp: journal_complete_def header_sane_def commit_matches_def unat_eq_0)

definition recover_verified :: "ufs_journal_header \<Rightarrow> unit op" where
  "recover_verified header = on_ok (verify_payload header [0..<unat (jh_num_blocks header)] 0) (\<lambda>verified.
     if verified \<noteq> Some (jh_checksum header) then clear_journal
     else
       on_ok (for_each [0..<unat (jh_num_blocks header)] (\<lambda>i _.
         on_ok (ufs_read_block (139 + i)) (\<lambda>buffer.
         ufs_write_block (unat (jh_target_blocks header ! i)) buffer)) ()) (\<lambda>_.
       on_ok ufs_sync_image (\<lambda>_. clear_journal)))"

lemma recover_verified_end:
  assumes v: "steady v" "same_disk v w" and h: "header_sane (img w)" "commit_matches (img w)"
    and run: "recover_verified (journal_header (img w)) v = (r, w1)"
  shows "steady w1 \<and> recovery_end w r w1"
proof -
  let ?h = "journal_header (img w)"
  let ?n = "unat (jh_num_blocks ?h)"
  obtain r4 w4 where run4: "verify_payload ?h [0..<?n] 0 v = (r4, w4)" by fastforce
  have blk: "blk v = blk w" using v(2) by (rule same_disk_blk)
  have e1: "(\<exists>i \<in> set [0..<?n]. bad_target (unat (jh_target_blocks ?h ! i))) =
      (\<exists>t \<in> set (journal_targets (img w)). bad_target t)"
    by (simp add: journal_targets_def)
  have e2: "foldl (\<lambda>s b. s + calculate_checksum b) 0 (map (\<lambda>i. blk v (139 + i)) [0..<?n]) =
      payload_sum (journal_buffers (img w))"
    by (simp add: payload_sum_def journal_buffers_def blk blk_img)
  have "steady w4 \<and> same_disk w4 v \<and> (r4 = None \<or> r4 = Some
      (if \<exists>t \<in> set (journal_targets (img w)). bad_target t then None
       else Some (payload_sum (journal_buffers (img w)))))"
    using h(1) by (intro verify_payload_outcome [OF v(1) _ run4, unfolded e1 e2])
      (auto simp: header_sane_def)
  then have out4: "steady w4" "same_disk w4 w" "r4 = None \<or> r4 = Some
      (if \<exists>t \<in> set (journal_targets (img w)). bad_target t then None
       else Some (payload_sum (journal_buffers (img w))))"
    using v(2) by (auto intro: same_disk_trans)
  consider (err) "r4 = None"
    | (torn) x where "r4 = Some x" "x \<noteq> Some (jh_checksum ?h)" "\<not> journal_complete (img w)"
    | (ok) "r4 = Some (Some (jh_checksum ?h))" "journal_complete (img w)"
    using out4(3) h by (auto simp: journal_complete_stages split: if_splits)
  then show ?thesis
  proof cases
    case err
    with run run4 have "r = None" "w1 = w4" by (simp_all add: recover_verified_def run_simps)
    with out4 show ?thesis by (simp add: recovery_end_def)
  next
    case torn
    then show ?thesis using run run4 out4
      by (intro recovery_end_clear [of w4]) (simp_all add: recover_verified_def run_simps recover_base_def)
  next
    case ok
    then show ?thesis using run run4 out4
      by (intro replay_end [of w4 w]) (simp_all add: recover_verified_def run_simps)
  qed
qed

definition recover_committed :: "ufs_journal_header \<Rightarrow> unit op" where
  "recover_committed header = on_ok (ufs_read_block UFS_JOURNAL_COMMIT_BLK) (\<lambda>commit_block.
     if jc_magic (dec_commit commit_block) \<noteq> UFS_JOURNAL_COMMIT_MAGIC \<or>
        jc_seq (dec_commit commit_block) \<noteq> jh_seq header
     then clear_journal else recover_verified header)"

lemma recover_committed_end:
  assumes v: "steady v" "same_disk v w" and h: "header_sane (img w)"
    and run: "recover_committed (journal_header (img w)) v = (r, w1)"
  shows "steady w1 \<and> recovery_end w r w1"
proof -
  obtain r3 w3 where run3: "ufs_read_block 2185 v = (r3, w3)" by fastforce
  have "steady w3 \<and> same_disk w3 v \<and> (r3 = None \<or> r3 = Some (blk v 2185))"
    using v by (intro read_block_outcome [OF _ _ run3]) auto
  then have out3: "steady w3" "same_disk w3 w" "r3 = None \<or> r3 = Some (blk w 2185)"
    using v(2) same_disk_blk [of v w] by (auto intro: same_disk_trans)
  have c: "dec_commit (blk w 2185) = commit_record (img w)" by (simp add: commit_record_def blk_img)
  consider (err) "r3 = None"
    | (torn) "r3 = Some (blk w 2185)" "\<not> commit_matches (img w)" "\<not> journal_complete (img w)"
    | (ok) "r3 = Some (blk w 2185)" "commit_matches (img w)"
    using out3(3) by (auto simp: journal_complete_stages)
  then show ?thesis
  proof cases
    case err
    with run run3 have "r = None" "w1 = w3" by (simp_all add: recover_committed_def run_simps)
    with out3 show ?thesis by (simp add: recovery_end_def)
  next
    case torn
    then show ?thesis using run run3 out3
      by (intro recovery_end_clear [of w3])
        (auto simp: recover_committed_def run_simps c commit_matches_def recover_base_def)
  next
    case ok
    then show ?thesis using run run3 out3 h
      by (intro recover_verified_end [of w3])
        (auto simp: recover_committed_def run_simps c commit_matches_def split: if_splits)
  qed
qed

lemma recover_unfold:
  "ufs_journal_recover = on_ok (ufs_read_block UFS_JOURNAL_START_BLK) (\<lambda>b.
     if jh_magic (dec_header b) \<noteq> UFS_JOURNAL_MAGIC then ret ()
     else if unat (jh_num_blocks (dec_header b)) = 0 \<or> UFS_MAX_TX_BLOCKS < unat (jh_num_blocks (dec_header b))
     then clear_journal else recover_committed (dec_header b))"
  by (simp add: ufs_journal_recover_def recover_committed_def recover_verified_def Let_def cong: if_cong)

lemma recover_outcome:
  assumes w: "steady w" and run: "ufs_journal_recover w = (r, w1)"
  shows "steady w1 \<and> recovery_end w r w1"
proof -
  obtain r2 w2 where run2: "ufs_read_block 138 w = (r2, w2)" by fastforce
  have out2: "steady w2" "same_disk w2 w" "r2 = None \<or> r2 = Some (blk w 138)"
    using read_block_outcome [OF w _ run2] by auto
  have h: "dec_header (blk w 138) = journal_header (img w)" by (simp add: journal_header_def blk_img)
  consider (err) "r2 = None"
    | (clean) "r2 = Some (blk w 138)" "jh_magic (journal_header (img w)) \<noteq> UFS_JOURNAL_MAGIC"
    | (insane) "r2 = Some (blk w 138)" "jh_magic (journal_header (img w)) = UFS_JOURNAL_MAGIC"
        "\<not> header_sane (img w)" "\<not> journal_complete (img w)"
    | (ok) "r2 = Some (blk w 138)" "header_sane (img w)"
    using out2(3) by (auto simp: journal_complete_stages)
  then show ?thesis
  proof cases
    case err
    with run run2 have "r = None" "w1 = w2" by (simp_all add: recover_unfold run_simps)
    with out2 show ?thesis by (simp add: recovery_end_def)
  next
    case clean
    with run run2 have "w1 = w2" by (simp add: recover_unfold run_simps h ret_def)
    with out2 clean show ?thesis by (simp add: recovery_end_def)
  next
    case insane
    then show ?thesis using run run2 out2
      by (intro recovery_end_clear [of w2])
        (auto simp: recover_unfold run_simps h header_sane_def recover_base_def)
  next
    case ok
    then show ?thesis using run run2 out2
      by (intro recover_committed_end [of w2])
        (auto simp: recover_unfold run_simps h header_sane_def split: if_splits)
  qed
qed

section \<open>What a crash leaves of a recovery\<close>

definition same_outside :: "(nat \<Rightarrow> u8) \<Rightarrow> (nat \<Rightarrow> u8) \<Rightarrow> bool" where
  "same_outside f g \<longleftrightarrow> (\<forall>b. \<not> in_journal b \<longrightarrow> blk_of f b = blk_of g b)"

lemma same_outside_refl [simp]: "same_outside f f"
  by (simp add: same_outside_def)

lemma same_outside_trans: "same_outside f g \<Longrightarrow> same_outside g h \<Longrightarrow> same_outside f h"
  by (simp add: same_outside_def)

lemma same_outside_sym: "same_outside f g \<Longrightarrow> same_outside g f"
  by (simp add: same_outside_def)

lemma same_outside_put_journal:
  "\<forall>(i, v) \<in> set xs. length v = 512 \<Longrightarrow> \<forall>(i, v) \<in> set xs. in_journal i \<Longrightarrow>
   same_outside (put_all put_img xs f) f"
  by (auto simp: same_outside_def intro!: img_cells.get_put_all_untouched)

lemma subseq_clears: "subseq ys clears \<Longrightarrow> ys \<in> {[], [clears ! 0], [clears ! 1], clears}"
proof -
  assume "subseq ys clears"
  then have "ys \<in> set (subseqs clears)" by simp
  then show ?thesis by (auto simp: clears_def Let_def)
qed

text \<open>Clearing either half of the journal already makes it incomplete.\<close>

lemma clears_kill:
  assumes "subseq ys clears" and "ys \<noteq> []"
  shows "\<not> journal_complete (put_all put_img ys g)"
proof -
  from assms consider "ys = [clears ! 0]" | "ys = [clears ! 1]" | "ys = clears"
    using subseq_clears by blast
  then show ?thesis
    by cases (auto simp: journal_complete_def clears_def journal_header_def commit_record_def
        img_cells.get_put zero_header_def zero_commit_def jh_wf_def jc_wf_def)
qed

lemma clears_outside: "subseq ys clears \<Longrightarrow> same_outside (put_all put_img ys g) g"
  using subseq_clears [of ys] by (auto simp: clears_def intro!: same_outside_put_journal)

lemma recovered_entries:
  assumes "journal_complete f" and "subseq ys (journal_entries f)"
  shows "same_outside (recovered_img (put_all put_img ys (put_all put_img (journal_entries f) f)))
    (recovered_img f)"
proof -
  let ?g = "put_all put_img ys (put_all put_img (journal_entries f) f)"
  have fits: "\<forall>(i, v) \<in> set ys. length v = 512"
    using assms(2) entries_length [OF assms(1)] by (rule subseq_fits)
  have "fst ` set ys \<subseteq> fst ` set (journal_entries f)" using subseq_set [OF assms(2)] by auto
  then have u: "blk_of ?g b = blk_of f b" if "b \<notin> fst ` set (journal_entries f)" for b
    using that fits entries_length [OF assms(1)]
    by (subst img_cells.get_put_all_untouched; auto simp: img_cells.get_put_all_untouched)
  then have "blk_of (recovered_img ?g) b = blk_of (recovered_img f) b" for b
    using entries_outside [OF assms(1)] by (intro recovered_redo(2) [OF assms(1)]) auto
  then show ?thesis by (simp add: same_outside_def)
qed

lemma recovered_partial:
  assumes "journal_complete f" and "subseq ys (journal_entries f)"
  shows "same_outside (recovered_img (put_all put_img ys f)) (recovered_img f)"
proof -
  let ?g = "put_all put_img ys f"
  have fits: "\<forall>(i, v) \<in> set ys. length v = 512"
    using assms(2) entries_length [OF assms(1)] by (rule subseq_fits)
  have "fst ` set ys \<subseteq> fst ` set (journal_entries f)" using subseq_set [OF assms(2)] by auto
  then have "blk_of ?g b = blk_of f b" if "b \<notin> fst ` set (journal_entries f)" for b
    using that fits by (intro img_cells.get_put_all_untouched) auto
  then have "blk_of (recovered_img ?g) b = blk_of (recovered_img f) b" for b
    using entries_outside [OF assms(1)] by (intro recovered_redo(2) [OF assms(1)]) auto
  then show ?thesis by (simp add: same_outside_def)
qed

text \<open>The image recovery works towards, and clearing on top of it.\<close>

lemma img_recover_base: "img (recover_base w) = recovered_img (img w)"
  by (simp add: recover_base_def recovered_img_def img_put_all)

lemma recovered_twice: "same_outside (recovered_img (recovered_img f)) (recovered_img f)"
proof (cases "journal_complete f")
  case True
  then show ?thesis
    using recovered_entries [OF True, of "[]"] by (simp add: recovered_img_def)
next
  case False
  then show ?thesis by (simp add: recovered_img_def)
qed

lemma recovered_cleared:
  assumes "subseq ys clears"
  shows "same_outside (recovered_img (put_all put_img ys (recovered_img f))) (recovered_img f)"
proof (cases "ys = []")
  case True
  then show ?thesis using recovered_twice by simp
next
  case False
  then have "recovered_img (put_all put_img ys (recovered_img f)) = put_all put_img ys (recovered_img f)"
    using clears_kill [OF assms False] by (simp add: recovered_img_def [of "put_all put_img ys _"])
  then show ?thesis using clears_outside [OF assms] by simp
qed

text \<open>
  Recovery may be cut short at any point, also by another crash: whatever image it leaves recovers
  to the same blocks.
\<close>

lemma crash_in_recovery:
  assumes w: "steady w" "unsynced w = []" "stable w = img w"
    and run: "ufs_journal_recover w = (r, w1)" and f: "crash_image w1 f"
  shows "same_outside (recovered_img f) (recovered_img (img w))"
proof -
  let ?f = "img w"
  have base: "unsynced (recover_base w) = []" "stable (recover_base w) = img (recover_base w)"
    using w by (simp_all add: recover_base_def)
  have lens: "\<forall>(i, v) \<in> set clears. length v = 512" by (simp add: clears_def)
  from recover_outcome [OF w(1) run] consider
    (same) "same_disk w1 w"
  | (replay) k where "journal_complete ?f" "same_disk w1 (put_all put_blk (take k (journal_entries ?f)) w)"
  | (clear) k where "same_disk w1 (put_all put_blk (take k clears) (recover_base w))"
  | (finished) "same_disk w1 (synced (put_all put_blk clears (recover_base w)))"
    unfolding recovery_end_def by blast
  then show ?thesis
  proof cases
    case same
    then have "f = ?f" using f w same_disk_crash by (metis crash_image_synced)
    then show ?thesis by simp
  next
    case replay
    then obtain ys where "subseq ys (journal_entries ?f)" "f = put_all put_img ys ?f"
      using crash_image_partial [OF w(2,3) entries_length [OF replay(1)] replay(2) f] by blast
    with replay(1) show ?thesis by (simp add: recovered_partial)
  next
    case clear
    then obtain ys where "subseq ys clears" "f = put_all put_img ys (img (recover_base w))"
      using crash_image_partial [OF base lens clear f] by blast
    then show ?thesis by (simp add: recovered_cleared img_recover_base)
  next
    case finished
    then have "crash_image (synced (put_all put_blk clears (recover_base w))) f"
      using f same_disk_crash by metis
    then have "f = put_all put_img clears (recovered_img ?f)"
      by (simp add: img_put_all img_recover_base)
    then show ?thesis by (simp add: recovered_cleared)
  qed
qed

lemma recover_success:
  assumes "steady w" and "ufs_journal_recover w = (Some u, w1)"
  shows "same_outside (img w1) (recovered_img (img w)) \<and> \<not> journal_complete (img w1)"
proof -
  from recover_outcome [OF assms] consider
    (same) "same_disk w1 w" "jh_magic (journal_header (img w)) \<noteq> UFS_JOURNAL_MAGIC"
  | (finished) "same_disk w1 (synced (put_all put_blk clears (recover_base w)))"
    unfolding recovery_end_def by blast
  then show ?thesis
  proof cases
    case same
    then have "img w1 = img w" "\<not> journal_complete (img w)"
      by (auto simp: same_disk_def journal_complete_def)
    then show ?thesis by (simp add: recovered_img_def)
  next
    case finished
    then have "img w1 = put_all put_img clears (recovered_img (img w))"
      by (simp add: same_disk_def img_put_all img_recover_base)
    then show ?thesis
      using clears_outside [of clears] clears_kill [of clears] by (simp add: clears_def)
  qed
qed

section \<open>Without faults recovery succeeds\<close>

definition yields :: "('a \<Rightarrow> bool) \<Rightarrow> 'a op \<Rightarrow> bool" where
  "yields Q m \<longleftrightarrow> (\<forall>w. calm w \<longrightarrow> (\<exists>x w1. m w = (Some x, w1) \<and> calm w1 \<and> Q x))"

lemma yields_on_ok: "yields Q m \<Longrightarrow> (\<And>x. Q x \<Longrightarrow> yields R (k x)) \<Longrightarrow> yields R (on_ok m k)"
  unfolding yields_def by (metis on_ok_Some)

lemma yields_ret: "Q x \<Longrightarrow> yields Q (ret x)"
  by (simp add: yields_def ret_def)

lemma yields_read: "b < UFS_TOTAL_BLOCKS \<Longrightarrow> yields (\<lambda>buf. length buf = 512) (ufs_read_block b)"
  by (simp add: yields_def io_simps)

lemma yields_write: "b < UFS_TOTAL_BLOCKS \<Longrightarrow> length buf = 512 \<Longrightarrow> yields (\<lambda>_. True) (ufs_write_block b buf)"
  by (simp add: yields_def io_simps)

lemma yields_sync: "yields (\<lambda>_. True) ufs_sync_image"
  by (simp add: yields_def io_simps synced_def)

lemma yields_for_each:
  "\<forall>i \<in> set is. \<forall>s. yields (\<lambda>_. True) (body i s) \<Longrightarrow> yields (\<lambda>_. True) (for_each is body s)"
  by (induction "is" arbitrary: s) (auto intro!: yields_ret intro: yields_on_ok)

lemma yields_if: "(c \<Longrightarrow> yields Q a) \<Longrightarrow> (\<not> c \<Longrightarrow> yields Q b) \<Longrightarrow> yields Q (if c then a else b)"
  by simp

lemma yields_verify:
  "\<forall>i \<in> set is. i < UFS_MAX_TX_BLOCKS \<Longrightarrow>
   yields (\<lambda>v. v \<noteq> None \<longrightarrow> (\<forall>i \<in> set is. \<not> bad_target (unat (jh_target_blocks h ! i)))) (verify_payload h is acc)"
proof (induction "is" arbitrary: acc)
  case Nil
  then show ?case by (simp add: yields_ret)
next
  case (Cons i "is")
  have "yields (\<lambda>v. v \<noteq> None \<longrightarrow> (\<forall>i \<in> set is. \<not> bad_target (unat (jh_target_blocks h ! i))))
      (on_ok (ufs_read_block (139 + i)) (\<lambda>buffer. verify_payload h is (acc + calculate_checksum buffer)))"
    using Cons by (intro yields_on_ok [OF yields_read]) auto
  then show ?case by (auto simp: yields_ret)
qed

lemma yields_clear: "yields (\<lambda>_. True) clear_journal"
  unfolding clear_journal_def by (intro yields_on_ok [OF yields_write] yields_sync) simp_all

lemma yields_replay:
  assumes "\<forall>i < n. \<not> bad_target (t i)" and "n \<le> UFS_MAX_TX_BLOCKS"
  shows "yields (\<lambda>_. True) (for_each [0..<n] (\<lambda>i _.
    on_ok (ufs_read_block (139 + i)) (\<lambda>buffer. ufs_write_block (t i) buffer)) s)"
proof (rule yields_for_each, intro ballI allI)
  fix i s assume "i \<in> set [0..<n]"
  with assms have "139 + i < UFS_TOTAL_BLOCKS" "t i < UFS_TOTAL_BLOCKS" by (auto simp: not_bad_target)
  then show "yields (\<lambda>_. True) (on_ok (ufs_read_block (139 + i)) (\<lambda>buffer. ufs_write_block (t i) buffer))"
    by (intro yields_on_ok [OF yields_read] yields_write)
qed

lemma yields_recover: "yields (\<lambda>_. True) ufs_journal_recover"
proof -
  have verified: "yields (\<lambda>_. True) (recover_verified h)" if "unat (jh_num_blocks h) \<le> UFS_MAX_TX_BLOCKS" for h
    unfolding recover_verified_def using that
    by (intro yields_on_ok [OF yields_verify] yields_if yields_clear
        yields_on_ok [OF yields_replay] yields_on_ok [OF yields_sync]) auto
  have committed: "yields (\<lambda>_. True) (recover_committed h)" if "unat (jh_num_blocks h) \<le> UFS_MAX_TX_BLOCKS" for h
    unfolding recover_committed_def using that
    by (intro yields_on_ok [OF yields_read] yields_if yields_clear verified) auto
  show ?thesis
    unfolding recover_unfold
    by (intro yields_on_ok [OF yields_read] yields_if yields_clear yields_ret committed) auto
qed

lemma recover_calm:
  assumes "calm w"
  obtains w1 where "ufs_journal_recover w = (Some (), w1)" "calm w1"
    "same_outside (img w1) (recovered_img (img w))" "\<not> journal_complete (img w1)"
proof -
  from assms yields_recover obtain w1 where r: "ufs_journal_recover w = (Some (), w1)" "calm w1"
    unfolding yields_def by auto
  moreover have "steady w" using assms by (simp add: calm_def steady_def sector_script_def)
  ultimately show ?thesis using that recover_success by blast
qed

end
