(* ===== verification/Ufs_Commit.thy ===== *)
theory Ufs_Commit
  imports Ufs_Recovery
begin

text \<open>
  \<open>ufs_tx_commit\<close> of \<open>src/journal.c\<close> as four batches of block writes, each ended by an \<open>fsync\<close>: log,
  commit record, targets, clearing. The lemmas follow the crash images through the batches.
\<close>

section \<open>Commit\<close>

definition log_writes :: "ufs_transaction \<Rightarrow> (nat \<times> bytes) list" where
  "log_writes tx = (UFS_JOURNAL_START_BLK, enc_header (tx_header tx)) #
     map (\<lambda>i. (UFS_JOURNAL_START_BLK + 1 + i, tx_buffers tx ! i)) [0..<tx_num_blocks tx]"

definition commit_writes :: "ufs_transaction \<Rightarrow> (nat \<times> bytes) list" where
  "commit_writes tx = [(UFS_JOURNAL_COMMIT_BLK, enc_commit (tx_commit_record tx))]"

lemma on_ok_ret_right: "on_ok m ret = m"
  by (auto simp: fun_eq_iff on_ok_def ret_def split: prod.splits option.splits)

lemma commit_batches:
  "tx_num_blocks tx \<noteq> 0 \<Longrightarrow>
   ufs_tx_commit tx = batches [log_writes tx, commit_writes tx, staged tx, clears]"
  by (simp add: ufs_tx_commit_def batch_def for_each_write_list on_ok_assoc log_writes_def
      commit_writes_def staged_def clear_journal_batch clears_def on_ok_ret_right)

lemma jh_wf_tx_header [simp]: "tx_wf tx \<Longrightarrow> jh_wf (tx_header tx)"
  by (simp add: jh_wf_def tx_header_def tx_wf_def)

lemma jc_wf_tx_commit [simp]: "jc_wf (tx_commit_record tx)"
  by (simp add: jc_wf_def tx_commit_record_def zero_commit_def)

lemma log_writes_fit:
  "tx_wf tx \<Longrightarrow> \<forall>(i, v) \<in> set (log_writes tx). i < UFS_TOTAL_BLOCKS \<and> length v = 512"
  by (auto simp: log_writes_def tx_wf_def)

lemma staged_fit:
  "tx_wf tx \<Longrightarrow> \<forall>(i, v) \<in> set (staged tx). i < UFS_TOTAL_BLOCKS \<and> length v = 512"
  by (auto simp: staged_def tx_wf_def not_bad_target)

lemma commit_writes_fit: "\<forall>(i, v) \<in> set (commit_writes tx). i < UFS_TOTAL_BLOCKS \<and> length v = 512"
  by (simp add: commit_writes_def)

definition committed_journal :: "ufs_transaction \<Rightarrow> (nat \<Rightarrow> u8) \<Rightarrow> bool" where
  "committed_journal tx f \<longleftrightarrow> blk_of f UFS_JOURNAL_START_BLK = enc_header (tx_header tx) \<and>
     (\<forall>i < tx_num_blocks tx. blk_of f (UFS_JOURNAL_START_BLK + 1 + i) = tx_buffers tx ! i) \<and>
     blk_of f UFS_JOURNAL_COMMIT_BLK = enc_commit (tx_commit_record tx)"

lemma distinct_log_writes: "distinct (map fst (log_writes tx))"
  by (auto simp: log_writes_def distinct_map inj_on_def o_def)

lemma blk_of_log_writes:
  assumes "tx_wf tx" and "(b, v) \<in> set (log_writes tx)"
  shows "blk_of (put_all put_img (log_writes tx) g) b = v"
proof -
  have "\<forall>(i, v) \<in> set (log_writes tx). length v = 512" using log_writes_fit [OF assms(1)] by auto
  moreover have "map_of (log_writes tx) b = Some v"
    using distinct_log_writes assms(2) by (rule map_of_is_SomeI)
  ultimately show ?thesis by (simp add: img_cells.get_put_all_distinct distinct_log_writes)
qed

lemma log_writes_commit_block:
  assumes "tx_wf tx" and "subseq ys (log_writes tx)"
  shows "commit_record (put_all put_img ys g) = commit_record g"
    and "same_outside (put_all put_img ys g) g"
proof -
  have n: "tx_num_blocks tx \<le> 124" using assms(1) by (simp add: tx_wf_def)
  have fits: "\<forall>(i, v) \<in> set (log_writes tx). length v = 512" using log_writes_fit [OF assms(1)] by auto
  have "\<forall>(i, v) \<in> set (log_writes tx). in_journal i \<and> i \<noteq> 2185"
    using n by (auto simp: log_writes_def)
  then have s: "\<forall>(i, v) \<in> set ys. in_journal i \<and> i \<noteq> 2185" using subseq_set [OF assms(2)] by auto
  have f: "\<forall>(i, v) \<in> set ys. length v = 512" using assms(2) fits by (rule subseq_fits)
  have "blk_of (put_all put_img ys g) 2185 = blk_of g 2185"
    using s by (intro img_cells.get_put_all_untouched [OF f]) auto
  then show "commit_record (put_all put_img ys g) = commit_record g" by (simp add: commit_record_def)
  show "same_outside (put_all put_img ys g) g"
    using s by (intro same_outside_put_journal f) auto
qed

definition committed_img :: "ufs_transaction \<Rightarrow> (nat \<Rightarrow> u8) \<Rightarrow> (nat \<Rightarrow> u8)" where
  "committed_img tx g = put_all put_img (commit_writes tx) (put_all put_img (log_writes tx) g)"

lemma committed_img_journal:
  assumes "tx_wf tx"
  shows "committed_journal tx (committed_img tx g)" and "same_outside (committed_img tx g) g"
proof -
  let ?f = "put_all put_img (log_writes tx) g"
  have n: "tx_num_blocks tx \<le> 124" using assms by (simp add: tx_wf_def)
  have f: "blk_of (committed_img tx g) b = (if b = 2185 then enc_commit (tx_commit_record tx) else blk_of ?f b)" for b
    by (simp add: committed_img_def commit_writes_def img_cells.get_put)
  have "blk_of ?f 138 = enc_header (tx_header tx)"
    using assms by (intro blk_of_log_writes) (simp_all add: log_writes_def)
  moreover have "blk_of ?f (139 + i) = tx_buffers tx ! i" if "i < tx_num_blocks tx" for i
    using assms that by (intro blk_of_log_writes) (auto simp: log_writes_def)
  ultimately show "committed_journal tx (committed_img tx g)"
    using n by (simp add: committed_journal_def f)
  have "same_outside ?f g" using assms by (intro log_writes_commit_block(2)) auto
  then show "same_outside (committed_img tx g) g" by (auto simp: same_outside_def f)
qed

text \<open>Such a journal is complete and holds exactly the staged blocks.\<close>

lemma committed_journal_complete:
  assumes tx: "tx_wf tx" and "tx_num_blocks tx \<noteq> 0" and c: "committed_journal tx f"
  shows "journal_complete f" and "journal_entries f = staged tx"
proof -
  have n: "tx_num_blocks tx \<le> 124" using tx by (simp add: tx_wf_def)
  have h: "journal_header f = tx_header tx" using c tx by (simp add: journal_header_def committed_journal_def)
  have r: "commit_record f = tx_commit_record tx" using c by (simp add: commit_record_def committed_journal_def)
  have num: "unat (jh_num_blocks (tx_header tx)) = tx_num_blocks tx"
    using n by (simp add: tx_header_def unat_of_nat)
  have small: "tx_target_blocks tx ! i < UFS_TOTAL_BLOCKS \<and> \<not> bad_target (tx_target_blocks tx ! i)"
    if "i < tx_num_blocks tx" for i
    using tx that by (auto simp: tx_wf_def staged_def not_bad_target)
  have fits: "unat (of_nat (tx_target_blocks tx ! i) :: u32) = tx_target_blocks tx ! i"
    if "i < tx_num_blocks tx" for i
    using small [OF that] by (simp add: unat_of_nat)
  have t: "journal_targets f = map (\<lambda>i. tx_target_blocks tx ! i) [0..<tx_num_blocks tx]"
    using fits by (auto simp: journal_targets_def h num) (auto simp: tx_header_def nth_append)
  have b: "journal_buffers f = map (\<lambda>i. tx_buffers tx ! i) [0..<tx_num_blocks tx]"
    using c by (auto simp: journal_buffers_def h num committed_journal_def)
  have sum: "payload_sum (journal_buffers f) = jh_checksum (tx_header tx)"
    by (simp add: b payload_sum_def foldl_map tx_header_def)
  have "jh_num_blocks (tx_header tx) \<noteq> 0" using num assms(2) by (metis unat_0)
  then show "journal_complete f"
    using n num sum small t r h
    by (simp add: journal_complete_def) (auto simp: tx_header_def tx_commit_record_def)
  show "journal_entries f = staged tx"
    by (simp add: journal_entries_def t b staged_def zip_map_map zip_same_conv_map)
qed

lemma same_outside_put_all:
  assumes "\<forall>(i, v) \<in> set xs. length v = 512" and "same_outside f g"
  shows "same_outside (put_all put_img xs f) (put_all put_img xs g)"
  using assms(2) by (simp add: same_outside_def img_cells.get_put_all [OF assms(1)] split: option.splits)

definition staged_img :: "ufs_transaction \<Rightarrow> (nat \<Rightarrow> u8) \<Rightarrow> (nat \<Rightarrow> u8)" where
  "staged_img tx g = put_all put_img (staged tx) g"

lemma recovered_committed:
  assumes "tx_wf tx" and "tx_num_blocks tx \<noteq> 0"
  shows "recovered_img (committed_img tx g) = staged_img tx (committed_img tx g)"
    and "same_outside (recovered_img (committed_img tx g)) (staged_img tx g)"
proof -
  note c = committed_journal_complete [OF assms committed_img_journal(1) [OF assms(1)]]
  show r: "recovered_img (committed_img tx g) = staged_img tx (committed_img tx g)"
    by (simp add: recovered_img_def c staged_img_def)
  have "\<forall>(i, v) \<in> set (staged tx). length v = 512" using staged_fit [OF assms(1)] by auto
  then show "same_outside (recovered_img (committed_img tx g)) (staged_img tx g)"
    unfolding r staged_img_def using committed_img_journal(2) [OF assms(1)] by (rule same_outside_put_all)
qed

section \<open>Crashes during a commit\<close>

definition no_pending_commit :: "world \<Rightarrow> bool" where
  "no_pending_commit w \<longleftrightarrow>
     (\<forall>f. crash_image w f \<longrightarrow> jc_magic (commit_record f) \<noteq> UFS_JOURNAL_COMMIT_MAGIC)"

lemma not_complete_without_commit:
  "jc_magic (commit_record f) \<noteq> UFS_JOURNAL_COMMIT_MAGIC \<Longrightarrow> recovered_img f = f"
  by (simp add: recovered_img_def journal_complete_def)

lemma crash_in_log:
  assumes "no_pending_commit w" and "tx_wf tx"
    and "same_disk w1 (put_all put_blk (take k (log_writes tx)) w)" and "crash_image w1 f"
  shows "\<exists>old. crash_image w old \<and> same_outside (recovered_img f) old"
proof -
  have sub: "subseq (take k (log_writes tx)) (log_writes tx)"
    by (simp add: prefix_imp_subseq take_is_prefix)
  have "\<forall>(i, v) \<in> set (log_writes tx). length v = 512" using log_writes_fit [OF assms(2)] by auto
  then have fits: "\<forall>(i, v) \<in> set (take k (log_writes tx)). length v = 512"
    by (rule subseq_fits [OF sub])
  have "crash_image (put_all put_blk (take k (log_writes tx)) w) f"
    using assms(3,4) same_disk_crash by metis
  with fits obtain old ys where o: "crash_image w old" "subseq ys (take k (log_writes tx))"
      "f = put_all put_img ys old"
    by (rule crash_image_batch)
  have ys: "subseq ys (log_writes tx)" using o(2) sub by (rule subseq_order.trans)
  have "commit_record f = commit_record old" "same_outside f old"
    using log_writes_commit_block [OF assms(2) ys] o(3) by simp_all
  moreover have "jc_magic (commit_record old) \<noteq> UFS_JOURNAL_COMMIT_MAGIC"
    using assms(1) o(1) by (simp add: no_pending_commit_def)
  ultimately show ?thesis using o(1) not_complete_without_commit by metis
qed

lemma crash_in_commit_record:
  assumes "coherent w" and "no_pending_commit w" and tx: "tx_wf tx" "tx_num_blocks tx \<noteq> 0"
    and "same_disk w1 (put_all put_blk (take k (commit_writes tx)) (synced (put_all put_blk (log_writes tx) w)))"
    and "crash_image w1 f"
  shows "(\<exists>old. crash_image w old \<and> same_outside (recovered_img f) old) \<or>
    same_outside (recovered_img f) (staged_img tx (img w))"
proof -
  have lens: "\<forall>(i, v) \<in> set (commit_writes tx). length v = 512" by (simp add: commit_writes_def)
  obtain ys where ys: "subseq ys (commit_writes tx)"
      "f = put_all put_img ys (put_all put_img (log_writes tx) (img w))"
    using crash_image_partial [OF _ _ lens assms(5,6)] by (auto simp: img_put_all)
  from ys(1) have "ys \<in> set (subseqs (commit_writes tx))" by simp
  then consider "ys = []" | "ys = commit_writes tx" by (auto simp: commit_writes_def Let_def)
  then show ?thesis
  proof cases
    case 1
    note log = log_writes_commit_block [OF tx(1) subseq_order.order_refl]
    have cur: "crash_image w (img w)" using assms(1) by (rule crash_image_current)
    then have "jc_magic (commit_record f) \<noteq> UFS_JOURNAL_COMMIT_MAGIC"
      using assms(2) ys(2) 1 log(1) by (simp add: no_pending_commit_def)
    then have "recovered_img f = f" by (rule not_complete_without_commit)
    with cur ys(2) 1 log(2) show ?thesis by auto
  next
    case 2
    then have "f = committed_img tx (img w)" using ys(2) by (simp add: committed_img_def)
    then show ?thesis using recovered_committed(2) [OF tx] by simp
  qed
qed

lemma crash_after_commit_record:
  assumes tx: "tx_wf tx" "tx_num_blocks tx \<noteq> 0" and v: "img v = committed_img tx g"
      "unsynced v = []" "stable v = img v"
    and stop: "stopped_in [staged tx, clears] v w1 \<or> same_disk w1 (run_batches [staged tx, clears] v)"
    and f: "crash_image w1 f"
  shows "same_outside (recovered_img f) (staged_img tx g)"
proof -
  let ?c = "committed_img tx g"
  have lens: "\<forall>(i, v) \<in> set (staged tx). length v = 512" "\<forall>(i, v) \<in> set clears. length v = 512"
    using staged_fit [OF tx(1)] by (auto simp: clears_def)
  have rec: "same_outside (recovered_img ?c) (staged_img tx g)"
    using recovered_committed(2) [OF tx] .
  have img4: "img (synced (put_all put_blk (staged tx) v)) = recovered_img ?c"
    using recovered_committed(1) [OF tx] by (simp add: img_put_all v(1) staged_img_def)
  note complete = committed_journal_complete [OF tx committed_img_journal(1) [OF tx(1)], of g]
  from stop consider
      (replay) k where "same_disk w1 (put_all put_blk (take k (staged tx)) v)"
    | (clear) k where "same_disk w1 (put_all put_blk (take k clears) (synced (put_all put_blk (staged tx) v)))"
    | (all) "same_disk w1 (synced (put_all put_blk clears (synced (put_all put_blk (staged tx) v))))"
    by (auto simp: stopped_in_Cons)
  then have "same_outside (recovered_img f) (recovered_img ?c)"
  proof cases
    case replay
    then obtain ys where "subseq ys (staged tx)" "f = put_all put_img ys ?c"
      using crash_image_partial [OF v(2,3) lens(1) replay f] v(1) by auto
    then show ?thesis using recovered_partial [OF complete(1)] by (simp add: complete(2))
  next
    case clear
    have "unsynced (synced (put_all put_blk (staged tx) v)) = []"
      "stable (synced (put_all put_blk (staged tx) v)) = img (synced (put_all put_blk (staged tx) v))"
      by simp_all
    then obtain ys where "subseq ys clears" "f = put_all put_img ys (recovered_img ?c)"
      using crash_image_partial [OF _ _ lens(2) clear f] img4 by auto
    then show ?thesis by (simp add: recovered_cleared)
  next
    case all
    then have "crash_image (synced (put_all put_blk clears (synced (put_all put_blk (staged tx) v)))) f"
      using f same_disk_crash by metis
    then have "f = put_all put_img clears (recovered_img ?c)" using img4 by (simp add: img_put_all)
    then show ?thesis by (simp add: recovered_cleared)
  qed
  then show ?thesis using rec by (rule same_outside_trans)
qed

lemma commit_crash_cases:
  assumes "steady w" and "coherent w" and "no_pending_commit w"
    and tx: "tx_wf tx" "tx_num_blocks tx \<noteq> 0"
    and run: "ufs_tx_commit tx w = (r, w1)" and f: "crash_image w1 f"
  shows "steady w1 \<and>
    (r = None \<and> (\<exists>old. crash_image w old \<and> same_outside (recovered_img f) old) \<or>
     same_outside (recovered_img f) (staged_img tx (img w)))"
proof -
  let ?bs = "[log_writes tx, commit_writes tx, staged tx, clears]"
  let ?v1 = "synced (put_all put_blk (log_writes tx) w)"
  let ?v = "synced (put_all put_blk (commit_writes tx) ?v1)"
  have img: "img ?v = committed_img tx (img w)" by (simp add: img_put_all committed_img_def)
  have "\<forall>xs \<in> set ?bs. \<forall>(i, v) \<in> set xs. i < UFS_TOTAL_BLOCKS \<and> length v = 512"
    using log_writes_fit [OF tx(1)] staged_fit [OF tx(1)] commit_writes_fit [of tx] by (simp add: clears_def)
  from batches_outcome [OF assms(1) this run [unfolded commit_batches [OF tx(2)]]]
  have out: "steady w1 \<and> (if r = None then stopped_in ?bs w w1 else same_disk w1 (run_batches ?bs w))" .
  then consider
      (log) k where "r = None" "same_disk w1 (put_all put_blk (take k (log_writes tx)) w)"
    | (marker) k where "r = None" "same_disk w1 (put_all put_blk (take k (commit_writes tx)) ?v1)"
    | (rest) "stopped_in [staged tx, clears] ?v w1 \<or> same_disk w1 (run_batches [staged tx, clears] ?v)"
    by (auto simp: stopped_in_Cons split: if_splits)
  then show ?thesis
  proof cases
    case log
    then show ?thesis using crash_in_log [OF assms(3) tx(1) _ f] out by blast
  next
    case marker
    then show ?thesis using crash_in_commit_record [OF assms(2,3) tx _ f] out by blast
  next
    case rest
    then show ?thesis using crash_after_commit_record [OF tx img _ _ rest f] out by simp
  qed
qed

lemma blk_staged_img:
  "tx_wf tx \<Longrightarrow> blk_of (staged_img tx g) b = (case map_of (staged tx) b of None \<Rightarrow> blk_of g b | Some v \<Rightarrow> v)"
  unfolding staged_img_def
  by (rule img_cells.get_put_all_distinct) (use staged_fit [of tx] in \<open>auto simp: tx_wf_def\<close>)

lemma blk_staged_world:
  "tx_wf tx \<Longrightarrow> blk_of (staged_img tx (img w)) b = (case map_of (staged tx) b of None \<Rightarrow> blk w b | Some v \<Rightarrow> v)"
  unfolding blk_def by (rule blk_staged_img)

lemma calm_reboot: "steady w \<Longrightarrow> calm (reboot f w)"
  by (simp add: steady_def calm_def reboot_def)

lemma reboot_fields [simp]: "img (reboot f w) = f" "stable (reboot f w) = f" "unsynced (reboot f w) = []"
  by (simp_all add: reboot_def)

section \<open>Properties\<close>

lemma recover_after_crash:
  assumes "steady w1" and "ufs_journal_recover (reboot f w1) = (r2, w2)"
  shows "r2 = Some ()" and "\<not> in_journal b \<Longrightarrow> blk w2 b = blk_of (recovered_img f) b"
    and "\<not> journal_complete (img w2)"
proof -
  obtain w3 where "ufs_journal_recover (reboot f w1) = (Some (), w3)"
    "same_outside (img w3) (recovered_img f)" "\<not> journal_complete (img w3)"
    using recover_calm [OF calm_reboot [OF assms(1), of f]] by (auto simp: reboot_fields)
  with assms(2) show "r2 = Some ()" and "\<not> in_journal b \<Longrightarrow> blk w2 b = blk_of (recovered_img f) b"
    and "\<not> journal_complete (img w2)"
    by (auto simp: same_outside_def blk_img)
qed

text \<open>C1: A transaction that starts with no commit record left over is atomic across crashes. The condition,
  \<open>no_pending_commit\<close>, is that no image which a crash just before the transaction could leave holds a commit record
  with a valid magic number. A commit that returned 0 leaves a world that meets it, but the code does not
  establish it in general, for example after a commit that failed between its second and its last sync; without it the
  transaction is not atomic, as the section on stale commit records shows. The other conditions are that the transaction
  is not empty and well formed, that the image is open with its full size and a transfer that does not fail moves at least
  a whole block (\<open>steady\<close>), and that the current image is the last synced one with the later writes (\<open>coherent\<close>).
  Take any pattern of failed, interrupted and retried
  system calls during \<open>ufs_tx_commit\<close> and any image a crash can leave then (the last synced bytes and
  any subset of the writes since). The next mount's \<open>ufs_journal_recover\<close> succeeds, and outside the
  journal area the blocks are either all those of one image a crash before the commit could have
  left, which is possible only if the commit had not returned 0, or all those of the image before
  with every staged block replaced.\<close>

theorem commit_crash_atomic:
  assumes "steady w" and "coherent w" and "no_pending_commit w"
    and "tx_wf tx" and "tx_num_blocks tx \<noteq> 0"
    and "ufs_tx_commit tx w = (r, w1)" and "crash_image w1 f"
    and "ufs_journal_recover (reboot f w1) = (r2, w2)"
  shows "r2 = Some () \<and>
    ((r = None \<and> (\<exists>old. crash_image w old \<and> (\<forall>b. \<not> in_journal b \<longrightarrow> blk w2 b = blk_of old b))) \<or>
     (\<forall>b. \<not> in_journal b \<longrightarrow>
        blk w2 b = (case map_of (staged tx) b of None \<Rightarrow> blk w b | Some v \<Rightarrow> v)))"
proof -
  note cases = commit_crash_cases [OF assms(1-7)]
  note rec = recover_after_crash [OF conjunct1 [OF cases] assms(8)]
  show ?thesis
    using cases rec by (auto simp: same_outside_def blk_staged_world [OF assms(4)])
qed

definition sample_tx :: ufs_transaction where
  "sample_tx = tx_push (zero_tx\<lparr>tx_seq := 1\<rparr>) 3000 (replicate 512 7)"

lemma tx_wf_sample: "tx_wf sample_tx" "tx_num_blocks sample_tx \<noteq> 0"
proof -
  have "tx_wf (zero_tx\<lparr>tx_seq := 1\<rparr>)" by (simp add: tx_wf_def zero_tx_def staged_def)
  then show "tx_wf sample_tx" unfolding sample_tx_def
    by (rule tx_wf_push) (simp_all add: zero_tx_def bad_target_def staged_def)
  show "tx_num_blocks sample_tx \<noteq> 0" by (simp add: sample_tx_def tx_push_def)
qed

lemma staged_sample: "staged sample_tx = [(3000, replicate 512 7)]"
proof -
  have "tx_wf (zero_tx\<lparr>tx_seq := 1\<rparr>)" by (simp add: tx_wf_def zero_tx_def staged_def)
  then show ?thesis
    unfolding sample_tx_def by (subst staged_push) (simp_all add: zero_tx_def staged_def)
qed

definition faulty_world :: "sysres list \<Rightarrow> world" where
  "faulty_world s = blank_world\<lparr>script := s\<rparr>"

lemma blank_commit_record: "commit_record (\<lambda>_. 0) = zero_commit"
proof -
  have "blk_of (\<lambda>_. 0) 2185 = enc_commit zero_commit"
    by (rule nth_equalityI) (simp_all add: nth_blk_of enc_commit_def zero_commit_def le32_def
        le_bytes_def nth_append nth_Cons' upt_rec)
  then show ?thesis by (simp add: commit_record_def)
qed

lemma faulty_world_ready:
  assumes "\<forall>r \<in> set s. case r of Xfer n \<Rightarrow> 512 \<le> n | Fault e \<Rightarrow> True"
  shows "steady (faulty_world s)" "coherent (faulty_world s)" "no_pending_commit (faulty_world s)"
  using assms
  by (simp_all add: steady_def sector_script_def coherent_def no_pending_commit_def faulty_world_def
      blank_world_def blank_commit_record zero_commit_def)

lemma crash_image_stable: "crash_image w (stable w)"
  unfolding crash_image_def by (rule exI [of _ "[]"]) simp

theorem commit_crash_atomic_witness:
  "let w = faulty_world [Xfer 512, Fault EINTR, Xfer 600, Fault EIO]; w1 = snd (ufs_tx_commit sample_tx w)
   in fst (ufs_journal_recover (reboot (stable w1) w1)) = Some ()"
proof -
  let ?w = "faulty_world [Xfer 512, Fault EINTR, Xfer 600, Fault EIO]"
  let ?w1 = "snd (ufs_tx_commit sample_tx ?w)"
  have "steady ?w" "coherent ?w" "no_pending_commit ?w" by (rule faulty_world_ready; simp)+
  from commit_crash_atomic [OF this tx_wf_sample _ crash_image_stable [of ?w1], of "fst (ufs_tx_commit sample_tx ?w)"
      "fst (ufs_journal_recover (reboot (stable ?w1) ?w1))" "snd (ufs_journal_recover (reboot (stable ?w1) ?w1))"]
  show ?thesis by (simp add: Let_def)
qed

lemma commit_done:
  assumes "steady w" and "tx_wf tx" and "tx_num_blocks tx \<noteq> 0"
    and "ufs_tx_commit tx w = (Some u, w1)"
  shows "(\<forall>b. \<not> in_journal b \<longrightarrow>
           blk w1 b = (case map_of (staged tx) b of None \<Rightarrow> blk w b | Some v \<Rightarrow> v)) \<and>
    stable w1 = img w1 \<and> unsynced w1 = [] \<and> \<not> journal_complete (img w1) \<and>
    steady w1 \<and> coherent w1 \<and> no_pending_commit w1"
proof -
  let ?bs = "[log_writes tx, commit_writes tx, staged tx, clears]"
  have "\<forall>xs \<in> set ?bs. \<forall>(i, v) \<in> set xs. i < UFS_TOTAL_BLOCKS \<and> length v = 512"
    using log_writes_fit [OF assms(2)] staged_fit [OF assms(2)] commit_writes_fit [of tx] by (simp add: clears_def)
  from batches_outcome [OF assms(1) this assms(4) [unfolded commit_batches [OF assms(3)]]]
  have w1: "steady w1" "same_disk w1 (run_batches ?bs w)" by auto
  then have img: "img w1 = put_all put_img clears (staged_img tx (committed_img tx (img w)))"
    and st: "stable w1 = img w1" and un: "unsynced w1 = []"
    by (simp_all add: same_disk_def img_put_all staged_img_def committed_img_def)
  let ?g = "staged_img tx (committed_img tx (img w))"
  have "same_outside (img w1) ?g" unfolding img by (rule clears_outside) simp
  moreover have "same_outside ?g (staged_img tx (img w))"
    using recovered_committed [OF assms(2,3), of "img w"] by simp
  ultimately have "same_outside (img w1) (staged_img tx (img w))" by (rule same_outside_trans)
  moreover have "\<not> journal_complete (img w1)" unfolding img by (rule clears_kill) (simp_all add: clears_def)
  moreover have "commit_record (img w1) = zero_commit"
    unfolding img commit_record_def by (simp add: clears_def img_cells.get_put)
  ultimately show ?thesis
    using w1(1) st un
    by (simp add: same_outside_def blk_staged_world [OF assms(2)] coherent_def no_pending_commit_def
        zero_commit_def blk_img [of w1])
qed

text \<open>C2: A commit that returns 0 has stored its transaction: every staged block is in place, every
  other block outside the journal area is unchanged, everything is on stable storage, the journal
  is empty, and the world satisfies again what the next commit assumes.\<close>

theorem commit_success:
  assumes "steady w" and "tx_wf tx" and "tx_num_blocks tx \<noteq> 0"
    and "ufs_tx_commit tx w = (Some u, w1)"
  shows "(\<forall>b. \<not> in_journal b \<longrightarrow>
           blk w1 b = (case map_of (staged tx) b of None \<Rightarrow> blk w b | Some v \<Rightarrow> v)) \<and>
    stable w1 = img w1 \<and> unsynced w1 = [] \<and> \<not> journal_complete (img w1) \<and>
    steady w1 \<and> coherent w1 \<and> no_pending_commit w1"
  by (rule commit_done [OF assms])

lemma yields_write_list:
  "\<forall>(i, v) \<in> set xs. i < UFS_TOTAL_BLOCKS \<and> length v = 512 \<Longrightarrow> yields (\<lambda>_. True) (write_list xs)"
  by (induction xs rule: write_list.induct) (auto intro!: yields_ret yields_on_ok [OF yields_write])

lemma yields_batches:
  "\<forall>xs \<in> set xss. \<forall>(i, v) \<in> set xs. i < UFS_TOTAL_BLOCKS \<and> length v = 512 \<Longrightarrow>
   yields (\<lambda>_. True) (batches xss)"
  by (induction xss)
    (auto simp: batch_def on_ok_assoc intro!: yields_ret yields_on_ok [OF yields_write_list] yields_on_ok [OF yields_sync])

lemma yields_commit:
  assumes "tx_wf tx" shows "yields (\<lambda>_. True) (ufs_tx_commit tx)"
proof (cases "tx_num_blocks tx = 0")
  case True
  then show ?thesis by (simp add: ufs_tx_commit_def yields_ret)
next
  case False
  have "\<forall>xs \<in> set [log_writes tx, commit_writes tx, staged tx, clears].
      \<forall>(i, v) \<in> set xs. i < UFS_TOTAL_BLOCKS \<and> length v = 512"
    using log_writes_fit [OF assms] staged_fit [OF assms] commit_writes_fit [of tx] by (simp add: clears_def)
  then show ?thesis unfolding commit_batches [OF False] by (rule yields_batches)
qed

lemma calm_commit_success:
  assumes "calm w" and "tx_wf tx"
  shows "\<exists>w1. ufs_tx_commit tx w = (Some (), w1) \<and> calm w1"
  using yields_commit [OF assms(2)] assms(1) by (auto simp: yields_def)

theorem commit_success_witness:
  "let w1 = snd (ufs_tx_commit sample_tx blank_world) in
   fst (ufs_tx_commit sample_tx blank_world) = Some () \<and> blk w1 3000 = replicate 512 7 \<and> unsynced w1 = []"
proof -
  obtain w1 where r: "ufs_tx_commit sample_tx blank_world = (Some (), w1)"
    using calm_commit_success [OF live_blank(2) tx_wf_sample(1)] by blast
  have "steady blank_world" by (simp add: steady_def sector_script_def blank_world_def)
  from commit_success [OF this tx_wf_sample r]
  have "blk w1 3000 = replicate 512 7" "unsynced w1 = []"
    by (auto simp: staged_sample in_journal_def)
  with r show ?thesis by (simp add: Let_def)
qed

text \<open>Without injected faults a commit of a well-formed transaction returns 0; together with
  the previous property this is its full functional behaviour. An empty transaction is committed without
  touching the disk.\<close>

lemma commit_returns:
  "(calm w \<and> tx_wf tx \<longrightarrow> fst (ufs_tx_commit tx w) = Some ()) \<and>
   (tx_num_blocks tx = 0 \<longrightarrow> ufs_tx_commit tx w = (Some (), w))"
  using calm_commit_success [of w tx] by (auto simp: ufs_tx_commit_def ret_def)

lemma commit_returns_witness:
  "fst (ufs_tx_commit sample_tx blank_world) = Some () \<and> ufs_tx_commit zero_tx blank_world = (Some (), blank_world)"
  using commit_returns [of blank_world sample_tx] commit_returns [of blank_world zero_tx] tx_wf_sample
  by (simp add: zero_tx_def)

text \<open>C7: Recovery can be repeated. If the run of \<open>ufs_journal_recover\<close> on a crash image is itself cut
  short by failing system calls or by another crash, every image left then recovers to the same
  blocks outside the journal area as an undisturbed run on the first image.\<close>

theorem recovery_restartable:
  assumes "steady w" and "ufs_journal_recover (reboot g w\<lparr>script := s\<rparr>) = (r1, w1)"
    and "\<forall>x \<in> set s. case x of Xfer n \<Rightarrow> UFS_BLOCK_SIZE \<le> n | Fault e \<Rightarrow> True"
    and "crash_image w1 f" and "ufs_journal_recover (reboot f w1) = (r2, w2)"
    and "ufs_journal_recover (reboot g w) = (r3, w3)" and "\<not> in_journal b"
  shows "r2 = Some () \<and> blk w2 b = blk w3 b \<and> \<not> journal_complete (img w2)"
proof -
  let ?v = "reboot g w\<lparr>script := s\<rparr>"
  have v: "steady ?v" "unsynced ?v = []" "stable ?v = img ?v" "img ?v = g"
    using assms(1,3) by (simp_all add: steady_def sector_script_def reboot_def)
  have w1: "steady w1" using recover_outcome [OF v(1) assms(2)] by simp
  have "same_outside (recovered_img f) (recovered_img g)"
    using crash_in_recovery [OF v(1-3) assms(2,4)] v(4) by simp
  then show ?thesis
    using recover_after_crash [OF w1 assms(5)] recover_after_crash [OF assms(1,6)] assms(7)
    by (simp add: same_outside_def)
qed

theorem recovery_restartable_witness:
  "let v = reboot (\<lambda>_. 0) blank_world\<lparr>script := [Fault EIO]\<rparr>; w1 = snd (ufs_journal_recover v);
       w2 = snd (ufs_journal_recover (reboot (stable w1) w1));
       w3 = snd (ufs_journal_recover (reboot (\<lambda>_. 0) blank_world))
   in blk w2 5 = blk w3 5"
proof -
  let ?v = "reboot (\<lambda>_. 0) blank_world\<lparr>script := [Fault EIO]\<rparr>"
  let ?w1 = "snd (ufs_journal_recover ?v)"
  have st: "steady blank_world" by (simp add: steady_def sector_script_def blank_world_def)
  show ?thesis
    using recovery_restartable [OF st, where g = "\<lambda>_. 0" and s = "[Fault EIO]" and f = "stable ?w1" and b = 5,
        OF surjective_pairing _ _ surjective_pairing surjective_pairing] crash_image_stable [of ?w1]
    by (simp add: Let_def in_journal_def)
qed

text \<open>C29: What recovery does to an image without faults. A journal with a sane header, a commit
  record of the same sequence number, targets outside the journal and a matching checksum is
  replayed: every target block gets its last logged image. Any other journal is discarded and no
  block outside the journal area changes. In both cases nothing is left to replay.\<close>

theorem recovery_replays_or_discards:
  assumes "calm w"
  shows "\<exists>w1. ufs_journal_recover w = (Some (), w1) \<and> calm w1 \<and> \<not> journal_complete (img w1) \<and>
    (\<forall>b. \<not> in_journal b \<longrightarrow> blk w1 b =
       (if journal_complete (img w)
        then (case map_of (rev (journal_entries (img w))) b of None \<Rightarrow> blk w b | Some v \<Rightarrow> v)
        else blk w b))"
proof -
  obtain w1 where r: "ufs_journal_recover w = (Some (), w1)" "calm w1"
    "same_outside (img w1) (recovered_img (img w))" "\<not> journal_complete (img w1)"
    using recover_calm [OF assms] by blast
  have "blk_of (recovered_img (img w)) b = (if journal_complete (img w)
      then (case map_of (rev (journal_entries (img w))) b of None \<Rightarrow> blk w b | Some v \<Rightarrow> v)
      else blk w b)" for b
    using img_cells.get_put_all [OF entries_length, of "img w" "img w" b]
    by (simp add: recovered_img_def blk_def cong: option.case_cong)
  with r show ?thesis by (auto simp: same_outside_def blk_img [of w1])
qed

theorem recovery_replays_or_discards_witness:
  "\<exists>w1. ufs_journal_recover blank_world = (Some (), w1) \<and> calm w1"
  using recovery_replays_or_discards [OF live_blank(2)] by blast

section \<open>A stale commit record\<close>

lemma write_block_xfer:
  assumes "script w = Xfer n # s" and "512 \<le> n" and "0 \<le> ufs_fd w" and "b < UFS_TOTAL_BLOCKS"
    and "length buf = 512"
  shows "ufs_write_block b buf w = (Some (), put_blk b buf (w\<lparr>script := s\<rparr>))"
proof -
  have finished: "write_exact buf off 512 v = (Some (), v)" for v off
    using assms(5) by (subst write_exact.simps) simp
  show ?thesis
    using assms by (simp add: ufs_write_block_def asking_def)
      (subst write_exact.simps, simp add: pwrite_def syscall_def limited_def Let_def modify_def ret_def
        finished put_blk_def)
qed

lemma write_block_fault:
  assumes "script w = Fault e # s" and "e \<noteq> EINTR" and "0 \<le> ufs_fd w" and "b < UFS_TOTAL_BLOCKS"
    and "length buf = 512"
  shows "ufs_write_block b buf w = (None, w\<lparr>script := s, errno := e\<rparr>)"
  using assms by (simp add: ufs_write_block_def asking_def)
    (subst write_exact.simps, simp add: pwrite_def syscall_def)

definition stale_commit :: "world \<Rightarrow> ufs_transaction \<Rightarrow> bool" where
  "stale_commit w tx \<longleftrightarrow> jh_magic (journal_header (img w)) \<noteq> UFS_JOURNAL_MAGIC \<and>
     jc_magic (commit_record (img w)) = UFS_JOURNAL_COMMIT_MAGIC \<and>
     jc_seq (commit_record (img w)) = tx_seq tx"

lemma stale_commit_completes:
  assumes tx: "tx_wf tx" "staged tx = [(t, v)]" and "stale_commit w tx"
    and sum: "calculate_checksum (blk w 139) = calculate_checksum v"
  defines "f \<equiv> put_img 138 (enc_header (tx_header tx)) (img w)"
  shows "journal_complete f" and "journal_entries f = [(t, blk w 139)]"
proof -
  have n: "tx_num_blocks tx = 1" using tx(2) length_staged [of tx] by simp
  have tv: "tx_target_blocks tx ! 0 = t" "tx_buffers tx ! 0 = v"
    using tx(2) nth_staged [of 0 tx] n by simp_all
  have t: "t < UFS_TOTAL_BLOCKS" "\<not> bad_target t" using tx by (auto simp: tx_wf_def not_bad_target)
  have b: "blk_of f c = (if c = 138 then enc_header (tx_header tx) else blk w c)" for c
    using tx(1) by (simp add: f_def img_cells.get_put blk_img)
  have h: "journal_header f = tx_header tx" using tx(1) by (simp add: journal_header_def b)
  have r: "commit_record f = commit_record (img w)" by (simp add: commit_record_def b blk_img)
  have num: "unat (jh_num_blocks (tx_header tx)) = 1" by (simp add: tx_header_def n)
  have u: "unat (of_nat t :: u32) = t" using t by (simp add: unat_of_nat)
  have tg: "journal_targets f = [t]"
    by (simp add: journal_targets_def h num) (simp add: tx_header_def n tv u)
  have bf: "journal_buffers f = [blk w 139]" by (simp add: journal_buffers_def h num b)
  show "journal_entries f = [(t, blk w 139)]" by (simp add: journal_entries_def tg bf)
  show "journal_complete f"
    unfolding journal_complete_def h r tg bf using assms(3) t sum num
    by (auto simp: stale_commit_def payload_sum_def tx_header_def n tv)
qed

text \<open>C28: The atomicity hypothesis on commit records is needed, and the sources do not establish it
  in every run. \<open>ufs_journal_recover\<close> returns at a header without magic and leaves the commit record
  block as it is (a crash while the journal is cleared can produce this state), and each process
  numbers its transactions from 1 again. If the leftover record has the sequence number of the next
  transaction and the old log block has the same byte sum as the staged one, then a crash right
  after the new header was written makes the next mount replay the old log block into the target:
  neither the old nor the staged contents.\<close>

theorem stale_commit_record_replays_old_log:
  assumes "calm w" and "stale_commit w tx" and "tx_wf tx" and "staged tx = [(t, v)]"
    and "calculate_checksum (blk w 139) = calculate_checksum v"
  shows "ufs_journal_recover w = (Some (), w) \<and>
    (\<exists>w1 f. ufs_tx_commit tx (w\<lparr>script := [Xfer UFS_BLOCK_SIZE, Fault EIO]\<rparr>) = (None, w1) \<and>
       (coherent w \<longrightarrow> crash_image w1 f) \<and> blk_of (recovered_img f) t = blk w 139)"
proof -
  let ?w = "w\<lparr>script := [Xfer 512, Fault EIO]\<rparr>"
  let ?h = "enc_header (tx_header tx)"
  have n: "tx_num_blocks tx = 1" using assms(4) length_staged [of tx] by simp
  have fd: "0 \<le> ufs_fd w" using assms(1) by (simp add: calm_def)
  have v: "length (tx_buffers tx ! 0) = 512" using assms(3) n by (simp add: tx_wf_def)
  obtain w1 where run: "ufs_tx_commit tx ?w = (None, w1)" and img: "img w1 = put_img 138 ?h (img w)"
      and st: "stable w1 = stable w" and un: "unsynced w1 = unsynced w @ [(138 * 512, ?h)]"
    using fd v assms(3)
    by (simp add: ufs_tx_commit_def n run_simps write_block_xfer write_block_fault)
      (simp add: put_blk_def put_img_def store_bytes_def)
  have "ufs_journal_recover w = (Some (), w)"
    using assms(1,2) by (simp add: recover_unfold io_simps run_simps stale_commit_def journal_header_def
        blk_img ret_def)
  moreover have "coherent w \<Longrightarrow> coherent w1"
    by (simp add: coherent_def img st un put_img_def)
  then have "coherent w \<longrightarrow> crash_image w1 (img w1)" using crash_image_current by blast
  moreover have "blk_of (recovered_img (img w1)) t = blk w 139"
    using stale_commit_completes [OF assms(3,4,2,5)] by (simp add: img recovered_img_def img_cells.get_put)
  ultimately show ?thesis using run by blast
qed

lemma foldl_sum: "foldl (\<lambda>s b. s + f b) a xs = a + sum_list (map f xs)" for a :: "'a::comm_monoid_add"
  by (induction xs arbitrary: a) (simp_all add: add.assoc)

lemma checksum_sum: "calculate_checksum bs = sum_list (map ucast bs)"
  by (simp add: calculate_checksum_def foldl_sum)

lemma checksum_append: "calculate_checksum (xs @ ys) = calculate_checksum xs + calculate_checksum ys"
  by (simp add: checksum_sum)

lemma checksum_replicate: "calculate_checksum (replicate n b) = of_nat n * ucast b"
  by (induction n) (simp_all add: checksum_sum algebra_simps)

definition old_log_block :: bytes where
  "old_log_block = replicate 256 6 @ replicate 256 8"

lemma length_old_log_block: "length old_log_block = 512"
  by (simp add: old_log_block_def)

lemma old_log_first: "old_log_block ! 0 = 6"
  unfolding old_log_block_def by (subst nth_append) (simp only: length_replicate nth_replicate, simp)

definition stale_world :: world where
  "stale_world = synced (put_blk 139 old_log_block
     (put_blk 2185 (enc_commit (tx_commit_record sample_tx)) blank_world))"

lemma blank_3000: "blk blank_world 3000 ! 0 = 0"
  by (simp add: blk_def nth_blk_of) (simp add: blank_world_def)

lemma stale_world_ready:
  "calm stale_world" "stale_commit stale_world sample_tx" "coherent stale_world"
  "blk stale_world 139 = old_log_block"
proof -
  have len: "length old_log_block = 512" by (simp add: old_log_block_def)
  show "calm stale_world" "coherent stale_world" "blk stale_world 139 = old_log_block"
    using len by (simp_all add: stale_world_def)
  have c: "commit_record (img stale_world) = tx_commit_record sample_tx"
    using len by (simp add: commit_record_def stale_world_def flip: blk_img)
  have "journal_header (img stale_world) = dec_header (blk blank_world 138)"
    using len by (simp add: journal_header_def stale_world_def flip: blk_img)
  moreover have "field 0 4 (blk blank_world 138) = le32 0"
    by (rule nth_equalityI)
      (simp_all add: nth_field blk_def nth_blk_of blank_world_def le32_def nth_le_bytes)
  ultimately have "jh_magic (journal_header (img stale_world)) = 0"
    by (simp add: dec_header_def)
  with c show "stale_commit stale_world sample_tx"
    by (simp add: stale_commit_def tx_commit_record_def)
qed

theorem stale_commit_record_replays_old_log_witness:
  "\<exists>w1 f. ufs_tx_commit sample_tx (stale_world\<lparr>script := [Xfer 512, Fault EIO]\<rparr>) = (None, w1) \<and>
     crash_image w1 f \<and> blk_of (recovered_img f) 3000 = old_log_block \<and>
     old_log_block \<noteq> replicate 512 7 \<and> old_log_block \<noteq> blk stale_world 3000"
proof -
  have "calculate_checksum (blk stale_world 139) = calculate_checksum (replicate 512 7)"
    by (simp add: stale_world_ready old_log_block_def checksum_append checksum_replicate)
  from stale_commit_record_replays_old_log [OF stale_world_ready(1,2) tx_wf_sample(1) staged_sample this]
  obtain w1 f where w1: "ufs_tx_commit sample_tx (stale_world\<lparr>script := [Xfer 512, Fault EIO]\<rparr>) = (None, w1)"
    "crash_image w1 f" "blk_of (recovered_img f) 3000 = old_log_block"
    using stale_world_ready(3,4) by auto
  have "blk stale_world 3000 ! 0 = 0"
    using blank_3000 length_old_log_block by (simp add: stale_world_def)
  then have "old_log_block \<noteq> blk stale_world 3000" using old_log_first by auto
  moreover have "old_log_block \<noteq> replicate 512 7"
  proof
    assume "old_log_block = replicate 512 7"
    then have "old_log_block ! 0 = replicate 512 7 ! 0" by (rule arg_cong)
    also have "\<dots> = 7" by (rule nth_replicate) simp
    finally show False using old_log_first by simp
  qed
  ultimately show ?thesis using w1 by blast
qed

end
