(* ===== verification/Ufs_Attr.thy ===== *)
theory Ufs_Attr
  imports Ufs_Namespace Ufs_Commit
begin

text \<open>
  The operations on the metadata of a path: \<open>ufs_chmod\<close>, \<open>ufs_chown\<close>, \<open>ufs_access\<close> and
  \<open>ufs_utimens\<close> of \<open>src/metadata.c\<close> and \<open>ufs_truncate\<close> of \<open>src/userfs_storage.c\<close>. They change one inode
  through a journal transaction (\<open>persist_inode\<close>).
\<close>

section \<open>Functions\<close>

definition persist_inode :: "nat \<Rightarrow> ufs_inode \<Rightarrow> unit op" where
  "persist_inode inode_number inode =
     on_ok ufs_tx_begin (\<lambda>tx.
     on_ok (ufs_tx_stage_inode tx inode_number inode) (\<lambda>tx.
     ufs_tx_commit tx))"

definition get_inode_from_path :: "string \<Rightarrow> (nat \<times> ufs_inode) op" where
  "get_inode_from_path path =
     require (path \<noteq> []) EINVAL (
     on_ok (resolve_path_ex path 0) (\<lambda>inode_number.
     on_ok (read_inode inode_number) (\<lambda>inode. ret (inode_number, inode))))"

text \<open>The mask 07777 is 0xFFF.\<close>

definition ufs_chmod :: "string \<Rightarrow> u32 \<Rightarrow> unit op" where
  "ufs_chmod path mode = asking ufs_mounted (\<lambda>m.
     require m ENODEV (
     require (\<not> (path = [] \<or> mode AND NOT 0xFFF \<noteq> 0)) EINVAL (
     with_lock ufs_operation_write_lock (
       on_ok (get_inode_from_path path) (\<lambda>(inode_number, inode).
       asking euid (\<lambda>caller_uid.
       require (\<not> (caller_uid \<noteq> 0 \<and> caller_uid \<noteq> ino_uid inode)) EPERM (
       on_ok (ufs_touch_ctime (inode\<lparr>ino_mode := (ino_mode inode AND NOT 0xFFF) OR (mode AND 0xFFF)\<rparr>)) (\<lambda>inode.
       persist_inode inode_number inode))))))))"

definition caller_is_member_of_gid :: "u32 \<Rightarrow> bool op" where
  "caller_is_member_of_gid gid = asking (\<lambda>w. (egid w, sup_groups w)) (\<lambda>(own, groups).
     if own = gid then ret True
     else on_ok plain_call (\<lambda>_.
       if groups = [] then ret False
       else attempt plain_call (\<lambda>_. on_ok plain_call (\<lambda>_. ret (gid \<in> set groups))) (fail ENOMEM)))"

text \<open>What the caller may change; -1 leaves the owner or the group as it is.\<close>

definition chown_inode :: "u32 \<Rightarrow> u32 \<Rightarrow> ufs_inode \<Rightarrow> ufs_inode op" where
  "chown_inode uid gid inode = asking euid (\<lambda>caller_uid.
     if caller_uid = 0 then
       ret (inode\<lparr>ino_uid := (if uid \<noteq> - 1 then uid else ino_uid inode),
                  ino_gid := (if gid \<noteq> - 1 then gid else ino_gid inode)\<rparr>)
     else
       require (caller_uid = ino_uid inode) EPERM (
       require (\<not> (uid \<noteq> - 1 \<and> uid \<noteq> ino_uid inode)) EPERM (
       if gid \<noteq> - 1 \<and> gid \<noteq> ino_gid inode then
         on_ok (caller_is_member_of_gid gid) (\<lambda>group_member.
         require group_member EPERM (ret (inode\<lparr>ino_gid := gid\<rparr>)))
       else ret inode)))"

definition ufs_chown :: "string \<Rightarrow> u32 \<Rightarrow> u32 \<Rightarrow> unit op" where
  "ufs_chown path uid gid = asking ufs_mounted (\<lambda>m.
     require m ENODEV (
     require (path \<noteq> []) EINVAL (
     with_lock ufs_operation_write_lock (
       on_ok (get_inode_from_path path) (\<lambda>(inode_number, inode).
       on_ok (chown_inode uid gid inode) (\<lambda>inode.
       on_ok (ufs_touch_ctime inode) (\<lambda>inode.
       persist_inode inode_number inode)))))))"

definition ufs_access :: "string \<Rightarrow> u32 \<Rightarrow> unit op" where
  "ufs_access path mode = asking ufs_mounted (\<lambda>m.
     require m ENODEV (
     require (path \<noteq> []) EINVAL (
     on_ok (valid_access_mode mode) (\<lambda>_.
     with_lock ufs_operation_read_lock (
       on_ok (get_inode_from_path path) (\<lambda>(inode_number, inode).
       ufs_check_access_inode inode mode))))))"

definition valid_timespec :: "timespec \<Rightarrow> unit op" where
  "valid_timespec t = require (\<not> (sint (tv_nsec t) < 0 \<or> 999999999 < sint (tv_nsec t))) EINVAL (ret ())"

definition utimens_inode :: "(timespec \<times> timespec) option \<Rightarrow> ufs_inode \<Rightarrow> ufs_inode op" where
  "utimens_inode ts inode =
     (case ts of
        None \<Rightarrow> on_ok ufs_get_current_disk_time (\<lambda>now. ret (inode\<lparr>ino_atime := now, ino_mtime := now\<rparr>))
      | Some (t0, t1) \<Rightarrow> ret (inode\<lparr>ino_atime := ufs_timespec_to_disk_time t0 (ino_atime inode),
                                    ino_mtime := ufs_timespec_to_disk_time t1 (ino_mtime inode)\<rparr>))"

definition ufs_utimens :: "string \<Rightarrow> (timespec \<times> timespec) option \<Rightarrow> unit op" where
  "ufs_utimens path ts = asking ufs_mounted (\<lambda>m.
     require m ENODEV (
     require (path \<noteq> []) EINVAL (
     on_ok (case ts of None \<Rightarrow> ret ()
            | Some (t0, t1) \<Rightarrow> on_ok (valid_timespec t0) (\<lambda>_. valid_timespec t1)) (\<lambda>_.
     with_lock ufs_operation_write_lock (
       on_ok (get_inode_from_path path) (\<lambda>(inode_number, inode).
       asking euid (\<lambda>caller_uid.
       require (\<not> (caller_uid \<noteq> 0 \<and> caller_uid \<noteq> ino_uid inode)) EPERM (
       on_ok (utimens_inode ts inode) (\<lambda>inode.
       on_ok (ufs_touch_ctime inode) (\<lambda>inode.
       persist_inode inode_number inode))))))))))"

definition ufs_truncate_unlocked :: "string \<Rightarrow> u64 \<Rightarrow> unit op" where
  "ufs_truncate_unlocked path new_size = asking ufs_mounted (\<lambda>m.
     require m ENODEV (
     on_ok (resolve_path path) (\<lambda>inode_num.
     on_ok (read_inode inode_num) (\<lambda>inode.
     require (ino_type inode \<noteq> UFS_TYPE_DIR) EISDIR (
     require (ino_type inode = UFS_TYPE_FILE) EINVAL (
     on_ok (ufs_check_access_inode inode W_OK) (\<lambda>_.
     on_ok (with_inode (ufs_truncate_inode inode_num new_size) inode) (\<lambda>inode.
     on_ok (ufs_touch_mtime_ctime inode) (\<lambda>inode.
     persist_inode inode_num inode)))))))))"

definition ufs_truncate :: "string \<Rightarrow> u64 \<Rightarrow> unit op" where
  "ufs_truncate path new_size = with_lock ufs_operation_write_lock (ufs_truncate_unlocked path new_size)"

section \<open>Who may change the owner\<close>

definition may_chown :: "world \<Rightarrow> u32 \<Rightarrow> u32 \<Rightarrow> ufs_inode \<Rightarrow> bool" where
  "may_chown w uid gid inode \<longleftrightarrow> euid w = 0 \<or>
     euid w = ino_uid inode \<and> uid \<in> {- 1, ino_uid inode} \<and>
     gid \<in> {- 1, ino_gid inode, egid w} \<union> set (sup_groups w)"

definition chowned :: "u32 \<Rightarrow> u32 \<Rightarrow> ufs_inode \<Rightarrow> ufs_inode" where
  "chowned uid gid inode = inode\<lparr>ino_uid := (if uid = - 1 then ino_uid inode else uid),
     ino_gid := (if gid = - 1 then ino_gid inode else gid)\<rparr>"

lemma caller_is_member_calm [io_simps]:
  "script w = [] \<Longrightarrow> caller_is_member_of_gid gid w = (Some (gid = egid w \<or> gid \<in> set (sup_groups w)), w)"
  by (auto simp: caller_is_member_of_gid_def asking_def ret_def on_ok_Some attempt_Some plain_call_calm)

text \<open>The decision of \<open>ufs_chown\<close>, on the inode it has read: the superuser may set any owner and group; the owner of
  a file may keep the owner and set the group to one he is a member of; any other request fails with EPERM. A -1
  leaves the owner or the group as it is.\<close>

lemma chown_rule:
  assumes "script w = []"
  shows "chown_inode uid gid inode w =
    (if may_chown w uid gid inode then (Some (chowned uid gid inode), w) else (None, w\<lparr>errno := EPERM\<rparr>))"
proof -
  have keep: "inode = inode\<lparr>ino_uid := ino_uid inode, ino_gid := ino_gid inode\<rparr>" by simp
  have run: "on_ok (caller_is_member_of_gid gid) (\<lambda>g. require g EPERM (ret x)) w =
      (if gid = egid w \<or> gid \<in> set (sup_groups w) then (Some x, w) else (None, w\<lparr>errno := EPERM\<rparr>))" for x :: ufs_inode
    using assms by (simp add: on_ok_Some io_simps ret_def fail_def)
  show ?thesis
    using assms run
    by (auto simp: chown_inode_def may_chown_def chowned_def asking_def require_def ret_def fail_def)
qed

end
