(* ===== verification/Ufs_FileIO.thy ===== *)
theory Ufs_FileIO
  imports Ufs_Attr
begin

text \<open>
  Open files of \<open>src/file_io.c\<close>: open, close, read, write and seek on the descriptor table. Offsets
  are 64-bit words; \<open>count\<close> is a \<open>size_t\<close> as a natural number, \<open>moved\<close> the bytes moved so far. A
  read or write that fails after the first block returns the bytes moved, which the loops report
  with the flag \<open>False\<close>.
\<close>

section \<open>Open and close\<close>

definition ufs_open_unlocked :: "string \<Rightarrow> u32 \<Rightarrow> nat op" where
  "ufs_open_unlocked path flags =
     on_ok require_mounted (\<lambda>_.
     on_ok (validate_open_flags flags) (\<lambda>_.
     on_ok (resolve_path_ex path UFS_RESOLVE_FOLLOW_FINAL) (\<lambda>inode_number.
     on_ok (read_inode inode_number) (\<lambda>inode.
     require (ino_type inode \<noteq> UFS_TYPE_DIR) EISDIR (
     require (ino_type inode = UFS_TYPE_FILE) EINVAL (
     on_ok (ufs_check_access_inode inode
         ((if flags AND UFS_O_RDWR \<noteq> UFS_O_WRONLY then R_OK else 0) OR
          (if flags AND UFS_O_RDWR \<noteq> UFS_O_RDONLY then W_OK else 0))) (\<lambda>_.
     on_ok allocate_descriptor (\<lambda>fd.
     modify (set_descriptor fd \<lparr>fde_in_use = True, fde_inode_number = of_nat inode_number,
        fde_inode_generation = ino_generation inode, fde_offset = 0, fde_flags = flags\<rparr>) (ret fd)))))))))"

definition ufs_close_unlocked :: "int \<Rightarrow> unit op" where
  "ufs_close_unlocked fd =
     on_ok require_mounted (\<lambda>_.
     on_ok (validate_descriptor fd) (\<lambda>k.
     modify (set_descriptor k zero_descriptor) (ret ())))"

section \<open>Positions\<close>

definition block_of_position :: "u64 \<Rightarrow> nat" where
  "block_of_position p = unat (ucast (p div of_nat UFS_BLOCK_SIZE) :: u32)"

definition inside_block :: "u64 \<Rightarrow> nat" where
  "inside_block p = unat (p mod of_nat UFS_BLOCK_SIZE)"

definition chunk_at :: "u64 \<Rightarrow> nat \<Rightarrow> nat" where
  "chunk_at p left = (if left < UFS_BLOCK_SIZE - inside_block p then left else UFS_BLOCK_SIZE - inside_block p)"

lemma inside_block_less: "inside_block p < 512"
proof -
  have "unat (p mod 512) = unat p mod 512" by (simp add: unat_mod)
  then show ?thesis by (simp add: inside_block_def)
qed

lemma chunk_at_pos: "0 < left \<Longrightarrow> 0 < chunk_at p left"
  using inside_block_less [of p] by (simp add: chunk_at_def)

lemma chunk_at_le: "chunk_at p left \<le> left"
  by (simp add: chunk_at_def)

text \<open>The block behind a position, with EIO for a missing one.\<close>

definition mapped_block :: "ufs_inode \<Rightarrow> u64 \<Rightarrow> nat op" where
  "mapped_block inode position =
     on_ok (get_inode_data_block inode (block_of_position position)) (\<lambda>physical.
     require (physical \<noteq> UFS_INVALID_BLOCK) EIO (ret (unat physical)))"

section \<open>Read\<close>

function read_loop :: "nat \<Rightarrow> ufs_inode \<Rightarrow> nat \<Rightarrow> nat \<Rightarrow> bytes \<Rightarrow> (bytes \<times> bool) op" where
  "read_loop fd inode count moved buf w =
     (if moved < count then
        (let position = fde_offset (descriptor fd w); chunk = chunk_at position (count - moved) in
         case on_ok (mapped_block inode position) ufs_read_block w of
           (None, w) \<Rightarrow> if 0 < moved then (Some (buf, False), w) else (None, w)
         | (Some block, w) \<Rightarrow>
             read_loop fd inode count (moved + chunk) (buf @ field (inside_block position) chunk block)
               (set_offset fd (position + of_nat chunk) w))
      else (Some (buf, True), w))"
  by pat_completeness auto
termination
  by (relation "measure (\<lambda>(fd, inode, count, moved, buf, w). count - moved)")
    (simp_all add: diff_less_mono2 chunk_at_pos)

declare read_loop.simps [simp del]

text \<open>\<open>saved_errno = errno; (void)m; errno = saved_errno;\<close>\<close>

definition keeping_errno :: "'a op \<Rightarrow> 'b op \<Rightarrow> 'b op" where
  "keeping_errno m k w = k ((snd (m w))\<lparr>errno := errno w\<rparr>)"

definition ufs_read_unlocked :: "int \<Rightarrow> nat \<Rightarrow> bytes op" where
  "ufs_read_unlocked fd count =
     on_ok require_mounted (\<lambda>_.
     on_ok (validate_descriptor fd) (\<lambda>k.
     asking (descriptor k) (\<lambda>d.
     require (descriptor_can_read d) EBADF (
     if count = 0 then ret [] else
     require (count \<le> 2 ^ 63 - 1) EINVAL (
     on_ok (read_inode (unat (fde_inode_number d))) (\<lambda>inode.
     require (ino_generation inode = fde_inode_generation d) EBADF (
     if ino_size inode \<le> fde_offset d then ret []
     else
       let available = unat (ino_size inode - fde_offset d);
           count = (if available < count then available else count) in
       on_ok (read_loop k inode count 0 []) (\<lambda>(buf, complete).
       if \<not> complete then ret buf
       else
         on_ok (attempt (ufs_should_update_atime inode) ret (ret False)) (\<lambda>update.
         if update then
           keeping_errno (on_ok (ufs_touch_atime inode) (persist_inode (unat (fde_inode_number d)))) (ret buf)
         else ret buf)))))))))"

section \<open>Write\<close>

text \<open>A full block is written without reading it first.\<close>

definition write_chunk :: "nat \<Rightarrow> nat \<Rightarrow> bytes \<Rightarrow> unit op" where
  "write_chunk physical inside data =
     on_ok (if inside = 0 \<and> length data = UFS_BLOCK_SIZE then ret data
            else on_ok (ufs_read_block physical) (\<lambda>block. ret (overlay inside data block)))
     (ufs_write_block physical)"

function write_loop :: "nat \<Rightarrow> ufs_inode \<Rightarrow> u64 \<Rightarrow> bytes \<Rightarrow> nat \<Rightarrow> (nat \<times> bool) op" where
  "write_loop fd inode start buf moved w =
     (if moved < length buf then
        (let position = start + of_nat moved; chunk = chunk_at position (length buf - moved) in
         case on_ok (mapped_block inode position) (\<lambda>physical.
             write_chunk physical (inside_block position) (field moved chunk buf)) w of
           (None, w) \<Rightarrow>
             if 0 < moved then (Some (moved, False), set_offset fd (start + of_nat moved) w) else (None, w)
         | (Some _, w) \<Rightarrow> write_loop fd inode start buf (moved + chunk) w)
      else (Some (moved, True), w))"
  by pat_completeness auto
termination
  by (relation "measure (\<lambda>(fd, inode, start, buf, moved, w). length buf - moved)")
    (simp_all add: diff_less_mono2 chunk_at_pos)

declare write_loop.simps [simp del]

definition ufs_write_unlocked :: "int \<Rightarrow> bytes \<Rightarrow> nat op" where
  "ufs_write_unlocked fd buf =
     on_ok require_mounted (\<lambda>_.
     on_ok (validate_descriptor fd) (\<lambda>k.
     asking (descriptor k) (\<lambda>d.
     require (descriptor_can_write d) EBADF (
     if length buf = 0 then ret 0 else
     require (length buf \<le> 2 ^ 63 - 1) EINVAL (
     on_ok (read_inode (unat (fde_inode_number d))) (\<lambda>inode.
     require (ino_generation inode = fde_inode_generation d) EBADF (
     modify (if fde_flags d AND UFS_O_APPEND \<noteq> 0 then set_offset k (ino_size inode) else id) (
     asking (fde_offset \<circ> descriptor k) (\<lambda>start.
     require (\<not> (2 ^ 64 - 1 - unat start < length buf \<or> 2 ^ 63 - 1 < unat start + length buf)) EFBIG (
     let end_pos = start + of_nat (length buf) in
     on_ok (if ino_size inode < end_pos
            then with_inode (ufs_truncate_inode (unat (fde_inode_number d)) end_pos) inode
            else ret inode) (\<lambda>inode.
     on_ok (write_loop k inode start buf 0) (\<lambda>(moved, complete).
     if \<not> complete then ret moved
     else
       modify (set_offset k (start + of_nat moved)) (
       on_ok (ufs_touch_mtime_ctime inode) (\<lambda>inode.
       on_ok (persist_inode (unat (fde_inode_number d)) inode) (\<lambda>_. ret moved)))))))))))))))"

section \<open>Seek\<close>

definition add_seek_offset :: "u64 \<Rightarrow> u64 \<Rightarrow> u64 op" where
  "add_seek_offset base change =
     (if 0 \<le> sint change then
        require (\<not> (of_nat (2 ^ 63 - 1) - change < base)) EINVAL (ret (base + change))
      else
        let magnitude = - (change + 1) + 1 in
        require (\<not> (base < magnitude)) EINVAL (ret (base - magnitude)))"

abbreviation (input) SEEK_SET :: int where "SEEK_SET \<equiv> 0"
abbreviation (input) SEEK_CUR :: int where "SEEK_CUR \<equiv> 1"
abbreviation (input) SEEK_END :: int where "SEEK_END \<equiv> 2"

definition ufs_seek_unlocked :: "int \<Rightarrow> u64 \<Rightarrow> int \<Rightarrow> u64 op" where
  "ufs_seek_unlocked fd offset whence =
     on_ok require_mounted (\<lambda>_.
     on_ok (validate_descriptor fd) (\<lambda>k.
     asking (descriptor k) (\<lambda>d.
     on_ok (read_inode (unat (fde_inode_number d))) (\<lambda>inode.
     require (ino_generation inode = fde_inode_generation d) EBADF (
     on_ok (if whence = SEEK_SET then ret 0
            else if whence = SEEK_CUR then ret (fde_offset d)
            else if whence = SEEK_END then ret (ino_size inode)
            else fail EINVAL) (\<lambda>base.
     on_ok (add_seek_offset base offset) (\<lambda>new_offset.
     modify (set_offset k new_offset) (ret new_offset))))))))"

section \<open>Public operations\<close>

definition ufs_open :: "string \<Rightarrow> u32 \<Rightarrow> nat op" where
  "ufs_open path flags = with_lock ufs_operation_write_lock (ufs_open_unlocked path flags)"

definition ufs_close :: "int \<Rightarrow> unit op" where
  "ufs_close fd = with_lock ufs_operation_write_lock (ufs_close_unlocked fd)"

definition ufs_read :: "int \<Rightarrow> nat \<Rightarrow> bytes op" where
  "ufs_read fd count = with_lock ufs_operation_write_lock (ufs_read_unlocked fd count)"

definition ufs_write :: "int \<Rightarrow> bytes \<Rightarrow> nat op" where
  "ufs_write fd buf = with_lock ufs_operation_write_lock (ufs_write_unlocked fd buf)"

definition ufs_seek :: "int \<Rightarrow> u64 \<Rightarrow> int \<Rightarrow> u64 op" where
  "ufs_seek fd offset whence = with_lock ufs_operation_write_lock (ufs_seek_unlocked fd offset whence)"

end
