(* ===== verification/Ufs_Mmap.thy ===== *)
theory Ufs_Mmap
  imports Ufs_FileIO
begin

text \<open>
  File mappings of \<open>src/mmap_io.c\<close>. A mapping is a copy of a file range in anonymous memory that is
  written back by \<open>ufs_msync\<close> and \<open>ufs_munmap\<close>. \<open>mmap\<close> hands out fresh, cleared addresses from
  \<open>next_map\<close> on; what the program stores in a mapping is whatever \<open>memory\<close> holds when the next
  operation runs. \<open>munmap\<close> and \<open>mprotect\<close> are system calls of which only the outcome matters.
  \<open>length\<close> and \<open>offset\<close> are 64-bit words, \<open>offset\<close> an \<open>off_t\<close> read by \<open>sint\<close>.
\<close>

abbreviation (input) UFS_PROT_READ :: u32 where "UFS_PROT_READ \<equiv> 1"
abbreviation (input) UFS_PROT_WRITE :: u32 where "UFS_PROT_WRITE \<equiv> 2"
abbreviation (input) UFS_MAP_SHARED :: u32 where "UFS_MAP_SHARED \<equiv> 1"
abbreviation (input) UFS_MAP_PRIVATE :: u32 where "UFS_MAP_PRIVATE \<equiv> 2"
abbreviation (input) UFS_MAP_FAILED :: nat where "UFS_MAP_FAILED \<equiv> 2 ^ 64 - 1"
abbreviation (input) UFS_MAX_MAPPED_FILE_SIZE :: u64 where
  "UFS_MAX_MAPPED_FILE_SIZE \<equiv> (8 + 128 + 128 * 128) * 512"

section \<open>Ranges of a file\<close>

function read_range_loop :: "ufs_inode \<Rightarrow> u64 \<Rightarrow> nat \<Rightarrow> nat \<Rightarrow> bytes \<Rightarrow> bytes op" where
  "read_range_loop inode offset count moved buf w =
     (if moved < count then
        (let position = offset + of_nat moved; chunk = chunk_at position (count - moved) in
         case on_ok (mapped_block inode position) ufs_read_block w of
           (None, w) \<Rightarrow> (None, w)
         | (Some block, w) \<Rightarrow>
             read_range_loop inode offset count (moved + chunk) (buf @ field (inside_block position) chunk block) w)
      else (Some buf, w))"
  by pat_completeness auto
termination
  by (relation "measure (\<lambda>(inode, offset, count, moved, buf, w). count - moved)")
    (simp_all add: diff_less_mono2 chunk_at_pos)

declare read_range_loop.simps [simp del]

text \<open>The bytes read; an error of \<open>ufs_should_update_atime\<close> counts as true here.\<close>

definition read_inode_range :: "nat \<Rightarrow> u32 \<Rightarrow> nat \<Rightarrow> u64 \<Rightarrow> bytes op" where
  "read_inode_range inode_number generation count offset =
     on_ok (read_inode inode_number) (\<lambda>inode.
     require (ino_generation inode = generation) ESTALE (
     require (ino_type inode = UFS_TYPE_FILE) EINVAL (
     if ino_size inode \<le> offset then ret []
     else
       let available = unat (ino_size inode - offset);
           count = (if available < count then available else count) in
       on_ok (read_range_loop inode offset count 0 []) (\<lambda>buf.
       if buf \<noteq> [] then
         on_ok (attempt (ufs_should_update_atime inode) ret (ret True)) (\<lambda>update.
         if update then
           keeping_errno (on_ok (ufs_touch_atime inode) (persist_inode inode_number)) (ret buf)
         else ret buf)
       else ret buf))))"

function write_range_loop :: "ufs_inode \<Rightarrow> u64 \<Rightarrow> bytes \<Rightarrow> nat \<Rightarrow> nat op" where
  "write_range_loop inode offset buf moved w =
     (if moved < length buf then
        (let position = offset + of_nat moved; chunk = chunk_at position (length buf - moved) in
         case on_ok (mapped_block inode position) (\<lambda>physical.
             write_chunk physical (inside_block position) (field moved chunk buf)) w of
           (None, w) \<Rightarrow> (None, w)
         | (Some _, w) \<Rightarrow> write_range_loop inode offset buf (moved + chunk) w)
      else (Some moved, w))"
  by pat_completeness auto
termination
  by (relation "measure (\<lambda>(inode, offset, buf, moved, w). length buf - moved)")
    (simp_all add: diff_less_mono2 chunk_at_pos)

declare write_range_loop.simps [simp del]

definition write_inode_range :: "nat \<Rightarrow> u32 \<Rightarrow> bytes \<Rightarrow> u64 \<Rightarrow> nat op" where
  "write_inode_range inode_number generation buf offset =
     require (\<not> 2 ^ 64 - 1 - unat offset < length buf) EFBIG (
     let end_pos = offset + of_nat (length buf) in
     require (\<not> UFS_MAX_MAPPED_FILE_SIZE < end_pos) EFBIG (
     on_ok (read_inode inode_number) (\<lambda>inode.
     require (ino_generation inode = generation) ESTALE (
     require (ino_type inode = UFS_TYPE_FILE) EINVAL (
     on_ok (if ino_size inode < end_pos
            then with_inode (ufs_truncate_inode inode_number end_pos) inode
            else ret inode) (\<lambda>inode.
     on_ok (write_range_loop inode offset buf 0) (\<lambda>moved.
     on_ok (ufs_touch_mtime_ctime inode) (\<lambda>inode.
     on_ok (persist_inode inode_number inode) (\<lambda>_. ret moved)))))))))"

section \<open>Mappings\<close>

definition memory_range :: "nat \<Rightarrow> nat \<Rightarrow> world \<Rightarrow> bytes" where
  "memory_range address n w = map (memory w) [address..<address + n]"

definition sync_mapping :: "ufs_mapping \<Rightarrow> u64 \<Rightarrow> unit op" where
  "sync_mapping mapping len =
     (if map_flags mapping = UFS_MAP_PRIVATE \<or> map_protection mapping AND UFS_PROT_WRITE = 0 then ret ()
      else
        on_ok (asking (memory_range (map_address mapping) (unat len)) (\<lambda>buf.
          write_inode_range (unat (map_inode_number mapping)) (map_inode_generation mapping) buf
            (map_file_offset mapping))) (\<lambda>written.
        require (written = unat len) EIO ufs_sync_image))"

text \<open>Anonymous memory: cleared, at an address that was never used before.\<close>

definition mmap_anonymous :: "nat \<Rightarrow> nat op" where
  "mmap_anonymous n = on_ok plain_call (\<lambda>_. asking next_map (\<lambda>address.
     modify (\<lambda>w. w\<lparr>next_map := address + n,
         memory := write_bytes address (replicate n 0) (memory w)\<rparr>) (ret address)))"

definition set_mapping :: "nat \<Rightarrow> ufs_mapping \<Rightarrow> world \<Rightarrow> world" where
  "set_mapping k m w = w\<lparr>mapping_table := (mapping_table w)[k := m]\<rparr>"

definition ufs_mmap_unlocked :: "int \<Rightarrow> u64 \<Rightarrow> u32 \<Rightarrow> u32 \<Rightarrow> u64 \<Rightarrow> nat op" where
  "ufs_mmap_unlocked fd len prot flags offset =
     on_ok require_mounted (\<lambda>_.
     require (\<not> (len = 0 \<or> sint offset < 0 \<or>
         prot AND NOT (UFS_PROT_READ OR UFS_PROT_WRITE) \<noteq> 0 \<or> prot AND UFS_PROT_READ = 0 \<or>
         (flags \<noteq> UFS_MAP_SHARED \<and> flags \<noteq> UFS_MAP_PRIVATE) \<or>
         - 1 - offset < len \<or> UFS_MAX_MAPPED_FILE_SIZE < offset + len)) EINVAL (
     on_ok (file_io_get_fd_info fd) (\<lambda>(inode_number, inode_generation, fd_flags).
     let access_mode = fd_flags AND UFS_O_RDWR in
     require (\<not> (access_mode = UFS_O_WRONLY \<or>
         (prot AND UFS_PROT_WRITE \<noteq> 0 \<and> flags = UFS_MAP_SHARED \<and> access_mode = UFS_O_RDONLY))) EACCES (
     on_ok (read_inode (unat inode_number)) (\<lambda>inode.
     require (ino_generation inode = inode_generation) EBADF (
     on_ok lock_mappings (\<lambda>_.
     asking mapping_table (\<lambda>table.
     case first_from (\<lambda>k. \<not> map_in_use (table ! k)) 0 UFS_MAX_MAPPINGS of
       None \<Rightarrow> discard unlock_mappings (fail ENOMEM)
     | Some slot \<Rightarrow>
         attempt (mmap_anonymous (unat len))
           (\<lambda>address.
              attempt (on_ok (read_inode_range (unat inode_number) inode_generation (unat len) offset) (\<lambda>buf.
                  modify (\<lambda>w. w\<lparr>memory := write_bytes address buf (memory w)\<rparr>) plain_call))
                (\<lambda>_. modify (set_mapping slot \<lparr>map_in_use = True, map_address = address, map_length = len,
                    map_file_offset = offset, map_inode_number = inode_number,
                    map_inode_generation = inode_generation, map_protection = prot, map_flags = flags\<rparr>)
                    (discard unlock_mappings (ret address)))
                (fail_after (discard plain_call unlock_mappings)))
           (discard unlock_mappings fail_same)))))))))"

definition ufs_msync_unlocked :: "nat \<Rightarrow> u64 \<Rightarrow> unit op" where
  "ufs_msync_unlocked address len =
     on_ok require_mounted (\<lambda>_.
     require (\<not> (address = 0 \<or> address = UFS_MAP_FAILED \<or> len = 0)) EINVAL (
     on_ok lock_mappings (\<lambda>_.
     attempt (find_mapping address)
       (\<lambda>index. asking (\<lambda>w. mapping_table w ! index) (\<lambda>mapping.
          if map_length mapping < len then discard unlock_mappings (fail EINVAL)
          else attempt (sync_mapping mapping len)
            (\<lambda>_. discard unlock_mappings (ret ())) (discard unlock_mappings fail_same)))
       (discard unlock_mappings fail_same))))"

definition ufs_munmap_unlocked :: "nat \<Rightarrow> u64 \<Rightarrow> unit op" where
  "ufs_munmap_unlocked address len =
     on_ok require_mounted (\<lambda>_.
     require (\<not> (address = 0 \<or> address = UFS_MAP_FAILED \<or> len = 0)) EINVAL (
     on_ok lock_mappings (\<lambda>_.
     attempt (find_mapping address)
       (\<lambda>index. asking (\<lambda>w. mapping_table w ! index) (\<lambda>mapping.
          if len \<noteq> map_length mapping then discard unlock_mappings (fail EINVAL)
          else attempt (sync_mapping mapping len)
            (\<lambda>_. modify (set_mapping index zero_mapping) (
               attempt plain_call (\<lambda>_. discard unlock_mappings (ret ()))
                 (modify (set_mapping index mapping) (discard unlock_mappings fail_same))))
            (discard unlock_mappings fail_same)))
       (discard unlock_mappings fail_same))))"

section \<open>Public operations\<close>

definition ufs_mmap :: "int \<Rightarrow> u64 \<Rightarrow> u32 \<Rightarrow> u32 \<Rightarrow> u64 \<Rightarrow> nat op" where
  "ufs_mmap fd len prot flags offset =
     with_lock ufs_operation_write_lock (ufs_mmap_unlocked fd len prot flags offset)"

definition ufs_msync :: "nat \<Rightarrow> u64 \<Rightarrow> unit op" where
  "ufs_msync address len = with_lock ufs_operation_write_lock (ufs_msync_unlocked address len)"

definition ufs_munmap :: "nat \<Rightarrow> u64 \<Rightarrow> unit op" where
  "ufs_munmap address len = with_lock ufs_operation_write_lock (ufs_munmap_unlocked address len)"

end
