(* ===== verification/Ufs_Lifecycle.thy ===== *)
theory Ufs_Lifecycle
  imports Ufs_Mmap
begin

text \<open>
  The life cycle of an image in \<open>src/userfs.c\<close>: \<open>ufs_format\<close>, \<open>ufs_mount\<close>, \<open>ufs_unmount\<close>. The model has
  one image file, so a path only matters for being empty; the descriptor number is 3. Truncation by
  \<open>O_TRUNC\<close> clears the file, and the bytes that \<open>ftruncate\<close> adds are zero. Closing the image drops the
  lock on it.
\<close>

section \<open>Files of the host\<close>

definition open_image :: "bool \<Rightarrow> int op" where
  "open_image create_and_truncate = on_ok plain_call (\<lambda>_. asking img_exists (\<lambda>there.
     if create_and_truncate then
       modify (\<lambda>w. w\<lparr>img_exists := True, img_len := 0, img := (\<lambda>_. 0)\<rparr>) (ret 3)
     else require there ENOENT (ret 3)))"

definition close_image :: "unit op" where
  "close_image w = (case plain_call w of (r, w1) \<Rightarrow> (r, w1\<lparr>image_lock := None\<rparr>))"

definition ftruncate_image :: "nat \<Rightarrow> unit op" where
  "ftruncate_image n = on_ok plain_call (\<lambda>_. modify (\<lambda>w. w\<lparr>img_len := n\<rparr>) (ret ()))"

definition fstat_size :: "nat op" where
  "fstat_size = on_ok plain_call (\<lambda>_. asking img_len ret)"

definition set_fd :: "int \<Rightarrow> world \<Rightarrow> world" where
  "set_fd fd w = w\<lparr>ufs_fd := fd\<rparr>"

section \<open>Superblock\<close>

definition zero_superblock :: ufs_superblock where
  "zero_superblock = dec_superblock (replicate UFS_BLOCK_SIZE 0)"

definition validate_superblock :: "ufs_superblock \<Rightarrow> unit op" where
  "validate_superblock sb = require (\<not> (sb_magic sb \<noteq> UFS_MAGIC \<or> sb_version sb \<noteq> UFS_VERSION \<or>
       sb_block_size sb \<noteq> of_nat UFS_BLOCK_SIZE \<or> sb_total_blocks sb \<noteq> of_nat UFS_TOTAL_BLOCKS \<or>
       sb_inode_bitmap_start sb \<noteq> of_nat UFS_INODE_BITMAP_BLK \<or>
       sb_inode_bitmap_blocks sb \<noteq> of_nat UFS_INODE_BITMAP_BLOCKS \<or>
       sb_block_bitmap_start sb \<noteq> of_nat UFS_BLOCK_BITMAP_START_BLK \<or>
       sb_block_bitmap_blocks sb \<noteq> of_nat UFS_BLOCK_BITMAP_BLOCKS \<or>
       sb_inode_table_start sb \<noteq> of_nat UFS_INODE_TABLE_START_BLK \<or>
       sb_inode_table_blocks sb \<noteq> of_nat UFS_INODE_TABLE_BLOCKS \<or>
       sb_data_region_start sb \<noteq> of_nat UFS_DATA_REGION_START_BLK \<or>
       sb_data_region_blocks sb \<noteq> of_nat UFS_DATA_REGION_BLOCKS \<or>
       sb_journal_start sb \<noteq> of_nat UFS_JOURNAL_START_BLK \<or>
       sb_journal_blocks sb \<noteq> of_nat UFS_JOURNAL_BLOCKS \<or>
       sb_total_inodes sb \<noteq> of_nat UFS_MAX_INODES \<or> sb_root_inode sb \<noteq> of_nat UFS_ROOT_INODE \<or>
       of_nat UFS_MAX_INODES < sb_free_inodes sb \<or>
       of_nat UFS_DATA_REGION_BLOCKS < sb_free_blocks sb)) EINVAL (ret ())"

definition format_superblock :: ufs_superblock where
  "format_superblock = zero_superblock\<lparr>sb_magic := UFS_MAGIC, sb_version := UFS_VERSION,
     sb_block_size := of_nat UFS_BLOCK_SIZE, sb_total_blocks := of_nat UFS_TOTAL_BLOCKS,
     sb_inode_bitmap_start := of_nat UFS_INODE_BITMAP_BLK, sb_inode_bitmap_blocks := of_nat UFS_INODE_BITMAP_BLOCKS,
     sb_block_bitmap_start := of_nat UFS_BLOCK_BITMAP_START_BLK,
     sb_block_bitmap_blocks := of_nat UFS_BLOCK_BITMAP_BLOCKS,
     sb_inode_table_start := of_nat UFS_INODE_TABLE_START_BLK,
     sb_inode_table_blocks := of_nat UFS_INODE_TABLE_BLOCKS,
     sb_data_region_start := of_nat UFS_DATA_REGION_START_BLK,
     sb_data_region_blocks := of_nat UFS_DATA_REGION_BLOCKS, sb_total_inodes := of_nat UFS_MAX_INODES,
     sb_root_inode := of_nat UFS_ROOT_INODE, sb_free_inodes := of_nat UFS_MAX_INODES - 1,
     sb_free_blocks := of_nat UFS_DATA_REGION_BLOCKS, sb_journal_start := of_nat UFS_JOURNAL_START_BLK,
     sb_journal_blocks := of_nat UFS_JOURNAL_BLOCKS, sb_journal_sequence := 1,
     sb_state := UFS_STATE_CLEAN, sb_features := 7\<rparr>"

section \<open>Format\<close>

text \<open>\<open>close_format_fd(fd, -1)\<close>, and \<open>close_format_fd(fd, 0)\<close>.\<close>

definition close_format_failed :: "'a op" where
  "close_format_failed = fail_after (discard close_image (modify (set_fd (- 1)) (ret ())))"

definition close_format_done :: "unit op" where
  "close_format_done = asking errno (\<lambda>saved. attempt close_image
     (\<lambda>_. modify (set_fd (- 1)) (modify (\<lambda>w. w\<lparr>errno := saved\<rparr>) (ret ())))
     (modify (set_fd (- 1)) fail_same))"

definition format_block_bitmap :: bytes where
  "format_block_bitmap = fold (\<lambda>k bm. bitmap_set bm k) [0..<UFS_DATA_REGION_START_BLK]
     (replicate (UFS_BLOCK_BITMAP_BLOCKS * UFS_BLOCK_SIZE) 0)"

text \<open>The mode 0755 is 0x1ED.\<close>

definition format_root :: "ufs_inode op" where
  "format_root = asking (\<lambda>w. (euid w, egid w)) (\<lambda>(uid, gid).
     on_ok clock_gettime (\<lambda>now.
     let t = \<lparr>dt_sec = tv_sec now, dt_nsec = ucast (tv_nsec now), dt_reserved = 0\<rparr> in
     ret ((ufs_init_inode UFS_TYPE_DIR)\<lparr>ino_mode := 0x1ED, ino_uid := uid, ino_gid := gid,
       ino_link_count := 1, ino_generation := 1, ino_atime := t, ino_mtime := t, ino_ctime := t\<rparr>)))"

definition write_fresh_image :: "unit op" where
  "write_fresh_image =
     on_ok (ftruncate_image UFS_IMAGE_SIZE) (\<lambda>_.
     on_ok (for_each [0..<UFS_TOTAL_BLOCKS] (\<lambda>b _. ufs_write_block b (replicate UFS_BLOCK_SIZE 0)) ()) (\<lambda>_.
     on_ok (ufs_write_block UFS_SUPERBLOCK_BLK (enc_superblock format_superblock)) (\<lambda>_.
     on_ok (ufs_write_block UFS_INODE_BITMAP_BLK (bitmap_set (replicate UFS_BLOCK_SIZE 0) UFS_ROOT_INODE)) (\<lambda>_.
     on_ok (for_each [0..<UFS_BLOCK_BITMAP_BLOCKS] (\<lambda>i _.
       ufs_write_block (UFS_BLOCK_BITMAP_START_BLK + i)
         (field (i * UFS_BLOCK_SIZE) UFS_BLOCK_SIZE format_block_bitmap)) ()) (\<lambda>_.
     on_ok format_root (\<lambda>root.
     on_ok (ufs_write_block UFS_INODE_TABLE_START_BLK
       (overlay 0 (enc_inode root) (replicate UFS_BLOCK_SIZE 0))) (\<lambda>_.
     fsync_image)))))))"

definition ufs_format :: "string \<Rightarrow> nat \<Rightarrow> unit op" where
  "ufs_format image_path image_size =
     require (\<not> (image_path = [] \<or> image_size \<noteq> UFS_IMAGE_SIZE)) EINVAL (
     asking ufs_mounted (\<lambda>m.
     require (\<not> m) EBUSY (
     on_ok (open_image True) (\<lambda>fd.
     modify (set_fd fd) (
     attempt write_fresh_image (\<lambda>_. close_format_done) close_format_failed)))))"

section \<open>Mount and unmount\<close>

definition read_valid_superblock :: "ufs_superblock op" where
  "read_valid_superblock =
     on_ok (ufs_read_block UFS_SUPERBLOCK_BLK) (\<lambda>buf.
     on_ok (validate_superblock (dec_superblock buf)) (\<lambda>_. ret (dec_superblock buf)))"

definition drop_image :: "world \<Rightarrow> world" where
  "drop_image w = w\<lparr>ufs_fd := - 1, ufs_mounted := False, ufs_sb := zero_superblock\<rparr>"

definition ufs_mount :: "string \<Rightarrow> unit op" where
  "ufs_mount image_path =
     require (image_path \<noteq> []) EINVAL (
     asking ufs_mounted (\<lambda>m.
     require (\<not> m) EBUSY (
     on_ok (open_image False) (\<lambda>fd.
     attempt fstat_size
       (\<lambda>len.
          if len \<noteq> UFS_IMAGE_SIZE then discard close_image (fail EINVAL)
          else modify (set_fd fd) (
            attempt read_valid_superblock
              (\<lambda>sb. modify (\<lambda>w. w\<lparr>ufs_sb := sb\<rparr>) (
                 attempt (on_ok ufs_journal_recover (\<lambda>_. read_valid_superblock))
                   (\<lambda>sb. modify (\<lambda>w. w\<lparr>ufs_sb := sb\<lparr>sb_state := UFS_STATE_DIRTY\<rparr>, ufs_mounted := True\<rparr>) (
                      attempt (on_ok ufs_flush_superblock (\<lambda>_. ufs_sync_image))
                        (\<lambda>_. modify descriptor_table_reset (ret ()))
                        (fail_after (discard close_image (modify drop_image (ret ()))))))
                   (fail_after (discard close_image (modify drop_image (ret ()))))))
              (fail_after (discard close_image (modify (set_fd (- 1)) (ret ()))))))
       (fail_after close_image)))))"

text \<open>Everything is released also when the last writes fail; the first error is the one reported.\<close>

definition ufs_unmount :: "unit op" where
  "ufs_unmount = asking ufs_mounted (\<lambda>m.
     require m EINVAL (
     on_ok ufs_mmap_has_active (\<lambda>active.
     require (\<not> active) EBUSY (
     modify (\<lambda>w. w\<lparr>ufs_sb := (ufs_sb w)\<lparr>sb_state := UFS_STATE_CLEAN\<rparr>\<rparr>) (
     attempt (on_ok ufs_flush_superblock (\<lambda>_. fsync_image))
       (\<lambda>_. attempt close_image
          (\<lambda>_. modify (descriptor_table_reset \<circ> drop_image) (ret ()))
          (modify (descriptor_table_reset \<circ> drop_image) fail_same))
       (fail_after (discard close_image (modify (descriptor_table_reset \<circ> drop_image) (ret ())))))))))"

end
