(* ===== verification/Ufs_Terminal.thy ===== *)
theory Ufs_Terminal
  imports Ufs_Lifecycle
begin

text \<open>
  What the commands of \<open>apps/userfs_shell.c\<close> are made of: the state of the shell, printing, the parsing
  of words and numbers (\<open>strtok\<close>, \<open>strtoul\<close> and \<open>strtoull\<close> as the C library has them), and the paths the
  shell accepts. A session is the shell with the world it works on; a command gives the session it
  leaves, or \<open>None\<close> when it does not return or its behaviour is undefined. \<open>messages\<close> is what \<open>strerror\<close>
  says for each error.
\<close>

section \<open>Sessions\<close>

record shell =
  mounted :: bool
  image_path :: string
  current_directory :: string
  messages :: "errno \<Rightarrow> string"
  printed :: string

type_synonym session = "shell \<times> world"
type_synonym command = "session \<Rightarrow> session option"

definition stop :: command where
  "stop = Some"

definition print :: "string \<Rightarrow> command \<Rightarrow> command" where
  "print t k = (\<lambda>(s, w). k (s\<lparr>printed := printed s @ t\<rparr>, w))"

definition line :: "string \<Rightarrow> string" where
  "line t = t @ [CHR 0x0A]"

text \<open>\<open>if (m < 0) err; else k\<close> for a library call, and an assignment to \<open>errno\<close>.\<close>

definition calling :: "'a op \<Rightarrow> command \<Rightarrow> ('a \<Rightarrow> command) \<Rightarrow> command" where
  "calling m err k = (\<lambda>(s, w). case m w of (None, w1) \<Rightarrow> err (s, w1) | (Some x, w1) \<Rightarrow> k x (s, w1))"

definition with_errno :: "errno \<Rightarrow> command \<Rightarrow> command" where
  "with_errno e k = (\<lambda>(s, w). k (s, w\<lparr>errno := e\<rparr>))"

definition with_shell :: "(shell \<Rightarrow> 'a) \<Rightarrow> ('a \<Rightarrow> command) \<Rightarrow> command" where
  "with_shell f k = (\<lambda>(s, w). k (f s) (s, w))"

definition with_world :: "(world \<Rightarrow> 'a) \<Rightarrow> ('a \<Rightarrow> command) \<Rightarrow> command" where
  "with_world f k = (\<lambda>(s, w). k (f w) (s, w))"

definition set_shell :: "(shell \<Rightarrow> shell) \<Rightarrow> command \<Rightarrow> command" where
  "set_shell f k = (\<lambda>(s, w). k (f s, w))"

definition print_error :: "string \<Rightarrow> command \<Rightarrow> command" where
  "print_error operation k = with_shell messages (\<lambda>strerror. with_world errno (\<lambda>e.
     print (line (''ERROR: '' @ operation @ '': '' @ strerror e)) k))"

text \<open>The call of \<open>require_shell_mount\<close>: first the failing branch.\<close>

definition require_shell_mount :: "command \<Rightarrow> command \<Rightarrow> command" where
  "require_shell_mount err k = with_shell mounted (\<lambda>m.
     if m then k else print (line ''ERROR: first run 'mount' (or 'format', then 'mount').'') err)"

section \<open>Numbers\<close>

definition digit :: "nat \<Rightarrow> char" where
  "digit d = char_of (if d < 10 then 48 + d else 87 + d)"

function digits :: "nat \<Rightarrow> nat \<Rightarrow> string" where
  "digits base n = (if n < base \<or> base < 2 then [digit n] else digits base (n div base) @ [digit (n mod base)])"
  by pat_completeness auto
termination
  by (relation "measure snd") (auto intro!: div_less_dividend)

declare digits.simps [simp del]

definition dec :: "nat \<Rightarrow> string" where
  "dec = digits 10"

definition pad_left :: "char \<Rightarrow> nat \<Rightarrow> string \<Rightarrow> string" where
  "pad_left c n t = replicate (n - length t) c @ t"

definition pad_right :: "nat \<Rightarrow> string \<Rightarrow> string" where
  "pad_right n t = t @ replicate (n - length t) CHR '' ''"

text \<open>\<open>%lld\<close> and \<open>%09ld\<close>.\<close>

definition signed :: "u64 \<Rightarrow> string" where
  "signed x = (if sint x < 0 then CHR ''-'' # dec (nat (- sint x)) else dec (nat (sint x)))"

definition signed9 :: "u64 \<Rightarrow> string" where
  "signed9 x = (if sint x < 0 then CHR ''-'' # pad_left CHR ''0'' 8 (dec (nat (- sint x)))
     else pad_left CHR ''0'' 9 (dec (nat (sint x))))"

definition show_time :: "timespec \<Rightarrow> string" where
  "show_time t = signed (tv_sec t) @ ''.'' @ signed9 (tv_nsec t)"

definition text_of :: "bytes \<Rightarrow> string" where
  "text_of = map char_of_byte"

section \<open>Words\<close>

definition isspace :: "char \<Rightarrow> bool" where
  "isspace c \<longleftrightarrow> c \<in> {CHR '' '', CHR 0x09, CHR 0x0A, CHR 0x0B, CHR 0x0C, CHR 0x0D}"

definition skip_spaces :: "string option \<Rightarrow> string option" where
  "skip_spaces = map_option (dropWhile isspace)"

text \<open>\<open>strtok\<close>: the next word, and what is left behind the delimiter that ended it.\<close>

definition strtok :: "char set \<Rightarrow> string \<Rightarrow> string option \<times> string" where
  "strtok delims text =
     (let t = dropWhile (\<lambda>c. c \<in> delims) text in
      if t = [] then (None, [])
      else (Some (takeWhile (\<lambda>c. c \<notin> delims) t), tl (dropWhile (\<lambda>c. c \<notin> delims) t)))"

definition blanks :: "char set" where
  "blanks = {CHR '' '', CHR 0x09, CHR 0x0D, CHR 0x0A}"

definition line_ends :: "char set" where
  "line_ends = {CHR 0x0D, CHR 0x0A}"

text \<open>
  \<open>strtoull\<close> and \<open>strtoul\<close> in the C locale for the bases 8 and 10: the value, what follows the number,
  and whether the number is out of range. Blanks and a sign may come first, a minus negates modulo
  $2^{64}$, and without a digit nothing is consumed.
\<close>

definition digit_in :: "nat \<Rightarrow> char \<Rightarrow> bool" where
  "digit_in base c \<longleftrightarrow> 48 \<le> (of_char c :: nat) \<and> (of_char c :: nat) < 48 + base"

definition number_of :: "nat \<Rightarrow> string \<Rightarrow> nat" where
  "number_of base = foldl (\<lambda>n c. n * base + (of_char c - 48)) 0"

definition strtoull :: "nat \<Rightarrow> string \<Rightarrow> u64 \<times> string \<times> bool" where
  "strtoull base text =
     (let t = dropWhile isspace text;
          negative = (t \<noteq> [] \<and> hd t = CHR ''-'');
          u = (if t \<noteq> [] \<and> hd t \<in> {CHR ''-'', CHR ''+''} then tl t else t);
          n = number_of base (takeWhile (digit_in base) u);
          rest = dropWhile (digit_in base) u in
      if u = rest then (0, text, False)
      else if 2 ^ 64 \<le> n then (- 1, rest, True)
      else (if negative then - of_nat n else of_nat n, rest, False))"

text \<open>\<open>errno\<close> after \<open>errno = 0\<close> and one of these calls: 0, or \<open>ERANGE\<close>.\<close>

definition number_errno :: "bool \<Rightarrow> errno" where
  "number_errno erange = EOTHER (if erange then 34 else 0)"

definition parse_mapping_number :: "string option \<Rightarrow> u64 op" where
  "parse_mapping_number text = (case text of None \<Rightarrow> fail EINVAL | Some t \<Rightarrow>
     require (t \<noteq> []) EINVAL (
     case strtoull 10 t of (parsed, rest, erange) \<Rightarrow>
     modify (\<lambda>w. w\<lparr>errno := number_errno erange\<rparr>) (
     require (\<not> (erange \<or> rest \<noteq> [])) EINVAL (ret parsed))))"

section \<open>Paths\<close>

text \<open>A double dot: back to the slash before the last component, never behind the first character.\<close>

function back_to_slash :: "string \<Rightarrow> string" where
  "back_to_slash out = (if 1 < length out \<and> out ! (length out - 1) \<noteq> slash then back_to_slash (butlast out) else out)"
  by pat_completeness auto
termination
  by (relation "measure length") auto

declare back_to_slash.simps [simp del]

definition parent_directory :: "string \<Rightarrow> string" where
  "parent_directory out =
     (let t = back_to_slash out in if 1 < length t then butlast t else t)"

function shell_path_loop :: "string \<Rightarrow> string \<Rightarrow> string op" where
  "shell_path_loop input out =
     (let input = dropWhile (\<lambda>c. c = slash) input;
          component = takeWhile (\<lambda>c. c \<noteq> slash) input;
          rest = dropWhile (\<lambda>c. c \<noteq> slash) input;
          len = length component in
      if input = [] then ret out
      else if len = 1 \<and> component ! 0 = dot then shell_path_loop rest out
      else if len = 2 \<and> component ! 0 = dot \<and> component ! 1 = dot then
        shell_path_loop rest (if 1 < length out then parent_directory out else out)
      else if UFS_MAX_NAME < len then fail ENAMETOOLONG
      else if UFS_MAX_PATH < length out + (if 1 < length out then 1 else 0) + len
      then fail ENAMETOOLONG
      else shell_path_loop rest ((if 1 < length out then out @ [slash] else out) @ component))"
  by pat_completeness auto
termination
  by (relation "measure (\<lambda>(input, out). length input)")
    (simp_all only: in_measure case_prod_conv wf_measure normalize_progress not_False_eq_True)

declare shell_path_loop.simps [simp del]

definition normalize_shell_path :: "string \<Rightarrow> string option \<Rightarrow> string op" where
  "normalize_shell_path cwd input = (case input of None \<Rightarrow> fail EINVAL | Some i \<Rightarrow>
     require (i \<noteq> []) EINVAL (shell_path_loop i (if i ! 0 = slash then [slash] else cwd)))"

definition resolve_shell_path :: "string option \<Rightarrow> bool \<Rightarrow> command \<Rightarrow> (string \<Rightarrow> command) \<Rightarrow> command" where
  "resolve_shell_path input default_to_cwd err k = with_shell current_directory (\<lambda>cwd.
     calling (normalize_shell_path cwd (if input = None \<and> default_to_cwd then Some cwd else input))
       (print_error ''path'' err) k)"

end
