(* ===== verification/Ufs_Shell.thy ===== *)
theory Ufs_Shell
  imports Ufs_Terminal
begin

text \<open>
  The commands of \<open>apps/userfs_shell.c\<close>, each as the sequence of library calls, prints and early returns
  of its function, the dispatch of an input line, and the main loop over the standard input. Output
  that cannot be written is not noticed by the program and has no effect in the model.
\<close>

section \<open>Help\<close>

definition show_help :: command where
  "show_help = print (concat (map line
    ['''',
     ''Paths may be absolute (/docs/file) or relative (../file).'',
     '''',
     ''Filesystem commands (use the public UserFS API):'',
     ''  format                       create a fresh 16 MiB image'',
     ''  mount                        mount the image'',
     ''  unmount                      persist and close the image'',
     ''  pwd                          print the current UserFS directory'',
     ''  cd [PATH]                    change directory (default: /)'',
     ''  mkdir PATH                   create a directory'',
     ''  rmdir PATH                   remove an empty directory'',
     ''  create PATH                  create an empty file'',
     ''  touch PATH                   alias for create'',
     ''  write PATH TEXT              replace file content'',
     ''  append PATH TEXT             append to a file'',
     ''  cat PATH                     print file content'',
     ''  ls [PATH]                    list a directory (default: current)'',
     ''  stat [PATH]                  show public metadata'',
     ''  lstat PATH                   show link metadata without following'',
     ''  ln OLD NEW                   create a hard link'',
     ''  ln -s TARGET LINK            create a symbolic link'',
     ''  readlink PATH                print a symbolic-link target'',
     ''  chmod MODE PATH              change permissions (for example 600)'',
     ''  truncate PATH SIZE           resize a file'',
     ''  mmap-show PATH OFFSET SIZE   display a copy-backed mapping'',
     ''  mmap-write PATH OFFSET TEXT  modify through shared mapping'',
     ''  rm PATH                      delete a regular file'',
     '''',
     ''Inspection commands (demonstration/debug only):'',
     ''  inode PATH                   show the inode and block pointers'',
     ''  map PATH                     show logical -> physical blocks'',
     ''  show PATH                    show one compact file summary'',
     ''  bitmap                       show allocated inode/data bits'',
     ''  super                        show superblock/free counters'',
     '''',
     ''Other commands:'',
     ''  features                     summarize implemented features'',
     ''  help                         show this help'',
     ''  quit                         unmount if needed and exit'',
     ''''])) stop"

definition command_features :: command where
  "command_features = print (concat (map line
    ['''',
     ''UserFS Features'',
     ''------------------------------------------------------------'',
     ''Disk image          : 16 MiB (32768 x 512-byte blocks)'',
     ''Maximum inodes      : 512 persistent inodes'',
     ''Block addressing    : 8 direct + single + double indirect'',
     ''Maximum file size   : 8,458,240 bytes'',
     ''Directories         : persistent nested directories'',
     ''Hard links          : supported with persistent link counts'',
     ''Symbolic links      : absolute/relative, ELOOP protection'',
     ''Metadata            : permissions, UID/GID and timestamps'',
     ''Journal             : after-image redo with mount recovery'',
     ''Memory mapping      : copy-backed shared/private mappings'',
     ''Thread safety       : serialized public operations'',
     ''Process safety      : whole-image advisory fcntl locking'',
     ''Persistence         : successful changes survive remount'',
     ''Verification        : strict tests plus ASan and UBSan'',
     ''------------------------------------------------------------'',
     ''Note: mmap is copy-backed, not native kernel mmap.'',
     ''Note: the journal does not make every operation crash-atomic.'',
     ''''])) stop"

section \<open>Image\<close>

definition to_root :: "command \<Rightarrow> command" where
  "to_root = set_shell (\<lambda>s. s\<lparr>current_directory := ''/''\<rparr>)"

definition command_format :: command where
  "command_format = with_shell mounted (\<lambda>m. with_shell image_path (\<lambda>image.
     if m then print (line ''ERROR: unmount before formatting.'') stop
     else calling (ufs_format image UFS_IMAGE_SIZE) (print_error ''format'' stop) (\<lambda>_.
       to_root (print (line (''OK: formatted '' @ image @ '' (16 MiB, 32768 blocks).'')) stop))))"

definition command_mount :: command where
  "command_mount = with_shell mounted (\<lambda>m. with_shell image_path (\<lambda>image.
     if m then print (line ''ERROR: image is already mounted.'') stop
     else calling (ufs_mount image) (print_error ''mount'' stop) (\<lambda>_.
       set_shell (\<lambda>s. s\<lparr>mounted := True\<rparr>) (
       to_root (print (line (''OK: mounted '' @ image @ ''.'')) stop)))))"

definition command_unmount :: command where
  "command_unmount = with_shell mounted (\<lambda>m.
     if \<not> m then print (line ''ERROR: no image is mounted.'') stop
     else calling ufs_unmount (print_error ''unmount'' stop) (\<lambda>_.
       set_shell (\<lambda>s. s\<lparr>mounted := False\<rparr>) (
       to_root (print (line ''OK: unmounted; successful changes are persistent.'') stop))))"

section \<open>Directories and metadata\<close>

definition command_pwd :: command where
  "command_pwd = require_shell_mount stop (with_shell current_directory (\<lambda>cwd. print (line cwd) stop))"

definition command_cd :: "string option \<Rightarrow> command" where
  "command_cd path = require_shell_mount stop (
     let path = (if path = None then Some ''/'' else path) in
     resolve_shell_path path False stop (\<lambda>resolved.
     calling (ufs_stat_op resolved) (print_error ''cd'' stop) (\<lambda>status.
     if st_type status \<noteq> UFS_TYPE_DIR then with_errno ENOTDIR (print_error ''cd'' stop)
     else set_shell (\<lambda>s. s\<lparr>current_directory := resolved\<rparr>) stop)))"

definition type_name :: "u32 \<Rightarrow> string \<Rightarrow> string" where
  "type_name type link = (if type = UFS_TYPE_DIR then ''directory'' else if type = UFS_TYPE_SYMLINK then link else ''file'')"

definition command_ls :: "string option \<Rightarrow> command" where
  "command_ls path = require_shell_mount stop (
     resolve_shell_path path True stop (\<lambda>resolved.
     calling (ufs_listdir resolved 64) (print_error ''ls'' stop) (\<lambda>entries.
     print (line (''Directory: '' @ resolved)) (
     print (line ''NAME                             TYPE       SIZE'') (
     print (line ''-------------------------------- --------- --------'') (
     print (concat (map (\<lambda>(name, type, size). line (pad_right 32 name @ '' '' @ pad_right 9 (type_name type ''symlink'') @
         '' '' @ dec (unat size))) entries)) (
     print (line (dec (length entries) @ '' item(s)'')) stop)))))))"

definition command_stat :: "string option \<Rightarrow> bool \<Rightarrow> command" where
  "command_stat path nofollow = require_shell_mount stop (
     resolve_shell_path path True stop (\<lambda>resolved.
     calling ((if nofollow then ufs_lstat else ufs_stat_op) resolved)
       (print_error (if nofollow then ''lstat'' else ''stat'') stop) (\<lambda>status.
     print (concat (map line
       [''type:        '' @ type_name (st_type status) ''symbolic link'',
        ''size:        '' @ dec (unat (st_size status)) @ '' bytes'',
        ''blocks:      '' @ dec (unat (st_blocks status)),
        ''mode:        '' @ pad_left CHR ''0'' 3 (digits 8 (unat (st_mode status AND 0x1FF))),
        ''owner uid:   '' @ dec (unat (st_uid status)),
        ''owner gid:   '' @ dec (unat (st_gid status)),
        ''link count:  '' @ dec (unat (st_link_count status)),
        ''atime:       '' @ show_time (st_atime status),
        ''mtime:       '' @ show_time (st_mtime status),
        ''ctime:       '' @ show_time (st_ctime status)])) stop)))"

section \<open>Links\<close>

definition command_link :: "string option \<Rightarrow> string option \<Rightarrow> string option \<Rightarrow> command" where
  "command_link first second third =
     (let symbolic = (first = Some ''-s'');
          old_or_target = (if symbolic then second else first);
          new_path = (if symbolic then third else second);
          usage = print (line ''Usage: ln OLD NEW  or  ln -s TARGET LINK'') stop in
      require_shell_mount usage (
      case (old_or_target, new_path) of
        (Some old, Some _) \<Rightarrow>
          resolve_shell_path new_path False stop (\<lambda>destination.
          let created = print (line (''OK: created '' @ (if symbolic then ''symbolic'' else ''hard'') @ '' link '' @
                destination @ ''.'')) stop in
          if symbolic then
            calling (ufs_symlink old destination) (print_error ''ln -s'' stop) (\<lambda>_. created)
          else
            resolve_shell_path old_or_target False stop (\<lambda>source.
            calling (ufs_link source destination) (print_error ''ln'' stop) (\<lambda>_. created)))
      | _ \<Rightarrow> usage))"

definition command_readlink :: "string option \<Rightarrow> command" where
  "command_readlink path =
     (let usage = print (line ''Usage: readlink PATH'') stop in
      require_shell_mount usage (
      if path = None then usage
      else resolve_shell_path path False stop (\<lambda>resolved.
        calling (ufs_readlink resolved UFS_MAX_PATH) (print_error ''readlink'' stop) (\<lambda>target.
        print (line (c_string target)) stop))))"

section \<open>Mappings\<close>

text \<open>\<open>(void)ufs_close(fd);\<close>\<close>

definition closing :: "nat \<Rightarrow> command \<Rightarrow> command" where
  "closing fd k = calling (ufs_close (int fd)) k (\<lambda>_. k)"

text \<open>A call of \<open>parse_mapping_number\<close> whose failure is handled by the caller.\<close>

definition command_mmap_show :: "string option \<Rightarrow> string option \<Rightarrow> string option \<Rightarrow> command" where
  "command_mmap_show path offset_text length_text =
     (let usage = print (line ''Usage: mmap-show PATH OFFSET SIZE'') stop;
          invalid = print (line ''ERROR: mmap-show: invalid offset or size'') stop in
      require_shell_mount usage (
      if path = None \<or> offset_text = None \<or> length_text = None then usage
      else
        calling (parse_mapping_number offset_text) invalid (\<lambda>offset.
        calling (parse_mapping_number length_text) invalid (\<lambda>len.
        if len = 0 \<or> sint offset < 0 then invalid
        else
          resolve_shell_path path False stop (\<lambda>resolved.
          calling (ufs_open resolved UFS_O_RDONLY) (print_error ''mmap-show open'' stop) (\<lambda>fd.
          calling (ufs_mmap (int fd) len UFS_PROT_READ UFS_MAP_PRIVATE offset)
            (print_error ''mmap-show'' (closing fd stop)) (\<lambda>mapping.
          print ''Mapped bytes: '' (
          with_world (memory_range mapping (unat len)) (\<lambda>bs. print (line (text_of bs)) (
          calling (ufs_munmap mapping len)
            (print_error ''mmap-show munmap'' (closing fd stop)) (\<lambda>_. closing fd stop)))))))))))"

definition command_mmap_write :: "string option \<Rightarrow> string option \<Rightarrow> string option \<Rightarrow> command" where
  "command_mmap_write path offset_text text =
     (let usage = print (line ''Usage: mmap-write PATH OFFSET TEXT'') stop;
          invalid = print (line ''ERROR: mmap-write: invalid offset'') stop in
      require_shell_mount usage (
      case text of None \<Rightarrow> usage | Some t \<Rightarrow>
      if path = None \<or> offset_text = None \<or> t = [] then usage
      else
        calling (parse_mapping_number offset_text) invalid (\<lambda>offset.
        if sint offset < 0 then invalid
        else
          resolve_shell_path path False stop (\<lambda>resolved.
          let len = of_nat (length t) in
          calling (ufs_open resolved UFS_O_RDWR) (print_error ''mmap-write open'' stop) (\<lambda>fd.
          calling (ufs_mmap (int fd) len (UFS_PROT_READ OR UFS_PROT_WRITE) UFS_MAP_SHARED offset)
            (print_error ''mmap-write'' (closing fd stop)) (\<lambda>mapping.
          let failed = print_error ''mmap-write sync/unmap'' (closing fd stop) in
          calling (modify (\<lambda>w. w\<lparr>memory := write_bytes mapping (map byte_of_char t) (memory w)\<rparr>) (ret ())) stop (\<lambda>_.
          calling (ufs_msync mapping len) failed (\<lambda>_.
          calling (ufs_munmap mapping len) failed (\<lambda>_.
          closing fd (print (line (''OK: mapped '' @ dec (length t) @ '' byte(s) at offset '' @ dec (unat offset) @
            '' and synchronized them.'')) stop))))))))))"

section \<open>Changing files and directories\<close>

definition command_chmod :: "string option \<Rightarrow> string option \<Rightarrow> command" where
  "command_chmod mode_text path =
     (let usage = print (line ''Usage: chmod MODE PATH'') stop in
      require_shell_mount usage (
      case mode_text of None \<Rightarrow> usage | Some t \<Rightarrow>
      if path = None then usage
      else case strtoull 8 t of (mode, rest, erange) \<Rightarrow>
        with_errno (number_errno erange) (
        if erange \<or> t = [] \<or> rest \<noteq> [] \<or> 0xFFF < mode then print (line ''ERROR: chmod: invalid octal mode'') stop
        else
          resolve_shell_path path False stop (\<lambda>resolved.
          calling (ufs_chmod resolved (ucast mode)) (print_error ''chmod'' stop) (\<lambda>_.
          print (line (''OK: mode of '' @ resolved @ '' changed to '' @ pad_left CHR ''0'' 3 (digits 8 (unat mode)) @ ''.''))
            stop)))))"

definition command_create :: "string \<Rightarrow> string option \<Rightarrow> command" where
  "command_create command path =
     require_shell_mount (if path = None then print (line (''Usage: '' @ command @ '' PATH'')) stop else stop) (
     if path = None then print (line (''Usage: '' @ command @ '' PATH'')) stop
     else
       resolve_shell_path path False stop (\<lambda>resolved.
       calling (if command = ''mkdir'' then ufs_mkdir resolved else ufs_create resolved) (print_error command stop) (\<lambda>_.
       print (line (''OK: '' @ resolved @ '' created.'')) stop)))"

definition command_remove :: "string \<Rightarrow> string option \<Rightarrow> command" where
  "command_remove command path =
     require_shell_mount (if path = None then print (line (''Usage: '' @ command @ '' PATH'')) stop else stop) (
     if path = None then print (line (''Usage: '' @ command @ '' PATH'')) stop
     else
       resolve_shell_path path False stop (\<lambda>resolved.
       with_shell current_directory (\<lambda>cwd.
       if command = ''rmdir'' \<and> resolved = cwd then with_errno EBUSY (print_error ''rmdir'' stop)
       else
         calling (if command = ''rmdir'' then ufs_rmdir resolved else ufs_unlink resolved) (print_error command stop) (\<lambda>_.
         print (line (''OK: '' @ resolved @ '' removed.'')) stop))))"

definition command_write :: "string option \<Rightarrow> string option \<Rightarrow> bool \<Rightarrow> command" where
  "command_write path text appending =
     (let usage = print (line (''Usage: '' @ (if appending then ''append'' else ''write'') @ '' PATH TEXT'')) stop in
      require_shell_mount usage (
      case text of None \<Rightarrow> usage | Some t \<Rightarrow>
      if path = None then usage
      else
        resolve_shell_path path False stop (\<lambda>resolved.
        calling (if appending then ret () else ufs_truncate resolved 0) (print_error ''truncate before write'' stop) (\<lambda>_.
        calling (ufs_open resolved (if appending then UFS_O_WRONLY OR UFS_O_APPEND else UFS_O_WRONLY))
          (print_error ''open for write'' stop) (\<lambda>fd.
        let failed = print_error ''write'' (closing fd stop) in
        calling (ufs_write (int fd) (map byte_of_char t)) failed (\<lambda>amount.
        if amount \<noteq> length t then failed
        else
          calling (ufs_close (int fd)) (print_error ''close'' stop) (\<lambda>_.
          print (line (''OK: wrote '' @ dec (length t) @ '' byte(s) to '' @ resolved @ ''.'')) stop))))))) "

text \<open>Copy an open file to the output in pieces of 256 bytes.\<close>

partial_function (option) copy_loop :: "string \<Rightarrow> nat \<Rightarrow> command \<Rightarrow> command" where
  "copy_loop what fd k x =
     (case ufs_read (int fd) 256 (snd x) of
        (None, w) \<Rightarrow> print_error (what @ '' read'') (closing fd stop) (fst x, w)
      | (Some bs, w) \<Rightarrow>
          if bs = [] then k (fst x, w)
          else copy_loop what fd k ((fst x)\<lparr>printed := printed (fst x) @ text_of bs\<rparr>, w))"

declare copy_loop.simps [code]

definition command_cat :: "string option \<Rightarrow> command" where
  "command_cat path =
     (let usage = print (line ''Usage: cat PATH'') stop in
      require_shell_mount usage (
      if path = None then usage
      else
        resolve_shell_path path False stop (\<lambda>resolved.
        calling (ufs_open resolved UFS_O_RDONLY) (print_error ''cat open'' stop) (\<lambda>fd.
        print (line (''----- '' @ resolved @ '' -----'')) (
        copy_loop ''cat'' fd (
        print (line [] @ line ''------------------------------'') (
        calling (ufs_close (int fd)) (print_error ''cat close'' stop) (\<lambda>_. stop))))))))"

definition command_truncate :: "string option \<Rightarrow> string option \<Rightarrow> command" where
  "command_truncate path size_text =
     (let usage = print (line ''Usage: truncate PATH SIZE'') stop in
      require_shell_mount usage (
      case size_text of None \<Rightarrow> usage | Some t \<Rightarrow>
      if path = None then usage
      else
        resolve_shell_path path False stop (\<lambda>resolved.
        case strtoull 10 t of (requested, rest, erange) \<Rightarrow>
        with_errno (number_errno erange) (
        if erange \<or> t = [] \<or> rest \<noteq> [] then print (line ''ERROR: SIZE must be a non-negative decimal number.'') stop
        else
          calling (ufs_truncate resolved requested) (print_error ''truncate'' stop) (\<lambda>_.
          print (line (''OK: '' @ resolved @ '' is now '' @ dec (unat requested) @ '' byte(s).'')) stop)))))"

section \<open>Inspection\<close>

definition load_inode :: "string option \<Rightarrow> (nat \<Rightarrow> ufs_inode \<Rightarrow> command) \<Rightarrow> command" where
  "load_inode path k = require_shell_mount stop (
     resolve_shell_path path True stop (\<lambda>resolved.
     calling (resolve_path resolved) (print_error ''load inode'' stop) (\<lambda>number.
     calling (read_inode number) (print_error ''load inode'' stop) (\<lambda>inode. k number inode))))"

definition pointer_line :: "string \<Rightarrow> u32 \<Rightarrow> string" where
  "pointer_line label block = line (''  '' @ pad_right 18 label @ '' '' @
     (if block = UFS_INVALID_BLOCK then ''unused'' else dec (unat block)))"

definition command_inode :: "string option \<Rightarrow> command" where
  "command_inode path = load_inode path (\<lambda>number inode.
     print (line (''inode number: '' @ dec number) @
       line (''type:         '' @ (if ino_type inode = UFS_TYPE_DIR then ''directory'' else ''file'') @
         '' ('' @ dec (unat (ino_type inode)) @ '')'') @
       line (''size:         '' @ dec (unat (ino_size inode)) @ '' byte(s)'') @
       line (''data blocks:  '' @ dec (unat (ino_block_count inode)))) (
     print (concat (map (\<lambda>i. pointer_line (''direct['' @ dec i @ '']'') (ino_direct inode ! i)) [0..<UFS_DIRECT_BLOCKS])) (
     print (pointer_line ''single_indirect'' (ino_single_indirect inode) @
       pointer_line ''double_indirect'' (ino_double_indirect inode)) stop)))"

text \<open>A loop over the blocks of a file that prints something for each.\<close>

fun block_loop :: "ufs_inode \<Rightarrow> (nat \<Rightarrow> u32 \<Rightarrow> string) \<Rightarrow> nat list \<Rightarrow> command \<Rightarrow> command" where
  "block_loop inode text [] k = k"
| "block_loop inode text (logical # ls) k =
     calling (get_inode_data_block inode logical) (print_error ''block mapping'' stop) (\<lambda>physical.
     print (text logical physical) (block_loop inode text ls k))"

definition command_map :: "string option \<Rightarrow> command" where
  "command_map path = load_inode path (\<lambda>number inode.
     print (line (''inode '' @ dec number @ '': logical block -> physical image block'')) (
     if ino_block_count inode = 0 then print (line ''  no data blocks allocated'') stop
     else block_loop inode (\<lambda>logical physical. line (''  logical '' @ pad_right 5 (dec logical) @ '' -> physical '' @
         dec (unat physical))) [0..<unat (ino_block_count inode)] stop))"

text \<open>
  \<open>command_show\<close> gives \<open>read_block_bitmap\<close> a buffer of one block for a bitmap of eight. When the first block
  cannot be read the call fails; otherwise the second one is written behind the buffer, and from there
  on the behaviour is undefined.
\<close>

definition command_show :: "string option \<Rightarrow> command" where
  "command_show path = resolve_shell_path path True stop (\<lambda>resolved.
     load_inode (Some resolved) (\<lambda>number inode.
     if ino_type inode \<noteq> UFS_TYPE_FILE then with_errno EISDIR (print_error ''show'' stop)
     else
       calling (asking ufs_mounted (\<lambda>m. require m EINVAL (ufs_read_block UFS_BLOCK_BITMAP_START_BLK)))
         (print_error ''read bitmap'' stop) (\<lambda>_ _. None)))"

definition command_super :: command where
  "command_super = require_shell_mount stop (with_world ufs_sb (\<lambda>sb.
     let upto = (\<lambda>start blocks. dec (unat start) @ ''-'' @ dec (unat (start + blocks - 1 :: u32))) in
     print (concat (map line
       [''magic:              0x'' @ pad_left CHR ''0'' 8 (digits 16 (unat (sb_magic sb))),
        ''version:            '' @ dec (unat (sb_version sb)),
        ''block size:         '' @ dec (unat (sb_block_size sb)) @ '' bytes'',
        ''total blocks:       '' @ dec (unat (sb_total_blocks sb)),
        ''free data blocks:   '' @ dec (unat (sb_free_blocks sb)),
        ''total inodes:       '' @ dec (unat (sb_total_inodes sb)),
        ''free inodes:        '' @ dec (unat (sb_free_inodes sb)),
        ''inode table blocks: '' @ upto (sb_inode_table_start sb) (sb_inode_table_blocks sb),
        ''journal blocks:     '' @ upto (sb_journal_start sb) (sb_journal_blocks sb),
        ''filesystem state:   '' @ (if sb_state sb = UFS_STATE_CLEAN then ''clean'' else ''mounted/dirty''),
        ''data region blocks: '' @ upto (sb_data_region_start sb) (sb_data_region_blocks sb)])) stop))"

definition command_bitmap :: command where
  "command_bitmap = require_shell_mount stop (
     calling read_inode_bitmap (print_error ''read bitmap'' stop) (\<lambda>inode_bitmap.
     calling read_block_bitmap (print_error ''read bitmap'' stop) (\<lambda>block_bitmap.
     let inodes = filter (bitmap_test inode_bitmap) [0..<UFS_MAX_INODES];
         blocks = filter (bitmap_test block_bitmap) [UFS_DATA_REGION_START_BLK..<UFS_TOTAL_BLOCKS];
         numbers = (\<lambda>ns. concat (map (\<lambda>n. dec n @ '' '') ns)) in
     print (''Allocated inodes: '' @ numbers inodes @ line [] @
       ''Allocated data/pointer blocks: '' @ numbers (take 80 blocks) @
       (if 80 < length blocks then ''... '' else []) @ line [] @
       line (''Allocated data/pointer count: '' @ dec (length blocks))) stop)))"

section \<open>Lines and the main loop\<close>

text \<open>What a line asks for; \<open>strtok\<close> goes on behind the words taken so far.\<close>

definition next_word :: "string \<Rightarrow> (string option \<Rightarrow> string \<Rightarrow> 'a) \<Rightarrow> 'a" where
  "next_word text k = (case strtok blanks text of (word, rest) \<Rightarrow> k word rest)"

definition rest_of_line :: "string \<Rightarrow> string option" where
  "rest_of_line text = skip_spaces (fst (strtok line_ends text))"

definition run_command :: "string \<Rightarrow> string \<Rightarrow> command" where
  "run_command command args =
     (if command = ''features'' then command_features
      else if command = ''help'' then show_help
      else if command = ''format'' then command_format
      else if command = ''mount'' then command_mount
      else if command = ''unmount'' then command_unmount
      else if command = ''pwd'' then command_pwd
      else if command = ''cd'' then next_word args (\<lambda>path _. command_cd path)
      else if command = ''mkdir'' \<or> command = ''create'' \<or> command = ''touch'' then
        next_word args (\<lambda>path _. command_create command path)
      else if command = ''rmdir'' \<or> command = ''rm'' then next_word args (\<lambda>path _. command_remove command path)
      else if command = ''write'' \<or> command = ''append'' then
        next_word args (\<lambda>path rest. command_write path (rest_of_line rest) (command = ''append''))
      else if command = ''cat'' then next_word args (\<lambda>path _. command_cat path)
      else if command = ''ls'' then next_word args (\<lambda>path _. command_ls path)
      else if command = ''stat'' \<or> command = ''lstat'' then
        next_word args (\<lambda>path _. command_stat path (command = ''lstat''))
      else if command = ''ln'' then
        next_word args (\<lambda>first rest. next_word rest (\<lambda>second rest. next_word rest (\<lambda>third _. command_link first second third)))
      else if command = ''readlink'' then next_word args (\<lambda>path _. command_readlink path)
      else if command = ''chmod'' then
        next_word args (\<lambda>mode rest. next_word rest (\<lambda>path _. command_chmod mode path))
      else if command = ''truncate'' then
        next_word args (\<lambda>path rest. next_word rest (\<lambda>size _. command_truncate path size))
      else if command = ''mmap-show'' then
        next_word args (\<lambda>path rest. next_word rest (\<lambda>off rest. next_word rest (\<lambda>len _. command_mmap_show path off len)))
      else if command = ''mmap-write'' then
        next_word args (\<lambda>path rest. next_word rest (\<lambda>off rest. command_mmap_write path off (rest_of_line rest)))
      else if command = ''inode'' then next_word args (\<lambda>path _. command_inode path)
      else if command = ''map'' then next_word args (\<lambda>path _. command_map path)
      else if command = ''show'' then next_word args (\<lambda>path _. command_show path)
      else if command = ''bitmap'' then command_bitmap
      else if command = ''super'' then command_super
      else print (line (''Unknown command '' @ [CHR 0x27] @ command @ [CHR 0x27] @ ''. Run '' @ [CHR 0x27] @ ''help'' @
        [CHR 0x27] @ ''.'')) stop)"

text \<open>The first component of the result is the return value: whether the shell goes on.\<close>

definition execute_line :: "string \<Rightarrow> session \<Rightarrow> (bool \<times> session) option" where
  "execute_line text x = next_word text (\<lambda>command rest. case command of
       None \<Rightarrow> Some (True, x)
     | Some c \<Rightarrow>
         if c = ''quit'' \<or> c = ''exit'' then Some (False, x)
         else map_option (Pair True) (run_command c rest x))"

text \<open>\<open>fgets\<close> with a buffer of 1024 characters: the line with its end, or its first 1023 characters.\<close>

definition fgets :: "string \<Rightarrow> string \<times> string" where
  "fgets input =
     (let text = takeWhile (\<lambda>c. c \<noteq> CHR 0x0A) input;
          n = (if text = input then length text else Suc (length text)) in
      (take (min n 1023) input, drop (min n 1023) input))"

definition to_nul :: "string \<Rightarrow> string" where
  "to_nul = takeWhile (\<lambda>c. c \<noteq> CHR 0x00)"

definition show_prompt :: "session \<Rightarrow> session" where
  "show_prompt = (\<lambda>(s, w). (s\<lparr>printed := printed s @
     (if mounted s then ''userfs:'' @ current_directory s @ ''$ '' else ''userfs(unmounted)> '')\<rparr>, w))"

lemma fgets_progress: "input \<noteq> [] \<Longrightarrow> length (snd (fgets input)) < length input"
  by (cases input) (auto simp: fgets_def Let_def)

function main_loop :: "string \<Rightarrow> session \<Rightarrow> session option" where
  "main_loop input x =
     (let x = show_prompt x in
      if input = [] then print (line []) stop x
      else case execute_line (to_nul (fst (fgets input))) x of
        None \<Rightarrow> None
      | Some (False, x) \<Rightarrow> Some x
      | Some (True, x) \<Rightarrow> main_loop (snd (fgets input)) x)"
  by pat_completeness auto
termination
  by (relation "measure (\<lambda>(input, x). length input)") (auto simp: fgets_progress)

declare main_loop.simps [simp del]

text \<open>The exit status and the session at the end.\<close>

definition main :: "string option \<Rightarrow> (errno \<Rightarrow> string) \<Rightarrow> string \<Rightarrow> world \<Rightarrow> (nat \<times> session) option" where
  "main arg strerror input w =
     (let image = (case arg of None \<Rightarrow> ''userfs_live.img'' | Some a \<Rightarrow> a);
          s = \<lparr>mounted = False, image_path = image, current_directory = ''/'', messages = strerror,
               printed = line ''UserFS interactive demonstration'' @ line (''Image: '' @ image) @
                 line (''Run '' @ [CHR 0x27] @ ''help'' @ [CHR 0x27] @ '' to see commands.'') @ line []\<rparr> in
      case main_loop input (s, w) of None \<Rightarrow> None | Some (s, w) \<Rightarrow>
        if mounted s then
          (case ufs_unmount w of
             (None, w1) \<Rightarrow> map_option (Pair 1) (print_error ''automatic unmount'' stop (s, w1))
           | (Some _, w1) \<Rightarrow> map_option (Pair 0) (print (line ''Unmounted automatically before exit.'') stop (s, w1)))
        else Some (0, (s, w)))"

end
