(* ===== verification/Ufs_Frame.thy ===== *)
theory Ufs_Frame
  imports Ufs_Mmap
begin

text \<open>
  What no operation changes, for every pattern of system-call faults: the lock as the wrapper took it,
  the mounted image and the credentials. From this, every public operation gives the lock back.
\<close>

section \<open>The context of an operation\<close>

definition context_of :: "world \<Rightarrow> (nat \<times> bool \<times> lock_kind option) \<times> (bool \<times> int) \<times> (u32 \<times> u32 \<times> u32 list)" where
  "context_of w = ((lock_depth w, mutex_held w, image_lock w), (ufs_mounted w, ufs_fd w),
     (euid w, egid w, sup_groups w))"

definition in_context where
  "in_context c w \<longleftrightarrow> context_of w = c"

lemma in_context_fields [simp]:
  "in_context c (w\<lparr>errno := e\<rparr>) = in_context c w" "in_context c (w\<lparr>script := s\<rparr>) = in_context c w"
  "in_context c (w\<lparr>stable := st, unsynced := us\<rparr>) = in_context c w"
  "in_context c (w\<lparr>ticks := t\<rparr>) = in_context c w" "in_context c (w\<lparr>ufs_sb := sb\<rparr>) = in_context c w"
  "in_context c (w\<lparr>journal_seq := q\<rparr>) = in_context c w" "in_context c (w\<lparr>descriptor_table := dt\<rparr>) = in_context c w"
  "in_context c (w\<lparr>mapping_table := mt\<rparr>) = in_context c w" "in_context c (w\<lparr>memory := mem\<rparr>) = in_context c w"
  "in_context c (w\<lparr>next_map := nm\<rparr>) = in_context c w" "in_context c (w\<lparr>ufs_umask := um\<rparr>) = in_context c w"
  "in_context c (store_bytes off d w) = in_context c w"
  "in_context c (set_descriptor fd de w) = in_context c w" "in_context c (set_offset fd p w) = in_context c w"
  "in_context c (set_mapping k mp w) = in_context c w"
  by (simp_all add: in_context_def context_of_def set_descriptor_def set_offset_def set_mapping_def)

lemma in_context_add [simp]:
  "in_context c (add_free_blocks n w) = in_context c w" "in_context c (add_free_inodes n w) = in_context c w"
  by (simp_all add: add_free_blocks_def add_free_inodes_def)

lemma preserves_find_each [preserves_intros]:
  "(\<And>i. preserves P (body i)) \<Longrightarrow> preserves P (find_each is body)"
  by (induction "is") (auto intro!: preserves_intros)

lemma preserves_with_inode [preserves_intros]:
  "preserves (\<lambda>s. P (snd s)) m \<Longrightarrow> preserves P (with_inode m inode)"
  unfolding preserves_def with_inode_def by (auto split: prod.splits option.splits) (metis snd_conv)+

lemma preserves_keeping_errno [preserves_intros]:
  "(\<And>w e. P (w\<lparr>errno := e\<rparr>) = P w) \<Longrightarrow> preserves P m \<Longrightarrow> preserves P k \<Longrightarrow> preserves P (keeping_errno m k)"
  by (simp add: preserves_def keeping_errno_def)

lemma preserves_asking_pair [preserves_intros]:
  "(\<And>x. preserves (\<lambda>s. P (snd s)) (k x)) \<Longrightarrow> preserves (\<lambda>s. P (snd s)) (asking f k)"
  by (rule preserves_asking)

lemma preserves_modify_fst [preserves_intros]:
  "preserves (\<lambda>s. P (snd s)) k \<Longrightarrow> preserves (\<lambda>s. P (snd s)) (modify (apfst f) k)"
  by (rule preserves_modify) simp_all

section \<open>Quiet fields\<close>

text \<open>
  A property of the world that does not look at what the operations change freely: image, system
  calls, \<open>errno\<close> and superblock. Everything but the calls on descriptors and mappings keeps it.
\<close>

locale base_frame =
  fixes P :: "world \<Rightarrow> bool"
  assumes quiet_errno [simp]: "P (w\<lparr>errno := e\<rparr>) = P w"
    and quiet_script [simp]: "P (w\<lparr>script := s\<rparr>) = P w"
    and quiet_synced [simp]: "P (w\<lparr>stable := st, unsynced := us\<rparr>) = P w"
    and quiet_ticks [simp]: "P (w\<lparr>ticks := k\<rparr>) = P w"
    and quiet_sb [simp]: "P (w\<lparr>ufs_sb := sb\<rparr>) = P w"
    and quiet_seq [simp]: "P (w\<lparr>journal_seq := q\<rparr>) = P w"
    and quiet_store [simp]: "P (store_bytes off d w) = P w"
begin

lemma quiet_add [simp]: "P (add_free_blocks n w) = P w" "P (add_free_inodes n w) = P w"
  by (simp_all add: add_free_blocks_def add_free_inodes_def)

subsection \<open>Block layer\<close>

lemma quiet_syscalls [preserves_intros]:
  "preserves P (pread n off)" "preserves P (pwrite d off)"
  "preserves P fsync_image" "preserves P clock_gettime"
  "preserves P plain_call"
  unfolding pread_def pwrite_def fsync_image_def clock_gettime_def plain_call_def Let_def
  by (intro preserves_intros; simp)+

lemma quiet_exact [preserves_intros]:
  "preserves P (read_exact n off acc)" "preserves P (write_exact buf off sent)"
proof -
  have "P w \<Longrightarrow> P (snd (read_exact n off acc w))" for w
  proof (induction n off acc w rule: read_exact.induct)
    case (1 n off acc w)
    have "P (snd (pread (n - length acc) (off + length acc) w))"
      using 1 quiet_syscalls(1) by (simp add: preserves_def)
    then show ?case using 1
      by (subst read_exact.simps) (auto simp: fail_def split: prod.splits option.splits)
  qed
  then show "preserves P (read_exact n off acc)" by (rule preservesI)
  have "P w \<Longrightarrow> P (snd (write_exact buf off sent w))" for w
  proof (induction buf off sent w rule: write_exact.induct)
    case (1 buf off sent w)
    have "P (snd (pwrite (drop sent buf) (off + sent) w))"
      using 1 quiet_syscalls(2) by (simp add: preserves_def)
    then show ?case using 1
      by (subst write_exact.simps) (auto simp: fail_def split: prod.splits option.splits)
  qed
  then show "preserves P (write_exact buf off sent)" by (rule preservesI)
qed

lemma quiet_blocks [preserves_intros]:
  "preserves P (ufs_read_block b)"
  "preserves P (ufs_write_block b buf)"
  "preserves P ufs_sync_image"
  unfolding ufs_read_block_def ufs_write_block_def ufs_sync_image_def Let_def comp_def 
  by (intro preserves_intros; simp)+

lemma quiet_flush [preserves_intros]:
  "preserves P ufs_flush_superblock"
  "preserves P read_inode_bitmap"
  "preserves P (write_inode_bitmap bm)"
  "preserves P read_block_bitmap"
  "preserves P (write_block_bitmap bm)"
  "preserves P (read_inode n)"
  "preserves P (write_inode n i)"
  "preserves P (zero_block b)"
  "preserves P (init_pointer_block b)"
  "preserves P (read_pointers pb)"
  unfolding ufs_flush_superblock_def read_inode_bitmap_def write_inode_bitmap_def read_block_bitmap_def write_block_bitmap_def read_inode_def write_inode_def zero_block_def init_pointer_block_def read_pointers_def Let_def comp_def 
  by (intro preserves_intros; simp)+

subsection \<open>Storage\<close>

lemma quiet_alloc [preserves_intros]:
  "preserves P allocate_data_block"
  "preserves P (free_data_block b)"
  "preserves P allocate_inode"
  "preserves P (get_inode_data_block i lb)"
  unfolding allocate_data_block_def free_data_block_def allocate_inode_def get_inode_data_block_def Let_def comp_def 
  by (intro preserves_intros; simp)+

lemma quiet_pointers [preserves_intros]:
  "preserves P new_pointer_block"
  "preserves P (fill_pointer pb ptrs k)"
  "preserves P (free_pointers start ptrs)"
  unfolding new_pointer_block_def fill_pointer_def free_pointers_def Let_def comp_def 
  by (intro preserves_intros; simp)+

lemma quiet_pointer_block [preserves_intros]:
  "preserves P (free_pointer_block start pb)"
  unfolding free_pointer_block_def Let_def comp_def 
  by (intro preserves_intros; simp)+

lemma quiet_ensure [preserves_intros]:
  "preserves (\<lambda>s. P (snd s)) (ensure_direct lb)"
  "preserves (\<lambda>s. P (snd s)) (ensure_single lb)"
  "preserves (\<lambda>s. P (snd s)) (ensure_double lb)"
  "preserves P (free_level1 start l1)"
  unfolding ensure_direct_def ensure_single_def ensure_double_def free_level1_def Let_def comp_def 
  by (intro preserves_intros; simp)+

lemma quiet_release [preserves_intros]:
  "preserves (\<lambda>s. P (snd s)) (ensure_inode_data_block n lb)"
  "preserves (\<lambda>s. P (snd s)) (free_direct keep)"
  "preserves (\<lambda>s. P (snd s)) (free_single keep d)"
  "preserves (\<lambda>s. P (snd s)) (free_double keep d)"
  "preserves P (zero_tail sz i)"
  unfolding ensure_inode_data_block_def free_direct_def free_single_def free_double_def zero_tail_def Let_def comp_def 
  by (intro preserves_intros; simp)+

lemma quiet_free [preserves_intros]:
  "preserves (\<lambda>s. P (snd s)) (free_inode_blocks_after n keep)"
  unfolding free_inode_blocks_after_def Let_def comp_def 
  by (intro preserves_intros; simp)+

lemma quiet_grow [preserves_intros]:
  "preserves (\<lambda>s. P (snd s)) (grow_inode n old new sz)"
  unfolding grow_inode_def Let_def comp_def 
  by (intro preserves_intros; simp)+

lemma quiet_truncate [preserves_intros]:
  "preserves (\<lambda>s. P (snd s)) (ufs_truncate_inode n sz)"
  unfolding ufs_truncate_inode_def Let_def comp_def 
  by (intro preserves_intros; simp)+

lemma quiet_free_inode [preserves_intros]:
  "preserves P (free_inode n)"
  unfolding free_inode_def Let_def comp_def 
  by (intro preserves_intros; simp)+

subsection \<open>Journal and metadata\<close>

lemma quiet_tx [preserves_intros]:
  "preserves P ufs_tx_begin"
  "preserves P (ufs_tx_stage_block tx b buf)"
  "preserves P clear_journal"
  unfolding ufs_tx_begin_def ufs_tx_stage_block_def clear_journal_def Let_def comp_def 
  by (intro preserves_intros; simp)+

lemma quiet_commit [preserves_intros]:
  "preserves P (ufs_tx_stage_inode tx n i)"
  "preserves P (ufs_tx_commit tx)"
  unfolding ufs_tx_stage_inode_def ufs_tx_commit_def Let_def comp_def 
  by (intro preserves_intros; simp)+

lemma quiet_persist [preserves_intros]:
  "preserves P (persist_inode n i)"
  unfolding persist_inode_def Let_def comp_def 
  by (intro preserves_intros; simp)+

lemma quiet_pthread [preserves_intros]: "preserves P pthread_call"
proof (rule preservesI)
  fix w assume "P w"
  then have "P (snd (plain_call w))" by (rule preservesD [OF quiet_syscalls(5)])
  then show "P (snd (pthread_call w))"
    by (cases "plain_call w") (simp add: pthread_call_def)
qed

lemma quiet_time [preserves_intros]:
  "preserves P get_ufs_umask"
  "preserves P ufs_get_current_disk_time"
  "preserves P (valid_access_mode r)"
  unfolding get_ufs_umask_def ufs_get_current_disk_time_def valid_access_mode_def Let_def comp_def 
  by (intro preserves_intros; simp)+

lemma quiet_touch [preserves_intros]:
  "preserves P (ufs_touch_atime i)"
  "preserves P (ufs_touch_mtime_ctime i)"
  "preserves P (ufs_touch_ctime i)"
  "preserves P (ufs_should_update_atime i)"
  "preserves P (ufs_mode_allows i u g gs r)"
  unfolding ufs_touch_atime_def ufs_touch_mtime_ctime_def ufs_touch_ctime_def ufs_should_update_atime_def ufs_mode_allows_def Let_def comp_def 
  by (intro preserves_intros; simp)+

lemma quiet_access [preserves_intros]:
  "preserves P (ufs_check_access_inode i r)"
  "preserves P (ufs_initialize_metadata i t m)"
  unfolding ufs_check_access_inode_def ufs_initialize_metadata_def Let_def comp_def 
  by (intro preserves_intros; simp)+

subsection \<open>Namespace\<close>

lemma quiet_paths [preserves_intros]:
  "preserves P (validate_path path)" "preserves P (normalize_absolute_path path)"
proof -
  show "preserves P (validate_path path)"
    unfolding validate_path_def by (intro preserves_intros; simp)
  show "preserves P (normalize_absolute_path path)"
    by (rule preservesI) (simp add: normalize_absolute_path_run split: option.split)
qed

lemma quiet_directory [preserves_intros]:
  "preserves P (directory_find n name)"
  "preserves P (directory_block i lb)"
  "preserves P require_mounted"
  "preserves P (read_symlink_target i)"
  unfolding directory_find_def directory_block_def require_mounted_def read_symlink_target_def Let_def comp_def 
  by (intro preserves_intros; simp)+

lemma quiet_directory_ops [preserves_intros]:
  "preserves P (directory_add n name tn t)"
  "preserves P (directory_remove n name)"
  "preserves P (directory_is_empty n)"
  "preserves P (follow_symlink i pp rem)"
  unfolding directory_add_def directory_remove_def directory_is_empty_def follow_symlink_def Let_def comp_def 
  by (intro preserves_intros; simp)+

lemma quiet_resolve_from [preserves_intros]:
  "preserves P (resolve_from flags depth rest current parent_path)"
proof (induction "UFS_MAX_SYMLINK_DEPTH - depth" arbitrary: depth rest current parent_path rule: less_induct)
  case less
  note deeper = less
  show ?case
  proof (induction "length rest" arbitrary: rest current parent_path rule: less_induct)
    case less
    note further = less
    have link: "preserves P (resolve_from flags (depth + 1) (drop 1 path) UFS_ROOT_INODE [slash])"
      if "\<not> UFS_MAX_SYMLINK_DEPTH \<le> depth + 1" for path
      using that by (intro deeper) arith
    have step: "preserves P (resolve_from flags depth (drop 1 (dropWhile (\<lambda>c. c \<noteq> slash) rest)) n pp)"
      if "rest \<noteq> []" "takeWhile (\<lambda>c. c \<noteq> slash) rest \<noteq> []" for n pp
      using that by (intro further rest_progress)
    show ?case
      by (subst resolve_from_turn, unfold Let_def) (intro preserves_intros link step; simp)
  qed
qed

lemma quiet_resolve [preserves_intros]:
  "preserves P (resolve_absolute path flags depth)"
  unfolding resolve_absolute_def Let_def comp_def 
  by (intro preserves_intros; simp)+

lemma quiet_resolve_path [preserves_intros]:
  "preserves P (resolve_path_ex path flags)"
  unfolding resolve_path_ex_def Let_def comp_def 
  by (intro preserves_intros; simp)+

lemma quiet_resolve_final [preserves_intros]:
  "preserves P (resolve_path path)"
  "preserves P (get_inode_from_path path)"
  unfolding resolve_path_def get_inode_from_path_def Let_def comp_def 
  by (intro preserves_intros; simp)+

lemma quiet_parent [preserves_intros]:
  "preserves P (resolve_parent path)"
  unfolding resolve_parent_def Let_def comp_def 
  by (intro preserves_intros; simp)+

lemma quiet_steps [preserves_intros]:
  "preserves P (writable_parent path)"
  "preserves P (touch_parent n)"
  "preserves P (prepare_inode n t m)"
  "preserves P lock_mappings"
  "preserves P unlock_mappings"
  unfolding writable_parent_def touch_parent_def prepare_inode_def lock_mappings_def unlock_mappings_def Let_def comp_def 
  by (intro preserves_intros; simp)+

lemma quiet_if_name_free [preserves_intros]:
  "preserves P k \<Longrightarrow> preserves P (if_name_free n name k)"
  unfolding if_name_free_def by (intro preserves_intros; simp)

lemma quiet_list_slots [preserves_intros]: "preserves P (list_slots m ds es)"
  by (induction m ds es rule: list_slots.induct) (auto intro!: preserves_intros)

lemma quiet_mapped [preserves_intros]:
  "preserves P (ufs_mmap_inode_is_mapped n)"
  unfolding ufs_mmap_inode_is_mapped_def Let_def comp_def 
  by (intro preserves_intros; simp)+

lemma quiet_create [preserves_intros]:
  "preserves P (create_node path t)"
  "preserves P (ufs_rmdir_unlocked path)"
  "preserves P (ufs_unlink_unlocked path)"
  "preserves P (ufs_listdir_unlocked path m)"
  "preserves P (ufs_stat_unlocked path)"
  "preserves P (ufs_lstat_unlocked path)"
  "preserves P (ufs_link_unlocked path path2)"
  "preserves P (ufs_symlink_unlocked target path)"
  "preserves P (ufs_readlink_unlocked path n)"
  unfolding create_node_def ufs_rmdir_unlocked_def ufs_unlink_unlocked_def ufs_listdir_unlocked_def ufs_stat_unlocked_def ufs_lstat_unlocked_def ufs_link_unlocked_def ufs_symlink_unlocked_def ufs_readlink_unlocked_def Let_def comp_def 
  by (intro preserves_intros; simp)+

lemma quiet_make [preserves_intros]:
  "preserves P (ufs_mkdir_unlocked path)"
  "preserves P (ufs_create_unlocked path)"
  unfolding ufs_mkdir_unlocked_def ufs_create_unlocked_def Let_def comp_def 
  by (intro preserves_intros; simp)+

subsection \<open>Attributes, open files, mappings\<close>

lemma quiet_attr [preserves_intros]:
  "preserves P (caller_is_member_of_gid g)"
  "preserves P (chown_inode u g i)"
  "preserves P (utimens_inode ts i)"
  "preserves P (ufs_truncate_unlocked path sz)"
  unfolding caller_is_member_of_gid_def chown_inode_def utimens_inode_def ufs_truncate_unlocked_def Let_def comp_def 
  by (intro preserves_intros; simp)+

lemma quiet_handles [preserves_intros]:
  "preserves P (validate_open_flags fl)"
  "preserves P allocate_descriptor"
  "preserves P (validate_descriptor fd)"
  "preserves P (find_mapping a)"
  "preserves P (mapped_block i p)"
  "preserves P (add_seek_offset b ch)"
  unfolding validate_open_flags_def allocate_descriptor_def validate_descriptor_def find_mapping_def mapped_block_def add_seek_offset_def Let_def comp_def 
  by (intro preserves_intros; simp)+

lemma quiet_io [preserves_intros]:
  "preserves P (file_io_get_fd_info fd)"
  "preserves P (write_chunk b inside d)"
  unfolding file_io_get_fd_info_def write_chunk_def Let_def comp_def 
  by (intro preserves_intros; simp)+

end

text \<open>Nor at the memory of mappings and the positions of open files.\<close>

locale quiet_frame = base_frame +
  assumes quiet_memory [simp]: "P (w\<lparr>memory := mem\<rparr>) = P w"
    and quiet_next_map [simp]: "P (w\<lparr>next_map := nm\<rparr>) = P w"
    and quiet_offset [simp]: "P (set_offset fd p w) = P w"
begin

lemma quiet_seek [preserves_intros]: "preserves P (ufs_seek_unlocked fd off wh)"
  unfolding ufs_seek_unlocked_def Let_def comp_def 
  by (intro preserves_intros; simp)+

lemma quiet_loops [preserves_intros]:
  "preserves P (read_loop fd i n moved acc)" "preserves P (write_loop fd i start buf moved)"
  "preserves P (read_range_loop i start n moved acc)"
  "preserves P (write_range_loop i start buf moved)"
proof -
  have got: "P (snd (on_ok (mapped_block i p) ufs_read_block w))" if "P w" for i p w
    by (rule preservesD [where P = P, OF _ that]) (intro preserves_intros)
  have put: "P (snd (on_ok (mapped_block i p) (\<lambda>b. write_chunk b k d) w))" if "P w" for i p k d w
    by (rule preservesD [where P = P, OF _ that]) (intro preserves_intros)
  have "P w \<Longrightarrow> P (snd (read_loop fd i n moved acc w))" for w
  proof (induction fd i n moved acc w rule: read_loop.induct)
    case (1 fd i n moved acc w)
    then show ?case using got [of w i "fde_offset (descriptor fd w)"]
      by (subst read_loop.simps) (auto simp: Let_def split: prod.splits option.splits)
  qed
  then show "preserves P (read_loop fd i n moved acc)" by (rule preservesI)
  have "P w \<Longrightarrow> P (snd (write_loop fd i start buf moved w))" for w
  proof (induction fd i start buf moved w rule: write_loop.induct)
    case (1 fd i start buf moved w)
    then show ?case using put [of w i "start + of_nat moved" "inside_block (start + of_nat moved)"
        "field moved (chunk_at (start + of_nat moved) (length buf - moved)) buf"]
      by (subst write_loop.simps) (auto simp: Let_def split: prod.splits option.splits)
  qed
  then show "preserves P (write_loop fd i start buf moved)" by (rule preservesI)
  have "P w \<Longrightarrow> P (snd (read_range_loop i start n moved acc w))" for w
  proof (induction i start n moved acc w rule: read_range_loop.induct)
    case (1 i start n moved acc w)
    then show ?case using got [of w i "start + of_nat moved"]
      by (subst read_range_loop.simps) (auto simp: Let_def split: prod.splits option.splits)
  qed
  then show "preserves P (read_range_loop i start n moved acc)" by (rule preservesI)
  have "P w \<Longrightarrow> P (snd (write_range_loop i start buf moved w))" for w
  proof (induction i start buf moved w rule: write_range_loop.induct)
    case (1 i start buf moved w)
    then show ?case using put [of w i "start + of_nat moved" "inside_block (start + of_nat moved)"
        "field moved (chunk_at (start + of_nat moved) (length buf - moved)) buf"]
      by (subst write_range_loop.simps) (auto simp: Let_def split: prod.splits option.splits)
  qed
  then show "preserves P (write_range_loop i start buf moved)" by (rule preservesI)
qed

lemma quiet_reposition [simp]: "P ((if b then set_offset k p else id) w) = P w"
  by simp

lemma quiet_ranges [preserves_intros]:
  "preserves P (ufs_read_unlocked fd n)"
  "preserves P (ufs_write_unlocked fd buf)"
  "preserves P (read_inode_range n g cnt off)"
  "preserves P (write_inode_range n g buf off)"
  "preserves P (mmap_anonymous n)"
  unfolding ufs_read_unlocked_def ufs_write_unlocked_def read_inode_range_def write_inode_range_def mmap_anonymous_def Let_def comp_def 
  by (intro preserves_intros; simp)+

lemma quiet_sync [preserves_intros]:
  "preserves P (sync_mapping mp n)"
  unfolding sync_mapping_def Let_def comp_def 
  by (intro preserves_intros; simp)+

lemma quiet_mappings [preserves_intros]:
  "preserves P (ufs_msync_unlocked a n)"
  unfolding ufs_msync_unlocked_def Let_def comp_def 
  by (intro preserves_intros; simp)+

end

interpretation ctx: quiet_frame "in_context c" for c
  by unfold_locales (simp_all add: in_context_def context_of_def set_offset_def set_descriptor_def)

lemma context_tables [preserves_intros]:
  "preserves (in_context c) (ufs_open_unlocked path fl)"
  "preserves (in_context c) (ufs_close_unlocked fd)"
  "preserves (in_context c) (ufs_mmap_unlocked fd n prot flags off)"
  "preserves (in_context c) (ufs_munmap_unlocked a n)"
  unfolding ufs_open_unlocked_def ufs_close_unlocked_def ufs_mmap_unlocked_def ufs_munmap_unlocked_def Let_def comp_def
  by (intro preserves_intros; simp)+

section \<open>The operation lock is given back\<close>

text \<open>No operation of this thread is under way: the depth is 0 and the mutex is free.\<close>

definition outermost :: "world \<Rightarrow> bool" where
  "outermost w \<longleftrightarrow> lock_depth w = 0 \<and> \<not> mutex_held w"

lemma outermost_errno [simp]: "outermost (w\<lparr>errno := e\<rparr>) = outermost w"
  by (simp add: outermost_def)

lemma context_outermost: "(\<And>c. preserves (in_context c) m) \<Longrightarrow> preserves outermost m"
  unfolding preserves_def in_context_def outermost_def context_of_def by (metis prod.inject)

lemma context_lock_fields:
  assumes "\<And>c. preserves (in_context c) m"
  shows "lock_depth (snd (m w)) = lock_depth w" "mutex_held (snd (m w)) = mutex_held w"
    "ufs_fd (snd (m w)) = ufs_fd w" "ufs_mounted (snd (m w)) = ufs_mounted w"
  using preservesD [OF assms [of "context_of w"], of w] by (simp_all add: in_context_def context_of_def)

lemmas plain_call_fields = context_lock_fields [of plain_call, OF ctx.quiet_syscalls(5)]

lemma fcntl_lock_fields:
  "lock_depth (snd (fcntl_setlkw kind w)) = lock_depth w \<and> mutex_held (snd (fcntl_setlkw kind w)) = mutex_held w"
proof (induction kind w rule: fcntl_setlkw.induct)
  case (1 kind w)
  then show ?case using plain_call_fields [of w]
    by (subst (1 2) fcntl_setlkw.simps) (auto split: prod.splits option.splits)
qed

lemma lock_image_fields:
  "lock_depth (snd (lock_image kind w)) = lock_depth w" "mutex_held (snd (lock_image kind w)) = mutex_held w"
  using fcntl_lock_fields [of kind w] by (simp_all add: lock_image_def asking_def require_def fail_def)

lemma lock_operation_outermost:
  assumes "outermost w" and "lock_operation kind w = (r, w1)"
  shows "if r = None then outermost w1 else lock_depth w1 = 1"
proof -
  obtain r0 w0 where p: "plain_call w = (r0, w0)" by fastforce
  then have w0: "outermost w0" using plain_call_fields [of w] assms(1) by (simp add: outermost_def)
  obtain r2 w2 where l: "lock_image kind (w0\<lparr>mutex_held := True\<rparr>) = (r2, w2)" by fastforce
  then have "lock_depth w2 = 0" using lock_image_fields(1) [of kind "w0\<lparr>mutex_held := True\<rparr>"] w0
    by (simp add: outermost_def)
  then show ?thesis
    using assms p w0 l
    by (cases r0; cases r2)
      (auto simp: lock_operation_def outermost_def asking_def on_ok_def attempt_def modify_def ret_def fail_same_def)
qed

lemma unlock_outermost_gives_back: "lock_depth w = 1 \<Longrightarrow> outermost (snd (ufs_operation_unlock w))"
  using plain_call_fields [of "w\<lparr>lock_depth := 0\<rparr>"]
  by (cases "plain_call (w\<lparr>lock_depth := 0\<rparr>)")
    (auto simp: ufs_operation_unlock_def outermost_def asking_def on_ok_def discard_def modify_def ret_def
      split: option.splits)

lemma outermost_with_lock:
  assumes "\<And>c. preserves (in_context c) m"
  shows "preserves outermost (with_lock (lock_operation kind) m)"
proof (rule preservesI)
  fix w assume w: "outermost w"
  obtain r w1 where l: "lock_operation kind w = (r, w1)" by fastforce
  obtain s w2 where b: "m w1 = (s, w2)" by fastforce
  have "lock_depth w2 = lock_depth w1" using context_lock_fields(1) [OF assms, of w1] b by simp
  then show "outermost (snd (with_lock (lock_operation kind) m w))"
    using lock_operation_outermost [OF w l] unlock_outermost_gives_back [of w2] b
    by (cases r) (auto simp: with_lock_def on_ok_def l unlock_after_def)
qed

text \<open>The same for the public operations: guards before the lock, the lock, the body.\<close>

lemma outermost_guards [preserves_intros]:
  "preserves outermost (valid_access_mode r)" "preserves outermost (valid_timespec t)"
  unfolding valid_access_mode_def valid_timespec_def by (intro preserves_intros; simp)+

lemma outermost_locked [preserves_intros]:
  "(\<And>c. preserves (in_context c) m) \<Longrightarrow> preserves outermost (with_lock ufs_operation_write_lock m)"
  "(\<And>c. preserves (in_context c) m) \<Longrightarrow> preserves outermost (with_lock ufs_operation_read_lock m)"
  unfolding ufs_operation_write_lock_def ufs_operation_read_lock_def by (rule outermost_with_lock; simp)+

lemma locks_given_back:
  "preserves outermost (ufs_mkdir path)" "preserves outermost (ufs_create path)"
  "preserves outermost (ufs_rmdir path)" "preserves outermost (ufs_unlink path)"
  "preserves outermost (ufs_listdir path max_entries)" "preserves outermost (ufs_stat_op path)"
  "preserves outermost (ufs_lstat path)" "preserves outermost (ufs_link path new_path)"
  "preserves outermost (ufs_symlink target path)" "preserves outermost (ufs_readlink path n)"
  "preserves outermost (ufs_chmod path mode)" "preserves outermost (ufs_chown path uid gid)"
  "preserves outermost (ufs_access path mode)" "preserves outermost (ufs_utimens path ts)"
  "preserves outermost (ufs_truncate path size64)" "preserves outermost (ufs_open path flags)"
  "preserves outermost (ufs_close fd)" "preserves outermost (ufs_read fd n)"
  "preserves outermost (ufs_write fd buf)" "preserves outermost (ufs_seek fd off whence)"
  "preserves outermost (ufs_mmap fd len prot flags off)" "preserves outermost (ufs_msync address len)"
  "preserves outermost (ufs_munmap address len)"
  unfolding ufs_mkdir_def ufs_create_def ufs_rmdir_def ufs_unlink_def ufs_listdir_def ufs_stat_op_def ufs_lstat_def
    ufs_link_def ufs_symlink_def ufs_readlink_def ufs_chmod_def ufs_chown_def ufs_access_def ufs_utimens_def
    ufs_truncate_def ufs_open_def ufs_close_def ufs_read_def ufs_write_def ufs_seek_def ufs_mmap_def ufs_msync_def
    ufs_munmap_def
  by (intro preserves_intros; simp)+

text \<open>C23: Every public operation gives the operation lock back. Whatever system calls fail, and whether
  the operation succeeds or not, a thread that calls it outside of any other operation has depth 0
  and does not hold the mutex afterwards: no error path forgets the unlock or unlocks twice.\<close>

theorem public_operations_release_lock:
  "preserves outermost (ufs_mkdir path) \<and> preserves outermost (ufs_create path) \<and>
   preserves outermost (ufs_rmdir path) \<and> preserves outermost (ufs_unlink path) \<and>
   preserves outermost (ufs_listdir path max_entries) \<and> preserves outermost (ufs_stat_op path) \<and>
   preserves outermost (ufs_lstat path) \<and> preserves outermost (ufs_link path new_path) \<and>
   preserves outermost (ufs_symlink target path) \<and> preserves outermost (ufs_readlink path n) \<and>
   preserves outermost (ufs_chmod path mode) \<and> preserves outermost (ufs_chown path uid gid) \<and>
   preserves outermost (ufs_access path mode) \<and> preserves outermost (ufs_utimens path ts) \<and>
   preserves outermost (ufs_truncate path size64) \<and> preserves outermost (ufs_open path flags) \<and>
   preserves outermost (ufs_close fd) \<and> preserves outermost (ufs_read fd n) \<and>
   preserves outermost (ufs_write fd buf) \<and> preserves outermost (ufs_seek fd off whence) \<and>
   preserves outermost (ufs_mmap fd len prot flags off) \<and> preserves outermost (ufs_msync address len) \<and>
   preserves outermost (ufs_munmap address len)"
  by (intro conjI locks_given_back)

end
