(* ===== verification/Ufs_Tables.thy ===== *)
theory Ufs_Tables
  imports Ufs_Frame Ufs_Lifecycle
begin

text \<open>
  The type invariant of the two tables of open objects. Every descriptor in use names an inode of the
  inode table and has flags that \<open>ufs_open\<close> accepts; every mapping in use covers a non-empty range
  within the largest file, with a protection and flags that \<open>ufs_mmap\<close> accepts. All public operations keep
  it, for every pattern of system-call faults.
\<close>

section \<open>Operations that keep the tables\<close>

text \<open>A property that does not look at the operation lock.\<close>

locale lock_frame = base_frame +
  assumes locks [simp]: "P (w\<lparr>mutex_held := b\<rparr>) = P w" "P (w\<lparr>lock_depth := d\<rparr>) = P w" "P (w\<lparr>image_lock := l\<rparr>) = P w"
begin

lemma fcntl_keeps [preserves_intros]: "preserves P (fcntl_setlkw kind)"
proof -
  have "P w \<Longrightarrow> P (snd (fcntl_setlkw kind w))" for w
  proof (induction kind w rule: fcntl_setlkw.induct)
    case (1 kind w)
    then show ?case using preservesD [OF quiet_syscalls(5)]
      by (subst fcntl_setlkw.simps) (fastforce split: prod.splits option.splits)
  qed
  then show ?thesis by (rule preservesI)
qed

lemma lock_keeps [preserves_intros]:
  "preserves P (lock_operation kind)" "preserves P ufs_operation_unlock"
  unfolding lock_operation_def lock_image_def ufs_operation_unlock_def by (intro preserves_intros; simp)+

lemma with_lock_keeps [preserves_intros]:
  assumes "preserves P m"
  shows "preserves P (with_lock ufs_operation_write_lock m)" "preserves P (with_lock ufs_operation_read_lock m)"
proof -
  have "preserves P (unlock_after m)"
    using assms lock_keeps(2) by (auto simp: preserves_def unlock_after_def split: prod.splits)
  then show "preserves P (with_lock ufs_operation_write_lock m)" "preserves P (with_lock ufs_operation_read_lock m)"
    unfolding with_lock_def ufs_operation_write_lock_def ufs_operation_read_lock_def by (intro preserves_intros; simp)+
qed

end

text \<open>A property that does not look at the mounted image or the host file either.\<close>

locale host_frame = quiet_frame +
  assumes mounts [simp]: "P (w\<lparr>ufs_fd := fd\<rparr>) = P w" "P (w\<lparr>ufs_mounted := m\<rparr>) = P w"
    and images [simp]: "P (w\<lparr>img := f\<rparr>) = P w" "P (w\<lparr>img_len := n\<rparr>) = P w" "P (w\<lparr>img_exists := x\<rparr>) = P w"
    and fresh [simp]: "P w \<Longrightarrow> P (descriptor_table_reset w)"
    and image_locks [simp]: "P (w\<lparr>image_lock := l\<rparr>) = P w"
begin

lemma host_keeps [preserves_intros]:
  "preserves P (open_image create_and_truncate)" "preserves P close_image" "preserves P (ftruncate_image n)"
  "preserves P fstat_size" "preserves P (validate_superblock sb)"
proof -
  show "preserves P close_image"
    using quiet_syscalls(5) by (auto simp: preserves_def close_image_def split: prod.splits)
qed (unfold open_image_def ftruncate_image_def fstat_size_def validate_superblock_def, (intro preserves_intros; simp)+)

lemma set_fd_keeps [simp]: "P (set_fd fd w) = P w"
  by (simp add: set_fd_def)

lemma format_steps [preserves_intros]:
  "preserves P format_root" "preserves P close_format_failed" "preserves P close_format_done"
  unfolding format_root_def close_format_failed_def close_format_done_def Let_def by (intro preserves_intros; simp)+

lemma format_keeps:
  "preserves P (ufs_format image_path image_size)"
  unfolding ufs_format_def write_fresh_image_def by (intro preserves_intros; simp)

lemma verify_keeps [preserves_intros]: "preserves P (verify_payload header ks acc)"
  by (induction ks arbitrary: acc) (auto intro!: preserves_intros)

lemma recover_keeps [preserves_intros]: "preserves P ufs_journal_recover" "preserves P read_valid_superblock"
  unfolding ufs_journal_recover_def read_valid_superblock_def Let_def by (intro preserves_intros; simp)+

lemma drop_keeps [simp]: "P (drop_image w) = P w"
proof -
  have "drop_image w = w\<lparr>ufs_fd := - 1\<rparr>\<lparr>ufs_mounted := False\<rparr>\<lparr>ufs_sb := zero_superblock\<rparr>" by (simp add: drop_image_def)
  then show ?thesis by simp
qed

lemma mount_keeps:
  "preserves P (ufs_mount image_path)"
  unfolding ufs_mount_def by (intro preserves_intros; simp)

lemma active_keeps [preserves_intros]: "preserves P ufs_mmap_has_active"
  unfolding ufs_mmap_has_active_def by (intro preserves_intros; simp)

lemma unmount_keeps:
  "preserves P ufs_unmount"
  unfolding ufs_unmount_def by (intro preserves_intros; simp)

end

text \<open>Nor at the lock and the umask.\<close>

locale table_frame = host_frame P + lock_frame P for P +
  assumes masks [simp]: "P (w\<lparr>ufs_umask := um\<rparr>) = P w"
begin

lemma guards_keep [preserves_intros]: "preserves P (valid_timespec t)"
  unfolding valid_timespec_def by (intro preserves_intros; simp)

lemma namespace_keeps:
  "preserves P (ufs_mkdir path)" "preserves P (ufs_create path)" "preserves P (ufs_rmdir path)"
  "preserves P (ufs_unlink path)" "preserves P (ufs_listdir path max_entries)" "preserves P (ufs_stat_op path)"
  "preserves P (ufs_lstat path)" "preserves P (ufs_link path new_path)" "preserves P (ufs_symlink target path)"
  "preserves P (ufs_readlink path n)"
  unfolding ufs_mkdir_def ufs_create_def ufs_rmdir_def ufs_unlink_def ufs_listdir_def ufs_stat_op_def ufs_lstat_def
    ufs_link_def ufs_symlink_def ufs_readlink_def
  by (intro preserves_intros; simp)+

lemma attributes_keep:
  "preserves P (ufs_chmod path mode)" "preserves P (ufs_chown path uid gid)" "preserves P (ufs_access path mode)"
  "preserves P (ufs_utimens path ts)" "preserves P (ufs_truncate path size64)"
  unfolding ufs_chmod_def ufs_chown_def ufs_access_def ufs_utimens_def ufs_truncate_def
  by (intro preserves_intros; simp)+

lemma transfers_keep:
  "preserves P (ufs_read fd n)" "preserves P (ufs_write fd buf)" "preserves P (ufs_seek fd off whence)"
  "preserves P (ufs_msync address len)"
  unfolding ufs_read_def ufs_write_def ufs_seek_def ufs_msync_def
  by (intro preserves_intros; simp)+

end

section \<open>Results that carry facts\<close>

definition returns :: "'a op \<Rightarrow> 'a \<Rightarrow> bool" where
  "returns m x \<longleftrightarrow> (\<exists>w w1. m w = (Some x, w1))"

lemma preserves_on_ok_returns:
  "preserves P m \<Longrightarrow> (\<And>x. returns m x \<Longrightarrow> preserves P (k x)) \<Longrightarrow> preserves P (on_ok m k)"
  unfolding preserves_def on_ok_def returns_def by (auto split: prod.splits option.splits) (metis snd_conv)+

lemma preserves_attempt_returns:
  "preserves P m \<Longrightarrow> (\<And>x. returns m x \<Longrightarrow> preserves P (ok x)) \<Longrightarrow> preserves P err \<Longrightarrow> preserves P (attempt m ok err)"
  unfolding preserves_def attempt_def returns_def by (auto split: prod.splits option.splits) (metis snd_conv)+

lemma preserves_asking_when:
  "(\<And>w. P w \<Longrightarrow> preserves P (k (f w))) \<Longrightarrow> preserves P (asking f k)"
  by (simp add: preserves_def asking_def)

lemma returns_read_inode: "returns (read_inode n) i \<Longrightarrow> n < UFS_MAX_INODES"
  by (auto simp: returns_def read_inode_def asking_def require_def fail_def split: if_splits)

lemma returns_descriptor: "returns (validate_descriptor fd) k \<Longrightarrow> k < UFS_MAX_OPEN_FILES"
  by (auto simp: returns_def validate_descriptor_def asking_def require_def fail_def ret_def split: if_splits)

lemma returns_allocate: "returns allocate_descriptor k \<Longrightarrow> k < UFS_MAX_OPEN_FILES"
  by (auto simp: returns_def allocate_descriptor_def asking_def ret_def fail_def first_from_Some split: option.splits)

lemma returns_mapping: "returns (find_mapping a) k \<Longrightarrow> k < UFS_MAX_MAPPINGS"
  by (auto simp: returns_def find_mapping_def asking_def ret_def fail_def first_from_Some split: option.splits)

section \<open>The invariant\<close>

definition legal_flags :: "u32 \<Rightarrow> bool" where
  "legal_flags fl \<longleftrightarrow> fl \<in> {UFS_O_RDONLY, UFS_O_WRONLY, UFS_O_RDWR, UFS_O_WRONLY OR UFS_O_APPEND, UFS_O_RDWR OR UFS_O_APPEND}"

definition handle_ok :: "file_io_descriptor \<Rightarrow> bool" where
  "handle_ok d \<longleftrightarrow> (fde_in_use d \<longrightarrow> unat (fde_inode_number d) < UFS_MAX_INODES \<and> legal_flags (fde_flags d))"

definition mapping_ok :: "ufs_mapping \<Rightarrow> bool" where
  "mapping_ok m \<longleftrightarrow> (map_in_use m \<longrightarrow> unat (map_inode_number m) < UFS_MAX_INODES \<and> 0 < map_length m \<and>
     unat (map_file_offset m) + unat (map_length m) \<le> UFS_MAX_FILE_BLOCKS * UFS_BLOCK_SIZE \<and>
     map_protection m \<in> {UFS_PROT_READ, UFS_PROT_READ OR UFS_PROT_WRITE} \<and>
     map_flags m \<in> {UFS_MAP_SHARED, UFS_MAP_PRIVATE})"

definition tables_ok :: "world \<Rightarrow> bool" where
  "tables_ok w \<longleftrightarrow> length (descriptor_table w) = UFS_MAX_OPEN_FILES \<and> length (mapping_table w) = UFS_MAX_MAPPINGS \<and>
     (\<forall>d \<in> set (descriptor_table w). handle_ok d) \<and> (\<forall>m \<in> set (mapping_table w). mapping_ok m)"

lemma all_update:
  "k < length xs \<Longrightarrow> Q (xs ! k) = Q x \<Longrightarrow> (\<forall>y \<in> set (xs[k := x]). Q y) = (\<forall>y \<in> set xs. Q y)"
  unfolding all_set_conv_all_nth by (metis length_list_update nth_list_update_eq nth_list_update_neq)

lemma tables_offset: "tables_ok (set_offset fd p w) = tables_ok w"
proof (cases "fd < length (descriptor_table w)")
  case True
  then show ?thesis
    using all_update [of fd "descriptor_table w" handle_ok "(descriptor_table w ! fd)\<lparr>fde_offset := p\<rparr>"]
    by (simp add: tables_ok_def set_offset_def set_descriptor_def descriptor_def handle_ok_def)
qed (simp add: tables_ok_def set_offset_def set_descriptor_def list_update_beyond not_less)

interpretation tables: table_frame tables_ok
  by unfold_locales (simp_all add: tables_offset, simp_all add: tables_ok_def descriptor_table_reset_def handle_ok_def zero_descriptor_def)

lemma tables_set_descriptor: "tables_ok w \<Longrightarrow> handle_ok d \<Longrightarrow> tables_ok (set_descriptor k d w)"
  using set_update_subset_insert [of "descriptor_table w" k d] by (auto simp: tables_ok_def set_descriptor_def)

lemma tables_set_mapping: "tables_ok w \<Longrightarrow> mapping_ok m \<Longrightarrow> tables_ok (set_mapping k m w)"
  using set_update_subset_insert [of "mapping_table w" k m] by (auto simp: tables_ok_def set_mapping_def)

lemma zero_entries: "handle_ok zero_descriptor" "mapping_ok zero_mapping"
  by (simp_all add: handle_ok_def zero_descriptor_def mapping_ok_def zero_mapping_def)

lemma small_bits:
  assumes "(x :: u32) AND NOT 7 = 0" shows "x \<in> {0, 1, 2, 3, 4, 5, 6, 7}"
proof -
  have "bit x k = bit (take_bit 3 x) k" if "k < 32" for k
  proof -
    have seven: "(7 :: u32) = mask 3" by (simp add: mask_eq_exp_minus_1)
    have "\<not> bit (x AND NOT (mask 3)) k" using assms unfolding seven by simp
    then show ?thesis using that by (auto simp: bit_and_iff bit_not_iff bit_mask_iff bit_take_bit_iff)
  qed
  then have "x = take_bit 3 x" by (intro bit_word_eqI) simp
  then have "unat x < 2 ^ 3" by (metis take_bit_nat_less_exp unsigned_take_bit_eq)
  then have "unat x \<in> {0, 1, 2, 3, 4, 5, 6, 7}" by auto
  moreover have "x = of_nat (unat x)" by simp
  ultimately have "x \<in> of_nat ` {0, 1, 2, 3, 4, 5, 6, 7}" by (rule image_eqI [rotated])
  then show ?thesis by simp
qed

lemma returns_flags: "returns (validate_open_flags fl) u \<Longrightarrow> legal_flags fl"
proof -
  assume "returns (validate_open_flags fl) u"
  then have z: "fl AND NOT (UFS_O_RDWR OR UFS_O_APPEND) = 0" and m: "fl AND UFS_O_RDWR \<in> {1, 2, 3}"
    and ap: "\<not> (fl AND UFS_O_APPEND \<noteq> 0 \<and> fl AND UFS_O_RDWR = UFS_O_RDONLY)"
    by (auto simp: returns_def validate_open_flags_def Let_def require_def fail_def split: if_splits)
  have "fl \<in> {0, 1, 2, 3, 4, 5, 6, 7}" using z by (intro small_bits) simp
  then show ?thesis using m ap by (auto simp: legal_flags_def)
qed

section \<open>The operations on the tables\<close>

lemma open_keeps: "preserves tables_ok (ufs_open_unlocked path flags)"
proof -
  have ok: "handle_ok \<lparr>fde_in_use = True, fde_inode_number = of_nat n, fde_inode_generation = g, fde_offset = 0, fde_flags = flags\<rparr>"
    if "n < UFS_MAX_INODES" "legal_flags flags" for n g
    using that by (simp add: handle_ok_def unat_of_nat)
  show ?thesis
    unfolding ufs_open_unlocked_def
    by (rule preserves_on_ok [OF tables.quiet_directory(3)], rule preserves_on_ok_returns [OF tables.quiet_handles(1)],
        rule preserves_on_ok [OF tables.quiet_resolve_path], rule preserves_on_ok_returns [OF tables.quiet_flush(6)])
      (intro preserves_intros; simp add: tables_set_descriptor ok returns_flags returns_read_inode)
qed

lemma close_keeps: "preserves tables_ok (ufs_close_unlocked fd)"
  unfolding ufs_close_unlocked_def
  by (intro preserves_intros; simp add: tables_set_descriptor zero_entries)

lemma legal_protection:
  assumes "(p :: u32) AND NOT 3 = 0" and "p AND 1 \<noteq> 0" shows "p \<in> {1, 3}"
proof -
  have "NOT 7 = NOT 3 AND NOT (7 :: u32)" by simp
  then have "p AND NOT 7 = (p AND NOT 3) AND NOT 7" by (simp only: and.assoc)
  then have "p AND NOT 7 = 0" using assms(1) by simp
  then have "p \<in> {0, 1, 2, 3, 4, 5, 6, 7}" by (rule small_bits)
  then show ?thesis using assms by auto
qed

lemma range_fits:
  assumes "\<not> - 1 - (offset :: u64) < len" and "\<not> UFS_MAX_MAPPED_FILE_SIZE < offset + len"
  shows "unat offset + unat len \<le> UFS_MAX_FILE_BLOCKS * UFS_BLOCK_SIZE"
proof -
  have "unat (- 1 - offset) = unat (- 1 :: u64) - unat offset" by (rule unat_sub) simp
  then have "unat len \<le> unat (- 1 :: u64) - unat offset" using assms(1) by (simp add: not_less word_le_nat_alt)
  moreover have "unat (- 1 :: u64) = 2 ^ 64 - 1" by (simp add: unsigned_minus_1_eq_mask mask_eq_exp_minus_1)
  moreover have "unat offset < 2 ^ 64" using unsigned_less [of offset] by simp
  ultimately have "unat offset + unat len < 2 ^ 64" by linarith
  then have "unat (offset + len) = unat offset + unat len" by (simp add: unat_word_ariths)
  then show ?thesis using assms(2) by (simp add: not_less word_le_nat_alt)
qed

lemma mmap_keeps: "preserves tables_ok (ufs_mmap_unlocked fd len prot flags offset)"
proof -
  have ok: "tables_ok (set_mapping slot \<lparr>map_in_use = True, map_address = a, map_length = len, map_file_offset = offset,
      map_inode_number = n, map_inode_generation = g, map_protection = prot, map_flags = flags\<rparr> w)"
    if "tables_ok w" "unat n < UFS_MAX_INODES" "\<not> (len = 0 \<or> sint offset < 0 \<or>
         prot AND NOT (UFS_PROT_READ OR UFS_PROT_WRITE) \<noteq> 0 \<or> prot AND UFS_PROT_READ = 0 \<or>
         (flags \<noteq> UFS_MAP_SHARED \<and> flags \<noteq> UFS_MAP_PRIVATE) \<or>
         - 1 - offset < len \<or> UFS_MAX_MAPPED_FILE_SIZE < offset + len)" for slot a n g w
    using that range_fits [of offset len] legal_protection [of prot] word_neq_0_conv [of len]
    by (intro tables_set_mapping) (simp_all add: mapping_ok_def)
  show ?thesis
    unfolding ufs_mmap_unlocked_def Let_def
    by (rule preserves_on_ok [OF tables.quiet_directory(3)], rule preserves_require, simp,
        rule preserves_on_ok [OF tables.quiet_io(1)], rule preserves_case_prod, rule preserves_case_prod, rule preserves_require, simp,
        rule preserves_on_ok_returns [OF tables.quiet_flush(6)])
      (intro preserves_intros; ((rule ok; (assumption | erule returns_read_inode)) | simp))
qed

lemma munmap_keeps: "preserves tables_ok (ufs_munmap_unlocked address len)"
proof -
  have restored: "tables_ok (set_mapping k (mapping_table u ! k) w)" if "tables_ok u" "tables_ok w" "k < UFS_MAX_MAPPINGS" for u w k
    using that by (intro tables_set_mapping) (simp_all add: tables_ok_def)
  show ?thesis
    unfolding ufs_munmap_unlocked_def
    by (rule preserves_on_ok [OF tables.quiet_directory(3)], rule preserves_require, simp,
        rule preserves_on_ok [OF tables.quiet_steps(4)], rule preserves_attempt_returns [OF tables.quiet_handles(4)],
        rule preserves_asking_when)
      (intro preserves_intros; simp add: restored returns_mapping tables_set_mapping zero_entries)+
qed

lemma tables_operations:
  "preserves tables_ok (ufs_open path flags)" "preserves tables_ok (ufs_close fd)"
  "preserves tables_ok (ufs_mmap fd len prot mflags off)" "preserves tables_ok (ufs_munmap address len)"
  unfolding ufs_open_def ufs_close_def ufs_mmap_def ufs_munmap_def
  by (intro tables.with_lock_keeps open_keeps close_keeps mmap_keeps munmap_keeps)+

text \<open>The life cycle of an image leaves the lock alone.\<close>

interpretation lock_state: host_frame outermost
  by unfold_locales (simp_all add: outermost_def descriptor_table_reset_def set_offset_def set_descriptor_def)

section \<open>Property\<close>

text \<open>C24: The tables of open objects stay well typed. Both have their 32 entries; a descriptor in use has
  an inode number below 512 and one of the five legal flag words; a mapping in use covers a non-empty
  range inside the largest file without wrap-around, for an inode below 512, with a readable protection
  and exactly one of the two mapping kinds. Every public operation keeps this, formatting, mounting and
  unmounting included, whatever system calls fail and on every error path.\<close>

theorem tables_stay_typed:
  "preserves tables_ok (ufs_mkdir path) \<and> preserves tables_ok (ufs_create path) \<and>
   preserves tables_ok (ufs_rmdir path) \<and> preserves tables_ok (ufs_unlink path) \<and>
   preserves tables_ok (ufs_listdir path max_entries) \<and> preserves tables_ok (ufs_stat_op path) \<and>
   preserves tables_ok (ufs_lstat path) \<and> preserves tables_ok (ufs_link path new_path) \<and>
   preserves tables_ok (ufs_symlink target path) \<and> preserves tables_ok (ufs_readlink path n) \<and>
   preserves tables_ok (ufs_chmod path mode) \<and> preserves tables_ok (ufs_chown path uid gid) \<and>
   preserves tables_ok (ufs_access path mode) \<and> preserves tables_ok (ufs_utimens path ts) \<and>
   preserves tables_ok (ufs_truncate path size64) \<and> preserves tables_ok (ufs_open path flags) \<and>
   preserves tables_ok (ufs_close fd) \<and> preserves tables_ok (ufs_read fd n) \<and>
   preserves tables_ok (ufs_write fd buf) \<and> preserves tables_ok (ufs_seek fd off whence) \<and>
   preserves tables_ok (ufs_mmap fd len prot mflags off) \<and> preserves tables_ok (ufs_msync address len) \<and>
   preserves tables_ok (ufs_munmap address len) \<and> preserves tables_ok (ufs_format image_path image_size) \<and>
   preserves tables_ok (ufs_mount image_path) \<and> preserves tables_ok ufs_unmount"
  by (intro conjI tables.namespace_keeps tables.attributes_keep tables.transfers_keep tables.format_keeps
      tables.mount_keeps tables.unmount_keeps tables_operations)

end
