(* ===== verification/Ufs_Progress.thy ===== *)
theory Ufs_Progress
  imports Ufs_Tables
begin

text \<open>
  Progress of sequential reading, for every pattern of system-call faults and whatever the image holds: a
  read that returns bytes leaves the position of its descriptor strictly behind where it was, so a
  loop that reads until nothing is left comes to an end.
\<close>

interpretation handles: lock_frame "\<lambda>w. descriptor_table w = t" for t
  by unfold_locales (simp_all add: store_bytes_fields)

lemma position_after:
  assumes "k < length (descriptor_table w)"
  shows "fde_offset (descriptor k (set_offset k p w)) = p" "length (descriptor_table (set_offset k p w)) = length (descriptor_table w)"
  using assms by (simp_all add: set_offset_def set_descriptor_def descriptor_def)

lemma read_loop_moves:
  assumes "read_loop k inode count moved acc w = (Some r, w1)" and "k < length (descriptor_table w)"
    and "unat (fde_offset (descriptor k w)) + (count - moved) < 2 ^ 64"
  shows "unat (fde_offset (descriptor k w)) \<le> unat (fde_offset (descriptor k w1)) \<and>
    (moved = 0 \<and> moved < count \<longrightarrow> unat (fde_offset (descriptor k w)) < unat (fde_offset (descriptor k w1)))"
  using assms
proof (induction k inode count moved acc w rule: read_loop.induct)
  case (1 k inode count moved acc w)
  define p where "p = fde_offset (descriptor k w)"
  show ?case
  proof (cases "moved < count")
    case True
    obtain b w2 where get: "on_ok (mapped_block inode p) ufs_read_block w = (b, w2)" by fastforce
    have "preserves (\<lambda>v. descriptor_table v = descriptor_table w) (on_ok (mapped_block inode p) ufs_read_block)"
      by (intro preserves_intros)
    then have table: "descriptor_table w2 = descriptor_table w" using preservesD [where w = w] get by fastforce
    have run: "read_loop k inode count moved acc w = (case b of
        None \<Rightarrow> if 0 < moved then (Some (acc, False), w2) else (None, w2)
      | Some block \<Rightarrow> read_loop k inode count (moved + chunk_at p (count - moved))
          (acc @ field (inside_block p) (chunk_at p (count - moved)) block)
          (set_offset k (p + of_nat (chunk_at p (count - moved))) w2))"
      using True get by (subst read_loop.simps) (simp add: p_def Let_def split: option.splits)
    show ?thesis
    proof (cases b)
      case None
      then show ?thesis using run "1.prems" table by (auto simp: descriptor_def split: if_splits)
    next
      case (Some block)
      define c where "c = chunk_at p (count - moved)"
      define w3 where "w3 = set_offset k (p + of_nat c) w2"
      have c: "0 < c" "c \<le> count - moved" using chunk_at_pos [of "count - moved" p] chunk_at_le True by (auto simp: c_def)
      have off: "fde_offset (descriptor k w3) = p + of_nat c" "length (descriptor_table w3) = length (descriptor_table w)"
        using position_after [of k w2] "1.prems"(2) table by (simp_all add: w3_def)
      have "unat p + c < 2 ^ 64" using c "1.prems"(3) by (simp add: p_def)
      then have sum: "unat (p + of_nat c) = unat p + c"
        by (simp add: unat_word_ariths unat_of_nat mod_simps)
      have rec: "read_loop k inode count (moved + c) (acc @ field (inside_block p) c block) w3 = (Some r, w1)"
        using run Some "1.prems"(1) by (simp add: c_def w3_def)
      have "unat (fde_offset (descriptor k w3)) + (count - (moved + c)) < 2 ^ 64"
        using off sum c "1.prems"(3) by (simp add: p_def)
      then have "unat (fde_offset (descriptor k w3)) \<le> unat (fde_offset (descriptor k w1))"
        using "1.IH" [OF True refl refl get [unfolded p_def, symmetric] Some] rec off "1.prems"(2) by (simp add: p_def c_def w3_def)
      then show ?thesis using off(1) sum c(1) by (simp add: p_def)
    qed
  next
    case False
    then have "w1 = w" using "1.prems"(1) by (subst (asm) read_loop.simps) simp
    then show ?thesis using False by simp
  qed
qed

lemma same_handles:
  assumes "\<And>t. preserves (\<lambda>w. descriptor_table w = t) m" shows "descriptor_table (snd (m w)) = descriptor_table w"
  using preservesD [OF assms [of "descriptor_table w"], of w] by simp

text \<open>What \<open>ufs_read_unlocked\<close> does after its loop.\<close>

definition read_end :: "file_io_descriptor \<Rightarrow> ufs_inode \<Rightarrow> bytes \<times> bool \<Rightarrow> bytes op" where
  "read_end d inode = (\<lambda>(buf, complete).
     if \<not> complete then ret buf
     else
       on_ok (attempt (ufs_should_update_atime inode) ret (ret False)) (\<lambda>update.
       if update then
         keeping_errno (on_ok (ufs_touch_atime inode) (persist_inode (unat (fde_inode_number d)))) (ret buf)
       else ret buf))"

lemma read_end_handles: "preserves (\<lambda>w. descriptor_table w = t) (read_end d inode r)"
  unfolding read_end_def by (cases r, simp only: prod.case) (intro preserves_intros; simp)

lemma read_unlocked_end:
  "ufs_read_unlocked fd count =
     on_ok require_mounted (\<lambda>_.
     on_ok (validate_descriptor fd) (\<lambda>k.
     asking (descriptor k) (\<lambda>d.
     require (descriptor_can_read d) EBADF (
     if count = 0 then ret [] else
     require (count \<le> 2 ^ 63 - 1) EINVAL (
     on_ok (read_inode (unat (fde_inode_number d))) (\<lambda>inode.
     require (ino_generation inode = fde_inode_generation d) EBADF (
     if ino_size inode \<le> fde_offset d then ret []
     else on_ok (read_loop k inode (min (unat (ino_size inode - fde_offset d)) count) 0 []) (read_end d inode))))))))"
proof -
  have smaller: "(if a < b then a else b) = min a b" for a b :: nat by auto
  show ?thesis unfolding ufs_read_unlocked_def read_end_def Let_def smaller by (rule refl)
qed

lemma read_unlocked_moves:
  assumes read: "ufs_read_unlocked fd n w = (Some bs, w1)" and bs: "bs \<noteq> []"
    and tables: "length (descriptor_table w) = UFS_MAX_OPEN_FILES"
  shows "unat (fde_offset (descriptor (nat fd) w)) < unat (fde_offset (descriptor (nat fd) w1))"
proof -
  define k d where "k = nat fd" and "d = descriptor k w"
  obtain i w2 r w3 where valid: "nat fd < UFS_MAX_OPEN_FILES" and i: "read_inode (unat (fde_inode_number d)) w = (Some i, w2)"
    and less: "\<not> ino_size i \<le> fde_offset d" and n: "0 < n"
    and loop: "read_loop k i (min (unat (ino_size i - fde_offset d)) n) 0 [] w2 = (Some r, w3)"
    and tail: "read_end d i r w3 = (Some bs, w1)"
    using read bs
    by (auto simp: read_unlocked_end require_mounted_def validate_descriptor_def on_ok_eq_Some asking_def require_def
        fail_def ret_def k_def d_def split: if_splits) 
  have k: "k < length (descriptor_table w)" using tables valid by (simp add: k_def)
  have table: "descriptor_table w2 = descriptor_table w"
    using same_handles [OF handles.quiet_flush(6), of "unat (fde_inode_number d)" w] i by simp
  have d2: "descriptor k w2 = d" using table by (simp add: descriptor_def d_def)
  have le: "fde_offset d \<le> ino_size i" using less by simp
  then have "unat (ino_size i - fde_offset d) = unat (ino_size i) - unat (fde_offset d)" by (rule unat_sub)
  moreover have "unat (fde_offset d) < unat (ino_size i)" using less by (simp add: word_less_nat_alt not_le)
  moreover have "unat (ino_size i) < 2 ^ 64" using unsigned_less [of "ino_size i"] by simp
  ultimately have moves: "unat (fde_offset d) < unat (fde_offset (descriptor k w3))"
    using read_loop_moves [OF loop] k table d2 n by simp
  have "descriptor_table w1 = descriptor_table w3"
    using same_handles [OF read_end_handles, of d i r w3] tail by simp
  then show ?thesis using moves by (simp add: d_def descriptor_def k_def)
qed

lemma read_progress:
  assumes read: "ufs_read fd n w = (Some bs, w1)" and bs: "bs \<noteq> []"
    and tables: "length (descriptor_table w) = UFS_MAX_OPEN_FILES"
  shows "unat (fde_offset (descriptor (nat fd) w)) < unat (fde_offset (descriptor (nat fd) w1))"
proof -
  obtain w2 w3 where lock: "ufs_operation_write_lock w = (Some (), w2)" and body: "ufs_read_unlocked fd n w2 = (Some bs, w3)"
    and w1: "w1 = (snd (ufs_operation_unlock w3))\<lparr>errno := errno w3\<rparr>"
    using read that by (cases "ufs_operation_write_lock w")
      (auto simp: ufs_read_def with_lock_def on_ok_eq_Some unlock_after_def split: prod.split_asm)
  have before: "descriptor_table w2 = descriptor_table w"
    using same_handles [OF handles.lock_keeps(1), of F_WRLCK w] lock by (simp add: ufs_operation_write_lock_def)
  have "descriptor_table w1 = descriptor_table w3"
    using same_handles [OF handles.lock_keeps(2), of w3] w1 by simp
  then show ?thesis using read_unlocked_moves [OF body bs] before tables by (simp add: descriptor_def)
qed

end
