(* ===== verification/Ufs_Filemap.thy ===== *)
theory Ufs_Filemap
  imports Ufs_Blockmap
begin

text \<open>
  The block map of a file as a function from slots to block numbers, and the operations of
  \<open>Ufs_Blockmap\<close> as updates of that function. A slot is a place that can hold a block number: the
  data slots \<open>Data lb\<close> for the logical blocks, the two indirect pointers of the inode and the 128
  entries of the double indirect block. \<open>file_wf\<close> says that the slots in use own distinct used blocks of
  the data region.
\<close>

section \<open>Slots\<close>

datatype slot = Data nat | Single | Double | Level1 nat

definition pointers :: "world \<Rightarrow> u32 \<Rightarrow> u32 list" where
  "pointers w b = dec_words UFS_PTRS_PER_BLOCK (blk w (unat b))"

definition pointer_at :: "world \<Rightarrow> u32 \<Rightarrow> nat \<Rightarrow> u32" where
  "pointer_at w b k = (if b = UFS_INVALID_BLOCK then UFS_INVALID_BLOCK else pointers w b ! k)"

fun slot_ptr :: "ufs_inode \<times> world \<Rightarrow> slot \<Rightarrow> u32" where
  "slot_ptr (i, w) (Data lb) =
     (if lb < 8 then ino_direct i ! lb
      else if lb < 136 then pointer_at w (ino_single_indirect i) (lb - 8)
      else pointer_at w (pointer_at w (ino_double_indirect i) ((lb - 136) div 128)) ((lb - 136) mod 128))"
| "slot_ptr (i, w) Single = ino_single_indirect i"
| "slot_ptr (i, w) Double = ino_double_indirect i"
| "slot_ptr (i, w) (Level1 k) = pointer_at w (ino_double_indirect i) k"

definition slots :: "slot set" where
  "slots = Data ` {..<UFS_MAX_FILE_BLOCKS} \<union> {Single, Double} \<union> Level1 ` {..<UFS_PTRS_PER_BLOCK}"

definition pointer_slots :: "slot set" where
  "pointer_slots = {Single, Double} \<union> Level1 ` {..<UFS_PTRS_PER_BLOCK}"

text \<open>The block map proper.\<close>

definition bmap :: "world \<Rightarrow> ufs_inode \<Rightarrow> nat \<Rightarrow> u32" where
  "bmap w i lb = slot_ptr (i, w) (Data lb)"

definition in_data_region :: "nat \<Rightarrow> bool" where
  "in_data_region b \<longleftrightarrow> UFS_DATA_REGION_START_BLK \<le> b \<and> b < UFS_TOTAL_BLOCKS"

definition used_slots :: "ufs_inode \<times> world \<Rightarrow> slot set" where
  "used_slots s = {t \<in> slots. slot_ptr s t \<noteq> UFS_INVALID_BLOCK}"

definition file_wf :: "ufs_inode \<times> world \<Rightarrow> bool" where
  "file_wf s \<longleftrightarrow> ino_wf (fst s) \<and>
     (\<forall>t \<in> used_slots s. in_data_region (unat (slot_ptr s t)) \<and> block_used (snd s) (unat (slot_ptr s t))) \<and>
     inj_on (slot_ptr s) (used_slots s)"

definition pointer_blocks :: "ufs_inode \<times> world \<Rightarrow> nat set" where
  "pointer_blocks s = (\<lambda>t. unat (slot_ptr s t)) ` (used_slots s \<inter> pointer_slots)"

lemma slots_simps [simp]:
  "Data lb \<in> slots \<longleftrightarrow> lb < UFS_MAX_FILE_BLOCKS" "Single \<in> slots" "Double \<in> slots"
  "Level1 k \<in> slots \<longleftrightarrow> k < UFS_PTRS_PER_BLOCK"
  "Data lb \<notin> pointer_slots" "Single \<in> pointer_slots" "Double \<in> pointer_slots"
  "Level1 k \<in> pointer_slots \<longleftrightarrow> k < UFS_PTRS_PER_BLOCK"
  by (auto simp: slots_def pointer_slots_def)

lemma pointer_slots_slots: "t \<in> pointer_slots \<Longrightarrow> t \<in> slots"
  by (auto simp: pointer_slots_def)

lemma file_wf_slot:
  assumes "file_wf s" and "t \<in> slots" and "slot_ptr s t \<noteq> UFS_INVALID_BLOCK"
  shows "in_data_region (unat (slot_ptr s t))" "block_used (snd s) (unat (slot_ptr s t))"
    "unat (slot_ptr s t) < UFS_TOTAL_BLOCKS" "UFS_DATA_REGION_START_BLK \<le> unat (slot_ptr s t)"
  using assms by (auto simp: file_wf_def used_slots_def in_data_region_def)

lemma file_wf_inj:
  assumes "file_wf s" and "t \<in> slots" and "u \<in> slots" and "slot_ptr s t \<noteq> UFS_INVALID_BLOCK" and "t \<noteq> u"
  shows "slot_ptr s t \<noteq> slot_ptr s u"
  using assms by (auto simp: file_wf_def used_slots_def inj_on_def)

lemma file_wf_ino: "file_wf s \<Longrightarrow> ino_wf (fst s)"
  by (simp add: file_wf_def)

section \<open>Translation\<close>

lemma read_pointers_live [io_simps]:
  "live w \<Longrightarrow> unat b < UFS_TOTAL_BLOCKS \<Longrightarrow> read_pointers b w = (Some (pointers w b), w)"
  by (simp add: read_pointers_def io_simps run_simps ret_def pointers_def)

lemma get_inode_data_block_live [io_simps]:
  assumes "live w" and "file_wf (i, w)"
  shows "get_inode_data_block i lb w =
    (if lb < UFS_MAX_FILE_BLOCKS then (Some (bmap w i lb), w) else (None, w\<lparr>errno := EFBIG\<rparr>))"
proof -
  have single: "unat (ino_single_indirect i) < UFS_TOTAL_BLOCKS" if "ino_single_indirect i \<noteq> UFS_INVALID_BLOCK"
    using file_wf_slot(3) [OF assms(2), of Single] that by simp
  have double: "unat (ino_double_indirect i) < UFS_TOTAL_BLOCKS" if "ino_double_indirect i \<noteq> UFS_INVALID_BLOCK"
    using file_wf_slot(3) [OF assms(2), of Double] that by simp
  have level1: "unat (pointer_at w (ino_double_indirect i) k) < UFS_TOTAL_BLOCKS"
    if "pointer_at w (ino_double_indirect i) k \<noteq> UFS_INVALID_BLOCK" "k < 128" for k
    using file_wf_slot(3) [OF assms(2), of "Level1 k"] that by simp
  consider "lb < 8" | "8 \<le> lb" "lb < 136" | "136 \<le> lb" "lb < 16520" | "16520 \<le> lb" by linarith
  then show ?thesis
  proof cases
    case 1
    then show ?thesis by (simp add: get_inode_data_block_def bmap_def ret_def)
  next
    case 2
    then have "lb - 8 < 128" by linarith
    then show ?thesis using 2 assms single
      by (simp add: get_inode_data_block_def bmap_def ret_def Let_def run_simps io_simps pointer_at_def)
  next
    case 3
    then have idx: "(lb - 136) div 128 < 128" by linarith
    have "lb - 8 - 128 = lb - 136" "\<not> lb - 8 < 128" "lb - 136 < 16384" using 3 by linarith+
    moreover have "unat (pointers w (ino_double_indirect i) ! ((lb - 136) div 128)) < UFS_TOTAL_BLOCKS"
      if "ino_double_indirect i \<noteq> UFS_INVALID_BLOCK"
        "pointers w (ino_double_indirect i) ! ((lb - 136) div 128) \<noteq> UFS_INVALID_BLOCK"
      using level1 [OF _ idx] that by (simp add: pointer_at_def)
    ultimately show ?thesis using 3 assms double
      by (simp add: get_inode_data_block_def bmap_def ret_def Let_def run_simps io_simps pointer_at_def)
  next
    case 4
    then have "\<not> lb - 8 < 128" "\<not> lb - 136 < 16384" by linarith+
    then show ?thesis using 4 by (simp add: get_inode_data_block_def Let_def fail_def)
  qed
qed

section \<open>Attaching a block to a slot\<close>

definition put_pointer :: "u32 \<Rightarrow> nat \<Rightarrow> u32 \<Rightarrow> world \<Rightarrow> world" where
  "put_pointer pb k b w = put_blk (unat pb) (enc_words ((pointers w pb)[k := b])) w"

fun parent :: "slot \<Rightarrow> slot option" where
  "parent (Data lb) = (if lb < 8 then None else if lb < 136 then Some Single else Some (Level1 ((lb - 136) div 128)))"
| "parent Single = None"
| "parent Double = None"
| "parent (Level1 k) = Some Double"

fun attach :: "slot \<Rightarrow> u32 \<Rightarrow> ufs_inode \<times> world \<Rightarrow> ufs_inode \<times> world" where
  "attach (Data lb) b (i, w) =
     (if lb < 8 then (set_direct lb b i, w)
      else if lb < 136 then (i, put_pointer (ino_single_indirect i) (lb - 8) b w)
      else (i, put_pointer (pointer_at w (ino_double_indirect i) ((lb - 136) div 128)) ((lb - 136) mod 128) b w))"
| "attach Single b (i, w) = (i\<lparr>ino_single_indirect := b\<rparr>, w)"
| "attach Double b (i, w) = (i\<lparr>ino_double_indirect := b\<rparr>, w)"
| "attach (Level1 k) b (i, w) = (i, put_pointer (ino_double_indirect i) k b w)"

lemma length_pointers [simp]: "length (pointers w b) = 128"
  by (simp add: pointers_def)

lemma pointers_put_pointer:
  "pointers (put_pointer pb k b w) q = (if q = pb then (pointers w pb)[k := b] else pointers w q)"
  by (auto simp: pointers_def put_pointer_def word_unat_eq_iff)

lemma pointer_at_put_pointer:
  "j < 128 \<Longrightarrow> pb \<noteq> UFS_INVALID_BLOCK \<Longrightarrow>
   pointer_at (put_pointer pb k b w) q j = (if q = pb \<and> j = k then b else pointer_at w q j)"
  by (auto simp: pointer_at_def pointers_put_pointer nth_list_update)

lemma nth_set_direct:
  "ino_wf i \<Longrightarrow> k < 8 \<Longrightarrow> j < 8 \<Longrightarrow> ino_direct (set_direct k b i) ! j = (if j = k then b else ino_direct i ! j)"
  by (simp add: set_direct_def ino_wf_def nth_list_update)

lemma set_direct_fields [simp]:
  "ino_single_indirect (set_direct k b i) = ino_single_indirect i"
  "ino_double_indirect (set_direct k b i) = ino_double_indirect i"
  "ino_size (set_direct k b i) = ino_size i" "ino_type (set_direct k b i) = ino_type i"
  "ino_generation (set_direct k b i) = ino_generation i" "ino_block_count (set_direct k b i) = ino_block_count i"
  "ino_wf (set_direct k b i) = ino_wf i"
  by (simp_all add: set_direct_def ino_wf_def)

text \<open>Logical blocks behind the double indirect block by their two indices.\<close>

lemma double_index:
  assumes "136 \<le> (lb :: nat)" and "lb < 16520"
  shows "(lb - 136) div 128 < 128" "(lb - 136) mod 128 < 128" "lb = 136 + (lb - 136) div 128 * 128 + (lb - 136) mod 128"
  using assms by (simp_all add: div_mult_mod_eq)

lemma same_index:
  assumes "136 \<le> (lb :: nat)" and "136 \<le> mb" and "(lb - 136) div 128 = (mb - 136) div 128"
    and "(lb - 136) mod 128 = (mb - 136) mod 128"
  shows "lb = mb"
  using assms by (metis div_mult_mod_eq le_add_diff_inverse)

definition ready :: "slot \<Rightarrow> ufs_inode \<times> world \<Rightarrow> bool" where
  "ready t s \<longleftrightarrow> t \<in> slots \<and> slot_ptr s t = UFS_INVALID_BLOCK \<and>
     (\<forall>p. parent t = Some p \<longrightarrow> slot_ptr s p \<noteq> UFS_INVALID_BLOCK)"

definition fresh_for :: "slot \<Rightarrow> u32 \<Rightarrow> ufs_inode \<times> world \<Rightarrow> bool" where
  "fresh_for t b s \<longleftrightarrow> b \<noteq> UFS_INVALID_BLOCK \<and> (\<forall>u \<in> slots. slot_ptr s u \<noteq> b) \<and>
     (t \<in> pointer_slots \<longrightarrow> pointers (snd s) b = replicate 128 UFS_INVALID_BLOCK)"

lemma slot_ptr_attach:
  assumes wf: "file_wf s" and r: "ready t s" and f: "fresh_for t b s" and u: "u \<in> slots"
  shows "slot_ptr (attach t b s) u = (if u = t then b else slot_ptr s u)"
proof -
  obtain i w where s: "s = (i, w)" by (cases s)
  have ino: "ino_wf i" using file_wf_ino [OF wf] s by simp
  have dist: "slot_ptr (i, w) p \<noteq> slot_ptr (i, w) q"
    if "p \<in> slots" "q \<in> slots" "p \<noteq> q" "slot_ptr (i, w) p \<noteq> UFS_INVALID_BLOCK" for p q
    using file_wf_inj [OF wf] that s by blast
  note sd = dist [of Single Double, simplified]
  have sl: "k < 128 \<Longrightarrow> ino_single_indirect i \<noteq> UFS_INVALID_BLOCK \<Longrightarrow>
      pointer_at w (ino_double_indirect i) k \<noteq> ino_single_indirect i" for k
    using dist [of Single "Level1 k"] by auto
  have dl: "k < 128 \<Longrightarrow> ino_double_indirect i \<noteq> UFS_INVALID_BLOCK \<Longrightarrow>
      pointer_at w (ino_double_indirect i) k \<noteq> ino_double_indirect i" for k
    using dist [of Double "Level1 k"] by auto
  have ll: "k < 128 \<Longrightarrow> l < 128 \<Longrightarrow> k \<noteq> l \<Longrightarrow> pointer_at w (ino_double_indirect i) k \<noteq> UFS_INVALID_BLOCK \<Longrightarrow>
      pointer_at w (ino_double_indirect i) l \<noteq> pointer_at w (ino_double_indirect i) k" for k l
    using dist [of "Level1 k" "Level1 l"] by auto
  have ls: "k < 128 \<Longrightarrow> pointer_at w (ino_double_indirect i) k \<noteq> UFS_INVALID_BLOCK \<Longrightarrow>
      ino_single_indirect i \<noteq> pointer_at w (ino_double_indirect i) k \<and>
      ino_double_indirect i \<noteq> pointer_at w (ino_double_indirect i) k" for k
    using dist [of "Level1 k" Single] dist [of "Level1 k" Double] by auto
  have blank: "pointer_at w b j = UFS_INVALID_BLOCK" if "t \<in> pointer_slots" "j < 128" for j
    using f that s by (simp add: fresh_for_def pointer_at_def)
  have inv: "pointer_at w UFS_INVALID_BLOCK j = UFS_INVALID_BLOCK" for j
    by (simp add: pointer_at_def)
  show ?thesis
  proof (cases t)
    case (Data lb)
    consider "lb < 8" | "8 \<le> lb" "lb < 136" | "136 \<le> lb" "lb < 16520"
      using r Data by (fastforce simp: ready_def)
    then show ?thesis
    proof cases
      case 1
      then show ?thesis using s Data ino by (cases u) (auto simp: nth_set_direct)
    next
      case 2
      then have pb: "ino_single_indirect i \<noteq> UFS_INVALID_BLOCK" using r s Data by (auto simp: ready_def)
      have k: "lb - 8 < 128" using 2 by linarith
      show ?thesis
      proof (cases u)
        case u: (Data mb)
        consider "mb < 8" | "8 \<le> mb" "mb < 136" | "136 \<le> mb" "mb < 16520" using u assms(4) by fastforce
        then show ?thesis
        proof cases
          case m: 3
          note idx = double_index [OF m]
          show ?thesis using 2 m s Data u pb k sl [OF idx(1) pb] sd [OF pb] idx
            by (auto simp: pointer_at_put_pointer)
        qed (use 2 s Data u pb k in \<open>auto simp: pointer_at_put_pointer\<close>)
      qed (use 2 s Data u pb sd [OF pb] in \<open>auto simp: pointer_at_put_pointer\<close>)
    next
      case 3
      note jdx = double_index [OF 3]
      define j where "j = (lb - 136) div 128"
      have pb: "pointer_at w (ino_double_indirect i) j \<noteq> UFS_INVALID_BLOCK"
        using r s Data 3 by (auto simp: ready_def j_def)
      have j: "j < 128" using jdx by (simp add: j_def)
      show ?thesis
      proof (cases u)
        case u: (Data mb)
        consider "mb < 8" | "8 \<le> mb" "mb < 136" | "136 \<le> mb" "mb < 16520" using u assms(4) by fastforce
        then show ?thesis
        proof cases
          case m: 2
          then have "mb - 8 < 128" by linarith
          then show ?thesis using 3 m s Data u pb ls [OF j pb] by (auto simp: pointer_at_put_pointer j_def)
        next
          case m: 3
          note idx = double_index [OF m]
          have same: "lb = mb" if "j = (mb - 136) div 128" "(lb - 136) mod 128 = (mb - 136) mod 128"
            using same_index [of lb mb] 3 m that by (simp add: j_def)
          have here: "attach t b s = (i, put_pointer (pointer_at w (ino_double_indirect i) j) ((lb - 136) mod 128) b w)"
            using 3 s Data by (simp add: j_def)
          have top: "pointer_at (put_pointer (pointer_at w (ino_double_indirect i) j) k b w) (ino_double_indirect i) l =
              pointer_at w (ino_double_indirect i) l" if "l < 128" for k l
            using ls [OF j pb] that pb by (simp add: pointer_at_put_pointer)
          have new: "slot_ptr (attach t b s) u =
              pointer_at (put_pointer (pointer_at w (ino_double_indirect i) j) ((lb - 136) mod 128) b w)
                (pointer_at w (ino_double_indirect i) ((mb - 136) div 128)) ((mb - 136) mod 128)"
            using m u top [OF idx(1)] by (simp add: here)
          have now: "slot_ptr s u = pointer_at w (pointer_at w (ino_double_indirect i) ((mb - 136) div 128)) ((mb - 136) mod 128)"
            using m u s by simp
          have eq: "u = t \<longleftrightarrow> lb = mb" using u Data by auto
          show ?thesis
          proof (cases "j = (mb - 136) div 128")
            case True
            then show ?thesis using idx(2) pb same [OF True] jdx(2)
              unfolding new now eq by (auto simp: pointer_at_put_pointer)
          next
            case False
            then have "lb \<noteq> mb" by (auto simp: j_def)
            then show ?thesis using idx(2) pb ll [OF j idx(1) False pb]
              unfolding new now eq by (simp add: pointer_at_put_pointer)
          qed
        qed (use 3 s Data u in auto)
      qed (use 3 s Data u pb ls [OF j pb] in \<open>auto simp: pointer_at_put_pointer j_def\<close>)
    qed
  next
    case Single
    have old: "ino_single_indirect i = UFS_INVALID_BLOCK" using r s Single by (simp add: ready_def)
    show ?thesis
    proof (cases u)
      case u: (Data mb)
      consider "mb < 8" | "8 \<le> mb" "mb < 136" | "136 \<le> mb" "mb < 16520" using u assms(4) by fastforce
      then show ?thesis
      proof cases
        case m: 2
        then have "mb - 8 < 128" by linarith
        then show ?thesis using m s Single u old blank by (auto simp: inv)
      qed (use s Single u in auto)
    qed (use s Single u in auto)
  next
    case Double
    have old: "ino_double_indirect i = UFS_INVALID_BLOCK" using r s Double by (simp add: ready_def)
    show ?thesis
    proof (cases u)
      case u: (Data mb)
      consider "mb < 8" | "8 \<le> mb" "mb < 136" | "136 \<le> mb" "mb < 16520" using u assms(4) by fastforce
      then show ?thesis
      proof cases
        case m: 3
        then show ?thesis using s Double u old blank double_index [OF m] by (auto simp: inv)
      qed (use s Double u in auto)
    qed (use s Double u old assms(4) blank in \<open>auto simp: inv\<close>)
  next
    case (Level1 k)
    have pb: "ino_double_indirect i \<noteq> UFS_INVALID_BLOCK" and k: "k < 128"
      and old: "pointer_at w (ino_double_indirect i) k = UFS_INVALID_BLOCK"
      using r s Level1 by (auto simp: ready_def)
    have b: "b \<noteq> ino_double_indirect i"
      using f s bspec [of slots "\<lambda>u. slot_ptr s u \<noteq> b" Double] by (simp add: fresh_for_def)
    have sn: "ino_single_indirect i \<noteq> ino_double_indirect i" using dist [of Double Single] pb by auto
    show ?thesis
    proof (cases u)
      case u: (Data mb)
      consider "mb < 8" | "8 \<le> mb" "mb < 136" | "136 \<le> mb" "mb < 16520" using u assms(4) by fastforce
      then show ?thesis
      proof cases
        case m: 2
        then have "mb - 8 < 128" by linarith
        then show ?thesis using m s Level1 u pb sn by (auto simp: pointer_at_put_pointer)
      next
        case m: 3
        note idx = double_index [OF m]
        show ?thesis using m s Level1 u pb k old b blank dl [OF idx(1) pb] idx
          by (auto simp: pointer_at_put_pointer inv)
      qed (use s Level1 u in auto)
    qed (use s Level1 u pb k assms(4) in \<open>auto simp: pointer_at_put_pointer\<close>)
  qed
qed

section \<open>What leaves the block map alone\<close>

definition same_pointers :: "ufs_inode \<Rightarrow> ufs_inode \<Rightarrow> bool" where
  "same_pointers i j \<longleftrightarrow> ino_direct i = ino_direct j \<and> ino_single_indirect i = ino_single_indirect j \<and>
     ino_double_indirect i = ino_double_indirect j"

lemma same_pointers_refl [simp]: "same_pointers i i"
  by (simp add: same_pointers_def)

lemma slot_ptr_same:
  assumes "\<And>b. b \<in> pointer_blocks (i, w) \<Longrightarrow> blk w1 b = blk w b" and "same_pointers i1 i" and "t \<in> slots"
  shows "slot_ptr (i1, w1) t = slot_ptr (i, w) t"
proof -
  have at: "pointer_at w1 (slot_ptr (i, w) p) k = pointer_at w (slot_ptr (i, w) p) k" if "p \<in> pointer_slots" for p k
  proof (cases "slot_ptr (i, w) p = UFS_INVALID_BLOCK")
    case False
    then have "unat (slot_ptr (i, w) p) \<in> pointer_blocks (i, w)"
      using that by (auto simp: pointer_blocks_def used_slots_def pointer_slots_slots)
    then show ?thesis using assms(1) by (simp add: pointer_at_def pointers_def)
  qed (simp add: pointer_at_def)
  have fields: "ino_direct i1 = ino_direct i" "ino_single_indirect i1 = ino_single_indirect i"
      "ino_double_indirect i1 = ino_double_indirect i"
    using assms(2) by (simp_all add: same_pointers_def)
  have l1: "k < 128 \<Longrightarrow> pointer_at w1 (ino_double_indirect i) k = pointer_at w (ino_double_indirect i) k" for k
    using at [of Double] by simp
  show ?thesis
  proof (cases t)
    case (Data lb)
    then show ?thesis using assms(3) fields at [of Single] at [of "Level1 ((lb - 136) div 128)"] l1 double_index(1) [of lb]
      by auto
  qed (use assms(3) fields l1 in auto)
qed

text \<open>The files of a world stay what they are when no pointer block of theirs is written and no used block
  is released.\<close>

lemma file_wf_same:
  assumes wf: "file_wf (i, w)" and "\<And>b. b \<in> pointer_blocks (i, w) \<Longrightarrow> blk w1 b = blk w b"
    and "same_pointers i1 i" and "ino_wf i1"
    and "\<And>b. in_data_region b \<Longrightarrow> block_used w b \<Longrightarrow> b \<in> (\<lambda>t. unat (slot_ptr (i, w) t)) ` used_slots (i, w) \<Longrightarrow> block_used w1 b"
  shows "file_wf (i1, w1)" and "pointer_blocks (i1, w1) = pointer_blocks (i, w)"
proof -
  have same: "slot_ptr (i1, w1) t = slot_ptr (i, w) t" if "t \<in> slots" for t
    using assms(2,3) that by (rule slot_ptr_same)
  then have us: "used_slots (i1, w1) = used_slots (i, w)"
    by (auto simp: used_slots_def)
  have mem: "t \<in> slots" if "t \<in> used_slots (i, w)" for t using that by (simp add: used_slots_def)
  show "pointer_blocks (i1, w1) = pointer_blocks (i, w)"
    using us same mem by (auto simp: pointer_blocks_def intro!: image_cong)
  have "inj_on (slot_ptr (i1, w1)) (used_slots (i1, w1))"
    using wf same mem us by (auto simp: file_wf_def inj_on_def)
  moreover have "in_data_region (unat (slot_ptr (i1, w1) t)) \<and> block_used w1 (unat (slot_ptr (i1, w1) t))"
    if "t \<in> used_slots (i1, w1)" for t
    using wf that us same [OF mem] assms(5) by (auto simp: file_wf_def)
  ultimately show "file_wf (i1, w1)" using assms(4) by (simp add: file_wf_def)
qed

lemma pointer_blocks_used:
  assumes "file_wf s" and "b \<in> pointer_blocks s"
  shows "in_data_region b" "block_used (snd s) b"
  using assms by (auto simp: pointer_blocks_def file_wf_def)

lemma in_data_regionD: "in_data_region b \<Longrightarrow> UFS_DATA_REGION_START_BLK \<le> b" "in_data_region b \<Longrightarrow> b < UFS_TOTAL_BLOCKS"
  by (simp_all add: in_data_region_def)

lemma grab_block_file:
  assumes wf: "file_wf (i, w)" and l: "live w" and b: "in_data_region b" "\<not> block_used w b"
  shows "file_wf (i, grab_block b w)" "t \<in> slots \<Longrightarrow> slot_ptr (i, grab_block b w) t = slot_ptr (i, w) t"
    "pointer_blocks (i, grab_block b w) = pointer_blocks (i, w)"
proof -
  note gv = grab_block_views [OF l in_data_regionD [OF b(1)]]
  have blk: "blk (grab_block b w) c = blk w c" if "c \<in> pointer_blocks (i, w)" for c
    using pointer_blocks_used [OF wf that] b(2) gv(2) [of c] in_data_regionD [of c] by auto
  have used: "block_used (grab_block b w) c" if "in_data_region c" "block_used w c" for c
    using that gv(3) [of c] in_data_regionD [of c] by simp
  show "t \<in> slots \<Longrightarrow> slot_ptr (i, grab_block b w) t = slot_ptr (i, w) t"
    using slot_ptr_same [OF blk] by simp
  show "file_wf (i, grab_block b w)" "pointer_blocks (i, grab_block b w) = pointer_blocks (i, w)"
    using file_wf_same [OF wf blk, of i] file_wf_ino [OF wf] used by simp_all
qed

lemma put_inode_file:
  assumes "file_wf (i, w)" and "live w" and "ino_wf j" and "n < UFS_MAX_INODES"
  shows "file_wf (i, put_inode n j w)" "t \<in> slots \<Longrightarrow> slot_ptr (i, put_inode n j w) t = slot_ptr (i, w) t"
    "pointer_blocks (i, put_inode n j w) = pointer_blocks (i, w)"
proof -
  have blk: "blk (put_inode n j w) c = blk w c" if "c \<in> pointer_blocks (i, w)" for c
    using pointer_blocks_used [OF assms(1) that] in_data_regionD [of c] assms by simp
  show "t \<in> slots \<Longrightarrow> slot_ptr (i, put_inode n j w) t = slot_ptr (i, w) t"
    using slot_ptr_same [OF blk] by simp
  show "file_wf (i, put_inode n j w)" "pointer_blocks (i, put_inode n j w) = pointer_blocks (i, w)"
    using file_wf_same [OF assms(1) blk, of i] file_wf_ino [OF assms(1)] assms(3) by simp_all
qed

section \<open>Extending a file\<close>

text \<open>A free block becomes the block of a slot: marked used, initialized, attached.\<close>

definition invalid_pointers :: bytes where
  "invalid_pointers = enc_words (replicate 128 UFS_INVALID_BLOCK)"

definition claim_slot :: "slot \<Rightarrow> nat \<Rightarrow> ufs_inode \<times> world \<Rightarrow> ufs_inode \<times> world" where
  "claim_slot t b s = attach t (of_nat b) (fst s,
     if t \<in> pointer_slots then put_blk b invalid_pointers (grab_block b (snd s)) else grab_block b (snd s))"

definition same_meta :: "ufs_inode \<Rightarrow> ufs_inode \<Rightarrow> bool" where
  "same_meta i j \<longleftrightarrow> i\<lparr>ino_direct := ino_direct j, ino_single_indirect := ino_single_indirect j,
     ino_double_indirect := ino_double_indirect j\<rparr> = j"

lemma same_meta_refl [simp]: "same_meta i i"
  by (simp add: same_meta_def)

lemma same_meta_trans: "same_meta i j \<Longrightarrow> same_meta j k \<Longrightarrow> same_meta i k"
  by (cases i; cases j; cases k) (simp add: same_meta_def)

lemma same_meta_updates [simp]:
  "same_meta (set_direct k b i) i" "same_meta (i\<lparr>ino_single_indirect := b\<rparr>) i"
  "same_meta (i\<lparr>ino_double_indirect := b\<rparr>) i"
  by (simp_all add: same_meta_def set_direct_def)

lemma length_invalid_pointers [simp]: "length invalid_pointers = 512"
  by (simp add: invalid_pointers_def)

lemma pointers_invalid [simp]: "blk w (unat b) = invalid_pointers \<Longrightarrow> pointers w b = replicate 128 UFS_INVALID_BLOCK"
  by (simp add: pointers_def invalid_pointers_def)

lemma unat_block: "b < UFS_TOTAL_BLOCKS \<Longrightarrow> unat (of_nat b :: u32) = b" "b < UFS_TOTAL_BLOCKS \<Longrightarrow> (of_nat b :: u32) \<noteq> UFS_INVALID_BLOCK"
proof -
  assume b: "b < UFS_TOTAL_BLOCKS"
  then show u: "unat (of_nat b :: u32) = b" by (simp add: unat_of_nat)
  show "(of_nat b :: u32) \<noteq> UFS_INVALID_BLOCK"
  proof
    assume "(of_nat b :: u32) = UFS_INVALID_BLOCK"
    then have "unat (of_nat b :: u32) = unat UFS_INVALID_BLOCK" by simp
    with u b show False by simp
  qed
qed

text \<open>\<open>attach\<close> changes the inode for a slot without a parent and writes the block of the parent
  slot otherwise.\<close>

lemma attach_cases:
  assumes "ino_wf i"
  obtains (inode) j where "parent t = None" and "attach t b (i, w) = (j, w)" and "same_meta j i" and "ino_wf j"
  | (block) p k where "parent t = Some p" and "attach t b (i, w) = (i, put_pointer (slot_ptr (i, w) p) k b w)"
proof (cases t)
  case (Data lb)
  consider "lb < 8" | "\<not> lb < 8" "lb < 136" | "\<not> lb < 8" "\<not> lb < 136" by blast
  then show ?thesis
  proof cases
    case 1
    then show ?thesis using inode [of "set_direct lb b i"] Data assms by simp
  next
    case 2
    then show ?thesis using block [of Single "lb - 8"] Data by simp
  next
    case 3
    then show ?thesis using block [of "Level1 ((lb - 136) div 128)" "(lb - 136) mod 128"] Data by simp
  qed
next
  case Single
  then show ?thesis using inode [of "i\<lparr>ino_single_indirect := b\<rparr>"] assms by (simp add: ino_wf_def)
next
  case Double
  then show ?thesis using inode [of "i\<lparr>ino_double_indirect := b\<rparr>"] assms by (simp add: ino_wf_def)
next
  case (Level1 k)
  then show ?thesis using block [of Double k] by simp
qed

definition outside_parent :: "slot \<Rightarrow> ufs_inode \<times> world \<Rightarrow> nat \<Rightarrow> bool" where
  "outside_parent t s c \<longleftrightarrow> (\<forall>p. parent t = Some p \<longrightarrow> c \<noteq> unat (slot_ptr s p))"

lemma attach_effect:
  assumes par: "\<And>p. parent t = Some p \<Longrightarrow> in_data_region (unat (slot_ptr (i, w) p))"
    and l: "live w" and wf: "ino_wf i"
  obtains j w1 where "attach t b (i, w) = (j, w1)" and "live w1" and "ino_wf j" and "same_meta j i"
    and "\<And>c. outside_parent t (i, w) c \<Longrightarrow> blk w1 c = blk w c"
    and "block_used w1 = block_used w" and "inode_used w1 = inode_used w"
    and "\<And>n. n < UFS_MAX_INODES \<Longrightarrow> inode_at w1 n = inode_at w n" and "descriptor_table w1 = descriptor_table w"
  using wf
proof (cases rule: attach_cases [where t = t and b = b and w = w])
  case (inode j)
  then show ?thesis using that l by simp
next
  case (block p k)
  then have p: "unat (slot_ptr (i, w) p) < UFS_TOTAL_BLOCKS" "UFS_DATA_REGION_START_BLK \<le> unat (slot_ptr (i, w) p)"
    using par in_data_regionD by blast+
  show ?thesis
    using that [OF block(2)] block(1) p l wf
    by (auto simp: put_pointer_def outside_parent_def)
qed

text \<open>
  \<open>grown T s s1\<close>: the slots \<open>T\<close>, which were empty, hold distinct blocks that were free, data blocks
  among them zero filled; every other slot, every used block that is not one of the file's pointer
  blocks, all inodes on disk and the rest of the inode are as before, and no other block became used.
\<close>

definition grown :: "slot set \<Rightarrow> ufs_inode \<times> world \<Rightarrow> ufs_inode \<times> world \<Rightarrow> bool" where
  "grown T s s1 \<longleftrightarrow> live (snd s1) \<and> file_wf s1 \<and> same_meta (fst s1) (fst s) \<and> T \<subseteq> slots \<and>
     (\<forall>t \<in> T. slot_ptr s t = UFS_INVALID_BLOCK \<and> slot_ptr s1 t \<noteq> UFS_INVALID_BLOCK \<and>
        \<not> block_used (snd s) (unat (slot_ptr s1 t))) \<and>
     (\<forall>t \<in> slots - T. slot_ptr s1 t = slot_ptr s t) \<and>
     (\<forall>b. in_data_region b \<longrightarrow> (block_used (snd s1) b \<longleftrightarrow> block_used (snd s) b \<or> b \<in> (\<lambda>t. unat (slot_ptr s1 t)) ` T)) \<and>
     (\<forall>b. in_data_region b \<longrightarrow> block_used (snd s) b \<longrightarrow> b \<notin> pointer_blocks s \<longrightarrow> blk (snd s1) b = blk (snd s) b) \<and>
     (\<forall>lb. Data lb \<in> T \<longrightarrow> blk (snd s1) (unat (slot_ptr s1 (Data lb))) = replicate 512 0) \<and>
     inode_used (snd s1) = inode_used (snd s) \<and>
     (\<forall>n < UFS_MAX_INODES. inode_at (snd s1) n = inode_at (snd s) n) \<and>
     descriptor_table (snd s1) = descriptor_table (snd s)"

lemma grown_refl: "live (snd s) \<Longrightarrow> file_wf s \<Longrightarrow> grown {} s s"
  by (simp add: grown_def)

lemma grownD:
  assumes "grown T s s1"
  shows "live (snd s1)" "file_wf s1" "same_meta (fst s1) (fst s)"
    "t \<in> T \<Longrightarrow> slot_ptr s t = UFS_INVALID_BLOCK" "t \<in> T \<Longrightarrow> slot_ptr s1 t \<noteq> UFS_INVALID_BLOCK"
    "t \<in> T \<Longrightarrow> \<not> block_used (snd s) (unat (slot_ptr s1 t))"
    "t \<in> slots \<Longrightarrow> t \<notin> T \<Longrightarrow> slot_ptr s1 t = slot_ptr s t"
    "in_data_region b \<Longrightarrow> block_used (snd s1) b \<longleftrightarrow> block_used (snd s) b \<or> b \<in> (\<lambda>t. unat (slot_ptr s1 t)) ` T"
    "in_data_region b \<Longrightarrow> block_used (snd s) b \<Longrightarrow> b \<notin> pointer_blocks s \<Longrightarrow> blk (snd s1) b = blk (snd s) b"
    "Data lb \<in> T \<Longrightarrow> blk (snd s1) (unat (slot_ptr s1 (Data lb))) = replicate 512 0"
    "n < UFS_MAX_INODES \<Longrightarrow> inode_at (snd s1) n = inode_at (snd s) n" "T \<subseteq> slots"
  using assms by (auto simp: grown_def)

lemma pointer_blocks_grown:
  assumes "grown T s s1" and "in_data_region b" and "block_used (snd s) b" and "b \<notin> pointer_blocks s"
  shows "b \<notin> pointer_blocks s1"
proof
  assume "b \<in> pointer_blocks s1"
  then obtain t where t: "t \<in> pointer_slots" "slot_ptr s1 t \<noteq> UFS_INVALID_BLOCK" "b = unat (slot_ptr s1 t)"
    by (auto simp: pointer_blocks_def used_slots_def)
  then show False
    using assms grownD(6,7) [OF assms(1), of t] pointer_slots_slots [OF t(1)]
    by (cases "t \<in> T") (auto simp: pointer_blocks_def used_slots_def)
qed

lemma data_not_pointer_block:
  assumes "file_wf s" and "lb < UFS_MAX_FILE_BLOCKS" and "slot_ptr s (Data lb) \<noteq> UFS_INVALID_BLOCK"
  shows "unat (slot_ptr s (Data lb)) \<notin> pointer_blocks s"
proof
  assume "unat (slot_ptr s (Data lb)) \<in> pointer_blocks s"
  then obtain t where t: "t \<in> pointer_slots" "slot_ptr s t = slot_ptr s (Data lb)"
    by (auto simp: pointer_blocks_def word_unat_eq_iff)
  moreover from this have "t \<noteq> Data lb" by auto
  ultimately show False
    using file_wf_inj [OF assms(1), of "Data lb" t] assms pointer_slots_slots by auto
qed

lemma grown_trans:
  assumes g: "grown T s s1" and h: "grown U s1 s2"
  shows "grown (T \<union> U) s s2"
proof -
  have tu: "t \<notin> U" if "t \<in> T" for t using grownD(5) [OF g that] grownD(4) [OF h] by blast
  have keepT: "slot_ptr s2 t = slot_ptr s1 t" if "t \<in> T" for t
    using grownD(7) [OF h] grownD(12) [OF g] tu [OF that] that by blast
  have keepU: "slot_ptr s1 t = slot_ptr s t" if "t \<in> U" for t
    using grownD(7) [OF g] grownD(12) [OF h] tu that by blast
  have reg: "in_data_region (unat (slot_ptr s2 t))" if "t \<in> U" for t
    using file_wf_slot(1) [OF grownD(2) [OF h]] grownD(12) [OF h] grownD(5) [OF h that] that by blast
  have newU: "\<not> block_used (snd s) (unat (slot_ptr s2 t))" if "t \<in> U" for t
    using grownD(6) [OF h that] grownD(8) [OF g reg [OF that]] by blast
  have blkD: "blk (snd s2) (unat (slot_ptr s2 (Data lb))) = replicate 512 0" if "Data lb \<in> T \<union> U" for lb
  proof (cases "Data lb \<in> T")
    case True
    then have lb: "lb < UFS_MAX_FILE_BLOCKS" "slot_ptr s1 (Data lb) \<noteq> UFS_INVALID_BLOCK"
      using grownD(12) [OF g] grownD(5) [OF g] by auto
    note b = file_wf_slot(1,2) [OF grownD(2) [OF g], of "Data lb"]
    have "blk (snd s2) (unat (slot_ptr s1 (Data lb))) = blk (snd s1) (unat (slot_ptr s1 (Data lb)))"
      using grownD(9) [OF h] b data_not_pointer_block [OF grownD(2) [OF g] lb] lb by simp
    then show ?thesis using grownD(10) [OF g True] keepT [OF True] by simp
  next
    case False
    then show ?thesis using grownD(10) [OF h] that by simp
  qed
  have blkF: "blk (snd s2) b = blk (snd s) b" if "in_data_region b" "block_used (snd s) b" "b \<notin> pointer_blocks s" for b
    using grownD(9) [OF h that(1)] grownD(9) [OF g that] grownD(8) [OF g that(1)] that
      pointer_blocks_grown [OF g that] by simp
  have old: "slot_ptr s t = UFS_INVALID_BLOCK \<and> slot_ptr s2 t \<noteq> UFS_INVALID_BLOCK \<and>
      \<not> block_used (snd s) (unat (slot_ptr s2 t))" if "t \<in> T \<union> U" for t
    using that grownD(4-6) [OF g] grownD(4,5) [OF h] keepT keepU newU by (metis UnE)
  have rest: "slot_ptr s2 t = slot_ptr s t" if "t \<in> slots - (T \<union> U)" for t
    using that grownD(7) [OF g] grownD(7) [OF h] by auto
  have img: "(\<lambda>t. unat (slot_ptr s2 t)) ` (T \<union> U) =
      (\<lambda>t. unat (slot_ptr s1 t)) ` T \<union> (\<lambda>t. unat (slot_ptr s2 t)) ` U"
    using keepT by (auto simp: image_Un intro!: image_cong)
  have used: "block_used (snd s2) b \<longleftrightarrow> block_used (snd s) b \<or> b \<in> (\<lambda>t. unat (slot_ptr s2 t)) ` (T \<union> U)"
    if "in_data_region b" for b
    unfolding img using grownD(8) [OF g that] grownD(8) [OF h that] by auto
  have rest2: "same_meta (fst s2) (fst s)" "inode_used (snd s2) = inode_used (snd s)"
      "\<forall>n < UFS_MAX_INODES. inode_at (snd s2) n = inode_at (snd s) n"
      "descriptor_table (snd s2) = descriptor_table (snd s)" "T \<union> U \<subseteq> slots"
    using g h same_meta_trans unfolding grown_def by auto
  show ?thesis
    unfolding grown_def using old rest used blkD blkF rest2 grownD(1,2) [OF h] by blast
qed

lemma file_wf_update:
  assumes wf: "file_wf s" and "ino_wf (fst s2)"
    and upd: "\<And>u. u \<in> slots \<Longrightarrow> slot_ptr s2 u = (if u = t then of_nat b else slot_ptr s u)"
    and used: "\<And>c. in_data_region c \<Longrightarrow> block_used (snd s) c \<or> c = b \<Longrightarrow> block_used (snd s2) c"
    and b: "in_data_region b" "\<not> block_used (snd s) b"
  shows "file_wf s2"
proof -
  have ub: "unat (of_nat b :: u32) = b" using unat_block(1) in_data_regionD(2) [OF b(1)] by simp
  have old: "in_data_region (unat (slot_ptr s u)) \<and> block_used (snd s) (unat (slot_ptr s u))"
    if "u \<in> slots" "slot_ptr s u \<noteq> UFS_INVALID_BLOCK" for u
    using file_wf_slot [OF wf that] by simp
  have new: "slot_ptr s u \<noteq> of_nat b" if "u \<in> slots" "slot_ptr s u \<noteq> UFS_INVALID_BLOCK" for u
    using old [OF that] b(2) ub by metis
  have inj: "u = v" if "u \<in> used_slots s2" "v \<in> used_slots s2" "slot_ptr s2 u = slot_ptr s2 v" for u v
  proof (rule ccontr)
    assume ne: "u \<noteq> v"
    have us: "u \<in> slots" "v \<in> slots" "slot_ptr s2 u \<noteq> UFS_INVALID_BLOCK" "slot_ptr s2 v \<noteq> UFS_INVALID_BLOCK"
      using that by (simp_all add: used_slots_def)
    show False
    proof (cases "u = t \<or> v = t")
      case True
      then show False using ne us new [of u] new [of v] upd [of u] upd [of v] that(3) by metis
    next
      case False
      then show False using ne us upd [of u] upd [of v] that(3) file_wf_inj [OF wf, of u v] by simp
    qed
  qed
  have own: "in_data_region (unat (slot_ptr s2 u)) \<and> block_used (snd s2) (unat (slot_ptr s2 u))"
    if "u \<in> used_slots s2" for u
    using that upd [of u] used b ub old [of u] unfolding used_slots_def by (cases "u = t") auto
  show ?thesis using own assms(2) inj unfolding file_wf_def inj_on_def by blast
qed

lemma grown_claim:
  assumes l: "live w" and wf: "file_wf (i, w)" and r: "ready t (i, w)"
    and b: "in_data_region b" "\<not> block_used w b"
  shows "grown {t} (i, w) (claim_slot t b (i, w))" and "slot_ptr (claim_slot t b (i, w)) t = of_nat b"
proof -
  note bb = in_data_regionD [OF b(1)]
  note gv = grab_block_views [OF l bb]
  note ub = unat_block [OF bb(2)]
  define w1 where "w1 = (if t \<in> pointer_slots then put_blk b invalid_pointers (grab_block b w) else grab_block b w)"
  have l1: "live w1" using gv(1) bb by (simp add: w1_def)
  have blk1: "blk w1 c = blk w c" if "in_data_region c" "c \<noteq> b" for c
    using gv(2) [of c] that in_data_regionD [OF that(1)] by (simp add: w1_def)
  have used1: "block_used w1 c \<longleftrightarrow> c = b \<or> block_used w c" if "in_data_region c" for c
    using gv(3) [of c] in_data_regionD [OF that] bb by (simp add: w1_def)
  have blkP: "blk w1 c = blk w c" if "c \<in> pointer_blocks (i, w)" for c
    using pointer_blocks_used [OF wf that] b blk1 by auto
  have same: "slot_ptr (i, w1) u = slot_ptr (i, w) u" if "u \<in> slots" for u
    using slot_ptr_same [OF blkP same_pointers_refl that] .
  have wf1: "file_wf (i, w1)" and pb1: "pointer_blocks (i, w1) = pointer_blocks (i, w)"
    using file_wf_same [OF wf blkP same_pointers_refl] file_wf_ino [OF wf] used1 by simp_all
  have par: "in_data_region (unat (slot_ptr (i, w1) p)) \<and> unat (slot_ptr (i, w1) p) \<in> pointer_blocks (i, w)"
    if "parent t = Some p" for p
  proof -
    have p: "p \<in> pointer_slots" using r that double_index(1)
      by (cases t) (auto simp: ready_def split: if_splits)
    moreover have "slot_ptr (i, w) p \<noteq> UFS_INVALID_BLOCK" using r that by (simp add: ready_def)
    ultimately show ?thesis
      using file_wf_slot(1) [OF wf pointer_slots_slots [OF p]] same [OF pointer_slots_slots [OF p]]
        pointer_slots_slots [OF p] by (auto simp: pointer_blocks_def used_slots_def)
  qed
  have par_slot: "p \<in> slots" if "parent t = Some p" for p
    using r that double_index(1) by (cases t) (auto simp: ready_def split: if_splits)
  have r1: "ready t (i, w1)"
    using r same par_slot by (auto simp: ready_def)
  have ptr_used: "unat (slot_ptr (i, w) u) \<noteq> b" if "u \<in> slots" "slot_ptr (i, w) u \<noteq> UFS_INVALID_BLOCK" for u
    using file_wf_slot(2) [OF wf that] b(2) by auto
  have no_slot: "slot_ptr (i, w) u \<noteq> of_nat b" if "u \<in> slots" for u
    using ptr_used [OF that] ub by metis
  have f1: "fresh_for t (of_nat b) (i, w1)"
    using no_slot same ub by (auto simp: fresh_for_def w1_def)
  obtain j w2 where at: "attach t (of_nat b) (i, w1) = (j, w2)" and l2: "live w2" and wfj: "ino_wf j"
    and meta: "same_meta j i" and blk2: "\<And>c. outside_parent t (i, w1) c \<Longrightarrow> blk w2 c = blk w1 c"
    and used2: "block_used w2 = block_used w1" "inode_used w2 = inode_used w1"
    and ino2: "\<And>n. n < UFS_MAX_INODES \<Longrightarrow> inode_at w2 n = inode_at w1 n"
    and dt2: "descriptor_table w2 = descriptor_table w1"
    using attach_effect [of t i w1 "of_nat b"] par l1 file_wf_ino [OF wf] by auto
  have cl: "claim_slot t b (i, w) = (j, w2)"
    using at by (cases "t \<in> pointer_slots") (simp_all add: claim_slot_def w1_def)
  have upd: "slot_ptr (j, w2) u = (if u = t then of_nat b else slot_ptr (i, w) u)" if "u \<in> slots" for u
    using slot_ptr_attach [OF wf1 r1 f1 that] same [OF that] at by simp
  have wf2: "file_wf (j, w2)"
    by (rule file_wf_update [OF wf _ upd]) (use wfj used1 used2 b in auto)
  have out: "outside_parent t (i, w1) c" if "c \<notin> pointer_blocks (i, w)" for c
    using par that by (auto simp: outside_parent_def)
  have nb: "b \<notin> pointer_blocks (i, w)" using pointer_blocks_used(2) [OF wf] b(2) by auto
  have ts: "t \<in> slots" "slot_ptr (i, w) t = UFS_INVALID_BLOCK" using r by (simp_all add: ready_def)
  have zero: "blk w2 (unat (slot_ptr (j, w2) (Data lb))) = replicate 512 0" if "Data lb = t" for lb
    using that upd [OF ts(1)] ub blk2 [OF out [OF nb]] gv(2) [of b] bb by (auto simp: w1_def)
  have frame: "blk w2 c = blk w c" if "in_data_region c" "block_used w c" "c \<notin> pointer_blocks (i, w)" for c
    using blk2 [OF out [OF that(3)]] blk1 [OF that(1)] that(2) b(2) by auto
  have ino: "inode_at w2 n = inode_at w n" if "n < UFS_MAX_INODES" for n
    using ino2 [OF that] gv(5) [OF that] that bb by (simp add: w1_def)
  have iu: "inode_used w2 = inode_used w" "descriptor_table w2 = descriptor_table w"
    using used2 dt2 gv bb by (simp_all add: w1_def)
  have new: "slot_ptr (j, w2) t = of_nat b" using upd [OF ts(1)] by simp
  have used: "block_used w2 c \<longleftrightarrow> block_used w c \<or> c \<in> (\<lambda>u. unat (slot_ptr (j, w2) u)) ` {t}"
    if "in_data_region c" for c
    using used1 [OF that] used2 new ub by auto
  show "slot_ptr (claim_slot t b (i, w)) t = of_nat b" using new by (simp add: cl)
  show "grown {t} (i, w) (claim_slot t b (i, w))"
    unfolding cl grown_def fst_conv snd_conv
    using l2 wf2 meta ts new ub b(2) upd used frame zero iu ino by auto
qed

end
