(* ===== verification/Ufs_Extend.thy ===== *)
theory Ufs_Extend
  imports Ufs_Filemap
begin

text \<open>
  \<open>ensure_inode_data_block\<close> extends the block map of a file at one place. Its three parts are followed
  through the slots they fill; \<open>ensured\<close> is what each of them promises, \<open>file_step\<close> what every
  operation on the blocks of a file keeps.
\<close>

section \<open>The code extends files\<close>

definition full :: "world \<Rightarrow> bool" where
  "full w \<longleftrightarrow> (\<forall>b. in_data_region b \<longrightarrow> block_used w b)"

lemma allocate_cases:
  assumes "live w"
  obtains (full) "allocate_data_block w = (None, w\<lparr>errno := ENOSPC\<rparr>)" and "full w"
  | (block) b where "allocate_data_block w = (Some b, grab_block b w)" and "in_data_region b" and "\<not> block_used w b"
proof (cases "first_from (\<lambda>b. \<not> block_used w b) UFS_DATA_REGION_START_BLK UFS_TOTAL_BLOCKS")
  case None
  then have "full w" by (auto simp: first_from_None full_def in_data_region_def)
  then show ?thesis using full None assms by (simp add: allocate_data_block_live fail_def)
next
  case (Some b)
  then have "in_data_region b" "\<not> block_used w b" by (auto simp: first_from_Some in_data_region_def)
  then show ?thesis
    using block [of b] assms Some by (simp add: allocate_data_block_live)
qed

lemma new_pointer_block_cases:
  assumes "live w"
  obtains (full) "new_pointer_block w = (None, w\<lparr>errno := ENOSPC\<rparr>)" and "full w"
  | (block) b where "new_pointer_block w = (Some (of_nat b), put_blk b invalid_pointers (grab_block b w))"
      and "in_data_region b" and "\<not> block_used w b"
  using assms
proof (cases rule: allocate_cases)
  case full
  then show ?thesis using that(1) by (simp add: new_pointer_block_def run_simps)
next
  case (block b)
  note bb = in_data_regionD [OF block(2)]
  have "new_pointer_block w = (Some (of_nat b), put_blk b invalid_pointers (grab_block b w))"
    using block(1) bb grab_block_views(1) [OF assms bb]
    by (simp add: new_pointer_block_def run_simps io_simps invalid_pointers_def ret_def)
  then show ?thesis using that(2) block by blast
qed

lemma pointer_at_errno [simp]: "pointer_at (w\<lparr>errno := e\<rparr>) b k = pointer_at w b k"
  by (simp add: pointer_at_def pointers_def)

lemma slot_ptr_errno [simp]: "slot_ptr (i, w\<lparr>errno := e\<rparr>) t = slot_ptr (i, w) t"
  by (cases t) (simp_all add: pointer_at_def pointers_def)

lemma block_used_errno [simp]: "block_used (w\<lparr>errno := e\<rparr>) = block_used w" "inode_used (w\<lparr>errno := e\<rparr>) = inode_used w"
  by (simp_all add: fun_eq_iff block_used_def block_bitmap_def inode_used_def)

lemma file_errno [simp]:
  "used_slots (i, w\<lparr>errno := e\<rparr>) = used_slots (i, w)" "file_wf (i, w\<lparr>errno := e\<rparr>) = file_wf (i, w)"
  "full (w\<lparr>errno := e\<rparr>) = full w"
  by (simp_all add: used_slots_def file_wf_def full_def inj_on_def)

lemma grown_errno [simp]: "grown T s (i, w\<lparr>errno := e\<rparr>) = grown T s (i, w)"
  by (simp add: grown_def)

text \<open>
  \<open>ensured lb s r s1\<close>: the outcome of making logical block \<open>lb\<close> exist. With \<open>Some p\<close>, \<open>p\<close> is the block of
  \<open>lb\<close>, and only \<open>lb\<close> and pointer slots grew, and nothing if \<open>lb\<close> existed; with \<open>None\<close>, the image is
  full and only pointer slots grew.
\<close>

definition ensured :: "nat \<Rightarrow> ufs_inode \<times> world \<Rightarrow> u32 option \<Rightarrow> ufs_inode \<times> world \<Rightarrow> bool" where
  "ensured lb s r s1 \<longleftrightarrow> (\<exists>T. grown T s s1 \<and> (slot_ptr s (Data lb) \<noteq> UFS_INVALID_BLOCK \<longrightarrow> T = {} \<and> s1 = s) \<and>
     (case r of
        None \<Rightarrow> T \<subseteq> pointer_slots \<and> slot_ptr s (Data lb) = UFS_INVALID_BLOCK \<and> full (snd s1) \<and> errno (snd s1) = ENOSPC
      | Some p \<Rightarrow> p = slot_ptr s1 (Data lb) \<and> p \<noteq> UFS_INVALID_BLOCK \<and>
          T - pointer_slots = (if slot_ptr s (Data lb) = UFS_INVALID_BLOCK then {Data lb} else {})))"

lemma ensured_there:
  "live (snd s) \<Longrightarrow> file_wf s \<Longrightarrow> slot_ptr s (Data lb) \<noteq> UFS_INVALID_BLOCK \<Longrightarrow>
   ensured lb s (Some (slot_ptr s (Data lb))) s"
  unfolding ensured_def by (rule exI [of _ "{}"]) (simp add: grown_refl)

lemma ensured_full:
  assumes "live w" and "file_wf (i, w)" and "slot_ptr (i, w) (Data lb) = UFS_INVALID_BLOCK" and "full w"
  shows "ensured lb (i, w) None (i, w\<lparr>errno := ENOSPC\<rparr>)"
  unfolding ensured_def using assms grown_refl [of "(i, w)"] by (intro exI [of _ "{}"]) simp

lemma ensured_claim:
  assumes "live w" and "file_wf (i, w)" and "ready (Data lb) (i, w)" and "in_data_region b" and "\<not> block_used w b"
  shows "ensured lb (i, w) (Some (of_nat b)) (claim_slot (Data lb) b (i, w))"
proof -
  note g = grown_claim(1) [OF assms]
  have "slot_ptr (claim_slot (Data lb) b (i, w)) (Data lb) = of_nat b" by (rule grown_claim(2) [OF assms])
  then show ?thesis
    using g grownD(5) [OF g, of "Data lb"] assms(3)
    unfolding ensured_def by (intro exI [of _ "{Data lb}"]) (auto simp: ready_def)
qed

lemma ensured_after:
  assumes g: "grown T s s1" and "T \<subseteq> pointer_slots" and "slot_ptr s (Data lb) = UFS_INVALID_BLOCK"
    and "lb < UFS_MAX_FILE_BLOCKS" and e: "ensured lb s1 r s2"
  shows "ensured lb s r s2"
proof -
  have "Data lb \<notin> T" using assms(2) by auto
  then have now: "slot_ptr s1 (Data lb) = UFS_INVALID_BLOCK" using grownD(7) [OF g, of "Data lb"] assms(3,4) by simp
  obtain U where u: "grown U s1 s2" "case r of
        None \<Rightarrow> U \<subseteq> pointer_slots \<and> full (snd s2) \<and> errno (snd s2) = ENOSPC
      | Some p \<Rightarrow> p = slot_ptr s2 (Data lb) \<and> p \<noteq> UFS_INVALID_BLOCK \<and> U - pointer_slots = {Data lb}"
    using e now by (cases r) (auto simp: ensured_def)
  have "(T \<union> U) - pointer_slots = U - pointer_slots" using assms(2) by auto
  then show ?thesis
    unfolding ensured_def using grown_trans [OF g u(1)] u(2) assms(2,3)
    by (intro exI [of _ "T \<union> U"]) (auto split: option.splits)
qed

declare slot_ptr.simps(1) [simp del]

lemma parent_slot: "t \<in> slots \<Longrightarrow> parent t = Some p \<Longrightarrow> p \<in> pointer_slots"
  using double_index(1) by (cases t) (auto split: if_splits)

text \<open>The parent of a slot, and the index of the slot in the parent's block.\<close>

fun child :: "slot \<Rightarrow> slot \<Rightarrow> nat \<Rightarrow> bool" where
  "child (Data lb) p k \<longleftrightarrow> 8 \<le> lb \<and> lb < 136 \<and> p = Single \<and> k = lb - 8 \<or>
     136 \<le> lb \<and> lb < 16520 \<and> p = Level1 ((lb - 136) div 128) \<and> k = (lb - 136) mod 128"
| "child (Level1 j) p k \<longleftrightarrow> j < 128 \<and> p = Double \<and> k = j"
| "child t p k \<longleftrightarrow> False"

lemma child_cases:
  assumes "child t p k"
  obtains (single) lb where "8 \<le> lb" and "lb < 136" and "t = Data lb" and "p = Single" and "k = lb - 8"
  | (double) lb where "136 \<le> lb" and "lb < 16520" and "t = Data lb" and "p = Level1 ((lb - 136) div 128)"
      and "k = (lb - 136) mod 128"
  | (level1) "k < 128" and "t = Level1 k" and "p = Double"
proof (cases t)
  case (Data lb)
  show ?thesis
  proof (cases "lb < 136")
    case True
    then show ?thesis using assms Data single [of lb] unfolding Data child.simps by force
  next
    case False
    then show ?thesis using assms Data double [of lb] unfolding Data child.simps by force
  qed
qed (use assms level1 in simp_all)

lemma childD:
  assumes "child t p k"
  shows "parent t = Some p \<and> t \<in> slots \<and> p \<in> pointer_slots \<and> k < 128 \<and>
    slot_ptr (i, w) t = pointer_at w (slot_ptr (i, w) p) k \<and>
    attach t b (i, w) = (i, put_pointer (slot_ptr (i, w) p) k b w)"
  using assms
proof (cases rule: child_cases)
  case (single lb)
  then have "lb - 8 < 128" by linarith
  with single show ?thesis by (simp add: slot_ptr.simps(1))
next
  case (double lb)
  then show ?thesis using double_index(1,2) [of lb] by (simp add: slot_ptr.simps(1))
qed simp

lemma fill_pointer_ensures:
  assumes c: "child (Data lb) p k" and l: "live w" and wf: "file_wf (i, w)" and pb: "slot_ptr (i, w) p \<noteq> UFS_INVALID_BLOCK"
  obtains r w1 where "fill_pointer (slot_ptr (i, w) p) (pointers w (slot_ptr (i, w) p)) k w = (r, w1)"
    and "ensured lb (i, w) r (i, w1)"
proof -
  have cD: "parent (Data lb) = Some p" "Data lb \<in> slots" "p \<in> pointer_slots"
    "\<And>i w. slot_ptr (i, w) (Data lb) = pointer_at w (slot_ptr (i, w) p) k"
    "\<And>i w b. attach (Data lb) b (i, w) = (i, put_pointer (slot_ptr (i, w) p) k b w)"
    using childD [OF c] by blast+
  have ps: "p \<in> slots" using cD(3) by (rule pointer_slots_slots)
  note pr = file_wf_slot [OF wf ps pb]
  have ptr: "pointers w (slot_ptr (i, w) p) ! k = slot_ptr (i, w) (Data lb)"
    using cD(4) [of i w] pb by (simp add: pointer_at_def)
  show ?thesis
  proof (cases "slot_ptr (i, w) (Data lb) = UFS_INVALID_BLOCK")
    case False
    then show ?thesis
      using that [of "Some (slot_ptr (i, w) (Data lb))" w] ensured_there [of "(i, w)" lb] l wf ptr
      by (simp add: fill_pointer_def ret_def)
  next
    case True
    have rd: "ready (Data lb) (i, w)" using True cD(1,2) pb by (simp add: ready_def)
    from l show ?thesis
    proof (cases rule: allocate_cases)
      case full
      then show ?thesis
        using that [of None "w\<lparr>errno := ENOSPC\<rparr>"] ensured_full [OF l wf True] ptr True
        by (simp add: fill_pointer_def run_simps)
    next
      case (block b)
      note bb = in_data_regionD [OF block(2)]
      have eq: "pointers (grab_block b w) (slot_ptr (i, w) p) = pointers w (slot_ptr (i, w) p)"
        using grab_block_views(2) [OF l bb pr(4)] pr(2) block(3) by (auto simp: pointers_def)
      have "claim_slot (Data lb) b (i, w) = (i, put_pointer (slot_ptr (i, w) p) k (of_nat b) (grab_block b w))"
        using cD(5) [of "of_nat b" i "grab_block b w"] grab_block_file(2) [OF wf l block(2,3) ps] by (simp add: claim_slot_def)
      moreover have "fill_pointer (slot_ptr (i, w) p) (pointers w (slot_ptr (i, w) p)) k w =
          (Some (of_nat b), put_pointer (slot_ptr (i, w) p) k (of_nat b) (grab_block b w))"
        using ptr True block(1) grab_block_views(1) [OF l bb] pr(3)
        by (simp add: fill_pointer_def run_simps io_simps put_pointer_def eq ret_def)
      ultimately show ?thesis
        using that ensured_claim [OF l wf rd block(2,3)] by simp
    qed
  qed
qed

lemma ensure_direct_ensures:
  assumes l: "live w" and wf: "file_wf (i, w)" and lb: "lb < 8"
  obtains r s1 where "ensure_direct lb (i, w) = (r, s1)" and "ensured lb (i, w) (map_option fst r) s1"
    and "\<And>p. r = Some (p, False) \<Longrightarrow> fst s1 = i"
    and "\<And>p. r = Some (p, True) \<Longrightarrow> slot_ptr (i, w) (Data lb) = UFS_INVALID_BLOCK"
proof (cases "slot_ptr (i, w) (Data lb) = UFS_INVALID_BLOCK")
  case False
  then show ?thesis
    using that [of "Some (slot_ptr (i, w) (Data lb), False)" "(i, w)"] ensured_there [of "(i, w)" lb] l wf lb
    by (simp add: ensure_direct_def asking_def ret_def slot_ptr.simps)
next
  case True
  then have rd: "ready (Data lb) (i, w)" using lb by (simp add: ready_def)
  from l show ?thesis
  proof (cases rule: allocate_cases)
    case full
    then show ?thesis
      using that [of None "(i, w\<lparr>errno := ENOSPC\<rparr>)"] ensured_full [OF l wf True] True lb
      by (simp add: ensure_direct_def asking_def run_simps slot_ptr.simps)
  next
    case (block b)
    have "claim_slot (Data lb) b (i, w) = (set_direct lb (of_nat b) i, grab_block b w)"
      using lb by (simp add: claim_slot_def)
    then show ?thesis
      using that [of "Some (of_nat b, True)" "claim_slot (Data lb) b (i, w)"] ensured_claim [OF l wf rd block(2,3)] block True lb
      by (simp add: ensure_direct_def asking_def run_simps slot_ptr.simps modify_def ret_def)
  qed
qed

lemma on_world_eq: "m w = (r, w1) \<Longrightarrow> on_world m (i, w) = (r, (i, w1))"
  by (rule on_world_run)

text \<open>The common tail: read a pointer block and fill one of its entries.\<close>

lemma fill_tail_ensures:
  assumes c: "child (Data lb) p k" and l: "live w" and wf: "file_wf (i, w)" and pb: "slot_ptr (i, w) p \<noteq> UFS_INVALID_BLOCK"
  obtains r w1 where "on_ok (on_world (read_pointers (slot_ptr (i, w) p))) (\<lambda>ptrs.
      on_ok (on_world (fill_pointer (slot_ptr (i, w) p) ptrs k)) (\<lambda>phys. ret (phys, d))) (i, w) = (map_option (\<lambda>x. (x, d)) r, (i, w1))"
    and "ensured lb (i, w) r (i, w1)"
proof -
  have "p \<in> slots" using childD [OF c] pointer_slots_slots by blast
  then have t: "unat (slot_ptr (i, w) p) < UFS_TOTAL_BLOCKS" using file_wf_slot(3) [OF wf _ pb] by blast
  obtain r w1 where f: "fill_pointer (slot_ptr (i, w) p) (pointers w (slot_ptr (i, w) p)) k w = (r, w1)"
      "ensured lb (i, w) r (i, w1)"
    using fill_pointer_ensures [OF c l wf pb] .
  show ?thesis
    using that [OF _ f(2)] f(1) read_pointers_live [OF l t] by (cases r) (simp_all add: run_simps ret_def)
qed

lemma ensure_single_ensures:
  assumes l: "live w" and wf: "file_wf (i, w)" and lb: "k < 128"
  obtains r s1 where "ensure_single k (i, w) = (r, s1)" and "ensured (k + 8) (i, w) (map_option fst r) s1"
    and "\<And>p. r = Some (p, False) \<Longrightarrow> fst s1 = i"
    and "\<And>p. r = Some (p, True) \<Longrightarrow> slot_ptr (i, w) (Data (k + 8)) = UFS_INVALID_BLOCK"
proof -
  have c: "child (Data (k + 8)) Single k" using lb by simp
  show ?thesis
  proof (cases "ino_single_indirect i = UFS_INVALID_BLOCK")
    case False
    then have pb: "slot_ptr (i, w) Single \<noteq> UFS_INVALID_BLOCK" by simp
    obtain r w1 where r: "on_ok (on_world (read_pointers (slot_ptr (i, w) Single))) (\<lambda>ptrs.
      on_ok (on_world (fill_pointer (slot_ptr (i, w) Single) ptrs k)) (\<lambda>phys. ret (phys, False))) (i, w) =
        (map_option (\<lambda>x. (x, False)) r, (i, w1))" "ensured (k + 8) (i, w) r (i, w1)"
      using fill_tail_ensures [OF c l wf pb] .
    show ?thesis
      using that [of "map_option (\<lambda>x. (x, False)) r" "(i, w1)"] r False
      by (simp add: ensure_single_def asking_def option.map_comp comp_def option.map_ident)
  next
    case True
    have rd: "ready Single (i, w)" using True by (simp add: ready_def)
    have old: "slot_ptr (i, w) (Data (k + 8)) = UFS_INVALID_BLOCK"
      using True lb by (simp add: slot_ptr.simps(1) pointer_at_def)
    from l show ?thesis
    proof (cases rule: new_pointer_block_cases)
      case full
      then show ?thesis
        using that [of None "(i, w\<lparr>errno := ENOSPC\<rparr>)"] ensured_full [OF l wf old] True
        by (simp add: ensure_single_def asking_def run_simps)
    next
      case (block b)
      define w0 where "w0 = put_blk b invalid_pointers (grab_block b w)"
      define j where "j = i\<lparr>ino_single_indirect := of_nat b\<rparr>"
      have cl: "claim_slot Single b (i, w) = (j, w0)" by (simp add: claim_slot_def w0_def j_def)
      note g = grown_claim [OF l wf rd block(2,3), unfolded cl]
      have pb: "slot_ptr (j, w0) Single \<noteq> UFS_INVALID_BLOCK" using grownD(5) [OF g(1)] by simp
      have l0: "live w0" and wf0: "file_wf (j, w0)" using grownD(1,2) [OF g(1)] by simp_all
      obtain r w1 where r: "on_ok (on_world (read_pointers (slot_ptr (j, w0) Single))) (\<lambda>ptrs.
        on_ok (on_world (fill_pointer (slot_ptr (j, w0) Single) ptrs k)) (\<lambda>phys. ret (phys, True))) (j, w0) =
          (map_option (\<lambda>x. (x, True)) r, (j, w1))" "ensured (k + 8) (j, w0) r (j, w1)"
        using fill_tail_ensures [OF c l0 wf0 pb] .
      have "ensured (k + 8) (i, w) r (j, w1)"
        using ensured_after [OF g(1) _ old _ r(2)] lb by simp
      moreover have "ensure_single k (i, w) = (map_option (\<lambda>x. (x, True)) r, (j, w1))"
        using block(1) r(1) True by (simp add: ensure_single_def asking_def run_simps modify_def w0_def j_def)
      ultimately show ?thesis
        using that [of "map_option (\<lambda>x. (x, True)) r" "(j, w1)"] old
        by (auto simp: option.map_comp comp_def option.map_ident)
    qed
  qed
qed

lemma double_child:
  assumes "k < 16384"
  shows "child (Data (k + 136)) (Level1 (k div 128)) (k mod 128)" "k div 128 < 128"
  using assms by auto

text \<open>The part of \<open>ensure_double\<close> behind the double indirect block.\<close>

definition level1_tail :: "nat \<Rightarrow> bool \<Rightarrow> (u32 \<times> bool) inode_op" where
  "level1_tail k d = asking (ino_double_indirect \<circ> fst) (\<lambda>pb.
     on_ok (on_world (read_pointers pb)) (\<lambda>l1.
     let level2 = (\<lambda>l1b. on_ok (on_world (read_pointers l1b)) (\<lambda>l2.
           on_ok (on_world (fill_pointer l1b l2 (k mod 128))) (\<lambda>phys. ret (phys, d)))) in
     if l1 ! (k div 128) = UFS_INVALID_BLOCK then
       on_ok (on_world new_pointer_block) (\<lambda>nb.
       attempt (on_world (ufs_write_block (unat pb) (enc_words (l1[k div 128 := nb]))))
         (\<lambda>_. level2 nb) (discard (on_world (free_data_block (unat nb))) fail_same))
     else level2 (l1 ! (k div 128))))"

lemma ensure_double_tail:
  "ensure_double k = asking fst (\<lambda>inode.
     if ino_double_indirect inode = UFS_INVALID_BLOCK then
       on_ok (on_world new_pointer_block) (\<lambda>nb.
       modify (apfst (\<lambda>i. i\<lparr>ino_double_indirect := nb\<rparr>)) (level1_tail k True))
     else level1_tail k False)"
  unfolding ensure_double_def level1_tail_def Let_def ..

lemma level1_tail_ensures:
  assumes l: "live w" and wf: "file_wf (i, w)" and k: "k < 16384" and pb: "slot_ptr (i, w) Double \<noteq> UFS_INVALID_BLOCK"
  obtains r w1 where "level1_tail k d (i, w) = (map_option (\<lambda>x. (x, d)) r, (i, w1))" and "ensured (k + 136) (i, w) r (i, w1)"
proof -
  note c = double_child [OF k]
  define q where "q = ino_double_indirect i"
  have q: "unat q < UFS_TOTAL_BLOCKS" "q \<noteq> UFS_INVALID_BLOCK" "UFS_DATA_REGION_START_BLK \<le> unat q" "block_used w (unat q)"
    using file_wf_slot [OF wf _ pb] pb by (simp_all add: q_def)
  have l1: "pointers w q ! (k div 128) = slot_ptr (i, w) (Level1 (k div 128))"
    using q(2) by (simp add: pointer_at_def q_def)
  show ?thesis
  proof (cases "slot_ptr (i, w) (Level1 (k div 128)) = UFS_INVALID_BLOCK")
    case False
    obtain r w1 where r: "on_ok (on_world (read_pointers (slot_ptr (i, w) (Level1 (k div 128))))) (\<lambda>ptrs.
      on_ok (on_world (fill_pointer (slot_ptr (i, w) (Level1 (k div 128))) ptrs (k mod 128))) (\<lambda>phys. ret (phys, d))) (i, w) =
        (map_option (\<lambda>x. (x, d)) r, (i, w1))" "ensured (k + 136) (i, w) r (i, w1)"
      using fill_tail_ensures [OF c(1) l wf False] .
    show ?thesis
      using that [OF _ r(2)] r(1) False l1 q read_pointers_live [OF l q(1)]
      by (simp add: level1_tail_def asking_def run_simps Let_def q_def [symmetric] del: slot_ptr.simps)
  next
    case True
    have rd: "ready (Level1 (k div 128)) (i, w)" using True pb c(2) by (simp add: ready_def)
    have old: "slot_ptr (i, w) (Data (k + 136)) = UFS_INVALID_BLOCK"
      using True by (simp add: slot_ptr.simps(1) pointer_at_def)
    from l show ?thesis
    proof (cases rule: new_pointer_block_cases)
      case full
      then show ?thesis
        using that [of None "w\<lparr>errno := ENOSPC\<rparr>"] ensured_full [OF l wf old] True l1 read_pointers_live [OF l q(1)]
        by (simp add: level1_tail_def asking_def run_simps Let_def q_def [symmetric] del: slot_ptr.simps)
    next
      case (block b)
      note bb = in_data_regionD [OF block(2)]
      define w0 where "w0 = put_blk b invalid_pointers (grab_block b w)"
      have lw0: "live w0" using grab_block_views(1) [OF l bb] bb by (simp add: w0_def)
      have eq: "pointers w0 q = pointers w q"
        using grab_block_views(2) [OF l bb q(3)] q(4) block(3) by (auto simp: pointers_def w0_def)
      define w1 where "w1 = put_pointer q (k div 128) (of_nat b) w0"
      have cl: "claim_slot (Level1 (k div 128)) b (i, w) = (i, w1)"
        using c(2) by (simp add: claim_slot_def w0_def w1_def q_def)
      note g = grown_claim [OF l wf rd block(2,3), unfolded cl]
      have live1: "live w1" and wf1: "file_wf (i, w1)" using grownD(1,2) [OF g(1)] by simp_all
      have pb1: "slot_ptr (i, w1) (Level1 (k div 128)) \<noteq> UFS_INVALID_BLOCK" using grownD(5) [OF g(1)] by simp
      have wr: "ufs_write_block (unat q) (enc_words ((pointers w q)[k div 128 := of_nat b])) w0 = (Some (), w1)"
        using lw0 q(1) by (simp add: io_simps w1_def put_pointer_def eq)
      obtain r w2 where r: "on_ok (on_world (read_pointers (slot_ptr (i, w1) (Level1 (k div 128))))) (\<lambda>ptrs.
        on_ok (on_world (fill_pointer (slot_ptr (i, w1) (Level1 (k div 128))) ptrs (k mod 128))) (\<lambda>phys. ret (phys, d))) (i, w1) =
          (map_option (\<lambda>x. (x, d)) r, (i, w2))" "ensured (k + 136) (i, w1) r (i, w2)"
        using fill_tail_ensures [OF c(1) live1 wf1 pb1] .
      have "ensured (k + 136) (i, w) r (i, w2)"
        using ensured_after [OF g(1) _ old _ r(2)] k c(2) by simp
      moreover have "level1_tail k d (i, w) = (map_option (\<lambda>x. (x, d)) r, (i, w2))"
        using block(1) r(1) True l1 read_pointers_live [OF l q(1)] wr g(2)
        by (simp add: level1_tail_def asking_def run_simps Let_def w0_def [symmetric] q_def [symmetric] del: slot_ptr.simps)
      ultimately show ?thesis using that by blast
    qed
  qed
qed

lemma ensure_double_ensures:
  assumes l: "live w" and wf: "file_wf (i, w)" and k: "k < 16384"
  obtains r s1 where "ensure_double k (i, w) = (r, s1)" and "ensured (k + 136) (i, w) (map_option fst r) s1"
    and "\<And>p. r = Some (p, False) \<Longrightarrow> fst s1 = i"
    and "\<And>p. r = Some (p, True) \<Longrightarrow> slot_ptr (i, w) (Data (k + 136)) = UFS_INVALID_BLOCK"
proof (cases "ino_double_indirect i = UFS_INVALID_BLOCK")
  case False
  then have pb: "slot_ptr (i, w) Double \<noteq> UFS_INVALID_BLOCK" by simp
  obtain r w1 where r: "level1_tail k False (i, w) = (map_option (\<lambda>x. (x, False)) r, (i, w1))" "ensured (k + 136) (i, w) r (i, w1)"
    using level1_tail_ensures [OF l wf k pb] .
  then show ?thesis
    using that [of "map_option (\<lambda>x. (x, False)) r" "(i, w1)"] False
    by (simp add: ensure_double_tail asking_def option.map_comp comp_def option.map_ident)
next
  case True
  have rd: "ready Double (i, w)" using True by (simp add: ready_def)
  have old: "slot_ptr (i, w) (Data (k + 136)) = UFS_INVALID_BLOCK"
    using True by (simp add: slot_ptr.simps(1) pointer_at_def)
  from l show ?thesis
  proof (cases rule: new_pointer_block_cases)
    case full
    then show ?thesis
      using that [of None "(i, w\<lparr>errno := ENOSPC\<rparr>)"] ensured_full [OF l wf old] True
      by (simp add: ensure_double_tail asking_def run_simps)
  next
    case (block b)
    define w0 where "w0 = put_blk b invalid_pointers (grab_block b w)"
    define j where "j = i\<lparr>ino_double_indirect := of_nat b\<rparr>"
    have cl: "claim_slot Double b (i, w) = (j, w0)" by (simp add: claim_slot_def w0_def j_def)
    note g = grown_claim [OF l wf rd block(2,3), unfolded cl]
    have pb: "slot_ptr (j, w0) Double \<noteq> UFS_INVALID_BLOCK" using grownD(5) [OF g(1)] by simp
    have l0: "live w0" and wf0: "file_wf (j, w0)" using grownD(1,2) [OF g(1)] by simp_all
    obtain r w1 where r: "level1_tail k True (j, w0) = (map_option (\<lambda>x. (x, True)) r, (j, w1))"
        "ensured (k + 136) (j, w0) r (j, w1)"
      using level1_tail_ensures [OF l0 wf0 k pb] .
    have "ensured (k + 136) (i, w) r (j, w1)"
      using ensured_after [OF g(1) _ old _ r(2)] k by simp
    moreover have "ensure_double k (i, w) = (map_option (\<lambda>x. (x, True)) r, (j, w1))"
      using block(1) r(1) True by (simp add: ensure_double_tail asking_def run_simps modify_def w0_def j_def)
    ultimately show ?thesis
      using that [of "map_option (\<lambda>x. (x, True)) r" "(j, w1)"] old
      by (auto simp: option.map_comp comp_def option.map_ident)
  qed
qed

text \<open>The whole function: the extended inode is also written to its slot of the inode table when one of
  its own pointers changed.\<close>

lemma ensure_inode_data_block_ensures:
  assumes l: "live w" and wf: "file_wf (i, w)" and n: "n < UFS_MAX_INODES" and lb: "lb < UFS_MAX_FILE_BLOCKS"
  obtains r j w1 where "ensured lb (i, w) r (j, w1)"
    and "ensure_inode_data_block n lb (i, w) = (r, (j, w1)) \<and> (r \<noteq> None \<longrightarrow> j = i) \<or>
      ensure_inode_data_block n lb (i, w) = (r, (j, put_inode n j w1)) \<and>
        slot_ptr (i, w) (Data lb) = UFS_INVALID_BLOCK \<and> r \<noteq> None"
proof -
  define part where "part = (if lb < 8 then ensure_direct lb
      else if lb - 8 < 128 then ensure_single (lb - 8) else ensure_double (lb - 8 - 128))"
  obtain r s1 where p: "part (i, w) = (r, s1)" "ensured lb (i, w) (map_option fst r) s1"
      and clean: "\<And>p. r = Some (p, False) \<Longrightarrow> fst s1 = i"
      and dirty: "\<And>p. r = Some (p, True) \<Longrightarrow> slot_ptr (i, w) (Data lb) = UFS_INVALID_BLOCK"
  proof -
    consider "lb < 8" | "8 \<le> lb" "lb - 8 < 128" | "8 \<le> lb" "\<not> lb - 8 < 128" by linarith
    then show ?thesis
    proof cases
      case 1
      then show ?thesis using ensure_direct_ensures [OF l wf 1] that by (simp add: part_def) metis
    next
      case 2
      then show ?thesis using ensure_single_ensures [OF l wf 2(2)] that by (simp add: part_def) metis
    next
      case 3
      then have k: "lb - 8 - 128 < 16384" "lb - 8 - 128 + 136 = lb" using lb by linarith+
      show ?thesis using ensure_double_ensures [OF l wf k(1)] that 3 unfolding k(2) by (simp add: part_def) metis
    qed
  qed
  obtain j w1 where s1: "s1 = (j, w1)" by (cases s1)
  have g: "live w1" "ino_wf j"
  proof -
    obtain T where "grown T (i, w) (j, w1)" using p(2) s1 by (auto simp: ensured_def)
    then show "live w1" "ino_wf j" using grownD(1,2) file_wf_ino by fastforce+
  qed
  have run: "ensure_inode_data_block n lb (i, w) = on_ok part (\<lambda>(phys, inode_dirty).
          if inode_dirty then asking fst (\<lambda>inode. on_ok (on_world (write_inode n inode)) (\<lambda>_. ret phys))
          else ret phys) (i, w)"
    using lb by (simp add: ensure_inode_data_block_def part_def)
  show ?thesis
  proof (cases r)
    case None
    then show ?thesis using that [of None j w1] p s1 run by (simp add: run_simps)
  next
    case (Some q)
    obtain x d where q: "q = (x, d)" by (cases q)
    show ?thesis
    proof (cases d)
      case True
      then show ?thesis using that [of "Some x" j w1] p s1 run Some q g n dirty
        by (simp add: run_simps asking_def io_simps ret_def)
    next
      case False
      then show ?thesis using that [of "Some x" j w1] p s1 run Some q clean
        by (simp add: run_simps asking_def ret_def)
    qed
  qed
qed

section \<open>Steps of a file\<close>

definition owned_blocks :: "ufs_inode \<times> world \<Rightarrow> nat set" where
  "owned_blocks s = (\<lambda>t. unat (slot_ptr s t)) ` used_slots s"

text \<open>
  \<open>others_kept n s s1\<close>: an operation on file \<open>n\<close> touches nothing that is not the file's. The used blocks
  are afterwards those of the others, which keep their contents, and those of the file, so that no block
  is lost and none is shared; other inodes stay.
\<close>

definition others_kept :: "nat \<Rightarrow> ufs_inode \<times> world \<Rightarrow> ufs_inode \<times> world \<Rightarrow> bool" where
  "others_kept n s s1 \<longleftrightarrow> live (snd s1) \<and>
     (\<forall>b. in_data_region b \<longrightarrow>
        (block_used (snd s1) b \<longleftrightarrow> (block_used (snd s) b \<and> b \<notin> owned_blocks s) \<or> b \<in> owned_blocks s1)) \<and>
     (\<forall>b. in_data_region b \<longrightarrow> block_used (snd s) b \<longrightarrow> b \<notin> owned_blocks s \<longrightarrow>
        b \<notin> owned_blocks s1 \<and> blk (snd s1) b = blk (snd s) b) \<and>
     (\<forall>m < UFS_MAX_INODES. m \<noteq> n \<longrightarrow> inode_at (snd s1) m = inode_at (snd s) m) \<and>
     inode_used (snd s1) = inode_used (snd s) \<and> descriptor_table (snd s1) = descriptor_table (snd s)"

text \<open>\<open>file_step n s s1\<close>: the operation also keeps the file well formed and its attributes.\<close>

definition file_step :: "nat \<Rightarrow> ufs_inode \<times> world \<Rightarrow> ufs_inode \<times> world \<Rightarrow> bool" where
  "file_step n s s1 \<longleftrightarrow> file_wf s1 \<and> same_meta (fst s1) (fst s) \<and> others_kept n s s1"

lemma owned_used: "file_wf s \<Longrightarrow> b \<in> owned_blocks s \<Longrightarrow> in_data_region b \<and> block_used (snd s) b"
  by (auto simp: owned_blocks_def file_wf_def)

lemma others_kept_refl: "live (snd s) \<Longrightarrow> file_wf s \<Longrightarrow> others_kept n s s"
  using owned_used [of s] by (cases s) (auto simp: others_kept_def)

lemma others_kept_trans:
  assumes g: "others_kept n s s1" and h: "others_kept n s1 s2"
  shows "others_kept n s s2"
proof -
  have used: "block_used (snd s2) b \<longleftrightarrow> (block_used (snd s) b \<and> b \<notin> owned_blocks s) \<or> b \<in> owned_blocks s2"
    if "in_data_region b" for b
    using g h that unfolding others_kept_def by metis
  have keep: "b \<notin> owned_blocks s2 \<and> blk (snd s2) b = blk (snd s) b"
    if "in_data_region b" "block_used (snd s) b" "b \<notin> owned_blocks s" for b
    using g h that unfolding others_kept_def by metis
  show ?thesis using g h used keep unfolding others_kept_def by simp
qed

lemma file_step_trans: "file_step n s s1 \<Longrightarrow> file_step n s1 s2 \<Longrightarrow> file_step n s s2"
  using others_kept_trans same_meta_trans unfolding file_step_def by blast

lemma pointer_blocks_owned: "pointer_blocks s \<subseteq> owned_blocks s"
  by (auto simp: pointer_blocks_def owned_blocks_def)

lemma grown_owned:
  assumes g: "grown T s s1"
  shows "owned_blocks s1 = owned_blocks s \<union> (\<lambda>t. unat (slot_ptr s1 t)) ` T"
proof -
  have us: "used_slots s1 = used_slots s \<union> T"
    using grownD(4,5,7,12) [OF g] by (auto simp: used_slots_def) (metis)
  have "slot_ptr s1 t = slot_ptr s t" if "t \<in> used_slots s" for t
    using grownD(4,7) [OF g] that by (auto simp: used_slots_def)
  then show ?thesis unfolding owned_blocks_def us by (auto simp: image_Un)
qed

lemma grown_file_step:
  assumes g: "grown T s s1" and wf: "file_wf s" shows "file_step n s s1"
proof -
  have new: "\<not> block_used (snd s) b" if "b \<in> (\<lambda>t. unat (slot_ptr s1 t)) ` T" for b
    using that grownD(6) [OF g] by blast
  have used: "block_used (snd s1) b \<longleftrightarrow> (block_used (snd s) b \<and> b \<notin> owned_blocks s) \<or> b \<in> owned_blocks s1"
    if "in_data_region b" for b
    using grownD(8) [OF g that] owned_used [OF wf, of b] unfolding grown_owned [OF g] by blast
  have keep: "b \<notin> owned_blocks s1 \<and> blk (snd s1) b = blk (snd s) b"
    if "in_data_region b" "block_used (snd s) b" "b \<notin> owned_blocks s" for b
    using grownD(9) [OF g that(1,2)] pointer_blocks_owned [of s] new that unfolding grown_owned [OF g] by blast
  show ?thesis
    using g used keep unfolding grown_def file_step_def others_kept_def by simp
qed

lemma put_inode_owned:
  assumes "file_wf (i, w)" and "live w" and "ino_wf j" and "n < UFS_MAX_INODES"
  shows "owned_blocks (i, put_inode n j w) = owned_blocks (i, w)"
  using put_inode_file(2) [OF assms] by (auto simp: owned_blocks_def used_slots_def intro!: image_cong)

lemma put_inode_others:
  assumes st: "others_kept n s (j, w1)" and wf: "file_wf (j, w1)" and n: "n < UFS_MAX_INODES" and w: "ino_wf j'"
  shows "others_kept n s (j, put_inode n j' w1)"
proof -
  have l: "live w1" using st by (simp add: others_kept_def)
  have blk: "blk (put_inode n j' w1) b = blk w1 b" if "in_data_region b" for b
    using in_data_regionD [OF that] w n by simp
  show ?thesis using st put_inode_owned [OF wf l w n] l w n blk by (simp add: others_kept_def)
qed

lemma put_inode_step:
  assumes st: "file_step n s (j, w1)" and n: "n < UFS_MAX_INODES" and w: "ino_wf j'"
  shows "file_step n s (j, put_inode n j' w1)"
  using assms put_inode_others [of n s j w1 j'] put_inode_file(1) [of j w1 j' n]
  by (simp add: file_step_def others_kept_def)

lemma file_wf_init [simp]: "file_wf (ufs_init_inode t, w)"
proof -
  have "slot_ptr (ufs_init_inode t, w) u = UFS_INVALID_BLOCK" if "u \<in> slots" for u
    using that by (cases u) (auto simp: ufs_init_inode_def slot_ptr.simps(1) pointer_at_def)
  then have "used_slots (ufs_init_inode t, w) = {}" by (auto simp: used_slots_def)
  then show ?thesis by (simp add: file_wf_def)
qed

lemma ensure_block_run:
  assumes "live w" and "file_wf (i, w)" and "n < UFS_MAX_INODES" and "lb < UFS_MAX_FILE_BLOCKS"
  shows "case ensure_inode_data_block n lb (i, w) of (r, (j, w1)) \<Rightarrow>
    file_step n (i, w) (j, w1) \<and> (\<forall>k < UFS_MAX_FILE_BLOCKS. k \<noteq> lb \<longrightarrow> bmap w1 j k = bmap w i k) \<and>
    (\<forall>k < UFS_MAX_FILE_BLOCKS. bmap w i k \<noteq> UFS_INVALID_BLOCK \<longrightarrow> blk w1 (unat (bmap w i k)) = blk w (unat (bmap w i k))) \<and>
    (case r of
       None \<Rightarrow> bmap w i lb = UFS_INVALID_BLOCK \<and> bmap w1 j lb = UFS_INVALID_BLOCK \<and> full w1 \<and> errno w1 = ENOSPC
     | Some p \<Rightarrow> p = bmap w1 j lb \<and> in_data_region (unat p) \<and>
         (if bmap w i lb = UFS_INVALID_BLOCK
          then \<not> block_used w (unat p) \<and> blk w1 (unat p) = replicate 512 0 \<and> (j = i \<or> inode_at w1 n = j)
          else j = i \<and> w1 = w))"
proof -
  obtain r j w1 where e: "ensured lb (i, w) r (j, w1)"
    and run: "ensure_inode_data_block n lb (i, w) = (r, (j, w1)) \<and> (r \<noteq> None \<longrightarrow> j = i) \<or>
      ensure_inode_data_block n lb (i, w) = (r, (j, put_inode n j w1)) \<and> slot_ptr (i, w) (Data lb) = UFS_INVALID_BLOCK \<and> r \<noteq> None"
    using ensure_inode_data_block_ensures [OF assms] .
  obtain T where g: "grown T (i, w) (j, w1)"
    and same: "slot_ptr (i, w) (Data lb) \<noteq> UFS_INVALID_BLOCK \<longrightarrow> T = {} \<and> (j, w1) = (i, w)"
    and res: "case r of
        None \<Rightarrow> T \<subseteq> pointer_slots \<and> slot_ptr (i, w) (Data lb) = UFS_INVALID_BLOCK \<and> full w1 \<and> errno w1 = ENOSPC
      | Some p \<Rightarrow> p = slot_ptr (j, w1) (Data lb) \<and> p \<noteq> UFS_INVALID_BLOCK \<and>
          T - pointer_slots = (if slot_ptr (i, w) (Data lb) = UFS_INVALID_BLOCK then {Data lb} else {})"
    using e [unfolded ensured_def snd_conv] by (elim exE conjE) (rule that)
  have wj: "ino_wf j" using grownD(2) [OF g] file_wf_ino by fastforce
  have l1: "live w1" "file_wf (j, w1)" using grownD(1,2) [OF g] by simp_all
  note st = grown_file_step [OF g assms(2), of n]
  note pst = put_inode_step [OF st assms(3) wj]
  note pslot = put_inode_file(2) [OF l1(2,1) wj assms(3)]
  have "T - pointer_slots \<subseteq> {Data lb}"
  proof (cases r)
    case None
    then have "T \<subseteq> pointer_slots" using res by simp
    then show ?thesis by blast
  next
    case (Some p)
    then have "T - pointer_slots = (if slot_ptr (i, w) (Data lb) = UFS_INVALID_BLOCK then {Data lb} else {})"
      using res by simp
    then show ?thesis by (simp split: if_split_asm)
  qed
  then have only: "Data k \<notin> T" if "k \<noteq> lb" for k
    using that slots_simps(5) [of k] by blast
  have map: "bmap w1 j k = bmap w i k" if "k < UFS_MAX_FILE_BLOCKS" "k \<noteq> lb" for k
    using grownD(7) [OF g, of "Data k"] only that by (simp add: bmap_def)
  have keep: "blk w1 (unat (bmap w i k)) = blk w (unat (bmap w i k))"
    if "k < UFS_MAX_FILE_BLOCKS" "bmap w i k \<noteq> UFS_INVALID_BLOCK" for k
    using file_wf_slot(1,2) [OF assms(2), of "Data k"] data_not_pointer_block [OF assms(2), of k] that grownD(9) [OF g]
    by (simp add: bmap_def)
  have blkp: "blk (put_inode n j w1) b = blk w1 b" if "in_data_region b" for b
    using in_data_regionD [OF that] wj assms(3) by simp
  have dr: "in_data_region (unat (bmap w i k))" if "k < UFS_MAX_FILE_BLOCKS" "bmap w i k \<noteq> UFS_INVALID_BLOCK" for k
    using file_wf_slot(1) [OF assms(2), of "Data k"] that by (simp add: bmap_def)
  show ?thesis
  proof (cases r)
    case None
    then have none: "T \<subseteq> pointer_slots" "slot_ptr (i, w) (Data lb) = UFS_INVALID_BLOCK" "full w1" "errno w1 = ENOSPC"
      using res by simp_all
    then have "Data lb \<notin> T" using slots_simps(5) [of lb] by blast
    then have "bmap w1 j lb = bmap w i lb" using grownD(7) [OF g, of "Data lb"] assms(4) by (simp add: bmap_def)
    then have "ensure_inode_data_block n lb (i, w) = (None, (j, w1))" using run None by simp
    then show ?thesis using None st map keep none \<open>bmap w1 j lb = bmap w i lb\<close> by (simp add: bmap_def)
  next
    case (Some p)
    have p: "p = slot_ptr (j, w1) (Data lb)" "p \<noteq> UFS_INVALID_BLOCK"
      and Tp: "T - pointer_slots = (if slot_ptr (i, w) (Data lb) = UFS_INVALID_BLOCK then {Data lb} else {})"
      using res unfolding Some option.case by blast+
    have pr: "in_data_region (unat p)"
      using p file_wf_slot(1) [OF l1(2), of "Data lb"] assms(4) by simp
    have new: "\<not> block_used w (unat p) \<and> blk w1 (unat p) = replicate 512 0"
      if "slot_ptr (i, w) (Data lb) = UFS_INVALID_BLOCK"
    proof -
      have "Data lb \<in> T" using Tp that by auto
      then show ?thesis using p grownD(6) [OF g] grownD(10) [OF g] by simp
    qed
    show ?thesis
      using run
    proof (elim disjE conjE)
      assume "ensure_inode_data_block n lb (i, w) = (r, (j, w1))" "r \<noteq> None \<longrightarrow> j = i"
      then show ?thesis using Some st map keep p pr new same by (simp add: bmap_def)
    next
      assume "ensure_inode_data_block n lb (i, w) = (r, (j, put_inode n j w1))" "slot_ptr (i, w) (Data lb) = UFS_INVALID_BLOCK"
      then show ?thesis
        using Some pst map keep p pr new pslot blkp dr wj assms(3,4) by (simp add: bmap_def)
    qed
  qed
qed

text \<open>C30: \<open>ensure_inode_data_block\<close> extends the block map of a file at one place. If logical block \<open>lb\<close> exists,
  its number is returned and nothing changes. Otherwise a block that was free becomes block \<open>lb\<close>: it
  is zero filled, all other logical blocks keep their blocks and their contents, and a changed inode
  is written to its slot. If the data region is full the result is ENOSPC and the map is unchanged.
  In all cases the file stays well formed, blocks of other files are untouched, and every block that
  became used belongs to the file, so that none is lost.\<close>

theorem ensure_block_spec:
  assumes "live w" and "file_wf (i, w)" and "n < UFS_MAX_INODES" and "lb < UFS_MAX_FILE_BLOCKS"
  shows "case ensure_inode_data_block n lb (i, w) of (r, (j, w1)) \<Rightarrow>
    file_step n (i, w) (j, w1) \<and> (\<forall>k < UFS_MAX_FILE_BLOCKS. k \<noteq> lb \<longrightarrow> bmap w1 j k = bmap w i k) \<and>
    (\<forall>k < UFS_MAX_FILE_BLOCKS. bmap w i k \<noteq> UFS_INVALID_BLOCK \<longrightarrow> blk w1 (unat (bmap w i k)) = blk w (unat (bmap w i k))) \<and>
    (case r of
       None \<Rightarrow> bmap w i lb = UFS_INVALID_BLOCK \<and> bmap w1 j lb = UFS_INVALID_BLOCK \<and> full w1 \<and> errno w1 = ENOSPC
     | Some p \<Rightarrow> p = bmap w1 j lb \<and> in_data_region (unat p) \<and>
         (if bmap w i lb = UFS_INVALID_BLOCK
          then \<not> block_used w (unat p) \<and> blk w1 (unat p) = replicate 512 0 \<and> (j = i \<or> inode_at w1 n = j)
          else j = i \<and> w1 = w))"
  by (rule ensure_block_run [OF assms])

theorem ensure_block_spec_witness:
  "case ensure_inode_data_block 5 200 (ufs_init_inode 1, blank_world) of (r, (j, w1)) \<Rightarrow>
     file_step 5 (ufs_init_inode 1, blank_world) (j, w1) \<and> bmap w1 j 7 = UFS_INVALID_BLOCK"
proof -
  have "bmap blank_world (ufs_init_inode 1) 7 = UFS_INVALID_BLOCK"
    by (simp add: bmap_def slot_ptr.simps(1) ufs_init_inode_def)
  then show ?thesis
    using ensure_block_spec [OF live_blank(1) file_wf_init, of 5 200 1] by (auto split: prod.splits)
qed

end
