(* ===== verification/Ufs_Release.thy ===== *)
theory Ufs_Release
  imports Ufs_Extend
begin

text \<open>
  \<open>free_inode_blocks_after\<close> cuts the block map of a file: \<open>lost\<close> says which blocks a run of releases
  took away and which it may have rewritten, \<open>shrunk\<close> which slots of the file are empty afterwards.
\<close>

section \<open>Loops with an invariant\<close>

lemma for_each_inv:
  assumes "I lo v w" and "lo \<le> hi"
    and step: "\<And>k v w. lo \<le> k \<Longrightarrow> k < hi \<Longrightarrow> I k v w \<Longrightarrow> \<exists>v' w'. body k v w = (Some v', w') \<and> I (Suc k) v' w'"
  shows "\<exists>v' w'. for_each [lo..<hi] body v w = (Some v', w') \<and> I hi v' w'"
  using assms(1,2) step
proof (induction "hi - lo" arbitrary: lo v w)
  case 0
  then show ?case by (simp add: ret_def)
next
  case (Suc d)
  have lo: "lo < hi" using Suc.hyps(2) by simp
  obtain v1 w1 where b: "body lo v w = (Some v1, w1)" "I (Suc lo) v1 w1"
    using Suc.prems(3) [OF _ lo Suc.prems(1)] by blast
  have "\<exists>v' w'. for_each [Suc lo..<hi] body v1 w1 = (Some v', w') \<and> I hi v' w'"
  proof (rule Suc.hyps(1) [OF _ b(2)])
    show "d = hi - Suc lo" "Suc lo \<le> hi" using Suc.hyps(2) lo by simp_all
    show "\<exists>v' w'. body k v w = (Some v', w') \<and> I (Suc k) v' w'" if "Suc lo \<le> k" "k < hi" "I k v w" for k v w
      using Suc.prems(3) [of k v w] that by simp
  qed
  moreover have "[lo..<hi] = lo # [Suc lo..<hi]" using lo by (simp add: upt_conv_Cons)
  ultimately show ?case using b(1) by (simp add: run_simps)
qed

section \<open>Released blocks\<close>

text \<open>From \<open>w\<close> to \<open>w1\<close> the blocks \<open>B\<close> were released and only the blocks \<open>P\<close> may have other contents.\<close>

definition lost :: "nat set \<Rightarrow> nat set \<Rightarrow> world \<Rightarrow> world \<Rightarrow> bool" where
  "lost B P w w1 \<longleftrightarrow> live w1 \<and>
     (\<forall>b. in_data_region b \<longrightarrow> (block_used w1 b \<longleftrightarrow> block_used w b \<and> b \<notin> B)) \<and>
     (\<forall>b. in_data_region b \<longrightarrow> b \<notin> P \<longrightarrow> blk w1 b = blk w b) \<and>
     (\<forall>m < UFS_MAX_INODES. inode_at w1 m = inode_at w m) \<and>
     inode_used w1 = inode_used w \<and> descriptor_table w1 = descriptor_table w \<and> errno w1 = errno w"

lemma lostD:
  assumes "lost B P w w1"
  shows "live w1" "in_data_region b \<Longrightarrow> block_used w1 b \<longleftrightarrow> block_used w b \<and> b \<notin> B"
    "in_data_region b \<Longrightarrow> b \<notin> P \<Longrightarrow> blk w1 b = blk w b"
    "m < UFS_MAX_INODES \<Longrightarrow> inode_at w1 m = inode_at w m" "inode_used w1 = inode_used w"
    "descriptor_table w1 = descriptor_table w" "errno w1 = errno w"
  using assms by (simp_all add: lost_def)

lemma lost_refl: "live w \<Longrightarrow> lost {} {} w w"
  by (simp add: lost_def)

lemma lost_trans: "lost B P w w1 \<Longrightarrow> lost C Q w1 w2 \<Longrightarrow> lost (B \<union> C) (P \<union> Q) w w2"
  by (simp add: lost_def)

lemma lost_mono: "lost B P w w1 \<Longrightarrow> P \<subseteq> Q \<Longrightarrow> lost B Q w w1"
  by (auto simp: lost_def)

lemma lost_free:
  assumes l: "live w" and b: "in_data_region b"
  shows "\<exists>w1. free_data_block b w = (Some (), w1) \<and> lost {b} {} w w1"
proof -
  note bb = in_data_regionD [OF b]
  show ?thesis
  proof (cases "block_used w b")
    case True
    have "lost {b} {} w (drop_block b w)"
      unfolding lost_def using l bb in_data_regionD by (simp add: conj_commute)
    then show ?thesis using True l bb by (simp add: free_data_block_live)
  next
    case False
    then have "lost {b} {} w w" using l by (auto simp: lost_def)
    then show ?thesis using False l bb by (simp add: free_data_block_live)
  qed
qed

lemma lost_put:
  assumes "live w" and "in_data_region b" and "length buf = 512"
  shows "ufs_write_block b buf w = (Some (), put_blk b buf w)" "lost {} {b} w (put_blk b buf w)"
  using assms in_data_regionD [OF assms(2)] by (auto simp: io_simps lost_def)

section \<open>Cutting a list of pointers\<close>

text \<open>The entries below \<open>k\<close> that satisfy \<open>c\<close> are removed.\<close>

definition cut_upto :: "(nat \<Rightarrow> bool) \<Rightarrow> nat \<Rightarrow> u32 list \<Rightarrow> u32 list" where
  "cut_upto c k ptrs = map (\<lambda>j. if j < k \<and> c j then UFS_INVALID_BLOCK else ptrs ! j) [0..<128]"

abbreviation cut :: "nat \<Rightarrow> u32 list \<Rightarrow> u32 list" where
  "cut start \<equiv> cut_upto (\<lambda>j. start \<le> j) 128"

lemma length_cut [simp]: "length (cut_upto c k ptrs) = 128"
  by (simp add: cut_upto_def)

lemma nth_cut: "j < 128 \<Longrightarrow> cut_upto c k ptrs ! j = (if j < k \<and> c j then UFS_INVALID_BLOCK else ptrs ! j)"
  by (simp add: cut_upto_def)

lemma cut_0: "length ptrs = 128 \<Longrightarrow> cut_upto c 0 ptrs = ptrs"
  by (rule nth_equalityI) (simp_all add: nth_cut)

lemma cut_Suc:
  assumes "k < 128"
  shows "c k \<Longrightarrow> (cut_upto c k ptrs)[k := UFS_INVALID_BLOCK] = cut_upto c (Suc k) ptrs"
    "\<not> c k \<or> ptrs ! k = UFS_INVALID_BLOCK \<Longrightarrow> cut_upto c (Suc k) ptrs = cut_upto c k ptrs"
  using assms by (auto intro!: nth_equalityI simp: nth_cut nth_list_update less_Suc_eq)

definition cut_blocks :: "(nat \<Rightarrow> bool) \<Rightarrow> nat \<Rightarrow> u32 list \<Rightarrow> nat set" where
  "cut_blocks c k ptrs = {unat (ptrs ! j) | j. j < k \<and> c j \<and> ptrs ! j \<noteq> UFS_INVALID_BLOCK}"

lemma cut_blocks_0 [simp]: "cut_blocks c 0 ptrs = {}"
  by (simp add: cut_blocks_def)

lemma cut_blocks_Suc:
  "cut_blocks c (Suc k) ptrs = cut_blocks c k ptrs \<union> (if c k \<and> ptrs ! k \<noteq> UFS_INVALID_BLOCK then {unat (ptrs ! k)} else {})"
  by (auto simp: cut_blocks_def less_Suc_eq)

lemma cut_unchanged: "length ptrs = 128 \<Longrightarrow> (\<And>j. j < k \<Longrightarrow> c j \<Longrightarrow> ptrs ! j = UFS_INVALID_BLOCK) \<Longrightarrow> cut_upto c k ptrs = ptrs"
  by (rule nth_equalityI) (auto simp: nth_cut)

section \<open>One pointer block\<close>

definition entries_ok :: "u32 list \<Rightarrow> bool" where
  "entries_ok ptrs \<longleftrightarrow> length ptrs = 128 \<and> (\<forall>j < 128. ptrs ! j \<noteq> UFS_INVALID_BLOCK \<longrightarrow> in_data_region (unat (ptrs ! j)))"

lemma free_pointers_run:
  assumes l: "live w" and ok: "entries_ok ptrs"
  shows "\<exists>w1. free_pointers start ptrs w = (Some (cut start ptrs, \<exists>j < 128. start \<le> j \<and> ptrs ! j \<noteq> UFS_INVALID_BLOCK,
      \<exists>j < 128. j < start \<and> ptrs ! j \<noteq> UFS_INVALID_BLOCK), w1) \<and> lost (cut_blocks (\<lambda>j. start \<le> j) 128 ptrs) {} w w1"
proof -
  define c where "c j \<longleftrightarrow> start \<le> j" for j
  define val where "val k = (cut_upto c k ptrs, \<exists>j < k. c j \<and> ptrs ! j \<noteq> UFS_INVALID_BLOCK,
      \<exists>j < k. \<not> c j \<and> ptrs ! j \<noteq> UFS_INVALID_BLOCK)" for k
  define I where "I k v w' \<longleftrightarrow> v = val k \<and> lost (cut_blocks c k ptrs) {} w w'" for k v w'
  have step: "\<exists>v' w''. (case v of (ptrs, changed, any_remaining) \<Rightarrow>
       if start \<le> k then
         if ptrs ! k \<noteq> UFS_INVALID_BLOCK then
           on_ok (free_data_block (unat (ptrs ! k))) (\<lambda>_. ret (ptrs[k := UFS_INVALID_BLOCK], True, any_remaining))
         else ret (ptrs, changed, any_remaining)
       else ret (ptrs, changed, any_remaining \<or> ptrs ! k \<noteq> UFS_INVALID_BLOCK)) w' = (Some v', w'') \<and> I (Suc k) v' w''"
    if k: "k < 128" and inv: "I k v w'" for k v w'
  proof -
    have st: "lost (cut_blocks c k ptrs) {} w w'" and v: "v = val k" using inv by (simp_all add: I_def)
    have pk: "cut_upto c k ptrs ! k = ptrs ! k" using k by (simp add: nth_cut)
    show ?thesis
    proof (cases "c k \<and> ptrs ! k \<noteq> UFS_INVALID_BLOCK")
      case True
      then have "in_data_region (unat (ptrs ! k))" using ok k by (simp add: entries_ok_def)
      then obtain w'' where f: "free_data_block (unat (ptrs ! k)) w' = (Some (), w'')" "lost {unat (ptrs ! k)} {} w' w''"
        using lost_free [OF lostD(1) [OF st]] by blast
      have "lost (cut_blocks c (Suc k) ptrs) {} w w''"
        using lost_trans [OF st f(2)] True by (simp add: cut_blocks_Suc)
      moreover have "val (Suc k) = ((cut_upto c k ptrs)[k := UFS_INVALID_BLOCK], True, \<exists>j < k. \<not> c j \<and> ptrs ! j \<noteq> UFS_INVALID_BLOCK)"
        using True cut_Suc(1) [OF k, of c ptrs] by (auto simp: val_def less_Suc_eq)
      ultimately show ?thesis using v True pk f(1) by (simp add: run_simps ret_def I_def val_def c_def)
    next
      case False
      have "lost (cut_blocks c (Suc k) ptrs) {} w w'" using st unfolding cut_blocks_Suc if_not_P [OF False] by simp
      moreover have "val (Suc k) = (cut_upto c k ptrs, \<exists>j < k. c j \<and> ptrs ! j \<noteq> UFS_INVALID_BLOCK,
          (\<exists>j < k. \<not> c j \<and> ptrs ! j \<noteq> UFS_INVALID_BLOCK) \<or> \<not> c k \<and> ptrs ! k \<noteq> UFS_INVALID_BLOCK)"
        using False cut_Suc(2) [OF k, of c ptrs] by (auto simp: val_def less_Suc_eq)
      ultimately show ?thesis using v False pk by (simp add: ret_def I_def val_def c_def)
    qed
  qed
  have "I 0 (ptrs, False, False) w"
    using ok l cut_0 [of ptrs c] by (simp add: I_def val_def lost_refl entries_ok_def)
  then have "\<exists>v' w1. free_pointers start ptrs w = (Some v', w1) \<and> I 128 v' w1"
    unfolding free_pointers_def by (rule for_each_inv [where I = I]) (simp, rule step)
  then show ?thesis by (simp add: I_def val_def c_def [abs_def] not_le)
qed

lemma free_pointer_block_run:
  assumes l: "live w" and pb: "in_data_region (unat pb)" and ok: "entries_ok (pointers w pb)"
  shows "\<exists>w1. free_pointer_block start pb w = (Some (start = 0), w1) \<and>
    lost (cut_blocks (\<lambda>j. start \<le> j) 128 (pointers w pb) \<union> (if start = 0 then {unat pb} else {})) {unat pb} w w1 \<and>
    pointers w1 pb = cut start (pointers w pb)"
proof -
  define ptrs where "ptrs = pointers w pb"
  define C where "C = cut_blocks (\<lambda>j. start \<le> j) 128 ptrs"
  note rd = read_pointers_live [OF l in_data_regionD(2) [OF pb]]
  obtain w1 where f: "free_pointers start ptrs w = (Some (cut start ptrs, \<exists>j < 128. start \<le> j \<and> ptrs ! j \<noteq> UFS_INVALID_BLOCK,
      \<exists>j < 128. j < start \<and> ptrs ! j \<noteq> UFS_INVALID_BLOCK), w1)" "lost C {} w w1"
    using free_pointers_run [OF l, of ptrs start] ok by (auto simp: ptrs_def C_def)
  define changed where "changed \<longleftrightarrow> (\<exists>j < 128. start \<le> j \<and> ptrs ! j \<noteq> UFS_INVALID_BLOCK)"
  define wback where "wback = (if changed then ufs_write_block (unat pb) (enc_words (cut start ptrs)) else ret ())"
  obtain w2 where wr: "wback w1 = (Some (), w2)"
    and l2: "lost C {unat pb} w w2" and p2: "pointers w2 pb = cut start ptrs"
  proof (cases changed)
    case True
    have "pointers (put_blk (unat pb) (enc_words (cut start ptrs)) w1) pb = cut start ptrs" by (simp add: pointers_def)
    then show ?thesis
      using that True lost_put [OF lostD(1) [OF f(2)] pb, of "enc_words (cut start ptrs)"]
        lost_trans [OF f(2), of "{}" "{unat pb}"] by (simp add: wback_def)
  next
    case False
    then have "cut start ptrs = ptrs" by (intro cut_unchanged) (auto simp: ptrs_def changed_def)
    moreover have "pointers w1 pb = ptrs" using lostD(3) [OF f(2) pb] by (simp add: pointers_def ptrs_def)
    ultimately show ?thesis using that [of w1] False lost_mono [OF f(2)] by (simp add: ret_def wback_def)
  qed
  have run: "free_pointer_block start pb w = on_ok wback (\<lambda>_.
      if \<not> (\<exists>j < 128. j < start \<and> ptrs ! j \<noteq> UFS_INVALID_BLOCK) \<and> start = 0 then
        on_ok (free_data_block (unat pb)) (\<lambda>_. ret True) else ret False) w1"
    unfolding free_pointer_block_def on_ok_Some [of "read_pointers pb", OF rd] ptrs_def [symmetric]
      on_ok_Some [of "free_pointers start ptrs", OF f(1)] case_prod_conv
      wback_def changed_def by simp
  show ?thesis
  proof (cases "start = 0")
    case True
    obtain w3 where w3: "free_data_block (unat pb) w2 = (Some (), w3)" "lost {unat pb} {} w2 w3"
      using lost_free [OF lostD(1) [OF l2] pb] by blast
    have "pointers w3 pb = cut start ptrs" using lostD(3) [OF w3(2) pb] p2 by (simp add: pointers_def)
    moreover have "free_pointer_block start pb w = (Some True, w3)"
      unfolding run using True wr w3(1) by (simp add: run_simps ret_def)
    ultimately show ?thesis using lost_trans [OF l2 w3(2)] True by (simp add: ptrs_def C_def)
  next
    case False
    have "free_pointer_block start pb w = (Some False, w2)"
      unfolding run using False wr by (simp add: run_simps ret_def)
    then show ?thesis using l2 p2 False by (simp add: ptrs_def C_def)
  qed
qed

section \<open>The double indirect tree\<close>

text \<open>The blocks behind entry \<open>k\<close> of the double indirect block that go when data blocks from \<open>start\<close>
  on, counted from the first block behind the double indirect block, go.\<close>

definition level2_blocks :: "world \<Rightarrow> nat \<Rightarrow> nat \<Rightarrow> u32 \<Rightarrow> nat set" where
  "level2_blocks w start k pb = (if pb = UFS_INVALID_BLOCK then {} else
     cut_blocks (\<lambda>j. start - k * 128 \<le> j) 128 (pointers w pb) \<union> (if start \<le> k * 128 then {unat pb} else {}))"

definition entry_blocks :: "u32 list \<Rightarrow> nat set" where
  "entry_blocks l1 = {unat (l1 ! k) | k. k < 128 \<and> l1 ! k \<noteq> UFS_INVALID_BLOCK}"

lemma free_level1_run:
  assumes l: "live w" and ok: "entries_ok l1"
    and ok2: "\<And>k. k < 128 \<Longrightarrow> l1 ! k \<noteq> UFS_INVALID_BLOCK \<Longrightarrow> entries_ok (pointers w (l1 ! k))"
    and dist: "\<And>j k. j < 128 \<Longrightarrow> k < 128 \<Longrightarrow> j \<noteq> k \<Longrightarrow> l1 ! j \<noteq> UFS_INVALID_BLOCK \<Longrightarrow> l1 ! j \<noteq> l1 ! k"
  shows "\<exists>ch rem w1. free_level1 start l1 w = (Some (cut_upto (\<lambda>k. start \<le> k * 128) 128 l1, ch, rem), w1) \<and>
    (\<not> ch \<longrightarrow> cut_upto (\<lambda>k. start \<le> k * 128) 128 l1 = l1) \<and> (start = 0 \<longrightarrow> \<not> rem) \<and>
    lost (\<Union>k<128. level2_blocks w start k (l1 ! k)) (entry_blocks l1) w w1 \<and>
    (\<forall>k < 128. l1 ! k \<noteq> UFS_INVALID_BLOCK \<longrightarrow> pointers w1 (l1 ! k) = cut (start - k * 128) (pointers w (l1 ! k)))"
proof -
  define c where "c k \<longleftrightarrow> start \<le> k * (128::nat)" for k
  define I where "I k v w' \<longleftrightarrow> (case v of (p, ch, rem) \<Rightarrow> p = cut_upto c k l1 \<and> (\<not> ch \<longrightarrow> cut_upto c k l1 = l1) \<and> (start = 0 \<longrightarrow> \<not> rem) \<and>
      lost (\<Union>j<k. level2_blocks w start j (l1 ! j)) (entry_blocks l1) w w' \<and>
      (\<forall>j < 128. l1 ! j \<noteq> UFS_INVALID_BLOCK \<longrightarrow>
        pointers w' (l1 ! j) = (if j < k then cut (start - j * 128) (pointers w (l1 ! j)) else pointers w (l1 ! j))))" for k v w'
  have len: "length l1 = 128" using ok by (simp add: entries_ok_def)
  have step: "\<exists>v' w''. (case v of (l1, l1_changed, any_l1_remaining) \<Rightarrow>
       let block_start_lb2 = k * UFS_PTRS_PER_BLOCK; block_end_lb2 = block_start_lb2 + UFS_PTRS_PER_BLOCK in
       if l1 ! k = UFS_INVALID_BLOCK then ret (l1, l1_changed, any_l1_remaining)
       else if block_end_lb2 \<le> start then ret (l1, l1_changed, True)
       else on_ok (free_pointer_block (if block_start_lb2 < start then start - block_start_lb2 else 0) (l1 ! k)) (\<lambda>released.
         if released then ret (l1[k := UFS_INVALID_BLOCK], True, any_l1_remaining)
         else ret (l1, l1_changed, True))) w' = (Some v', w'') \<and> I (Suc k) v' w''"
    if k: "k < 128" and inv: "I k v w'" for k v w'
  proof -
    obtain p ch rem where v: "v = (p, ch, rem)" by (cases v)
    have p: "p = cut_upto c k l1" and ch: "\<not> ch \<longrightarrow> cut_upto c k l1 = l1" and rem: "start = 0 \<longrightarrow> \<not> rem"
      and st: "lost (\<Union>j<k. level2_blocks w start j (l1 ! j)) (entry_blocks l1) w w'"
      and ptr: "\<And>j. j < 128 \<Longrightarrow> l1 ! j \<noteq> UFS_INVALID_BLOCK \<Longrightarrow>
        pointers w' (l1 ! j) = (if j < k then cut (start - j * 128) (pointers w (l1 ! j)) else pointers w (l1 ! j))"
      using inv by (simp_all add: I_def v)
    have pk: "p ! k = l1 ! k" using k by (simp add: p nth_cut)
    have un: "(\<Union>j<Suc k. level2_blocks w start j (l1 ! j)) =
        (\<Union>j<k. level2_blocks w start j (l1 ! j)) \<union> level2_blocks w start k (l1 ! k)"
      by (simp add: lessThan_Suc Un_commute)
    consider (none) "l1 ! k = UFS_INVALID_BLOCK"
      | (keep) "l1 ! k \<noteq> UFS_INVALID_BLOCK" "k * 128 + 128 \<le> start"
      | (part) "l1 ! k \<noteq> UFS_INVALID_BLOCK" "\<not> k * 128 + 128 \<le> start" by blast
    then show ?thesis
    proof cases
      case none
      then have "level2_blocks w start k (l1 ! k) = {}" by (simp add: level2_blocks_def)
      moreover have "j = k \<Longrightarrow> l1 ! j = UFS_INVALID_BLOCK" for j using none by simp
      ultimately have "I (Suc k) (p, ch, rem) w'"
        using st ptr ch rem cut_Suc(2) [OF k, of c l1] none by (auto simp: I_def p un less_Suc_eq)
      then show ?thesis using v pk none by (simp add: ret_def)
    next
      case keep
      then have nc: "\<not> c k" by (simp add: c_def)
      have same: "cut (start - k * 128) (pointers w (l1 ! k)) = pointers w (l1 ! k)"
        using keep(2) by (intro cut_unchanged) auto
      have "level2_blocks w start k (l1 ! k) = {}"
        using keep(2) by (auto simp: level2_blocks_def cut_blocks_def)
      then have "I (Suc k) (p, ch, True) w'"
        using st ptr ch rem same keep(2) cut_Suc(2) [OF k, of c l1] nc by (auto simp: I_def p un less_Suc_eq)
      then show ?thesis using v pk keep by (simp add: ret_def Let_def)
    next
      case part
      have reg: "in_data_region (unat (l1 ! k))" using ok part(1) k by (simp add: entries_ok_def)
      have ptrk: "pointers w' (l1 ! k) = pointers w (l1 ! k)" using ptr [OF k part(1)] by simp
      obtain w'' where f: "free_pointer_block (start - k * 128) (l1 ! k) w' = (Some (start - k * 128 = 0), w'')"
        and lk: "lost (cut_blocks (\<lambda>j. start - k * 128 \<le> j) 128 (pointers w (l1 ! k)) \<union>
            (if start - k * 128 = 0 then {unat (l1 ! k)} else {})) {unat (l1 ! k)} w' w''"
        and pk2: "pointers w'' (l1 ! k) = cut (start - k * 128) (pointers w (l1 ! k))"
        using free_pointer_block_run [OF lostD(1) [OF st] reg, of "start - k * 128"] ok2 [OF k part(1)] unfolding ptrk by blast
      have sub: "(if k * 128 < start then start - k * 128 else 0) = start - k * 128" by simp
      have lk': "lost (level2_blocks w start k (l1 ! k)) (entry_blocks l1) w' w''"
      proof -
        have "level2_blocks w start k (l1 ! k) = cut_blocks (\<lambda>j. start - k * 128 \<le> j) 128 (pointers w (l1 ! k)) \<union>
            (if start - k * 128 = 0 then {unat (l1 ! k)} else {})"
          unfolding level2_blocks_def diff_is_0_eq using part(1) by (simp only: if_False)
        moreover have "{unat (l1 ! k)} \<subseteq> entry_blocks l1" using part(1) k by (auto simp: entry_blocks_def)
        ultimately show ?thesis using lost_mono [OF lk] by simp
      qed
      have st': "lost (\<Union>j<Suc k. level2_blocks w start j (l1 ! j)) (entry_blocks l1) w w''"
        unfolding un using lost_trans [OF st lk'] by simp
      have other: "pointers w'' (l1 ! j) = pointers w' (l1 ! j)" if "j < 128" "l1 ! j \<noteq> UFS_INVALID_BLOCK" "j \<noteq> k" for j
        using lostD(3) [OF lk, of "unat (l1 ! j)"] dist [OF that(1) k that(3,2)] ok that(1,2)
        by (simp add: pointers_def entries_ok_def word_unat_eq_iff)
      have ptr': "pointers w'' (l1 ! j) =
          (if j < Suc k then cut (start - j * 128) (pointers w (l1 ! j)) else pointers w (l1 ! j))"
        if "j < 128" "l1 ! j \<noteq> UFS_INVALID_BLOCK" for j
        using other [OF that] pk2 ptr [OF that] by (cases "j = k") (simp_all add: less_Suc_eq)
      show ?thesis
      proof (cases "c k")
        case True
        then have "I (Suc k) (p[k := UFS_INVALID_BLOCK], True, rem) w''"
          using st' ptr' rem cut_Suc(1) [OF k, of c l1] by (simp add: I_def p)
        then show ?thesis using v pk part f True sub by (simp add: ret_def Let_def run_simps c_def)
      next
        case False
        then have "I (Suc k) (p, ch, True) w''"
          using st' ptr' ch cut_Suc(2) [OF k, of c l1] by (auto simp: I_def p c_def)
        then show ?thesis using v pk part f False sub by (simp add: ret_def Let_def run_simps c_def)
      qed
    qed
  qed
  have "I 0 (l1, False, False) w"
    using l len cut_0 [of l1 c] lost_mono [OF lost_refl [OF l], of "entry_blocks l1"] by (simp add: I_def)
  then have "\<exists>v' w1. free_level1 start l1 w = (Some v', w1) \<and> I 128 v' w1"
    unfolding free_level1_def by (rule for_each_inv [where I = I]) (simp, rule step)
  then obtain p ch rem w1 where "free_level1 start l1 w = (Some (p, ch, rem), w1)" "I 128 (p, ch, rem) w1"
    by auto
  then show ?thesis unfolding I_def c_def by auto
qed

section \<open>Cutting a file\<close>

text \<open>The first logical block behind a slot.\<close>

fun first_block :: "slot \<Rightarrow> nat" where
  "first_block (Data lb) = lb" | "first_block Single = 8" | "first_block Double = 136"
| "first_block (Level1 k) = 136 + k * 128"

definition tail_slots :: "nat \<Rightarrow> nat \<Rightarrow> nat \<Rightarrow> slot set" where
  "tail_slots keep lo hi = {t \<in> slots. keep \<le> first_block t \<and> lo \<le> first_block t \<and> first_block t < hi}"

definition blocks_in :: "ufs_inode \<times> world \<Rightarrow> slot set \<Rightarrow> nat set" where
  "blocks_in s U = (\<lambda>t. unat (slot_ptr s t)) ` (U \<inter> used_slots s)"

definition shrunk :: "slot set \<Rightarrow> ufs_inode \<times> world \<Rightarrow> ufs_inode \<times> world \<Rightarrow> bool" where
  "shrunk U s s1 \<longleftrightarrow> file_wf s1 \<and> same_meta (fst s1) (fst s) \<and>
     (\<forall>t \<in> slots. slot_ptr s1 t = (if t \<in> U then UFS_INVALID_BLOCK else slot_ptr s t)) \<and>
     lost (blocks_in s U) (pointer_blocks s) (snd s) (snd s1)"

lemma shrunkD:
  assumes "shrunk U s s1"
  shows "file_wf s1" "same_meta (fst s1) (fst s)" "lost (blocks_in s U) (pointer_blocks s) (snd s) (snd s1)"
    "t \<in> slots \<Longrightarrow> slot_ptr s1 t = (if t \<in> U then UFS_INVALID_BLOCK else slot_ptr s t)" "live (snd s1)"
  using assms lostD(1) by (auto simp: shrunk_def)

lemma used_slots_shrunk:
  assumes "\<And>t. t \<in> slots \<Longrightarrow> slot_ptr s1 t = (if t \<in> U then UFS_INVALID_BLOCK else slot_ptr s t)"
  shows "used_slots s1 = used_slots s - U"
  using assms by (auto simp: used_slots_def split: if_splits)

lemma blocks_in_iff:
  assumes "file_wf s" and "t \<in> used_slots s"
  shows "unat (slot_ptr s t) \<in> blocks_in s U \<longleftrightarrow> t \<in> U"
  using assms by (auto simp: blocks_in_def file_wf_def inj_on_def word_unat_eq_iff [symmetric] image_iff)

lemma shrunk_intro:
  assumes wf: "file_wf (i, w)" and j: "ino_wf j" "same_meta j i"
    and map: "\<And>t. t \<in> slots \<Longrightarrow> slot_ptr (j, w1) t = (if t \<in> U then UFS_INVALID_BLOCK else slot_ptr (i, w) t)"
    and lost: "lost (blocks_in (i, w) U) (pointer_blocks (i, w)) w w1"
  shows "shrunk U (i, w) (j, w1)"
proof -
  have us: "used_slots (j, w1) = used_slots (i, w) - U" using used_slots_shrunk [OF map] .
  have mem: "t \<in> slots" if "t \<in> used_slots (i, w)" for t using that by (simp add: used_slots_def)
  have own: "in_data_region (unat (slot_ptr (j, w1) t)) \<and> block_used w1 (unat (slot_ptr (j, w1) t))"
    if t: "t \<in> used_slots (j, w1)" for t
  proof -
    have t': "t \<in> used_slots (i, w)" "t \<notin> U" using t us by simp_all
    then have eq: "slot_ptr (j, w1) t = slot_ptr (i, w) t" using map mem by simp
    have o: "in_data_region (unat (slot_ptr (i, w) t))" "block_used w (unat (slot_ptr (i, w) t))"
      using wf t'(1) by (simp_all add: file_wf_def)
    then show ?thesis using lostD(2) [OF lost o(1)] blocks_in_iff [OF wf t'(1), of U] t'(2) eq by simp
  qed
  have inj: "inj_on (slot_ptr (j, w1)) (used_slots (j, w1))"
  proof (rule inj_onI)
    fix t u assume "t \<in> used_slots (j, w1)" "u \<in> used_slots (j, w1)" "slot_ptr (j, w1) t = slot_ptr (j, w1) u"
    then show "t = u" using wf map mem us by (auto simp: file_wf_def inj_on_def)
  qed
  show ?thesis unfolding shrunk_def file_wf_def using own inj j map lost by simp
qed

lemma shrunk_refl:
  assumes "live (snd s)" and "file_wf s" and "\<And>t. t \<in> U \<Longrightarrow> t \<in> slots \<Longrightarrow> slot_ptr s t = UFS_INVALID_BLOCK"
  shows "shrunk U s s"
proof -
  have "blocks_in s U = {}" using assms(3) by (auto simp: blocks_in_def used_slots_def)
  then show ?thesis
    using assms lost_mono [OF lost_refl [OF assms(1)], of "pointer_blocks s"] by (auto simp: shrunk_def)
qed

lemma shrunk_pointer_blocks: "shrunk U s s1 \<Longrightarrow> pointer_blocks s1 \<subseteq> pointer_blocks s"
  using shrunkD(4) [of U s s1] used_slots_shrunk [of s1 U s] by (auto simp: pointer_blocks_def pointer_slots_slots)

lemma shrunk_trans:
  assumes g: "shrunk U s s1" and h: "shrunk V s1 s2"
  shows "shrunk (U \<union> V) s s2"
proof -
  have us: "used_slots s1 = used_slots s - U" using used_slots_shrunk shrunkD(4) [OF g] by blast
  have mem: "t \<in> slots" if "t \<in> used_slots s" for t using that by (simp add: used_slots_def)
  have "blocks_in s1 V = (\<lambda>t. unat (slot_ptr s t)) ` (V \<inter> (used_slots s - U))"
    unfolding blocks_in_def us using shrunkD(4) [OF g] mem by (intro image_cong) auto
  then have B: "blocks_in s U \<union> blocks_in s1 V = blocks_in s (U \<union> V)" by (auto simp: blocks_in_def)
  have "lost (blocks_in s (U \<union> V)) (pointer_blocks s) (snd s) (snd s2)"
    using lost_trans [OF shrunkD(3) [OF g] shrunkD(3) [OF h]] shrunk_pointer_blocks [OF g]
    by (simp add: B Un_absorb2)
  then show ?thesis
    using shrunkD(2,4) [OF g] shrunkD(1,2,4) [OF h] same_meta_trans unfolding shrunk_def by (auto split: if_splits)
qed

lemma used_slot_in:
  assumes "t \<in> slots" and "slot_ptr s t \<noteq> UFS_INVALID_BLOCK" and "t \<in> U"
  shows "unat (slot_ptr s t) \<in> blocks_in s U"
  using assms by (auto simp: blocks_in_def used_slots_def)

subsection \<open>Direct pointers\<close>

lemma free_direct_turn:
  assumes l: "live w" and wf: "file_wf (i, w)" and k: "k < 8"
  shows "\<exists>d s1. asking fst (\<lambda>inode.
         if ino_direct inode ! k \<noteq> UFS_INVALID_BLOCK then
           on_ok (on_world (free_data_block (unat (ino_direct inode ! k)))) (\<lambda>_.
           modify (apfst (set_direct k UFS_INVALID_BLOCK)) (ret True))
         else ret dirty) (i, w) = (Some d, s1) \<and> shrunk {Data k} (i, w) s1 \<and> (dirty \<longrightarrow> d) \<and> (\<not> d \<longrightarrow> fst s1 = i)"
proof (cases "ino_direct i ! k = UFS_INVALID_BLOCK")
  case True
  have "shrunk {Data k} (i, w) (i, w)" using l wf True k by (intro shrunk_refl) (auto simp: slot_ptr.simps)
  then show ?thesis using True by (simp add: asking_def ret_def)
next
  case False
  have p: "slot_ptr (i, w) (Data k) = ino_direct i ! k" using k by (simp add: slot_ptr.simps(1))
  have reg: "in_data_region (unat (ino_direct i ! k))" using file_wf_slot(1) [OF wf, of "Data k"] p False k by simp
  obtain w1 where f: "free_data_block (unat (ino_direct i ! k)) w = (Some (), w1)" "lost {unat (ino_direct i ! k)} {} w w1"
    using lost_free [OF l reg] by blast
  define j where "j = set_direct k UFS_INVALID_BLOCK i"
  note ino = file_wf_ino [OF wf, unfolded fst_conv]
  have same: "slot_ptr (i, w1) t = slot_ptr (i, w) t" if "t \<in> slots" for t
    using pointer_blocks_used(1) [OF wf] lostD(3) [OF f(2)] by (intro slot_ptr_same [OF _ _ that]) simp_all
  have map: "slot_ptr (j, w1) t = (if t \<in> {Data k} then UFS_INVALID_BLOCK else slot_ptr (i, w) t)" if "t \<in> slots" for t
    using same [OF that] nth_set_direct [OF ino k] k by (cases t) (auto simp: slot_ptr.simps(1) j_def)
  have "blocks_in (i, w) {Data k} = {unat (ino_direct i ! k)}"
    using p False k by (auto simp: blocks_in_def used_slots_def)
  then have "shrunk {Data k} (i, w) (j, w1)"
    using shrunk_intro [OF wf _ _ map] lost_mono [OF f(2)] ino by (simp add: j_def)
  then show ?thesis using False f(1)
    by (intro exI [of _ True] exI [of _ "(j, w1)"]) (simp add: asking_def run_simps modify_def ret_def j_def)
qed

lemma tail_slots_Suc: "k < 8 \<Longrightarrow> keep \<le> k \<Longrightarrow> tail_slots keep 0 (Suc k) = tail_slots keep 0 k \<union> {Data k}"
proof -
  assume k: "k < 8" "keep \<le> k"
  have "first_block t < Suc k \<longleftrightarrow> first_block t < k \<or> t = Data k" for t
    using k(1) by (cases t) auto
  then show ?thesis using k by (auto simp: tail_slots_def)
qed

lemma free_direct_shrinks:
  assumes l: "live w" and wf: "file_wf (i, w)"
  shows "\<exists>d s1. free_direct keep (i, w) = (Some d, s1) \<and> shrunk (tail_slots keep 0 8) (i, w) s1 \<and> (\<not> d \<longrightarrow> fst s1 = i)"
proof -
  define I where "I k d s \<longleftrightarrow> shrunk (tail_slots keep 0 k) (i, w) s \<and> (\<not> d \<longrightarrow> fst s = i)" for k d s
  define lo where "lo = (if keep < 8 then keep else 8)"
  have "\<exists>v' s'. free_direct keep (i, w) = (Some v', s') \<and> I 8 v' s'"
    unfolding free_direct_def lo_def [symmetric]
  proof (rule for_each_inv [where I = I])
    have "tail_slots keep 0 lo = {}" by (auto simp: tail_slots_def lo_def)
    then show "I lo False (i, w)" using shrunk_refl [of "(i, w)" "{}"] l wf by (simp add: I_def)
    show "lo \<le> 8" by (simp add: lo_def)
    fix k v s assume k: "lo \<le> k" "k < 8" and inv: "I k v s"
    obtain i' w' where s: "s = (i', w')" by (cases s)
    have st: "shrunk (tail_slots keep 0 k) (i, w) (i', w')" "\<not> v \<longrightarrow> i' = i" using inv by (simp_all add: I_def s)
    have "live w'" "file_wf (i', w')" using shrunkD(1,5) [OF st(1)] by simp_all
    from free_direct_turn [OF this k(2), of v] obtain d s1 where
      t: "asking fst (\<lambda>inode.
         if ino_direct inode ! k \<noteq> UFS_INVALID_BLOCK then
           on_ok (on_world (free_data_block (unat (ino_direct inode ! k)))) (\<lambda>_.
           modify (apfst (set_direct k UFS_INVALID_BLOCK)) (ret True))
         else ret v) (i', w') = (Some d, s1)" "shrunk {Data k} (i', w') s1" "v \<longrightarrow> d" "\<not> d \<longrightarrow> fst s1 = i'" by blast
    have "keep \<le> k" using k by (auto simp: lo_def split: if_splits)
    then have "I (Suc k) d s1"
      using shrunk_trans [OF st(1) t(2)] t(3,4) st(2) k(2) by (auto simp: I_def tail_slots_Suc)
    then show "\<exists>v' w'. asking fst (\<lambda>inode.
         if ino_direct inode ! k \<noteq> UFS_INVALID_BLOCK then
           on_ok (on_world (free_data_block (unat (ino_direct inode ! k)))) (\<lambda>_.
           modify (apfst (set_direct k UFS_INVALID_BLOCK)) (ret True))
         else ret v) s = (Some v', w') \<and> I (Suc k) v' w'"
      using t(1) s by blast
  qed
  then show ?thesis by (auto simp: I_def)
qed

subsection \<open>Single indirect block\<close>

lemma entries_ok_pointers:
  assumes wf: "file_wf (i, w)" and p: "p \<in> pointer_slots" and np: "slot_ptr (i, w) p \<noteq> UFS_INVALID_BLOCK"
    and ch: "\<And>k. k < 128 \<Longrightarrow> \<exists>t. child t p k"
  shows "entries_ok (pointers w (slot_ptr (i, w) p))"
proof -
  have "in_data_region (unat (pointers w (slot_ptr (i, w) p) ! k))"
    if k: "k < 128" "pointers w (slot_ptr (i, w) p) ! k \<noteq> UFS_INVALID_BLOCK" for k
  proof -
    obtain t where "child t p k" using ch [OF k(1)] by blast
    then have t: "t \<in> slots" "slot_ptr (i, w) t = pointer_at w (slot_ptr (i, w) p) k" using childD [of t p k] by blast+
    then have "slot_ptr (i, w) t = pointers w (slot_ptr (i, w) p) ! k" using np by (simp add: pointer_at_def)
    then show ?thesis using file_wf_slot(1) [OF wf t(1)] k(2) by simp
  qed
  then show ?thesis by (simp add: entries_ok_def)
qed

lemma child_ex: "k < 128 \<Longrightarrow> \<exists>t. child t Single k" "k < 128 \<Longrightarrow> \<exists>t. child t Double k"
  "k < 128 \<Longrightarrow> j < 128 \<Longrightarrow> \<exists>t. child t (Level1 j) k"
proof -
  assume k: "k < 128"
  then show "\<exists>t. child t Single k" by (intro exI [of _ "Data (k + 8)"]) simp
  show "\<exists>t. child t Double k" using k by (intro exI [of _ "Level1 k"]) simp
  assume "j < 128"
  then show "\<exists>t. child t (Level1 j) k" using k
    by (intro exI [of _ "Data (136 + j * 128 + k)"]) simp
qed

text \<open>The pointers of a block that was not touched.\<close>

lemma pointer_at_lost:
  assumes "lost B P w w1" and "b \<noteq> UFS_INVALID_BLOCK \<Longrightarrow> in_data_region (unat b) \<and> unat b \<notin> P"
  shows "pointer_at w1 b k = pointer_at w b k"
  using assms lostD(3) [OF assms(1)] by (auto simp: pointer_at_def pointers_def)

lemma pointer_at_slot_lost:
  assumes wf: "file_wf (i, w)" and lost: "lost B {unat (slot_ptr (i, w) q)} w w1"
    and "p \<in> slots" and "q \<in> slots" and "p \<noteq> q"
  shows "pointer_at w1 (slot_ptr (i, w) p) k = pointer_at w (slot_ptr (i, w) p) k"
  using file_wf_slot(1) [OF wf, of p] file_wf_inj [OF wf, of p q] assms
  by (intro pointer_at_lost [OF lost]) (simp add: word_unat_eq_iff)

lemma in_pointer_blocks: "t \<in> pointer_slots \<Longrightarrow> slot_ptr s t \<noteq> UFS_INVALID_BLOCK \<Longrightarrow> unat (slot_ptr s t) \<in> pointer_blocks s"
  by (simp add: pointer_blocks_def used_slots_def pointer_slots_slots)

lemma free_single_shrinks:
  assumes l: "live w" and wf: "file_wf (i, w)"
  shows "\<exists>d s1. free_single keep dirty (i, w) = (Some d, s1) \<and> shrunk (tail_slots keep 8 136) (i, w) s1 \<and>
    (dirty \<longrightarrow> d) \<and> (\<not> d \<longrightarrow> fst s1 = i)"
proof (cases "ino_single_indirect i = UFS_INVALID_BLOCK")
  case True
  have "slot_ptr (i, w) t = UFS_INVALID_BLOCK" if "t \<in> tail_slots keep 8 136" for t
    using that True by (cases t) (auto simp: tail_slots_def slot_ptr.simps(1) pointer_at_def)
  then have "shrunk (tail_slots keep 8 136) (i, w) (i, w)" using l wf by (intro shrunk_refl) auto
  then show ?thesis using True by (simp add: free_single_def asking_def ret_def)
next
  case False
  define pb where "pb = ino_single_indirect i"
  have s: "slot_ptr (i, w) Single = pb" by (simp add: pb_def)
  have pb: "pb \<noteq> UFS_INVALID_BLOCK" using False by (simp add: pb_def)
  have reg: "in_data_region (unat pb)" using file_wf_slot(1) [OF wf, of Single] s pb by simp
  have ok: "entries_ok (pointers w pb)"
    using entries_ok_pointers [OF wf, of Single] s pb child_ex(1) by simp
  obtain w1 where f: "free_pointer_block (keep - 8) pb w = (Some (keep - 8 = 0), w1)"
    and lost: "lost (cut_blocks (\<lambda>j. keep - 8 \<le> j) 128 (pointers w pb) \<union> (if keep - 8 = 0 then {unat pb} else {})) {unat pb} w w1"
    and ptr: "pointers w1 pb = cut (keep - 8) (pointers w pb)"
    using free_pointer_block_run [OF l reg ok] by blast
  define j where "j = (if keep - 8 = 0 then i\<lparr>ino_single_indirect := UFS_INVALID_BLOCK\<rparr> else i)"
  have sub: "(if UFS_DIRECT_BLOCKS < keep then keep - UFS_DIRECT_BLOCKS else 0) = keep - 8" by simp
  have run: "free_single keep dirty (i, w) = (Some (if keep - 8 = 0 then True else dirty), (j, w1))"
    using pb f unfolding free_single_def sub
    by (simp add: asking_def run_simps modify_def ret_def j_def pb_def [symmetric])
  have other: "pointer_at w1 (slot_ptr (i, w) p) k = pointer_at w (slot_ptr (i, w) p) k"
    if "p \<in> slots" "p \<noteq> Single" for p k
    using pointer_at_slot_lost [OF wf _ that(1) _ that(2)] lost by (simp add: pb_def)
  have dbl: "pointer_at w1 (ino_double_indirect i) k = pointer_at w (ino_double_indirect i) k" for k
    using other [of Double k] by simp
  have here: "pointer_at w1 pb k = (if keep \<le> k + 8 then UFS_INVALID_BLOCK else pointer_at w pb k)" if "k < 128" for k
    using pb that by (auto simp: pointer_at_def ptr nth_cut)
  have fields: "ino_direct j = ino_direct i" "ino_double_indirect j = ino_double_indirect i"
      "ino_single_indirect j = (if keep - 8 = 0 then UFS_INVALID_BLOCK else pb)"
    by (simp_all add: j_def pb_def)
  have map: "slot_ptr (j, w1) t = (if t \<in> tail_slots keep 8 136 then UFS_INVALID_BLOCK else slot_ptr (i, w) t)"
    if t: "t \<in> slots" for t
  proof (cases t)
    case (Data lb)
    consider "lb < 8" | "8 \<le> lb" "lb < 136" | "136 \<le> lb" "lb < 16520" using t Data by fastforce
    then show ?thesis
    proof cases
      case 1
      then show ?thesis using Data fields by (simp add: slot_ptr.simps(1) tail_slots_def)
    next
      case 2
      then have "lb - 8 < 128" by linarith
      then show ?thesis using 2 here [of "lb - 8"] Data fields pb
        by (auto simp: slot_ptr.simps(1) tail_slots_def pb_def [symmetric]) (simp add: pointer_at_def)
    next
      case 3
      then show ?thesis
        using Data fields dbl other [of "Level1 ((lb - 136) div 128)"] double_index(1) [OF 3]
        by (simp add: slot_ptr.simps(1) tail_slots_def)
    qed
  qed (use t fields dbl in \<open>auto simp: tail_slots_def pb_def\<close>)
  have "cut_blocks (\<lambda>j. keep - 8 \<le> j) 128 (pointers w pb) \<union> (if keep - 8 = 0 then {unat pb} else {}) =
      blocks_in (i, w) (tail_slots keep 8 136)" (is "?L = ?R")
  proof
    show "?L \<subseteq> ?R"
    proof
      fix b assume "b \<in> ?L"
      then consider j where "j < 128" "keep - 8 \<le> j" "pointers w pb ! j \<noteq> UFS_INVALID_BLOCK" "b = unat (pointers w pb ! j)"
        | "keep \<le> 8" "b = unat pb"
        by (auto simp: cut_blocks_def split: if_splits)
      then show "b \<in> ?R"
      proof cases
        case (1 j)
        then show ?thesis using used_slot_in [of "Data (j + 8)" "(i, w)" "tail_slots keep 8 136"] pb
          by (simp add: tail_slots_def slot_ptr.simps(1) pointer_at_def pb_def [symmetric])
      next
        case 2
        then show ?thesis using used_slot_in [of Single "(i, w)" "tail_slots keep 8 136"] pb s
          by (simp add: tail_slots_def)
      qed
    qed
    show "?R \<subseteq> ?L"
    proof
      fix b assume "b \<in> ?R"
      then obtain t where t: "t \<in> tail_slots keep 8 136" "slot_ptr (i, w) t \<noteq> UFS_INVALID_BLOCK" "b = unat (slot_ptr (i, w) t)"
        by (auto simp: blocks_in_def used_slots_def)
      show "b \<in> ?L"
      proof (cases t)
        case (Data lb)
        then have "8 \<le> lb" "lb < 136" "keep \<le> lb" "lb - 8 < 128" using t(1) by (auto simp: tail_slots_def)
        then show ?thesis using t(2,3) Data pb
          by (auto simp: cut_blocks_def slot_ptr.simps(1) pointer_at_def pb_def [symmetric] intro!: exI [of _ "lb - 8"])
      qed (use t in \<open>auto simp: tail_slots_def pb_def\<close>)
    qed
  qed
  then have lost2: "lost (blocks_in (i, w) (tail_slots keep 8 136)) (pointer_blocks (i, w)) w w1"
    using lost_mono [OF lost, of "pointer_blocks (i, w)"] in_pointer_blocks [of Single "(i, w)"] s pb by simp
  have "ino_wf j" "same_meta j i" using file_wf_ino [OF wf] by (simp_all add: j_def ino_wf_def)
  then have "shrunk (tail_slots keep 8 136) (i, w) (j, w1)" by (rule shrunk_intro [OF wf _ _ map lost2])
  then show ?thesis using run by (auto simp: j_def)
qed

subsection \<open>Double indirect tree\<close>

lemma tail_slots_double:
  "Data lb \<in> tail_slots keep 136 16520 \<longleftrightarrow> 136 \<le> lb \<and> lb < 16520 \<and> keep \<le> lb"
  "Level1 k \<in> tail_slots keep 136 16520 \<longleftrightarrow> k < 128 \<and> keep - 136 \<le> k * 128"
  "Double \<in> tail_slots keep 136 16520 \<longleftrightarrow> keep - 136 = 0" "Single \<notin> tail_slots keep 136 16520"
  by (auto simp: tail_slots_def)

lemma double_blocks:
  assumes s: "ino_double_indirect i = pb" "pb \<noteq> UFS_INVALID_BLOCK"
  shows "(\<Union>k<128. level2_blocks w (keep - 136) k (pointers w pb ! k)) \<union> (if keep - 136 = 0 then {unat pb} else {}) =
    blocks_in (i, w) (tail_slots keep 136 16520)" (is "?L = ?R")
proof
  have l1: "slot_ptr (i, w) (Level1 k) = pointers w pb ! k" for k using s by (simp add: pointer_at_def)
  have dat: "slot_ptr (i, w) (Data lb) = pointer_at w (pointers w pb ! ((lb - 136) div 128)) ((lb - 136) mod 128)"
    if "136 \<le> lb" for lb
    using s that by (simp add: slot_ptr.simps(1) pointer_at_def)
  show "?L \<subseteq> ?R"
  proof
    fix b assume "b \<in> ?L"
    then consider (top) "keep - 136 = 0" "b = unat pb"
      | (mid) k where "k < 128" "pointers w pb ! k \<noteq> UFS_INVALID_BLOCK" "keep - 136 \<le> k * 128" "b = unat (pointers w pb ! k)"
      | (low) k j where "k < 128" "pointers w pb ! k \<noteq> UFS_INVALID_BLOCK" "j < 128" "keep - 136 - k * 128 \<le> j"
          "pointers w (pointers w pb ! k) ! j \<noteq> UFS_INVALID_BLOCK" "b = unat (pointers w (pointers w pb ! k) ! j)"
      by (auto simp: level2_blocks_def cut_blocks_def split: if_splits)
    then show "b \<in> ?R"
    proof cases
      case top
      then show ?thesis using used_slot_in [of Double "(i, w)" "tail_slots keep 136 16520"] s
        by (simp add: tail_slots_double)
    next
      case mid
      then show ?thesis using used_slot_in [of "Level1 k" "(i, w)" "tail_slots keep 136 16520"]
        unfolding l1 tail_slots_double by simp
    next
      case low
      define lb where "lb = 136 + k * 128 + j"
      have lb: "136 \<le> lb" "lb < 16520" "keep \<le> lb" "(lb - 136) div 128 = k" "(lb - 136) mod 128 = j"
        using low(1,3,4) by (simp_all add: lb_def)
      have "slot_ptr (i, w) (Data lb) = pointers w (pointers w pb ! k) ! j"
        using dat [OF lb(1)] lb low(2) by (simp add: pointer_at_def)
      then show ?thesis using used_slot_in [of "Data lb" "(i, w)" "tail_slots keep 136 16520"] lb low(5,6)
        unfolding tail_slots_double by simp
    qed
  qed
  show "?R \<subseteq> ?L"
  proof
    fix b assume "b \<in> ?R"
    then obtain t where t: "t \<in> tail_slots keep 136 16520" "slot_ptr (i, w) t \<noteq> UFS_INVALID_BLOCK" "b = unat (slot_ptr (i, w) t)"
      by (auto simp: blocks_in_def used_slots_def)
    show "b \<in> ?L"
    proof (cases t)
      case (Data lb)
      then have lb: "136 \<le> lb" "lb < 16520" "keep \<le> lb" using t(1) by (simp_all add: tail_slots_double)
      note idx = double_index [OF lb(1,2)]
      define k where "k = (lb - 136) div 128"
      define j where "j = (lb - 136) mod 128"
      have p: "pointers w pb ! k \<noteq> UFS_INVALID_BLOCK" "slot_ptr (i, w) t = pointers w (pointers w pb ! k) ! j"
        using t(2) dat [OF lb(1)] Data by (auto simp: pointer_at_def k_def j_def split: if_splits)
      have kj: "k < 128" "j < 128" "lb = 136 + k * 128 + j" using idx unfolding k_def j_def by blast+
      then have "keep - 136 - k * 128 \<le> j" using lb(3) by linarith
      then have "b \<in> level2_blocks w (keep - 136) k (pointers w pb ! k)"
        using p kj t(2,3) by (auto simp: level2_blocks_def cut_blocks_def)
      then show ?thesis using kj(1) by blast
    next
      case (Level1 k)
      then have "k < 128" "keep - 136 \<le> k * 128" using t(1) by (simp_all add: tail_slots_double)
      then have "b \<in> level2_blocks w (keep - 136) k (pointers w pb ! k)"
        using t(2,3) unfolding Level1 l1 by (simp add: level2_blocks_def)
      then show ?thesis using \<open>k < 128\<close> by blast
    qed (use t s in \<open>simp_all add: tail_slots_double\<close>)
  qed
qed

lemma free_double_run:
  assumes l: "live w" and wf: "file_wf (i, w)" and s: "ino_double_indirect i = pb" and pb: "pb \<noteq> UFS_INVALID_BLOCK"
  shows "\<exists>w1. free_double keep dirty (i, w) = (Some (if keep - 136 = 0 then True else dirty),
      (if keep - 136 = 0 then i\<lparr>ino_double_indirect := UFS_INVALID_BLOCK\<rparr> else i, w1)) \<and>
    lost ((\<Union>k<128. level2_blocks w (keep - 136) k (pointers w pb ! k)) \<union> (if keep - 136 = 0 then {unat pb} else {}))
      (insert (unat pb) (entry_blocks (pointers w pb))) w w1 \<and>
    pointers w1 pb = cut_upto (\<lambda>k. keep - 136 \<le> k * 128) 128 (pointers w pb) \<and>
    (\<forall>k < 128. pointers w pb ! k \<noteq> UFS_INVALID_BLOCK \<longrightarrow>
      pointers w1 (pointers w pb ! k) = cut (keep - 136 - k * 128) (pointers w (pointers w pb ! k)))"
proof -
  define start where "start = keep - 136"
  define l1 where "l1 = pointers w pb"
  define L where "L = (\<Union>k<128. level2_blocks w start k (l1 ! k))"
  have dp: "slot_ptr (i, w) Double = pb" by (simp add: s)
  have ptr: "slot_ptr (i, w) (Level1 k) = l1 ! k" for k using s pb by (simp add: pointer_at_def l1_def)
  have reg: "in_data_region (unat pb)" using file_wf_slot(1) [OF wf, of Double] dp pb by simp
  have ok: "entries_ok l1" using entries_ok_pointers [OF wf, of Double] dp pb child_ex(2) by (simp add: l1_def)
  have ok2: "entries_ok (pointers w (l1 ! k))" if "k < 128" "l1 ! k \<noteq> UFS_INVALID_BLOCK" for k
    using entries_ok_pointers [OF wf, of "Level1 k"] child_ex(3) that unfolding ptr by simp
  have dist: "l1 ! j \<noteq> l1 ! k" if "j < 128" "k < 128" "j \<noteq> k" "l1 ! j \<noteq> UFS_INVALID_BLOCK" for j k
    using file_wf_inj [OF wf, of "Level1 j" "Level1 k"] that unfolding ptr by simp
  have np: "l1 ! k \<noteq> pb" if "k < 128" for k
    using file_wf_inj [OF wf, of Double "Level1 k"] that pb unfolding ptr dp by simp
  obtain ch rem w1 where f: "free_level1 start l1 w = (Some (cut_upto (\<lambda>k. start \<le> k * 128) 128 l1, ch, rem), w1)"
    and chg: "\<not> ch \<longrightarrow> cut_upto (\<lambda>k. start \<le> k * 128) 128 l1 = l1" and rem: "start = 0 \<longrightarrow> \<not> rem"
    and lost1: "lost L (entry_blocks l1) w w1"
    and low: "\<forall>k < 128. l1 ! k \<noteq> UFS_INVALID_BLOCK \<longrightarrow> pointers w1 (l1 ! k) = cut (start - k * 128) (pointers w (l1 ! k))"
    using free_level1_run [OF l ok ok2 dist, of start] unfolding L_def by blast
  define l1' where "l1' = cut_upto (\<lambda>k. start \<le> k * 128) 128 l1"
  have nin: "unat pb \<notin> entry_blocks l1" using np by (auto simp: entry_blocks_def word_unat_eq_iff [symmetric])
  define wback :: "unit inode_op" where "wback = (if ch then on_world (ufs_write_block (unat pb) (enc_words l1')) else ret ())"
  obtain w2 where wr: "wback (i, w1) = (Some (), (i, w2))" and lost2: "lost {} {unat pb} w1 w2" and p2: "pointers w2 pb = l1'"
  proof (cases ch)
    case True
    have "pointers (put_blk (unat pb) (enc_words l1') w1) pb = l1'" by (simp add: pointers_def l1'_def)
    then show ?thesis using that [of "put_blk (unat pb) (enc_words l1') w1"] True
        lost_put [OF lostD(1) [OF lost1] reg, of "enc_words l1'"] by (simp add: wback_def run_simps l1'_def)
  next
    case False
    have "pointers w1 pb = l1" using lostD(3) [OF lost1 reg nin] by (simp add: pointers_def l1_def)
    then show ?thesis using that [of w1] False chg lost_mono [OF lost_refl [OF lostD(1) [OF lost1]], of "{unat pb}"]
      by (simp add: wback_def ret_def l1'_def)
  qed
  have sub: "(if UFS_DIRECT_BLOCKS + UFS_SINGLE_INDIRECT_CAPACITY < keep then keep - (UFS_DIRECT_BLOCKS + UFS_SINGLE_INDIRECT_CAPACITY) else 0) = start"
    by (simp add: start_def)
  note rd = read_pointers_live [OF l in_data_regionD(2) [OF reg], folded l1_def]
  have run: "free_double keep dirty (i, w) = on_ok wback (\<lambda>_.
       if \<not> rem \<and> start = 0 then
         on_ok (on_world (free_data_block (unat pb))) (\<lambda>_.
         modify (apfst (\<lambda>i. i\<lparr>ino_double_indirect := UFS_INVALID_BLOCK\<rparr>)) (ret True))
       else ret dirty) (i, w1)"
    using pb s unfolding free_double_def Let_def sub wback_def l1'_def
    by (simp add: asking_def run_simps rd f)
  have low2: "pointers w2 (l1 ! k) = cut (start - k * 128) (pointers w (l1 ! k))"
    if "k < 128" "l1 ! k \<noteq> UFS_INVALID_BLOCK" for k
  proof -
    have "in_data_region (unat (l1 ! k))" using ok that by (simp add: entries_ok_def)
    then show ?thesis using lostD(3) [OF lost2, of "unat (l1 ! k)"] np [OF that(1)] low that
      by (simp add: pointers_def word_unat_eq_iff)
  qed
  have lost12: "lost L (insert (unat pb) (entry_blocks l1)) w w2"
    using lost_trans [OF lost1 lost2] by simp
  show ?thesis
  proof (cases "start = 0")
    case True
    obtain w3 where w3: "free_data_block (unat pb) w2 = (Some (), w3)" "lost {unat pb} {} w2 w3"
      using lost_free [OF lostD(1) [OF lost2] reg] by blast
    have same: "pointers w3 b = pointers w2 b" if "in_data_region (unat b)" for b
      using lostD(3) [OF w3(2) that] by (simp add: pointers_def)
    have low3: "pointers w3 (l1 ! k) = cut (start - k * 128) (pointers w (l1 ! k))"
      if "k < 128" "l1 ! k \<noteq> UFS_INVALID_BLOCK" for k
    proof -
      have "in_data_region (unat (l1 ! k))" using ok that by (simp add: entries_ok_def)
      then show ?thesis using same low2 [OF that] by simp
    qed
    have "free_double keep dirty (i, w) = (Some True, (i\<lparr>ino_double_indirect := UFS_INVALID_BLOCK\<rparr>, w3))"
      unfolding run using True rem wr w3(1) by (simp add: run_simps ret_def modify_def)
    moreover have "lost (L \<union> {unat pb}) (insert (unat pb) (entry_blocks l1)) w w3"
      using lost_trans [OF lost12 w3(2)] by simp
    ultimately show ?thesis using True p2 same [OF reg] low3
      unfolding start_def [symmetric] l1_def [symmetric] L_def [symmetric] l1'_def [symmetric]
      by (intro exI [of _ w3]) simp
  next
    case False
    have "free_double keep dirty (i, w) = (Some dirty, (i, w2))"
      unfolding run using False wr by (simp add: run_simps ret_def)
    then show ?thesis using False p2 low2 lost12
      unfolding start_def [symmetric] l1_def [symmetric] L_def [symmetric] l1'_def [symmetric]
      by (intro exI [of _ w2]) simp
  qed
qed

lemma free_double_shrinks:
  assumes l: "live w" and wf: "file_wf (i, w)"
  shows "\<exists>d s1. free_double keep dirty (i, w) = (Some d, s1) \<and> shrunk (tail_slots keep 136 16520) (i, w) s1 \<and>
    (dirty \<longrightarrow> d) \<and> (\<not> d \<longrightarrow> fst s1 = i)"
proof (cases "ino_double_indirect i = UFS_INVALID_BLOCK")
  case True
  have "slot_ptr (i, w) t = UFS_INVALID_BLOCK" if "t \<in> tail_slots keep 136 16520" for t
    using that True by (cases t) (auto simp: tail_slots_double slot_ptr.simps(1) pointer_at_def)
  then have "shrunk (tail_slots keep 136 16520) (i, w) (i, w)" using l wf by (intro shrunk_refl) auto
  then show ?thesis using True by (simp add: free_double_def asking_def ret_def)
next
  case False
  define pb where "pb = ino_double_indirect i"
  define l1 where "l1 = pointers w pb"
  have pb: "ino_double_indirect i = pb" "pb \<noteq> UFS_INVALID_BLOCK" using False by (simp_all add: pb_def)
  have ptr: "slot_ptr (i, w) (Level1 k) = l1 ! k" for k using pb by (simp add: pointer_at_def l1_def)
  define j where "j = (if keep - 136 = 0 then i\<lparr>ino_double_indirect := UFS_INVALID_BLOCK\<rparr> else i)"
  obtain w1 where run: "free_double keep dirty (i, w) = (Some (if keep - 136 = 0 then True else dirty), (j, w1))"
    and lost: "lost (blocks_in (i, w) (tail_slots keep 136 16520)) (insert (unat pb) (entry_blocks l1)) w w1"
    and top: "pointers w1 pb = cut_upto (\<lambda>k. keep - 136 \<le> k * 128) 128 l1"
    and low: "\<And>k. k < 128 \<Longrightarrow> l1 ! k \<noteq> UFS_INVALID_BLOCK \<Longrightarrow>
      pointers w1 (l1 ! k) = cut (keep - 136 - k * 128) (pointers w (l1 ! k))"
    using free_double_run [OF l wf pb, of keep dirty] unfolding double_blocks [OF pb] j_def l1_def by blast
  have P: "insert (unat pb) (entry_blocks l1) \<subseteq> pointer_blocks (i, w)"
    using in_pointer_blocks [of Double "(i, w)"] in_pointer_blocks [of "Level1 k" "(i, w)" for k] pb
    unfolding ptr by (auto simp: entry_blocks_def)
  have single: "pointer_at w1 (ino_single_indirect i) k = pointer_at w (ino_single_indirect i) k" for k
  proof (rule pointer_at_lost [OF lost])
    assume a: "ino_single_indirect i \<noteq> UFS_INVALID_BLOCK"
    have "l1 ! k \<noteq> ino_single_indirect i" if "k < 128" for k
      using file_wf_inj [OF wf, of Single "Level1 k"] a that unfolding ptr by simp
    moreover have "pb \<noteq> ino_single_indirect i" using file_wf_inj [OF wf, of Single Double] a pb by simp
    ultimately show "in_data_region (unat (ino_single_indirect i)) \<and>
        unat (ino_single_indirect i) \<notin> insert (unat pb) (entry_blocks l1)"
      using file_wf_slot(1) [OF wf, of Single] a by (auto simp: entry_blocks_def word_unat_eq_iff [symmetric]) blast
  qed
  have fields: "ino_direct j = ino_direct i" "ino_single_indirect j = ino_single_indirect i"
      "ino_double_indirect j = (if keep - 136 = 0 then UFS_INVALID_BLOCK else pb)"
    using pb by (simp_all add: j_def)
  have lev: "pointer_at w1 (ino_double_indirect j) k = (if keep - 136 \<le> k * 128 then UFS_INVALID_BLOCK else l1 ! k)" if "k < 128" for k
    using that pb by (auto simp: fields pointer_at_def top nth_cut)
  have map: "slot_ptr (j, w1) t = (if t \<in> tail_slots keep 136 16520 then UFS_INVALID_BLOCK else slot_ptr (i, w) t)"
    if t: "t \<in> slots" for t
  proof (cases t)
    case (Data lb)
    consider "lb < 136" | "136 \<le> lb" "lb < 16520" using t Data by fastforce
    then show ?thesis
    proof cases
      case 1
      then show ?thesis using Data fields single by (simp add: slot_ptr.simps(1) tail_slots_double)
    next
      case 2
      define k where "k = (lb - 136) div 128"
      define r where "r = (lb - 136) mod 128"
      have kr: "k < 128" "r < 128" "lb = 136 + k * 128 + r" using double_index [OF 2] unfolding k_def r_def by blast+
      have now: "slot_ptr (j, w1) t = pointer_at w1 (if keep - 136 \<le> k * 128 then UFS_INVALID_BLOCK else l1 ! k) r"
        using 2 Data lev [OF kr(1)] by (simp add: slot_ptr.simps(1) k_def r_def)
      have old: "slot_ptr (i, w) t = pointer_at w (l1 ! k) r"
        using 2 Data ptr [of k] by (simp add: slot_ptr.simps(1) k_def r_def)
      have mem: "t \<in> tail_slots keep 136 16520 \<longleftrightarrow> keep - 136 - k * 128 \<le> r" using Data 2 kr by (auto simp: tail_slots_double)
      consider "keep - 136 \<le> k * 128" | "\<not> keep - 136 \<le> k * 128" "l1 ! k = UFS_INVALID_BLOCK"
        | "\<not> keep - 136 \<le> k * 128" "l1 ! k \<noteq> UFS_INVALID_BLOCK" by blast
      then show ?thesis
      proof cases
        case 1
        then show ?thesis using now mem by (simp add: pointer_at_def)
      next
        case 2
        then show ?thesis using now old by (simp add: pointer_at_def)
      next
        case 3
        then show ?thesis unfolding now old mem using low [OF kr(1)] kr(2) by (simp add: pointer_at_def nth_cut)
      qed
    qed
  next
    case (Level1 k)
    then have "k < 128" using t by simp
    then show ?thesis using lev [of k] ptr [of k] Level1 by (auto simp: tail_slots_double)
  qed (use t fields pb in \<open>auto simp: tail_slots_double\<close>)
  have "ino_wf j" "same_meta j i" using file_wf_ino [OF wf] by (simp_all add: j_def ino_wf_def)
  then have "shrunk (tail_slots keep 136 16520) (i, w) (j, w1)"
    by (rule shrunk_intro [OF wf _ _ map lost_mono [OF lost P]])
  then show ?thesis using run by (auto simp: j_def)
qed

subsection \<open>The whole function\<close>

lemma tail_slots_split: "tail_slots keep 0 16520 = tail_slots keep 0 8 \<union> tail_slots keep 8 136 \<union> tail_slots keep 136 16520"
  by (auto simp: tail_slots_def)

lemma free_inode_blocks_after_shrinks:
  assumes l: "live w" and wf: "file_wf (i, w)" and n: "n < UFS_MAX_INODES"
  shows "\<exists>j w1. shrunk (tail_slots keep 0 16520) (i, w) (j, w1) \<and>
    (free_inode_blocks_after n keep (i, w) = (Some (), (j, w1)) \<and> j = i \<or>
     free_inode_blocks_after n keep (i, w) = (Some (), (j, put_inode n j w1)))"
proof -
  obtain d1 i1 w1 where s1: "free_direct keep (i, w) = (Some d1, (i1, w1))" "shrunk (tail_slots keep 0 8) (i, w) (i1, w1)"
      "\<not> d1 \<longrightarrow> i1 = i"
    using free_direct_shrinks [OF l wf, of keep] by auto
  have "live w1" "file_wf (i1, w1)" using shrunkD(1,5) [OF s1(2)] by simp_all
  then obtain d2 i2 w2 where s2: "free_single keep d1 (i1, w1) = (Some d2, (i2, w2))"
      "shrunk (tail_slots keep 8 136) (i1, w1) (i2, w2)" "d1 \<longrightarrow> d2" "\<not> d2 \<longrightarrow> i2 = i1"
    using free_single_shrinks [of w1 i1 keep d1] by auto
  have "live w2" "file_wf (i2, w2)" using shrunkD(1,5) [OF s2(2)] by simp_all
  then obtain d3 i3 w3 where s3: "free_double keep d2 (i2, w2) = (Some d3, (i3, w3))"
      "shrunk (tail_slots keep 136 16520) (i2, w2) (i3, w3)" "d2 \<longrightarrow> d3" "\<not> d3 \<longrightarrow> i3 = i2"
    using free_double_shrinks [of w2 i2 keep d2] by auto
  have sh: "shrunk (tail_slots keep 0 16520) (i, w) (i3, w3)"
    unfolding tail_slots_split using shrunk_trans [OF shrunk_trans [OF s1(2) s2(2)] s3(2)] .
  have run: "free_inode_blocks_after n keep (i, w) =
      (if d3 then asking fst (\<lambda>inode. on_world (write_inode n inode)) else ret ()) (i3, w3)"
    using s1(1) s2(1) s3(1) by (simp add: free_inode_blocks_after_def run_simps)
  have "ino_wf i3" "live w3" using shrunkD(1,5) [OF sh] file_wf_ino by fastforce+
  then have "free_inode_blocks_after n keep (i, w) = (Some (), (i3, put_inode n i3 w3))" if d3
    using that run n by (simp add: asking_def run_simps io_simps)
  moreover have "free_inode_blocks_after n keep (i, w) = (Some (), (i3, w3)) \<and> i3 = i" if "\<not> d3"
    using that run s1(3) s2(3,4) s3(3,4) by (simp add: ret_def)
  ultimately show ?thesis using sh by blast
qed

section \<open>The function cuts the file\<close>

lemma shrunk_owned:
  assumes "shrunk U s s1" and "file_wf s"
  shows "owned_blocks s1 = owned_blocks s - blocks_in s U"
proof -
  have us: "used_slots s1 = used_slots s - U" using used_slots_shrunk shrunkD(4) [OF assms(1)] by blast
  have mem: "t \<in> slots" if "t \<in> used_slots s" for t using that by (simp add: used_slots_def)
  have "owned_blocks s1 = (\<lambda>t. unat (slot_ptr s t)) ` (used_slots s - U)"
    unfolding owned_blocks_def us using shrunkD(4) [OF assms(1)] mem by (intro image_cong) auto
  then show ?thesis using blocks_in_iff [OF assms(2)] by (auto simp: owned_blocks_def)
qed

lemma blocks_in_owned: "blocks_in s U \<subseteq> owned_blocks s"
  by (auto simp: blocks_in_def owned_blocks_def)

lemma shrunk_file_step:
  assumes sh: "shrunk U s s1" and wf: "file_wf s"
  shows "file_step n s s1"
proof -
  note lo = shrunkD(3) [OF sh]
  have used: "block_used (snd s1) b \<longleftrightarrow> (block_used (snd s) b \<and> b \<notin> owned_blocks s) \<or> b \<in> owned_blocks s1"
    if "in_data_region b" for b
    using lostD(2) [OF lo that] owned_used [OF wf, of b] blocks_in_owned [of s U]
    unfolding shrunk_owned [OF sh wf] by blast
  have keep: "b \<notin> owned_blocks s1 \<and> blk (snd s1) b = blk (snd s) b"
    if "in_data_region b" "block_used (snd s) b" "b \<notin> owned_blocks s" for b
    using lostD(3) [OF lo that(1)] pointer_blocks_owned [of s] that unfolding shrunk_owned [OF sh wf] by blast
  show ?thesis
    using shrunkD(1,2,5) [OF sh] lostD(4-6) [OF lo] used keep unfolding file_step_def others_kept_def by simp
qed

lemma tail_slots_Data: "lb < UFS_MAX_FILE_BLOCKS \<Longrightarrow> Data lb \<in> tail_slots keep 0 16520 \<longleftrightarrow> keep \<le> lb"
  by (simp add: tail_slots_def)

lemma put_inode_bmap:
  assumes "file_wf (i, w)" and "live w" and "ino_wf j" and "n < UFS_MAX_INODES" and "lb < UFS_MAX_FILE_BLOCKS"
  shows "bmap (put_inode n j w) i lb = bmap w i lb"
  using put_inode_file(2) [OF assms(1-4), of "Data lb"] assms(5) by (simp add: bmap_def)

lemma bmap_region:
  assumes "file_wf (i, w)" and "lb < UFS_MAX_FILE_BLOCKS" and "bmap w i lb \<noteq> UFS_INVALID_BLOCK"
  shows "in_data_region (unat (bmap w i lb))" "block_used w (unat (bmap w i lb))" "unat (bmap w i lb) \<in> owned_blocks (i, w)"
    "unat (bmap w i lb) \<notin> pointer_blocks (i, w)"
  using file_wf_slot(1,2) [OF assms(1), of "Data lb"] data_not_pointer_block [OF assms(1,2)] assms
  by (auto simp: bmap_def owned_blocks_def used_slots_def)

lemma free_blocks_after_run:
  assumes "live w" and "file_wf (i, w)" and "n < UFS_MAX_INODES"
  shows "case free_inode_blocks_after n keep (i, w) of (r, (j, w1)) \<Rightarrow>
    r = Some () \<and> file_step n (i, w) (j, w1) \<and>
    (\<forall>lb < UFS_MAX_FILE_BLOCKS. bmap w1 j lb = (if keep \<le> lb then UFS_INVALID_BLOCK else bmap w i lb)) \<and>
    (\<forall>lb < UFS_MAX_FILE_BLOCKS. bmap w1 j lb \<noteq> UFS_INVALID_BLOCK \<longrightarrow> blk w1 (unat (bmap w i lb)) = blk w (unat (bmap w i lb))) \<and>
    owned_blocks (j, w1) \<subseteq> owned_blocks (i, w) \<and> (keep = 0 \<longrightarrow> owned_blocks (j, w1) = {}) \<and>
    (j = i \<or> inode_at w1 n = j) \<and> errno w1 = errno w"
proof -
  obtain j w1 where sh: "shrunk (tail_slots keep 0 16520) (i, w) (j, w1)"
    and run: "free_inode_blocks_after n keep (i, w) = (Some (), (j, w1)) \<and> j = i \<or>
      free_inode_blocks_after n keep (i, w) = (Some (), (j, put_inode n j w1))"
    using free_inode_blocks_after_shrinks [OF assms] by blast
  have l1: "live w1" "file_wf (j, w1)" "ino_wf j" using shrunkD(1,5) [OF sh] file_wf_ino by fastforce+
  note st = shrunk_file_step [OF sh assms(2), of n]
  have map: "bmap w1 j lb = (if keep \<le> lb then UFS_INVALID_BLOCK else bmap w i lb)" if "lb < UFS_MAX_FILE_BLOCKS" for lb
    using shrunkD(4) [OF sh, of "Data lb"] tail_slots_Data [OF that] that by (simp add: bmap_def)
  have keepb: "blk w1 (unat (bmap w i lb)) = blk w (unat (bmap w i lb))"
    if "lb < UFS_MAX_FILE_BLOCKS" "bmap w1 j lb \<noteq> UFS_INVALID_BLOCK" for lb
  proof -
    have "bmap w i lb \<noteq> UFS_INVALID_BLOCK" using map that by (simp split: if_splits)
    from bmap_region(1,4) [OF assms(2) that(1) this] show ?thesis using lostD(3) [OF shrunkD(3) [OF sh]] by simp
  qed
  have own: "owned_blocks (j, w1) \<subseteq> owned_blocks (i, w)" "keep = 0 \<longrightarrow> owned_blocks (j, w1) = {}"
  proof -
    show "owned_blocks (j, w1) \<subseteq> owned_blocks (i, w)" using shrunk_owned [OF sh assms(2)] by simp
    have "t \<in> tail_slots 0 0 16520" if "t \<in> slots" for t
      using that by (cases t) (auto simp: tail_slots_def)
    then have "owned_blocks (i, w) \<subseteq> blocks_in (i, w) (tail_slots 0 0 16520)"
      by (auto simp: owned_blocks_def blocks_in_def used_slots_def)
    then show "keep = 0 \<longrightarrow> owned_blocks (j, w1) = {}" using shrunk_owned [OF sh assms(2)] by auto
  qed
  have e: "errno w1 = errno w" using lostD(7) [OF shrunkD(3) [OF sh]] by simp
  show ?thesis
    using run
  proof (elim disjE conjE)
    assume "free_inode_blocks_after n keep (i, w) = (Some (), (j, w1))" "j = i"
    then show ?thesis using st map keepb own e by simp
  next
    assume r: "free_inode_blocks_after n keep (i, w) = (Some (), (j, put_inode n j w1))"
    have "blk (put_inode n j w1) (unat (bmap w i lb)) = blk w1 (unat (bmap w i lb))"
      if "lb < UFS_MAX_FILE_BLOCKS" "bmap w1 j lb \<noteq> UFS_INVALID_BLOCK" for lb
    proof -
      have "bmap w i lb \<noteq> UFS_INVALID_BLOCK" using map that by (simp split: if_splits)
      then show ?thesis using in_data_regionD [OF bmap_region(1) [OF assms(2) that(1)]] l1(1,3) assms(3) by simp
    qed
    then show ?thesis
      using r map keepb own e l1 assms(3) put_inode_step [OF st assms(3) l1(3)] put_inode_bmap [OF l1(2,1,3) assms(3)]
        put_inode_owned [OF l1(2,1,3) assms(3)] by simp
  qed
qed

text \<open>C31: \<open>free_inode_blocks_after\<close> cuts a file. It always succeeds on a well-formed file; the logical
  blocks from \<open>keep\<close> on are gone, the ones before keep their blocks and contents, and exactly the
  blocks that the file no longer refers to, pointer blocks included, become free. With \<open>keep\<close> 0 the
  file owns nothing afterwards. A changed inode is written to its slot.\<close>

theorem free_blocks_after_spec:
  assumes "live w" and "file_wf (i, w)" and "n < UFS_MAX_INODES"
  shows "case free_inode_blocks_after n keep (i, w) of (r, (j, w1)) \<Rightarrow>
    r = Some () \<and> file_step n (i, w) (j, w1) \<and>
    (\<forall>lb < UFS_MAX_FILE_BLOCKS. bmap w1 j lb = (if keep \<le> lb then UFS_INVALID_BLOCK else bmap w i lb)) \<and>
    (\<forall>lb < UFS_MAX_FILE_BLOCKS. bmap w1 j lb \<noteq> UFS_INVALID_BLOCK \<longrightarrow> blk w1 (unat (bmap w i lb)) = blk w (unat (bmap w i lb))) \<and>
    owned_blocks (j, w1) \<subseteq> owned_blocks (i, w) \<and> (keep = 0 \<longrightarrow> owned_blocks (j, w1) = {}) \<and>
    (j = i \<or> inode_at w1 n = j) \<and> errno w1 = errno w"
  by (rule free_blocks_after_run [OF assms])

theorem free_blocks_after_spec_witness:
  "\<exists>j w1. free_inode_blocks_after 5 0 (ufs_init_inode 1, blank_world) = (Some (), (j, w1)) \<and> owned_blocks (j, w1) = {}"
  using free_blocks_after_spec [OF live_blank(1) file_wf_init, of 5 1 0] by (auto split: prod.splits)

end
