(* ===== verification/Ufs_Content.thy ===== *)
theory Ufs_Content
  imports Ufs_Release
begin

text \<open>
  A file as a list of bytes. \<open>file_ok\<close> is the invariant of a regular file: its block map is exactly as long
  as its size needs and what lies behind the size in its last block is zero. On such files
  \<open>ufs_truncate_inode\<close> resizes the list of bytes.
\<close>

section \<open>Contents\<close>

definition file_at :: "world \<Rightarrow> nat \<Rightarrow> ufs_inode \<times> world" where
  "file_at w n = (inode_at w n, w)"

definition block_data :: "ufs_inode \<times> world \<Rightarrow> nat \<Rightarrow> bytes" where
  "block_data s lb = blk (snd s) (unat (bmap (snd s) (fst s) lb))"

definition file_byte :: "ufs_inode \<times> world \<Rightarrow> nat \<Rightarrow> u8" where
  "file_byte s p = block_data s (p div 512) ! (p mod 512)"

definition file_size :: "ufs_inode \<times> world \<Rightarrow> nat" where
  "file_size s = unat (ino_size (fst s))"

definition contents :: "ufs_inode \<times> world \<Rightarrow> bytes" where
  "contents s = map (file_byte s) [0..<file_size s]"

definition blocks_needed :: "nat \<Rightarrow> nat" where
  "blocks_needed n = (n + 511) div 512"

definition maps_exactly :: "nat \<Rightarrow> ufs_inode \<times> world \<Rightarrow> bool" where
  "maps_exactly k s \<longleftrightarrow> (\<forall>lb < UFS_MAX_FILE_BLOCKS. bmap (snd s) (fst s) lb = UFS_INVALID_BLOCK \<longleftrightarrow> k \<le> lb)"

definition zero_behind :: "nat \<Rightarrow> ufs_inode \<times> world \<Rightarrow> bool" where
  "zero_behind n s \<longleftrightarrow> (\<forall>p. n \<le> p \<longrightarrow> p < blocks_needed n * 512 \<longrightarrow> file_byte s p = 0)"

text \<open>A file without bytes owns no block, not even a pointer block.\<close>

definition lean :: "ufs_inode \<times> world \<Rightarrow> bool" where
  "lean s \<longleftrightarrow> (file_size s = 0 \<longrightarrow> owned_blocks s = {})"

definition file_ok :: "ufs_inode \<times> world \<Rightarrow> bool" where
  "file_ok s \<longleftrightarrow> file_wf s \<and> file_size s \<le> UFS_MAX_FILE_BLOCKS * 512 \<and>
     maps_exactly (blocks_needed (file_size s)) s \<and> zero_behind (file_size s) s \<and> lean s"

definition resize :: "nat \<Rightarrow> bytes \<Rightarrow> bytes" where
  "resize n bs = take n bs @ replicate (n - length bs) 0"

lemma length_contents [simp]: "length (contents s) = file_size s"
  by (simp add: contents_def)

lemma nth_contents: "p < file_size s \<Longrightarrow> contents s ! p = file_byte s p"
  by (simp add: contents_def)

lemma length_block_data [simp]: "length (block_data s lb) = 512"
  by (simp add: block_data_def)

lemma blocks_needed_bounds:
  "n \<le> blocks_needed n * 512" "blocks_needed n * 512 < n + 512" "blocks_needed n \<le> k \<longleftrightarrow> n \<le> k * 512"
  "p < n \<Longrightarrow> p div 512 < blocks_needed n" "blocks_needed 0 = 0"
  unfolding blocks_needed_def by linarith+

lemma blocks_needed_part: "n mod 512 \<noteq> 0 \<Longrightarrow> blocks_needed n = Suc (n div 512)"
proof -
  have "(q * 512 + r + 511) div 512 = Suc q" if "0 < r" "r < 512" for q r :: nat
    using that by (intro div_nat_eqI) simp_all
  from this [of "n mod 512" "n div 512"] show "n mod 512 \<noteq> 0 \<Longrightarrow> blocks_needed n = Suc (n div 512)"
    by (simp add: blocks_needed_def)
qed

lemma blocks_needed_whole: "n mod 512 = 0 \<Longrightarrow> blocks_needed n * 512 = n"
proof -
  assume m: "n mod 512 = 0"
  then have "(n + 511) div 512 = n div 512"
    using div_mult_mod_eq [of n 512] by (intro div_nat_eqI) simp_all
  then show ?thesis using m div_mult_mod_eq [of n 512] by (simp add: blocks_needed_def)
qed

lemma blocks_needed_mono: "m \<le> n \<Longrightarrow> blocks_needed m \<le> blocks_needed n"
  by (simp add: blocks_needed_def div_le_mono)

lemma blocks_of_size_needed:
  assumes "unat sz \<le> UFS_MAX_FILE_BLOCKS * 512"
  shows "blocks_of_size sz = blocks_needed (unat sz)"
proof -
  define m where "m = unat sz"
  have sz: "sz = of_nat m" "m \<le> 8458240" using assms by (simp_all add: m_def)
  have "sz + of_nat UFS_BLOCK_SIZE - 1 = of_nat (m + 511)" by (simp add: sz)
  moreover have "unat (of_nat (m + 511) :: u64) = m + 511" using sz(2) by (subst unat_of_nat) simp
  ultimately have "unat ((sz + of_nat UFS_BLOCK_SIZE - 1) div of_nat UFS_BLOCK_SIZE) = (m + 511) div 512"
    by (simp add: unat_div add.commute)
  moreover have "(m + 511) div 512 < 2 ^ 32" using sz(2) by simp
  ultimately show ?thesis
    by (simp add: blocks_of_size_def blocks_needed_def m_def unsigned_ucast_eq take_bit_nat_eq_self)
qed

lemma file_okD:
  assumes "file_ok (i, w)"
  shows "file_wf (i, w)" "unat (ino_size i) \<le> UFS_MAX_FILE_BLOCKS * 512"
    "lb < UFS_MAX_FILE_BLOCKS \<Longrightarrow> bmap w i lb = UFS_INVALID_BLOCK \<longleftrightarrow> blocks_needed (unat (ino_size i)) \<le> lb"
    "unat (ino_size i) \<le> p \<Longrightarrow> p < blocks_needed (unat (ino_size i)) * 512 \<Longrightarrow> file_byte (i, w) p = 0"
    "lean (i, w)"
  using assms by (simp_all add: file_ok_def maps_exactly_def zero_behind_def file_size_def)

section \<open>Writing one data block\<close>

lemma slot_ptr_data:
  assumes "\<And>b. b \<in> pointer_blocks (i, w) \<Longrightarrow> blk w1 b = blk w b" and "lb < UFS_MAX_FILE_BLOCKS"
  shows "bmap w1 i lb = bmap w i lb"
  using slot_ptr_same [OF assms(1), where t = "Data lb" and ?i1.0 = i] assms(2) by (simp add: bmap_def)

lemma put_data_block:
  assumes l: "live w" and wf: "file_wf (i, w)" and lb: "lb < UFS_MAX_FILE_BLOCKS"
    and nb: "bmap w i lb \<noteq> UFS_INVALID_BLOCK" and len: "length buf = 512"
  defines "w1 \<equiv> put_blk (unat (bmap w i lb)) buf w"
  shows "file_step n (i, w) (i, w1)" and "k < UFS_MAX_FILE_BLOCKS \<Longrightarrow> bmap w1 i k = bmap w i k"
    and "k < UFS_MAX_FILE_BLOCKS \<Longrightarrow> bmap w i k \<noteq> UFS_INVALID_BLOCK \<Longrightarrow>
      block_data (i, w1) k = (if k = lb then buf else block_data (i, w) k)"
    and "owned_blocks (i, w1) = owned_blocks (i, w)"
proof -
  note r = bmap_region [OF wf lb nb]
  have lw: "lost {} {unat (bmap w i lb)} w w1" using lost_put(2) [OF l r(1) len] by (simp add: w1_def)
  have same: "blk w1 b = blk w b" if "b \<in> pointer_blocks (i, w)" for b
    using lostD(3) [OF lw] pointer_blocks_used(1) [OF wf that] r(4) that by auto
  have sl: "slot_ptr (i, w1) t = slot_ptr (i, w) t" if "t \<in> slots" for t
    using slot_ptr_same [OF same _ that] by simp
  show own: "owned_blocks (i, w1) = owned_blocks (i, w)"
    using sl by (auto simp: owned_blocks_def used_slots_def intro!: image_cong)
  have wf1: "file_wf (i, w1)"
    using file_wf_same(1) [OF wf same, of i] lostD(2) [OF lw] file_wf_ino [OF wf] by simp
  have "others_kept n (i, w) (i, w1)"
    unfolding others_kept_def using lostD(1,4-6) [OF lw] lostD(2,3) [OF lw] own owned_used [OF wf] r(3) by auto
  then show "file_step n (i, w) (i, w1)" using wf1 by (simp add: file_step_def)
  show map: "bmap w1 i k = bmap w i k" if "k < UFS_MAX_FILE_BLOCKS" for k
    by (rule slot_ptr_data [OF same that])
  show "block_data (i, w1) k = (if k = lb then buf else block_data (i, w) k)"
    if k: "k < UFS_MAX_FILE_BLOCKS" "bmap w i k \<noteq> UFS_INVALID_BLOCK" for k
  proof (cases "k = lb")
    case True
    then show ?thesis using map [OF k(1)] in_data_regionD [OF r(1)] l len by (simp add: block_data_def w1_def)
  next
    case False
    then have "bmap w i k \<noteq> bmap w i lb"
      using file_wf_inj [OF wf, of "Data k" "Data lb"] k lb by (simp add: bmap_def)
    then show ?thesis
      using False map [OF k(1)] lostD(3) [OF lw bmap_region(1) [OF wf k]]
      by (simp add: block_data_def word_unat_eq_iff)
  qed
qed

section \<open>Growing\<close>

lemma for_each_cases:
  assumes "I lo v w" and "lo \<le> hi"
    and step: "\<And>k v w. lo \<le> k \<Longrightarrow> k < hi \<Longrightarrow> I k v w \<Longrightarrow>
      (case body k v w of (Some v', w') \<Rightarrow> I (Suc k) v' w' | (None, w') \<Rightarrow> E w')"
  shows "case for_each [lo..<hi] body v w of (Some v', w') \<Rightarrow> I hi v' w' | (None, w') \<Rightarrow> E w'"
  using assms(1,2) step
proof (induction "hi - lo" arbitrary: lo v w)
  case 0
  then show ?case by (simp add: ret_def)
next
  case (Suc d)
  have lo: "lo < hi" using Suc.hyps(2) by simp
  have up: "[lo..<hi] = lo # [Suc lo..<hi]" using lo by (simp add: upt_conv_Cons)
  have b: "case body lo v w of (Some v', w') \<Rightarrow> I (Suc lo) v' w' | (None, w') \<Rightarrow> E w'"
    using Suc.prems(3) [OF _ lo Suc.prems(1)] by simp
  show ?case
  proof (cases "fst (body lo v w)")
    case None
    then obtain w1 where "body lo v w = (None, w1)" by (metis prod.collapse)
    then show ?thesis using b by (simp add: up run_simps)
  next
    case (Some v1)
    then obtain w1 where b1: "body lo v w = (Some v1, w1)" by (metis prod.collapse)
    have "case for_each [Suc lo..<hi] body v1 w1 of (Some v', w') \<Rightarrow> I hi v' w' | (None, w') \<Rightarrow> E w'"
    proof (rule Suc.hyps(1))
      show "d = hi - Suc lo" "Suc lo \<le> hi" using Suc.hyps(2) lo by simp_all
      show "I (Suc lo) v1 w1" using b b1 by simp
      show "case body k v w of (Some v', w') \<Rightarrow> I (Suc k) v' w' | (None, w') \<Rightarrow> E w'"
        if "Suc lo \<le> k" "k < hi" "I k v w" for k v w
        using Suc.prems(3) [of k v w] that by simp
    qed
    then show ?thesis using b1 by (simp add: up run_simps)
  qed
qed

text \<open>\<open>s1\<close> is \<open>s\<close> with the zero blocks from \<open>old\<close> to \<open>k\<close> added.\<close>

definition padded :: "nat \<Rightarrow> nat \<Rightarrow> nat \<Rightarrow> ufs_inode \<times> world \<Rightarrow> ufs_inode \<times> world \<Rightarrow> bool" where
  "padded n old k s s1 \<longleftrightarrow> file_step n s s1 \<and> maps_exactly k s1 \<and>
     (\<forall>lb < UFS_MAX_FILE_BLOCKS. lb < old \<longrightarrow> block_data s1 lb = block_data s lb) \<and>
     (\<forall>lb < UFS_MAX_FILE_BLOCKS. old \<le> lb \<longrightarrow> lb < k \<longrightarrow> block_data s1 lb = replicate 512 0)"

lemma file_stepD:
  assumes "file_step n s s1"
  shows "file_wf s1" "live (snd s1)" "same_meta (fst s1) (fst s)" "others_kept n s s1" "ino_wf (fst s1)"
  using assms file_wf_ino by (auto simp: file_step_def others_kept_def)

lemma same_meta_size: "same_meta j i \<Longrightarrow> ino_size j = ino_size i"
  by (cases i; cases j) (simp add: same_meta_def)

lemma padded_step:
  assumes p: "padded n old k s (i, w)" and n: "n < UFS_MAX_INODES" and k: "k < UFS_MAX_FILE_BLOCKS" "old \<le> k"
  shows "case ensure_inode_data_block n k (i, w) of
      (Some _, s1) \<Rightarrow> padded n old (Suc k) s s1
    | (None, s1) \<Rightarrow> padded n old k s s1 \<and> errno (snd s1) = ENOSPC"
proof -
  have st: "file_step n s (i, w)" and ex: "maps_exactly k (i, w)" using p by (simp_all add: padded_def)
  have old: "block_data (i, w) lb = block_data s lb" if "lb < UFS_MAX_FILE_BLOCKS" "lb < old" for lb
    using p that by (simp add: padded_def)
  have new: "block_data (i, w) lb = replicate 512 0" if "lb < UFS_MAX_FILE_BLOCKS" "old \<le> lb" "lb < k" for lb
    using p that by (simp add: padded_def)
  have l: "live w" "file_wf (i, w)" using file_stepD(1,2) [OF st] by simp_all
  have here: "bmap w i k = UFS_INVALID_BLOCK" using ex k by (simp add: maps_exactly_def)
  obtain r j w1 where run: "ensure_inode_data_block n k (i, w) = (r, (j, w1))" by (metis prod.exhaust)
  note e = ensure_block_run [OF l n k(1), unfolded run prod.case]
  have st1: "file_step n s (j, w1)" using file_step_trans [OF st] e by blast
  have map: "bmap w1 j lb = bmap w i lb" if "lb < UFS_MAX_FILE_BLOCKS" "lb \<noteq> k" for lb using e that by blast
  have keep: "block_data (j, w1) lb = block_data (i, w) lb" if "lb < UFS_MAX_FILE_BLOCKS" "lb < k" for lb
  proof -
    have "bmap w i lb \<noteq> UFS_INVALID_BLOCK" using ex that by (simp add: maps_exactly_def)
    then have "blk w1 (unat (bmap w i lb)) = blk w (unat (bmap w i lb))" using e that(1) by blast
    then show ?thesis using map [OF that(1)] that by (simp add: block_data_def)
  qed
  show ?thesis
  proof (cases r)
    case None
    then have f: "bmap w1 j k = UFS_INVALID_BLOCK" "errno w1 = ENOSPC" using e by simp_all
    have "bmap w1 j lb = UFS_INVALID_BLOCK \<longleftrightarrow> k \<le> lb" if "lb < UFS_MAX_FILE_BLOCKS" for lb
      using map [OF that] f(1) ex that by (cases "lb = k") (simp_all add: maps_exactly_def)
    then have "maps_exactly k (j, w1)" by (simp add: maps_exactly_def)
    then show ?thesis unfolding run None using st1 old new keep f(2) k(2) by (simp add: padded_def)
  next
    case (Some q)
    then have f: "q = bmap w1 j k" "in_data_region (unat q)" "blk w1 (unat q) = replicate 512 0"
      using e unfolding Some option.case if_P [OF here] by blast+
    have "bmap w1 j k \<noteq> UFS_INVALID_BLOCK" using f(1,2) by (auto simp: in_data_region_def)
    then have "bmap w1 j lb = UFS_INVALID_BLOCK \<longleftrightarrow> Suc k \<le> lb" if "lb < UFS_MAX_FILE_BLOCKS" for lb
      using map [OF that] ex that by (cases "lb = k") (simp_all add: maps_exactly_def Suc_le_eq less_le)
    then have "maps_exactly (Suc k) (j, w1)" by (simp add: maps_exactly_def)
    moreover have "block_data (j, w1) k = replicate 512 0" using f by (simp add: block_data_def)
    ultimately show ?thesis unfolding run Some using st1 old new keep k(2)
      by (auto simp: padded_def less_Suc_eq)
  qed
qed

lemma put_inode_data:
  assumes wf: "file_wf (j, w)" and l: "live w" and j: "ino_wf j'" and n: "n < UFS_MAX_INODES"
    and lb: "lb < UFS_MAX_FILE_BLOCKS" "bmap w j lb \<noteq> UFS_INVALID_BLOCK"
  shows "block_data (j, put_inode n j' w) lb = block_data (j, w) lb"
proof -
  have "blk (put_inode n j' w) (unat (bmap w j lb)) = blk w (unat (bmap w j lb))"
    using in_data_regionD [OF bmap_region(1) [OF wf lb]] l j n by simp
  then show ?thesis using put_inode_bmap [OF wf l j n lb(1)] by (simp add: block_data_def)
qed

lemma padded_put:
  assumes p: "padded n old k s (j, w)" and "old \<le> k" and n: "n < UFS_MAX_INODES" and j: "ino_wf j'"
  shows "padded n old k s (j, put_inode n j' w)"
proof -
  have st: "file_step n s (j, w)" and ex: "maps_exactly k (j, w)" using p by (simp_all add: padded_def)
  have l: "file_wf (j, w)" "live w" using file_stepD(1,2) [OF st] by simp_all
  have data: "block_data (j, put_inode n j' w) lb = block_data (j, w) lb" if "lb < UFS_MAX_FILE_BLOCKS" "lb < k" for lb
    using put_inode_data [OF l j n that(1)] ex that by (simp add: maps_exactly_def)
  have "maps_exactly k (j, put_inode n j' w)"
    using ex put_inode_bmap [OF l j n] by (simp add: maps_exactly_def)
  then show ?thesis
    using p put_inode_step [OF st n j] data assms(2) unfolding padded_def by auto
qed

lemma rollback:
  assumes p: "padded n old k s (j, w)" and "old \<le> k" and n: "n < UFS_MAX_INODES"
  shows "\<exists>j2 w2. free_inode_blocks_after n old (j, w) = (Some (), (j2, w2)) \<and> padded n old old s (j2, w2) \<and> errno w2 = errno w \<and>
    (old = 0 \<longrightarrow> owned_blocks (j2, w2) = {})"
proof -
  have st: "file_step n s (j, w)" and ex: "maps_exactly k (j, w)" using p by (simp_all add: padded_def)
  have l: "live w" "file_wf (j, w)" using file_stepD(1,2) [OF st] by simp_all
  obtain r j2 w2 where run: "free_inode_blocks_after n old (j, w) = (r, (j2, w2))" by (metis prod.exhaust)
  note e = free_blocks_after_run [OF l n, of old, unfolded run prod.case]
  have map: "bmap w2 j2 lb = (if old \<le> lb then UFS_INVALID_BLOCK else bmap w j lb)" if "lb < UFS_MAX_FILE_BLOCKS" for lb
    using e that by blast
  have ex2: "maps_exactly old (j2, w2)" using map ex assms(2) by (auto simp: maps_exactly_def)
  have "block_data (j2, w2) lb = block_data (j, w) lb" if "lb < UFS_MAX_FILE_BLOCKS" "lb < old" for lb
  proof -
    have "bmap w2 j2 lb \<noteq> UFS_INVALID_BLOCK" using ex2 that by (simp add: maps_exactly_def)
    then have "blk w2 (unat (bmap w j lb)) = blk w (unat (bmap w j lb))" using e that(1) by blast
    then show ?thesis using map that by (simp add: block_data_def)
  qed
  moreover have "block_data (j, w) lb = block_data s lb" if "lb < UFS_MAX_FILE_BLOCKS" "lb < old" for lb
    using p that by (simp add: padded_def)
  ultimately have "padded n old old s (j2, w2)"
    unfolding padded_def using file_step_trans [OF st] e ex2 by auto
  then show ?thesis using run e by blast
qed

lemma padded_refl:
  "live (snd s) \<Longrightarrow> file_wf s \<Longrightarrow> maps_exactly old s \<Longrightarrow> padded n old old s s"
  using others_kept_refl by (simp add: padded_def file_step_def)

lemma grow_inode_run:
  assumes l: "live w" and wf: "file_wf (i, w)" and n: "n < UFS_MAX_INODES"
    and ex: "maps_exactly old (i, w)" and le: "old \<le> new" "new \<le> UFS_MAX_FILE_BLOCKS"
  shows "case grow_inode n old new (ino_size i) (i, w) of
      (Some _, s1) \<Rightarrow> padded n old new (i, w) s1
    | (None, s1) \<Rightarrow> padded n old old (i, w) s1 \<and> errno (snd s1) = ENOSPC \<and> inode_at (snd s1) n = fst s1 \<and>
        (old = 0 \<longrightarrow> owned_blocks s1 = {})"
  unfolding grow_inode_def
proof (rule for_each_cases [where I = "\<lambda>k v s1. padded n old k (i, w) s1"])
  show "padded n old old (i, w) (i, w)" using padded_refl l wf ex by simp
  fix k and v :: unit and s1 assume k: "old \<le> k" "k < new" and p: "padded n old k (i, w) s1"
  obtain j w1 where s1: "s1 = (j, w1)" by (cases s1)
  have kb: "k < UFS_MAX_FILE_BLOCKS" using k le by simp
  obtain r j2 w2 where run: "ensure_inode_data_block n k (j, w1) = (r, (j2, w2))" by (metis prod.exhaust)
  note e = padded_step [OF p [unfolded s1] n kb k(1), unfolded run prod.case]
  let ?undo = "discard (free_inode_blocks_after n old) (modify (apfst (\<lambda>x. x\<lparr>ino_size := ino_size i\<rparr>))
      (asking fst (\<lambda>inode. discard (on_world (write_inode n inode)) fail_same))) :: unit inode_op"
  show "case attempt (ensure_inode_data_block n k) (\<lambda>_. ret ()) ?undo s1 of
      (None, s1) \<Rightarrow> padded n old old (i, w) s1 \<and> errno (snd s1) = ENOSPC \<and> inode_at (snd s1) n = fst s1 \<and>
        (old = 0 \<longrightarrow> owned_blocks s1 = {})
    | (Some v', s1) \<Rightarrow> padded n old (Suc k) (i, w) s1"
  proof (cases r)
    case (Some q)
    then show ?thesis using e run s1 by (simp add: run_simps ret_def)
  next
    case None
    have p2: "padded n old k (i, w) (j2, w2)" "errno w2 = ENOSPC" using e None by simp_all
    obtain j3 w3 where f: "free_inode_blocks_after n old (j2, w2) = (Some (), (j3, w3))"
      and p3: "padded n old old (i, w) (j3, w3)" "errno w3 = errno w2" "old = 0 \<longrightarrow> owned_blocks (j3, w3) = {}"
      using rollback [OF p2(1) k(1) n] by blast
    have st: "file_step n (i, w) (j3, w3)" using p3(1) by (simp add: padded_def)
    have sz: "j3\<lparr>ino_size := ino_size i\<rparr> = j3" using same_meta_size file_stepD(3) [OF st] by fastforce
    have "padded n old old (i, w) (j3, put_inode n j3 w3)"
      using padded_put [OF p3(1) _ n] file_stepD(5) [OF st] by simp
    moreover have "?undo (j2, w2) = (None, (j3, put_inode n j3 w3))"
      using f sz file_stepD(2,5) [OF st] n by (simp add: run_simps modify_def asking_def io_simps fail_same_def)
    moreover have "owned_blocks (j3, put_inode n j3 w3) = owned_blocks (j3, w3)"
      using put_inode_owned [of j3 w3 j3 n] file_stepD(1,2,5) [OF st] n by simp
    ultimately show ?thesis using run None s1 p2(2) p3(2,3) file_stepD(5) [OF st] by (simp add: run_simps)
  qed
qed (use le in simp)

section \<open>Resizing\<close>

text \<open>\<open>s1\<close> holds the blocks of \<open>s\<close> resized to \<open>m\<close> bytes; its inode still has the old size.\<close>

definition resized :: "nat \<Rightarrow> nat \<Rightarrow> ufs_inode \<times> world \<Rightarrow> ufs_inode \<times> world \<Rightarrow> bool" where
  "resized n m s s1 \<longleftrightarrow> file_step n s s1 \<and> maps_exactly (blocks_needed m) s1 \<and>
     (\<forall>p < blocks_needed m * 512. file_byte s1 p = (if p < m \<and> p < file_size s then file_byte s p else 0)) \<and>
     (m = 0 \<longrightarrow> owned_blocks s1 = {})"

lemma resized_same: "live w \<Longrightarrow> file_ok (i, w) \<Longrightarrow> resized n (unat (ino_size i)) (i, w) (i, w)"
  using others_kept_refl [of "(i, w)"]
  by (auto simp: resized_def file_ok_def file_step_def file_size_def zero_behind_def lean_def not_less unat_eq_0)

lemma block_lt: "p < k * 512 \<Longrightarrow> k \<le> UFS_MAX_FILE_BLOCKS \<Longrightarrow> p div 512 < k \<and> p div 512 < UFS_MAX_FILE_BLOCKS"
  by (simp add: less_mult_imp_div_less)

lemma needed_le: "m \<le> UFS_MAX_FILE_BLOCKS * 512 \<Longrightarrow> blocks_needed m \<le> UFS_MAX_FILE_BLOCKS"
  by (simp add: blocks_needed_bounds(3))

lemma resized_grow:
  assumes ok: "file_ok (i, w)" and m: "unat (ino_size i) < m" "m \<le> UFS_MAX_FILE_BLOCKS * 512"
    and p: "padded n (blocks_needed (unat (ino_size i))) (blocks_needed m) (i, w) s1"
  shows "resized n m (i, w) s1"
proof -
  have "file_byte s1 q = (if q < m \<and> q < unat (ino_size i) then file_byte (i, w) q else 0)" if q: "q < blocks_needed m * 512" for q
  proof (cases "q div 512 < blocks_needed (unat (ino_size i))")
    case True
    then have "file_byte s1 q = file_byte (i, w) q"
      using p block_lt [OF q needed_le [OF m(2)]] by (simp add: padded_def file_byte_def)
    moreover have "q < blocks_needed (unat (ino_size i)) * 512"
      using True by (simp add: div_less_iff_less_mult)
    ultimately show ?thesis using file_okD(4) [OF ok, of q] m(1) by (cases "q < unat (ino_size i)") auto
  next
    case False
    then have "\<not> q < unat (ino_size i)" using blocks_needed_bounds(4) by blast
    moreover have "block_data s1 (q div 512) = replicate 512 0"
      using p False block_lt [OF q needed_le [OF m(2)]] by (simp add: padded_def)
    ultimately show ?thesis by (simp add: file_byte_def)
  qed
  then show ?thesis using p m(1) by (simp add: resized_def padded_def file_size_def)
qed

text \<open>Cutting keeps the blocks; zeroing the tail of the last one makes the bytes behind the new end zero.\<close>

lemma cut_blocks_of_file:
  assumes l: "live w" and ok: "file_ok (i, w)" and n: "n < UFS_MAX_INODES" and k: "k \<le> blocks_needed (unat (ino_size i))"
  shows "\<exists>j w1. free_inode_blocks_after n k (i, w) = (Some (), (j, w1)) \<and> file_step n (i, w) (j, w1) \<and>
    maps_exactly k (j, w1) \<and> (\<forall>lb < UFS_MAX_FILE_BLOCKS. lb < k \<longrightarrow> block_data (j, w1) lb = block_data (i, w) lb) \<and>
    (k = 0 \<longrightarrow> owned_blocks (j, w1) = {})"
proof -
  note wf = file_okD(1) [OF ok]
  have p: "maps_exactly (blocks_needed (unat (ino_size i))) (i, w)" using ok by (simp add: file_ok_def file_size_def)
  obtain r j w1 where run: "free_inode_blocks_after n k (i, w) = (r, (j, w1))" by (metis prod.exhaust)
  note e = free_blocks_after_run [OF l wf n, of k, unfolded run prod.case]
  have map: "bmap w1 j lb = (if k \<le> lb then UFS_INVALID_BLOCK else bmap w i lb)" if "lb < UFS_MAX_FILE_BLOCKS" for lb
    using e that by blast
  have ex: "maps_exactly k (j, w1)" using map p k by (auto simp: maps_exactly_def)
  have "block_data (j, w1) lb = block_data (i, w) lb" if "lb < UFS_MAX_FILE_BLOCKS" "lb < k" for lb
  proof -
    have "bmap w1 j lb \<noteq> UFS_INVALID_BLOCK" using ex that by (simp add: maps_exactly_def)
    then have "blk w1 (unat (bmap w i lb)) = blk w (unat (bmap w i lb))" using e that(1) by blast
    then show ?thesis using map that by (simp add: block_data_def)
  qed
  then show ?thesis using run e ex by blast
qed

lemma zero_tail_run:
  assumes st: "file_step n s (j, w)" and ex: "maps_exactly (blocks_needed (unat sz)) (j, w)"
    and sz: "0 < sz" "unat sz \<le> UFS_MAX_FILE_BLOCKS * 512" "unat sz mod 512 \<noteq> 0"
  shows "\<exists>w1. zero_tail sz j w = (Some (), w1) \<and> file_step n s (j, w1) \<and> maps_exactly (blocks_needed (unat sz)) (j, w1) \<and>
    (\<forall>p < blocks_needed (unat sz) * 512. file_byte (j, w1) p = (if p < unat sz then file_byte (j, w) p else 0))"
proof -
  have l: "live w" "file_wf (j, w)" using file_stepD(1,2) [OF st] by simp_all
  define lb where "lb = blocks_needed (unat sz) - 1"
  have lb: "lb < UFS_MAX_FILE_BLOCKS" "lb < blocks_needed (unat sz)" "lb = unat sz div 512"
    using needed_le [OF sz(2)] blocks_needed_part [OF sz(3)] by (simp_all add: lb_def)
  have nb: "bmap w j lb \<noteq> UFS_INVALID_BLOCK" using ex lb by (simp add: maps_exactly_def)
  have reg: "unat (bmap w j lb) < UFS_TOTAL_BLOCKS" using in_data_regionD(2) [OF bmap_region(1) [OF l(2) lb(1) nb]] .
  define off where "off = unat sz mod 512"
  have off: "off < 512" by (simp add: off_def)
  define buf where "buf = overlay off (replicate (512 - off) 0) (block_data (j, w) lb)"
  have len: "length buf = 512" using off by (simp add: buf_def)
  define w1 where "w1 = put_blk (unat (bmap w j lb)) buf w"
  note put = put_data_block [OF l lb(1) nb len, folded w1_def]
  have run: "zero_tail sz j w = (Some (), w1)"
    using nb reg l lb(1) len unfolding zero_tail_def blocks_of_size_needed [OF sz(2)] lb_def [symmetric]
    by (simp add: io_simps run_simps Let_def ret_def discard_def w1_def buf_def off_def block_data_def)
  have ex1: "maps_exactly (blocks_needed (unat sz)) (j, w1)"
    using ex put(2) by (simp add: maps_exactly_def)
  have bytes: "file_byte (j, w1) p = (if p < unat sz then file_byte (j, w) p else 0)"
    if p: "p < blocks_needed (unat sz) * 512" for p
  proof -
    have pb: "p div 512 < UFS_MAX_FILE_BLOCKS" "p div 512 < blocks_needed (unat sz)"
      using block_lt [OF p needed_le [OF sz(2)]] by simp_all
    have "bmap w j (p div 512) \<noteq> UFS_INVALID_BLOCK" using ex pb by (simp add: maps_exactly_def)
    then have d: "block_data (j, w1) (p div 512) = (if p div 512 = lb then buf else block_data (j, w) (p div 512))"
      by (rule put(3) [OF pb(1)])
    show ?thesis
    proof (cases "p div 512 = lb")
      case True
      then have "p < unat sz \<longleftrightarrow> p mod 512 < off"
        unfolding lb(3) off_def by (metis add_less_cancel_left div_mult_mod_eq)
      then show ?thesis using True d off by (simp add: file_byte_def buf_def nth_overlay)
    next
      case False
      then have "p div 512 < lb" using pb(2) by (simp add: lb_def)
      then have "p < unat sz" unfolding lb(3) by (metis div_le_mono not_less)
      then show ?thesis using False d by (simp add: file_byte_def)
    qed
  qed
  show ?thesis using run file_step_trans [OF st put(1)] ex1 bytes by blast
qed

section \<open>Truncation\<close>

lemma same_pointers_file:
  assumes wf: "file_wf (j, w)" and sp: "same_pointers j' j" "ino_wf j'"
  shows "file_wf (j', w)" "owned_blocks (j', w) = owned_blocks (j, w)" "lb < UFS_MAX_FILE_BLOCKS \<Longrightarrow> bmap w j' lb = bmap w j lb"
proof -
  have sl: "slot_ptr (j', w) t = slot_ptr (j, w) t" if "t \<in> slots" for t
    using slot_ptr_same [OF _ sp(1) that, of w w] by simp
  show "file_wf (j', w)" using file_wf_same(1) [OF wf _ sp, of w] by simp
  show "owned_blocks (j', w) = owned_blocks (j, w)"
    using sl by (auto simp: owned_blocks_def used_slots_def intro!: image_cong)
  show "lb < UFS_MAX_FILE_BLOCKS \<Longrightarrow> bmap w j' lb = bmap w j lb" using sl [of "Data lb"] by (simp add: bmap_def)
qed

text \<open>The last step: the new size goes into the inode and the inode to its slot.\<close>

lemma finish_resize:
  assumes rs: "resized n (unat sz) (i, w) (j, w1)" and sz: "unat sz \<le> UFS_MAX_FILE_BLOCKS * 512" and n: "n < UFS_MAX_INODES"
  defines "j' \<equiv> j\<lparr>ino_size := sz, ino_block_count := of_nat (blocks_needed (unat sz))\<rparr>"
  shows "write_inode n j' w1 = (Some (), put_inode n j' w1)" "others_kept n (i, w) (j', put_inode n j' w1)"
    "file_ok (j', put_inode n j' w1)" "contents (j', put_inode n j' w1) = resize (unat sz) (contents (i, w))"
    "inode_at (put_inode n j' w1) n = j'"
proof -
  have st: "file_step n (i, w) (j, w1)" and ex: "maps_exactly (blocks_needed (unat sz)) (j, w1)"
    using rs by (simp_all add: resized_def)
  have l: "live w1" "file_wf (j, w1)" using file_stepD(1,2) [OF st] by simp_all
  have sp: "same_pointers j' j" "ino_wf j'"
    using file_stepD(5) [OF st] by (simp_all add: j'_def same_pointers_def ino_wf_def)
  note sf = same_pointers_file [OF l(2) sp]
  have ok1: "others_kept n (i, w) (j', w1)" using file_stepD(4) [OF st] sf(2) by (simp add: others_kept_def)
  show "write_inode n j' w1 = (Some (), put_inode n j' w1)" using l(1) n sp(2) by (simp add: io_simps)
  show "others_kept n (i, w) (j', put_inode n j' w1)" by (rule put_inode_others [OF ok1 sf(1) n sp(2)])
  show "inode_at (put_inode n j' w1) n = j'" using l(1) n sp(2) by simp
  let ?s = "(j', put_inode n j' w1)"
  have map: "bmap (put_inode n j' w1) j' lb = bmap w1 j lb" if "lb < UFS_MAX_FILE_BLOCKS" for lb
    using put_inode_bmap [OF sf(1) l(1) sp(2) n that] sf(3) [OF that] by simp
  have size: "file_size ?s = unat sz" by (simp add: file_size_def j'_def)
  have byte: "file_byte ?s p = (if p < unat sz \<and> p < file_size (i, w) then file_byte (i, w) p else 0)"
    if p: "p < blocks_needed (unat sz) * 512" for p
  proof -
    have pb: "p div 512 < UFS_MAX_FILE_BLOCKS" "p div 512 < blocks_needed (unat sz)"
      using block_lt [OF p needed_le [OF sz]] by simp_all
    have nb: "bmap w1 j' (p div 512) \<noteq> UFS_INVALID_BLOCK" using ex pb sf(3) by (simp add: maps_exactly_def)
    have "block_data ?s (p div 512) = block_data (j, w1) (p div 512)"
      using put_inode_data [OF sf(1) l(1) sp(2) n pb(1) nb] sf(3) [OF pb(1)] by (simp add: block_data_def)
    then show ?thesis using rs p by (simp add: resized_def file_byte_def)
  qed
  have "file_wf ?s" by (rule put_inode_file(1) [OF sf(1) l(1) sp(2) n])
  then show "file_ok ?s" unfolding file_ok_def size
    using sz ex map byte put_inode_owned [OF sf(1) l(1) sp(2) n] sf(2) rs
    by (simp add: maps_exactly_def zero_behind_def lean_def size resized_def)
  show "contents ?s = resize (unat sz) (contents (i, w))"
  proof (rule nth_equalityI)
    show "length (contents ?s) = length (resize (unat sz) (contents (i, w)))" by (simp add: size resize_def)
    fix p assume "p < length (contents ?s)"
    then have p: "p < unat sz" by (simp add: size)
    then have "p < blocks_needed (unat sz) * 512" using blocks_needed_bounds(1) [of "unat sz"] by simp
    then show "contents ?s ! p = resize (unat sz) (contents (i, w)) ! p"
      using byte p by (simp add: nth_contents size resize_def nth_append min_def)
  qed
qed

text \<open>A failed truncation: the file has its old bytes.\<close>

lemma unchanged_file:
  assumes ok: "file_ok (i, w)" and p: "padded n (blocks_needed (unat (ino_size i))) (blocks_needed (unat (ino_size i))) (i, w) (j, w1)"
    and ln: "blocks_needed (unat (ino_size i)) = 0 \<longrightarrow> owned_blocks (j, w1) = {}"
  shows "file_ok (j, w1)" "contents (j, w1) = contents (i, w)" "ino_size j = ino_size i"
proof -
  have st: "file_step n (i, w) (j, w1)" and ex: "maps_exactly (blocks_needed (unat (ino_size i))) (j, w1)"
    using p by (simp_all add: padded_def)
  show sz: "ino_size j = ino_size i" using same_meta_size file_stepD(3) [OF st] by simp
  have byte: "file_byte (j, w1) q = file_byte (i, w) q" if "q < blocks_needed (unat (ino_size i)) * 512" for q
    using p block_lt [OF that needed_le [OF file_okD(2) [OF ok]]] by (simp add: padded_def file_byte_def)
  have "lean (j, w1)" using ln sz blocks_needed_bounds by (auto simp: lean_def file_size_def)
  then show "file_ok (j, w1)" using ok ex byte sz file_stepD(1) [OF st] by (simp add: file_ok_def zero_behind_def file_size_def)
  show "contents (j, w1) = contents (i, w)"
    using byte blocks_needed_bounds(1) [of "unat (ino_size i)"] sz by (simp add: contents_def file_size_def)
qed

text \<open>What an inode keeps while the bytes it stands for change.\<close>

definition same_attrs :: "ufs_inode \<Rightarrow> ufs_inode \<Rightarrow> bool" where
  "same_attrs i j \<longleftrightarrow> ino_type i = ino_type j \<and> ino_mode i = ino_mode j \<and> ino_uid i = ino_uid j \<and>
     ino_gid i = ino_gid j \<and> ino_link_count i = ino_link_count j \<and> ino_generation i = ino_generation j"

lemma same_attrs_refl [simp]: "same_attrs i i"
  by (simp add: same_attrs_def)

lemma same_attrs_trans: "same_attrs i j \<Longrightarrow> same_attrs j k \<Longrightarrow> same_attrs i k"
  by (simp add: same_attrs_def)

lemma same_meta_attrs: "same_meta j i \<Longrightarrow> same_attrs j i"
  by (cases i; cases j) (simp add: same_meta_def same_attrs_def)

lemma truncate_run:
  assumes l: "live w" and ok: "file_ok (i, w)" and n: "n < UFS_MAX_INODES"
  shows "case ufs_truncate_inode n sz (i, w) of
      (Some _, (j, w1)) \<Rightarrow> unat sz \<le> UFS_MAX_FILE_BLOCKS * 512 \<and> others_kept n (i, w) (j, w1) \<and> file_ok (j, w1) \<and>
        contents (j, w1) = resize (unat sz) (contents (i, w)) \<and> inode_at w1 n = j \<and>
        ino_size j = sz \<and> same_attrs j i
    | (None, (j, w1)) \<Rightarrow> others_kept n (i, w) (j, w1) \<and> file_ok (j, w1) \<and> contents (j, w1) = contents (i, w) \<and>
        same_meta j i \<and> ino_size i < sz \<and> (inode_at w n = i \<longrightarrow> inode_at w1 n = j) \<and>
        errno w1 = (if UFS_MAX_FILE_BLOCKS * 512 < unat sz then EFBIG else ENOSPC)"
proof (cases "UFS_MAX_FILE_BLOCKS * 512 < unat sz")
  case True
  have "ufs_truncate_inode n sz (i, w) = (None, (i, w\<lparr>errno := EFBIG\<rparr>))"
    using True by (simp add: ufs_truncate_inode_def run_simps fail_def)
  moreover have "others_kept n (i, w) (i, w\<lparr>errno := EFBIG\<rparr>)"
    using others_kept_refl [of "(i, w)"] l file_okD(1) [OF ok] by (simp add: others_kept_def owned_blocks_def)
  moreover have "file_ok (i, w\<lparr>errno := EFBIG\<rparr>)" "contents (i, w\<lparr>errno := EFBIG\<rparr>) = contents (i, w)"
    using ok by (simp_all add: file_ok_def maps_exactly_def zero_behind_def file_size_def file_byte_def contents_def
        block_data_def bmap_def lean_def owned_blocks_def used_slots_def)
  moreover have "ino_size i < sz" using True file_okD(2) [OF ok] by (simp add: word_less_nat_alt)
  ultimately show ?thesis using True by simp
next
  case False
  note wf = file_okD(1) [OF ok]
  have szb: "unat sz \<le> UFS_MAX_FILE_BLOCKS * 512" using False by simp
  define old where "old = blocks_needed (unat (ino_size i))"
  have ex: "maps_exactly old (i, w)" using ok by (simp add: file_ok_def file_size_def old_def)
  define part where "part = (if ino_size i < sz then grow_inode n old (blocks_needed (unat sz)) (ino_size i)
      else if sz < ino_size i then
        on_ok (free_inode_blocks_after n (blocks_needed (unat sz))) (\<lambda>_.
        if 0 < sz \<and> unat sz mod UFS_BLOCK_SIZE \<noteq> 0
        then asking fst (\<lambda>inode. on_world (zero_tail sz inode)) else ret ())
      else ret ())"
  define finish where "finish = modify (apfst (\<lambda>i. i\<lparr>ino_size := sz, ino_block_count := of_nat (blocks_needed (unat sz))\<rparr>))
      (asking fst (\<lambda>inode. on_world (write_inode n inode)))"
  have run: "ufs_truncate_inode n sz (i, w) = on_ok part (\<lambda>_. finish) (i, w)"
    using False blocks_of_size_needed [OF szb] blocks_of_size_needed [OF file_okD(2) [OF ok]]
    by (simp add: ufs_truncate_inode_def asking_def Let_def part_def finish_def old_def)
  have good: ?thesis if p: "part (i, w) = (Some (), (j, w1))" and rs: "resized n (unat sz) (i, w) (j, w1)" for j w1
  proof -
    note fin = finish_resize [OF rs szb n]
    have "ufs_truncate_inode n sz (i, w) = finish (j, w1)" unfolding run using p by (simp add: run_simps)
    also have "\<dots> = (Some (), (j\<lparr>ino_size := sz, ino_block_count := of_nat (blocks_needed (unat sz))\<rparr>,
        put_inode n (j\<lparr>ino_size := sz, ino_block_count := of_nat (blocks_needed (unat sz))\<rparr>) w1))"
      using fin(1) by (simp add: finish_def modify_def asking_def run_simps)
    finally have r: "ufs_truncate_inode n sz (i, w) = (Some (), (j\<lparr>ino_size := sz, ino_block_count := of_nat (blocks_needed (unat sz))\<rparr>,
        put_inode n (j\<lparr>ino_size := sz, ino_block_count := of_nat (blocks_needed (unat sz))\<rparr>) w1))" .
    have "same_meta j i" using rs file_stepD(3) by (fastforce simp: resized_def)
    then have "same_attrs j i" by (rule same_meta_attrs)
    then have "same_attrs (j\<lparr>ino_size := sz, ino_block_count := of_nat (blocks_needed (unat sz))\<rparr>) i" by (simp add: same_attrs_def)
    then show ?thesis unfolding r using fin szb by simp
  qed
  consider (up) "ino_size i < sz" | (down) "sz < ino_size i" | (same) "sz = ino_size i" by fastforce
  then show ?thesis
  proof cases
    case up
    then have le: "unat (ino_size i) \<le> unat sz" "unat (ino_size i) < unat sz" by (simp_all add: word_less_nat_alt)
    have part: "part = grow_inode n old (blocks_needed (unat sz)) (ino_size i)" using up by (simp add: part_def)
    obtain r j w1 where g: "grow_inode n old (blocks_needed (unat sz)) (ino_size i) (i, w) = (r, (j, w1))"
      by (metis prod.exhaust)
    note e = grow_inode_run [OF l wf n ex blocks_needed_mono [OF le(1), folded old_def] needed_le [OF szb], unfolded g prod.case]
    show ?thesis
    proof (cases r)
      case (Some u)
      then have "padded n old (blocks_needed (unat sz)) (i, w) (j, w1)" using e by simp
      then have "resized n (unat sz) (i, w) (j, w1)" using resized_grow [OF ok le(2) szb] by (simp add: old_def)
      then show ?thesis using good part g Some by simp
    next
      case None
      then have p: "padded n old old (i, w) (j, w1)" "errno w1 = ENOSPC" "inode_at w1 n = j"
        "old = 0 \<longrightarrow> owned_blocks (j, w1) = {}" using e by simp_all
      have st: "file_step n (i, w) (j, w1)" using p(1) by (simp add: padded_def)
      have "ufs_truncate_inode n sz (i, w) = (None, (j, w1))" unfolding run part using g None by (simp add: run_simps)
      then show ?thesis using unchanged_file [OF ok p(1,4) [unfolded old_def]] file_stepD(3,4) [OF st] p(2,3) up False by simp
    qed
  next
    case down
    then have k: "blocks_needed (unat sz) \<le> blocks_needed (unat (ino_size i))"
      by (intro blocks_needed_mono) (simp add: word_less_nat_alt)
    obtain j w1 where f: "free_inode_blocks_after n (blocks_needed (unat sz)) (i, w) = (Some (), (j, w1))"
      and st: "file_step n (i, w) (j, w1)" and ex1: "maps_exactly (blocks_needed (unat sz)) (j, w1)"
      and data: "\<forall>lb < UFS_MAX_FILE_BLOCKS. lb < blocks_needed (unat sz) \<longrightarrow> block_data (j, w1) lb = block_data (i, w) lb"
      and none: "blocks_needed (unat sz) = 0 \<longrightarrow> owned_blocks (j, w1) = {}"
      using cut_blocks_of_file [OF l ok n k] by (elim exE conjE) metis
    have empty: "unat sz = 0 \<longrightarrow> owned_blocks (j, w1) = {}" using none by (simp add: blocks_needed_bounds)
    have lt: "p < file_size (i, w)" if "p < unat sz" for p
      using down that by (simp add: file_size_def word_less_nat_alt)
    have byte: "file_byte (j, w1) p = file_byte (i, w) p" if "p < blocks_needed (unat sz) * 512" for p
      using data block_lt [OF that needed_le [OF szb]] by (simp add: file_byte_def)
    have part: "part (i, w) = (if 0 < sz \<and> unat sz mod UFS_BLOCK_SIZE \<noteq> 0
        then asking fst (\<lambda>inode. on_world (zero_tail sz inode)) else ret ()) (j, w1)"
      using down f less_not_sym [OF down] by (simp add: part_def run_simps)
    show ?thesis
    proof (cases "0 < sz \<and> unat sz mod 512 \<noteq> 0")
      case True
      then obtain w2 where z: "zero_tail sz j w1 = (Some (), w2)" "file_step n (i, w) (j, w2)"
        "maps_exactly (blocks_needed (unat sz)) (j, w2)"
        "\<forall>p < blocks_needed (unat sz) * 512. file_byte (j, w2) p = (if p < unat sz then file_byte (j, w1) p else 0)"
        using zero_tail_run [OF st ex1 _ szb] by blast
      then have "resized n (unat sz) (i, w) (j, w2)" using byte lt True by (simp add: resized_def word_less_nat_alt)
      then show ?thesis using good [of j w2] part z(1) True by (simp add: asking_def run_simps)
    next
      case False
      then have m: "unat sz mod 512 = 0" by (auto simp: word_less_nat_alt)
      have "p < unat sz" if "p < blocks_needed (unat sz) * 512" for p
        using that blocks_needed_whole [OF m] by simp
      then have "resized n (unat sz) (i, w) (j, w1)" using st ex1 byte lt empty by (simp add: resized_def)
      then show ?thesis using good [of j w1] part m by (simp add: ret_def)
    qed
  next
    case same
    then have "part (i, w) = (Some (), (i, w))" by (simp add: part_def ret_def)
    then show ?thesis using good resized_same [OF l ok] same by simp
  qed
qed

lemma file_ok_init [simp]: "file_ok (ufs_init_inode t, w)"
proof -
  have "bmap w (ufs_init_inode t) lb = UFS_INVALID_BLOCK" if "lb < UFS_MAX_FILE_BLOCKS" for lb
    using that by (auto simp: bmap_def ufs_init_inode_def slot_ptr.simps(1) pointer_at_def)
  moreover have "ino_size (ufs_init_inode t) = 0" by (simp add: ufs_init_inode_def)
  moreover have "slot_ptr (ufs_init_inode t, w) u = UFS_INVALID_BLOCK" if "u \<in> slots" for u
    using that by (cases u) (auto simp: ufs_init_inode_def slot_ptr.simps(1) pointer_at_def)
  then have "lean (ufs_init_inode t, w)" by (auto simp: lean_def owned_blocks_def used_slots_def)
  ultimately show ?thesis
    by (simp add: file_ok_def maps_exactly_def zero_behind_def file_size_def blocks_needed_bounds)
qed

text \<open>C15: \<open>ufs_truncate_inode\<close> resizes a file. On a file with its invariant it either succeeds, and then
  the bytes of the file are the old ones cut or padded with zeros to the new size, also after a shrink
  to the middle of a block followed by a growth; or it fails, with EFBIG for a size beyond the largest
  file and ENOSPC when the data region runs full while growing, and then the file has the bytes it had.
  In both cases the invariant holds again, no block is lost or shared and other files are untouched;
  on success the inode on disk is the resized one.\<close>

theorem truncate_spec:
  assumes "live w" and "file_ok (i, w)" and "n < UFS_MAX_INODES"
  shows "case ufs_truncate_inode n sz (i, w) of
      (Some _, (j, w1)) \<Rightarrow> unat sz \<le> UFS_MAX_FILE_BLOCKS * 512 \<and> others_kept n (i, w) (j, w1) \<and> file_ok (j, w1) \<and>
        contents (j, w1) = resize (unat sz) (contents (i, w)) \<and> inode_at w1 n = j \<and>
        ino_size j = sz \<and> same_attrs j i
    | (None, (j, w1)) \<Rightarrow> others_kept n (i, w) (j, w1) \<and> file_ok (j, w1) \<and> contents (j, w1) = contents (i, w) \<and>
        same_meta j i \<and> ino_size i < sz \<and> (inode_at w n = i \<longrightarrow> inode_at w1 n = j) \<and>
        errno w1 = (if UFS_MAX_FILE_BLOCKS * 512 < unat sz then EFBIG else ENOSPC)"
  by (rule truncate_run [OF assms])

theorem truncate_spec_witness:
  "case ufs_truncate_inode 5 700 (ufs_init_inode 1, blank_world) of
      (Some _, (j, w1)) \<Rightarrow> contents (j, w1) = replicate 700 0 \<and> inode_at w1 5 = j
    | (None, (j, w1)) \<Rightarrow> contents (j, w1) = [] \<and> errno w1 = ENOSPC"
proof -
  have "contents (ufs_init_inode 1, blank_world) = []"
    by (simp add: contents_def file_size_def ufs_init_inode_def)
  then show ?thesis
    using truncate_spec [OF live_blank(1) file_ok_init [where t = 1], where n = 5 and sz = 700] by (auto simp: resize_def split: prod.splits option.splits)
qed

end
