(* ===== verification/Ufs_Entries.thy ===== *)
theory Ufs_Entries
  imports Ufs_Directory
begin

text \<open>
  Lists of directory entries as finite maps from names to inode numbers: \<open>entry_map\<close> is the map a list
  stands for when no name is used twice, and filling an unused slot or clearing a slot is insertion or
  deletion of that map. Names and entries survive the way to the bytes of a block and back.
\<close>

section \<open>Lists of entries\<close>

definition names_unique :: "ufs_disk_dirent list \<Rightarrow> bool" where
  "names_unique es \<longleftrightarrow> (\<forall>i < length es. \<forall>j < length es. \<forall>name.
     entry_named name (es ! i) \<longrightarrow> entry_named name (es ! j) \<longrightarrow> i = j)"

definition entry_map :: "ufs_disk_dirent list \<Rightarrow> string \<rightharpoonup> nat" where
  "entry_map es name = map_option (\<lambda>d. unat (de_inode_number d)) (List.find (entry_named name) es)"

lemma entry_map_None: "entry_map es name = None \<longleftrightarrow> (\<forall>i < length es. \<not> entry_named name (es ! i))"
  by (auto simp: entry_map_def find_None_iff in_set_conv_nth)

lemma entry_map_Some:
  assumes "names_unique es"
  shows "entry_map es name = Some n \<longleftrightarrow> (\<exists>i < length es. entry_named name (es ! i) \<and> n = unat (de_inode_number (es ! i)))"
proof
  assume "entry_map es name = Some n"
  then show "\<exists>i < length es. entry_named name (es ! i) \<and> n = unat (de_inode_number (es ! i))"
    by (auto simp: entry_map_def find_Some_iff)
next
  assume "\<exists>i < length es. entry_named name (es ! i) \<and> n = unat (de_inode_number (es ! i))"
  then obtain i where i: "i < length es" "entry_named name (es ! i)" "n = unat (de_inode_number (es ! i))" by blast
  have "\<not> entry_named name (es ! j)" if "j < i" for j
    using that i(1,2) assms unfolding names_unique_def by (metis less_trans nat_neq_iff)
  then have "List.find (entry_named name) es = Some (es ! i)"
    unfolding find_Some_iff using i(1,2) by blast
  then show "entry_map es name = Some n" using i(3) by (simp add: entry_map_def)
qed

text \<open>Replacing one slot.\<close>

lemma unused_not_named: "de_used d = 0 \<Longrightarrow> \<not> entry_named name d"
  by (simp add: entry_named_def)

lemma entry_named_inj: "entry_named a d \<Longrightarrow> entry_named b d \<Longrightarrow> a = b"
  by (simp add: entry_named_def)

lemma names_unique_update:
  assumes "names_unique es" and "\<And>name i. entry_named name d \<Longrightarrow> i < length es \<Longrightarrow> i \<noteq> k \<Longrightarrow> \<not> entry_named name (es ! i)"
  shows "names_unique (es[k := d])"
  unfolding names_unique_def length_list_update
proof (intro allI impI)
  fix i j name
  assume ij: "i < length es" "j < length es" and n: "entry_named name (es[k := d] ! i)" "entry_named name (es[k := d] ! j)"
  show "i = j"
  proof (rule ccontr)
    assume ne: "i \<noteq> j"
    consider "i = k" "j \<noteq> k" | "j = k" "i \<noteq> k" | "i \<noteq> k" "j \<noteq> k" using ne by blast
    then show False
    proof cases
      case 1 then show ?thesis using n ij assms(2) [of name j] by simp
    next
      case 2 then show ?thesis using n ij assms(2) [of name i] by simp
    next
      case 3 then show ?thesis using n ij assms(1) ne unfolding names_unique_def by (metis nth_list_update_neq)
    qed
  qed
qed

lemma entry_map_insert:
  assumes u: "names_unique es" and k: "k < length es" "de_used (es ! k) = 0" and new: "entry_map es name = None"
    and d: "entry_named name d"
  shows "names_unique (es[k := d])" "entry_map (es[k := d]) = (entry_map es)(name \<mapsto> unat (de_inode_number d))"
proof -
  have no: "\<not> entry_named name (es ! i)" if "i < length es" for i using new that by (simp add: entry_map_None)
  show u2: "names_unique (es[k := d])"
    using names_unique_update [OF u, of d k] no entry_named_inj [OF d] by metis
  have "entry_map (es[k := d]) x = Some n \<longleftrightarrow> ((entry_map es)(name \<mapsto> unat (de_inode_number d))) x = Some n" for x n
  proof (cases "x = name")
    case True
    have "(\<exists>i < length es. entry_named name (es[k := d] ! i) \<and> n = unat (de_inode_number (es[k := d] ! i))) \<longleftrightarrow>
        n = unat (de_inode_number d)"
      using no k(1) d by (metis nth_list_update_eq nth_list_update_neq)
    then show ?thesis using True by (auto simp: entry_map_Some [OF u2])
  next
    case False
    have "\<not> entry_named x d" "\<not> entry_named x (es ! k)" using False d entry_named_inj unused_not_named [OF k(2)] by blast+
    then have "(\<exists>i < length es. entry_named x (es[k := d] ! i) \<and> n = unat (de_inode_number (es[k := d] ! i))) \<longleftrightarrow>
        (\<exists>i < length es. entry_named x (es ! i) \<and> n = unat (de_inode_number (es ! i)))"
      using k(1) by (metis nth_list_update_eq nth_list_update_neq)
    then show ?thesis using False by (simp add: entry_map_Some [OF u2] entry_map_Some [OF u])
  qed
  then show "entry_map (es[k := d]) = (entry_map es)(name \<mapsto> unat (de_inode_number d))"
    by (intro ext) (metis option.exhaust)
qed

lemma entry_map_delete:
  assumes u: "names_unique es" and k: "k < length es" "entry_named name (es ! k)" and d: "de_used d = 0"
  shows "names_unique (es[k := d])" "entry_map (es[k := d]) = (entry_map es)(name := None)"
proof -
  show u2: "names_unique (es[k := d])" using names_unique_update [OF u] unused_not_named [OF d] by blast
  have "entry_map (es[k := d]) x = Some n \<longleftrightarrow> ((entry_map es)(name := None)) x = Some n" for x n
  proof (cases "x = name")
    case True
    have "\<not> entry_named name (es[k := d] ! i)" if "i < length es" for i
      using u k that unused_not_named [OF d] unfolding names_unique_def
      by (metis nth_list_update_eq nth_list_update_neq)
    then have "entry_map (es[k := d]) name = None" unfolding entry_map_None by simp
    then show ?thesis using True by simp
  next
    case False
    have "\<not> entry_named x d" "\<not> entry_named x (es ! k)" using False k(2) entry_named_inj unused_not_named [OF d] by blast+
    then have "(\<exists>i < length es. entry_named x (es[k := d] ! i) \<and> n = unat (de_inode_number (es[k := d] ! i))) \<longleftrightarrow>
        (\<exists>i < length es. entry_named x (es ! i) \<and> n = unat (de_inode_number (es ! i)))"
      using k(1) by (metis nth_list_update_eq nth_list_update_neq)
    then show ?thesis using False by (simp add: entry_map_Some [OF u2] entry_map_Some [OF u])
  qed
  then show "entry_map (es[k := d]) = (entry_map es)(name := None)" by (intro ext) (metis option.exhaust)
qed

lemma entry_map_append_unused:
  assumes "\<And>d. d \<in> set ds \<Longrightarrow> de_used d = 0"
  shows "entry_map (es @ ds) = entry_map es" "names_unique (es @ ds) = names_unique es"
proof -
  have no: "\<not> entry_named name d" if "d \<in> set ds" for d name using unused_not_named assms that by blast
  have "List.find (entry_named name) (es @ ds) = List.find (entry_named name) es" for name
    using no by (induction es) (auto simp: find_None_iff)
  then show "entry_map (es @ ds) = entry_map es" by (simp add: entry_map_def fun_eq_iff)
  have old: "i < length es" if "i < length (es @ ds)" "entry_named name ((es @ ds) ! i)" for i name
    using that no nth_mem [of "i - length es" ds] by (auto simp: nth_append not_less split: if_splits)
  show "names_unique (es @ ds) = names_unique es"
  proof
    assume u: "names_unique (es @ ds)"
    show "names_unique es" unfolding names_unique_def
    proof (intro allI impI)
      fix i j name assume "i < length es" "j < length es" "entry_named name (es ! i)" "entry_named name (es ! j)"
      then show "i = j" using u [unfolded names_unique_def, rule_format, of i j name] by (simp add: nth_append)
    qed
  next
    assume u: "names_unique es"
    show "names_unique (es @ ds)" unfolding names_unique_def
    proof (intro allI impI)
      fix i j name assume n: "i < length (es @ ds)" "j < length (es @ ds)"
        "entry_named name ((es @ ds) ! i)" "entry_named name ((es @ ds) ! j)"
      have "i < length es" "j < length es" using old n by blast+
      then show "i = j" using n u [unfolded names_unique_def, rule_format, of i j name] by (simp add: nth_append)
    qed
  qed
qed

section \<open>Names on disk\<close>

definition good_name :: "string \<Rightarrow> bool" where
  "good_name name \<longleftrightarrow> name \<noteq> [] \<and> length name \<le> UFS_MAX_NAME \<and> CHR 0x00 \<notin> set name"

lemma char_of_byte_of_char [simp]: "char_of_byte (byte_of_char c) = c"
proof -
  have "unat (byte_of_char c) = of_char c"
    unfolding byte_of_char_def by (subst unat_of_nat) simp
  then show ?thesis by (simp add: char_of_byte_def)
qed

lemma byte_of_char_0: "byte_of_char c = 0 \<longleftrightarrow> c = CHR 0x00"
proof
  assume "byte_of_char c = 0"
  then have "char_of_byte (byte_of_char c) = char_of_byte 0" by simp
  then show "c = CHR 0x00" unfolding char_of_byte_of_char by (simp add: char_of_byte_def char_of_def)
qed (simp add: byte_of_char_def)

lemma c_string_name_field: "CHR 0x00 \<notin> set name \<Longrightarrow> length name < 32 \<Longrightarrow> c_string (name_field name) = name"
proof -
  assume n: "CHR 0x00 \<notin> set name" "length name < 32"
  have "takeWhile (\<lambda>b. b \<noteq> 0) (map byte_of_char name @ replicate (32 - length name) 0) = map byte_of_char name"
    using n by (subst takeWhile_append2) (auto simp: byte_of_char_0 takeWhile_replicate)
  then show ?thesis by (simp add: c_string_def name_field_def comp_def)
qed

lemma length_name_field: "length name \<le> 32 \<Longrightarrow> length (name_field name) = 32"
  by (simp add: name_field_def)

lemma new_dirent_named:
  assumes "good_name name"
  shows "entry_named name (new_dirent name target type)" "de_wf (new_dirent name target type)"
    "target < 2 ^ 32 \<Longrightarrow> unat (de_inode_number (new_dirent name target type)) = target"
  using assms c_string_name_field [of name] length_name_field [of name]
  by (simp_all add: good_name_def new_dirent_def entry_named_def de_wf_def zero_dirent_def unat_of_nat)

section \<open>A block of entries\<close>

lemma length_dirents [simp]: "length (dirents buf) = 8"
  unfolding dirents_def length_map length_upt by simp

lemma nth_dirents: "k < 8 \<Longrightarrow> dirents buf ! k = dec_dirent (field (k * 64) 64 buf)"
  unfolding dirents_def by (subst nth_map) (simp_all del: upt_rec_numeral)

lemma de_wf_dirents: "length buf = 512 \<Longrightarrow> d \<in> set (dirents buf) \<Longrightarrow> de_wf d"
proof -
  assume l: "length buf = 512" and "d \<in> set (dirents buf)"
  then obtain k where k: "k < 8" "d = dirents buf ! k" by (auto simp: in_set_conv_nth)
  have "length (field (k * 64) 64 buf) = 64" using k(1) l by (intro length_field) linarith
  then show "de_wf d" unfolding k(2) nth_dirents [OF k(1)] by (rule de_wf_dec)
qed

lemma field_concat:
  "\<forall>x \<in> set xs. length (f x) = n \<Longrightarrow> k < length xs \<Longrightarrow> field (k * n) n (concat (map f xs)) = f (xs ! k)"
proof (induction xs arbitrary: k)
  case Nil
  then show ?case by simp
next
  case (Cons x xs)
  then show ?case by (cases k) (simp_all add: field_def)
qed

lemma length_concat_uniform:
  "\<forall>x \<in> set xs. length (f x) = n \<Longrightarrow> length (concat (map f xs)) = length xs * n"
  by (induction xs) simp_all

lemma enc_dirents_facts:
  assumes "length es = 8" and "\<forall>d \<in> set es. de_wf d"
  shows "length (enc_dirents es) = 512" "dirents (enc_dirents es) = es"
proof -
  have len: "\<forall>d \<in> set es. length (enc_dirent d) = 64" using assms(2) by simp
  show "length (enc_dirents es) = 512"
    using length_concat_uniform [OF len] assms(1) by (simp add: enc_dirents_def)
  show "dirents (enc_dirents es) = es"
  proof (rule nth_equalityI)
    fix k assume "k < length (dirents (enc_dirents es))"
    then have k: "k < 8" by simp
    have "dirents (enc_dirents es) ! k = dec_dirent (enc_dirent (es ! k))"
      unfolding nth_dirents [OF k] enc_dirents_def using field_concat [OF len] k assms(1) by simp
    then show "dirents (enc_dirents es) ! k = es ! k" using k assms by simp
  qed (simp add: assms(1))
qed

lemma dirents_replaced:
  assumes "length buf = 512" and "de_wf d"
  shows "length (enc_dirents ((dirents buf)[k := d])) = 512"
    "dirents (enc_dirents ((dirents buf)[k := d])) = (dirents buf)[k := d]"
proof -
  have "de_wf e" if "e \<in> set ((dirents buf)[k := d])" for e
    using that set_update_subset_insert [of "dirents buf" k d] de_wf_dirents [OF assms(1)] assms(2) by blast
  then show "length (enc_dirents ((dirents buf)[k := d])) = 512"
    "dirents (enc_dirents ((dirents buf)[k := d])) = (dirents buf)[k := d]"
    using enc_dirents_facts [of "(dirents buf)[k := d]"] by simp_all
qed

lemma de_wf_zero [simp]: "de_wf zero_dirent"
  by (simp add: de_wf_def zero_dirent_def)

lemma de_used_zero [simp]: "de_used zero_dirent = 0"
  by (simp add: zero_dirent_def)

end
