(* ===== verification/Ufs_Dirmap.thy ===== *)
theory Ufs_Dirmap
  imports Ufs_Content Ufs_Entries
begin

text \<open>
  Directories on the image. \<open>dir_entries\<close> is the list of the slots of all blocks of a directory, \<open>dir_ok\<close>
  its invariant (at most eight direct blocks, all mapped, no name twice), \<open>dir_map\<close> the map it stands
  for. On directories with the invariant \<open>directory_find\<close>, \<open>directory_add\<close> and \<open>directory_remove\<close>
  are lookup, insertion and deletion of the map.
\<close>

section \<open>The entries of a directory\<close>

definition dir_blocks :: "ufs_inode \<times> world \<Rightarrow> nat" where
  "dir_blocks s = unat (ino_block_count (fst s))"

definition dir_entries :: "ufs_inode \<times> world \<Rightarrow> ufs_disk_dirent list" where
  "dir_entries s = concat (map (\<lambda>lb. dirents (block_data s lb)) [0..<dir_blocks s])"

definition dir_ok :: "ufs_inode \<times> world \<Rightarrow> bool" where
  "dir_ok s \<longleftrightarrow> file_wf s \<and> ino_type (fst s) = UFS_TYPE_DIR \<and> dir_blocks s \<le> UFS_DIRECT_BLOCKS \<and>
     file_size s = dir_blocks s * 512 \<and> maps_exactly (dir_blocks s) s \<and> lean s \<and> names_unique (dir_entries s)"

definition dir_inv :: "nat \<Rightarrow> world \<Rightarrow> bool" where
  "dir_inv n w \<longleftrightarrow> live w \<and> n < UFS_MAX_INODES \<and> dir_ok (file_at w n)"

definition dir_map :: "nat \<Rightarrow> world \<Rightarrow> string \<rightharpoonup> nat" where
  "dir_map n w = entry_map (dir_entries (file_at w n))"

lemma length_concat_upt: "(\<And>k. length (f k) = m) \<Longrightarrow> length (concat (map f [0..<n])) = n * m"
  using length_concat_uniform [of "[0..<n]" f m] by simp

lemma nth_concat_upt:
  assumes "\<And>k. length (f k) = m" and "p < n * m"
  shows "concat (map f [0..<n]) ! p = f (p div m) ! (p mod m)"
proof -
  have m: "0 < m" using assms(2) by (cases m) simp_all
  have k: "p div m < n" using assms(2) by (simp add: less_mult_imp_div_less)
  have "field (p div m * m) m (concat (map f [0..<n])) = f (p div m)"
    using field_concat [of "[0..<n]" f m "p div m"] assms(1) k by simp
  then have "f (p div m) ! (p mod m) = concat (map f [0..<n]) ! (p div m * m + p mod m)"
    using nth_field [of "p mod m" m "p div m * m" "concat (map f [0..<n])"] m k assms
      mult_le_mono1 [of "Suc (p div m)" n m] by (simp add: length_concat_upt)
  then show ?thesis by simp
qed

lemma length_dir_entries: "length (dir_entries s) = dir_blocks s * 8"
  by (simp add: dir_entries_def length_concat_upt)

lemma nth_dir_entries:
  "p < dir_blocks s * 8 \<Longrightarrow> dir_entries s ! p = dirents (block_data s (p div 8)) ! (p mod 8)"
  by (simp add: dir_entries_def nth_concat_upt)

lemma dir_slot_less: "lb < dir_blocks s \<Longrightarrow> k < 8 \<Longrightarrow> lb * 8 + k < dir_blocks s * 8"
  by linarith

lemma dir_entries_slot:
  "lb < dir_blocks s \<Longrightarrow> k < 8 \<Longrightarrow> dir_entries s ! (lb * 8 + k) = dirents (block_data s lb) ! k"
  using nth_dir_entries [of "lb * 8 + k" s] dir_slot_less [of lb s k] by simp

lemma dir_okD:
  assumes "dir_ok (i, w)"
  shows "file_wf (i, w)" "ino_type i = UFS_TYPE_DIR" "unat (ino_block_count i) \<le> 8"
    "lb < UFS_MAX_FILE_BLOCKS \<Longrightarrow> bmap w i lb = UFS_INVALID_BLOCK \<longleftrightarrow> unat (ino_block_count i) \<le> lb"
    "names_unique (dir_entries (i, w))" "unat (ino_size i) = unat (ino_block_count i) * 512"
  using assms by (simp_all add: dir_ok_def dir_blocks_def maps_exactly_def file_size_def)

text \<open>A slot with a property, as the block and the place where the loops find it.\<close>

lemma dir_entry_cases:
  obtains (none) "\<And>lb k. lb < dir_blocks s \<Longrightarrow> k < 8 \<Longrightarrow> \<not> P (dirents (block_data s lb) ! k)"
      and "\<And>p. p < length (dir_entries s) \<Longrightarrow> \<not> P (dir_entries s ! p)"
  | (some) lb k where "lb < dir_blocks s" and "first_from (\<lambda>k. P (dirents (block_data s lb) ! k)) 0 8 = Some k"
      and "k < 8" and "P (dir_entries s ! (lb * 8 + k))" and "lb * 8 + k < length (dir_entries s)"
      and "\<And>l j. l < lb \<Longrightarrow> j < 8 \<Longrightarrow> \<not> P (dirents (block_data s l) ! j)"
proof (cases "first_from (\<lambda>lb. first_from (\<lambda>k. P (dirents (block_data s lb) ! k)) 0 8 \<noteq> None) 0 (dir_blocks s)")
  case None
  then have no: "\<not> P (dirents (block_data s lb) ! k)" if "lb < dir_blocks s" "k < 8" for lb k
    using that by (simp add: first_from_None)
  have "\<not> P (dir_entries s ! p)" if p: "p < length (dir_entries s)" for p
    using no [of "p div 8" "p mod 8"] p less_mult_imp_div_less [of p "dir_blocks s" 8]
    by (simp add: length_dir_entries nth_dir_entries)
  then show ?thesis using no none by blast
next
  case (Some lb)
  then obtain k where k: "first_from (\<lambda>k. P (dirents (block_data s lb) ! k)) 0 8 = Some k" and lb: "lb < dir_blocks s"
    and before: "\<And>l. l < lb \<Longrightarrow> first_from (\<lambda>k. P (dirents (block_data s l) ! k)) 0 8 = None"
    using Some [unfolded first_from_Some [where hi = "dir_blocks s"]] by auto
  have kk: "k < 8" "P (dirents (block_data s lb) ! k)" using k by (simp_all add: first_from_Some)
  have "\<not> P (dirents (block_data s l) ! j)" if "l < lb" "j < 8" for l j
    using before [OF that(1)] that(2) by (simp add: first_from_None)
  then show ?thesis
    using some [OF lb k kk(1)] kk dir_entries_slot [OF lb kk(1)] dir_slot_less [OF lb kk(1)]
    by (simp add: length_dir_entries)
qed

lemma errno_views [simp]:
  "file_at (w\<lparr>errno := e\<rparr>) n = (inode_at w n, w\<lparr>errno := e\<rparr>)" "block_data (i, w\<lparr>errno := e\<rparr>) = block_data (i, w)"
  "dir_entries (i, w\<lparr>errno := e\<rparr>) = dir_entries (i, w)" "dir_ok (i, w\<lparr>errno := e\<rparr>) = dir_ok (i, w)"
  "dir_inv n (w\<lparr>errno := e\<rparr>) = dir_inv n w" "dir_map n (w\<lparr>errno := e\<rparr>) = dir_map n w"
  "owned_blocks (i, w\<lparr>errno := e\<rparr>) = owned_blocks (i, w)"
  "others_kept n (i, w\<lparr>errno := e\<rparr>) s1 = others_kept n (i, w) s1"
proof -
  show f: "file_at (w\<lparr>errno := e\<rparr>) n = (inode_at w n, w\<lparr>errno := e\<rparr>)" by (simp add: file_at_def)
  show d: "block_data (i, w\<lparr>errno := e\<rparr>) = block_data (i, w)" for i by (simp add: block_data_def bmap_def fun_eq_iff)
  show es: "dir_entries (i, w\<lparr>errno := e\<rparr>) = dir_entries (i, w)" for i by (simp add: dir_entries_def dir_blocks_def d)
  show ok: "dir_ok (i, w\<lparr>errno := e\<rparr>) = dir_ok (i, w)" for i
    by (simp add: dir_ok_def dir_blocks_def maps_exactly_def bmap_def file_size_def es lean_def owned_blocks_def used_slots_def)
  show "dir_inv n (w\<lparr>errno := e\<rparr>) = dir_inv n w" by (simp add: dir_inv_def f ok) (simp add: file_at_def)
  show "dir_map n (w\<lparr>errno := e\<rparr>) = dir_map n w" by (simp add: dir_map_def f es) (simp add: file_at_def)
  show o: "owned_blocks (i, w\<lparr>errno := e\<rparr>) = owned_blocks (i, w)" by (simp add: owned_blocks_def used_slots_def)
  show "others_kept n (i, w\<lparr>errno := e\<rparr>) s1 = others_kept n (i, w) s1" by (simp add: others_kept_def o)
qed

section \<open>The loops\<close>

lemma find_each_hit:
  assumes "\<And>j. lo \<le> j \<Longrightarrow> j < k \<Longrightarrow> body j w = (Some None, w)" and "lo \<le> k" and "k < hi"
    and "body k w = (Some (Some x), w1)"
  shows "find_each [lo..<hi] body w = (Some (Some x), w1)"
  using assms
proof (induction "k - lo" arbitrary: lo)
  case 0
  then show ?case by (simp add: upt_conv_Cons run_simps ret_def)
next
  case (Suc d)
  have "[lo..<hi] = lo # [Suc lo..<hi]" "body lo w = (Some None, w)" using Suc.hyps(2) Suc.prems by (simp_all add: upt_conv_Cons)
  moreover have "find_each [Suc lo..<hi] body w = (Some (Some x), w1)"
    using Suc.hyps Suc.prems by simp
  ultimately show ?case by (simp add: run_simps)
qed

lemma find_each_miss:
  "\<forall>j \<in> set ks. body j w = (Some None, w) \<Longrightarrow> find_each ks body w = (Some None, w)"
  by (induction ks) (simp_all add: run_simps ret_def)

lemma directory_block_run:
  assumes l: "live w" and ok: "dir_ok (i, w)" and lb: "lb < unat (ino_block_count i)"
  shows "get_inode_data_block i lb w = (Some (bmap w i lb), w)" "bmap w i lb \<noteq> UFS_INVALID_BLOCK"
    "ufs_read_block (unat (bmap w i lb)) w = (Some (block_data (i, w) lb), w)"
    "directory_block i lb w = (Some (bmap w i lb, block_data (i, w) lb), w)"
proof -
  have m: "lb < UFS_MAX_FILE_BLOCKS" using lb dir_okD(3) [OF ok] by simp
  show g: "get_inode_data_block i lb w = (Some (bmap w i lb), w)"
    using get_inode_data_block_live [OF l dir_okD(1) [OF ok]] m by simp
  show nb: "bmap w i lb \<noteq> UFS_INVALID_BLOCK" using dir_okD(4) [OF ok m] lb by simp
  show r: "ufs_read_block (unat (bmap w i lb)) w = (Some (block_data (i, w) lb), w)"
    using in_data_regionD [OF bmap_region(1) [OF dir_okD(1) [OF ok] m nb]] l by (simp add: io_simps block_data_def)
  show "directory_block i lb w = (Some (bmap w i lb, block_data (i, w) lb), w)"
    using g nb r by (simp add: directory_block_def run_simps ret_def)
qed

section \<open>Lookup\<close>

lemma named_entry:
  assumes "names_unique es" and "k < length es" and "entry_named name (es ! k)"
  shows "entry_map es name = Some (unat (de_inode_number (es ! k)))"
  unfolding entry_map_Some [OF assms(1)] using assms(2,3) by blast

lemma dir_inv_read: "dir_inv n w \<Longrightarrow> read_inode n w = (Some (inode_at w n), w)"
  by (simp add: dir_inv_def io_simps)

lemma directory_find_run:
  assumes inv: "dir_inv n w"
  shows "directory_find n name w =
    (case dir_map n w name of None \<Rightarrow> (None, w\<lparr>errno := ENOENT\<rparr>) | Some m \<Rightarrow> (Some m, w))"
proof -
  define i where "i = inode_at w n"
  define s where "s = (i, w)"
  have l: "live w" and ok: "dir_ok (i, w)" using inv by (simp_all add: dir_inv_def file_at_def i_def)
  have blocks: "unat (ino_block_count i) = dir_blocks s" by (simp add: dir_blocks_def s_def)
  define body where "body = (\<lambda>logical.
       on_ok (attempt (get_inode_data_block i logical)
               (\<lambda>physical. require (physical \<noteq> UFS_INVALID_BLOCK) EIO (ret physical)) (fail EIO)) (\<lambda>physical.
       on_ok (ufs_read_block (unat physical)) (\<lambda>buf.
       ret (case first_from (\<lambda>slot. entry_named name (dirents buf ! slot)) 0 dirents_per_block of
              None \<Rightarrow> None | Some slot \<Rightarrow> Some (unat (de_inode_number (dirents buf ! slot)))))))"
  have run: "directory_find n name w = on_ok (find_each [0..<dir_blocks s] body)
     (\<lambda>found. case found of Some n \<Rightarrow> ret n | None \<Rightarrow> fail ENOENT) w"
    using dir_inv_read [OF inv] dir_okD(2) [OF ok]
    by (simp add: directory_find_def run_simps i_def [symmetric] blocks body_def)
  have b: "body lb w = (Some (case first_from (\<lambda>slot. entry_named name (dirents (block_data s lb) ! slot)) 0 8 of
              None \<Rightarrow> None | Some slot \<Rightarrow> Some (unat (de_inode_number (dirents (block_data s lb) ! slot)))), w)"
    if "lb < dir_blocks s" for lb
    using directory_block_run(1-3) [OF l ok that [folded blocks]] by (simp add: body_def run_simps ret_def s_def cong: option.case_cong)
  have map: "dir_map n w = entry_map (dir_entries s)" by (simp add: dir_map_def file_at_def i_def s_def)
  show ?thesis
  proof (cases rule: dir_entry_cases [where s = s and P = "entry_named name"])
    case none
    have "body lb w = (Some None, w)" if "lb < dir_blocks s" for lb
    proof -
      have "first_from (\<lambda>slot. entry_named name (dirents (block_data s lb) ! slot)) 0 8 = None"
        using none(1) [OF that] by (simp add: first_from_None)
      then show ?thesis using b [OF that] by simp
    qed
    then have "find_each [0..<dir_blocks s] body w = (Some None, w)" by (intro find_each_miss) simp
    moreover have "dir_map n w name = None" unfolding map entry_map_None using none(2) by blast
    ultimately show ?thesis unfolding run by (simp add: run_simps fail_def)
  next
    case (some lb k)
    have "body j w = (Some None, w)" if "j < lb" for j
    proof -
      have "first_from (\<lambda>slot. entry_named name (dirents (block_data s j) ! slot)) 0 8 = None"
        using some(6) [OF that] by (simp add: first_from_None)
      then show ?thesis using b [of j] that some(1) by simp
    qed
    moreover have "body lb w = (Some (Some (unat (de_inode_number (dir_entries s ! (lb * 8 + k))))), w)"
      using b [OF some(1)] some(2) dir_entries_slot [OF some(1,3)] by simp
    ultimately have "find_each [0..<dir_blocks s] body w = (Some (Some (unat (de_inode_number (dir_entries s ! (lb * 8 + k))))), w)"
      by (intro find_each_hit [where k = lb]) (use some(1) in auto)
    moreover have "dir_map n w name = Some (unat (de_inode_number (dir_entries s ! (lb * 8 + k))))"
      unfolding map using named_entry dir_okD(5) [OF ok] some(4,5) by (simp add: s_def)
    ultimately show ?thesis unfolding run by (simp add: run_simps ret_def)
  qed
qed

section \<open>Replacing one entry\<close>

lemma file_at_put:
  "live w \<Longrightarrow> in_data_region b \<Longrightarrow> length buf = 512 \<Longrightarrow> n < UFS_MAX_INODES \<Longrightarrow>
   file_at (put_blk b buf w) n = (inode_at w n, put_blk b buf w)"
  using in_data_regionD [of b] by (simp add: file_at_def)

lemma replace_entry:
  assumes inv: "dir_inv n w" and lb: "lb < dir_blocks (file_at w n)" and k: "k < 8" and d: "de_wf d"
    and u: "names_unique ((dir_entries (file_at w n))[lb * 8 + k := d])"
  defines "buf \<equiv> enc_dirents ((dirents (block_data (file_at w n) lb))[k := d])"
  defines "w1 \<equiv> put_blk (unat (bmap w (inode_at w n) lb)) buf w"
  shows "ufs_write_block (unat (bmap w (inode_at w n) lb)) buf w = (Some (), w1)" "dir_inv n w1"
    "dir_entries (file_at w1 n) = (dir_entries (file_at w n))[lb * 8 + k := d]"
    "others_kept n (file_at w n) (file_at w1 n)" "same_attrs (inode_at w1 n) (inode_at w n)"
proof -
  define i where "i = inode_at w n"
  have l: "live w" and ok: "dir_ok (i, w)" and n: "n < UFS_MAX_INODES"
    using inv by (simp_all add: dir_inv_def file_at_def i_def)
  have s: "file_at w n = (i, w)" by (simp add: file_at_def i_def)
  have blocks: "unat (ino_block_count i) = dir_blocks (i, w1)" "unat (ino_block_count i) = dir_blocks (i, w)"
    by (simp_all add: dir_blocks_def)
  have lb': "lb < unat (ino_block_count i)" using lb unfolding s blocks(2) .
  have m: "lb < UFS_MAX_FILE_BLOCKS" using lb' dir_okD(3) [OF ok] by simp
  note nb = directory_block_run(2) [OF l ok lb']
  note wf = dir_okD(1) [OF ok]
  note r = bmap_region [OF wf m nb]
  note dr = dirents_replaced [OF length_block_data d, of "(i, w)" lb k]
  have len: "length buf = 512" using dr(1) by (simp add: buf_def s)
  have w1: "w1 = put_blk (unat (bmap w i lb)) buf w" by (simp add: w1_def i_def)
  note pd = put_data_block [OF l wf m nb len, folded w1]
  have s1: "file_at w1 n = (i, w1)" using file_at_put [OF l r(1) len n] by (simp add: w1 i_def)
  then show "same_attrs (inode_at w1 n) (inode_at w n)" by (simp add: file_at_def i_def)
  show "ufs_write_block (unat (bmap w (inode_at w n) lb)) buf w = (Some (), w1)"
    using l len in_data_regionD [OF r(1)] by (simp add: io_simps w1 i_def)
  have st: "file_step n (i, w) (i, w1)" by (rule pd(1))
  show "others_kept n (file_at w n) (file_at w1 n)" using st by (simp add: s s1 file_step_def)
  have data: "block_data (i, w1) j = (if j = lb then buf else block_data (i, w) j)" if "j < dir_blocks (i, w)" for j
    using pd(3) [of j] that dir_okD(3,4) [OF ok] blocks by simp
  have es: "dir_entries (i, w1) = (dir_entries (i, w))[lb * 8 + k := d]"
  proof (rule nth_equalityI)
    show "length (dir_entries (i, w1)) = length ((dir_entries (i, w))[lb * 8 + k := d])"
      by (simp add: length_dir_entries dir_blocks_def)
    fix p assume "p < length (dir_entries (i, w1))"
    then have p: "p < dir_blocks (i, w) * 8" by (simp add: length_dir_entries dir_blocks_def)
    then have pb: "p div 8 < dir_blocks (i, w)" by (simp add: less_mult_imp_div_less)
    have now: "dir_entries (i, w1) ! p = dirents (block_data (i, w1) (p div 8)) ! (p mod 8)"
      by (rule nth_dir_entries) (use p in \<open>simp add: dir_blocks_def\<close>)
    have old: "dir_entries (i, w) ! p = dirents (block_data (i, w) (p div 8)) ! (p mod 8)"
      by (rule nth_dir_entries [OF p])
    show "dir_entries (i, w1) ! p = (dir_entries (i, w))[lb * 8 + k := d] ! p"
    proof (cases "p div 8 = lb")
      case True
      then have "p = lb * 8 + k \<longleftrightarrow> p mod 8 = k" using div_mult_mod_eq [of p 8] by linarith
      moreover have "dir_entries (i, w1) ! p = (dirents (block_data (i, w) lb))[k := d] ! (p mod 8)"
        unfolding now data [OF pb] using True dr(2) by (simp add: buf_def s)
      ultimately show ?thesis
        using old True p by (cases "p mod 8 = k") (simp_all add: length_dir_entries)
    next
      case False
      then have "p \<noteq> lb * 8 + k" using k by auto
      then show ?thesis unfolding now data [OF pb] using False old by simp
    qed
  qed
  then show "dir_entries (file_at w1 n) = (dir_entries (file_at w n))[lb * 8 + k := d]" by (simp add: s s1)
  have "dir_ok (i, w1)"
    using ok st u es pd(2,4) by (simp add: dir_ok_def file_step_def maps_exactly_def dir_blocks_def file_size_def lean_def s)
  then show "dir_inv n w1" using st n by (simp add: dir_inv_def s1 file_step_def others_kept_def)
qed

section \<open>Deletion\<close>

lemma directory_remove_run:
  assumes inv: "dir_inv n w"
  shows "case directory_remove n name w of (r, w1) \<Rightarrow>
    if dir_map n w name = None then r = None \<and> w1 = w\<lparr>errno := ENOENT\<rparr>
    else r = Some () \<and> dir_inv n w1 \<and> dir_map n w1 = (dir_map n w)(name := None) \<and>
      others_kept n (file_at w n) (file_at w1 n) \<and> same_attrs (inode_at w1 n) (inode_at w n)"
proof -
  define i where "i = inode_at w n"
  define s where "s = file_at w n"
  have s: "s = (i, w)" by (simp add: s_def file_at_def i_def)
  have l: "live w" and ok: "dir_ok (i, w)" using inv by (simp_all add: dir_inv_def file_at_def i_def)
  have blocks: "unat (ino_block_count i) = dir_blocks s" by (simp add: dir_blocks_def s)
  define body where "body = (\<lambda>logical.
       on_ok (directory_block i logical) (\<lambda>(physical, buf).
       (case first_from (\<lambda>slot. entry_named name (dirents buf ! slot)) 0 dirents_per_block of
          None \<Rightarrow> ret None
        | Some slot \<Rightarrow>
            on_ok (ufs_write_block (unat physical) (enc_dirents ((dirents buf)[slot := zero_dirent]))) (\<lambda>_.
            ret (Some ())))))"
  have run: "directory_remove n name w = on_ok (find_each [0..<dir_blocks s] body)
     (case_option (fail ENOENT) ret) w"
    using dir_inv_read [OF inv] dir_okD(2) [OF ok]
    by (simp add: directory_remove_def run_simps i_def [symmetric] blocks body_def)
  note block = directory_block_run(4) [OF l ok, unfolded blocks, folded s]
  have skip: "body lb w = (Some None, w)"
    if "lb < dir_blocks s" "\<And>k. k < 8 \<Longrightarrow> \<not> entry_named name (dirents (block_data s lb) ! k)" for lb
  proof -
    have "first_from (\<lambda>slot. entry_named name (dirents (block_data s lb) ! slot)) 0 8 = None"
      using that(2) by (simp add: first_from_None)
    then show ?thesis using block [OF that(1)] by (simp add: body_def run_simps ret_def)
  qed
  have map: "dir_map n w = entry_map (dir_entries s)" by (simp add: dir_map_def s_def)
  have u: "names_unique (dir_entries s)" using dir_okD(5) [OF ok] by (simp add: s)
  show ?thesis
  proof (cases rule: dir_entry_cases [where s = s and P = "entry_named name"])
    case none
    have "find_each [0..<dir_blocks s] body w = (Some None, w)" using skip none(1) by (intro find_each_miss) simp
    moreover have "dir_map n w name = None" unfolding map entry_map_None using none(2) by blast
    ultimately show ?thesis unfolding run by (simp add: run_simps fail_def)
  next
    case (some lb k)
    define w1 where "w1 = put_blk (unat (bmap w i lb)) (enc_dirents ((dirents (block_data s lb))[k := zero_dirent])) w"
    note del = entry_map_delete [OF u some(5,4) de_used_zero]
    note re = replace_entry [OF inv some(1) [unfolded s_def] some(3) de_wf_zero del(1) [unfolded s_def],
        folded i_def, folded s_def, folded w1_def]
    have "body lb w = (Some (Some ()), w1)"
      using block [OF some(1)] some(2) re(1) by (simp add: body_def run_simps ret_def)
    then have "find_each [0..<dir_blocks s] body w = (Some (Some ()), w1)"
      using skip some(1,6) by (intro find_each_hit [where k = lb]) auto
    then have "directory_remove n name w = (Some (), w1)" unfolding run by (simp add: run_simps ret_def)
    moreover have "dir_map n w name \<noteq> None" unfolding map using named_entry [OF u some(5,4)] by simp
    moreover have "dir_map n w1 = (dir_map n w)(name := None)" unfolding dir_map_def re(3) del(2) s_def [symmetric] ..
    ultimately show ?thesis using re(2,4,5) by (simp add: s_def i_def)
  qed
qed

section \<open>Insertion\<close>

text \<open>The directory grows by one block whose first slot is the new entry.\<close>

definition grown_inode :: "nat \<Rightarrow> ufs_inode \<Rightarrow> ufs_inode" where
  "grown_inode b i = i\<lparr>ino_direct := (ino_direct i)[unat (ino_block_count i) := of_nat b],
     ino_block_count := ino_block_count i + 1,
     ino_size := ucast (ino_block_count i + 1) * of_nat UFS_BLOCK_SIZE\<rparr>"

lemma new_block_entry:
  assumes inv: "dir_inv n w" and b: "in_data_region b" "\<not> block_used w b"
    and few: "dir_blocks (file_at w n) < UFS_DIRECT_BLOCKS" and d: "de_wf d"
    and u: "names_unique (dir_entries (file_at w n) @ d # replicate 7 zero_dirent)"
  defines "buf \<equiv> enc_dirents (d # replicate 7 zero_dirent)" and "j \<equiv> grown_inode b (inode_at w n)"
  defines "w1 \<equiv> put_inode n j (put_blk b buf (grab_block b w))"
  shows "ufs_write_block b buf (grab_block b w) = (Some (), put_blk b buf (grab_block b w))"
    "write_inode n j (put_blk b buf (grab_block b w)) = (Some (), w1)" "dir_inv n w1"
    "dir_entries (file_at w1 n) = dir_entries (file_at w n) @ d # replicate 7 zero_dirent"
    "others_kept n (file_at w n) (file_at w1 n)" "same_attrs (inode_at w1 n) (inode_at w n)"
proof -
  define i where "i = inode_at w n"
  define k where "k = unat (ino_block_count i)"
  define i1 where "i1 = set_direct k (of_nat b) i"
  define w2 where "w2 = put_blk b buf (grab_block b w)"
  have l: "live w" and ok: "dir_ok (i, w)" and n: "n < UFS_MAX_INODES"
    using inv by (simp_all add: dir_inv_def file_at_def i_def)
  have s: "file_at w n = (i, w)" by (simp add: file_at_def i_def)
  note wf = dir_okD(1) [OF ok]
  note bb = in_data_regionD [OF b(1)]
  note ub = unat_block [OF bb(2)]
  have k: "k < 8" "k < UFS_MAX_FILE_BLOCKS" using few by (simp_all add: s dir_blocks_def k_def)
  have new: "de_wf e" if "e \<in> set (d # replicate 7 zero_dirent)" for e using that d by auto
  have buf: "length buf = 512" "dirents buf = d # replicate 7 zero_dirent"
    using enc_dirents_facts [of "d # replicate 7 zero_dirent"] new by (simp_all add: buf_def)
  have rd: "ready (Data k) (i, w)" using dir_okD(4) [OF ok k(2)] k by (simp add: ready_def bmap_def k_def)
  have cl: "claim_slot (Data k) b (i, w) = (i1, grab_block b w)"
    using k by (simp add: claim_slot_def i1_def)
  note g = grown_claim [OF l wf rd b, unfolded cl]
  have st0: "file_step n (i, w) (i1, grab_block b w)" by (rule grown_file_step [OF g(1) wf])
  have l0: "live (grab_block b w)" and wf0: "file_wf (i1, grab_block b w)"
    using st0 by (simp_all add: file_step_def others_kept_def)
  have bk: "bmap (grab_block b w) i1 k = of_nat b" using g(2) by (simp add: bmap_def)
  note pd = put_data_block [OF l0 wf0 k(2), unfolded bk ub(1), OF ub(2) buf(1), folded w2_def]
  have st1: "file_step n (i, w) (i1, w2)" using file_step_trans [OF st0 pd(1)] .
  have l1: "live w2" and wf1: "file_wf (i1, w2)" and ok1: "others_kept n (i, w) (i1, w2)"
    using st1 by (simp_all add: file_step_def others_kept_def)
  have jj: "same_pointers j i1" "ino_wf j"
    using file_wf_ino [OF wf] k by (simp_all add: j_def grown_inode_def i1_def set_direct_def same_pointers_def ino_wf_def
        i_def [symmetric] k_def [symmetric])
  note sf = same_pointers_file [OF wf1 jj]
  have w1: "w1 = put_inode n j w2" by (simp add: w1_def w2_def)
  show "ufs_write_block b buf (grab_block b w) = (Some (), put_blk b buf (grab_block b w))"
    using l0 buf bb by (simp add: io_simps)
  show "write_inode n j (put_blk b buf (grab_block b w)) = (Some (), w1)"
    using l1 n jj(2) by (simp add: io_simps w1 w2_def)
  have s1: "file_at w1 n = (j, w1)" using l1 n jj(2) by (simp add: file_at_def w1)
  then show "same_attrs (inode_at w1 n) (inode_at w n)" by (simp add: file_at_def j_def grown_inode_def same_attrs_def)
  have "others_kept n (i, w) (j, w2)" using ok1 sf(2) by (simp add: others_kept_def)
  then have ok2: "others_kept n (i, w) (j, w1)" unfolding w1 by (rule put_inode_others [OF _ sf(1) n jj(2)])
  then show "others_kept n (file_at w n) (file_at w1 n)" by (simp add: s s1)
  have map: "bmap w1 j lb = (if lb = k then of_nat b else bmap w i lb)" if lb: "lb < UFS_MAX_FILE_BLOCKS" for lb
  proof -
    have "bmap w1 j lb = bmap (grab_block b w) i1 lb"
      unfolding w1 using put_inode_bmap [OF sf(1) l1 jj(2) n lb] sf(3) [OF lb] pd(2) [OF lb] by simp
    also have "\<dots> = (if lb = k then of_nat b else bmap w i lb)"
      using bk grownD(7) [OF g(1), of "Data lb"] lb by (simp add: bmap_def)
    finally show ?thesis .
  qed
  have count: "unat (ino_block_count j) = Suc k"
    using k by (simp add: j_def grown_inode_def k_def i_def [symmetric] unat_word_ariths)
  have db: "dir_blocks (j, w1) = Suc k" "dir_blocks (i, w) = k" using count by (simp_all add: dir_blocks_def k_def)
  have data: "block_data (j, w1) lb = (if lb = k then buf else block_data (i, w) lb)" if lb: "lb < Suc k" for lb
  proof -
    have m: "lb < UFS_MAX_FILE_BLOCKS" using lb k by simp
    have nb: "bmap w2 j lb \<noteq> UFS_INVALID_BLOCK"
      using map [OF m] put_inode_bmap [OF sf(1) l1 jj(2) n m] dir_okD(4) [OF ok m] lb ub(2) unfolding w1 k_def by (auto split: if_splits)
    have "block_data (j, w1) lb = block_data (i1, w2) lb"
      unfolding w1 using put_inode_data [OF sf(1) l1 jj(2) n m nb] sf(3) [OF m] by (simp add: block_data_def)
    then have now: "block_data (j, w1) lb = (if lb = k then buf else block_data (i1, grab_block b w) lb)"
      using pd(3) [OF m] pd(2) [OF m] sf(3) [OF m] nb by simp
    have "block_data (i1, grab_block b w) lb = block_data (i, w) lb" if "lb \<noteq> k"
    proof -
      have old: "bmap w i lb \<noteq> UFS_INVALID_BLOCK" using dir_okD(4) [OF ok m] lb that by (simp add: k_def)
      note r = bmap_region [OF wf m old]
      have "bmap (grab_block b w) i1 lb = bmap w i lb" using grownD(7) [OF g(1), of "Data lb"] that m by (simp add: bmap_def)
      then show ?thesis using grownD(9) [OF g(1) r(1)] r(2,4) by (simp add: block_data_def)
    qed
    then show ?thesis using now by simp
  qed
  have es: "dir_entries (j, w1) = dir_entries (i, w) @ d # replicate 7 zero_dirent"
  proof -
    have "map (\<lambda>lb. dirents (block_data (j, w1) lb)) [0..<k] = map (\<lambda>lb. dirents (block_data (i, w) lb)) [0..<k]"
      using data by simp
    then have "concat (map (\<lambda>lb. dirents (block_data (j, w1) lb)) [0..<k]) = concat (map (\<lambda>lb. dirents (block_data (i, w) lb)) [0..<k])"
      by (rule arg_cong)
    then show ?thesis using data [of k] by (simp add: dir_entries_def db buf(2))
  qed
  then show "dir_entries (file_at w1 n) = dir_entries (file_at w n) @ d # replicate 7 zero_dirent" by (simp add: s s1)
  have exact: "maps_exactly (Suc k) (j, w1)"
    unfolding maps_exactly_def using map dir_okD(4) [OF ok] ub(2) by (auto simp: k_def)
  have "file_wf (j, w1)" unfolding w1 by (rule put_inode_file(1) [OF sf(1) l1 jj(2) n])
  moreover have "ino_type j = UFS_TYPE_DIR" using dir_okD(2) [OF ok] by (simp add: j_def grown_inode_def i_def)
  moreover have "file_size (j, w1) = Suc k * 512"
  proof -
    have bc: "ino_block_count j = of_nat (Suc k)" unfolding count [symmetric] by simp
    have "Suc k \<in> {1..8}" using k by simp
    then have "unat (ucast (of_nat (Suc k) :: u32) * 512 :: u64) = Suc k * 512"
      by (simp add: unat_word_ariths unsigned_ucast_eq take_bit_word_eq_self unsigned_of_nat take_bit_nat_eq_self)
    moreover have "ino_size j = ucast (ino_block_count j) * 512" by (simp add: j_def grown_inode_def)
    ultimately show ?thesis unfolding file_size_def bc [symmetric] by (simp only: bc fst_conv)
  qed
  ultimately have "dir_ok (j, w1)" using exact es u k by (simp add: dir_ok_def db lean_def s)
  then show "dir_inv n w1" using ok2 n by (simp add: dir_inv_def s1 others_kept_def)
qed

definition add_error :: "nat \<Rightarrow> string \<Rightarrow> u32 \<Rightarrow> world \<Rightarrow> errno option" where
  "add_error n name type w =
     (if name = [] \<or> UFS_MAX_NAME < length name \<or> type \<notin> {UFS_TYPE_FILE, UFS_TYPE_DIR, UFS_TYPE_SYMLINK} then Some EINVAL
      else if dir_map n w name \<noteq> None then Some EEXIST
      else if (\<exists>d \<in> set (dir_entries (file_at w n)). de_used d = 0) \<or> dir_blocks (file_at w n) < UFS_DIRECT_BLOCKS \<and> \<not> full w
      then None else Some ENOSPC)"

lemma fill_entry:
  assumes u: "names_unique es" and none: "entry_map es name = None" and name: "good_name name" and t: "target < 2 ^ 32"
    and k: "k < length es" "de_used (es ! k) = 0"
  shows "names_unique (es[k := new_dirent name target type])"
    "entry_map (es[k := new_dirent name target type]) = (entry_map es)(name \<mapsto> target)"
  using entry_map_insert [OF u k none new_dirent_named(1) [OF name]] new_dirent_named(3) [OF name t] by simp_all

lemma append_entry:
  assumes u: "names_unique es" and none: "entry_map es name = None" and name: "good_name name" and t: "target < 2 ^ 32"
  shows "names_unique (es @ new_dirent name target type # replicate 7 zero_dirent)"
    "entry_map (es @ new_dirent name target type # replicate 7 zero_dirent) = (entry_map es)(name \<mapsto> target)"
proof -
  let ?fs = "es @ replicate 8 zero_dirent"
  have a: "entry_map ?fs = entry_map es" "names_unique ?fs = names_unique es"
    by (rule entry_map_append_unused; auto)+
  have upd: "?fs[length es := d] = es @ d # replicate 7 zero_dirent" for d
    by (simp add: list_update_append numeral_eq_Suc)
  have "?fs ! length es = zero_dirent" by (simp add: nth_append)
  then have "names_unique (?fs[length es := new_dirent name target type])"
    "entry_map (?fs[length es := new_dirent name target type]) = (entry_map ?fs)(name \<mapsto> target)"
    using fill_entry [of ?fs name target "length es" type] u none name t a by simp_all
  then show "names_unique (es @ new_dirent name target type # replicate 7 zero_dirent)"
    "entry_map (es @ new_dirent name target type # replicate 7 zero_dirent) = (entry_map es)(name \<mapsto> target)"
    by (simp_all only: upd a)
qed

lemma directory_add_run:
  assumes inv: "dir_inv n w" and nul: "CHR 0x00 \<notin> set name" and t: "target < 2 ^ 32"
  shows "case directory_add n name target type w of (r, w1) \<Rightarrow>
    (case add_error n name type w of
       Some e \<Rightarrow> r = None \<and> w1 = w\<lparr>errno := e\<rparr>
     | None \<Rightarrow> r = Some () \<and> dir_inv n w1 \<and> dir_map n w1 = (dir_map n w)(name \<mapsto> target) \<and>
         others_kept n (file_at w n) (file_at w1 n) \<and> same_attrs (inode_at w1 n) (inode_at w n))"
proof (cases "name = [] \<or> UFS_MAX_NAME < length name \<or> type \<notin> {UFS_TYPE_FILE, UFS_TYPE_DIR, UFS_TYPE_SYMLINK}")
  case True
  then show ?thesis by (auto simp: directory_add_def add_error_def require_def fail_def)
next
  case False
  then have good: "good_name name" using nul by (simp add: good_name_def)
  have args: "\<not> (name = [] \<or> UFS_MAX_NAME < length name \<or>
       (type \<noteq> UFS_TYPE_FILE \<and> type \<noteq> UFS_TYPE_DIR \<and> type \<noteq> UFS_TYPE_SYMLINK))" using False by simp
  define i where "i = inode_at w n"
  define s where "s = file_at w n"
  have s: "s = (i, w)" by (simp add: s_def file_at_def i_def)
  have l: "live w" and ok: "dir_ok (i, w)" using inv by (simp_all add: dir_inv_def file_at_def i_def)
  show ?thesis
  proof (cases "dir_map n w name")
    case (Some m)
    then have "directory_add n name target type w = (None, w\<lparr>errno := EEXIST\<rparr>)"
      using directory_find_run [OF inv, of name] dir_inv_read [OF inv] dir_okD(2) [OF ok] args
      by (simp add: directory_add_def run_simps fail_def i_def)
    then show ?thesis using Some False by (simp add: add_error_def)
  next
    case None
    define v where "v = w\<lparr>errno := ENOENT\<rparr>"
    have inv': "dir_inv n v" "file_at v n = (i, v)" "dir_ok (i, v)" "live v"
      using inv ok l by (simp_all add: v_def i_def)
    have iv: "inode_at v n = i" by (simp add: v_def i_def)
    have sv: "(i, v) = file_at v n" "dir_entries (i, v) = dir_entries s" "dir_blocks (i, v) = dir_blocks s"
      using inv'(2) by (simp_all add: v_def s dir_blocks_def)
    have blocks: "unat (ino_block_count i) = dir_blocks s" by (simp add: dir_blocks_def s)
    define body where "body = (\<lambda>logical.
       on_ok (directory_block i logical) (\<lambda>(physical, buf).
       (case first_from (\<lambda>slot. de_used (dirents buf ! slot) = 0) 0 dirents_per_block of
          None \<Rightarrow> ret None
        | Some slot \<Rightarrow>
            on_ok (ufs_write_block (unat physical)
              (enc_dirents ((dirents buf)[slot := new_dirent name target type]))) (\<lambda>_.
            ret (Some ())))))"
    define grow where "grow = on_ok allocate_data_block (\<lambda>physical.
          attempt (ufs_write_block physical
              (enc_dirents (new_dirent name target type # replicate (dirents_per_block - 1) zero_dirent)))
            (\<lambda>_. attempt (write_inode n (grown_inode physical i)) ret (discard (free_data_block physical) fail_same))
            (discard (free_data_block physical) fail_same))"
    have run: "directory_add n name target type w = on_ok (find_each [0..<dir_blocks s] body)
       (case_option (require (dir_blocks s < UFS_DIRECT_BLOCKS) ENOSPC grow) ret) v"
      using directory_find_run [OF inv, of name] dir_inv_read [OF inv] dir_okD(2) [OF ok] args None
      by (simp add: directory_add_def run_simps asking_def i_def [symmetric] blocks body_def grow_def grown_inode_def v_def)
    have map: "entry_map (dir_entries s) = dir_map n w" by (simp add: dir_map_def s_def)
    have u: "names_unique (dir_entries s)" using dir_okD(5) [OF ok] by (simp add: s)
    have d: "de_wf (new_dirent name target type)" by (rule new_dirent_named(2) [OF good])
    note absent = None [folded map]
    have block: "directory_block i lb v = (Some (bmap v i lb, block_data (i, v) lb), v)" if "lb < dir_blocks s" for lb
      by (rule directory_block_run(4) [OF inv'(4,3)]) (simp add: that blocks)
    have skip: "body lb v = (Some None, v)"
      if "lb < dir_blocks s" "\<And>k. k < 8 \<Longrightarrow> \<not> de_used (dirents (block_data (i, v) lb) ! k) = 0" for lb
    proof -
      have "first_from (\<lambda>slot. de_used (dirents (block_data (i, v) lb) ! slot) = 0) 0 8 = None"
        using that(2) by (simp add: first_from_None)
      then show ?thesis using block [OF that(1)] by (simp add: body_def run_simps ret_def)
    qed
    have fin: ?thesis if "directory_add n name target type w = (Some (), w1)" "dir_inv n w1"
      "entry_map (dir_entries (file_at w1 n)) = (dir_map n w)(name \<mapsto> target)" "others_kept n (file_at v n) (file_at w1 n)"
      "same_attrs (inode_at w1 n) (inode_at v n)" "add_error n name type w = None" for w1
      using that by (simp add: dir_map_def v_def) (simp add: file_at_def)
    show ?thesis
    proof (cases rule: dir_entry_cases [where s = "(i, v)" and P = "\<lambda>d. de_used d = 0"])
      case (some lb k)
      define w1 where "w1 = put_blk (unat (bmap v i lb)) (enc_dirents ((dirents (block_data (i, v) lb))[k := new_dirent name target type])) v"
      note fill = fill_entry [OF u absent good t some(5,4) [unfolded sv(2)], of type]
      note re = replace_entry [OF inv'(1), unfolded inv'(2) iv, OF some(1,3) d, unfolded sv(2), OF fill(1), folded w1_def]
      have lb: "lb < dir_blocks s" using some(1) by (simp add: sv(3))
      have "body lb v = (Some (Some ()), w1)"
        using block [OF lb] some(2) re(1) by (simp add: body_def run_simps ret_def)
      then have "find_each [0..<dir_blocks s] body v = (Some (Some ()), w1)"
        using skip some(6) lb by (intro find_each_hit [where k = lb]) auto
      then have "directory_add n name target type w = (Some (), w1)" unfolding run by (simp add: run_simps ret_def)
      moreover have "\<exists>d \<in> set (dir_entries s). de_used d = 0"
        using some(4,5) nth_mem unfolding sv(2) by blast
      then have "add_error n name type w = None" using False None by (simp add: add_error_def s_def)
      ultimately show ?thesis using fin [OF _ re(2)] re(3-5) fill(2) by (simp add: map inv'(2) iv)
    next
      case none
      have full_es: "\<not> (\<exists>d \<in> set (dir_entries s). de_used d = 0)"
        using none(2) unfolding sv(2) by (metis in_set_conv_nth)
      have "find_each [0..<dir_blocks s] body v = (Some None, v)"
        using skip none(1) by (intro find_each_miss) (simp add: sv(3))
      then have run: "directory_add n name target type w = require (dir_blocks s < UFS_DIRECT_BLOCKS) ENOSPC grow v"
        unfolding run by (simp add: run_simps)
      have vw: "v\<lparr>errno := e\<rparr> = w\<lparr>errno := e\<rparr>" for e by (simp add: v_def)
      show ?thesis
      proof (cases "dir_blocks s < UFS_DIRECT_BLOCKS")
        case small: True
        from inv'(4) show ?thesis
        proof (cases rule: allocate_cases)
          case full
          then have "directory_add n name target type w = (None, w\<lparr>errno := ENOSPC\<rparr>)"
            unfolding run using small by (simp add: grow_def run_simps vw)
          then show ?thesis using full(2) False None full_es by (simp add: add_error_def s_def v_def)
        next
          case (block b)
          note app = append_entry [OF u absent good t, of type]
          note nb = new_block_entry [OF inv'(1) block(2,3), unfolded inv'(2) iv sv(2,3), OF small d app(1)]
          define w1 where "w1 = put_inode n (grown_inode b i) (put_blk b
            (enc_dirents (new_dirent name target type # replicate 7 zero_dirent)) (grab_block b v))"
          note nb = nb [folded w1_def]
          have "directory_add n name target type w = (Some (), w1)"
            unfolding run using small block(1) nb(1,2) by (simp add: grow_def run_simps ret_def)
          moreover have "add_error n name type w = None"
            using False None small block(2,3) by (auto simp: add_error_def s_def full_def v_def)
          ultimately show ?thesis using fin [OF _ nb(3)] nb(4-6) app(2) by (simp add: map inv'(2) iv)
        qed
      next
        case big: False
        then have "directory_add n name target type w = (None, w\<lparr>errno := ENOSPC\<rparr>)"
          unfolding run using big by (simp add: fail_def vw)
        then show ?thesis using False None full_es big by (simp add: add_error_def s_def)
      qed
    qed
  qed
qed

end
