(* ===== verification/Ufs_Names.thy ===== *)
theory Ufs_Names
  imports Ufs_Dirmap
begin

text \<open>
  What the directory operations promise: their specifications as properties, the emptiness test, and the
  directory as an instance of the locale \<open>name_map\<close>, which gives the effect of whole histories of
  insertions and deletions.
\<close>

section \<open>Emptiness\<close>

lemma no_names: "entry_map es = Map.empty \<longleftrightarrow> (\<forall>d \<in> set es. de_used d = 0)"
proof
  assume e: "entry_map es = Map.empty"
  show "\<forall>d \<in> set es. de_used d = 0"
  proof
    fix d assume "d \<in> set es"
    then obtain k where k: "k < length es" "d = es ! k" by (auto simp: in_set_conv_nth)
    have "entry_map es (c_string (de_name d)) = None" using e by simp
    then have "\<not> entry_named (c_string (de_name d)) (es ! k)" using k(1) by (simp add: entry_map_None)
    then show "de_used d = 0" using k(2) by (simp add: entry_named_def)
  qed
next
  assume "\<forall>d \<in> set es. de_used d = 0"
  then show "entry_map es = Map.empty" by (auto simp: fun_eq_iff entry_map_None unused_not_named)
qed

lemma directory_is_empty_run:
  assumes inv: "dir_inv n w"
  shows "directory_is_empty n w = (Some (dir_map n w = Map.empty), w)"
proof -
  define i where "i = inode_at w n"
  have l: "live w" and ok: "dir_ok (i, w)" using inv by (simp_all add: dir_inv_def file_at_def i_def)
  have blocks: "unat (ino_block_count i) = dir_blocks (i, w)" by (simp add: dir_blocks_def)
  define body where "body = (\<lambda>logical.
       on_ok (directory_block i logical) (\<lambda>(physical, buf).
       ret (if \<exists>d \<in> set (dirents buf). de_used d \<noteq> 0 then Some () else None)))"
  have run: "directory_is_empty n w = on_ok (find_each [0..<dir_blocks (i, w)] body) (\<lambda>used. ret (used = None)) w"
    using dir_inv_read [OF inv] dir_okD(2) [OF ok]
    by (simp add: directory_is_empty_def run_simps i_def [symmetric] blocks body_def)
  have b: "body lb w = (Some (if \<exists>d \<in> set (dirents (block_data (i, w) lb)). de_used d \<noteq> 0 then Some () else None), w)"
    if "lb < dir_blocks (i, w)" for lb
    using directory_block_run(4) [OF l ok that [folded blocks]] by (simp add: body_def run_simps ret_def)
  have map: "dir_map n w = Map.empty \<longleftrightarrow> (\<forall>d \<in> set (dir_entries (i, w)). de_used d = 0)"
    by (simp add: dir_map_def file_at_def i_def no_names)
  show ?thesis
  proof (cases rule: dir_entry_cases [where s = "(i, w)" and P = "\<lambda>d. de_used d \<noteq> 0"])
    case none
    have "find_each [0..<dir_blocks (i, w)] body w = (Some None, w)"
      using b none(1) by (intro find_each_miss) (auto simp: in_set_conv_nth)
    moreover have "dir_map n w = Map.empty" unfolding map using none(2) by (auto simp: in_set_conv_nth)
    ultimately show ?thesis unfolding run by (simp add: run_simps ret_def)
  next
    case (some lb k)
    have e: "dirents (block_data (i, w) lb) ! k \<in> set (dirents (block_data (i, w) lb))"
      "de_used (dirents (block_data (i, w) lb) ! k) \<noteq> 0"
      using some(3,4) dir_entries_slot [OF some(1,3)] by simp_all
    have "body lb w = (Some (Some ()), w)" using b [OF some(1)] e by auto
    moreover have "body j w = (Some None, w)" if "j < lb" for j
      using b [of j] some(1,6) that by (auto simp: in_set_conv_nth)
    ultimately have "find_each [0..<dir_blocks (i, w)] body w = (Some (Some ()), w)"
      using some(1) by (intro find_each_hit [where k = lb]) auto
    moreover have "dir_map n w \<noteq> Map.empty" unfolding map using some(4,5) nth_mem by blast
    ultimately show ?thesis unfolding run by (simp add: run_simps ret_def)
  qed
qed

section \<open>Directories as name maps\<close>

lemma file_at_fst: "fst (file_at w n) = inode_at w n"
  by (simp add: file_at_def)

interpretation directory: name_map "dir_inv n" "dir_map n" "\<lambda>name target. CHR 0x00 \<notin> set name \<and> target < 2 ^ 32"
  "directory_find n" "\<lambda>name target. directory_add n name target type" "directory_remove n" for n type
proof
  fix w x assume inv: "dir_inv n w"
  show "fst (directory_find n x w) = dir_map n w x"
    "dir_inv n (snd (directory_find n x w)) \<and> dir_map n (snd (directory_find n x w)) = dir_map n w"
    unfolding directory_find_run [OF inv] using inv by (auto split: option.splits)
next
  fix w x v u w1 assume inv: "dir_inv n w" and p: "CHR 0x00 \<notin> set x \<and> v < 2 ^ 32"
    and run: "directory_add n x v type w = (Some u, w1)"
  show "dir_inv n w1 \<and> dir_map n w x = None \<and> dir_map n w1 = (dir_map n w)(x \<mapsto> v)"
    using directory_add_run [OF inv, of x v type] p
    by (auto simp: run split: option.splits) (auto simp: add_error_def split: if_splits)
next
  fix w x v w1 assume inv: "dir_inv n w" and p: "CHR 0x00 \<notin> set x \<and> v < 2 ^ 32"
    and run: "directory_add n x v type w = (None, w1)"
  show "dir_inv n w1 \<and> dir_map n w1 = dir_map n w"
    using directory_add_run [OF inv, of x v type] p inv by (auto simp: run split: option.splits)
next
  fix w x u w1 assume inv: "dir_inv n w" and run: "directory_remove n x w = (Some u, w1)"
  show "dir_inv n w1 \<and> dir_map n w x \<noteq> None \<and> dir_map n w1 = (dir_map n w)(x := None)"
    using directory_remove_run [OF inv, of x] by (auto simp: run split: if_splits)
next
  fix w x w1 assume inv: "dir_inv n w" and run: "directory_remove n x w = (None, w1)"
  show "dir_inv n w1 \<and> dir_map n w x = None \<and> dir_map n w1 = dir_map n w"
    using directory_remove_run [OF inv, of x] inv by (auto simp: run split: if_splits)
qed

definition sample_dir :: world where
  "sample_dir = put_inode 0 (ufs_init_inode UFS_TYPE_DIR) blank_world"

lemma sample_dir_facts: "dir_inv 0 sample_dir" "dir_map 0 sample_dir = Map.empty" "dir_entries (file_at sample_dir 0) = []"
  "dir_blocks (file_at sample_dir 0) = 0"
proof -
  have l: "live sample_dir" "inode_at sample_dir 0 = ufs_init_inode UFS_TYPE_DIR"
    by (simp_all add: sample_dir_def)
  have z: "dir_blocks (file_at sample_dir 0) = 0" by (simp add: dir_blocks_def file_at_def l ufs_init_inode_def)
  then show "dir_blocks (file_at sample_dir 0) = 0" .
  show es: "dir_entries (file_at sample_dir 0) = []" by (simp add: dir_entries_def z)
  then show "dir_map 0 sample_dir = Map.empty" by (simp add: dir_map_def entry_map_def fun_eq_iff)
  have "maps_exactly 0 (file_at sample_dir 0)" "lean (file_at sample_dir 0)"
    using file_ok_init [of UFS_TYPE_DIR sample_dir] by (simp_all add: file_at_def l file_ok_def file_size_def blocks_needed_bounds ufs_init_inode_def)
  then show "dir_inv 0 sample_dir"
    unfolding dir_inv_def dir_ok_def z es using l by (simp add: file_at_def file_size_def names_unique_def) (simp add: ufs_init_inode_def)
qed

lemma sample_not_full: "\<not> full sample_dir"
proof -
  have "\<not> block_used sample_dir 2186" using blank_unused [of 2186] by (simp add: sample_dir_def)
  moreover have "in_data_region 2186" by (simp add: in_data_region_def)
  ultimately show ?thesis unfolding full_def by blast
qed

section \<open>Properties\<close>

text \<open>\<open>directory_find\<close> is lookup: on a directory with its invariant it returns the inode number of the
  entry with the name, whichever of its blocks and slots holds it, and ENOENT when there is none. The
  image is not changed.\<close>

lemma directory_find_spec:
  assumes "dir_inv n w"
  shows "directory_find n name w =
    (case dir_map n w name of None \<Rightarrow> (None, w\<lparr>errno := ENOENT\<rparr>) | Some m \<Rightarrow> (Some m, w))"
  by (rule directory_find_run [OF assms])

lemma directory_find_spec_witness: "directory_find 0 ''a'' sample_dir = (None, sample_dir\<lparr>errno := ENOENT\<rparr>)"
  using directory_find_spec [OF sample_dir_facts(1), of "''a''"] by (simp add: sample_dir_facts)

text \<open>C33: \<open>directory_add\<close> is insertion, with its errors. EINVAL for an empty or too long name or an unknown
  type, EEXIST for a name that is there, ENOSPC when every slot is in use and either all eight blocks
  exist or the data region is full; in these cases nothing changes but \<open>errno\<close>. Otherwise it succeeds, by
  filling the first unused slot or by attaching a new block: the directory maps the name to the inode and
  every other name as before, has its invariant and its attributes, and blocks and inodes of other files are kept.\<close>

theorem directory_add_spec:
  assumes "dir_inv n w" and "CHR 0x00 \<notin> set name" and "target < 2 ^ 32"
  shows "case directory_add n name target type w of (r, w1) \<Rightarrow>
    (case add_error n name type w of
       Some e \<Rightarrow> r = None \<and> w1 = w\<lparr>errno := e\<rparr>
     | None \<Rightarrow> r = Some () \<and> dir_inv n w1 \<and> dir_map n w1 = (dir_map n w)(name \<mapsto> target) \<and>
         others_kept n (file_at w n) (file_at w1 n) \<and> same_attrs (inode_at w1 n) (inode_at w n))"
  by (rule directory_add_run [OF assms])

theorem directory_add_spec_witness:
  "case directory_add 0 ''a'' 5 UFS_TYPE_FILE sample_dir of (r, w1) \<Rightarrow> r = Some () \<and> dir_map 0 w1 = [''a'' \<mapsto> 5]"
proof -
  have "add_error 0 ''a'' UFS_TYPE_FILE sample_dir = None"
    using sample_not_full by (simp add: add_error_def sample_dir_facts)
  then show ?thesis
    using directory_add_spec [OF sample_dir_facts(1), of "''a''" 5 UFS_TYPE_FILE] by (auto simp: sample_dir_facts)
qed

text \<open>\<open>directory_remove\<close> is deletion: ENOENT and no change for a name that is not there; otherwise the
  directory maps every other name as before and the name to nothing, has its invariant and its attributes, and blocks
  and inodes of other files are kept.\<close>

lemma directory_remove_spec:
  assumes "dir_inv n w"
  shows "case directory_remove n name w of (r, w1) \<Rightarrow>
    if dir_map n w name = None then r = None \<and> w1 = w\<lparr>errno := ENOENT\<rparr>
    else r = Some () \<and> dir_inv n w1 \<and> dir_map n w1 = (dir_map n w)(name := None) \<and>
      others_kept n (file_at w n) (file_at w1 n) \<and> same_attrs (inode_at w1 n) (inode_at w n)"
  by (rule directory_remove_run [OF assms])

lemma directory_remove_spec_witness: "fst (directory_remove 0 ''a'' sample_dir) = None"
  using directory_remove_spec [OF sample_dir_facts(1), of "''a''"] by (auto simp: sample_dir_facts split: prod.splits)

text \<open>C22: Directories refine maps. Any history of additions and removals in a directory ends in a directory
  with its invariant whose map is what the successful steps make of the first map; a removal succeeds
  exactly when the name is there at that moment, and no addition succeeds for a name that is there.\<close>

theorem directory_history_refines:
  assumes "dir_inv n w" and "list_all (step_proper (\<lambda>name target. CHR 0x00 \<notin> set name \<and> target < 2 ^ 32)) steps"
    and "run_steps (\<lambda>name target. directory_add n name target type) (directory_remove n) steps w = (oks, w1)"
  shows "length oks = length steps \<and> dir_inv n w1 \<and> apply_steps (zip steps oks) (dir_map n w) = Some (dir_map n w1)"
  by (rule directory.run_steps_refine [OF assms])

theorem directory_history_refines_witness:
  "case run_steps (\<lambda>name target. directory_add 0 name target 1) (directory_remove 0)
      [Link ''a'' 5, Link ''a'' 6, Unlink ''b'', Unlink ''a''] sample_dir of
    (oks, w1) \<Rightarrow> dir_inv 0 w1 \<and> dir_map 0 w1 = Map.empty \<and> \<not> oks ! 2"
proof -
  obtain oks w1 where run: "run_steps (\<lambda>name target. directory_add 0 name target 1) (directory_remove 0)
      [Link ''a'' 5, Link ''a'' 6, Unlink ''b'', Unlink ''a''] sample_dir = (oks, w1)" by fastforce
  note spec = directory_history_refines [OF sample_dir_facts(1) _ run]
  then have len: "length oks = 4" and inv: "dir_inv 0 w1" by simp_all
  then obtain p q r s where "oks = [p, q, r, s]"
    by (auto simp: numeral_eq_Suc length_Suc_conv)
  moreover from this have "dir_map 0 w1 = Map.empty" "\<not> r"
    using spec by (auto simp: sample_dir_facts split: if_splits)
  ultimately show ?thesis using inv by (simp add: run del: run_steps.simps)
qed

end
