(* ===== verification/Ufs_Walk.thy ===== *)
theory Ufs_Walk
  imports Ufs_Names Ufs_Resolve
begin

text \<open>
  Path resolution against a specification. \<open>scan\<close> goes through a list of names by lookups in directory
  maps until it ends or meets a symbolic link, \<open>walk\<close> repeats it with the expanded path, at most 39
  times. On a well-formed tree \<open>resolve_path_ex\<close>, which works inside strings, computes \<open>walk\<close>; in
  particular it stops at every cycle of links.
\<close>

section \<open>Well-formed trees\<close>

definition searchable :: "world \<Rightarrow> ufs_inode \<Rightarrow> bool" where
  "searchable w i \<longleftrightarrow> euid w = 0 \<or> bit (ino_mode i) (access_class i (euid w) (egid w) (sup_groups w))"

definition link_ok :: "ufs_inode \<times> world \<Rightarrow> bool" where
  "link_ok s \<longleftrightarrow> file_wf s \<and> 0 < file_size s \<and> file_size s \<le> UFS_MAX_PATH \<and> ino_block_count (fst s) \<noteq> 0 \<and>
     bmap (snd s) (fst s) 0 \<noteq> UFS_INVALID_BLOCK"

definition link_text :: "world \<Rightarrow> nat \<Rightarrow> string" where
  "link_text w m = c_string (take (file_size (file_at w m)) (block_data (file_at w m) 0))"

definition is_dir :: "world \<Rightarrow> nat \<Rightarrow> bool" where
  "is_dir w n \<longleftrightarrow> n < UFS_MAX_INODES \<and> inode_used w n \<and> ino_type (inode_at w n) = UFS_TYPE_DIR"

definition tree_ok :: "world \<Rightarrow> bool" where
  "tree_ok w \<longleftrightarrow> live w \<and> is_dir w UFS_ROOT_INODE \<and>
     (\<forall>n. is_dir w n \<longrightarrow> dir_ok (file_at w n) \<and> (\<forall>m \<in> ran (dir_map n w). m < UFS_MAX_INODES \<and> inode_used w m)) \<and>
     (\<forall>n < UFS_MAX_INODES. inode_used w n \<longrightarrow> ino_type (inode_at w n) = UFS_TYPE_SYMLINK \<longrightarrow> link_ok (file_at w n))"

section \<open>The walk\<close>

definition tail_of :: "string list \<Rightarrow> string" where
  "tail_of cs = concat (map ((#) slash) cs)"

definition link_components :: "world \<Rightarrow> nat \<Rightarrow> string list \<Rightarrow> string list \<Rightarrow> string list option" where
  "link_components w m pre cs =
     (let t = link_text w m; base = (if t \<noteq> [] \<and> t ! 0 = slash then [] else pre) in
      if UFS_MAX_PATH * 2 + 3 \<le> length (expand_symlink (path_of pre) t (tail_of cs)) then None
      else map_option rev (norm_parts [] (base @ path_parts t @ cs)))"

datatype scan_result = Found nat | Refused errno | Redirect "string list"

primrec scan :: "world \<Rightarrow> bool \<Rightarrow> string list \<Rightarrow> nat \<Rightarrow> string list \<Rightarrow> scan_result" where
  "scan w nofollow pre n [] = Found n"
| "scan w nofollow pre n (c # cs) =
     (if \<not> searchable w (inode_at w n) then Refused EACCES
      else case dir_map n w c of None \<Rightarrow> Refused ENOENT
      | Some m \<Rightarrow>
          if ino_type (inode_at w m) = UFS_TYPE_SYMLINK \<and> \<not> (cs = [] \<and> nofollow) then
            (case link_components w m pre cs of None \<Rightarrow> Refused ENAMETOOLONG | Some ds \<Rightarrow> Redirect ds)
          else if cs \<noteq> [] \<and> ino_type (inode_at w m) \<noteq> UFS_TYPE_DIR then Refused ENOTDIR
          else scan w nofollow (pre @ [c]) m cs)"

primrec walk :: "world \<Rightarrow> bool \<Rightarrow> nat \<Rightarrow> string list \<Rightarrow> errno + nat" where
  "walk w nofollow 0 cs = (case scan w nofollow [] UFS_ROOT_INODE cs of
     Found n \<Rightarrow> Inr n | Refused e \<Rightarrow> Inl e | Redirect ds \<Rightarrow> Inl ELOOP)"
| "walk w nofollow (Suc links) cs = (case scan w nofollow [] UFS_ROOT_INODE cs of
     Found n \<Rightarrow> Inr n | Refused e \<Rightarrow> Inl e | Redirect ds \<Rightarrow> walk w nofollow links ds)"

definition outcome :: "errno + nat \<Rightarrow> world \<Rightarrow> nat option \<times> world" where
  "outcome r w = (case r of Inl e \<Rightarrow> (None, w\<lparr>errno := e\<rparr>) | Inr n \<Rightarrow> (Some n, w))"

definition components :: "string \<Rightarrow> string list" where
  "components path = (if path = [slash] then [] else path_parts (tl path))"

section \<open>Strings and component lists\<close>

abbreviation valid_parts :: "string list \<Rightarrow> bool" where
  "valid_parts cs \<equiv> set cs \<subseteq> Collect valid_component"

lemma valid_componentD: "valid_component c \<Longrightarrow> c \<noteq> []" "valid_component c \<Longrightarrow> slash \<notin> set c"
  "valid_component c \<Longrightarrow> length c \<le> UFS_MAX_NAME"
  by (simp_all add: valid_component_def)

lemma tail_of_simps [simp]: "tail_of [] = []" "tail_of (c # cs) = slash # c @ tail_of cs"
  by (simp_all add: tail_of_def)

lemma tail_of_append: "tail_of (cs @ ds) = tail_of cs @ tail_of ds"
  by (simp add: tail_of_def)

lemma path_of_tail: "path_of cs = (if cs = [] then [slash] else tail_of cs)"
  by (simp add: path_of_def tail_of_def)

lemma tail_of_Nil [simp]: "tail_of cs = [] \<longleftrightarrow> cs = []"
  by (cases cs) simp_all

lemma split_tail:
  assumes "valid_component c"
  shows "takeWhile (\<lambda>x. x \<noteq> slash) (c @ tail_of cs) = c" "dropWhile (\<lambda>x. x \<noteq> slash) (c @ tail_of cs) = tail_of cs"
proof -
  have "\<And>x. x \<in> set c \<Longrightarrow> x \<noteq> slash" using assms by (auto simp: valid_component_def)
  then show "takeWhile (\<lambda>x. x \<noteq> slash) (c @ tail_of cs) = c" "dropWhile (\<lambda>x. x \<noteq> slash) (c @ tail_of cs) = tail_of cs"
    by (cases cs; simp add: takeWhile_append2 dropWhile_append2)+
qed

lemma path_parts_tail:
  assumes "\<forall>c \<in> set cs. slash \<notin> set c" shows "path_parts (t @ tail_of cs) = path_parts t @ cs"
proof (induction t rule: parts_induct)
  case (last s)
  then show ?case using assms
  proof (induction cs arbitrary: s)
    case Nil
    then show ?case by (simp add: path_parts_rules)
  next
    case (Cons c cs)
    then show ?case using path_parts_more [of s "c @ tail_of cs"] by (simp add: path_parts_last)
  qed
next
  case (more c r)
  then show ?case using path_parts_more [of c "r @ tail_of cs"] by (simp add: path_parts_more)
qed

lemma path_parts_prefix:
  assumes "\<forall>c \<in> set pre. slash \<notin> set c" shows "path_parts (tail_of pre @ slash # r) = [] # pre @ path_parts r"
proof -
  have "path_parts (slash # s) = [] # path_parts s" for s using path_parts_more [of "[]" s] by simp
  moreover have "path_parts (c @ tail_of cs @ slash # r) = c # cs @ path_parts r"
    if "\<forall>d \<in> set (c # cs). slash \<notin> set d" for c cs
    using that by (induction cs arbitrary: c) (simp_all add: path_parts_more)
  ultimately show ?thesis using assms by (cases pre) simp_all
qed

lemma norm_parts_valid:
  "norm_parts st cs = Some st' \<Longrightarrow> \<forall>c \<in> set cs. slash \<notin> set c \<Longrightarrow> valid_parts st \<Longrightarrow> valid_parts st'"
proof (induction cs arbitrary: st)
  case (Cons c cs)
  have ns: "\<forall>c \<in> set cs. slash \<notin> set c" "slash \<notin> set c" using Cons.prems(2) by simp_all
  have pop: "valid_parts (tl st)" using Cons.prems(3) by (cases st) auto
  consider "c = [] \<or> c = ''.''" | "c = ''..''" | "valid_component c" "c \<noteq> []" "c \<noteq> ''.''" "c \<noteq> ''..''"
    using Cons.prems(1) ns(2) by (fastforce simp: valid_component_def split: if_splits)
  then show ?case
  proof cases
    case 1 then show ?thesis using Cons.prems(1,3) Cons.IH [OF _ ns(1), of st] by auto
  next
    case 2 then show ?thesis using Cons.prems(1) Cons.IH [OF _ ns(1) pop] by simp
  next
    case 3
    then have "norm_parts (c # st) cs = Some st'" using Cons.prems(1) by (simp split: if_splits)
    moreover have "valid_parts (c # st)" using 3(1) Cons.prems(3) by simp
    ultimately show ?thesis by (rule Cons.IH [OF _ ns(1)])
  qed
qed simp

lemma norm_parts_short:
  assumes "norm_parts [] cs = Some st" and "\<forall>c \<in> set cs. slash \<notin> set c"
  shows "valid_parts (rev st)" "length (path_of (rev st)) \<le> UFS_MAX_PATH"
proof -
  show "valid_parts (rev st)" using norm_parts_valid [OF assms] by simp
  have "valid_path (path_of (rev []))" by (simp add: valid_path_def path_of_in_iff path_of_def)
  from norm_parts_result [OF assms this] have "valid_path (path_of (rev st))"
    by (rule conjunct2 [OF _]) simp
  then show "length (path_of (rev st)) \<le> UFS_MAX_PATH" by (simp add: valid_path_def)
qed

lemma link_components_valid:
  assumes "link_components w m pre cs = Some ds" and "valid_parts pre" and "valid_parts cs"
  shows "valid_parts ds" "length (path_of ds) \<le> UFS_MAX_PATH"
proof -
  obtain base st where n: "norm_parts [] (base @ path_parts (link_text w m) @ cs) = Some st" "ds = rev st" "base \<in> {[], pre}"
  proof (cases "link_text w m \<noteq> [] \<and> link_text w m ! 0 = slash")
    case True
    then show ?thesis using assms(1) that [of "[]"] by (auto simp: link_components_def Let_def split: if_splits)
  next
    case False
    then show ?thesis using assms(1) that [of pre] by (auto simp: link_components_def Let_def split: if_splits)
  qed
  have "\<forall>c \<in> set (base @ path_parts (link_text w m) @ cs). slash \<notin> set c"
    using n(3) assms(2,3) path_parts_no_slash by (auto dest: valid_componentD(2))
  from norm_parts_short [OF n(1) this] show "valid_parts ds" "length (path_of ds) \<le> UFS_MAX_PATH"
    using n(2) by simp_all
qed

lemma expanded_parts:
  assumes "valid_parts pre" and "valid_parts cs"
  shows "norm_parts [] (path_parts (expand_symlink (path_of pre) t (tail_of cs))) =
      norm_parts [] ((if t \<noteq> [] \<and> t ! 0 = slash then [] else pre) @ path_parts t @ cs)"
    and "expand_symlink (path_of pre) t (tail_of cs) \<noteq> []" "expand_symlink (path_of pre) t (tail_of cs) ! 0 = slash"
proof -
  have ns: "\<forall>c \<in> set pre. slash \<notin> set c" "\<forall>c \<in> set cs. slash \<notin> set c"
    using assms by (auto dest: valid_componentD(2))
  note tail = path_parts_tail [OF ns(2), of t]
  have first: "expand_symlink (path_of pre) t (tail_of cs) = (if t \<noteq> [] \<and> t ! 0 = slash then t @ tail_of cs
      else tail_of pre @ slash # t @ tail_of cs)"
    using assms(1) by (cases pre) (auto simp: expand_symlink_def path_of_tail dest: valid_componentD(1))
  show "norm_parts [] (path_parts (expand_symlink (path_of pre) t (tail_of cs))) =
      norm_parts [] ((if t \<noteq> [] \<and> t ! 0 = slash then [] else pre) @ path_parts t @ cs)"
    unfolding first using tail path_parts_prefix [OF ns(1), of "t @ tail_of cs"] by (cases "t = []") simp_all
  show "expand_symlink (path_of pre) t (tail_of cs) \<noteq> []" "expand_symlink (path_of pre) t (tail_of cs) ! 0 = slash"
    unfolding first by (cases pre; auto simp: nth_append)+
qed

section \<open>The code walks\<close>

lemma search_run:
  assumes "script w = []"
  shows "ufs_check_access_inode i X_OK w = (if searchable w i then (Some (), w) else (None, w\<lparr>errno := EACCES\<rparr>))"
proof -
  have "bits_of (1 :: u32) = {0}" by (auto simp: bits_of_def bit_1_iff)
  then show ?thesis
    using ufs_check_access_inode_calm [OF assms] by (simp add: mode_allows_run searchable_def bits_of_def)
qed

lemma tree_okD:
  assumes "tree_ok w"
  shows "live w" "script w = []" "is_dir w UFS_ROOT_INODE"
proof -
  show l: "live w" using assms unfolding tree_ok_def by (rule conjunct1)
  then show "script w = []" unfolding live_def calm_def by blast
  show "is_dir w UFS_ROOT_INODE" using assms unfolding tree_ok_def by blast
qed

lemma tree_ok_dir:
  assumes "tree_ok w" and "is_dir w n"
  shows "dir_inv n w" "dir_map n w c = Some m \<Longrightarrow> m < UFS_MAX_INODES \<and> inode_used w m"
proof -
  have d: "dir_ok (file_at w n)" "\<forall>m \<in> ran (dir_map n w). m < UFS_MAX_INODES \<and> inode_used w m"
    using assms unfolding tree_ok_def by blast+
  then show "dir_inv n w" using assms tree_okD(1) [OF assms(1)] by (simp add: dir_inv_def is_dir_def)
  show "dir_map n w c = Some m \<Longrightarrow> m < UFS_MAX_INODES \<and> inode_used w m" using d(2) by (blast intro: ranI)
qed

lemma tree_ok_link:
  assumes "tree_ok w" and "m < UFS_MAX_INODES \<and> inode_used w m" and "ino_type (inode_at w m) = UFS_TYPE_SYMLINK"
  shows "link_ok (file_at w m)"
  using assms unfolding tree_ok_def by blast

lemma follow_run:
  assumes l: "live w" and m: "link_ok (file_at w m)" and ty: "ino_type (inode_at w m) = UFS_TYPE_SYMLINK"
    and parts: "valid_parts pre" "valid_parts cs"
  shows "follow_symlink (inode_at w m) (path_of pre) (tail_of cs) w =
    (case link_components w m pre cs of None \<Rightarrow> (None, w\<lparr>errno := ENAMETOOLONG\<rparr>) | Some ds \<Rightarrow> (Some (path_of ds), w))"
proof -
  define i where "i = inode_at w m"
  have s: "file_at w m = (i, w)" by (simp add: file_at_def i_def)
  have lk: "file_wf (i, w)" "0 < unat (ino_size i)" "unat (ino_size i) \<le> UFS_MAX_PATH" "ino_block_count i \<noteq> 0"
    "bmap w i 0 \<noteq> UFS_INVALID_BLOCK"
    using m by (simp_all add: link_ok_def s file_size_def)
  have "ino_size i \<noteq> 0" using lk(2) by auto
  then have "read_symlink_target i w = (Some (take (unat (ino_size i)) (block_data (i, w) 0)), w)"
    using lk l ty get_inode_data_block_live [OF l lk(1), of 0] in_data_regionD [OF bmap_region(1) [OF lk(1) _ lk(5)]]
    by (simp add: read_symlink_target_def run_simps io_simps ret_def block_data_def i_def [symmetric])
  then have "follow_symlink i (path_of pre) (tail_of cs) w =
      require (\<not> UFS_MAX_PATH * 2 + 3 \<le> length (expand_symlink (path_of pre) (link_text w m) (tail_of cs))) ENAMETOOLONG
        (normalize_absolute_path (expand_symlink (path_of pre) (link_text w m) (tail_of cs))) w"
    by (simp add: follow_symlink_def run_simps Let_def link_text_def s file_size_def)
  then show ?thesis
    using expanded_parts [OF parts, of "link_text w m"]
    by (auto simp: i_def link_components_def Let_def normalize_absolute_path_run require_def fail_def split: option.splits)
qed

lemma resolve_scan:
  assumes ok: "tree_ok w" and flags: "nofollow \<longleftrightarrow> flags AND UFS_RESOLVE_NOFOLLOW_FINAL \<noteq> 0"
  shows "is_dir w n \<Longrightarrow> valid_parts (pre @ cs) \<Longrightarrow> length (path_of (pre @ cs)) \<le> UFS_MAX_PATH \<Longrightarrow> cs \<noteq> [] \<Longrightarrow>
    resolve_from flags depth (tl (tail_of cs)) n (path_of pre) w =
      (case scan w nofollow pre n cs of
         Found m \<Rightarrow> (Some m, w) | Refused e \<Rightarrow> (None, w\<lparr>errno := e\<rparr>)
       | Redirect ds \<Rightarrow>
           if UFS_MAX_SYMLINK_DEPTH \<le> depth + 1 then (None, w\<lparr>errno := ELOOP\<rparr>)
           else if ds = [] then (Some UFS_ROOT_INODE, w)
           else resolve_from flags (depth + 1) (tl (tail_of ds)) UFS_ROOT_INODE [slash] w)"
proof (induction cs arbitrary: pre n)
  case Nil
  then show ?case by simp
next
  case (Cons c cs)
  note l = tree_okD(1) [OF ok]
  have n: "n < UFS_MAX_INODES" using Cons.prems(1) by (simp add: is_dir_def)
  have vc: "valid_component c" "valid_parts pre" "valid_parts cs" using Cons.prems(2) by simp_all
  note c = valid_componentD [OF vc(1)]
  note inv = tree_ok_dir(1) [OF ok Cons.prems(1)]
  have turn: "resolve_from flags depth (tl (tail_of (c # cs))) n (path_of pre) w =
     on_ok (ufs_check_access_inode (inode_at w n) X_OK) (\<lambda>_.
      on_ok (directory_find n c) (\<lambda>next_inode.
        on_ok (read_inode next_inode) (\<lambda>inode.
        if ino_type inode = UFS_TYPE_SYMLINK \<and> \<not> (cs = [] \<and> nofollow)
        then on_ok (follow_symlink inode (path_of pre) (tail_of cs)) (\<lambda>path.
          if UFS_MAX_SYMLINK_DEPTH \<le> depth + 1 then fail ELOOP
          else if path = [slash] then ret UFS_ROOT_INODE
          else resolve_from flags (depth + 1) (drop 1 path) UFS_ROOT_INODE [slash])
        else if cs \<noteq> [] \<and> ino_type inode \<noteq> UFS_TYPE_DIR then fail ENOTDIR
        else if cs = [] then ret next_inode
        else if UFS_MAX_PATH < length (path_of pre) + (if 1 < length (path_of pre) then 1 else 0) + length c
        then fail ENAMETOOLONG
        else resolve_from flags depth (drop 1 (tail_of cs)) next_inode (push_component (path_of pre) c)))) w"
    using c split_tail [OF vc(1), of cs] n l flags
    by (subst resolve_from_turn) (simp add: Let_def io_simps run_simps cong: if_cong)
  show ?case
  proof (cases "searchable w (inode_at w n)")
    case False
    then show ?thesis unfolding turn using search_run [OF tree_okD(2) [OF ok]] by (simp add: run_simps)
  next
    case s: True
    show ?thesis
    proof (cases "dir_map n w c")
      case None
      then show ?thesis unfolding turn using search_run [OF tree_okD(2) [OF ok]] s directory_find_run [OF inv, of c]
        by (simp add: run_simps)
    next
      case (Some m)
      note mm = tree_ok_dir(2) [OF ok Cons.prems(1) Some]
      have turn2: "resolve_from flags depth (tl (tail_of (c # cs))) n (path_of pre) w =
        (if ino_type (inode_at w m) = UFS_TYPE_SYMLINK \<and> \<not> (cs = [] \<and> nofollow)
        then on_ok (follow_symlink (inode_at w m) (path_of pre) (tail_of cs)) (\<lambda>path.
          if UFS_MAX_SYMLINK_DEPTH \<le> depth + 1 then fail ELOOP
          else if path = [slash] then ret UFS_ROOT_INODE
          else resolve_from flags (depth + 1) (drop 1 path) UFS_ROOT_INODE [slash])
        else if cs \<noteq> [] \<and> ino_type (inode_at w m) \<noteq> UFS_TYPE_DIR then fail ENOTDIR
        else if cs = [] then ret m
        else if UFS_MAX_PATH < length (path_of pre) + (if 1 < length (path_of pre) then 1 else 0) + length c
        then fail ENAMETOOLONG
        else resolve_from flags depth (drop 1 (tail_of cs)) m (push_component (path_of pre) c)) w"
        unfolding turn using search_run [OF tree_okD(2) [OF ok]] s directory_find_run [OF inv, of c] Some mm l
        by (simp add: run_simps io_simps cong: if_cong)
      show ?thesis
      proof (cases "ino_type (inode_at w m) = UFS_TYPE_SYMLINK \<and> \<not> (cs = [] \<and> nofollow)")
        case link: True
        note f = follow_run [OF l tree_ok_link [OF ok mm] _ vc(2,3)]
        show ?thesis
        proof (cases "link_components w m pre cs")
          case None
          then show ?thesis unfolding turn2 using f link mm s Some by (simp add: run_simps)
        next
          case ds: (Some ds)
          note vd = link_components_valid [OF ds vc(2,3)]
          have "path_of ds = [slash] \<longleftrightarrow> ds = []" "ds \<noteq> [] \<Longrightarrow> drop 1 (path_of ds) = tl (tail_of ds)"
            using vd(1) by (cases ds; auto simp: path_of_tail dest: valid_componentD(1))+
          then show ?thesis unfolding turn2 using f link mm s Some ds
            by (simp add: run_simps fail_def ret_def)
        qed
      next
        case stay: False
        show ?thesis
        proof (cases "cs = []")
          case True
          then show ?thesis unfolding turn2 using stay s Some by (auto simp: ret_def)
        next
          case more: False
          show ?thesis
          proof (cases "ino_type (inode_at w m) = UFS_TYPE_DIR")
            case False
            then show ?thesis unfolding turn2 using stay s Some more by (simp add: fail_def)
          next
            case dir: True
            have ne: "[] \<notin> set pre" using vc(2) by (auto simp: valid_component_def)
            have push: "push_component (path_of pre) c = path_of (pre @ [c])"
              using path_of_snoc [OF ne] by (simp add: push_component_def)
            have "path_of (pre @ c # cs) = path_of (pre @ [c]) @ tail_of cs"
              by (simp add: path_of_tail tail_of_append)
            then have short: "length (path_of (pre @ [c])) \<le> UFS_MAX_PATH" using Cons.prems(3) by simp
            then have fits: "\<not> UFS_MAX_PATH < length (path_of pre) + (if 1 < length (path_of pre) then 1 else 0) + length c"
              using path_of_snoc [OF ne, of c] by (simp split: if_splits)
            have "is_dir w m" using dir mm by (simp add: is_dir_def)
            then have "resolve_from flags depth (tl (tail_of cs)) m (path_of (pre @ [c])) w =
              (case scan w nofollow (pre @ [c]) m cs of
                 Found m \<Rightarrow> (Some m, w) | Refused e \<Rightarrow> (None, w\<lparr>errno := e\<rparr>)
               | Redirect ds \<Rightarrow>
                   if UFS_MAX_SYMLINK_DEPTH \<le> depth + 1 then (None, w\<lparr>errno := ELOOP\<rparr>)
                   else if ds = [] then (Some UFS_ROOT_INODE, w)
                   else resolve_from flags (depth + 1) (tl (tail_of ds)) UFS_ROOT_INODE [slash] w)"
              using Cons.prems more by (intro Cons.IH) simp_all
            then show ?thesis unfolding turn2 using stay s Some more dir fits by (simp add: push drop_Suc)
          qed
        qed
      qed
    qed
  qed
qed

lemma scan_redirect:
  "scan w nofollow pre n cs = Redirect ds \<Longrightarrow> valid_parts (pre @ cs) \<Longrightarrow> valid_parts ds \<and> length (path_of ds) \<le> UFS_MAX_PATH"
proof (induction cs arbitrary: pre n)
  case Nil
  then show ?case by simp
next
  case (Cons c cs)
  obtain m where m: "dir_map n w c = Some m" using Cons.prems(1) by (auto split: if_splits option.splits)
  show ?case
  proof (cases "ino_type (inode_at w m) = UFS_TYPE_SYMLINK \<and> \<not> (cs = [] \<and> nofollow)")
    case True
    then have "link_components w m pre cs = Some ds" using Cons.prems(1) m by (auto split: if_splits option.splits)
    then show ?thesis using link_components_valid Cons.prems(2) by simp
  next
    case False
    then have "scan w nofollow (pre @ [c]) m cs = Redirect ds" using Cons.prems(1) m by (auto split: if_splits)
    then show ?thesis using Cons.IH [of "pre @ [c]" m] Cons.prems(2) by simp
  qed
qed

lemma resolve_walk:
  assumes ok: "tree_ok w" and flags: "nofollow \<longleftrightarrow> flags AND UFS_RESOLVE_NOFOLLOW_FINAL \<noteq> 0"
  shows "valid_parts cs \<Longrightarrow> length (path_of cs) \<le> UFS_MAX_PATH \<Longrightarrow> cs \<noteq> [] \<Longrightarrow> depth + links = 39 \<Longrightarrow>
    resolve_from flags depth (tl (tail_of cs)) UFS_ROOT_INODE [slash] w = outcome (walk w nofollow links cs) w"
proof (induction links arbitrary: cs depth)
  case 0
  have "path_of [] = [slash]" by (simp add: path_of_def)
  then show ?case
    using resolve_scan [OF ok flags tree_okD(3) [OF ok], of "[]" cs depth] 0 by (simp add: outcome_def split: scan_result.splits)
next
  case (Suc links)
  have nil: "path_of [] = [slash]" by (simp add: path_of_def)
  note run = resolve_scan [OF ok flags tree_okD(3) [OF ok], of "[]" cs depth, unfolded nil append_Nil, OF Suc.prems(1-3)]
  show ?case
  proof (cases "scan w nofollow [] UFS_ROOT_INODE cs")
    case (Redirect ds)
    have vd: "valid_parts ds" "length (path_of ds) \<le> UFS_MAX_PATH"
      using scan_redirect [OF Redirect] Suc.prems(1) by simp_all
    show ?thesis
    proof (cases "ds = []")
      case True
      then have "walk w nofollow links ds = Inr UFS_ROOT_INODE" by (cases links) simp_all
      then show ?thesis using run Redirect True Suc.prems(4) by (simp add: outcome_def)
    next
      case False
      then show ?thesis using run Redirect Suc.IH [OF vd False, of "depth + 1"] Suc.prems(4) by simp
    qed
  qed (simp_all add: run outcome_def)
qed

lemma components_valid:
  assumes "valid_path path"
  shows "valid_parts (components path)" "path = path_of (components path)"
proof -
  have p: "path = [slash] \<or> (path \<noteq> [] \<and> path ! 0 = slash \<and> (\<forall>c \<in> set (path_parts (tl path)). valid_component c))"
    using assms path_of_in_iff [of path] by (simp add: valid_path_def)
  then show "valid_parts (components path)" by (auto simp: components_def)
  show "path = path_of (components path)"
  proof (cases "path = [slash]")
    case True
    then show ?thesis by (simp add: components_def path_of_def)
  next
    case False
    then have "slash # tl path = path" using p by (cases path) auto
    then show ?thesis using concat_path_parts [of "tl path"] False by (simp add: components_def path_of_def)
  qed
qed

lemma resolve_run:
  assumes ok: "tree_ok w"
  shows "resolve_path_ex path flags w =
    (if flags \<notin> {0, UFS_RESOLVE_FOLLOW_FINAL, UFS_RESOLVE_NOFOLLOW_FINAL} \<or> \<not> valid_path path then (None, w\<lparr>errno := EINVAL\<rparr>)
     else outcome (walk w (flags AND UFS_RESOLVE_NOFOLLOW_FINAL \<noteq> 0) 39 (components path)) w)"
proof (cases "flags \<in> {0, UFS_RESOLVE_FOLLOW_FINAL, UFS_RESOLVE_NOFOLLOW_FINAL}")
  case False
  then show ?thesis by (simp add: resolve_path_ex_def require_def fail_def)
next
  case flags: True
  have "ufs_mounted w" using tree_okD(1) [OF ok] unfolding live_def by blast
  then have run: "resolve_path_ex path flags w =
      (if valid_path path then resolve_absolute path flags 0 w else (None, w\<lparr>errno := EINVAL\<rparr>))"
    using flags validate_path_run [of path w]
    by (auto simp: resolve_path_ex_def run_simps require_mounted_def asking_def ret_def)
  show ?thesis
  proof (cases "valid_path path")
    case False
    then show ?thesis using run flags by simp
  next
    case v: True
    note c = components_valid [OF v]
    have short: "length (path_of (components path)) \<le> UFS_MAX_PATH" using v c(2) by (simp add: valid_path_def)
    show ?thesis
    proof (cases "components path = []")
      case True
      then have "path = [slash]" using c(2) by (simp add: path_of_def)
      moreover have "walk w nf 39 [] = Inr UFS_ROOT_INODE" for nf by (simp add: numeral_eq_Suc)
      ultimately show ?thesis using run v flags by (simp add: resolve_absolute_def components_def outcome_def ret_def)
    next
      case False
      have "path \<noteq> [slash]" using False by (auto simp: components_def)
      moreover have "drop 1 path = tl (tail_of (components path))"
        using c(2) False by (simp add: path_of_tail drop_Suc)
      ultimately show ?thesis
        using run v flags resolve_walk [OF ok refl c(1) short False, of 0 39 flags] by (simp add: resolve_absolute_def)
    qed
  qed
qed

section \<open>The limit on links\<close>

text \<open>\<open>hops w nofollow cs k es\<close>: \<open>k\<close> expansions of symbolic links lead from \<open>cs\<close> to \<open>es\<close>.\<close>

inductive hops :: "world \<Rightarrow> bool \<Rightarrow> string list \<Rightarrow> nat \<Rightarrow> string list \<Rightarrow> bool" for w nofollow where
  stay: "hops w nofollow cs 0 cs"
| hop: "scan w nofollow [] UFS_ROOT_INODE cs = Redirect ds \<Longrightarrow> hops w nofollow ds k es \<Longrightarrow> hops w nofollow cs (Suc k) es"

inductive_simps hops_0: "hops w nofollow cs 0 es"
inductive_simps hops_Suc: "hops w nofollow cs (Suc k) es"

lemma scan_not_loop: "scan w nofollow pre n cs \<noteq> Refused ELOOP"
  by (induction cs arbitrary: pre n) (auto split: option.splits)

lemma walk_loop: "walk w nofollow links cs = Inl ELOOP \<longleftrightarrow> (\<exists>es. hops w nofollow cs (Suc links) es)"
  by (induction links arbitrary: cs)
    (auto simp: hops_Suc hops_0 scan_not_loop split: scan_result.splits)

lemma walk_found:
  "walk w nofollow links cs = Inr n \<longleftrightarrow>
     (\<exists>k \<le> links. \<exists>es. hops w nofollow cs k es \<and> scan w nofollow [] UFS_ROOT_INODE es = Found n)"
proof (induction links arbitrary: cs)
  case 0
  then show ?case by (auto simp: hops_0 split: scan_result.splits)
next
  case (Suc links)
  have split: "(\<exists>k \<le> Suc links. Q k) \<longleftrightarrow> Q 0 \<or> (\<exists>k \<le> links. Q (Suc k))" for Q
    by (metis Suc_le_mono le0 not0_implies_Suc)
  show ?case unfolding split by (auto simp: hops_0 hops_Suc Suc.IH split: scan_result.splits)
qed

section \<open>Properties\<close>

lemma tree_with_empty_root:
  assumes l: "live w" and used: "\<forall>n < UFS_MAX_INODES. inode_used w n \<longleftrightarrow> n = UFS_ROOT_INODE"
    and root: "ino_type (inode_at w 0) = UFS_TYPE_DIR" "same_pointers (inode_at w 0) (ufs_init_inode UFS_TYPE_DIR)"
      "ino_block_count (inode_at w 0) = 0" "ino_size (inode_at w 0) = 0"
  shows "tree_ok w" "dir_map UFS_ROOT_INODE w = Map.empty"
proof -
  define i where "i = inode_at w 0"
  have s: "file_at w 0 = (i, w)" by (simp add: file_at_def i_def)
  have z: "dir_blocks (i, w) = 0" using root(3) by (simp add: dir_blocks_def i_def)
  have es: "dir_entries (i, w) = []" by (simp add: dir_entries_def z)
  then show map: "dir_map UFS_ROOT_INODE w = Map.empty" by (simp add: dir_map_def s entry_map_def fun_eq_iff)
  have wfi: "ino_wf i" using l by (simp add: i_def)
  note sp = same_pointers_file [OF file_wf_init root(2) [folded i_def] wfi, where w = w]
  have "maps_exactly 0 (ufs_init_inode UFS_TYPE_DIR, w)" "owned_blocks (ufs_init_inode UFS_TYPE_DIR, w) = {}"
    using file_ok_init [of UFS_TYPE_DIR w] by (simp_all add: lean_def file_ok_def file_size_def blocks_needed_bounds ufs_init_inode_def)
  then have "maps_exactly 0 (i, w)" "lean (i, w)" using sp(2,3) by (simp_all add: maps_exactly_def lean_def)
  then have ok: "dir_ok (file_at w 0)"
    unfolding s dir_ok_def z es using sp(1) root(1,4) by (simp add: i_def file_size_def names_unique_def)
  have dirs: "is_dir w n \<longleftrightarrow> n = 0" for n
    unfolding is_dir_def using used root(1) by auto
  have links: "ino_type (inode_at w n) \<noteq> UFS_TYPE_SYMLINK" if "n < UFS_MAX_INODES" "inode_used w n" for n
    using used that root(1) by auto
  have "ran (dir_map 0 w) = {}" unfolding map by (rule ran_empty)
  then show "tree_ok w" unfolding tree_ok_def dirs using l ok links by blast
qed

text \<open>A tree that consists of the root, which is empty.\<close>

definition sample_tree :: world where
  "sample_tree = put_inode 0 (ufs_init_inode UFS_TYPE_DIR) (claim_inode 0 blank_world)"

lemma blank_inode_unused: "n < UFS_MAX_INODES \<Longrightarrow> \<not> inode_used blank_world n"
proof -
  have z: "blk blank_world c = replicate 512 0" for c
    by (simp add: blk_def blk_of_def blank_world_def map_replicate_const)
  assume n: "n < UFS_MAX_INODES"
  then have "n div 8 < 512" by (simp add: less_mult_imp_div_less)
  then have "blk blank_world 1 ! (n div 8) = 0" unfolding z by (rule nth_replicate)
  then show "\<not> inode_used blank_world n" by (simp add: inode_used_def bitmap_test_def)
qed

lemma sample_tree_ok: "tree_ok sample_tree" "dir_map 0 sample_tree = Map.empty" "searchable sample_tree i"
proof -
  have l: "live sample_tree" "inode_at sample_tree 0 = ufs_init_inode UFS_TYPE_DIR"
    by (simp_all add: sample_tree_def)
  have used: "\<forall>n < UFS_MAX_INODES. inode_used sample_tree n \<longleftrightarrow> n = UFS_ROOT_INODE"
    using blank_inode_unused by (simp add: sample_tree_def)
  have root: "ino_type (ufs_init_inode UFS_TYPE_DIR) = UFS_TYPE_DIR" "ino_block_count (ufs_init_inode UFS_TYPE_DIR) = 0"
    "ino_size (ufs_init_inode UFS_TYPE_DIR) = 0" by (simp_all add: ufs_init_inode_def)
  show "tree_ok sample_tree" "dir_map 0 sample_tree = Map.empty"
    using tree_with_empty_root [OF l(1) used] root by (simp_all add: l(2))
  have "euid sample_tree = 0" proof -
    have "euid blank_world = 0" unfolding blank_world_def by simp
    then show ?thesis by (simp add: sample_tree_def put_inode_def claim_inode_def flushed_def add_free_inodes_def)
  qed
  then show "searchable sample_tree i" by (simp add: searchable_def)
qed

text \<open>C6: Path resolution is a walk through directory maps. On a well-formed tree \<open>resolve_path_ex\<close> refuses
  unknown flags and malformed paths with EINVAL and otherwise computes \<open>walk\<close> of the components of the
  path, with the same inode or the same error: search permission on every directory (EACCES), missing
  names (ENOENT), files in the middle of a path (ENOTDIR), symbolic links, absolute and relative, in
  the middle and at the end, the expanded path normalized and limited (ENAMETOOLONG), the last link not
  followed when the flags say so. It changes nothing but \<open>errno\<close>.\<close>

theorem resolve_path_spec:
  assumes "tree_ok w"
  shows "resolve_path_ex path flags w =
    (if flags \<notin> {0, UFS_RESOLVE_FOLLOW_FINAL, UFS_RESOLVE_NOFOLLOW_FINAL} \<or> \<not> valid_path path then (None, w\<lparr>errno := EINVAL\<rparr>)
     else outcome (walk w (flags AND UFS_RESOLVE_NOFOLLOW_FINAL \<noteq> 0) 39 (components path)) w)"
  by (rule resolve_run [OF assms])

lemma sample_path: "valid_path ''/a/b''" "components ''/a/b'' = [''a'', ''b'']"
  by (simp_all add: valid_path_def path_of_in_iff path_parts.simps valid_component_def components_def)

theorem resolve_path_spec_witness: "resolve_path_ex ''/a/b'' 0 sample_tree = (None, sample_tree\<lparr>errno := ENOENT\<rparr>)"
  using resolve_path_spec [OF sample_tree_ok(1), of "''/a/b''" 0] sample_path sample_tree_ok
  by (simp add: outcome_def numeral_eq_Suc)

text \<open>C32: Resolution always stops, after at most 39 symbolic links. It fails with ELOOP exactly when 40
  expansions in a row are possible, so on every cycle of links, and it finds an inode exactly when at
  most 39 expansions lead to a path that ends there without a further link. The design document (\<open>DESIGN_Final.md\<close>, 6.2)
  permits 40 expansions; \<open>resolve_absolute\<close> refuses the path that the 40th gives, because it tests the depth, which
  starts at 0, with \<open>>=\<close> after the expansion.\<close>

theorem resolve_link_limit:
  assumes "tree_ok w" and "valid_path path" and "flags \<in> {0, UFS_RESOLVE_FOLLOW_FINAL, UFS_RESOLVE_NOFOLLOW_FINAL}"
    and "nofollow = (flags AND UFS_RESOLVE_NOFOLLOW_FINAL \<noteq> 0)"
  shows "(resolve_path_ex path flags w = (None, w\<lparr>errno := ELOOP\<rparr>) \<longleftrightarrow> (\<exists>es. hops w nofollow (components path) 40 es)) \<and>
    (resolve_path_ex path flags w = (Some n, w) \<longleftrightarrow>
      (\<exists>k \<le> 39. \<exists>es. hops w nofollow (components path) k es \<and> scan w nofollow [] UFS_ROOT_INODE es = Found n))"
proof -
  have run: "resolve_path_ex path flags w = outcome (walk w nofollow 39 (components path)) w"
    using resolve_run [OF assms(1), of path flags] assms(2,3) unfolding assms(4) by auto
  have inj: "w\<lparr>errno := a\<rparr> = w\<lparr>errno := b\<rparr> \<longleftrightarrow> a = b" for a b
    by (metis world.select_convs(7) world.update_convs(7) world.surjective)
  show ?thesis
    unfolding run using walk_loop [of w nofollow 39 "components path"] walk_found [of w nofollow 39 "components path" n]
    by (auto simp: outcome_def inj split: sum.splits)
qed

theorem resolve_link_limit_witness: "\<not> (\<exists>es. hops sample_tree False (components ''/a/b'') 40 es)"
proof -
  have "walk sample_tree False 39 (components ''/a/b'') = Inl ENOENT"
    using sample_path sample_tree_ok by (simp add: numeral_eq_Suc)
  then have "resolve_path_ex ''/a/b'' 0 sample_tree = (None, sample_tree\<lparr>errno := ENOENT\<rparr>)"
    using resolve_run [OF sample_tree_ok(1), of "''/a/b''" 0] sample_path by (simp add: outcome_def)
  moreover have "sample_tree\<lparr>errno := ENOENT\<rparr> \<noteq> sample_tree\<lparr>errno := ELOOP\<rparr>"
    by (metis errno.distinct world.select_convs(7) world.update_convs(7) world.surjective)
  ultimately show ?thesis
    using resolve_link_limit [OF sample_tree_ok(1) sample_path(1), of 0 False] by auto
qed

end
