(* ===== verification/Ufs_Session.thy ===== *)
theory Ufs_Session
  imports Ufs_Shell Ufs_Progress Ufs_Walk
begin

text \<open>
  What holds of every session of the shell: the path given to a command is normalized like the library
  does it, starting at the current directory, and whatever lines are read and whatever system calls
  fail, the current directory stays a valid path, the tables of open objects stay well typed and the
  operation lock is free between commands.
\<close>

section \<open>Paths\<close>

lemma parent_directory_run:
  assumes st: "set (c # st) \<subseteq> Collect valid_component"
  shows "parent_directory (path_of (rev (c # st))) = path_of (rev st)"
proof -
  have ne: "[] \<notin> set (rev st)" using st by (auto simp: valid_component_def)
  have c: "slash \<notin> set c" "c \<noteq> []" using st by (auto simp: valid_component_def)
  define p where "p = (if 1 < length (path_of (rev st)) then path_of (rev st) @ [slash] else path_of (rev st))"
  have root: "path_of (rev st) \<noteq> []" by (cases "rev st") (auto simp: path_of_def)
  have last: "p ! (length p - 1) = slash" "p \<noteq> []"
    using root by (cases "rev st"; auto simp: p_def path_of_def nth_append)+
  have strip: "slash \<notin> set d \<Longrightarrow> back_to_slash (p @ d) = p" for d
  proof (induction d rule: rev_induct)
    case Nil
    then show ?case using last by (simp add: back_to_slash.simps [of p])
  next
    case (snoc x d)
    then show ?case using last by (subst back_to_slash.simps) (auto simp: butlast_append nth_append)
  qed
  have "path_of (rev (c # st)) = p @ c" using path_of_snoc [OF ne, of c] by (simp add: p_def)
  then have "parent_directory (path_of (rev (c # st))) = (if 1 < length p then butlast p else p)"
    using strip [OF c(1)] by (simp add: parent_directory_def)
  also have "\<dots> = path_of (rev st)"
    using root by (cases "path_of (rev st)") (auto simp: p_def)
  finally show ?thesis .
qed

lemma shell_path_loop_same:
  "set st \<subseteq> Collect valid_component \<Longrightarrow>
   shell_path_loop input (path_of (rev st)) = normalize_loop input (starts_of st) (path_of (rev st))"
proof (induction input arbitrary: st rule: measure_induct_rule [of length])
  case (less input)
  define i c r where "i = dropWhile (\<lambda>c. c = slash) input" and "c = takeWhile (\<lambda>c. c \<noteq> slash) i"
    and "r = dropWhile (\<lambda>c. c \<noteq> slash) i"
  show ?case
  proof (cases "i = []")
    case True
    then show ?thesis
      by (subst shell_path_loop.simps, subst normalize_loop.simps) (simp add: i_def Let_def)
  next
    case False
    have "length r < length input" using normalize_progress False by (simp add: i_def r_def)
    note IH = less.IH [OF this]
    have ic: "hd i \<noteq> slash" using False hd_dropWhile [of "\<lambda>c. c = slash" input] by (simp add: i_def)
    then have cne: "c \<noteq> []" using False by (cases i) (simp_all add: c_def)
    have cs: "slash \<notin> set c" by (auto simp: c_def dest: set_takeWhileD)
    have ne: "[] \<notin> set (rev st)" using less.prems by (auto simp: valid_component_def)
    have dots: "length c = 1 \<and> c ! 0 = dot \<longleftrightarrow> c = ''.''" "length c = 2 \<and> c ! 0 = dot \<and> c ! 1 = dot \<longleftrightarrow> c = ''..''"
      by (auto simp: length_Suc_conv numeral_2_eq_2 simp del: add_2_eq_Suc')
    have up: "shell_path_loop r (if 1 < length (path_of (rev st)) then parent_directory (path_of (rev st)) else path_of (rev st)) =
        (case starts_of st of [] \<Rightarrow> normalize_loop r [] (path_of (rev st))
         | s # ss \<Rightarrow> normalize_loop r ss (take s (path_of (rev st))))"
    proof (cases st)
      case Nil
      then show ?thesis using IH [of "[]"] by (simp add: path_of_def)
    next
      case (Cons d ds)
      have nd: "[] \<notin> set (rev ds)" "d \<noteq> []" using Cons less.prems by (auto simp: valid_component_def)
      have "take (length (path_of (rev ds))) (path_of (rev ds @ [d])) = path_of (rev ds)" "1 < length (path_of (rev ds @ [d]))"
        using nd by (auto simp: path_of_snoc) (cases "rev ds"; auto simp: path_of_def)
      then show ?thesis using Cons parent_directory_run [of d ds] less.prems IH [of ds] by simp
    qed
    have push: "shell_path_loop r ((if 1 < length (path_of (rev st)) then path_of (rev st) @ [slash] else path_of (rev st)) @ c) =
        normalize_loop r (length (path_of (rev st)) # starts_of st)
          ((if 1 < length (path_of (rev st)) then path_of (rev st) @ [slash] else path_of (rev st)) @ c)"
      if "c \<noteq> ''.''" "c \<noteq> ''..''" "length c \<le> UFS_MAX_NAME"
      using IH [of "c # st"] less.prems that cne cs path_of_snoc [OF ne, of c] by (simp add: valid_component_def)
    define q where "q = (if 1 < length (path_of (rev st)) then path_of (rev st) @ [slash] else path_of (rev st)) @ c"
    have s: "shell_path_loop input (path_of (rev st)) =
        (if c = ''.'' then shell_path_loop r (path_of (rev st))
         else if c = ''..'' then
           shell_path_loop r (if 1 < length (path_of (rev st)) then parent_directory (path_of (rev st)) else path_of (rev st))
         else if UFS_MAX_NAME < length c then fail ENAMETOOLONG
         else if UFS_MAX_PATH < length (path_of (rev st)) + (if 1 < length (path_of (rev st)) then 1 else 0) + length c
         then fail ENAMETOOLONG
         else shell_path_loop r q)"
      using False by (subst shell_path_loop.simps)
        (simp only: Let_def i_def [symmetric] c_def [symmetric] r_def [symmetric] dots if_False q_def)
    have n: "normalize_loop input (starts_of st) (path_of (rev st)) =
        (if c = ''.'' then normalize_loop r (starts_of st) (path_of (rev st))
         else if c = ''..'' then (case starts_of st of [] \<Rightarrow> normalize_loop r [] (path_of (rev st))
           | s # ss \<Rightarrow> normalize_loop r ss (take s (path_of (rev st))))
         else if UFS_MAX_NAME < length c then fail ENAMETOOLONG
         else if UFS_MAX_PATH < length (path_of (rev st)) + (if 1 < length (path_of (rev st)) then 1 else 0) + length c
         then fail ENAMETOOLONG
         else normalize_loop r (length (path_of (rev st)) # starts_of st) q)"
      using False by (subst normalize_loop.simps)
        (simp only: Let_def i_def [symmetric] c_def [symmetric] r_def [symmetric] dots if_False q_def)
    consider "c = ''.''" | "c = ''..''" | "c \<noteq> ''.''" "c \<noteq> ''..''" "UFS_MAX_NAME < length c"
      | "c \<noteq> ''.''" "c \<noteq> ''..''" "length c \<le> UFS_MAX_NAME" by linarith
    then show ?thesis
    proof cases
      case 1 then show ?thesis unfolding s n using IH [OF less.prems] by simp
    next
      case 2 then show ?thesis unfolding s n using up by simp
    next
      case 3 then show ?thesis unfolding s n by simp
    next
      case 4
      note pu = push [OF 4, folded q_def]
      show ?thesis unfolding s n using 4 pu by (simp only: if_False not_less)
    qed
  qed
qed

lemma normalize_shell_path_run:
  assumes cwd: "valid_path cwd"
  shows "normalize_shell_path cwd input w =
    (case input of None \<Rightarrow> (None, w\<lparr>errno := EINVAL\<rparr>) | Some i \<Rightarrow>
     if i = [] then (None, w\<lparr>errno := EINVAL\<rparr>)
     else case norm_parts (if i ! 0 = slash then [] else rev (components cwd)) (path_parts i) of
       None \<Rightarrow> (None, w\<lparr>errno := ENAMETOOLONG\<rparr>)
     | Some st \<Rightarrow> (Some (path_of (rev st)), w))"
proof (cases input)
  case (Some i)
  have v: "set (rev (components cwd)) \<subseteq> Collect valid_component" "path_of (components cwd) = cwd"
    using components_valid [OF cwd] by auto
  have init: "path_of [] = [slash]" by (simp add: path_of_def)
  show ?thesis
  proof (cases "i \<noteq> [] \<and> i ! 0 = slash")
    case True
    then show ?thesis
      using shell_path_loop_same [of "[]" i] normalize_loop_norm [of "[]" i w] Some
      by (simp add: normalize_shell_path_def require_def init)
  next
    case False
    then show ?thesis
      using shell_path_loop_same [OF v(1), of i] normalize_loop_norm [OF v(1), of i w] Some v(2)
      by (auto simp: normalize_shell_path_def require_def fail_def)
  qed
qed (simp add: normalize_shell_path_def fail_def)

lemma root_valid: "valid_path (path_of [])"
  by (simp add: valid_path_def path_of_in_iff path_of_def)

lemma normalize_shell_path_valid:
  assumes cwd: "valid_path cwd" and r: "normalize_shell_path cwd input w = (Some p, w1)"
  shows "valid_path p" "w1 = w"
proof -
  obtain i st where i: "input = Some i" "w1 = w" "p = path_of (rev st)"
      "norm_parts (if i ! 0 = slash then [] else rev (components cwd)) (path_parts i) = Some st"
    using r normalize_shell_path_run [OF cwd, of input w] by (auto split: option.splits if_splits)
  have v: "set (rev (components cwd)) \<subseteq> Collect valid_component" "path_of (components cwd) = cwd"
    using components_valid [OF cwd] by auto
  then show "valid_path p" using norm_parts_result [OF i(4)] path_parts_no_slash v cwd i(3) root_valid by auto
  show "w1 = w" by (rule i(2))
qed

section \<open>What a session keeps\<close>

text \<open>\<open>keeps ends Q c\<close>: a command that starts with \<open>Q\<close> ends with \<open>Q\<close>, and if \<open>ends\<close> is set, it does end.\<close>

definition outcome :: "bool \<Rightarrow> (session \<Rightarrow> bool) \<Rightarrow> session option \<Rightarrow> bool" where
  "outcome ends Q r = (case r of None \<Rightarrow> \<not> ends | Some y \<Rightarrow> Q y)"

definition keeps :: "bool \<Rightarrow> (session \<Rightarrow> bool) \<Rightarrow> command \<Rightarrow> bool" where
  "keeps ends Q c \<longleftrightarrow> (\<forall>x. Q x \<longrightarrow> outcome ends Q (c x))"

lemma keepsI: "(\<And>x. Q x \<Longrightarrow> outcome ends Q (c x)) \<Longrightarrow> keeps ends Q c"
  unfolding keeps_def by blast

lemma keepsD: "keeps ends Q c \<Longrightarrow> Q x \<Longrightarrow> outcome ends Q (c x)"
  unfolding keeps_def by blast

lemma keeps_step: "keeps ends Q k \<Longrightarrow> (\<And>x. Q x \<Longrightarrow> Q (g x)) \<Longrightarrow> keeps ends Q (\<lambda>x. k (g x))"
  unfolding keeps_def by blast

lemma keeps_choice: "(\<And>a. keeps ends Q (k a)) \<Longrightarrow> keeps ends Q (\<lambda>x. k (f x) x)"
  unfolding keeps_def by blast

definition session_ok :: "(world \<Rightarrow> bool) \<Rightarrow> session \<Rightarrow> bool" where
  "session_ok P x \<longleftrightarrow> valid_path (current_directory (fst x)) \<and> P (snd x)"

text \<open>The lines that \<open>fgets\<close> makes of the input.\<close>

function lines_of :: "string \<Rightarrow> string list" where
  "lines_of input = (if input = [] then [] else to_nul (fst (fgets input)) # lines_of (snd (fgets input)))"
  by pat_completeness auto
termination
  by (relation "measure length") (simp_all add: fgets_progress)

declare lines_of.simps [simp del]

named_theorems keeps_intros

text \<open>A property of the world that the library operations keep is kept by every command.\<close>

locale shell_frame =
  fixes ends :: bool and P :: "world \<Rightarrow> bool" and left :: "nat \<Rightarrow> world \<Rightarrow> nat"
  assumes host: "preserves P (ufs_format host_path n)" "preserves P (ufs_mount host_path)" "preserves P ufs_unmount"
    and names: "preserves P (ufs_mkdir path)" "preserves P (ufs_create path)" "preserves P (ufs_rmdir path)"
      "preserves P (ufs_unlink path)" "preserves P (ufs_listdir path k)" "preserves P (ufs_stat_op path)"
      "preserves P (ufs_lstat path)" "preserves P (ufs_link path new_path)" "preserves P (ufs_symlink target path)"
      "preserves P (ufs_readlink path n)" "preserves P (ufs_chmod path mode)" "preserves P (ufs_truncate path size64)"
    and files: "preserves P (ufs_open path flags)" "preserves P (ufs_close fd)" "preserves P (ufs_read fd n)"
      "preserves P (ufs_write fd buf)" "preserves P (ufs_mmap fd len prot mflags off)" "preserves P (ufs_msync address len)"
      "preserves P (ufs_munmap address len)"
    and inner: "preserves P (resolve_path path)" "preserves P (read_inode number)"
      "preserves P (get_inode_data_block inode logical)" "preserves P read_inode_bitmap" "preserves P read_block_bitmap"
      "preserves P (ufs_read_block b)"
    and own: "P w \<Longrightarrow> P (w\<lparr>errno := e\<rparr>)" "P w \<Longrightarrow> P (w\<lparr>memory := f\<rparr>)"
    and copies: "P w \<Longrightarrow> ufs_read (int k) 256 w = (Some bs, w1) \<Longrightarrow> bs \<noteq> [] \<Longrightarrow> left k w1 < left k w"
begin

lemma keeps_basic [keeps_intros]:
  "keeps ends (session_ok P) stop"
  "keeps ends (session_ok P) k \<Longrightarrow> keeps ends (session_ok P) (print t k)"
  "keeps ends (session_ok P) k \<Longrightarrow> keeps ends (session_ok P) (with_errno e k)"
  "(\<And>a. keeps ends (session_ok P) (body a)) \<Longrightarrow> keeps ends (session_ok P) (with_shell f body)"
  "(\<And>a. keeps ends (session_ok P) (bodyw a)) \<Longrightarrow> keeps ends (session_ok P) (with_world g bodyw)"
  "(c \<Longrightarrow> keeps ends (session_ok P) k) \<Longrightarrow> (\<not> c \<Longrightarrow> keeps ends (session_ok P) k2) \<Longrightarrow> keeps ends (session_ok P) (if c then k else k2)"
  "\<not> ends \<Longrightarrow> keeps ends (session_ok P) (\<lambda>_. None)"
proof -
  show "keeps ends (session_ok P) stop" "\<not> ends \<Longrightarrow> keeps ends (session_ok P) (\<lambda>_. None)"
    by (simp_all add: keeps_def outcome_def stop_def)
  show "(c \<Longrightarrow> keeps ends (session_ok P) k) \<Longrightarrow> (\<not> c \<Longrightarrow> keeps ends (session_ok P) k2) \<Longrightarrow> keeps ends (session_ok P) (if c then k else k2)"
    by simp
  show "(\<And>a. keeps ends (session_ok P) (body a)) \<Longrightarrow> keeps ends (session_ok P) (with_shell f body)"
    "(\<And>a. keeps ends (session_ok P) (bodyw a)) \<Longrightarrow> keeps ends (session_ok P) (with_world g bodyw)"
    unfolding with_shell_def with_world_def case_prod_beta prod.collapse
    by (rule keeps_choice [where f = "\<lambda>x. f (fst x)"], assumption) (rule keeps_choice [where f = "\<lambda>x. g (snd x)"], assumption)
  show "keeps ends (session_ok P) k \<Longrightarrow> keeps ends (session_ok P) (print t k)"
    unfolding print_def case_prod_beta
    by (rule keeps_step [where g = "\<lambda>x. ((fst x)\<lparr>printed := printed (fst x) @ t\<rparr>, snd x)"], assumption) (simp add: session_ok_def)
  show "keeps ends (session_ok P) k \<Longrightarrow> keeps ends (session_ok P) (with_errno e k)"
    unfolding with_errno_def case_prod_beta
    by (rule keeps_step [where g = "\<lambda>x. (fst x, (snd x)\<lparr>errno := e\<rparr>)"], assumption) (simp add: session_ok_def own(1))
qed

lemma keeps_calling [keeps_intros]:
  assumes m: "preserves P m" and err: "keeps ends (session_ok P) err" and k: "\<And>a. keeps ends (session_ok P) (k a)"
  shows "keeps ends (session_ok P) (calling m err k)"
proof (rule keepsI)
  fix x assume x: "session_ok P x"
  obtain s w r w1 where sw: "x = (s, w)" "m w = (r, w1)" by (metis prod.exhaust)
  then have w1: "session_ok P (s, w1)" using x preservesD [OF m, of w] by (simp add: session_ok_def)
  show "outcome ends (session_ok P) (calling m err k x)"
    using sw keepsD [OF err w1] keepsD [OF k w1] by (cases r) (simp_all add: calling_def)
qed

lemma keeps_set [keeps_intros]:
  "(\<And>s. valid_path (current_directory s) \<Longrightarrow> valid_path (current_directory (f s))) \<Longrightarrow> keeps ends (session_ok P) k \<Longrightarrow>
   keeps ends (session_ok P) (set_shell f k)"
  unfolding set_shell_def case_prod_beta
  by (rule keeps_step [where g = "\<lambda>x. (f (fst x), snd x)"], assumption) (simp add: session_ok_def)

lemma keeps_messages [keeps_intros]:
  "keeps ends (session_ok P) k \<Longrightarrow> keeps ends (session_ok P) (print_error operation k)"
  "keeps ends (session_ok P) err \<Longrightarrow> keeps ends (session_ok P) k \<Longrightarrow> keeps ends (session_ok P) (require_shell_mount err k)"
  unfolding print_error_def require_shell_mount_def by (intro keeps_intros; assumption)+

lemma keeps_closing [keeps_intros]: "keeps ends (session_ok P) k \<Longrightarrow> keeps ends (session_ok P) (closing fd k)"
  unfolding closing_def by (intro keeps_intros files)

text \<open>The path handed on is valid.\<close>

lemma keeps_resolve [keeps_intros]:
  assumes err: "keeps ends (session_ok P) err" and k: "\<And>p. valid_path p \<Longrightarrow> keeps ends (session_ok P) (k p)"
  shows "keeps ends (session_ok P) (resolve_shell_path input cwd err k)"
proof (rule keepsI)
  fix x assume x: "session_ok P x"
  obtain s w where sw: "x = (s, w)" by fastforce
  define sel where "sel = (if input = None \<and> cwd then Some (current_directory s) else input)"
  have v: "valid_path (current_directory s)" using x by (simp add: session_ok_def sw)
  obtain r w1 where n: "normalize_shell_path (current_directory s) sel w = (r, w1)" by fastforce
  have run: "resolve_shell_path input cwd err k x = (case r of None \<Rightarrow> print_error ''path'' err (s, w1) | Some p \<Rightarrow> k p (s, w1))"
    using n by (simp add: resolve_shell_path_def with_shell_def calling_def sw sel_def)
  show "outcome ends (session_ok P) (resolve_shell_path input cwd err k x)"
  proof (cases r)
    case None
    then have "session_ok P (s, w1)"
      using n normalize_shell_path_run [OF v, of sel w] x own(1) by (auto simp: session_ok_def sw split: option.splits if_splits)
    then show ?thesis using run None keepsD [OF keeps_messages(1) [OF err]] by simp
  next
    case (Some p)
    note vp = normalize_shell_path_valid [OF v n [unfolded Some]]
    show ?thesis using run Some vp(2) keepsD [OF k [OF vp(1)] x] by (simp add: sw)
  qed
qed

lemma keeps_copy [keeps_intros]:
  assumes k: "keeps ends (session_ok P) k"
  shows "keeps ends (session_ok P) (copy_loop what fd k)"
proof (rule keepsI)
  fix x assume "session_ok P x"
  then show "outcome ends (session_ok P) (copy_loop what fd k x)"
  proof (induction "left fd (snd x)" arbitrary: x rule: less_induct)
    case less
    obtain r w1 where rd: "ufs_read (int fd) 256 (snd x) = (r, w1)" by fastforce
    then have w1: "session_ok P (fst x, w1)" "\<And>t. session_ok P ((fst x)\<lparr>printed := t\<rparr>, w1)"
      using less.prems preservesD [OF files(3) [of "int fd" 256], of "snd x"] by (simp_all add: session_ok_def)
    show ?case
    proof (cases r)
      case None
      then show ?thesis
        using rd keepsD [OF keeps_messages(1) [OF keeps_closing [OF keeps_basic(1)]] w1(1)] by (subst copy_loop.simps) simp
    next
      case (Some bs)
      show ?thesis
      proof (cases "bs = []")
        case True
        then show ?thesis using Some rd keepsD [OF k w1(1)] by (subst copy_loop.simps) simp
      next
        case False
        have "left fd w1 < left fd (snd x)"
          using copies [OF _ rd [unfolded Some] False] less.prems by (simp add: session_ok_def)
        then have "outcome ends (session_ok P) (copy_loop what fd k ((fst x)\<lparr>printed := printed (fst x) @ text_of bs\<rparr>, w1))"
          using w1(2) by (intro less.hyps) simp_all
        then show ?thesis using Some rd False by (subst copy_loop.simps) simp
      qed
    qed
  qed
qed

lemma keeps_blocks [keeps_intros]: "keeps ends (session_ok P) k \<Longrightarrow> keeps ends (session_ok P) (block_loop inode text ls k)"
  by (induction ls) (auto intro!: keeps_intros inner)

lemmas library = host names files inner own

lemma memory_kept: "preserves P (modify (\<lambda>w. w\<lparr>memory := f w\<rparr>) (ret ()))"
  by (simp add: preserves_def modify_def ret_def own)

lemma keeps_image [keeps_intros]:
  "keeps ends (session_ok P) show_help" "keeps ends (session_ok P) command_features" "keeps ends (session_ok P) command_format"
  "keeps ends (session_ok P) command_mount" "keeps ends (session_ok P) command_unmount" "keeps ends (session_ok P) command_pwd"
proof -
  have root: "valid_path ''/''" by (rule valid_path_examples)
  show "keeps ends (session_ok P) show_help" "keeps ends (session_ok P) command_features" "keeps ends (session_ok P) command_format"
    "keeps ends (session_ok P) command_mount" "keeps ends (session_ok P) command_unmount" "keeps ends (session_ok P) command_pwd"
    unfolding show_help_def command_features_def command_format_def command_mount_def command_unmount_def command_pwd_def to_root_def
    by (intro keeps_intros host; simp add: root)+
qed

lemma keeps_names [keeps_intros]:
  "keeps ends (session_ok P) (command_cd path)" "keeps ends (session_ok P) (command_ls path)"
  "keeps ends (session_ok P) (command_stat path nofollow)" "keeps ends (session_ok P) (command_readlink path)"
  "keeps ends (session_ok P) (command_create command path)" "keeps ends (session_ok P) (command_remove command path)"
  unfolding command_cd_def command_ls_def command_stat_def command_readlink_def command_create_def command_remove_def Let_def
  by (intro keeps_intros names; simp add: names)+

lemma keeps_optional [keeps_intros]:
  "(text = None \<Longrightarrow> keeps ends (session_ok P) c) \<Longrightarrow> (\<And>t. text = Some t \<Longrightarrow> keeps ends (session_ok P) (k t)) \<Longrightarrow>
   keeps ends (session_ok P) (case text of None \<Rightarrow> c | Some t \<Rightarrow> k t)"
  by (cases "text") simp_all

lemma keeps_number [keeps_intros]:
  "(\<And>a b c. keeps ends (session_ok P) (k a b c)) \<Longrightarrow> keeps ends (session_ok P) (case strtoull base t of (a, b, c) \<Rightarrow> k a b c)"
  by (cases "strtoull base t") simp

lemma parse_keeps: "preserves P (parse_mapping_number text)"
  by (auto simp: preserves_def parse_mapping_number_def modify_def require_def fail_def ret_def own split: option.splits prod.splits)

lemma keeps_link [keeps_intros]: "keeps ends (session_ok P) (command_link first second third)"
  unfolding command_link_def Let_def prod.case by (intro keeps_intros names)

lemma keeps_files [keeps_intros]:
  "keeps ends (session_ok P) (command_chmod mode_text path)" "keeps ends (session_ok P) (command_truncate path size_text)"
  "keeps ends (session_ok P) (command_cat path)"
  unfolding command_chmod_def command_truncate_def command_cat_def Let_def by (intro keeps_intros names files)+

lemma keeps_write [keeps_intros]: "keeps ends (session_ok P) (command_write path text appending)"
proof -
  have "preserves P (if appending then ret () else ufs_truncate p 0)" for p
    using names(12) by (cases appending) (simp_all add: preserves_def ret_def)
  then show ?thesis unfolding command_write_def Let_def by (intro keeps_intros files)
qed

lemma keeps_mappings [keeps_intros]:
  "keeps ends (session_ok P) (command_mmap_show path offset_text length_text)"
  "keeps ends (session_ok P) (command_mmap_write path offset_text text)"
  unfolding command_mmap_show_def command_mmap_write_def Let_def
  by (intro keeps_intros files parse_keeps memory_kept)+

lemma keeps_load [keeps_intros]: "(\<And>n i. keeps ends (session_ok P) (k n i)) \<Longrightarrow> keeps ends (session_ok P) (load_inode path k)"
  unfolding load_inode_def by (intro keeps_intros inner)

lemma keeps_inspection [keeps_intros]:
  "keeps ends (session_ok P) (command_inode path)" "keeps ends (session_ok P) (command_map path)"
  "keeps ends (session_ok P) command_super" "keeps ends (session_ok P) command_bitmap"
  unfolding command_inode_def command_map_def command_super_def command_bitmap_def Let_def
  by (intro keeps_intros inner)+

lemma keeps_show [keeps_intros]:
  assumes "\<not> ends" shows "keeps ends (session_ok P) (command_show path)"
proof -
  have "preserves P (asking ufs_mounted (\<lambda>m. require m EINVAL (ufs_read_block UFS_BLOCK_BITMAP_START_BLK)))"
    using preservesD [OF inner(6)] by (simp add: preserves_def asking_def require_def fail_def own)
  then show ?thesis unfolding command_show_def by (intro keeps_intros assms)
qed

lemma keeps_word [keeps_intros]:
  "(\<And>a b. keeps ends (session_ok P) (k a b)) \<Longrightarrow> keeps ends (session_ok P) (next_word text k)"
  by (simp add: next_word_def split: prod.split)

lemma keeps_run: "ends \<longrightarrow> command \<noteq> ''show'' \<Longrightarrow> keeps ends (session_ok P) (run_command command args)"
  unfolding run_command_def by (intro keeps_intros) simp_all

lemma line_keeps:
  assumes x: "session_ok P x" and word: "ends \<longrightarrow> fst (strtok blanks text) \<noteq> Some ''show''"
  shows "case execute_line text x of None \<Rightarrow> \<not> ends | Some (b, y) \<Rightarrow> session_ok P y"
proof -
  obtain c rest where st: "strtok blanks text = (c, rest)" by fastforce
  show ?thesis
  proof (cases c)
    case (Some command)
    have "outcome ends (session_ok P) (run_command command rest x)"
      using keepsD [OF keeps_run x] word st Some by simp
    then show ?thesis using x st Some
      by (auto simp: execute_line_def next_word_def outcome_def split: option.splits)
  qed (use x st in \<open>simp add: execute_line_def next_word_def\<close>)
qed

lemma loop_keeps:
  "session_ok P x \<Longrightarrow> ends \<longrightarrow> (\<forall>l \<in> set (lines_of input). fst (strtok blanks l) \<noteq> Some ''show'') \<Longrightarrow>
   outcome ends (session_ok P) (main_loop input x)"
proof (induction input x rule: main_loop.induct)
  case (1 input x)
  have p: "session_ok P (show_prompt x)" using "1.prems"(1) by (cases x) (simp add: session_ok_def show_prompt_def)
  show ?case
  proof (cases "input = []")
    case True
    then show ?thesis using keepsD [OF keeps_basic(2) [OF keeps_basic(1)] p] by (simp add: main_loop.simps)
  next
    case False
    define l where "l = to_nul (fst (fgets input))"
    have ls: "lines_of input = l # lines_of (snd (fgets input))" using False by (subst lines_of.simps) (simp add: l_def)
    have run: "main_loop input x = (case execute_line l (show_prompt x) of None \<Rightarrow> None | Some (False, x) \<Rightarrow> Some x
        | Some (True, x) \<Rightarrow> main_loop (snd (fgets input)) x)"
      using False by (subst main_loop.simps) (simp add: l_def)
    have l: "case execute_line l (show_prompt x) of None \<Rightarrow> \<not> ends | Some (b, y) \<Rightarrow> session_ok P y"
      using line_keeps [OF p] "1.prems"(2) ls by simp
    show ?thesis
    proof (cases "execute_line l (show_prompt x)")
      case None
      then show ?thesis using run l by (simp add: outcome_def)
    next
      case (Some bz)
      obtain b z where bz: "bz = (b, z)" by (rule prod.exhaust)
      have z: "session_ok P z" using l Some bz by simp
      show ?thesis
      proof (cases b)
        case True
        have "outcome ends (session_ok P) (main_loop (snd (fgets input)) z)"
          using "1.IH" [OF refl False, of bz b z] Some bz True z "1.prems"(2) ls by (simp add: l_def)
        then show ?thesis using run Some bz True by simp
      qed (use run Some bz z in \<open>simp add: outcome_def\<close>)
    qed
  qed
qed

lemma main_keeps:
  assumes "P w" and input: "ends \<longrightarrow> (\<forall>l \<in> set (lines_of input). fst (strtok blanks l) \<noteq> Some ''show'')"
  shows "case main arg strerror input w of None \<Rightarrow> \<not> ends | Some (r, x) \<Rightarrow> session_ok P x"
proof -
  define img_path where "img_path = (case arg of None \<Rightarrow> ''userfs_live.img'' | Some a \<Rightarrow> a)"
  define s0 where "s0 = \<lparr>mounted = False, image_path = img_path, current_directory = ''/'', messages = strerror,
               printed = line ''UserFS interactive demonstration'' @ line (''Image: '' @ img_path) @
                 line (''Run '' @ [CHR 0x27] @ ''help'' @ [CHR 0x27] @ '' to see commands.'') @ line []\<rparr>"
  have "session_ok P (s0, w)" using assms(1) valid_path_examples(2) by (simp add: session_ok_def s0_def)
  note lp = loop_keeps [OF this input]
  note m = main_def [of arg strerror input w, unfolded Let_def, folded img_path_def, folded s0_def]
  show ?thesis
  proof (cases "main_loop input (s0, w)")
    case None
    then show ?thesis using lp m by (simp add: outcome_def)
  next
    case (Some x)
    obtain s w2 where x: "x = (s, w2)" by fastforce
    have ok: "session_ok P (s, w2)" using lp Some x by (simp add: outcome_def)
    obtain u w3 where um: "ufs_unmount w2 = (u, w3)" by fastforce
    then have ok3: "session_ok P (s, w3)" using ok preservesD [OF host(3), of w2] by (simp add: session_ok_def)
    have at_end: "case map_option (Pair (n :: nat)) r of None \<Rightarrow> \<not> ends | Some (_, x) \<Rightarrow> session_ok P x"
      if "outcome ends (session_ok P) r" for n r
      using that by (cases r) (simp_all add: outcome_def)
    show ?thesis
      using m Some x ok um at_end [OF keepsD [OF keeps_messages(1) [OF keeps_basic(1)] ok3]]
        at_end [OF keepsD [OF keeps_basic(2) [OF keeps_basic(1)] ok3]]
      by (cases u) simp_all
  qed
qed

end

section \<open>The interpretation\<close>

definition orderly :: "world \<Rightarrow> bool" where
  "orderly w \<longleftrightarrow> tables_ok w \<and> outermost w"

lemma orderly_kept: "preserves tables_ok m \<Longrightarrow> preserves outermost m \<Longrightarrow> preserves orderly m"
  by (simp add: preserves_def orderly_def)

lemma orderly_copies:
  "orderly w \<Longrightarrow> ufs_read (int fd) 256 w = (Some bs, w1) \<Longrightarrow> bs \<noteq> [] \<Longrightarrow>
   2 ^ 64 - unat (fde_offset (descriptor fd w1)) < 2 ^ 64 - unat (fde_offset (descriptor fd w))"
  using read_progress [of "int fd" 256 w bs w1] unsigned_less [of "fde_offset (descriptor fd w1)", where ?'a = nat]
  by (simp add: orderly_def tables_ok_def diff_less_mono2)

interpretation orderly: shell_frame ends orderly "\<lambda>fd w. 2 ^ 64 - unat (fde_offset (descriptor fd w))" for ends
  by unfold_locales
    ((rule orderly_kept;
      (fact tables.format_keeps tables.mount_keeps tables.unmount_keeps tables.namespace_keeps tables.attributes_keep
         tables.transfers_keep tables_operations tables.quiet_resolve_final tables.quiet_flush tables.quiet_alloc
         tables.quiet_blocks lock_state.format_keeps lock_state.mount_keeps lock_state.unmount_keeps locks_given_back
         lock_state.quiet_resolve_final lock_state.quiet_flush lock_state.quiet_alloc lock_state.quiet_blocks))
     | (rule orderly_copies; assumption) | simp add: orderly_def)+

section \<open>Properties\<close>

text \<open>C37: The paths of the shell. In a valid current directory, \<open>normalize_shell_path\<close> refuses a missing or
  empty path with EINVAL and a path whose result would be too long with ENAMETOOLONG. Otherwise it gives
  the valid path of the component list that starts as the root or as the components of the current
  directory and is changed by each component in turn: a dot keeps it, a double dot drops the last
  component if there is one, any other name is added.\<close>

theorem shell_path_spec:
  assumes cwd: "valid_path cwd"
  shows "case normalize_shell_path cwd input w of
      (None, w1) \<Rightarrow>
        (case input of
           None \<Rightarrow> w1 = w\<lparr>errno := EINVAL\<rparr>
         | Some i \<Rightarrow>
             if i = [] then w1 = w\<lparr>errno := EINVAL\<rparr>
             else w1 = w\<lparr>errno := ENAMETOOLONG\<rparr> \<and>
               norm_parts (if i ! 0 = slash then [] else rev (components cwd)) (path_parts i) = None)
    | (Some p, w1) \<Rightarrow> w1 = w \<and> valid_path p \<and>
        (\<exists>i. input = Some i \<and> i \<noteq> [] \<and>
           p = path_of (rev (fold apply_part (path_parts i) (if i ! 0 = slash then [] else rev (components cwd)))))"
proof -
  obtain r w1 where r: "normalize_shell_path cwd input w = (r, w1)" by fastforce
  note run = r [unfolded normalize_shell_path_run [OF cwd]]
  show ?thesis
  proof (cases r)
    case None
    then show ?thesis using run r by (auto split: option.splits if_splits)
  next
    case (Some p)
    then obtain i st where i: "input = Some i" "i \<noteq> []" "p = path_of (rev st)"
        "norm_parts (if i ! 0 = slash then [] else rev (components cwd)) (path_parts i) = Some st"
      using run by (auto split: option.splits if_splits)
    have init: "valid_path (path_of (rev (if i ! 0 = slash then [] else rev (components cwd))))"
        "set (if i ! 0 = slash then [] else rev (components cwd)) \<subseteq> Collect valid_component"
      using components_valid [OF cwd] cwd root_valid by auto
    have "st = fold apply_part (path_parts i) (if i ! 0 = slash then [] else rev (components cwd))"
      using norm_parts_result [OF i(4) _ init] path_parts_no_slash by auto
    then show ?thesis
      using normalize_shell_path_valid [OF cwd r [unfolded Some]] i r Some by auto
  qed
qed

theorem shell_path_spec_witness:
  "case normalize_shell_path ''/etc/rc'' (Some ''../b'') blank_world of (None, w1) \<Rightarrow> False | (Some p, w1) \<Rightarrow> p = ''/etc/b''"
proof -
  have "components ''/etc/rc'' = [''etc'', ''rc'']" by (simp add: components_def path_parts.simps)
  moreover have "valid_path ''/etc/rc''" by (rule valid_path_examples)
  ultimately show ?thesis
    using shell_path_spec [OF valid_path_examples(1), of blank_world "Some ''../b''"]
    by (simp add: path_parts.simps normalize_shell_path_run path_of_def)
qed

text \<open>C25: What every session of the shell keeps. Whatever the standard input and the name of the image are, and
  whatever system calls fail in the course of it, a session that starts with well-typed tables of
  open objects and a free operation lock comes to an end, unless one of its lines asks for \<open>show\<close>. It then
  has both again, and a valid absolute path as the current directory; the latter holds of sessions with
  \<open>show\<close> too, as far as they have a defined end.\<close>

theorem session_invariant:
  assumes "tables_ok w" and "outermost w"
  shows "case main arg strerror input w of
      None \<Rightarrow> \<exists>l \<in> set (lines_of input). fst (strtok blanks l) = Some ''show''
    | Some (status, (s, w1)) \<Rightarrow> valid_path (current_directory s) \<and> tables_ok w1 \<and> outermost w1"
proof -
  have w: "orderly w" using assms by (simp add: orderly_def)
  show ?thesis
    using orderly.main_keeps [OF w, of True input arg strerror] orderly.main_keeps [OF w, of False input arg strerror]
    by (auto simp: session_ok_def orderly_def split: option.splits prod.splits)
qed

text \<open>A session that asks for the directory before it has mounted anything.\<close>

lemma short_session:
  "main None (\<lambda>_. ''?'') (line ''pwd'') w = Some (0, (\<lparr>mounted = False, image_path = ''userfs_live.img'',
     current_directory = ''/'', messages = (\<lambda>_. ''?''),
     printed = line ''UserFS interactive demonstration'' @ line ''Image: userfs_live.img'' @
       line (''Run '' @ [CHR 0x27] @ ''help'' @ [CHR 0x27] @ '' to see commands.'') @ line [] @ ''userfs(unmounted)> '' @
       line (''ERROR: first run '' @ [CHR 0x27] @ ''mount'' @ [CHR 0x27] @ '' (or '' @ [CHR 0x27] @ ''format'' @ [CHR 0x27] @
         '', then '' @ [CHR 0x27] @ ''mount'' @ [CHR 0x27] @ '').'') @ ''userfs(unmounted)> '' @ line []\<rparr>, w))"
  by (simp add: main_def main_loop.simps show_prompt_def fgets_def to_nul_def line_def execute_line_def next_word_def
      strtok_def blanks_def run_command_def command_pwd_def require_shell_mount_def with_shell_def print_def stop_def)

lemma tables_blank: "tables_ok blank_world" "outermost blank_world"
  by (simp_all add: tables_ok_def outermost_def blank_world_def zero_entries)

theorem session_invariant_witness:
  "case main None (\<lambda>_. ''?'') (line ''pwd'') blank_world of None \<Rightarrow> False
     | Some (status, (s, w1)) \<Rightarrow> valid_path (current_directory s) \<and> tables_ok w1 \<and> outermost w1"
  using session_invariant [OF tables_blank, where arg = None and strerror = "\<lambda>_. ''?''" and input = "line ''pwd''"] short_session [of blank_world] by simp

end
