(* ===== verification/Ufs_Persist.thy ===== *)
theory Ufs_Persist
  imports Ufs_Commit Ufs_Attr
begin

text \<open>
  A commit without injected faults, as a function of the world, and with it \<open>persist_inode\<close>: the one
  inode changes, and outside the journal area nothing else does.
\<close>

lemma batch_calm:
  assumes "calm w" and "\<forall>(i, v) \<in> set xs. i < UFS_TOTAL_BLOCKS \<and> length v = 512"
  shows "batch xs w = (Some (), synced (put_all put_blk xs w)) \<and> calm (synced (put_all put_blk xs w))"
  using write_list_calm [OF assms] assms by (simp add: batch_def run_simps io_simps synced_def)

lemma batches_calm:
  "calm w \<Longrightarrow> \<forall>xs \<in> set xss. \<forall>(i, v) \<in> set xs. i < UFS_TOTAL_BLOCKS \<and> length v = 512 \<Longrightarrow>
   batches xss w = (Some (), run_batches xss w) \<and> calm (run_batches xss w)"
proof (induction xss arbitrary: w)
  case (Cons xs xss)
  then show ?case using batch_calm [of w xs] by (simp add: run_simps)
qed (simp add: ret_def)

text \<open>What a run of batches leaves alone besides the disk.\<close>

lemma mapping_table_put_all [simp]: "mapping_table (put_all put_blk xs w) = mapping_table w"
  by (induction xs arbitrary: w) (auto simp: put_all_def put_blk_def)

lemma run_batches_fields:
  "descriptor_table (run_batches xss w) = descriptor_table w" "errno (run_batches xss w) = errno w"
  "ufs_sb (run_batches xss w) = ufs_sb w" "ufs_mounted (run_batches xss w) = ufs_mounted w"
  "mapping_table (run_batches xss w) = mapping_table w" "ticks (run_batches xss w) = ticks w"
  by (induction xss arbitrary: w) (simp_all add: synced_def)

lemma commit_calm:
  assumes "calm w" and "tx_wf tx"
  shows "\<exists>w1. ufs_tx_commit tx w = (Some (), w1) \<and> calm w1 \<and>
    (\<forall>b. \<not> in_journal b \<longrightarrow> blk w1 b = tx_block tx w b) \<and>
    descriptor_table w1 = descriptor_table w \<and> errno w1 = errno w \<and> ufs_sb w1 = ufs_sb w \<and>
    ufs_mounted w1 = ufs_mounted w \<and> mapping_table w1 = mapping_table w \<and> ticks w1 = ticks w"
proof (cases "tx_num_blocks tx = 0")
  case True
  then have "staged tx = []" by (metis length_0_conv length_staged)
  then show ?thesis using True assms(1) by (simp add: ufs_tx_commit_def ret_def tx_block_def)
next
  case False
  let ?bs = "[log_writes tx, commit_writes tx, staged tx, clears]"
  have fit: "\<forall>xs \<in> set ?bs. \<forall>(i, v) \<in> set xs. i < UFS_TOTAL_BLOCKS \<and> length v = 512"
    using log_writes_fit [OF assms(2)] staged_fit [OF assms(2)] commit_writes_fit [of tx] by (simp add: clears_def)
  have run: "ufs_tx_commit tx w = (Some (), run_batches ?bs w)" "calm (run_batches ?bs w)"
    using batches_calm [OF assms(1) fit] commit_batches [OF False] by simp_all
  have "steady w" using assms(1) by (simp add: steady_def calm_def sector_script_def)
  from commit_done [OF this assms(2) False run(1)]
  have "\<forall>b. \<not> in_journal b \<longrightarrow> blk (run_batches ?bs w) b = tx_block tx w b" by (simp add: tx_block_def)
  then show ?thesis using run run_batches_fields [of ?bs w] by blast
qed

text \<open>Staging one inode in a new transaction always succeeds.\<close>

lemma persist_inode_live:
  assumes l: "live w" and n: "n < UFS_MAX_INODES" and ino: "ino_wf ino"
  shows "\<exists>w1. persist_inode n ino w = (Some (), w1) \<and> live w1 \<and>
    (\<forall>b. \<not> in_journal b \<longrightarrow> blk w1 b = blk (put_inode n ino w) b) \<and>
    descriptor_table w1 = descriptor_table w \<and> errno w1 = errno w \<and> ticks w1 = ticks w"
proof -
  have c: "calm w" using l unfolding live_def by blast
  define tx where "tx = zero_tx\<lparr>tx_seq := journal_seq w, tx_num_blocks := 0\<rparr>"
  define w0 where "w0 = w\<lparr>journal_seq := journal_seq w + 1\<rparr>"
  have b: "ufs_tx_begin w = (Some tx, w0)" "w0 = w\<lparr>journal_seq := journal_seq w + 1\<rparr>"
    unfolding ufs_tx_begin_def asking_def modify_def ret_def tx_def w0_def by (rule refl)+
  have tx: "tx_wf tx" "staged tx = []" using tx_wf_begin [OF b(1)] by simp_all
  have c0: "calm w0" using c b(2) by simp
  let ?k = "10 + n div 4"
  let ?v = "overlay (n mod 4 * 128) (enc_inode ino) (tx_block tx w0 ?k)"
  have len: "length ?v = 512" using inode_slot_bound [of n] length_tx_block [OF tx(1)] ino by simp
  have nd: "n div 4 < 128" using n by linarith
  then have k: "\<not> bad_target ?k" by (simp add: bad_target_def)
  have none: "tx_find tx ?k = None" using tx(2) by (simp add: tx_find_None)
  have room: "tx_num_blocks tx < UFS_MAX_TX_BLOCKS" using tx(2) by (metis length_0_conv length_staged zero_less_numeral)
  have st: "ufs_tx_stage_inode tx n ino w0 = (Some (tx_push tx ?k ?v), w0)"
    using stage_inode_run [OF tx(1) c0 n] none k room by (simp add: stage_block_cases)
  have "ufs_tx_stage_block tx ?k ?v w0 = (Some (tx_push tx ?k ?v), w0)" using none k room by (simp add: stage_block_cases)
  from stage_block_staged [OF tx(1) len this] have wf: "tx_wf (tx_push tx ?k ?v)"
    and m: "map_of (staged (tx_push tx ?k ?v)) = (map_of (staged tx))(?k \<mapsto> ?v)" by blast+
  obtain w1 where cm: "ufs_tx_commit (tx_push tx ?k ?v) w0 = (Some (), w1)" "calm w1"
      "\<forall>b. \<not> in_journal b \<longrightarrow> blk w1 b = tx_block (tx_push tx ?k ?v) w0 b"
      "descriptor_table w1 = descriptor_table w0" "errno w1 = errno w0" "ufs_sb w1 = ufs_sb w0"
      "ufs_mounted w1 = ufs_mounted w0" "ticks w1 = ticks w0"
    using commit_calm [OF c0 wf] by blast
  have "tx_block (tx_push tx ?k ?v) w0 b = blk (put_inode n ino w) b" for b
    using m tx(2) len nd by (simp add: tx_block_def put_inode_def inode_block_def b(2))
  then have "\<forall>b. \<not> in_journal b \<longrightarrow> blk w1 b = blk (put_inode n ino w) b" using cm(3) by simp
  moreover have "persist_inode n ino w = (Some (), w1)"
    using b(1) st cm(1) by (simp add: persist_inode_def run_simps)
  moreover have "live w1"
  proof -
    have "live w0" using l b(2) by simp
    then show ?thesis using cm(2,6,7) unfolding live_def by metis
  qed
  ultimately show ?thesis using cm b(2) by (intro exI [of _ w1]) simp
qed

end
