(* ===== verification/Ufs_Bytes.thy ===== *)
theory Ufs_Bytes
  imports Ufs_Content Ufs_Persist Ufs_FileIO
begin

text \<open>
  \<open>read\<close> and \<open>write\<close> of open files against the list of bytes of the file: the transfer loops are
  a \<open>field\<close> and an \<open>overlay\<close> of that list, the operations add the descriptor checks, the growth of the
  file and the inode that goes through the journal.
\<close>

section \<open>Descriptors and contents\<close>

lemma set_descriptor_views [simp]:
  "blk (set_descriptor k d w) = blk w" "inode_at (set_descriptor k d w) = inode_at w"
  "block_used (set_descriptor k d w) = block_used w" "inode_used (set_descriptor k d w) = inode_used w"
  "live (set_descriptor k d w) = live w" "errno (set_descriptor k d w) = errno w"
  by (simp_all add: set_descriptor_def block_used_def block_bitmap_def inode_used_def fun_eq_iff)

lemma descriptor_set [simp]:
  "k < length (descriptor_table w) \<Longrightarrow> descriptor k (set_descriptor k d w) = d"
  "length (descriptor_table (set_descriptor k d w)) = length (descriptor_table w)"
  by (simp_all add: descriptor_def set_descriptor_def)

lemma set_offset_views [simp]:
  "blk (set_offset k p w) = blk w" "inode_at (set_offset k p w) = inode_at w"
  "live (set_offset k p w) = live w" "errno (set_offset k p w) = errno w"
  "length (descriptor_table (set_offset k p w)) = length (descriptor_table w)"
  "k < length (descriptor_table w) \<Longrightarrow> descriptor k (set_offset k p w) = (descriptor k w)\<lparr>fde_offset := p\<rparr>"
  by (simp_all add: set_offset_def)

lemma set_offset_same [simp]: "set_offset k (fde_offset (descriptor k w)) w = w"
  by (simp add: set_offset_def set_descriptor_def descriptor_def list_update_id)

lemma set_offset_twice [simp]:
  "k < length (descriptor_table w) \<Longrightarrow> set_offset k p (set_offset k q w) = set_offset k p w"
  by (simp add: set_offset_def set_descriptor_def descriptor_def)

text \<open>Everything about a file depends on the blocks alone.\<close>

lemma slot_ptr_blk: "blk w1 = blk w \<Longrightarrow> slot_ptr (i, w1) t = slot_ptr (i, w) t"
  by (cases t) (simp_all add: slot_ptr.simps pointer_at_def pointers_def)

lemma file_blk:
  assumes "blk w1 = blk w"
  shows "file_ok (i, w1) = file_ok (i, w)" "contents (i, w1) = contents (i, w)"
    "owned_blocks (i, w1) = owned_blocks (i, w)" "block_used w1 = block_used w" "inode_used w1 = inode_used w"
proof -
  note s = slot_ptr_blk [OF assms, of i]
  show u: "block_used w1 = block_used w" "inode_used w1 = inode_used w"
    using assms by (simp_all add: block_used_def block_bitmap_def inode_used_def fun_eq_iff)
  show "file_ok (i, w1) = file_ok (i, w)" "owned_blocks (i, w1) = owned_blocks (i, w)"
    using s u assms by (simp_all add: file_ok_def file_wf_def used_slots_def inj_on_def maps_exactly_def zero_behind_def lean_def bmap_def
        file_size_def file_byte_def block_data_def owned_blocks_def)
  show "contents (i, w1) = contents (i, w)"
    using s assms by (simp add: contents_def file_byte_def block_data_def bmap_def file_size_def)
qed

lemma file_set_offset [simp]:
  "file_ok (i, set_offset k p w) = file_ok (i, w)" "contents (i, set_offset k p w) = contents (i, w)"
  using file_blk [of "set_offset k p w" w] by simp_all

section \<open>Positions\<close>

lemma positions:
  assumes "unat p \<le> UFS_MAX_FILE_BLOCKS * 512"
  shows "block_of_position p = unat p div 512" "inside_block p = unat p mod 512"
proof -
  have "unat (p div 512) = unat p div 512" by (simp add: unat_div)
  moreover have "unat p div 512 < 2 ^ 32" using assms by simp
  ultimately show "block_of_position p = unat p div 512"
    by (simp add: block_of_position_def unsigned_ucast_eq take_bit_nat_eq_self)
  show "inside_block p = unat p mod 512" by (simp add: inside_block_def unat_mod)
qed

lemma unat_plus_small:
  assumes "unat (p :: u64) + n \<le> UFS_MAX_FILE_BLOCKS * 512" shows "unat (p + of_nat n) = unat p + n"
proof -
  have "unat (of_nat n :: u64) = n" using assms by (subst unat_of_nat) simp
  then show ?thesis using assms by (subst unat_plus_if') simp
qed

lemma div_mod_offset: "(p :: nat) mod 512 + t < 512 \<Longrightarrow> (p + t) div 512 = p div 512 \<and> (p + t) mod 512 = p mod 512 + t"
proof -
  have "(q * 512 + r + t) div 512 = q \<and> (q * 512 + r + t) mod 512 = r + t" if "r + t < 512" for q r :: nat
    using that by (simp add: add.assoc)
  from this [of "p mod 512" "p div 512"] show "p mod 512 + t < 512 \<Longrightarrow> ?thesis" by simp
qed

lemma field_block:
  assumes "p mod 512 + c \<le> 512" and "p + c \<le> file_size s"
  shows "field (p mod 512) c (block_data s (p div 512)) = field p c (contents s)"
proof (rule nth_equalityI)
  show "length (field (p mod 512) c (block_data s (p div 512))) = length (field p c (contents s))"
    using assms by simp
  fix t assume "t < length (field (p mod 512) c (block_data s (p div 512)))"
  then have "t < c" using assms by simp
  then show "field (p mod 512) c (block_data s (p div 512)) ! t = field p c (contents s) ! t"
    using assms div_mod_offset [of p t] by (simp add: nth_field nth_contents file_byte_def)
qed

lemma position_block:
  assumes ok: "file_ok (i, w)" and l: "live w" and p: "unat p < unat (ino_size i)"
  shows "mapped_block i p w = (Some (unat (bmap w i (unat p div 512))), w)"
    "unat p div 512 < UFS_MAX_FILE_BLOCKS" "bmap w i (unat p div 512) \<noteq> UFS_INVALID_BLOCK"
    "unat (bmap w i (unat p div 512)) < UFS_TOTAL_BLOCKS" "block_of_position p = unat p div 512"
    "inside_block p = unat p mod 512"
proof -
  have sz: "unat p \<le> UFS_MAX_FILE_BLOCKS * 512" using file_okD(2) [OF ok] p by simp
  show pos: "block_of_position p = unat p div 512" "inside_block p = unat p mod 512" using positions [OF sz] .
  have need: "unat p div 512 < blocks_needed (unat (ino_size i))" using p by (rule blocks_needed_bounds(4))
  then show lb: "unat p div 512 < UFS_MAX_FILE_BLOCKS" using needed_le [OF file_okD(2) [OF ok]] by simp
  show nb: "bmap w i (unat p div 512) \<noteq> UFS_INVALID_BLOCK" using file_okD(3) [OF ok lb] need by simp
  show "unat (bmap w i (unat p div 512)) < UFS_TOTAL_BLOCKS"
    using in_data_regionD(2) [OF bmap_region(1) [OF file_okD(1) [OF ok] lb nb]] .
  show "mapped_block i p w = (Some (unat (bmap w i (unat p div 512))), w)"
    unfolding mapped_block_def pos using l file_okD(1) [OF ok] lb nb by (simp add: io_simps run_simps ret_def)
qed

section \<open>The read loop\<close>

lemma chunk_bounds:
  assumes "inside_block p = unat p mod 512" and "0 < left"
  shows "unat p mod 512 + chunk_at p left \<le> 512" "chunk_at p left \<le> left" "0 < chunk_at p left"
  using assms mod_less_divisor [of 512 "unat p"] chunk_at_le chunk_at_pos by (auto simp: chunk_at_def)

lemma read_loop_run:
  assumes "live w" and "file_ok (i, w)" and "k < length (descriptor_table w)" and "moved \<le> count"
    and "unat (fde_offset (descriptor k w)) + (count - moved) \<le> unat (ino_size i)"
  shows "read_loop k i count moved buf w =
    (Some (buf @ field (unat (fde_offset (descriptor k w))) (count - moved) (contents (i, w)), True),
     set_offset k (fde_offset (descriptor k w) + of_nat (count - moved)) w)"
  using assms
proof (induction "count - moved" arbitrary: moved buf w rule: less_induct)
  case less
  show ?case
  proof (cases "moved < count")
    case False
    then show ?thesis unfolding read_loop.simps [of k i count moved buf w] using less.prems(4) by (simp add: field_def)
  next
    case True
    let ?p = "fde_offset (descriptor k w)"
    let ?c = "chunk_at ?p (count - moved)"
    let ?w = "set_offset k (?p + of_nat ?c) w"
    have p: "unat ?p < unat (ino_size i)" using less.prems(5) True by simp
    note pb = position_block [OF less.prems(2,1) p]
    have left: "0 < count - moved" using True by simp
    note ch = chunk_bounds [OF pb(6) left]
    have up: "unat (?p + of_nat ?c) = unat ?p + ?c"
      using less.prems(5) ch(2) file_okD(2) [OF less.prems(2)] by (intro unat_plus_small) simp
    have read: "on_ok (mapped_block i ?p) ufs_read_block w = (Some (block_data (i, w) (unat ?p div 512)), w)"
      using pb(1,4) less.prems(1) by (simp add: run_simps io_simps block_data_def)
    have data: "field (inside_block ?p) ?c (block_data (i, w) (unat ?p div 512)) = field (unat ?p) ?c (contents (i, w))"
      unfolding pb(6) using ch(1,2) less.prems(5) by (intro field_block) (simp_all add: file_size_def)
    have rest: "count - (moved + ?c) = count - moved - ?c" by simp
    have desc: "fde_offset (descriptor k ?w) = ?p + of_nat ?c" using less.prems(3) by simp
    have h: "count - (moved + ?c) < count - moved" "moved + ?c \<le> count" using ch(2,3) True by linarith+
    have view: "live ?w" "file_ok (i, ?w)" "k < length (descriptor_table ?w)" using less.prems(1-3) by simp_all
    have fits: "unat (fde_offset (descriptor k ?w)) + (count - (moved + ?c)) \<le> unat (ino_size i)"
      unfolding desc up using less.prems(5) ch(2) by linarith
    note IH = less.hyps [OF h(1) view h(2) fits, of "buf @ field (unat ?p) ?c (contents (i, w))",
        unfolded desc up rest file_set_offset set_offset_twice [OF less.prems(3)]]
    have "read_loop k i count moved buf w =
        read_loop k i count (moved + ?c) (buf @ field (unat ?p) ?c (contents (i, w))) ?w"
      unfolding read_loop.simps [of k i count moved buf w] Let_def using True read data by simp
    also note IH
    also have "(buf @ field (unat ?p) ?c (contents (i, w))) @ field (unat ?p + ?c) (count - moved - ?c) (contents (i, w)) =
        buf @ field (unat ?p) (count - moved) (contents (i, w))"
      unfolding append_assoc field_join le_add_diff_inverse [OF ch(2)] by (rule refl)
    also have "?p + of_nat ?c + of_nat (count - moved - ?c) = ?p + of_nat (count - moved)"
      unfolding add.assoc of_nat_add [symmetric] le_add_diff_inverse [OF ch(2)] by (rule refl)
    finally show ?thesis .
  qed
qed

section \<open>The write loop\<close>

lemma write_chunk_run:
  assumes "live w" and "b < UFS_TOTAL_BLOCKS" and "inside + length data \<le> 512"
  shows "write_chunk b inside data w = (Some (), put_blk b (overlay inside data (blk w b)) w)"
proof (cases "inside = 0 \<and> length data = 512")
  case True
  then have "overlay inside data (blk w b) = data" by (simp add: overlay_def)
  then show ?thesis using True assms by (simp add: write_chunk_def run_simps io_simps ret_def)
next
  case False
  then show ?thesis using assms unfolding write_chunk_def if_not_P [OF False] by (simp add: run_simps io_simps ret_def)
qed

lemma overlay_append:
  assumes "off + length xs + length ys \<le> length bs"
  shows "overlay (off + length xs) ys (overlay off xs bs) = overlay off (xs @ ys) bs"
  using assms by (simp add: overlay_def add_ac)

lemma overlay_Nil: "off \<le> length bs \<Longrightarrow> overlay off [] bs = bs"
  by (simp add: overlay_def)

text \<open>One block written inside the file.\<close>

lemma put_bytes:
  assumes l: "live w" and ok: "file_ok (i, w)" and lb: "lb < UFS_MAX_FILE_BLOCKS" "bmap w i lb \<noteq> UFS_INVALID_BLOCK"
    and d: "inside + length d \<le> 512" "lb * 512 + inside + length d \<le> unat (ino_size i)"
  defines "w1 \<equiv> put_blk (unat (bmap w i lb)) (overlay inside d (block_data (i, w) lb)) w"
  shows "file_step n (i, w) (i, w1)" "file_ok (i, w1)" "contents (i, w1) = overlay (lb * 512 + inside) d (contents (i, w))"
    "m < UFS_MAX_INODES \<Longrightarrow> inode_at w1 m = inode_at w m" "descriptor_table w1 = descriptor_table w"
    "errno w1 = errno w"
proof -
  note wf = file_okD(1) [OF ok]
  have len: "length (overlay inside d (block_data (i, w) lb)) = 512" using d(1) by simp
  note put = put_data_block [OF l wf lb len, folded w1_def]
  show st: "file_step n (i, w) (i, w1)" by (rule put(1))
  have reg: "in_data_region (unat (bmap w i lb))" using bmap_region(1) [OF wf lb] .
  show "m < UFS_MAX_INODES \<Longrightarrow> inode_at w1 m = inode_at w m" "descriptor_table w1 = descriptor_table w" "errno w1 = errno w"
    using in_data_regionD [OF reg] len by (simp_all add: w1_def)
  let ?s = "(i, w)" and ?t = "(i, w1)"
  have byte: "file_byte ?t p = (if lb * 512 + inside \<le> p \<and> p < lb * 512 + inside + length d
      then d ! (p - (lb * 512 + inside)) else file_byte ?s p)"
    if p: "p < blocks_needed (unat (ino_size i)) * 512" for p
  proof -
    have pb: "p div 512 < UFS_MAX_FILE_BLOCKS" "p div 512 < blocks_needed (unat (ino_size i))"
      using block_lt [OF p needed_le [OF file_okD(2) [OF ok]]] by simp_all
    have nb: "bmap w i (p div 512) \<noteq> UFS_INVALID_BLOCK" using file_okD(3) [OF ok pb(1)] pb(2) by simp
    show ?thesis
    proof (cases "p div 512 = lb")
      case True
      have pe: "p = lb * 512 + p mod 512" using div_mult_mod_eq [of p 512] True by simp
      have "file_byte ?t p = overlay inside d (block_data ?s lb) ! (p mod 512)"
        using put(3) [OF pb(1) nb] True by (simp add: file_byte_def)
      also have "\<dots> = (if inside \<le> p mod 512 \<and> p mod 512 < inside + length d then d ! (p mod 512 - inside) else block_data ?s lb ! (p mod 512))"
        using d(1) by (intro nth_overlay) simp_all
      moreover have "inside \<le> p mod 512 \<longleftrightarrow> lb * 512 + inside \<le> p" "p mod 512 < inside + length d \<longleftrightarrow> p < lb * 512 + inside + length d"
          "p mod 512 - inside = p - (lb * 512 + inside)"
        using pe by linarith+
      ultimately show ?thesis using True by (simp add: file_byte_def)
    next
      case False
      then have "\<not> (lb * 512 + inside \<le> p \<and> p < lb * 512 + inside + length d)"
      proof (intro notI)
        assume a: "lb * 512 + inside \<le> p \<and> p < lb * 512 + inside + length d"
        then have "lb * 512 \<le> p" "p < lb * 512 + 512" using d(1) by linarith+
        then have "p div 512 = lb" by (intro div_nat_eqI) simp_all
        then show False using False by simp
      qed
      moreover have "block_data ?t (p div 512) = block_data ?s (p div 512)" using put(3) [OF pb(1) nb] False by simp
      ultimately show ?thesis by (simp only: file_byte_def if_False)
    qed
  qed
  have sz: "file_size ?t = unat (ino_size i)" "file_size ?s = unat (ino_size i)" by (simp_all add: file_size_def)
  have "maps_exactly (blocks_needed (unat (ino_size i))) ?t"
    using put(2) ok by (simp add: file_ok_def maps_exactly_def sz)
  moreover have "zero_behind (unat (ino_size i)) ?t"
    unfolding zero_behind_def
  proof (intro allI impI)
    fix p assume p: "unat (ino_size i) \<le> p" "p < blocks_needed (unat (ino_size i)) * 512"
    then show "file_byte ?t p = 0" using byte [OF p(2)] d(2) file_okD(4) [OF ok p] by simp
  qed
  moreover have "lean ?t" using file_okD(5) [OF ok] put(4) by (simp add: lean_def file_size_def)
  ultimately show "file_ok ?t" using file_stepD(1) [OF st] file_okD(2) [OF ok] by (simp add: file_ok_def sz)
  show "contents ?t = overlay (lb * 512 + inside) d (contents ?s)"
  proof (rule nth_equalityI)
    show "length (contents ?t) = length (overlay (lb * 512 + inside) d (contents ?s))" using d(2) by (simp add: sz)
    fix p assume "p < length (contents ?t)"
    then have p: "p < unat (ino_size i)" by (simp add: sz)
    then have "p < blocks_needed (unat (ino_size i)) * 512" using blocks_needed_bounds(1) [of "unat (ino_size i)"] by simp
    from byte [OF this] show "contents ?t ! p = overlay (lb * 512 + inside) d (contents ?s) ! p"
      using p d(2) by (simp add: nth_contents nth_overlay sz)
  qed
qed

lemma write_loop_run:
  assumes "live w" and "file_ok (i, w)" and "moved \<le> length buf"
    and "unat start + length buf \<le> unat (ino_size i)"
  shows "\<exists>w1. write_loop k i start buf moved w = (Some (length buf, True), w1) \<and> file_step n (i, w) (i, w1) \<and> file_ok (i, w1) \<and>
    contents (i, w1) = overlay (unat start + moved) (drop moved buf) (contents (i, w)) \<and>
    (\<forall>m < UFS_MAX_INODES. inode_at w1 m = inode_at w m) \<and> descriptor_table w1 = descriptor_table w \<and> errno w1 = errno w"
  using assms
proof (induction "length buf - moved" arbitrary: moved w rule: less_induct)
  case less
  have fs: "file_step n (i, w) (i, w)"
    using others_kept_refl [of "(i, w)"] less.prems(1) file_okD(1) [OF less.prems(2)] by (simp add: file_step_def)
  show ?case
  proof (cases "moved < length buf")
    case False
    then have "moved = length buf" using less.prems(3) by simp
    moreover have "write_loop k i start buf moved w = (Some (length buf, True), w)"
      unfolding write_loop.simps [of k i start buf moved w] using False less.prems(3) by simp
    ultimately show ?thesis using fs less.prems
      by (intro exI [of _ w]) (simp add: overlay_Nil file_size_def)
  next
    case True
    let ?p = "start + of_nat moved"
    let ?c = "chunk_at ?p (length buf - moved)"
    let ?d = "field moved ?c buf"
    have up: "unat ?p = unat start + moved"
      using less.prems(3,4) file_okD(2) [OF less.prems(2)] by (intro unat_plus_small) simp
    have p: "unat ?p < unat (ino_size i)" using less.prems(4) True up by simp
    note pb = position_block [OF less.prems(2,1) p]
    have left: "0 < length buf - moved" using True by simp
    note ch = chunk_bounds [OF pb(6) left]
    have ld: "length ?d = ?c" using ch(2) True by simp
    have eq: "unat ?p div 512 * 512 + unat ?p mod 512 = unat start + moved" using up by simp
    define w1 where "w1 = put_blk (unat (bmap w i (unat ?p div 512)))
        (overlay (unat ?p mod 512) ?d (block_data (i, w) (unat ?p div 512))) w"
    have d2: "unat ?p div 512 * 512 + unat ?p mod 512 + length ?d \<le> unat (ino_size i)"
      unfolding eq ld using ch(2) True less.prems(4) by simp
    note put = put_bytes [OF less.prems(1,2) pb(2,3) _ d2, folded w1_def, unfolded ld eq, OF ch(1)]
    have step: "on_ok (mapped_block i ?p) (\<lambda>physical. write_chunk physical (inside_block ?p) ?d) w = (Some (), w1)"
      using pb(1) write_chunk_run [OF less.prems(1) pb(4), of "unat ?p mod 512" ?d] ch(1)
      unfolding ld by (simp add: run_simps pb(6) w1_def block_data_def)
    have l1: "live w1" using file_stepD(2) [OF put(1)] by simp
    have "length buf - (moved + ?c) < length buf - moved" "moved + ?c \<le> length buf" using ch(2,3) True by linarith+
    then obtain w2 where w2: "write_loop k i start buf (moved + ?c) w1 = (Some (length buf, True), w2)"
        "file_step n (i, w1) (i, w2)" "file_ok (i, w2)"
        "contents (i, w2) = overlay (unat start + (moved + ?c)) (drop (moved + ?c) buf) (contents (i, w1))"
        "\<forall>m < UFS_MAX_INODES. inode_at w2 m = inode_at w1 m" "descriptor_table w2 = descriptor_table w1" "errno w2 = errno w1"
      using less.hyps [of "moved + ?c" w1] l1 put(2) less.prems(4) by blast
    have run: "write_loop k i start buf moved w = (Some (length buf, True), w2)"
      unfolding write_loop.simps [of k i start buf moved w] Let_def using True step w2(1) by simp
    have "overlay (unat start + moved + ?c) (drop (moved + ?c) buf) (overlay (unat start + moved) ?d (contents (i, w))) =
        overlay (unat start + moved) (?d @ drop (moved + ?c) buf) (contents (i, w))"
      using overlay_append [of "unat start + moved" ?d "drop (moved + ?c) buf" "contents (i, w)"] ld ch(2) True less.prems(4)
      by (simp add: file_size_def)
    moreover have "?d @ drop (moved + ?c) buf = drop moved buf"
      by (simp add: field_def) (metis add.commute append_take_drop_id drop_drop)
    ultimately have "contents (i, w2) = overlay (unat start + moved) (drop moved buf) (contents (i, w))"
      using w2(4) put(3) by (simp add: add.assoc)
    then show ?thesis using run w2 put file_step_trans [OF put(1) w2(2)] by (intro exI [of _ w2]) simp
  qed
qed

end
