(* ===== verification/Ufs_ReadWrite.thy ===== *)
theory Ufs_ReadWrite
  imports Ufs_Bytes
begin

text \<open>
  The operations \<open>ufs_read\<close> and \<open>ufs_write\<close> under the operation lock: an open file is a position and the
  list of bytes of its inode (\<open>open_ok\<close>, \<open>fd_position\<close>, \<open>fd_contents\<close>).
\<close>

section \<open>Inodes through the journal\<close>

lemma persist_file:
  assumes l: "live w" and ok: "file_ok (i, w)" and n: "n < UFS_MAX_INODES"
    and j: "ino_wf j" "same_pointers j i" "ino_size j = ino_size i"
  shows "\<exists>w1. persist_inode n j w = (Some (), w1) \<and> live w1 \<and> file_ok (j, w1) \<and> contents (j, w1) = contents (i, w) \<and>
    (\<forall>m < UFS_MAX_INODES. inode_at w1 m = (if m = n then j else inode_at w m)) \<and>
    descriptor_table w1 = descriptor_table w \<and> errno w1 = errno w \<and> others_kept n (i, w) (j, w1)"
proof -
  define v where "v = put_inode n j w"
  obtain w1 where p: "persist_inode n j w = (Some (), w1)" "live w1" "\<forall>b. \<not> in_journal b \<longrightarrow> blk w1 b = blk v b"
      "descriptor_table w1 = descriptor_table w" "errno w1 = errno w"
    using persist_inode_live [OF l n j(1)] by (auto simp: v_def)
  note wf = file_okD(1) [OF ok]
  note sf = same_pointers_file [OF wf j(2,1)]
  have l1: "live v" using l n j by (simp add: v_def)
  have wfv: "file_wf (j, v)" unfolding v_def by (rule put_inode_file(1) [OF sf(1) l j(1) n])
  have out: "\<not> in_journal b" if "in_data_region b" for b using that by (simp add: in_data_region_def in_journal_def)
  have "block_bitmap w1 = block_bitmap v"
    unfolding block_bitmap_def using p(3) by (intro arg_cong [where f = concat] map_cong) (simp_all add: in_journal_def)
  then have used: "block_used w1 = block_used v" "inode_used w1 = inode_used v"
    using p(3) by (simp_all add: block_used_def inode_used_def fun_eq_iff in_journal_def)
  have ino: "inode_at w1 m = inode_at v m" if "m < UFS_MAX_INODES" for m
  proof -
    have "m div 4 < 128" using that by linarith
    then show ?thesis using p(3) by (simp add: inode_at_def in_journal_def)
  qed
  have same: "blk w1 b = blk v b" if "b \<in> pointer_blocks (j, v)" for b
    using p(3) out [OF pointer_blocks_used(1) [OF wfv that]] by blast
  have sl: "slot_ptr (j, w1) t = slot_ptr (j, v) t" if "t \<in> slots" for t by (rule slot_ptr_same [OF same _ that]) simp_all
  have sl0: "slot_ptr (j, v) t = slot_ptr (i, w) t" if "t \<in> slots" for t
    using put_inode_file(2) [OF sf(1) l j(1) n that] slot_ptr_same [OF _ j(2) that, of w w] by (simp add: v_def)
  have wf1: "file_wf (j, w1)" using file_wf_same(1) [OF wfv same, of j] j(1) used by simp
  have own: "owned_blocks (j, w1) = owned_blocks (i, w)"
    using sl sl0 by (auto simp: owned_blocks_def used_slots_def intro!: image_cong)
  have map: "bmap w1 j lb = bmap w i lb" if "lb < UFS_MAX_FILE_BLOCKS" for lb
    using sl [of "Data lb"] sl0 [of "Data lb"] that by (simp add: bmap_def)
  have blkr: "blk w1 b = blk w b" if "in_data_region b" for b
    using p(3) out [OF that] in_data_regionD [OF that] j(1) n by (simp add: v_def)
  have data: "block_data (j, w1) lb = block_data (i, w) lb" if "lb < UFS_MAX_FILE_BLOCKS" "bmap w i lb \<noteq> UFS_INVALID_BLOCK" for lb
    using map [OF that(1)] blkr [OF bmap_region(1) [OF wf that]] by (simp add: block_data_def)
  have byte: "file_byte (j, w1) q = file_byte (i, w) q" if q: "q < blocks_needed (unat (ino_size i)) * 512" for q
  proof -
    have "q div 512 < UFS_MAX_FILE_BLOCKS" "q div 512 < blocks_needed (unat (ino_size i))"
      using block_lt [OF q needed_le [OF file_okD(2) [OF ok]]] by simp_all
    then show ?thesis using data file_okD(3) [OF ok] by (simp add: file_byte_def)
  qed
  have sz: "file_size (j, w1) = unat (ino_size i)" "file_size (i, w) = unat (ino_size i)" by (simp_all add: file_size_def j(3))
  have "file_ok (j, w1)" using wf1 ok map byte by (simp add: file_ok_def sz maps_exactly_def zero_behind_def lean_def own)
  moreover have "contents (j, w1) = contents (i, w)"
    using byte blocks_needed_bounds(1) [of "unat (ino_size i)"] by (simp add: contents_def sz)
  moreover have "others_kept n (i, w) (j, w1)"
    unfolding others_kept_def using p(2,4) own used blkr ino owned_used [OF wf] l n j(1) by (auto simp: v_def)
  ultimately show ?thesis using p ino j(1) by (intro exI [of _ w1]) (auto simp: v_def)
qed

section \<open>Open files\<close>

definition fd_number :: "nat \<Rightarrow> world \<Rightarrow> nat" where
  "fd_number k w = unat (fde_inode_number (descriptor k w))"

definition fd_file :: "nat \<Rightarrow> world \<Rightarrow> ufs_inode \<times> world" where
  "fd_file k w = (inode_at w (fd_number k w), w)"

definition fd_contents :: "nat \<Rightarrow> world \<Rightarrow> bytes" where
  "fd_contents k w = contents (fd_file k w)"

definition fd_position :: "nat \<Rightarrow> world \<Rightarrow> nat" where
  "fd_position k w = unat (fde_offset (descriptor k w))"

definition open_ok :: "nat \<Rightarrow> world \<Rightarrow> bool" where
  "open_ok k w \<longleftrightarrow> live w \<and> length (descriptor_table w) = UFS_MAX_OPEN_FILES \<and> k < UFS_MAX_OPEN_FILES \<and>
     fde_in_use (descriptor k w) \<and> fd_number k w < UFS_MAX_INODES \<and>
     ino_generation (inode_at w (fd_number k w)) = fde_inode_generation (descriptor k w) \<and> file_ok (fd_file k w)"

lemma open_okD:
  assumes "open_ok k w"
  shows "live w" "k < length (descriptor_table w)" "k < UFS_MAX_OPEN_FILES" "fd_number k w < UFS_MAX_INODES"
    "ino_generation (inode_at w (fd_number k w)) = fde_inode_generation (descriptor k w)"
    "file_ok (inode_at w (fd_number k w), w)" "fde_in_use (descriptor k w)"
  using assms by (simp_all add: open_ok_def fd_file_def)

lemma require_mounted_live: "live w \<Longrightarrow> require_mounted w = (Some (), w)"
proof -
  assume "live w"
  then have "ufs_mounted w" unfolding live_def by blast
  then show ?thesis by (simp add: require_mounted_def asking_def ret_def)
qed

lemma validate_descriptor_open:
  "open_ok k w \<Longrightarrow> validate_descriptor (int k) w = (Some k, w)"
  using open_okD(3,7) [of k w] by (simp add: validate_descriptor_def asking_def ret_def descriptor_def [symmetric])

lemma entry_checks:
  assumes "open_ok k w"
  shows "on_ok require_mounted (\<lambda>_. on_ok (validate_descriptor (int k)) f) w = f k w"
    "read_inode (fd_number k w) w = (Some (inode_at w (fd_number k w)), w)"
  using require_mounted_live [OF open_okD(1) [OF assms]] validate_descriptor_open [OF assms] open_okD(1,4) [OF assms]
  by (simp_all add: run_simps io_simps)

section \<open>Timestamps without faults\<close>

lemma current_time_calm:
  "script w = [] \<Longrightarrow> \<exists>t tk. ufs_get_current_disk_time w = (Some t, w\<lparr>ticks := tk\<rparr>)"
  by (simp add: ufs_get_current_disk_time_def clock_gettime_def syscall_calm asking_def modify_def ret_def on_ok_def) blast

lemma live_script: "live w \<Longrightarrow> script w = []"
  unfolding live_def calm_def by blast

lemma touch_calm:
  assumes "script w = []"
  shows "\<exists>t tk. ufs_touch_mtime_ctime i w = (Some (i\<lparr>ino_mtime := t, ino_ctime := t\<rparr>), w\<lparr>ticks := tk\<rparr>)"
    and "\<exists>t tk. ufs_touch_atime i w = (Some (i\<lparr>ino_atime := t\<rparr>), w\<lparr>ticks := tk\<rparr>)"
    and "\<exists>u tk. ufs_should_update_atime i w = (Some u, w\<lparr>ticks := tk\<rparr>)"
proof -
  obtain t tk where c: "ufs_get_current_disk_time w = (Some t, w\<lparr>ticks := tk\<rparr>)" using current_time_calm [OF assms] by blast
  show "\<exists>t tk. ufs_touch_mtime_ctime i w = (Some (i\<lparr>ino_mtime := t, ino_ctime := t\<rparr>), w\<lparr>ticks := tk\<rparr>)"
    using c by (simp add: ufs_touch_mtime_ctime_def run_simps ret_def) blast
  show "\<exists>t tk. ufs_touch_atime i w = (Some (i\<lparr>ino_atime := t\<rparr>), w\<lparr>ticks := tk\<rparr>)"
    using c by (simp add: ufs_touch_atime_def run_simps ret_def) blast
  show "\<exists>u tk. ufs_should_update_atime i w = (Some u, w\<lparr>ticks := tk\<rparr>)"
    using c by (simp add: ufs_should_update_atime_def run_simps ret_def if_distrib [of "\<lambda>m. m (w\<lparr>ticks := tk\<rparr>)"]
        cong: if_cong) (metis (full_types))
qed

lemma others_kept_views:
  assumes "others_kept n (i, u) (j, v)" and "blk u1 = blk u" and "blk v1 = blk v" and "live v1"
    and "descriptor_table v1 = descriptor_table u1"
  shows "others_kept n (i, u1) (j, v1)"
proof -
  have "inode_at u1 = inode_at u" "inode_at v1 = inode_at v" using assms(2,3) by (simp_all add: inode_at_def fun_eq_iff)
  then show ?thesis
    using assms file_blk [OF assms(2)] file_blk [OF assms(3)] by (simp add: others_kept_def)
qed

text \<open>Descriptor \<open>k\<close> has at most another position.\<close>

definition same_handle :: "nat \<Rightarrow> world \<Rightarrow> world \<Rightarrow> bool" where
  "same_handle k w w1 \<longleftrightarrow> (descriptor k w1)\<lparr>fde_offset := fde_offset (descriptor k w)\<rparr> = descriptor k w"

lemma same_handleD:
  assumes "same_handle k w w1"
  shows "fde_flags (descriptor k w1) = fde_flags (descriptor k w)"
    "fde_inode_number (descriptor k w1) = fde_inode_number (descriptor k w)"
  using arg_cong [OF assms [unfolded same_handle_def], of fde_flags]
    arg_cong [OF assms [unfolded same_handle_def], of fde_inode_number] by simp_all

lemma same_handle_trans: "same_handle k u v \<Longrightarrow> same_handle k v w \<Longrightarrow> same_handle k u w"
  unfolding same_handle_def by (cases "descriptor k u"; cases "descriptor k v"; cases "descriptor k w") simp

text \<open>The rest of an operation when the descriptor tables are set aside.\<close>

definition elsewhere_kept :: "nat \<Rightarrow> world \<Rightarrow> world \<Rightarrow> bool" where
  "elsewhere_kept k w w1 \<longleftrightarrow>
     others_kept (fd_number k w) (fd_file k w) (inode_at w1 (fd_number k w), w1\<lparr>descriptor_table := descriptor_table w\<rparr>) \<and>
     (\<forall>m. m \<noteq> k \<longrightarrow> descriptor m w1 = descriptor m w) \<and> same_handle k w w1 \<and>
     same_attrs (inode_at w1 (fd_number k w)) (inode_at w (fd_number k w))"

lemma blk_table [simp]: "blk (w\<lparr>descriptor_table := dt\<rparr>) = blk w"
  by (simp add: blk_def fun_eq_iff)

lemma elsewhere_keptI:
  assumes "others_kept (fd_number k w) (inode_at w (fd_number k w), u) (inode_at w1 (fd_number k w), v)"
    and "blk u = blk w" and "blk v = blk w1" and "live w1" and "\<And>m. m \<noteq> k \<Longrightarrow> descriptor m w1 = descriptor m w"
    and "same_handle k w w1" and "same_attrs (inode_at w1 (fd_number k w)) (inode_at w (fd_number k w))"
  shows "elsewhere_kept k w w1"
  unfolding elsewhere_kept_def fd_file_def
  using others_kept_views [OF assms(1), of w "w1\<lparr>descriptor_table := descriptor_table w\<rparr>"] assms(2-7) by simp

lemma descriptor_set_offset_other: "m \<noteq> k \<Longrightarrow> descriptor m (set_offset k p w) = descriptor m w"
  by (simp add: descriptor_def set_offset_def set_descriptor_def)

text \<open>An inode with the same pointers and size is persisted for an open file.\<close>

lemma open_persist:
  assumes op: "open_ok k w" and n: "n = fd_number k w" and i: "i = inode_at w n"
    and j: "ino_wf j" "same_pointers j i" "ino_size j = ino_size i" "ino_generation j = ino_generation i"
  shows "\<exists>w1. persist_inode n j w = (Some (), w1) \<and> open_ok k w1 \<and> fd_contents k w1 = fd_contents k w \<and>
    descriptor_table w1 = descriptor_table w \<and> errno w1 = errno w \<and> others_kept n (i, w) (j, w1) \<and> inode_at w1 n = j"
proof -
  have ok: "file_ok (i, w)" "live w" "n < UFS_MAX_INODES" using open_okD(1,4,6) [OF op] by (simp_all add: n i)
  obtain w1 where p: "persist_inode n j w = (Some (), w1)" "live w1" "file_ok (j, w1)" "contents (j, w1) = contents (i, w)"
      "\<forall>m < UFS_MAX_INODES. inode_at w1 m = (if m = n then j else inode_at w m)" "descriptor_table w1 = descriptor_table w"
      "errno w1 = errno w" "others_kept n (i, w) (j, w1)"
    using persist_file [OF ok(2,1,3) j(1-3)] by blast
  have d: "descriptor k w1 = descriptor k w" "fd_number k w1 = n" using p(6) by (simp_all add: descriptor_def fd_number_def n)
  have a: "inode_at w1 n = j" using p(5) ok(3) by simp
  have "open_ok k w1" using op p(2,3,6) d a j(4) i n by (simp add: open_ok_def fd_file_def)
  moreover have "fd_contents k w1 = fd_contents k w" using p(4) d(2) a i n by (simp add: fd_contents_def fd_file_def)
  ultimately show ?thesis using p a by blast
qed

lemma open_views:
  assumes "open_ok k w" and "blk w1 = blk w" and "live w1" and "descriptor_table w1 = descriptor_table w"
  shows "open_ok k w1" "fd_contents k w1 = fd_contents k w" "fd_number k w1 = fd_number k w" "fd_position k w1 = fd_position k w"
    "inode_at w1 = inode_at w" "descriptor k w1 = descriptor k w"
proof -
  show d: "descriptor k w1 = descriptor k w" using assms(4) by (simp add: descriptor_def)
  show i: "inode_at w1 = inode_at w" using assms(2) by (simp add: inode_at_def fun_eq_iff)
  show n: "fd_number k w1 = fd_number k w" "fd_position k w1 = fd_position k w" by (simp_all add: d fd_number_def fd_position_def)
  show "open_ok k w1" "fd_contents k w1 = fd_contents k w"
    using assms d i n file_blk [OF assms(2)] by (simp_all add: open_ok_def fd_contents_def fd_file_def)
qed

lemma open_set_offset:
  assumes "open_ok k w"
  shows "open_ok k (set_offset k p w)" "fd_contents k (set_offset k p w) = fd_contents k w"
    "fd_number k (set_offset k p w) = fd_number k w" "fd_position k (set_offset k p w) = unat p"
  using assms open_okD(2) [OF assms]
  by (simp_all add: open_ok_def fd_contents_def fd_file_def fd_number_def fd_position_def)

section \<open>Read\<close>

text \<open>Reading may change the access time of an inode and nothing else of it.\<close>

definition only_atime :: "ufs_inode \<Rightarrow> ufs_inode \<Rightarrow> bool" where
  "only_atime j i \<longleftrightarrow> (\<exists>t. j = i\<lparr>ino_atime := t\<rparr>)"

lemma only_atime_refl [simp]: "only_atime i i"
  unfolding only_atime_def by (rule exI [of _ "ino_atime i"]) simp

lemma only_atime_set [simp]: "only_atime (i\<lparr>ino_atime := t\<rparr>) i"
  unfolding only_atime_def by (rule exI [of _ t]) simp

lemma only_atime_trans: "only_atime k j \<Longrightarrow> only_atime j i \<Longrightarrow> only_atime k i"
  by (auto simp: only_atime_def)

lemma take_field:
  "field p (if length xs - p < c then length xs - p else c) xs = take c (drop p xs)"
  by (simp add: field_def)

lemma script_set_offset [simp]: "script (set_offset k p w) = script w"
  by (simp add: set_offset_def set_descriptor_def)

lemma read_done:
  assumes op: "open_ok k w"
  shows "\<exists>w1. on_ok (attempt (ufs_should_update_atime (inode_at w (fd_number k w))) ret (ret False)) (\<lambda>update.
      if update then keeping_errno (on_ok (ufs_touch_atime (inode_at w (fd_number k w))) (persist_inode (fd_number k w))) (ret buf)
      else ret buf) w = (Some buf, w1) \<and>
    open_ok k w1 \<and> fd_contents k w1 = fd_contents k w \<and> descriptor_table w1 = descriptor_table w \<and> errno w1 = errno w \<and>
    elsewhere_kept k w w1 \<and> only_atime (inode_at w1 (fd_number k w)) (inode_at w (fd_number k w))"
proof -
  let ?n = "fd_number k w" let ?i = "inode_at w ?n"
  have s: "script w = []" "live w" using live_script open_okD(1) [OF op] by blast+
  obtain u tk where u: "ufs_should_update_atime ?i w = (Some u, w\<lparr>ticks := tk\<rparr>)" using touch_calm(3) [OF s(1)] by blast
  define v where "v = w\<lparr>ticks := tk\<rparr>"
  have v: "blk v = blk w" "live v" "descriptor_table v = descriptor_table w" "script v = []" "errno v = errno w"
    using s by (simp_all add: v_def blk_def fun_eq_iff)
  note ov = open_views [OF op v(1-3)]
  show ?thesis
  proof (cases u)
    case False
    have "others_kept ?n (?i, w) (inode_at v ?n, w)"
      using others_kept_refl [of "(?i, w)"] s(2) file_okD(1) [OF open_okD(6) [OF op]] ov(5) by simp
    then have "elsewhere_kept k w v"
      using v ov(5,6) by (intro elsewhere_keptI) (simp_all add: same_handle_def descriptor_def)
    then show ?thesis using False u ov v by (intro exI [of _ v]) (simp add: run_simps ret_def v_def [symmetric])
  next
    case True
    obtain t tk2 where t: "ufs_touch_atime ?i v = (Some (?i\<lparr>ino_atime := t\<rparr>), v\<lparr>ticks := tk2\<rparr>)"
      using touch_calm(2) [OF v(4)] by blast
    define x where "x = v\<lparr>ticks := tk2\<rparr>"
    have x: "blk x = blk w" "live x" "descriptor_table x = descriptor_table w" "errno x = errno w"
      using v by (simp_all add: x_def blk_def fun_eq_iff)
    note ox = open_views [OF op x(1-3)]
    have "ino_wf ?i" using file_wf_ino [OF file_okD(1) [OF open_okD(6) [OF op]]] by simp
    then have j: "ino_wf (?i\<lparr>ino_atime := t\<rparr>)" "same_pointers (?i\<lparr>ino_atime := t\<rparr>) (inode_at x ?n)"
      by (simp_all add: ino_wf_def same_pointers_def ox(5))
    obtain y where y: "persist_inode ?n (?i\<lparr>ino_atime := t\<rparr>) x = (Some (), y)" "open_ok k y" "fd_contents k y = fd_contents k x"
        "descriptor_table y = descriptor_table x" "errno y = errno x" "others_kept ?n (inode_at x ?n, x) (inode_at y ?n, y)"
        "inode_at y ?n = ?i\<lparr>ino_atime := t\<rparr>"
      using open_persist [OF ox(1) ox(3) [symmetric] refl j] ox(5) by auto
    define z where "z = y\<lparr>errno := errno w\<rparr>"
    have z: "blk z = blk y" "live z" "descriptor_table z = descriptor_table y"
      using open_okD(1) [OF y(2)] by (simp_all add: z_def blk_def fun_eq_iff)
    note oz = open_views [OF y(2) z]
    have "keeping_errno (on_ok (ufs_touch_atime ?i) (persist_inode ?n)) (ret buf) v = (Some buf, z)"
      using t y(1) v(5) by (simp add: keeping_errno_def run_simps x_def [symmetric] ret_def z_def)
    moreover have "elsewhere_kept k w z"
      using y(6,7) oz(5) ox(5) z x(1) y(4) x(3)
      by (intro elsewhere_keptI [of k w x z y]) (simp_all add: same_handle_def descriptor_def same_attrs_def)
    moreover have "only_atime (inode_at z ?n) ?i" using y(7) oz(5) by simp
    ultimately show ?thesis using True u oz(1,2) y ox(2) z(3) x(3)
      by (intro exI [of _ z]) (simp add: run_simps ret_def v_def [symmetric] z_def)
  qed
qed

lemma read_run:
  assumes op: "open_ok k w" and rd: "descriptor_can_read (descriptor k w)" and c: "count \<le> 2 ^ 63 - 1"
  shows "\<exists>w1. ufs_read_unlocked (int k) count w = (Some (take count (drop (fd_position k w) (fd_contents k w))), w1) \<and>
    open_ok k w1 \<and> fd_contents k w1 = fd_contents k w \<and>
    fd_position k w1 = fd_position k w + length (take count (drop (fd_position k w) (fd_contents k w))) \<and> errno w1 = errno w \<and>
    elsewhere_kept k w w1 \<and> only_atime (inode_at w1 (fd_number k w)) (inode_at w (fd_number k w))"
proof -
  define i where "i = inode_at w (fd_number k w)"
  define off where "off = fde_offset (descriptor k w)"
  note ok = open_okD(6) [OF op, folded i_def]
  have pos: "fd_position k w = unat off" by (simp add: fd_position_def off_def)
  have len: "length (fd_contents k w) = unat (ino_size i)" by (simp add: fd_contents_def fd_file_def i_def file_size_def)
  define rest where "rest inode = (if ino_size inode \<le> off then ret []
     else let available = unat (ino_size inode - off);
              n = (if available < count then available else count) in
       on_ok (read_loop k inode n 0 []) (\<lambda>(buf, complete).
       if \<not> complete then ret buf
       else on_ok (attempt (ufs_should_update_atime inode) ret (ret False)) (\<lambda>update.
         if update then keeping_errno (on_ok (ufs_touch_atime inode) (persist_inode (fd_number k w))) (ret buf)
         else ret buf)))" for inode
  have run: "ufs_read_unlocked (int k) count w = (if count = 0 then (Some [], w) else rest i w)"
    unfolding ufs_read_unlocked_def entry_checks(1) [OF op] asking_def
    using rd c entry_checks(2) [OF op] open_okD(5) [OF op]
    by (simp add: fd_number_def [symmetric] run_simps ret_def rest_def off_def i_def cong: if_cong)
  show ?thesis
  proof (cases "count = 0 \<or> ino_size i \<le> off")
    case True
    then have "drop (fd_position k w) (fd_contents k w) = [] \<or> count = 0" by (auto simp: len pos word_le_nat_alt)
    then have nil: "take count (drop (fd_position k w) (fd_contents k w)) = []" by auto
    have "ufs_read_unlocked (int k) count w = (Some [], w)" using True by (auto simp: run rest_def ret_def)
    moreover have "elsewhere_kept k w w"
      using others_kept_refl [of "(inode_at w (fd_number k w), w)"] open_okD(1) [OF op] file_okD(1) [OF open_okD(6) [OF op]]
      by (intro elsewhere_keptI) (simp_all add: same_handle_def)
    ultimately show ?thesis unfolding nil using op by (intro exI [of _ w]) simp
  next
    case False
    then have lt: "unat off < unat (ino_size i)" "off \<le> ino_size i" by (simp_all add: word_le_nat_alt not_le)
    define n where "n = (if unat (ino_size i - off) < count then unat (ino_size i - off) else count)"
    have av: "unat (ino_size i - off) = unat (ino_size i) - unat off" using lt(2) by (rule unat_sub)
    have n: "unat off + n \<le> unat (ino_size i)" using lt(1) unfolding n_def av by arith
    define data where "data = field (unat off) n (contents (i, w))"
    define v where "v = set_offset k (off + of_nat n) w"
    have dat: "data = take count (drop (fd_position k w) (fd_contents k w))"
      using take_field [of "unat off" "fd_contents k w" count] unfolding len data_def n_def av
      by (simp add: pos fd_contents_def fd_file_def i_def)
    have ldat: "length data = n" using n unfolding data_def by (intro length_field) (simp add: file_size_def)
    have loop: "read_loop k i n 0 [] w = (Some (data, True), v)"
      using read_loop_run [OF open_okD(1) [OF op] ok open_okD(2) [OF op], of 0 n "[]"] n
      by (simp add: off_def [symmetric] data_def v_def)
    note ov = open_set_offset [OF op, of "off + of_nat n", folded v_def]
    have iv: "inode_at v (fd_number k w) = i" by (simp add: v_def i_def)
    obtain w1 where w1: "on_ok (attempt (ufs_should_update_atime i) ret (ret False)) (\<lambda>update.
        if update then keeping_errno (on_ok (ufs_touch_atime i) (persist_inode (fd_number k w))) (ret data) else ret data) v = (Some data, w1)"
        "open_ok k w1" "fd_contents k w1 = fd_contents k v" "descriptor_table w1 = descriptor_table v" "errno w1 = errno v"
        "elsewhere_kept k v w1" "only_atime (inode_at w1 (fd_number k w)) i"
      using read_done [OF ov(1), of data] unfolding iv ov(3) by blast
    have "rest i w = (Some data, w1)"
      unfolding rest_def Let_def n_def [symmetric] using False w1(1) by (simp add: run_simps loop)
    moreover have "unat (off + of_nat n) = unat off + n"
      using n file_okD(2) [OF ok] by (intro unat_plus_small) simp
    moreover have "fd_position k w1 = fd_position k v" "errno v = errno w"
      using w1(4) by (simp_all add: fd_position_def descriptor_def v_def)
    moreover have "elsewhere_kept k w w1"
    proof (rule elsewhere_keptI)
      show "others_kept (fd_number k w) (inode_at w (fd_number k w), v)
          (inode_at w1 (fd_number k w), w1\<lparr>descriptor_table := descriptor_table v\<rparr>)"
        using w1(6) iv by (simp add: elsewhere_kept_def fd_file_def ov(3) i_def)
      show "same_handle k w w1" "\<And>m. m \<noteq> k \<Longrightarrow> descriptor m w1 = descriptor m w"
        using w1(4) open_okD(2) [OF op] by (simp_all add: same_handle_def descriptor_def v_def set_offset_def set_descriptor_def)
      show "same_attrs (inode_at w1 (fd_number k w)) (inode_at w (fd_number k w))"
        using w1(6) iv by (simp add: elsewhere_kept_def ov(3) i_def)
    qed (use open_okD(1) [OF w1(2)] in \<open>simp_all add: v_def\<close>)
    ultimately show ?thesis
      using w1(2,3,5,7) ov(2,4) False ldat unfolding dat [symmetric] unfolding pos by (intro exI [of _ w1]) (simp add: run i_def)
  qed
qed

section \<open>Write\<close>

definition write_start :: "nat \<Rightarrow> world \<Rightarrow> nat" where
  "write_start k w = (if fde_flags (descriptor k w) AND UFS_O_APPEND \<noteq> 0 then length (fd_contents k w) else fd_position k w)"

text \<open>What is left of a write when the file is large enough.\<close>

definition write_tail :: "nat \<Rightarrow> nat \<Rightarrow> u64 \<Rightarrow> bytes \<Rightarrow> ufs_inode \<Rightarrow> nat op" where
  "write_tail k n start buf inode =
     on_ok (write_loop k inode start buf 0) (\<lambda>(moved, complete).
     if \<not> complete then ret moved
     else
       modify (set_offset k (start + of_nat moved)) (
       on_ok (ufs_touch_mtime_ctime inode) (\<lambda>inode.
       on_ok (persist_inode n inode) (\<lambda>_. ret moved))))"

lemma write_tail_run:
  assumes op: "open_ok k w" and n: "n = fd_number k w" and i: "same_attrs j (inode_at w n)"
    and l: "live v" and ok: "file_ok (j, v)" and tab: "descriptor_table v = descriptor_table w"
    and fit: "unat start + length buf \<le> unat (ino_size j)"
  shows "\<exists>w1. write_tail k n start buf j v = (Some (length buf), w1) \<and> open_ok k w1 \<and>
    fd_contents k w1 = overlay (unat start) buf (contents (j, v)) \<and> fd_position k w1 = unat start + length buf \<and>
    fd_number k w1 = n \<and> same_attrs (inode_at w1 n) (inode_at w n) \<and> errno w1 = errno v \<and> same_handle k w w1 \<and> (\<forall>m. m \<noteq> k \<longrightarrow> descriptor m w1 = descriptor m w) \<and>
    others_kept n (j, v) (inode_at w1 n, w1\<lparr>descriptor_table := descriptor_table v\<rparr>)"
proof -
  note k = open_okD(2) [OF op]
  obtain v1 where v1: "write_loop k j start buf 0 v = (Some (length buf, True), v1)" "file_step n (j, v) (j, v1)" "file_ok (j, v1)"
      "contents (j, v1) = overlay (unat start) buf (contents (j, v))" "descriptor_table v1 = descriptor_table v" "errno v1 = errno v"
    using write_loop_run [OF l ok, of 0 buf start k n] fit by auto
  have l1: "live v1" using file_stepD(2) [OF v1(2)] by simp
  define v2 where "v2 = set_offset k (start + of_nat (length buf)) v1"
  have s2: "script v2 = []" using live_script [OF l1] by (simp add: v2_def)
  obtain t tk where t: "ufs_touch_mtime_ctime j v2 = (Some (j\<lparr>ino_mtime := t, ino_ctime := t\<rparr>), v2\<lparr>ticks := tk\<rparr>)"
    using touch_calm(1) [OF s2] by blast
  define v3 where "v3 = v2\<lparr>ticks := tk\<rparr>"
  define j3 where "j3 = j\<lparr>ino_mtime := t, ino_ctime := t\<rparr>"
  have v3: "blk v3 = blk v1" "live v3" "descriptor_table v3 = descriptor_table v2" "errno v3 = errno v1"
    using l1 by (simp_all add: v3_def v2_def blk_def fun_eq_iff set_offset_def set_descriptor_def)
  have ok3: "file_ok (j, v3)" "contents (j, v3) = contents (j, v1)" using file_blk [OF v3(1)] v1(3) by simp_all
  have j3: "ino_wf j3" "same_pointers j3 j" "ino_size j3 = ino_size j" "same_attrs j3 (inode_at w n)"
    using i file_wf_ino [OF file_okD(1) [OF ok]] by (simp_all add: j3_def ino_wf_def same_pointers_def same_attrs_def)
  have nn: "n < UFS_MAX_INODES" using open_okD(4) [OF op] n by simp
  obtain w1 where w1: "persist_inode n j3 v3 = (Some (), w1)" "live w1" "file_ok (j3, w1)" "contents (j3, w1) = contents (j, v3)"
      "\<forall>m < UFS_MAX_INODES. inode_at w1 m = (if m = n then j3 else inode_at v3 m)" "descriptor_table w1 = descriptor_table v3"
      "errno w1 = errno v3" "others_kept n (j, v3) (j3, w1)"
    using persist_file [OF v3(2) ok3(1) nn j3(1-3)] by blast
  have at: "inode_at w1 n = j3" using w1(5) nn by simp
  have kl: "k < length (descriptor_table v1)" using k v1(5) tab by simp
  have d: "descriptor k w1 = (descriptor k w)\<lparr>fde_offset := start + of_nat (length buf)\<rparr>"
    using w1(6) v3(3) kl v1(5) tab by (simp add: descriptor_def v2_def set_offset_def set_descriptor_def)
  have other: "descriptor m w1 = descriptor m w" if "m \<noteq> k" for m
    using w1(6) v3(3) v1(5) tab that by (simp add: descriptor_def v2_def set_offset_def set_descriptor_def)
  have num: "fd_number k w1 = n" by (simp add: d fd_number_def n)
  have len: "length (descriptor_table w1) = length (descriptor_table w)" using w1(6) v3(3) v1(5) tab by (simp add: v2_def)
  have op1: "open_ok k w1"
    using op w1(2,3) at num d len j3(4) n by (simp add: open_ok_def fd_file_def same_attrs_def)
  have pos: "unat (start + of_nat (length buf)) = unat start + length buf"
    using fit file_okD(2) [OF ok] by (intro unat_plus_small) simp
  have run: "write_tail k n start buf j v = (Some (length buf), w1)"
    using v1(1) t w1(1) by (simp add: write_tail_def run_simps modify_def v2_def [symmetric] v3_def [symmetric] j3_def [symmetric] ret_def)
  have "others_kept n (j, v1) (j3, w1\<lparr>descriptor_table := descriptor_table v\<rparr>)"
    using others_kept_views [OF w1(8), of v1 "w1\<lparr>descriptor_table := descriptor_table v\<rparr>"] v3(1) w1(2) v1(5) by simp
  from others_kept_trans [OF file_stepD(4) [OF v1(2)] this]
  have oth: "others_kept n (j, v) (inode_at w1 n, w1\<lparr>descriptor_table := descriptor_table v\<rparr>)" by (simp add: at)
  have "fd_contents k w1 = overlay (unat start) buf (contents (j, v))"
    using w1(4) ok3(2) v1(4) at num by (simp add: fd_contents_def fd_file_def)
  then show ?thesis using run op1 d pos num other oth w1(7) v3(4) v1(6) j3(4) at
    by (intro exI [of _ w1]) (simp add: fd_position_def same_handle_def)
qed

lemma open_errno: "open_ok k w \<Longrightarrow> open_ok k (w\<lparr>errno := e\<rparr>)" "fd_contents k (w\<lparr>errno := e\<rparr>) = fd_contents k w"
proof -
  have b: "blk (w\<lparr>errno := e\<rparr>) = blk w" by (simp add: blk_def fun_eq_iff)
  show "open_ok k w \<Longrightarrow> open_ok k (w\<lparr>errno := e\<rparr>)" using open_views(1) [OF _ b] open_okD(1) by simp
  show "fd_contents k (w\<lparr>errno := e\<rparr>) = fd_contents k w"
    using file_blk(2) [OF b] by (simp add: fd_contents_def fd_file_def fd_number_def descriptor_def)
qed

lemma write_run:
  assumes op: "open_ok k w" and wr: "descriptor_can_write (descriptor k w)" and buf: "buf \<noteq> []" "length buf \<le> 2 ^ 63 - 1"
  shows "case ufs_write_unlocked (int k) buf w of
      (Some m, w1) \<Rightarrow> m = length buf \<and> open_ok k w1 \<and> elsewhere_kept k w w1 \<and>
        fd_contents k w1 = overlay (write_start k w) buf
          (resize (max (length (fd_contents k w)) (write_start k w + length buf)) (fd_contents k w)) \<and>
        fd_position k w1 = write_start k w + length buf
    | (None, w1) \<Rightarrow> open_ok k w1 \<and> elsewhere_kept k w w1 \<and> fd_contents k w1 = fd_contents k w \<and>
        fd_position k w1 = write_start k w \<and> length (fd_contents k w) < write_start k w + length buf \<and>
        errno w1 = (if UFS_MAX_FILE_BLOCKS * 512 < write_start k w + length buf then EFBIG else ENOSPC)"
proof -
  define n where "n = fd_number k w"
  define i where "i = inode_at w n"
  define app where "app \<longleftrightarrow> fde_flags (descriptor k w) AND UFS_O_APPEND \<noteq> 0"
  define start where "start = (if app then ino_size i else fde_offset (descriptor k w))"
  define v where "v = (if app then set_offset k (ino_size i) w else w)"
  have ok: "file_ok (i, w)" "n < UFS_MAX_INODES" using open_okD(4,6) [OF op] by (simp_all add: i_def n_def)
  have len: "length (fd_contents k w) = unat (ino_size i)" by (simp add: fd_contents_def fd_file_def i_def n_def file_size_def)
  have st: "write_start k w = unat start"
    by (simp add: write_start_def app_def [symmetric] start_def len fd_position_def)
  have v: "live v" "blk v = blk w" "file_ok (i, v)" "contents (i, v) = fd_contents k w" "inode_at v n = i" "open_ok k v" "fd_number k v = n"
    "fd_contents k v = fd_contents k w"
    using open_okD(1) [OF op] ok open_set_offset [OF op] op
    by (auto simp: v_def fd_contents_def fd_file_def i_def n_def)
  have dv: "fde_offset (descriptor k v) = start" using open_okD(2) [OF op] by (simp add: v_def start_def)
  have vo: "descriptor m v = descriptor m w" if "m \<noteq> k" for m using that by (simp add: v_def descriptor_set_offset_other)
  have vh: "same_handle k w v" using open_okD(2) [OF op] by (simp add: v_def same_handle_def)
  have bl: "0 < length buf" using buf(1) by simp
  have run: "ufs_write_unlocked (int k) buf w =
     require (\<not> (2 ^ 64 - 1 - unat start < length buf \<or> 2 ^ 63 - 1 < unat start + length buf)) EFBIG (
     on_ok (if ino_size i < start + of_nat (length buf)
            then with_inode (ufs_truncate_inode n (start + of_nat (length buf))) i else ret i)
       (write_tail k n start buf)) v"
  proof -
    define rest where "rest s = require (\<not> (2 ^ 64 - 1 - unat s < length buf \<or> 2 ^ 63 - 1 < unat s + length buf)) EFBIG (
       on_ok (if ino_size i < s + of_nat (length buf)
              then with_inode (ufs_truncate_inode n (s + of_nat (length buf))) i else ret i)
         (write_tail k n s buf))" for s
    have "ufs_write_unlocked (int k) buf w =
        modify (if app then set_offset k (ino_size i) else id) (asking (fde_offset \<circ> descriptor k) rest) w"
      unfolding ufs_write_unlocked_def entry_checks(1) [OF op] asking_def [of "descriptor k"] Let_def rest_def
        write_tail_def app_def fd_number_def [symmetric] n_def [symmetric]
      using wr buf bl entry_checks(2) [OF op, folded n_def, folded i_def] open_okD(5) [OF op, folded n_def, folded i_def]
      by (simp add: run_simps split del: if_split)
    moreover have "(if app then set_offset k (ino_size i) else id) w = v" by (simp add: v_def)
    then have "modify (if app then set_offset k (ino_size i) else id) (asking (fde_offset \<circ> descriptor k) rest) w = rest start v"
      using dv by (simp only: modify_def asking_def comp_apply)
    ultimately show ?thesis by (simp add: rest_def)
  qed
  have same: "elsewhere_kept k w v1" if "others_kept n (i, v) (inode_at v1 n, v2)" "blk v2 = blk v1" "live v1"
      "\<And>m. m \<noteq> k \<Longrightarrow> descriptor m v1 = descriptor m w" "same_handle k w v1" "same_attrs (inode_at v1 n) i" for v1 v2
    using elsewhere_keptI [of k w v v1 v2] that v(2) by (simp add: n_def [symmetric] i_def [symmetric])
  show ?thesis
  proof (cases "2 ^ 64 - 1 - unat start < length buf \<or> 2 ^ 63 - 1 < unat start + length buf")
    case True
    then have big: "UFS_MAX_FILE_BLOCKS * 512 < unat start + length buf" by auto
    have r: "ufs_write_unlocked (int k) buf w = (None, v\<lparr>errno := EFBIG\<rparr>)"
      unfolding run using True by (simp add: require_def fail_def)
    have "others_kept n (i, v) (i, v)" using others_kept_refl [of "(i, v)"] v(1) file_okD(1) [OF v(3)] by simp
    then have "elsewhere_kept k w (v\<lparr>errno := EFBIG\<rparr>)"
      using same [of "v\<lparr>errno := EFBIG\<rparr>" v] v(1,5) vo vh by (simp add: same_handle_def descriptor_def blk_def fun_eq_iff)
    moreover have "unat (ino_size i) < unat start + length buf" using file_okD(2) [OF ok(1)] big by simp
    moreover have "fd_position k (v\<lparr>errno := EFBIG\<rparr>) = unat start" using dv by (simp add: fd_position_def descriptor_def)
    ultimately show ?thesis unfolding r st len using big open_errno(1) [OF v(6)] open_errno(2) [where k = k and w = v] v(8) by simp
  next
    case False
    define sz where "sz = start + of_nat (length buf)"
    have "unat (of_nat (length buf) :: u64) = length buf" using False by (subst unat_of_nat) simp
    then have sz: "unat sz = unat start + length buf"
      using False unfolding sz_def by (subst unat_plus_if') auto
    have run2: "ufs_write_unlocked (int k) buf w = on_ok (if ino_size i < sz then with_inode (ufs_truncate_inode n sz) i else ret i)
        (write_tail k n start buf) v"
      unfolding run sz_def using False by simp
    have tail: "case write_tail k n start buf j u of
        (Some m, w1) \<Rightarrow> m = length buf \<and> open_ok k w1 \<and> elsewhere_kept k w w1 \<and>
          fd_contents k w1 = overlay (unat start) buf (contents (j, u)) \<and> fd_position k w1 = unat start + length buf
      | (None, w1) \<Rightarrow> False"
      if u: "live u" "file_ok (j, u)" "descriptor_table u = descriptor_table v" "others_kept n (i, v) (j, u)"
        "same_attrs j i" "unat sz \<le> unat (ino_size j)" for j u
    proof -
      have g: "same_attrs j (inode_at v n)" using u(5) v(5) by simp
      have fit: "unat start + length buf \<le> unat (ino_size j)" using u(6) sz by simp
      obtain w1 where w1: "write_tail k n start buf j u = (Some (length buf), w1)" "open_ok k w1"
        "fd_contents k w1 = overlay (unat start) buf (contents (j, u))" "fd_position k w1 = unat start + length buf"
        "\<forall>m. m \<noteq> k \<longrightarrow> descriptor m w1 = descriptor m v" "same_handle k v w1"
        "others_kept n (j, u) (inode_at w1 n, w1\<lparr>descriptor_table := descriptor_table u\<rparr>)" "same_attrs (inode_at w1 n) i"
        using v(5) write_tail_run [OF v(6) v(7) [symmetric] g u(1-3) fit] by blast
      have "elsewhere_kept k w w1"
        using same [OF others_kept_trans [OF u(4) w1(7)]] open_okD(1) [OF w1(2)] w1(5,8) vo same_handle_trans [OF vh w1(6)] by simp
      then show ?thesis using w1 by simp
    qed
    show ?thesis
    proof (cases "ino_size i < sz")
      case small: False
      then have le: "unat start + length buf \<le> unat (ino_size i)" using sz by (simp add: not_less word_le_nat_alt)
      have t: "case write_tail k n start buf i v of
        (Some m, w1) \<Rightarrow> m = length buf \<and> open_ok k w1 \<and> elsewhere_kept k w w1 \<and>
          fd_contents k w1 = overlay (unat start) buf (contents (i, v)) \<and> fd_position k w1 = unat start + length buf
        | (None, w1) \<Rightarrow> False"
        using tail [OF v(1,3)] others_kept_refl [of "(i, v)"] v(1) file_okD(1) [OF v(3)] le sz by simp
      have "resize (max (length (fd_contents k w)) (unat start + length buf)) (fd_contents k w) = contents (i, v)"
        using le v(4) by (simp add: resize_def len max_def)
      then show ?thesis using t small unfolding run2 st by (auto simp: run_simps ret_def on_ok_def split: prod.splits option.splits)
    next
      case True
      then have lt: "unat (ino_size i) < unat start + length buf" using sz by (simp add: word_less_nat_alt)
      obtain r j u where tr: "ufs_truncate_inode n sz (i, v) = (r, (j, u))" by (metis prod.exhaust)
      note e = truncate_run [OF v(1,3) ok(2), of sz, unfolded tr prod.case]
      show ?thesis
      proof (cases r)
        case None
        then have f: "others_kept n (i, v) (j, u)" "file_ok (j, u)" "contents (j, u) = contents (i, v)" "same_meta j i"
            "inode_at u n = j" "errno u = (if UFS_MAX_FILE_BLOCKS * 512 < unat sz then EFBIG else ENOSPC)"
          using e v(5) by simp_all
        have g: "same_attrs j i" by (rule same_meta_attrs [OF f(4)])
        have l: "live u" "descriptor_table u = descriptor_table v" using f(1) by (simp_all add: others_kept_def)
        have d: "descriptor m u = descriptor m v" for m using l(2) by (simp add: descriptor_def)
        have "open_ok k u" using v(5-7) l f(2,5) d g by (simp add: open_ok_def fd_file_def fd_number_def same_attrs_def)
        moreover have "fd_contents k u = fd_contents k w"
          using f(3,5) v(4,7) d by (simp add: fd_contents_def fd_file_def fd_number_def)
        moreover have "elsewhere_kept k w u" using same [of u u] f(1,5) l(1) d vo vh g by (simp add: same_handle_def)
        moreover have "ufs_write_unlocked (int k) buf w = (None, u)"
          unfolding run2 using True tr None by (simp add: run_simps with_inode_def on_ok_def)
        moreover have "fd_position k u = unat start" using d dv by (simp add: fd_position_def)
        ultimately show ?thesis using f(6) sz lt by (simp add: st len)
      next
        case (Some x)
        then have f: "others_kept n (i, v) (j, u)" "file_ok (j, u)" "contents (j, u) = resize (unat sz) (contents (i, v))"
            "ino_size j = sz" "same_attrs j i"
          using e by simp_all
        have l: "live u" "descriptor_table u = descriptor_table v" using f(1) by (simp_all add: others_kept_def)
        have t: "case write_tail k n start buf j u of
          (Some m, w1) \<Rightarrow> m = length buf \<and> open_ok k w1 \<and> elsewhere_kept k w w1 \<and>
            fd_contents k w1 = overlay (unat start) buf (contents (j, u)) \<and> fd_position k w1 = unat start + length buf
          | (None, w1) \<Rightarrow> False"
          using tail [OF l(1) f(2) l(2) f(1,5)] f(4) by simp
        have "resize (max (length (fd_contents k w)) (unat start + length buf)) (fd_contents k w) = contents (j, u)"
          using lt f(3) v(4) sz by (simp add: len max_def)
        moreover have "ufs_write_unlocked (int k) buf w = write_tail k n start buf j u"
          unfolding run2 using True tr Some by (simp add: with_inode_def on_ok_def)
        ultimately show ?thesis using t unfolding st by (auto split: prod.splits option.splits)
      qed
    qed
  qed
qed

end
