(* ===== verification/Ufs_OpenFile.thy ===== *)
theory Ufs_OpenFile
  imports Ufs_ReadWrite Ufs_Frame
begin

text \<open>
  The public \<open>ufs_read\<close>, \<open>ufs_write\<close> and \<open>ufs_seek\<close>: the operation lock around the operations of
  \<open>Ufs_ReadWrite\<close>, what a write does to the other files of the image, and the round trip through the disk.
\<close>

section \<open>The lock around an operation\<close>

definition released :: "world \<Rightarrow> world" where
  "released w = w\<lparr>lock_depth := 0, image_lock := None, mutex_held := False\<rparr>"

lemma locked_views [simp]:
  "blk (locked kd w) = blk w" "descriptor_table (locked kd w) = descriptor_table w" "live (locked kd w) = live w"
  "errno (locked kd w) = errno w" "blk (released w) = blk w" "descriptor_table (released w) = descriptor_table w"
  "live (released w) = live w" "errno (released w) = errno w" "lock_depth (released w) = 0"
  unfolding live_def calm_def by (simp_all add: locked_def released_def blk_def fun_eq_iff)

lemma any_lock_live:
  assumes l: "live w" "lock_depth w = 0" and m: "m (locked kd w) = (r, u)"
    and ctx: "\<And>c. preserves (in_context c) m" and u: "live u"
  shows "with_lock (lock_operation kd) m w = (r, released u)"
proof -
  have c: "calm w" "ufs_mounted w" "calm u" using l(1) u unfolding live_def by blast+
  have "in_context (context_of (locked kd w)) u"
    using preservesD [OF ctx, of "context_of (locked kd w)" "locked kd w"] m by (simp add: in_context_def)
  then have "lock_depth u = 1" by (simp add: in_context_def context_of_def locked_def)
  then have "ufs_operation_unlock u = (Some (), released u)" using unlock_outermost [OF c(3)] by (simp add: released_def)
  then have "unlock_after m (locked kd w) = (r, released u\<lparr>errno := errno u\<rparr>)" using m by (simp add: unlock_after_def)
  moreover have "released u\<lparr>errno := errno u\<rparr> = released u" by (simp add: released_def)
  ultimately show ?thesis using lock_outermost [OF c(1,2) l(2)] by (simp add: with_lock_def run_simps)
qed

lemmas with_lock_live = any_lock_live [where kd = F_WRLCK, folded ufs_operation_write_lock_def]
lemmas with_read_lock_live = any_lock_live [where kd = F_RDLCK, folded ufs_operation_read_lock_def]

text \<open>An open file whose thread holds no lock.\<close>

definition idle_open :: "nat \<Rightarrow> world \<Rightarrow> bool" where
  "idle_open k w \<longleftrightarrow> open_ok k w \<and> unlocked w"

lemma idle_openD:
  assumes "idle_open k w"
  shows "open_ok k w" "live w" "lock_depth w = 0" "unlocked w"
  using assms open_okD(1) by (auto simp: idle_open_def unlocked_def)

lemma idle_locked:
  assumes "idle_open k w"
  shows "open_ok k (locked kd w)" "fd_contents k (locked kd w) = fd_contents k w" "fd_position k (locked kd w) = fd_position k w"
    "descriptor k (locked kd w) = descriptor k w" "write_start k (locked kd w) = write_start k w"
  using open_views [OF idle_openD(1) [OF assms], of "locked kd w"] idle_openD(2) [OF assms]
  by (simp_all add: write_start_def)

lemma open_released:
  assumes "open_ok k u"
  shows "idle_open k (released u)" "fd_contents k (released u) = fd_contents k u" "fd_position k (released u) = fd_position k u"
    "descriptor m (released u) = descriptor m u" "fd_number k (released u) = fd_number k u"
  using open_views [OF assms, of "released u"] open_okD(1) [OF assms]
  by (simp_all add: idle_open_def descriptor_def unlocked_def released_def)

lemma elsewhere_kept_lock:
  assumes "elsewhere_kept k (locked kd w) u" and "live u"
  shows "elsewhere_kept k w (released u)"
proof -
  have n: "fd_number k (locked kd w) = fd_number k w" by (simp add: fd_number_def descriptor_def)
  have i: "inode_at (locked kd w) = inode_at w" "inode_at (released u) = inode_at u" by (simp_all add: inode_at_def fun_eq_iff)
  show ?thesis
    using assms elsewhere_keptI [of k w "locked kd w" "released u" "u\<lparr>descriptor_table := descriptor_table (locked kd w)\<rparr>"]
    unfolding elsewhere_kept_def fd_file_def n i same_handle_def by (simp add: descriptor_def)
qed

section \<open>Other files\<close>

text \<open>A file whose blocks stay keeps its map and its bytes.\<close>

lemma kept_file:
  assumes wf: "file_wf (a, w)" and keep: "\<And>b. b \<in> owned_blocks (a, w) \<Longrightarrow> blk w1 b = blk w b \<and> block_used w1 b"
  shows "file_wf (a, w1)" "owned_blocks (a, w1) = owned_blocks (a, w)"
    "lb < UFS_MAX_FILE_BLOCKS \<Longrightarrow> bmap w1 a lb = bmap w a lb"
    "lb < UFS_MAX_FILE_BLOCKS \<Longrightarrow> bmap w a lb \<noteq> UFS_INVALID_BLOCK \<Longrightarrow> block_data (a, w1) lb = block_data (a, w) lb"
proof -
  have pb: "blk w1 b = blk w b" if "b \<in> pointer_blocks (a, w)" for b using keep pointer_blocks_owned that by blast
  have sl: "slot_ptr (a, w1) t = slot_ptr (a, w) t" if "t \<in> slots" for t by (rule slot_ptr_same [OF pb _ that]) simp_all
  show "owned_blocks (a, w1) = owned_blocks (a, w)"
    using sl by (auto simp: owned_blocks_def used_slots_def intro!: image_cong)
  show "file_wf (a, w1)" using file_wf_same(1) [OF wf pb, of a] file_wf_ino [OF wf] keep by (auto simp: owned_blocks_def)
  show map: "bmap w1 a lb = bmap w a lb" if "lb < UFS_MAX_FILE_BLOCKS" for lb using sl [of "Data lb"] that by (simp add: bmap_def)
  show "block_data (a, w1) lb = block_data (a, w) lb" if "lb < UFS_MAX_FILE_BLOCKS" "bmap w a lb \<noteq> UFS_INVALID_BLOCK"
    using map [OF that(1)] keep [OF bmap_region(3) [OF wf that]] by (simp add: block_data_def)
qed

lemma kept_file_ok:
  assumes ok: "file_ok (a, w)" and keep: "\<And>b. b \<in> owned_blocks (a, w) \<Longrightarrow> blk w1 b = blk w b \<and> block_used w1 b"
  shows "file_ok (a, w1)" "contents (a, w1) = contents (a, w)"
proof -
  note k = kept_file [OF file_okD(1) [OF ok] keep]
  have byte: "file_byte (a, w1) q = file_byte (a, w) q" if q: "q < blocks_needed (unat (ino_size a)) * 512" for q
  proof -
    have "q div 512 < UFS_MAX_FILE_BLOCKS" "q div 512 < blocks_needed (unat (ino_size a))"
      using block_lt [OF q needed_le [OF file_okD(2) [OF ok]]] by simp_all
    then show ?thesis using k(4) file_okD(3) [OF ok] by (simp add: file_byte_def)
  qed
  show "file_ok (a, w1)" using k(1,2) ok k(3) byte by (simp add: file_ok_def file_size_def maps_exactly_def zero_behind_def lean_def)
  show "contents (a, w1) = contents (a, w)"
    using byte blocks_needed_bounds(1) [of "unat (ino_size a)"] by (simp add: contents_def file_size_def)
qed

text \<open>A file that shares no block with the one an operation works on.\<close>

lemma others_kept_file:
  assumes k: "others_kept n (i, w) (j, w1)" and ok: "file_ok (a, w)" and dis: "owned_blocks (a, w) \<inter> owned_blocks (i, w) = {}"
  shows "file_ok (a, w1)" "contents (a, w1) = contents (a, w)" "owned_blocks (a, w1) = owned_blocks (a, w)"
    "owned_blocks (a, w1) \<inter> owned_blocks (j, w1) = {}"
proof -
  have keep: "b \<notin> owned_blocks (j, w1) \<and> blk w1 b = blk w b \<and> block_used w1 b" if "b \<in> owned_blocks (a, w)" for b
    using k that owned_used [OF file_okD(1) [OF ok] that] dis by (auto simp: others_kept_def)
  then have kb: "blk w1 b = blk w b \<and> block_used w1 b" if "b \<in> owned_blocks (a, w)" for b using that by blast
  show "file_ok (a, w1)" "contents (a, w1) = contents (a, w)" by (rule kept_file_ok [OF ok kb]; assumption)+
  show own: "owned_blocks (a, w1) = owned_blocks (a, w)" by (rule kept_file(2) [OF file_okD(1) [OF ok] kb])
  show "owned_blocks (a, w1) \<inter> owned_blocks (j, w1) = {}" unfolding own using keep by blast
qed

text \<open>A set of files of the image: each satisfies its invariant and no two share a block.\<close>

definition files_ok :: "nat set \<Rightarrow> world \<Rightarrow> bool" where
  "files_ok S w \<longleftrightarrow> (\<forall>n \<in> S. n < UFS_MAX_INODES \<and> file_ok (file_at w n)) \<and>
     (\<forall>m \<in> S. \<forall>n \<in> S. m \<noteq> n \<longrightarrow> owned_blocks (file_at w m) \<inter> owned_blocks (file_at w n) = {})"

lemma files_ok_step:
  assumes f: "files_ok S w" and n: "n \<in> S" and k: "others_kept n (file_at w n) (inode_at w1 n, u)" and b: "blk u = blk w1"
    and ok: "file_ok (file_at w1 n)"
  shows "files_ok S w1" "m \<in> S \<Longrightarrow> m \<noteq> n \<Longrightarrow> contents (file_at w1 m) = contents (file_at w m)"
proof -
  have at: "inode_at u = inode_at w1" using b by (simp add: inode_at_def fun_eq_iff)
  have num: "m < UFS_MAX_INODES" if "m \<in> S" for m using f that by (simp add: files_ok_def)
  have same: "inode_at w1 m = inode_at w m" if "m \<in> S" "m \<noteq> n" for m
    using k num [OF that(1)] that(2) at by (simp add: others_kept_def file_at_def)
  note fb = file_blk [OF b]
  have other: "file_ok (file_at w1 m) \<and> contents (file_at w1 m) = contents (file_at w m) \<and>
      owned_blocks (file_at w1 m) = owned_blocks (file_at w m) \<and> owned_blocks (file_at w1 m) \<inter> owned_blocks (file_at w1 n) = {}"
    if m: "m \<in> S" "m \<noteq> n" for m
  proof -
    have "file_ok (inode_at w m, w)" "owned_blocks (inode_at w m, w) \<inter> owned_blocks (inode_at w n, w) = {}"
      using f n m by (simp_all add: files_ok_def file_at_def)
    from others_kept_file [OF k [unfolded file_at_def] this] show ?thesis
      unfolding file_at_def same [OF m] using fb by simp
  qed
  show "m \<in> S \<Longrightarrow> m \<noteq> n \<Longrightarrow> contents (file_at w1 m) = contents (file_at w m)" using other by blast
  have "owned_blocks (file_at w1 a) \<inter> owned_blocks (file_at w1 c) = {}" if "a \<in> S" "c \<in> S" "a \<noteq> c" for a c
  proof (cases "a = n \<or> c = n")
    case True
    then show ?thesis using other that by blast
  next
    case False
    then show ?thesis using other [of a] other [of c] that f by (simp add: files_ok_def)
  qed
  moreover have "m < UFS_MAX_INODES \<and> file_ok (file_at w1 m)" if "m \<in> S" for m
    using other [OF that] ok num [OF that] by (cases "m = n") blast+
  ultimately show "files_ok S w1" by (simp add: files_ok_def)
qed

section \<open>Seek\<close>

text \<open>The new position as an integer: \<open>offset\<close> is an \<open>off_t\<close>.\<close>

definition seek_base :: "nat \<Rightarrow> world \<Rightarrow> int \<Rightarrow> int option" where
  "seek_base k w whence = (if whence = SEEK_SET then Some 0 else if whence = SEEK_CUR then Some (int (fd_position k w))
     else if whence = SEEK_END then Some (int (length (fd_contents k w))) else None)"

lemma add_seek_offset_spec:
  assumes "unat base \<le> 2 ^ 63 - 1"
  shows "add_seek_offset base change w =
    (if 0 \<le> int (unat base) + sint change \<and> int (unat base) + sint change \<le> 2 ^ 63 - 1
     then (Some (of_int (int (unat base) + sint change)), w) else (None, w\<lparr>errno := EINVAL\<rparr>))"
proof -
  define c where "c = sint change"
  define b where "b = int (unat base)"
  have ch: "change = word_of_int c" by (simp add: c_def)
  have c: "- (2 ^ 63) \<le> c" "c < 2 ^ 63" using sint_ge [of change] sint_lt [of change] by (simp_all add: c_def)
  have "int (unat base) \<le> int (2 ^ 63 - 1)" using assms by (simp only: of_nat_le_iff)
  then have b: "uint base = b" "0 \<le> b" "b \<le> 2 ^ 63 - 1" by (simp_all add: b_def)
  have bw: "base = word_of_int b" using b(1) by (metis word_of_int_uint)
  show ?thesis
  proof (cases "0 \<le> c")
    case True
    have "uint ((of_nat (2 ^ 63 - 1) :: u64) - change) = (2 ^ 63 - 1 - c) mod 2 ^ 64"
      by (simp add: ch uint_word_ariths uint_word_of_int mod_diff_right_eq)
    also have "\<dots> = 2 ^ 63 - 1 - c" using c True by simp
    finally have less: "of_nat (2 ^ 63 - 1) - change < base \<longleftrightarrow> 2 ^ 63 - 1 - c < b" by (simp add: word_less_def b(1))
    have "base + change = of_int (b + c)" by (simp add: ch bw)
    then show ?thesis
      using True b(2) less unfolding add_seek_offset_def c_def [symmetric] b_def [symmetric]
      by (simp add: require_def ret_def fail_def not_less le_diff_eq)
  next
    case False
    define m where "m = - c"
    have m: "0 < m" "m \<le> 2 ^ 63" using c False by (simp_all add: m_def)
    have mag: "- (change + 1) + 1 = word_of_int m" by (simp add: ch m_def)
    have "uint (word_of_int m :: u64) = m" using m by (simp add: uint_word_of_int)
    then have less: "base < - (change + 1) + 1 \<longleftrightarrow> b < - c" unfolding mag by (simp add: word_less_def b(1) m_def)
    have "base - (- (change + 1) + 1) = of_int (b + c)" unfolding mag by (simp add: bw m_def)
    moreover have "0 \<le> b + c \<longleftrightarrow> \<not> base < - (change + 1) + 1" using less by linarith
    ultimately show ?thesis
      using False b(3) unfolding add_seek_offset_def c_def [symmetric] b_def [symmetric]
      by (simp add: require_def ret_def fail_def not_less Let_def)
  qed
qed

lemma seek_run:
  assumes op: "open_ok k w" and pos: "fd_position k w \<le> 2 ^ 63 - 1"
  shows "ufs_seek_unlocked (int k) offset whence w = (case seek_base k w whence of
      None \<Rightarrow> (None, w\<lparr>errno := EINVAL\<rparr>)
    | Some b \<Rightarrow> if 0 \<le> b + sint offset \<and> b + sint offset \<le> 2 ^ 63 - 1
        then (Some (of_int (b + sint offset)), set_offset k (of_int (b + sint offset)) w)
        else (None, w\<lparr>errno := EINVAL\<rparr>))"
proof -
  define i where "i = inode_at w (fd_number k w)"
  have len: "length (fd_contents k w) = unat (ino_size i)" by (simp add: fd_contents_def fd_file_def i_def file_size_def)
  have sz: "unat (ino_size i) \<le> 2 ^ 63 - 1" using file_okD(2) [OF open_okD(6) [OF op]] by (simp add: i_def)
  define base where "base = (if whence = SEEK_SET then ret 0 else if whence = SEEK_CUR then ret (fde_offset (descriptor k w))
      else if whence = SEEK_END then ret (ino_size i) else fail EINVAL :: u64 op)"
  have run: "ufs_seek_unlocked (int k) offset whence w =
      on_ok base (\<lambda>b. on_ok (add_seek_offset b offset) (\<lambda>p. modify (set_offset k p) (ret p))) w"
    unfolding ufs_seek_unlocked_def entry_checks(1) [OF op] asking_def fd_number_def [symmetric]
    using entry_checks(2) [OF op, folded i_def] open_okD(5) [OF op, folded i_def]
    by (simp add: run_simps base_def split del: if_split)
  have go: "on_ok (add_seek_offset b offset) (\<lambda>p. modify (set_offset k p) (ret p)) w =
      (if 0 \<le> int (unat b) + sint offset \<and> int (unat b) + sint offset \<le> 2 ^ 63 - 1
       then (Some (of_int (int (unat b) + sint offset)), set_offset k (of_int (int (unat b) + sint offset)) w)
       else (None, w\<lparr>errno := EINVAL\<rparr>))" if "unat b \<le> 2 ^ 63 - 1" for b
    using add_seek_offset_spec [OF that, of offset w] by (auto simp: on_ok_def modify_def ret_def)
  consider "whence = 0" | "whence = 1" | "whence = 2" | "whence \<noteq> 0" "whence \<noteq> 1" "whence \<noteq> 2" by blast
  then show ?thesis
  proof cases
    case 1
    then show ?thesis using go [of 0] unfolding run by (simp add: base_def run_simps ret_def seek_base_def)
  next
    case 2
    then show ?thesis using go [OF pos [unfolded fd_position_def]] unfolding run
      by (simp add: base_def run_simps ret_def seek_base_def fd_position_def)
  next
    case 3
    then show ?thesis using go [OF sz] unfolding run by (simp add: base_def run_simps ret_def seek_base_def len)
  next
    case 4
    then show ?thesis unfolding run by (simp add: base_def on_ok_None fail_def seek_base_def)
  qed
qed

section \<open>Public operations\<close>

lemma public_read:
  assumes id: "idle_open k w" and rd: "descriptor_can_read (descriptor k w)" and c: "count \<le> 2 ^ 63 - 1"
  shows "\<exists>w1. ufs_read (int k) count w = (Some (take count (drop (fd_position k w) (fd_contents k w))), w1) \<and>
    idle_open k w1 \<and> fd_contents k w1 = fd_contents k w \<and>
    fd_position k w1 = fd_position k w + length (take count (drop (fd_position k w) (fd_contents k w))) \<and>
    elsewhere_kept k w w1 \<and> only_atime (inode_at w1 (fd_number k w)) (inode_at w (fd_number k w))"
proof -
  note il = idle_locked [OF id, of F_WRLCK]
  have i: "inode_at (locked F_WRLCK w) = inode_at w" "inode_at (released x) = inode_at x" for x
    by (simp_all add: inode_at_def fun_eq_iff)
  have n: "fd_number k (locked F_WRLCK w) = fd_number k w" by (simp add: fd_number_def descriptor_def)
  obtain u where u: "ufs_read_unlocked (int k) count (locked F_WRLCK w) = (Some (take count (drop (fd_position k w) (fd_contents k w))), u)"
      "open_ok k u" "fd_contents k u = fd_contents k w"
      "fd_position k u = fd_position k w + length (take count (drop (fd_position k w) (fd_contents k w)))"
      "elsewhere_kept k (locked F_WRLCK w) u" "only_atime (inode_at u (fd_number k w)) (inode_at w (fd_number k w))"
    using read_run [OF il(1) _ c] rd unfolding il(2-4) n i(1) by blast
  have "ufs_read (int k) count w = (Some (take count (drop (fd_position k w) (fd_contents k w))), released u)"
    unfolding ufs_read_def by (rule with_lock_live [OF idle_openD(2,3) [OF id] u(1) ctx.quiet_ranges(1) open_okD(1) [OF u(2)]])
  then show ?thesis using open_released [OF u(2)] u(3,4,6) i(2) elsewhere_kept_lock [OF u(5) open_okD(1) [OF u(2)]]
    by (intro exI [of _ "released u"]) simp
qed

lemma public_write:
  assumes id: "idle_open k w" and wr: "descriptor_can_write (descriptor k w)" and buf: "buf \<noteq> []" "length buf \<le> 2 ^ 63 - 1"
  shows "case ufs_write (int k) buf w of
      (Some m, w1) \<Rightarrow> m = length buf \<and> idle_open k w1 \<and> elsewhere_kept k w w1 \<and>
        fd_contents k w1 = overlay (write_start k w) buf
          (resize (max (length (fd_contents k w)) (write_start k w + length buf)) (fd_contents k w)) \<and>
        fd_position k w1 = write_start k w + length buf
    | (None, w1) \<Rightarrow> idle_open k w1 \<and> elsewhere_kept k w w1 \<and> fd_contents k w1 = fd_contents k w \<and>
        fd_position k w1 = write_start k w \<and> length (fd_contents k w) < write_start k w + length buf \<and>
        errno w1 = (if UFS_MAX_FILE_BLOCKS * 512 < write_start k w + length buf then EFBIG else ENOSPC)"
proof -
  note il = idle_locked [OF id, of F_WRLCK]
  obtain r u where run: "ufs_write_unlocked (int k) buf (locked F_WRLCK w) = (r, u)" by (metis prod.exhaust)
  have wr': "descriptor_can_write (descriptor k (locked F_WRLCK w))" using wr by (simp add: il(4))
  note e = write_run [OF il(1) wr' buf, unfolded run prod.case il(2-5)]
  have op: "open_ok k u" "elsewhere_kept k (locked F_WRLCK w) u" using e by (cases r; simp)+
  have el: "elsewhere_kept k w (released u)" by (rule elsewhere_kept_lock [OF op(2) open_okD(1) [OF op(1)]])
  have "ufs_write (int k) buf w = (r, released u)"
    unfolding ufs_write_def by (rule with_lock_live [OF idle_openD(2,3) [OF id] run ctx.quiet_ranges(2) open_okD(1) [OF op(1)]])
  then show ?thesis using e open_released [OF op(1)] el by (cases r) simp_all
qed

lemma public_seek:
  assumes id: "idle_open k w" and pos: "fd_position k w \<le> 2 ^ 63 - 1"
  shows "ufs_seek (int k) offset whence w = (case seek_base k w whence of
      None \<Rightarrow> (None, w\<lparr>errno := EINVAL\<rparr>)
    | Some b \<Rightarrow> if 0 \<le> b + sint offset \<and> b + sint offset \<le> 2 ^ 63 - 1
        then (Some (of_int (b + sint offset)), set_offset k (of_int (b + sint offset)) w)
        else (None, w\<lparr>errno := EINVAL\<rparr>))"
proof -
  note il = idle_locked [OF id, of F_WRLCK]
  let ?l = "locked F_WRLCK w"
  have pos': "fd_position k ?l \<le> 2 ^ 63 - 1" using pos by (simp add: il(3))
  have base: "seek_base k ?l whence = seek_base k w whence" by (simp add: seek_base_def il(2,3))
  note run = seek_run [OF il(1) pos', of offset whence, unfolded base]
  have free: "lock_depth w = 0" "\<not> mutex_held w" "image_lock w = None" using idle_openD(4) [OF id] by (simp_all add: unlocked_def)
  have undo: "released (?l\<lparr>errno := e\<rparr>) = w\<lparr>errno := e\<rparr>" "released (set_offset k p ?l) = set_offset k p w" for e p
    using free by (simp_all add: released_def locked_def set_offset_def set_descriptor_def descriptor_def)
  have live: "live (?l\<lparr>errno := e\<rparr>)" "live (set_offset k p ?l)" for e p using idle_openD(2) [OF id] by simp_all
  obtain r u where x: "ufs_seek_unlocked (int k) offset whence ?l = (r, u)" by (metis prod.exhaust)
  have lu: "live u" using run x live by (auto split: option.splits if_splits)
  have "ufs_seek (int k) offset whence w = (r, released u)"
    unfolding ufs_seek_def by (rule with_lock_live [OF idle_openD(2,3) [OF id] x ctx.quiet_seek lu])
  then show ?thesis using run x undo by (auto split: option.splits if_splits)
qed

section \<open>A sample\<close>

text \<open>Descriptor 4 is open on the empty file 5 of an otherwise blank image.\<close>

definition sample_handle :: file_io_descriptor where
  "sample_handle = zero_descriptor\<lparr>fde_in_use := True, fde_inode_number := 5, fde_flags := UFS_O_RDWR\<rparr>"

definition sample_open :: world where
  "sample_open = set_descriptor 4 sample_handle
     (put_inode 5 (ufs_init_inode 1) (blank_world\<lparr>descriptor_table := replicate UFS_MAX_OPEN_FILES zero_descriptor\<rparr>))"

lemma sample_descriptor: "descriptor 4 sample_open = sample_handle" "fd_number 4 sample_open = 5" "fd_position 4 sample_open = 0"
  by (simp_all add: sample_open_def fd_number_def fd_position_def sample_handle_def zero_descriptor_def)

lemma sample_idle: "idle_open 4 sample_open"
proof -
  have "live sample_open" unfolding sample_open_def using live_blank(1) by simp
  moreover have "inode_at sample_open 5 = ufs_init_inode 1" by (simp add: sample_open_def)
  moreover have "unlocked sample_open"
    by (simp add: sample_open_def unlocked_def set_descriptor_def put_inode_def put_blk_def blank_world_def)
  ultimately show ?thesis
    using sample_descriptor by (simp add: idle_open_def open_ok_def fd_file_def sample_handle_def zero_descriptor_def
        ufs_init_inode_def [THEN arg_cong, where f = ino_generation] sample_open_def)
qed

lemma sample_contents: "fd_contents 4 sample_open = []"
proof -
  have "inode_at sample_open 5 = ufs_init_inode 1" by (simp add: sample_open_def)
  then show ?thesis
    by (simp add: fd_contents_def fd_file_def sample_descriptor contents_def file_size_def ufs_init_inode_def)
qed

lemma sample_flags: "descriptor_can_read (descriptor 4 sample_open)" "descriptor_can_write (descriptor 4 sample_open)"
  by (simp_all add: sample_descriptor descriptor_can_read_def descriptor_can_write_def sample_handle_def)

section \<open>Properties\<close>

text \<open>\<open>ufs_read\<close> returns the bytes of the file. A read of at most \<open>count\<close> bytes at the position of the
  descriptor returns exactly the bytes there, fewer only at the end of the file and none behind it,
  and moves the position by their number; whether or not the access time is updated (through a journal
  transaction), contents, invariant and lock state stay.\<close>

lemma read_spec:
  assumes "idle_open k w" and "descriptor_can_read (descriptor k w)" and "count \<le> 2 ^ 63 - 1"
  shows "case ufs_read (int k) count w of
      (None, w1) \<Rightarrow> False
    | (Some buf, w1) \<Rightarrow> buf = take count (drop (fd_position k w) (fd_contents k w)) \<and> idle_open k w1 \<and>
        fd_contents k w1 = fd_contents k w \<and> fd_position k w1 = fd_position k w + length buf"
  using public_read [OF assms] by auto

lemma read_spec_witness: "fst (ufs_read 4 10 sample_open) = Some []"
  using read_spec [OF sample_idle sample_flags(1), of 10]
  by (simp add: sample_contents split: prod.splits option.splits)

text \<open>C10: \<open>ufs_write\<close> stores the bytes. It starts at the position, or at the end of the file with the
  append flag. Either all bytes are written: the file, padded with zeros if the write starts behind
  its end, holds them there, and the position is behind them. Or the file has to grow and cannot, with
  EFBIG beyond the largest file size and ENOSPC when the data region is full: then its bytes are unchanged, and
  the position is where the write would have started (at the end of the file with the append flag). In both
  cases other inodes, blocks and descriptors are untouched and no block is lost.\<close>

theorem write_spec:
  assumes "idle_open k w" and "descriptor_can_write (descriptor k w)" and "buf \<noteq> []" and "length buf \<le> 2 ^ 63 - 1"
  shows "case ufs_write (int k) buf w of
      (Some m, w1) \<Rightarrow> m = length buf \<and> idle_open k w1 \<and> elsewhere_kept k w w1 \<and>
        fd_contents k w1 = overlay (write_start k w) buf
          (resize (max (length (fd_contents k w)) (write_start k w + length buf)) (fd_contents k w)) \<and>
        fd_position k w1 = write_start k w + length buf
    | (None, w1) \<Rightarrow> idle_open k w1 \<and> elsewhere_kept k w w1 \<and> fd_contents k w1 = fd_contents k w \<and>
        fd_position k w1 = write_start k w \<and> length (fd_contents k w) < write_start k w + length buf \<and>
        errno w1 = (if UFS_MAX_FILE_BLOCKS * 512 < write_start k w + length buf then EFBIG else ENOSPC)"
  by (rule public_write [OF assms])

theorem write_spec_witness:
  "case ufs_write 4 [7, 8, 9] sample_open of
      (Some m, w1) \<Rightarrow> m = 3 \<and> fd_contents 4 w1 = [7, 8, 9] \<and> fd_position 4 w1 = 3
    | (None, w1) \<Rightarrow> fd_contents 4 w1 = [] \<and> errno w1 = ENOSPC"
proof -
  have "write_start 4 sample_open = 0" by (simp add: write_start_def sample_contents sample_descriptor)
  then show ?thesis
    using write_spec [OF sample_idle sample_flags(2), of "[7, 8, 9]"]
    by (auto simp: sample_contents resize_def overlay_def numeral_3_eq_3 split: prod.splits option.splits)
qed

text \<open>A write leaves every other file alone. If a set of files satisfies its invariant, with no block
  in two of them, then it does so after any \<open>ufs_write\<close> to one of them, also a failed one, and all
  other files of the set have the same bytes.\<close>

lemma write_keeps_other_files:
  assumes "files_ok S w" and "idle_open k w" and "fd_number k w \<in> S" and "descriptor_can_write (descriptor k w)"
    and "buf \<noteq> []" and "length buf \<le> 2 ^ 63 - 1"
  shows "case ufs_write (int k) buf w of (r, w1) \<Rightarrow>
    files_ok S w1 \<and> (\<forall>m \<in> S - {fd_number k w}. contents (file_at w1 m) = contents (file_at w m))"
proof -
  obtain r w1 where run: "ufs_write (int k) buf w = (r, w1)" by (metis prod.exhaust)
  have e: "idle_open k w1" "elsewhere_kept k w w1"
    using public_write [OF assms(2,4-6), unfolded run prod.case] by (cases r; simp)+
  have n: "fd_number k w1 = fd_number k w"
    using e(2) same_handleD(2) [of k w w1] by (simp add: elsewhere_kept_def fd_number_def)
  have ok: "file_ok (file_at w1 (fd_number k w))"
    using open_okD(6) [OF idle_openD(1) [OF e(1)]] by (simp add: n file_at_def)
  have k: "others_kept (fd_number k w) (file_at w (fd_number k w))
      (inode_at w1 (fd_number k w), w1\<lparr>descriptor_table := descriptor_table w\<rparr>)"
    using e(2) by (simp add: elsewhere_kept_def file_at_def fd_file_def)
  show ?thesis using files_ok_step [OF assms(1,3) k _ ok] unfolding run by simp
qed

lemma write_keeps_other_files_witness:
  "case ufs_write 4 [7, 8, 9] sample_open of (r, w1) \<Rightarrow> files_ok {5} w1"
proof -
  have "files_ok {5} sample_open"
    using open_okD(4,6) [OF idle_openD(1) [OF sample_idle]] by (simp add: files_ok_def sample_descriptor file_at_def)
  from write_keeps_other_files [OF this sample_idle _ sample_flags(2), of "[7, 8, 9]"] show ?thesis
    by (simp add: sample_descriptor split: prod.splits)
qed

text \<open>C34: \<open>ufs_seek\<close> computes the new position without wrap-around. The sum of the base (0, the position,
  the size of the file) and the signed offset is the new position if it lies between 0 and the
  largest \<open>off_t\<close>; otherwise, and for an unknown \<open>whence\<close>, the call fails with EINVAL and the
  position stays. The most negative offset is handled like any other.\<close>

theorem seek_spec:
  assumes "idle_open k w" and "fd_position k w \<le> 2 ^ 63 - 1"
  shows "ufs_seek (int k) offset whence w = (case seek_base k w whence of
      None \<Rightarrow> (None, w\<lparr>errno := EINVAL\<rparr>)
    | Some b \<Rightarrow> if 0 \<le> b + sint offset \<and> b + sint offset \<le> 2 ^ 63 - 1
        then (Some (of_int (b + sint offset)), set_offset k (of_int (b + sint offset)) w)
        else (None, w\<lparr>errno := EINVAL\<rparr>))"
  by (rule public_seek [OF assms])

theorem seek_spec_witness:
  "ufs_seek 4 (- 1) SEEK_CUR sample_open = (None, sample_open\<lparr>errno := EINVAL\<rparr>)"
  using seek_spec [OF sample_idle, of "- 1" SEEK_CUR] by (simp add: sample_descriptor seek_base_def)

text \<open>Read your writes through the public interface: after a successful \<open>ufs_write\<close>, seeking back to
  where it started and reading as many bytes returns exactly the bytes written.\<close>

lemma write_seek_read:
  assumes "idle_open k w" and "descriptor_can_read (descriptor k w)" and "descriptor_can_write (descriptor k w)"
    and "buf \<noteq> []" and "length buf \<le> 2 ^ 63 - 1"
  shows "case ufs_write (int k) buf w of
      (None, w1) \<Rightarrow> fd_contents k w1 = fd_contents k w
    | (Some m, w1) \<Rightarrow>
        (case ufs_seek (int k) (of_nat (write_start k w)) SEEK_SET w1 of
           (None, w2) \<Rightarrow> False
         | (Some p, w2) \<Rightarrow> fst (ufs_read (int k) (length buf) w2) = Some buf)"
proof -
  obtain r w1 where run: "ufs_write (int k) buf w = (r, w1)" by (metis prod.exhaust)
  note e = public_write [OF assms(1,3-5), unfolded run prod.case]
  show ?thesis
  proof (cases r)
    case None
    then show ?thesis using e run by simp
  next
    case (Some m)
    define start where "start = write_start k w"
    have f: "idle_open k w1" "elsewhere_kept k w w1" "fd_position k w1 = start + length buf"
        "fd_contents k w1 = overlay start buf (resize (max (length (fd_contents k w)) (start + length buf)) (fd_contents k w))"
      using e Some by (simp_all add: start_def)
    have len: "length (resize n xs) = n" if "length xs \<le> n" for n and xs :: bytes using that by (simp add: resize_def)
    have big: "start + length buf \<le> length (fd_contents k w1)" unfolding f(4) by (simp add: len)
    have fit: "length (fd_contents k w1) \<le> UFS_MAX_FILE_BLOCKS * 512"
      using file_okD(2) [OF open_okD(6) [OF idle_openD(1) [OF f(1)]]] by (simp add: fd_contents_def fd_file_def file_size_def)
    have s: "sint (of_nat start :: u64) = int start"
    proof -
      have "int start < 2 ^ 63" using big fit by simp
      then show ?thesis by (simp add: signed_of_nat signed_take_bit_int_eq_self)
    qed
    have pos: "fd_position k w1 \<le> 2 ^ 63 - 1" using f(3) big fit by simp
    have seek: "ufs_seek (int k) (of_nat start) SEEK_SET w1 = (Some (of_nat start), set_offset k (of_nat start) w1)"
      using public_seek [OF f(1) pos, of "of_nat start" SEEK_SET] big fit by (simp add: seek_base_def s)
    define w2 where "w2 = set_offset k (of_nat start) w1"
    note os = open_set_offset [OF idle_openD(1) [OF f(1)], of "of_nat start", folded w2_def]
    have "unlocked w2" using idle_openD(4) [OF f(1)] by (simp add: w2_def unlocked_def set_offset_def set_descriptor_def)
    then have id2: "idle_open k w2" using os(1) by (simp add: idle_open_def)
    have fl: "fde_flags (descriptor k w2) = fde_flags (descriptor k w)"
      using f(2) same_handleD(1) open_okD(2) [OF idle_openD(1) [OF f(1)]] by (simp add: w2_def elsewhere_kept_def)
    then have rd: "descriptor_can_read (descriptor k w2)" using assms(2) by (simp add: descriptor_can_read_def)
    have p2: "fd_position k w2 = start" using os(4) big fit by (subst os(4), subst unat_of_nat) simp
    have "take (length buf) (drop start (fd_contents k w1)) = buf"
      unfolding f(4) by (simp add: overlay_def len)
    then have "fst (ufs_read (int k) (length buf) w2) = Some buf"
      using public_read [OF id2 rd assms(5)] os(2) p2 by auto
    then show ?thesis unfolding run Some using seek by (simp add: w2_def start_def)
  qed
qed

lemma write_seek_read_witness:
  "case ufs_write 4 [7, 8, 9] sample_open of
      (None, w1) \<Rightarrow> fd_contents 4 w1 = []
    | (Some m, w1) \<Rightarrow>
        (case ufs_seek 4 0 SEEK_SET w1 of (None, w2) \<Rightarrow> False | (Some p, w2) \<Rightarrow> fst (ufs_read 4 3 w2) = Some [7, 8, 9])"
proof -
  have "write_start 4 sample_open = 0" by (simp add: write_start_def sample_contents sample_descriptor)
  then show ?thesis
    using write_seek_read [OF sample_idle sample_flags, of "[7, 8, 9]"]
    by (simp add: sample_contents numeral_3_eq_3 cong: option.case_cong prod.case_cong)
qed

end
