(* ===== verification/Ufs_Volume.thy ===== *)
theory Ufs_Volume
  imports Ufs_Walk Ufs_OpenFile
begin

text \<open>
  The invariant of a whole volume and the steps that keep it. \<open>volume_ok\<close> says that the tree is well
  formed, that every inode in use has a well-formed file, and that no block belongs to two of them;
  \<open>changes U\<close> says that a step works on the inodes in \<open>U\<close> only and neither loses nor shares a block.
\<close>

section \<open>Files that keep their blocks\<close>

lemma kept_dir:
  assumes ok: "dir_ok (a, w)" and keep: "\<And>b. b \<in> owned_blocks (a, w) \<Longrightarrow> blk w1 b = blk w b \<and> block_used w1 b"
  shows "dir_ok (a, w1)" "dir_entries (a, w1) = dir_entries (a, w)"
proof -
  note k = kept_file [OF dir_okD(1) [OF ok] keep]
  have "block_data (a, w1) lb = block_data (a, w) lb" if "lb < dir_blocks (a, w)" for lb
    using that dir_okD(3,4) [OF ok] by (intro k(4)) (simp_all add: dir_blocks_def)
  then have maps: "map (\<lambda>lb. dirents (block_data (a, w1) lb)) [0..<dir_blocks (a, w)] =
      map (\<lambda>lb. dirents (block_data (a, w) lb)) [0..<dir_blocks (a, w)]" by simp
  have db: "dir_blocks (a, w1) = dir_blocks (a, w)" by (simp add: dir_blocks_def)
  show es: "dir_entries (a, w1) = dir_entries (a, w)" unfolding dir_entries_def db maps ..
  show "dir_ok (a, w1)" using ok k(1-3) es by (simp add: dir_ok_def dir_blocks_def maps_exactly_def file_size_def lean_def)
qed

lemma kept_link:
  assumes ok: "link_ok (a, w)" and keep: "\<And>b. b \<in> owned_blocks (a, w) \<Longrightarrow> blk w1 b = blk w b \<and> block_used w1 b"
  shows "link_ok (a, w1)" "block_data (a, w1) 0 = block_data (a, w) 0"
proof -
  have wf: "file_wf (a, w)" and nb: "bmap w a 0 \<noteq> UFS_INVALID_BLOCK" using ok by (simp_all add: link_ok_def)
  note k = kept_file [OF wf keep]
  show "block_data (a, w1) 0 = block_data (a, w) 0" by (rule k(4)) (simp_all add: nb)
  show "link_ok (a, w1)" using ok k(1) k(3) [of 0] by (simp add: link_ok_def file_size_def)
qed

text \<open>A directory is a file whose size is that of its blocks.\<close>

lemma dir_ok_file: "dir_ok (a, w) \<Longrightarrow> file_ok (a, w)"
proof -
  assume ok: "dir_ok (a, w)"
  have sz: "file_size (a, w) = dir_blocks (a, w) * 512" using ok by (simp add: dir_ok_def)
  have n: "blocks_needed (dir_blocks (a, w) * 512) = dir_blocks (a, w)"
    using blocks_needed_whole [of "dir_blocks (a, w) * 512"] by simp
  have "dir_blocks (a, w) * 512 \<le> UFS_MAX_FILE_BLOCKS * 512" using dir_okD(3) [OF ok] by (simp add: dir_blocks_def)
  then show ?thesis using ok n sz by (simp add: file_ok_def dir_ok_def zero_behind_def)
qed

section \<open>Files without blocks\<close>

text \<open>An inode without blocks, as \<open>create_node\<close> writes it.\<close>

definition bare :: "ufs_inode \<Rightarrow> bool" where
  "bare i \<longleftrightarrow> ino_wf i \<and> same_pointers i (ufs_init_inode 0) \<and> ino_size i = 0 \<and> ino_block_count i = 0"

lemma bare_file:
  assumes "bare i"
  shows "file_ok (i, w)" "owned_blocks (i, w) = {}" "contents (i, w) = []" "dir_entries (i, w) = []"
    "ino_type i = UFS_TYPE_DIR \<Longrightarrow> dir_ok (i, w)"
proof -
  have b: "ino_wf i" "same_pointers i (ufs_init_inode 0)" "ino_size i = 0" "ino_block_count i = 0"
    using assms by (simp_all add: bare_def)
  note f = same_pointers_file [OF file_wf_init b(2,1), where w = w]
  have "slot_ptr (ufs_init_inode 0, w) u = UFS_INVALID_BLOCK" if "u \<in> slots" for u
    using that by (cases u) (auto simp: ufs_init_inode_def slot_ptr.simps(1) pointer_at_def)
  then have "owned_blocks (ufs_init_inode 0, w) = {}" by (auto simp: owned_blocks_def used_slots_def)
  then show own: "owned_blocks (i, w) = {}" using f(2) by simp
  have "maps_exactly 0 (ufs_init_inode 0, w)"
    using file_ok_init [of 0 w] by (simp add: file_ok_def file_size_def blocks_needed_bounds ufs_init_inode_def)
  then have m: "maps_exactly 0 (i, w)" using f(3) by (simp add: maps_exactly_def)
  show "file_ok (i, w)" using f(1) m b(3) own
    by (simp add: file_ok_def file_size_def blocks_needed_bounds zero_behind_def lean_def)
  show "contents (i, w) = []" using b(3) by (simp add: contents_def file_size_def)
  show es: "dir_entries (i, w) = []" using b(4) by (simp add: dir_entries_def dir_blocks_def)
  show "dir_ok (i, w)" if "ino_type i = UFS_TYPE_DIR"
    using f(1) m b that es own by (simp add: dir_ok_def dir_blocks_def file_size_def names_unique_def lean_def)
qed

lemma bare_dir_map: "bare (inode_at w n) \<Longrightarrow> dir_map n w = Map.empty"
  using bare_file(4) [of "inode_at w n" w] by (simp add: dir_map_def file_at_def entry_map_def fun_eq_iff)

section \<open>Volumes and steps\<close>

definition used_inodes :: "world \<Rightarrow> nat set" where
  "used_inodes w = {n. n < UFS_MAX_INODES \<and> inode_used w n}"

definition volume_ok :: "world \<Rightarrow> bool" where
  "volume_ok w \<longleftrightarrow> tree_ok w \<and> files_ok (used_inodes w) w"

definition blocks_of :: "nat set \<Rightarrow> world \<Rightarrow> nat set" where
  "blocks_of U w = (\<Union>n \<in> U \<inter> used_inodes w. owned_blocks (file_at w n))"

definition changes :: "nat set \<Rightarrow> world \<Rightarrow> world \<Rightarrow> bool" where
  "changes U w w1 \<longleftrightarrow> live w1 \<and>
     (\<forall>b. in_data_region b \<longrightarrow> (block_used w1 b \<longleftrightarrow> (block_used w b \<and> b \<notin> blocks_of U w) \<or> b \<in> blocks_of U w1)) \<and>
     (\<forall>b. in_data_region b \<longrightarrow> block_used w b \<longrightarrow> b \<notin> blocks_of U w \<longrightarrow> b \<notin> blocks_of U w1 \<and> blk w1 b = blk w b) \<and>
     (\<forall>m < UFS_MAX_INODES. m \<notin> U \<longrightarrow> inode_at w1 m = inode_at w m \<and> (inode_used w1 m \<longleftrightarrow> inode_used w m)) \<and>
     descriptor_table w1 = descriptor_table w"

lemma changesD:
  assumes "changes U w w1"
  shows "live w1"
    "in_data_region b \<Longrightarrow> block_used w1 b \<longleftrightarrow> (block_used w b \<and> b \<notin> blocks_of U w) \<or> b \<in> blocks_of U w1"
    "in_data_region b \<Longrightarrow> block_used w b \<Longrightarrow> b \<notin> blocks_of U w \<Longrightarrow> b \<notin> blocks_of U w1 \<and> blk w1 b = blk w b"
    "m < UFS_MAX_INODES \<Longrightarrow> m \<notin> U \<Longrightarrow> inode_at w1 m = inode_at w m"
    "m < UFS_MAX_INODES \<Longrightarrow> m \<notin> U \<Longrightarrow> inode_used w1 m \<longleftrightarrow> inode_used w m"
    "descriptor_table w1 = descriptor_table w"
  using assms unfolding changes_def by blast+

lemma volume_okD:
  assumes "volume_ok w"
  shows "tree_ok w" "live w" "n \<in> used_inodes w \<Longrightarrow> file_ok (file_at w n)" "n \<in> used_inodes w \<Longrightarrow> n < UFS_MAX_INODES"
    "m \<in> used_inodes w \<Longrightarrow> n \<in> used_inodes w \<Longrightarrow> m \<noteq> n \<Longrightarrow> owned_blocks (file_at w m) \<inter> owned_blocks (file_at w n) = {}"
  using assms tree_okD(1) [of w] unfolding volume_ok_def files_ok_def by blast+

lemma is_dir_used: "is_dir w n \<longleftrightarrow> n \<in> used_inodes w \<and> ino_type (inode_at w n) = UFS_TYPE_DIR"
  by (auto simp: is_dir_def used_inodes_def)

lemma changes_trans: "changes U w w1 \<Longrightarrow> changes U w1 w2 \<Longrightarrow> changes U w w2"
  unfolding changes_def by (intro conjI; metis)

text \<open>A volume that has nothing but an empty root.\<close>

lemma volume_with_empty_root:
  assumes l: "live w" and used: "\<forall>n < UFS_MAX_INODES. inode_used w n \<longleftrightarrow> n = UFS_ROOT_INODE"
    and root: "ino_type (inode_at w 0) = UFS_TYPE_DIR" "same_pointers (inode_at w 0) (ufs_init_inode UFS_TYPE_DIR)"
      "ino_block_count (inode_at w 0) = 0" "ino_size (inode_at w 0) = 0"
  shows "volume_ok w" "dir_map UFS_ROOT_INODE w = Map.empty"
proof -
  have "bare (inode_at w 0)" using root l by (simp add: bare_def same_pointers_def) (simp add: ufs_init_inode_def)
  moreover have "used_inodes w = {0}" using used by (auto simp: used_inodes_def)
  ultimately have "files_ok (used_inodes w) w" using bare_file(1) by (simp add: files_ok_def file_at_def)
  then show "volume_ok w" using tree_with_empty_root(1) [OF l used root] by (simp add: volume_ok_def)
  show "dir_map UFS_ROOT_INODE w = Map.empty" by (rule tree_with_empty_root(2) [OF l used root])
qed

text \<open>An inode outside the step is as before.\<close>

lemma changes_other:
  assumes v: "volume_ok w" and c: "changes U w w1" and m: "m \<in> used_inodes w" "m \<notin> U"
  shows "m \<in> used_inodes w1" "inode_at w1 m = inode_at w m" "file_at w1 m = (inode_at w m, w1)"
    "b \<in> owned_blocks (inode_at w m, w) \<Longrightarrow> blk w1 b = blk w b \<and> block_used w1 b"
    "owned_blocks (file_at w1 m) = owned_blocks (file_at w m)" "owned_blocks (file_at w1 m) \<inter> blocks_of U w1 = {}"
    "file_ok (file_at w1 m)" "contents (file_at w1 m) = contents (file_at w m)"
proof -
  have n: "m < UFS_MAX_INODES" by (rule volume_okD(4) [OF v m(1)])
  show "m \<in> used_inodes w1" using m(1) changesD(5) [OF c n m(2)] by (simp add: used_inodes_def)
  show i: "inode_at w1 m = inode_at w m" by (rule changesD(4) [OF c n m(2)])
  then show f: "file_at w1 m = (inode_at w m, w1)" by (simp add: file_at_def)
  have s: "file_at w m = (inode_at w m, w)" by (simp add: file_at_def)
  note ok = volume_okD(3) [OF v m(1), unfolded s]
  have kept: "blk w1 b = blk w b \<and> block_used w1 b \<and> b \<notin> blocks_of U w1" if b: "b \<in> owned_blocks (inode_at w m, w)" for b
  proof -
    have r: "in_data_region b" "block_used w b" using owned_used [OF file_okD(1) [OF ok] b] by simp_all
    have "b \<notin> blocks_of U w" using volume_okD(5) [OF v m(1)] m(2) b by (auto simp: blocks_of_def s)
    then show ?thesis using changesD(2,3) [OF c r(1)] r(2) by blast
  qed
  then show keep: "b \<in> owned_blocks (inode_at w m, w) \<Longrightarrow> blk w1 b = blk w b \<and> block_used w1 b" for b by blast
  note k = kept_file [OF file_okD(1) [OF ok] keep]
  show o: "owned_blocks (file_at w1 m) = owned_blocks (file_at w m)" unfolding f s by (rule k(2))
  show "owned_blocks (file_at w1 m) \<inter> blocks_of U w1 = {}" unfolding o s using kept by blast
  show "file_ok (file_at w1 m)" "contents (file_at w1 m) = contents (file_at w m)"
    unfolding f s by (rule kept_file_ok [OF ok keep]; assumption)+
qed

lemma changes_dir:
  assumes v: "volume_ok w" and c: "changes U w w1" and m: "is_dir w m" "m \<notin> U"
  shows "is_dir w1 m" "dir_ok (file_at w1 m)" "dir_map m w1 = dir_map m w"
    "dir_entries (file_at w1 m) = dir_entries (file_at w m)"
proof -
  have u: "m \<in> used_inodes w" using m(1) by (simp add: is_dir_used)
  note o = changes_other [OF v c u m(2)]
  have ok: "dir_ok (inode_at w m, w)"
    using tree_ok_dir(1) [OF volume_okD(1) [OF v] m(1)] by (simp add: dir_inv_def file_at_def)
  note k = kept_dir [OF ok o(4)]
  show "is_dir w1 m" using m(1) o(1,2) by (simp add: is_dir_used)
  show "dir_ok (file_at w1 m)" unfolding o(3) by (rule k(1))
  have "dir_entries (inode_at w m, w1) = dir_entries (inode_at w m, w)" by (rule k(2))
  then show "dir_entries (file_at w1 m) = dir_entries (file_at w m)" unfolding o(3) by (simp add: file_at_def)
  then show "dir_map m w1 = dir_map m w" by (simp add: dir_map_def)
qed

lemma changes_link:
  assumes v: "volume_ok w" and c: "changes U w w1" and m: "m \<in> used_inodes w" "m \<notin> U"
    and ty: "ino_type (inode_at w m) = UFS_TYPE_SYMLINK"
  shows "link_ok (file_at w1 m)" "link_text w1 m = link_text w m"
proof -
  note o = changes_other [OF v c m]
  have ok: "link_ok (inode_at w m, w)"
    using tree_ok_link [OF volume_okD(1) [OF v] _ ty] m(1) by (simp add: used_inodes_def file_at_def)
  note k = kept_link [OF ok o(4)]
  show "link_ok (file_at w1 m)" unfolding o(3) by (rule k(1))
  have "block_data (inode_at w m, w1) 0 = block_data (inode_at w m, w) 0" by (rule k(2))
  then show "link_text w1 m = link_text w m"
    unfolding link_text_def o(3) by (simp add: file_at_def file_size_def)
qed

text \<open>What a step that works on the inodes in \<open>U\<close> has to show for the volume to stay well formed.\<close>

lemma changes_volume:
  assumes v: "volume_ok w" and c: "changes U w w1"
    and root: "is_dir w1 UFS_ROOT_INODE"
    and refs: "\<And>d. is_dir w d \<Longrightarrow> d \<notin> U \<Longrightarrow> ran (dir_map d w) \<subseteq> used_inodes w1"
    and files: "\<And>n. n \<in> U \<Longrightarrow> n \<in> used_inodes w1 \<Longrightarrow> file_ok (file_at w1 n)"
    and dirs: "\<And>n. n \<in> U \<Longrightarrow> is_dir w1 n \<Longrightarrow> dir_ok (file_at w1 n) \<and> ran (dir_map n w1) \<subseteq> used_inodes w1"
    and links: "\<And>n. n \<in> U \<Longrightarrow> n \<in> used_inodes w1 \<Longrightarrow> ino_type (inode_at w1 n) = UFS_TYPE_SYMLINK \<Longrightarrow> link_ok (file_at w1 n)"
    and apart: "\<And>m n. m \<in> U \<Longrightarrow> n \<in> U \<Longrightarrow> m \<in> used_inodes w1 \<Longrightarrow> n \<in> used_inodes w1 \<Longrightarrow> m \<noteq> n \<Longrightarrow>
      owned_blocks (file_at w1 m) \<inter> owned_blocks (file_at w1 n) = {}"
  shows "volume_ok w1"
proof -
  have old: "n \<in> used_inodes w" if "n \<in> used_inodes w1" "n \<notin> U" for n
    using that changesD(5) [OF c, of n] by (simp add: used_inodes_def)
  have old_dir: "is_dir w n" if "is_dir w1 n" "n \<notin> U" for n
    using that old [of n] changes_other(2) [OF v c old [of n]] by (simp add: is_dir_used)
  have "dir_ok (file_at w1 n) \<and> (\<forall>m \<in> ran (dir_map n w1). m \<in> used_inodes w1)" if "is_dir w1 n" for n
  proof (cases "n \<in> U")
    case False
    then show ?thesis using changes_dir(2,3) [OF v c old_dir [OF that]] refs [OF old_dir [OF that]] by auto
  qed (use dirs that in blast)
  moreover have "link_ok (file_at w1 n)" if "n \<in> used_inodes w1" "ino_type (inode_at w1 n) = UFS_TYPE_SYMLINK" for n
  proof (cases "n \<in> U")
    case False
    then show ?thesis using changes_link(1) [OF v c old [OF that(1)]] changes_other(2) [OF v c old [OF that(1)]] that by simp
  qed (use links that in blast)
  ultimately have t: "tree_ok w1" unfolding tree_ok_def using changesD(1) [OF c] root by (auto simp: used_inodes_def)
  have fo: "n < UFS_MAX_INODES \<and> file_ok (file_at w1 n)" if "n \<in> used_inodes w1" for n
  proof (cases "n \<in> U")
    case True
    then show ?thesis using files that by (simp add: used_inodes_def)
  next
    case False
    then show ?thesis using changes_other(7) [OF v c old [OF that]] that by (simp add: used_inodes_def)
  qed
  have own: "owned_blocks (file_at w1 n) \<subseteq> blocks_of U w1" if "n \<in> U" "n \<in> used_inodes w1" for n
    using that by (auto simp: blocks_of_def)
  have "owned_blocks (file_at w1 m) \<inter> owned_blocks (file_at w1 n) = {}"
    if mn: "m \<in> used_inodes w1" "n \<in> used_inodes w1" "m \<noteq> n" for m n
  proof -
    consider "m \<in> U" "n \<in> U" | "m \<in> U" "n \<notin> U" | "m \<notin> U" "n \<in> U" | "m \<notin> U" "n \<notin> U" by blast
    then show ?thesis
    proof cases
      case 1 then show ?thesis using apart mn by blast
    next
      case 2 then show ?thesis using own [of m] changes_other(6) [OF v c old [OF mn(2)]] mn by blast
    next
      case 3 then show ?thesis using own [of n] changes_other(6) [OF v c old [OF mn(1)]] mn by blast
    next
      case 4
      then show ?thesis
        using changes_other(5) [OF v c old [OF mn(1)]] changes_other(5) [OF v c old [OF mn(2)]]
          volume_okD(5) [OF v old [OF mn(1)] old [OF mn(2)] mn(3)] by simp
    qed
  qed
  then show ?thesis using t fo by (simp add: volume_ok_def files_ok_def)
qed

section \<open>Steps\<close>

text \<open>A step that leaves the disk alone.\<close>

lemma same_disk:
  assumes d: "blk w1 = blk w"
  shows "inode_at w1 = inode_at w" "used_inodes w1 = used_inodes w" "is_dir w1 = is_dir w" "blocks_of U w1 = blocks_of U w"
    "file_at w1 n = (inode_at w n, w1)" "owned_blocks (i, w1) = owned_blocks (i, w)" "block_used w1 = block_used w"
    "inode_used w1 = inode_used w" "file_ok (i, w1) = file_ok (i, w)" "contents (i, w1) = contents (i, w)"
proof -
  note f = file_blk [OF d]
  show i: "inode_at w1 = inode_at w" using d by (simp add: inode_at_def fun_eq_iff)
  show u: "used_inodes w1 = used_inodes w" using f(5) by (simp add: used_inodes_def)
  show "is_dir w1 = is_dir w" by (simp add: fun_eq_iff is_dir_used i u)
  show "blocks_of U w1 = blocks_of U w" by (simp add: blocks_of_def u file_at_def i f(3))
  show "file_at w1 n = (inode_at w n, w1)" by (simp add: file_at_def i)
  show "owned_blocks (i, w1) = owned_blocks (i, w)" "block_used w1 = block_used w" "inode_used w1 = inode_used w"
    "file_ok (i, w1) = file_ok (i, w)" "contents (i, w1) = contents (i, w)" for i by (rule f)+
qed

lemma blocks_of_used: "volume_ok w \<Longrightarrow> b \<in> blocks_of U w \<Longrightarrow> block_used w b"
proof -
  assume v: "volume_ok w" and "b \<in> blocks_of U w"
  then obtain n where n: "n \<in> used_inodes w" "b \<in> owned_blocks (inode_at w n, w)" by (auto simp: blocks_of_def file_at_def)
  have "file_wf (inode_at w n, w)" using file_okD(1) volume_okD(3) [OF v n(1)] by (simp add: file_at_def)
  then show ?thesis using owned_used [OF _ n(2)] by simp
qed

lemma same_disk_step:
  assumes v: "volume_ok w" and d: "blk w1 = blk w" and l: "live w1" and t: "descriptor_table w1 = descriptor_table w"
  shows "changes U w w1" "volume_ok w1" "dir_map n w1 = dir_map n w"
proof -
  note s = same_disk [OF d]
  show c: "changes U w w1" for U
    unfolding changes_def using l t blocks_of_used [OF v] by (simp add: s d) blast
  have root: "is_dir w UFS_ROOT_INODE" by (rule tree_okD(3) [OF volume_okD(1) [OF v]])
  show "volume_ok w1"
  proof (rule changes_volume [OF v c [of "{}"]])
    show "is_dir w1 UFS_ROOT_INODE" using root by (simp add: s)
    fix a assume "is_dir w a"
    then show "ran (dir_map a w) \<subseteq> used_inodes w1"
      using tree_ok_dir(2) [OF volume_okD(1) [OF v]] by (auto simp: s ran_def used_inodes_def)
  qed simp_all
  have "bmap w1 i = bmap w i" for i using slot_ptr_blk [OF d] by (simp add: bmap_def fun_eq_iff)
  then have "dir_entries (i, w1) = dir_entries (i, w)" for i by (simp add: dir_entries_def dir_blocks_def block_data_def d)
  then show "dir_map n w1 = dir_map n w" by (simp add: dir_map_def s(5)) (simp add: file_at_def)
qed

text \<open>A step may be seen as one on more inodes.\<close>

lemma changes_more:
  assumes v: "volume_ok w" and c: "changes U w w1" and UV: "U \<subseteq> V"
  shows "changes V w w1"
proof -
  define D where "D = blocks_of (V - U) w"
  have V: "blocks_of V x = blocks_of U x \<union> blocks_of (V - U) x" for x using UV by (auto simp: blocks_of_def)
  have "owned_blocks (file_at w1 n) = owned_blocks (file_at w n)" if "n \<in> used_inodes w" "n \<notin> U" for n
    by (rule changes_other(5) [OF v c that])
  moreover have "n \<in> used_inodes w1 \<longleftrightarrow> n \<in> used_inodes w" if "n \<notin> U" for n
    using changesD(5) [OF c] that by (auto simp: used_inodes_def)
  ultimately have D1: "blocks_of (V - U) w1 = D" by (auto simp: blocks_of_def D_def)
  have apart: "b \<notin> blocks_of U w" "b \<notin> blocks_of U w1" "block_used w b" if b: "b \<in> D" for b
  proof -
    obtain n where n: "n \<in> used_inodes w" "n \<notin> U" "b \<in> owned_blocks (file_at w n)"
      using b by (auto simp: D_def blocks_of_def)
    then show "b \<notin> blocks_of U w" using volume_okD(5) [OF v n(1)] by (auto simp: blocks_of_def)
    show "b \<notin> blocks_of U w1" using changes_other(5,6) [OF v c n(1,2)] n(3) by auto
    show "block_used w b" using blocks_of_used [OF v] b by (simp add: D_def)
  qed
  show ?thesis unfolding changes_def V D1 D_def [symmetric]
  proof (intro conjI allI impI)
    show "live w1" "descriptor_table w1 = descriptor_table w" by (rule changesD [OF c])+
    fix b assume r: "in_data_region b"
    show "block_used w1 b \<longleftrightarrow> (block_used w b \<and> b \<notin> blocks_of U w \<union> D) \<or> b \<in> blocks_of U w1 \<union> D"
      using changesD(2) [OF c r] apart by blast
    assume b: "block_used w b" "b \<notin> blocks_of U w \<union> D"
    then show "b \<notin> blocks_of U w1 \<union> D" "blk w1 b = blk w b" using changesD(3) [OF c r] by blast+
  next
    fix m assume "m < UFS_MAX_INODES" "m \<notin> V"
    then show "inode_at w1 m = inode_at w m" "inode_used w1 m \<longleftrightarrow> inode_used w m" using changesD(4,5) [OF c] UV by blast+
  qed
qed

lemma changes_one:
  assumes k: "others_kept x (file_at w x) (file_at w1 x)" and x: "x \<in> used_inodes w"
  shows "changes {x} w w1"
proof -
  have "x \<in> used_inodes w1" using k x by (simp add: others_kept_def used_inodes_def file_at_def)
  then have "blocks_of {x} w = owned_blocks (file_at w x)" "blocks_of {x} w1 = owned_blocks (file_at w1 x)"
    using x by (auto simp: blocks_of_def)
  then show ?thesis using k by (simp add: changes_def others_kept_def) (simp add: file_at_def)
qed

section \<open>Names and link counts\<close>

text \<open>
  The names of an inode are the pairs of a directory and a name in it. Every inode in use but the root
  has one: a directory exactly one, any other inode as many as its link count says.
\<close>

definition entries_of :: "world \<Rightarrow> nat \<Rightarrow> nat \<Rightarrow> string set" where
  "entries_of w d m = {c. is_dir w d \<and> dir_map d w c = Some m}"

definition names_of :: "world \<Rightarrow> nat \<Rightarrow> (nat \<times> string) set" where
  "names_of w m = {(d, c). c \<in> entries_of w d m}"

definition link_count_ok :: "world \<Rightarrow> nat \<Rightarrow> bool" where
  "link_count_ok w n \<longleftrightarrow> (if n = UFS_ROOT_INODE then names_of w n = {}
     else names_of w n \<noteq> {} \<and>
       card (names_of w n) = (if ino_type (inode_at w n) = UFS_TYPE_DIR then 1 else unat (ino_link_count (inode_at w n))))"

definition namespace_ok :: "world \<Rightarrow> bool" where
  "namespace_ok w \<longleftrightarrow> volume_ok w \<and> (\<forall>n \<in> used_inodes w. link_count_ok w n)"

lemma finite_names: "finite (names_of w m)"
proof -
  have e: "dom (entry_map es) \<subseteq> (\<lambda>d. c_string (de_name d)) ` set es" for es
  proof
    fix c assume "c \<in> dom (entry_map es)"
    then obtain d where "List.find (entry_named c) es = Some d" by (auto simp: entry_map_def)
    then have "d \<in> set es" "c_string (de_name d) = c" by (auto simp: find_Some_iff entry_named_def)
    then show "c \<in> (\<lambda>d. c_string (de_name d)) ` set es" by blast
  qed
  have f: "finite (dom (dir_map d w))" for d unfolding dir_map_def by (rule finite_surj [OF _ e]) simp
  have "names_of w m \<subseteq> (SIGMA d : {..<UFS_MAX_INODES}. dom (dir_map d w))"
    by (auto simp: names_of_def entries_of_def is_dir_def)
  moreover have "finite (SIGMA d : {..<UFS_MAX_INODES}. dom (dir_map d w))" using f by simp
  ultimately show ?thesis by (rule finite_subset)
qed

lemma changes_entries:
  assumes v: "volume_ok w" and c: "changes U w w1" and d: "d \<notin> U"
  shows "entries_of w1 d m = entries_of w d m"
proof -
  have "is_dir w1 d \<longleftrightarrow> is_dir w d"
  proof (cases "d < UFS_MAX_INODES")
    case True
    then show ?thesis using changesD(4,5) [OF c True d] by (simp add: is_dir_def)
  qed (simp add: is_dir_def)
  then show ?thesis using changes_dir(3) [OF v c _ d] by (cases "is_dir w d") (simp_all add: entries_of_def)
qed

lemma changes_names:
  assumes v: "volume_ok w" and c: "changes U w w1" and same: "\<And>d. d \<in> U \<Longrightarrow> entries_of w1 d m = entries_of w d m"
  shows "names_of w1 m = names_of w m"
  using changes_entries [OF v c] same by (simp add: names_of_def) blast

lemma no_refs: "names_of w m = {} \<Longrightarrow> is_dir w d \<Longrightarrow> m \<notin> ran (dir_map d w)"
  by (auto simp: names_of_def entries_of_def ran_def)

lemma unused_names: "volume_ok w \<Longrightarrow> m \<notin> used_inodes w \<Longrightarrow> names_of w m = {}"
  using tree_ok_dir(2) [OF volume_okD(1)] by (auto simp: names_of_def entries_of_def used_inodes_def)

lemma link_count_same:
  "names_of w1 m = names_of w m \<Longrightarrow> same_attrs (inode_at w1 m) (inode_at w m) \<Longrightarrow> link_count_ok w1 m = link_count_ok w m"
  by (cases "m = UFS_ROOT_INODE") (simp_all add: link_count_ok_def same_attrs_def)

lemma namespace_with_empty_root:
  assumes "live w" and "\<forall>n < UFS_MAX_INODES. inode_used w n \<longleftrightarrow> n = UFS_ROOT_INODE"
    and "ino_type (inode_at w 0) = UFS_TYPE_DIR" "same_pointers (inode_at w 0) (ufs_init_inode UFS_TYPE_DIR)"
      "ino_block_count (inode_at w 0) = 0" "ino_size (inode_at w 0) = 0"
  shows "namespace_ok w" "dir_map UFS_ROOT_INODE w = Map.empty"
proof -
  note v = volume_with_empty_root [OF assms]
  have "d = 0" if "is_dir w d" for d using that assms(2) by (auto simp: is_dir_def)
  then have "dir_map d w = Map.empty" if "is_dir w d" for d using v(2) that by metis
  then have "entries_of w d 0 = {}" for d by (cases "is_dir w d") (simp_all add: entries_of_def)
  then have "names_of w 0 = {}" by (simp add: names_of_def)
  moreover have "n = 0" if "n \<in> used_inodes w" for n using that assms(2) unfolding used_inodes_def by blast
  ultimately show "namespace_ok w" using v(1) by (auto simp: namespace_ok_def link_count_ok_def)
  show "dir_map UFS_ROOT_INODE w = Map.empty" by (rule v(2))
qed

end
