(* ===== verification/Ufs_Steps.thy ===== *)
theory Ufs_Steps
  imports Ufs_Volume
begin

text \<open>
  The steps of the namespace operations on a well-formed volume: rewriting an inode, claiming a fresh
  one and giving it back, adding and removing a name.
\<close>

section \<open>Writing an inode\<close>

lemma put_inode_changes:
  assumes v: "volume_ok w" and x: "x \<in> used_inodes w" and sp: "same_pointers j (inode_at w x)" "ino_wf j"
  shows "changes {x} w (put_inode x j w)" "file_at (put_inode x j w) x = (j, put_inode x j w)"
    "owned_blocks (j, put_inode x j w) = owned_blocks (file_at w x)"
    "lb < UFS_MAX_FILE_BLOCKS \<Longrightarrow> bmap (put_inode x j w) j lb = bmap w (inode_at w x) lb"
    "lb < UFS_MAX_FILE_BLOCKS \<Longrightarrow> bmap w (inode_at w x) lb \<noteq> UFS_INVALID_BLOCK \<Longrightarrow>
       block_data (j, put_inode x j w) lb = block_data (file_at w x) lb"
    "used_inodes (put_inode x j w) = used_inodes w" "file_wf (j, put_inode x j w)"
proof -
  define i where "i = inode_at w x"
  have s: "file_at w x = (i, w)" by (simp add: file_at_def i_def)
  have l: "live w" and n: "x < UFS_MAX_INODES" and wf: "file_wf (i, w)"
    using volume_okD(2,4) [OF v] x file_okD(1) volume_okD(3) [OF v x] by (simp_all add: s)
  note sp = sp [folded i_def]
  note f = same_pointers_file [OF wf sp]
  show at: "file_at (put_inode x j w) x = (j, put_inode x j w)" using l n sp(2) by (simp add: file_at_def)
  have own: "owned_blocks (j, put_inode x j w) = owned_blocks (i, w)"
    using put_inode_owned [OF f(1) l sp(2) n] f(2) by simp
  then show "owned_blocks (j, put_inode x j w) = owned_blocks (file_at w x)" by (simp add: s)
  show "used_inodes (put_inode x j w) = used_inodes w" using sp(2) by (simp add: used_inodes_def)
  have "others_kept x (i, w) (i, put_inode x j w)"
    by (rule put_inode_others [OF others_kept_refl wf n sp(2)]) (simp_all add: l wf)
  moreover have "owned_blocks (i, put_inode x j w) = owned_blocks (i, w)" by (rule put_inode_owned [OF wf l sp(2) n])
  ultimately have "others_kept x (i, w) (j, put_inode x j w)" by (simp add: others_kept_def own)
  then show "changes {x} w (put_inode x j w)" using changes_one [OF _ x] at by (simp add: s)
  show "file_wf (j, put_inode x j w)" by (rule put_inode_file(1) [OF f(1) l sp(2) n])
  show map: "bmap (put_inode x j w) j lb = bmap w (inode_at w x) lb" if "lb < UFS_MAX_FILE_BLOCKS" for lb
    using put_inode_bmap [OF f(1) l sp(2) n that] f(3) [OF that] by (simp add: i_def)
  show "block_data (j, put_inode x j w) lb = block_data (file_at w x) lb"
    if lb: "lb < UFS_MAX_FILE_BLOCKS" and nb: "bmap w (inode_at w x) lb \<noteq> UFS_INVALID_BLOCK" for lb
  proof -
    have "bmap w j lb \<noteq> UFS_INVALID_BLOCK" using nb f(3) [OF lb] by (simp add: i_def)
    then have "block_data (j, put_inode x j w) lb = block_data (j, w) lb" by (rule put_inode_data [OF f(1) l sp(2) n lb])
    then show ?thesis using f(3) [OF lb] by (simp add: s block_data_def)
  qed
qed

text \<open>An update of attributes and times.\<close>

definition same_layout :: "ufs_inode \<Rightarrow> ufs_inode \<Rightarrow> bool" where
  "same_layout j i \<longleftrightarrow> same_pointers j i \<and> ino_wf j \<and> ino_size j = ino_size i \<and>
     ino_block_count j = ino_block_count i \<and> ino_type j = ino_type i"

lemma root_used: "volume_ok w \<Longrightarrow> is_dir w UFS_ROOT_INODE"
  by (rule tree_okD(3) [OF volume_okD(1)])

lemma dir_refs: "volume_ok w \<Longrightarrow> is_dir w d \<Longrightarrow> ran (dir_map d w) \<subseteq> used_inodes w"
  using tree_ok_dir(2) [OF volume_okD(1)] by (auto simp: ran_def used_inodes_def)

lemma update_inode:
  assumes v: "volume_ok w" and x: "x \<in> used_inodes w" and j: "same_layout j (inode_at w x)"
  shows "changes {x} w (put_inode x j w)" "volume_ok (put_inode x j w)" "is_dir w x \<Longrightarrow> dir_map x (put_inode x j w) = dir_map x w"
    "contents (file_at (put_inode x j w) x) = contents (file_at w x)"
proof -
  define i where "i = inode_at w x"
  define w1 where "w1 = put_inode x j w"
  have s: "file_at w x = (i, w)" by (simp add: file_at_def i_def)
  have sl: "same_pointers j (inode_at w x)" "ino_wf j" "ino_size j = ino_size i" "ino_block_count j = ino_block_count i"
    "ino_type j = ino_type i"
    using j by (simp_all add: same_layout_def i_def)
  note p = put_inode_changes [OF v x sl(1,2), folded w1_def, unfolded s, folded i_def]
  show "changes {x} w (put_inode x j w)" unfolding w1_def [symmetric] by (rule p(1))
  have at: "inode_at w1 x = j" using p(2) by (simp add: file_at_def)
  note fo = volume_okD(3) [OF v x, unfolded s]
  have byte: "file_byte (j, w1) q = file_byte (i, w) q" if q: "q < blocks_needed (unat (ino_size i)) * 512" for q
  proof -
    have "q div 512 < UFS_MAX_FILE_BLOCKS" "q div 512 < blocks_needed (unat (ino_size i))"
      using block_lt [OF q needed_le [OF file_okD(2) [OF fo]]] by simp_all
    then show ?thesis using p(5) file_okD(3) [OF fo] by (simp add: file_byte_def)
  qed
  have fok: "file_ok (j, w1)"
    using p(3,4,7) fo byte by (simp add: file_ok_def file_size_def maps_exactly_def zero_behind_def lean_def sl)
  have con: "contents (j, w1) = contents (i, w)"
    using byte blocks_needed_bounds(1) [of "unat (ino_size i)"] by (simp add: contents_def file_size_def sl)
  then show "contents (file_at (put_inode x j w) x) = contents (file_at w x)" using p(2) by (simp add: w1_def [symmetric] s)
  have dir: "dir_ok (j, w1) \<and> dir_entries (j, w1) = dir_entries (i, w)" if d: "is_dir w x"
  proof -
    have ok: "dir_ok (i, w)" using tree_ok_dir(1) [OF volume_okD(1) [OF v] d] by (simp add: dir_inv_def s)
    have db: "dir_blocks (j, w1) = dir_blocks (i, w)" by (simp add: dir_blocks_def sl)
    have "block_data (j, w1) lb = block_data (i, w) lb" if "lb < dir_blocks (i, w)" for lb
      using that dir_okD(3,4) [OF ok] by (intro p(5)) (simp_all add: dir_blocks_def)
    then have maps: "map (\<lambda>lb. dirents (block_data (j, w1) lb)) [0..<dir_blocks (i, w)] =
        map (\<lambda>lb. dirents (block_data (i, w) lb)) [0..<dir_blocks (i, w)]" by simp
    have es: "dir_entries (j, w1) = dir_entries (i, w)" unfolding dir_entries_def db maps ..
    have "dir_ok (j, w1)" using ok p(3,4,7) es db by (simp add: dir_ok_def maps_exactly_def file_size_def lean_def sl)
    then show ?thesis using es by blast
  qed
  show map: "dir_map x (put_inode x j w) = dir_map x w" if "is_dir w x"
    using dir [OF that] p(2) by (simp add: dir_map_def w1_def [symmetric] s)
  have isd: "is_dir w1 n \<longleftrightarrow> is_dir w n" for n
  proof (cases "n = x")
    case True
    then show ?thesis using at p(6) by (simp add: is_dir_used sl i_def)
  next
    case False
    then have "inode_at w1 n = inode_at w n" if "n \<in> used_inodes w" using changes_other(2) [OF v p(1) that] by simp
    then show ?thesis unfolding is_dir_used p(6) by (cases "n \<in> used_inodes w") simp_all
  qed
  show "volume_ok (put_inode x j w)" unfolding w1_def [symmetric]
  proof (rule changes_volume [OF v p(1)])
    show "is_dir w1 UFS_ROOT_INODE" using root_used [OF v] isd by blast
    show "ran (dir_map d w) \<subseteq> used_inodes w1" if "is_dir w d" for d using dir_refs [OF v that] p(6) by simp
    fix n assume "n \<in> {x}"
    then have n: "n = x" by simp
    show "file_ok (file_at w1 n)" using fok p(2) by (simp add: n)
    show "dir_ok (file_at w1 n) \<and> ran (dir_map n w1) \<subseteq> used_inodes w1" if "is_dir w1 n"
      using that dir map [folded w1_def] p(2,6) dir_refs [OF v] isd by (simp add: n)
    assume "ino_type (inode_at w1 n) = UFS_TYPE_SYMLINK"
    then have "link_ok (i, w)"
      using tree_ok_link [OF volume_okD(1) [OF v]] x by (simp add: n at sl i_def used_inodes_def file_at_def)
    then show "link_ok (file_at w1 n)"
      using p(4) [of 0] p(7) by (simp add: n p(2) link_ok_def file_size_def sl)
  qed simp
qed

section \<open>Fresh inodes\<close>

text \<open>A step that puts a bare inode, not a link, into slot \<open>x\<close>.\<close>

lemma bare_step:
  assumes v: "volume_ok w" and c: "changes {x} w w1" and b: "x \<in> used_inodes w1 \<Longrightarrow> bare (inode_at w1 x)"
    and root: "x \<noteq> UFS_ROOT_INODE" and used: "used_inodes w \<subseteq> insert x (used_inodes w1)"
    and refs: "\<And>d. is_dir w d \<Longrightarrow> d \<noteq> x \<Longrightarrow> x \<in> ran (dir_map d w) \<Longrightarrow> x \<in> used_inodes w1"
    and ty: "x \<in> used_inodes w1 \<Longrightarrow> ino_type (inode_at w1 x) \<noteq> UFS_TYPE_SYMLINK"
  shows "volume_ok w1"
proof (rule changes_volume [OF v c])
  have fx: "file_at w1 x = (inode_at w1 x, w1)" by (simp add: file_at_def)
  show "is_dir w1 UFS_ROOT_INODE" using changes_dir(1) [OF v c root_used [OF v]] root by simp
  show "ran (dir_map d w) \<subseteq> used_inodes w1" if "is_dir w d" "d \<notin> {x}" for d
    using dir_refs [OF v that(1)] refs [OF that(1)] used that(2) by blast
  fix n assume "n \<in> {x}"
  then have n: "n = x" by simp
  show "dir_ok (file_at w1 n) \<and> ran (dir_map n w1) \<subseteq> used_inodes w1" if "is_dir w1 n"
    using that bare_file(5) [OF b] bare_dir_map [OF b] by (simp add: n fx is_dir_used)
  assume u: "n \<in> used_inodes w1"
  show "file_ok (file_at w1 n)" using bare_file(1) [OF b] u by (simp add: n fx)
  show "link_ok (file_at w1 n)" if "ino_type (inode_at w1 n) = UFS_TYPE_SYMLINK" using that ty u by (simp add: n)
qed simp

section \<open>Allocation and release of an inode\<close>

lemma unused_blocks_of: "x \<notin> used_inodes w \<Longrightarrow> blocks_of {x} w = {}"
  by (simp add: blocks_of_def)

lemma root_in_use: "volume_ok w \<Longrightarrow> UFS_ROOT_INODE \<in> used_inodes w"
  using root_used by (simp add: is_dir_used)

lemma claim_step:
  assumes v: "volume_ok w" and x: "x < UFS_MAX_INODES" "x \<notin> used_inodes w"
  defines "w1 \<equiv> claim_inode x w"
  shows "changes {x} w w1" "volume_ok w1" "used_inodes w1 = insert x (used_inodes w)" "bare (inode_at w1 x)"
    "ino_type (inode_at w1 x) = 0"
proof -
  have l: "live w" by (rule volume_okD(2) [OF v])
  note cv = claim_inode_views [OF l x(1), folded w1_def]
  show u: "used_inodes w1 = insert x (used_inodes w)" using x(1) cv(4) by (auto simp: used_inodes_def)
  have i: "inode_at w1 x = (ufs_init_inode 0)\<lparr>ino_generation := next_generation (ino_generation (inode_at w x))\<rparr>"
    using cv(5) [OF x(1)] by simp
  show b: "bare (inode_at w1 x)" unfolding i by (simp add: bare_def ino_wf_def same_pointers_def) (simp add: ufs_init_inode_def)
  show ty: "ino_type (inode_at w1 x) = 0" unfolding i by (simp add: ufs_init_inode_def)
  have none: "blocks_of {x} w = {}" "blocks_of {x} w1 = {}"
    using x(2) bare_file(2) [OF b] by (simp_all add: blocks_of_def file_at_def)
  have "blk w1 b = blk w b" if "in_data_region b" for b using cv(2) in_data_regionD [OF that] by simp
  then show c: "changes {x} w w1"
    unfolding changes_def none using cv x(2) by (simp add: used_inodes_def)
  have "x \<noteq> UFS_ROOT_INODE" using x(2) root_in_use [OF v] by metis
  then show "volume_ok w1" by (intro bare_step [OF v c]) (use b ty u in auto)
qed

text \<open>\<open>free_inode\<close> of an inode that no other directory refers to: its blocks are free afterwards.\<close>

lemma free_step:
  assumes v: "volume_ok w" and x: "x \<in> used_inodes w" "x \<noteq> UFS_ROOT_INODE"
    and refs: "\<And>d. is_dir w d \<Longrightarrow> d \<noteq> x \<Longrightarrow> x \<notin> ran (dir_map d w)"
  shows "\<exists>w1. free_inode x w = (Some (), w1) \<and> changes {x} w w1 \<and> volume_ok w1 \<and> used_inodes w1 = used_inodes w - {x}"
proof -
  define i where "i = inode_at w x"
  have s: "file_at w x = (i, w)" by (simp add: file_at_def i_def)
  have l: "live w" and n: "x < UFS_MAX_INODES" and u: "inode_used w x"
    using volume_okD(2) [OF v] x(1) by (simp_all add: used_inodes_def)
  have fo: "file_ok (i, w)" using volume_okD(3) [OF v x(1)] by (simp add: s)
  obtain j wt where tr: "with_inode (ufs_truncate_inode x 0) i w = (Some j, wt)" and k: "others_kept x (i, w) (j, wt)"
    and jo: "file_ok (j, wt)" "ino_size j = 0"
  proof -
    obtain r j wt where run: "ufs_truncate_inode x 0 (i, w) = (r, (j, wt))" by (metis prod.exhaust)
    note t = truncate_run [OF l fo n, of 0, unfolded run prod.case]
    show ?thesis
    proof (cases r)
      case None
      then show ?thesis using t by simp
    next
      case (Some a)
      then show ?thesis using t that [of j wt] run by (simp add: with_inode_def)
    qed
  qed
  have none_j: "owned_blocks (j, wt) = {}" using file_okD(5) [OF jo(1)] jo(2) by (simp add: lean_def file_size_def)
  have lt: "live wt" using k by (simp add: others_kept_def)
  define e where "e = (ufs_init_inode 0)\<lparr>ino_generation := ino_generation j\<rparr>"
  define bm where "bm = bitmap_clear (blk w 1) x"
  define w2 where "w2 = put_inode x e wt"
  define w1 where "w1 = flushed (add_free_inodes 1 (put_blk 1 bm w2))"
  have we: "ino_wf e" by (simp add: e_def ino_wf_def) (simp add: ufs_init_inode_def)
  have len: "length bm = 512" using l by (simp add: bm_def)
  have l2: "live w2" using lt n we by (simp add: w2_def)
  then have l3: "live (put_blk 1 bm w2)" using len by simp
  have steps: "write_inode x e wt = (Some (), w2)" "write_inode_bitmap bm w2 = (Some (), put_blk 1 bm w2)"
    using lt n we l2 len by (simp_all add: io_simps w2_def)
  have run: "free_inode x w = (Some (), w1)"
    using l n u x(2) tr steps l3
    by (simp add: free_inode_def asking_def io_simps run_simps inode_used_def i_def [symmetric] e_def [symmetric]
        bm_def [unfolded One_nat_def, symmetric] modify_def discard_def ret_def w1_def)
  have blk1: "blk w1 b = blk wt b" if "in_data_region b" for b
    using in_data_regionD [OF that] l3 len n we lt by (simp add: w1_def w2_def)
  have at: "inode_at w1 m = inode_at w m" if "m < UFS_MAX_INODES" "m \<noteq> x" for m
    using that l3 len we k by (simp add: w1_def w2_def others_kept_def)
  have used: "inode_used w1 m \<longleftrightarrow> m \<noteq> x \<and> inode_used w m" if "m < UFS_MAX_INODES" for m
  proof -
    have "inode_used w1 m \<longleftrightarrow> bitmap_test bm m" using l3 len by (simp add: w1_def) (simp add: inode_used_def)
    then show ?thesis using inode_used_clear [OF n that] by (simp add: bm_def)
  qed
  then have ui: "used_inodes w1 = used_inodes w - {x}" by (auto simp: used_inodes_def)
  have bu: "block_used w1 = block_used wt" using l3 len we by (simp add: w1_def w2_def)
  have bl: "blocks_of {x} w = owned_blocks (i, w)" "blocks_of {x} w1 = {}"
    using x(1) ui by (auto simp: blocks_of_def s)
  have dt: "descriptor_table w1 = descriptor_table w" using l3 k by (simp add: w1_def w2_def others_kept_def)
  have l1: "live w1" using l3 by (simp add: w1_def)
  have c: "changes {x} w w1"
    unfolding changes_def bl using l1 blk1 at used bu dt k none_j by (simp add: others_kept_def)
  have "volume_ok w1" by (rule bare_step [OF v c]) (use ui refs x(2) in auto)
  then show ?thesis using run c ui by blast
qed

section \<open>Names\<close>

text \<open>A change of the entries of directory \<open>p\<close>.\<close>

lemma entries_step:
  assumes v: "volume_ok w" and p: "is_dir w p" and inv: "dir_inv p w1" and k: "others_kept p (file_at w p) (file_at w1 p)"
    and at: "same_attrs (inode_at w1 p) (inode_at w p)" and refs: "ran (dir_map p w1) \<subseteq> used_inodes w"
  shows "changes {p} w w1" "volume_ok w1" "used_inodes w1 = used_inodes w" "is_dir w1 p"
proof -
  have up: "p \<in> used_inodes w" using p by (simp add: is_dir_used)
  show iu: "used_inodes w1 = used_inodes w" using k by (simp add: others_kept_def used_inodes_def file_at_def)
  show c: "changes {p} w w1" by (rule changes_one [OF k up])
  show dp: "is_dir w1 p" using p at iu by (simp add: is_dir_used same_attrs_def)
  have dok: "dir_ok (file_at w1 p)" using inv by (simp add: dir_inv_def)
  show "volume_ok w1"
  proof (rule changes_volume [OF v c])
    show "is_dir w1 UFS_ROOT_INODE"
      using changes_dir(1) [OF v c root_used [OF v]] dp by (cases "p = UFS_ROOT_INODE") simp_all
    show "ran (dir_map d w) \<subseteq> used_inodes w1" if "is_dir w d" for d using dir_refs [OF v that] iu by simp
    fix n assume "n \<in> {p}"
    then have n: "n = p" by simp
    show "file_ok (file_at w1 n)" using dok dir_ok_file [of "inode_at w1 p" w1] by (simp add: n file_at_def)
    show "dir_ok (file_at w1 n) \<and> ran (dir_map n w1) \<subseteq> used_inodes w1" using dok refs iu by (simp add: n)
    show "link_ok (file_at w1 n)" if "ino_type (inode_at w1 n) = UFS_TYPE_SYMLINK"
      using that dp by (simp add: n is_dir_def)
  qed simp
qed

lemma add_name_step:
  assumes v: "volume_ok w" and p: "is_dir w p" and name: "CHR 0x00 \<notin> set name" and t: "target \<in> used_inodes w"
  shows "case directory_add p name target type w of (r, w1) \<Rightarrow>
    (case add_error p name type w of
       Some e \<Rightarrow> r = None \<and> w1 = w\<lparr>errno := e\<rparr>
     | None \<Rightarrow> r = Some () \<and> changes {p} w w1 \<and> volume_ok w1 \<and> used_inodes w1 = used_inodes w \<and>
         is_dir w1 p \<and> dir_map p w1 = (dir_map p w)(name \<mapsto> target) \<and> same_attrs (inode_at w1 p) (inode_at w p))"
proof -
  have inv: "dir_inv p w" by (rule tree_ok_dir(1) [OF volume_okD(1) [OF v] p])
  have "target < 2 ^ 32" using t by (simp add: used_inodes_def)
  note run = directory_add_run [OF inv name this, of type]
  show ?thesis
  proof (cases "add_error p name type w")
    case (Some e)
    then show ?thesis using run by (simp split: prod.splits)
  next
    case None
    obtain w1 where r: "directory_add p name target type w = (Some (), w1)" "dir_inv p w1"
        "dir_map p w1 = (dir_map p w)(name \<mapsto> target)" "others_kept p (file_at w p) (file_at w1 p)"
        "same_attrs (inode_at w1 p) (inode_at w p)"
      using run None by (auto split: prod.splits)
    have "ran (dir_map p w1) \<subseteq> insert target (ran (dir_map p w))" unfolding r(3) by (auto simp: ran_def)
    then have "ran (dir_map p w1) \<subseteq> used_inodes w" using dir_refs [OF v p] t by blast
    then show ?thesis using entries_step [OF v p r(2,4,5)] r None by simp
  qed
qed

lemma remove_name_step:
  assumes v: "volume_ok w" and p: "is_dir w p" and some: "dir_map p w name \<noteq> None"
  shows "\<exists>w1. directory_remove p name w = (Some (), w1) \<and> changes {p} w w1 \<and> volume_ok w1 \<and> used_inodes w1 = used_inodes w \<and>
    is_dir w1 p \<and> dir_map p w1 = (dir_map p w)(name := None) \<and> same_attrs (inode_at w1 p) (inode_at w p)"
proof -
  have inv: "dir_inv p w" by (rule tree_ok_dir(1) [OF volume_okD(1) [OF v] p])
  obtain w1 where r: "directory_remove p name w = (Some (), w1)" "dir_inv p w1"
      "dir_map p w1 = (dir_map p w)(name := None)" "others_kept p (file_at w p) (file_at w1 p)"
      "same_attrs (inode_at w1 p) (inode_at w p)"
    using directory_remove_run [OF inv, of name] some by (auto split: prod.splits)
  have "ran (dir_map p w1) \<subseteq> ran (dir_map p w)" unfolding r(3) by (auto simp: ran_def)
  then have "ran (dir_map p w1) \<subseteq> used_inodes w" using dir_refs [OF v p] by blast
  then show ?thesis using entries_step [OF v p r(2,4,5)] r by simp
qed

end
