(* ===== verification/Ufs_Parent.thy ===== *)
theory Ufs_Parent
  imports Ufs_Steps
begin

text \<open>
  What the operations that change a name share: finding the parent of a path and the permission to
  change it, its time stamps, the worlds that look the same to the file system, and the frame of a
  failed operation.
\<close>

section \<open>The parent of a path\<close>

lemma components_path_of: "valid_parts cs \<Longrightarrow> components (path_of cs) = cs"
proof (cases cs)
  case (Cons c ds)
  assume v: "valid_parts cs"
  then have c: "slash \<notin> set c" "c \<noteq> []" and ds: "\<forall>d \<in> set ds. slash \<notin> set d" using Cons by (auto simp: valid_component_def)
  have "path_of cs = slash # c @ tail_of ds" using Cons by (simp add: path_of_tail)
  moreover have "path_parts (c @ tail_of ds) = c # ds" using path_parts_tail [OF ds, of c] path_parts_last [OF c(1)] by simp
  ultimately show ?thesis using Cons c(2) by (simp add: components_def)
qed (simp add: components_def path_of_def)

lemma split_path:
  assumes v: "valid_path path" and ns: "path \<noteq> [slash]"
  shows "final_name path = last (components path)" "parent_of path = path_of (butlast (components path))"
    "valid_path (parent_of path)" "components (parent_of path) = butlast (components path)"
    "valid_component (last (components path))" "set (last (components path)) \<subseteq> set path"
proof -
  note c = components_valid [OF v]
  have ne: "components path \<noteq> []" using ns c(2) by (auto simp: path_of_def)
  define ds d where "ds = butlast (components path)" and "d = last (components path)"
  have cs: "components path = ds @ [d]" using ne by (simp add: ds_def d_def)
  have bl: "butlast (components path) = ds" "last (components path) = d" by (simp_all add: cs)
  have vd: "valid_parts ds" "valid_component d" using c(1) by (simp_all add: cs)
  then show "valid_component (last (components path))" by (simp add: cs)
  have p: "path = tail_of ds @ slash # d" using c(2) by (simp add: cs path_of_tail tail_of_append)
  have "set d \<subseteq> set path" unfolding p by auto
  then show "set (last (components path)) \<subseteq> set path" by (simp only: cs last_snoc)
  have noslash: "\<And>x. x \<in> set d \<Longrightarrow> x \<noteq> slash" using vd(2) by (auto simp: valid_component_def)
  have "takeWhile (\<lambda>c. c \<noteq> slash) (rev d @ ys) = rev d @ takeWhile (\<lambda>c. c \<noteq> slash) ys" for ys
    by (rule takeWhile_append2) (use noslash in simp)
  then have "takeWhile (\<lambda>c. c \<noteq> slash) (rev path) = rev d" unfolding p by simp
  then show fin: "final_name path = last (components path)" by (simp add: final_name_def cs)
  show par: "parent_of path = path_of (butlast (components path))"
    unfolding parent_of_def fin bl by (simp add: p path_of_tail Let_def)
  have "length (path_of ds) \<le> length path" by (simp add: p path_of_tail)
  then have "valid_path (path_of ds)" using v vd(1) by (auto simp: valid_path_def)
  then show "valid_path (parent_of path)" unfolding par by (simp add: cs)
  show "components (parent_of path) = butlast (components path)"
    unfolding par using components_path_of [OF vd(1)] by (simp add: cs)
qed

lemma resolve_parent_run:
  assumes ok: "tree_ok w"
  shows "resolve_parent path w =
    (if \<not> valid_path path \<or> path = [slash] then (None, w\<lparr>errno := EINVAL\<rparr>)
     else case walk w False 39 (butlast (components path)) of
       Inl e \<Rightarrow> (None, w\<lparr>errno := e\<rparr>) | Inr p \<Rightarrow> (Some (p, last (components path)), w))"
proof -
  have m: "require_mounted w = (Some (), w)" by (rule require_mounted_live [OF tree_okD(1) [OF ok]])
  show ?thesis
  proof (cases "valid_path path \<and> path \<noteq> [slash]")
    case False
    then show ?thesis using m validate_path_run [of path w]
      by (cases "valid_path path") (auto simp: resolve_parent_def run_simps require_def fail_def)
  next
    case True
    then have v: "valid_path path" "path \<noteq> [slash]" by simp_all
    note sp = split_path [OF v]
    have "resolve_path (parent_of path) w = outcome (walk w False 39 (butlast (components path))) w"
      using resolve_run [OF ok, of "parent_of path" UFS_RESOLVE_FOLLOW_FINAL] sp(3,4) by (simp add: resolve_path_def)
    then show ?thesis using m validate_path_run [of path w] v sp(1)
      by (auto simp: resolve_parent_def run_simps require_def outcome_def ret_def split: sum.splits)
  qed
qed

lemma scan_used:
  assumes ok: "tree_ok w"
  shows "scan w nf pre n cs = Found m \<Longrightarrow> is_dir w n \<or> cs = [] \<and> n \<in> used_inodes w \<Longrightarrow> m \<in> used_inodes w"
proof (induction cs arbitrary: pre n)
  case (Cons c cs)
  have d: "is_dir w n" using Cons.prems(2) by simp
  obtain k where k: "dir_map n w c = Some k" using Cons.prems(1) by (auto split: if_splits option.splits)
  have ku: "k \<in> used_inodes w" using tree_ok_dir(2) [OF ok d k] by (simp add: used_inodes_def)
  have "scan w nf (pre @ [c]) k cs = Found m" "cs \<noteq> [] \<longrightarrow> ino_type (inode_at w k) = UFS_TYPE_DIR"
    using Cons.prems(1) k by (auto split: if_splits option.splits)
  moreover have "is_dir w k \<or> cs = [] \<and> k \<in> used_inodes w" using calculation(2) ku by (auto simp: is_dir_used)
  ultimately show ?case by (intro Cons.IH)
qed (auto simp: is_dir_used)

lemma walk_used:
  assumes ok: "tree_ok w"
  shows "walk w nf links cs = Inr m \<Longrightarrow> m \<in> used_inodes w"
proof (induction links arbitrary: cs)
  case 0
  then show ?case using scan_used [OF ok, of nf "[]" UFS_ROOT_INODE cs m] tree_okD(3) [OF ok] by (auto split: scan_result.splits)
next
  case (Suc links)
  then show ?case using scan_used [OF ok, of nf "[]" UFS_ROOT_INODE cs m] tree_okD(3) [OF ok] by (auto split: scan_result.splits)
qed

section \<open>Permission to change a directory\<close>

definition writable :: "world \<Rightarrow> ufs_inode \<Rightarrow> bool" where
  "writable w i \<longleftrightarrow> euid w = 0 \<or>
     (let c = access_class i (euid w) (egid w) (sup_groups w) in bit (ino_mode i) c \<and> bit (ino_mode i) (c + 1))"

lemma write_search_run:
  assumes "script w = []"
  shows "ufs_check_access_inode i (W_OK OR X_OK) w = (if writable w i then (Some (), w) else (None, w\<lparr>errno := EACCES\<rparr>))"
proof -
  have "bits_of (2 OR 1 :: u32) = {0, 1}" unfolding bits_of_def bit_or_iff bit_pow2_u32 by auto
  then have "bits_of (3 :: u32) = {0, 1}" by simp
  then show ?thesis
    using ufs_check_access_inode_calm [OF assms, of i "2 OR 1"]
    by (simp add: mode_allows_run writable_def Let_def bits_of_def [of "ino_mode i"] add.commute)
qed

text \<open>The prefix of \<open>create_node\<close>, \<open>rmdir\<close>, \<open>unlink\<close> and \<open>link\<close>: the parent, or the error.\<close>

definition find_parent :: "string \<Rightarrow> world \<Rightarrow> errno + nat" where
  "find_parent path w =
     (if \<not> valid_path path \<or> path = [slash] then Inl EINVAL
      else case walk w False 39 (butlast (components path)) of Inl e \<Rightarrow> Inl e | Inr p \<Rightarrow>
        if \<not> writable w (inode_at w p) then Inl EACCES else Inr p)"

lemma writable_parent_run:
  assumes ok: "tree_ok w"
  shows "writable_parent path w =
    (case find_parent path w of Inl e \<Rightarrow> (None, w\<lparr>errno := e\<rparr>) | Inr p \<Rightarrow> (Some (p, last (components path)), w))"
proof -
  have l: "live w" by (rule tree_okD(1) [OF ok])
  note rp = resolve_parent_run [OF ok, of path]
  show ?thesis
  proof (cases "valid_path path \<and> path \<noteq> [slash]")
    case False
    then show ?thesis using rp by (auto simp: writable_parent_def find_parent_def run_simps)
  next
    case v: True
    show ?thesis
    proof (cases "walk w False 39 (butlast (components path))")
      case (Inl e)
      then show ?thesis using rp v by (simp add: writable_parent_def find_parent_def run_simps)
    next
      case (Inr p)
      have "p < UFS_MAX_INODES" using walk_used [OF ok Inr] by (simp add: used_inodes_def)
      then show ?thesis using rp v Inr l write_search_run [OF live_script [OF l], of "inode_at w p"]
        by (simp add: writable_parent_def find_parent_def run_simps io_simps ret_def)
    qed
  qed
qed

lemma find_parent_used: "tree_ok w \<Longrightarrow> find_parent path w = Inr p \<Longrightarrow> p \<in> used_inodes w"
  by (rule walk_used) (auto simp: find_parent_def split: if_splits sum.splits)

lemma find_parent_name:
  assumes "find_parent path w = Inr p" and "CHR 0x00 \<notin> set path"
  shows "CHR 0x00 \<notin> set (last (components path))"
  using assms split_path(6) [of path] by (auto simp: find_parent_def split: if_splits)

lemma touch_parent_run:
  assumes v: "volume_ok w" and p: "is_dir w p"
  shows "\<exists>w1. touch_parent p w = (Some (), w1) \<and> changes {p} w w1 \<and> volume_ok w1 \<and> used_inodes w1 = used_inodes w \<and>
    is_dir w1 p \<and> dir_map p w1 = dir_map p w \<and> same_attrs (inode_at w1 p) (inode_at w p)"
proof -
  define i where "i = inode_at w p"
  have l: "live w" and u: "p \<in> used_inodes w" and n: "p < UFS_MAX_INODES"
    using volume_okD(2) [OF v] p by (simp_all add: is_dir_def used_inodes_def)
  obtain t tk where tm: "ufs_touch_mtime_ctime i w = (Some (i\<lparr>ino_mtime := t, ino_ctime := t\<rparr>), w\<lparr>ticks := tk\<rparr>)"
    using touch_calm(1) [OF live_script [OF l]] by blast
  define j where "j = i\<lparr>ino_mtime := t, ino_ctime := t\<rparr>"
  define v0 where "v0 = w\<lparr>ticks := tk\<rparr>"
  have b: "blk v0 = blk w" "live v0" "descriptor_table v0 = descriptor_table w"
    using l by (simp_all add: v0_def blk_def fun_eq_iff)
  note st = same_disk_step [OF v b]
  note sd = same_disk [OF b(1)]
  have wfi: "ino_wf i" using l by (simp add: i_def)
  then have wf: "ino_wf j" by (simp add: j_def ino_wf_def)
  have lay: "same_layout j (inode_at v0 p)" using wf
    by (simp add: same_layout_def sd(1) i_def [symmetric] j_def same_pointers_def)
  have u0: "p \<in> used_inodes v0" using u by (simp add: sd)
  note up = update_inode [OF st(2) u0 lay]
  define w1 where "w1 = put_inode p j v0"
  have "touch_parent p w = (Some (), w1)"
    using l n tm b(2) wf by (simp add: touch_parent_def io_simps run_simps i_def [symmetric] j_def [symmetric] v0_def [symmetric] w1_def)
  moreover have "changes {p} w w1" using changes_trans [OF st(1) up(1)] by (simp add: w1_def)
  moreover have "dir_map p w1 = dir_map p w" using up(3) p st(3) by (simp add: w1_def sd)
  moreover have "inode_at w1 p = j" using wf by (simp add: w1_def)
  then have "same_attrs (inode_at w1 p) (inode_at w p)" by (simp add: same_attrs_def j_def i_def)
  moreover have "used_inodes w1 = used_inodes w" using wf sd(2) by (simp add: w1_def used_inodes_def)
  moreover have "is_dir w1 p" using calculation(4,5) p by (simp add: is_dir_used same_attrs_def)
  ultimately show ?thesis using up(2) by (simp add: w1_def)
qed

lemma if_name_free_run:
  assumes ok: "tree_ok w" and p: "p \<in> used_inodes w"
  shows "if_name_free p name k w =
    (if ino_type (inode_at w p) \<noteq> UFS_TYPE_DIR then (None, w\<lparr>errno := ENOTDIR\<rparr>)
     else if dir_map p w name \<noteq> None then (None, w\<lparr>errno := EEXIST\<rparr>) else k (w\<lparr>errno := ENOENT\<rparr>))"
proof (cases "ino_type (inode_at w p) = UFS_TYPE_DIR")
  case False
  have "live w" "p < UFS_MAX_INODES" using tree_okD(1) [OF ok] p by (simp_all add: used_inodes_def)
  then have "directory_find p name w = (None, w\<lparr>errno := ENOTDIR\<rparr>)"
    using False by (simp add: directory_find_def io_simps run_simps fail_def)
  then show ?thesis using False by (simp add: if_name_free_def run_simps asking_def fail_same_def)
next
  case True
  then have "is_dir w p" using p by (simp add: is_dir_used)
  note find = directory_find_run [OF tree_ok_dir(1) [OF ok this], of name]
  then show ?thesis using True
    by (cases "dir_map p w name") (simp_all add: if_name_free_def run_simps asking_def fail_def)
qed

section \<open>Worlds that look the same\<close>

text \<open>They differ in \<open>errno\<close>, the clock and the lock only.\<close>

definition same_view :: "world \<Rightarrow> world \<Rightarrow> bool" where
  "same_view v w \<longleftrightarrow> blk v = blk w \<and> live v = live w \<and> descriptor_table v = descriptor_table w \<and>
     mapping_table v = mapping_table w \<and> euid v = euid w \<and> egid v = egid w \<and> sup_groups v = sup_groups w \<and>
     ufs_umask v = ufs_umask w"

lemma same_view_sym: "same_view v w \<Longrightarrow> same_view w v" by (simp add: same_view_def)

lemma same_view_simps [simp]: "same_view w w" "same_view (w\<lparr>errno := e\<rparr>) w" "same_view (w\<lparr>ticks := tk\<rparr>) w"
  "same_view (locked kd w) w" "live w \<Longrightarrow> same_view (released w) w"
proof -
  show "same_view w w" by (simp add: same_view_def)
  show "same_view (w\<lparr>errno := e\<rparr>) w" "same_view (w\<lparr>ticks := tk\<rparr>) w" by (simp_all add: same_view_def blk_def fun_eq_iff)
  have "mapping_table (locked kd w) = mapping_table w" "ufs_umask (locked kd w) = ufs_umask w" "euid (locked kd w) = euid w"
    "egid (locked kd w) = egid w" "sup_groups (locked kd w) = sup_groups w" by (simp_all add: locked_def)
  then show "same_view (locked kd w) w" by (simp add: same_view_def)
  have "mapping_table (released w) = mapping_table w" "ufs_umask (released w) = ufs_umask w" "euid (released w) = euid w"
    "egid (released w) = egid w" "sup_groups (released w) = sup_groups w" by (simp_all add: released_def)
  then show "live w \<Longrightarrow> same_view (released w) w" by (simp add: same_view_def)
qed

lemma same_view:
  assumes s: "same_view v w"
  shows "inode_at v = inode_at w" "used_inodes v = used_inodes w" "is_dir v = is_dir w" "block_used v = block_used w"
    "inode_used v = inode_used w" "dir_map m v = dir_map m w" "writable v = writable w"
    "walk v nf links cs = walk w nf links cs" "contents (file_at v m) = contents (file_at w m)"
    "dir_entries (file_at v m) = dir_entries (file_at w m)" "dir_blocks (file_at v m) = dir_blocks (file_at w m)"
    "full v = full w"
proof -
  have d: "blk v = blk w" and c: "euid v = euid w" "egid v = egid w" "sup_groups v = sup_groups w"
    using s by (simp_all add: same_view_def)
  note s = same_disk [OF d]
  show "inode_at v = inode_at w" "used_inodes v = used_inodes w" "is_dir v = is_dir w" "block_used v = block_used w"
    "inode_used v = inode_used w" by (rule s)+
  show "full v = full w" by (simp add: full_def s(7))
  show "writable v = writable w" by (simp add: writable_def c fun_eq_iff)
  show "contents (file_at v m) = contents (file_at w m)" by (simp add: file_at_def s)
  show "dir_blocks (file_at v m) = dir_blocks (file_at w m)" for m by (simp add: file_at_def s dir_blocks_def)
  have data: "block_data (i, v) lb = block_data (i, w) lb" for i lb
    using slot_ptr_blk [OF d] by (simp add: block_data_def bmap_def d)
  then show de: "dir_entries (file_at v m) = dir_entries (file_at w m)" for m
    by (simp add: s(1) dir_entries_def dir_blocks_def file_at_def)
  show dm: "dir_map m v = dir_map m w" for m by (simp add: dir_map_def de)
  have "link_text v m = link_text w m" for m
    using data by (simp add: link_text_def s(5) file_size_def) (simp add: file_at_def)
  then have lk: "link_components v m pre cs = link_components w m pre cs" for m pre cs by (simp add: link_components_def)
  have se: "searchable v i = searchable w i" for i by (simp add: searchable_def c)
  have sc: "scan v nf pre n cs = scan w nf pre n cs" for pre n cs
    by (induction cs arbitrary: pre n) (simp_all only: scan.simps se dm lk s(1) cong: option.case_cong if_cong)
  show "walk v nf links cs = walk w nf links cs"
    by (induction links arbitrary: cs) (simp_all only: walk.simps sc cong: scan_result.case_cong)
qed

lemma same_view_parent: "same_view v w \<Longrightarrow> find_parent path v = find_parent path w"
  by (simp only: find_parent_def same_view)

lemma same_view_names: "same_view v w \<Longrightarrow> names_of v m = names_of w m"
  by (simp only: names_of_def entries_of_def same_view)

lemma same_view_step:
  assumes s: "same_view v w" and ok: "volume_ok w"
  shows "changes U w v" "volume_ok v"
  using s volume_okD(2) [OF ok] by (intro same_disk_step [OF ok]; simp add: same_view_def)+

lemma same_view_namespace: "same_view v w \<Longrightarrow> namespace_ok w \<Longrightarrow> namespace_ok v"
  by (simp add: namespace_ok_def same_view_step link_count_ok_def same_view same_view_names)

lemma same_view_changes: "same_view v w \<Longrightarrow> same_view v1 w1 \<Longrightarrow> changes U v v1 = changes U w w1"
  using same_disk [of v w] same_disk [of v1 w1] by (simp add: changes_def same_view_def)

text \<open>A public operation: its body between taking and giving back the lock.\<close>

lemma public_step:
  assumes v: "volume_ok w" and d: "lock_depth w = 0" and ctx: "\<And>c. preserves (in_context c) m"
    and run: "m (locked F_WRLCK w) = (r, u)" and u: "volume_ok u"
  shows "with_lock ufs_operation_write_lock m w = (r, released u)" "same_view (released u) u" "unlocked (released u)"
    "errno (released u) = errno u"
  using with_lock_live [OF volume_okD(2) [OF v] d run ctx volume_okD(2) [OF u]] volume_okD(2) [OF u]
  by simp_all (simp_all add: unlocked_def released_def)

section \<open>Frames\<close>

text \<open>Nothing in use has changed.\<close>

definition nothing_changed :: "world \<Rightarrow> world \<Rightarrow> bool" where
  "nothing_changed w w1 \<longleftrightarrow> changes (- used_inodes w) w w1 \<and> used_inodes w1 = used_inodes w"

lemma nothing_changed_errno: "volume_ok w \<Longrightarrow> nothing_changed w (w\<lparr>errno := e\<rparr>) \<and> volume_ok (w\<lparr>errno := e\<rparr>)"
  using same_view_step [of "w\<lparr>errno := e\<rparr>" w] same_view(2) [of "w\<lparr>errno := e\<rparr>" w] by (simp add: nothing_changed_def)

lemma nothing_changed_views:
  "same_view v w \<Longrightarrow> same_view v1 w1 \<Longrightarrow> nothing_changed v v1 = nothing_changed w w1"
  by (simp add: nothing_changed_def same_view_changes same_view)

lemma nothing_changed_namespace:
  assumes ns: "namespace_ok w" and v1: "volume_ok w1" and nc: "nothing_changed w w1"
  shows "namespace_ok w1"
proof -
  have v: "volume_ok w" and c: "changes (- used_inodes w) w w1" and u: "used_inodes w1 = used_inodes w"
    using ns nc by (simp_all add: namespace_ok_def nothing_changed_def)
  have "entries_of w1 d m = entries_of w d m" if "d \<in> - used_inodes w" for d m
    using that u by (simp add: entries_of_def is_dir_used)
  then have "names_of w1 m = names_of w m" for m by (rule changes_names [OF v c])
  moreover have "inode_at w1 m = inode_at w m" if "m \<in> used_inodes w" for m using changes_other(2) [OF v c that] that by simp
  ultimately have "link_count_ok w1 m = link_count_ok w m" if "m \<in> used_inodes w" for m
    using that by (intro link_count_same) simp_all
  then show ?thesis using ns v1 u by (simp add: namespace_ok_def)
qed

text \<open>A public operation that changes nothing when it fails, from a run of its body under the lock.\<close>

lemma public_change:
  assumes ns: "namespace_ok w" and d: "lock_depth w = 0" and ctx: "\<And>c. preserves (in_context c) m"
    and body: "case m (locked F_WRLCK w) of (r, u) \<Rightarrow> volume_ok u \<and>
      (case err of Some e \<Rightarrow> r = None \<and> errno u = e \<and> nothing_changed (locked F_WRLCK w) u | None \<Rightarrow> r = Some () \<and> Q u)"
    and fine: "\<And>u v. same_view v u \<Longrightarrow> volume_ok v \<Longrightarrow> err = None \<Longrightarrow> Q u \<Longrightarrow> namespace_ok v \<and> R v"
  shows "case with_lock ufs_operation_write_lock m w of (r, w1) \<Rightarrow> namespace_ok w1 \<and> unlocked w1 \<and>
    (case err of Some e \<Rightarrow> r = None \<and> errno w1 = e \<and> nothing_changed w w1 | None \<Rightarrow> r = Some () \<and> R w1)"
proof -
  have v: "volume_ok w" using ns by (simp add: namespace_ok_def)
  obtain r u where run: "m (locked F_WRLCK w) = (r, u)" by fastforce
  note b = body [unfolded run prod.case]
  have vu: "volume_ok u" using b by blast
  note pub = public_step [OF v d ctx run vu]
  have vr: "volume_ok (released u)" by (rule same_view_step(2) [OF pub(2) vu])
  have "same_view (locked F_WRLCK w) w" by simp
  note nc = nothing_changed_views [OF same_view_sym [OF this] pub(2)]
  show ?thesis
  proof (cases err)
    case (Some e)
    then have "nothing_changed w (released u)" using b by (simp add: nc)
    then show ?thesis using nothing_changed_namespace [OF ns vr] pub(1,3,4) b Some by simp
  next
    case None
    then show ?thesis using fine [OF pub(2) vr] pub(1,3) b by simp
  qed
qed

text \<open>A step on the names of one inode \<open>n\<close> in one directory \<open>p\<close>.\<close>

lemma namespace_step:
  assumes ns: "namespace_ok w" and v1: "volume_ok w1" and c: "changes {n, p} w w1"
    and used: "used_inodes w1 \<subseteq> insert n (used_inodes w)" and at: "p \<noteq> n" "same_attrs (inode_at w1 p) (inode_at w p)"
    and n: "\<And>m. entries_of w1 n m = entries_of w n m" and p: "\<And>m. m \<noteq> n \<Longrightarrow> entries_of w1 p m = entries_of w p m"
    and count: "n \<in> used_inodes w1 \<Longrightarrow> link_count_ok w1 n"
  shows "namespace_ok w1"
proof -
  have v: "volume_ok w" using ns by (simp add: namespace_ok_def)
  have "link_count_ok w1 m" if m: "m \<in> used_inodes w1" for m
  proof (cases "m = n")
    case False
    then have mu: "m \<in> used_inodes w" using m used by blast
    have "names_of w1 m = names_of w m" using n p False by (intro changes_names [OF v c]) auto
    moreover have "same_attrs (inode_at w1 m) (inode_at w m)"
      using at changes_other(2) [OF v c mu] False by (cases "m = p") simp_all
    ultimately have "link_count_ok w1 m = link_count_ok w m" by (rule link_count_same)
    then show ?thesis using mu ns by (simp add: namespace_ok_def)
  qed (use count m in simp)
  then show ?thesis using v1 by (simp add: namespace_ok_def)
qed

lemma step_names:
  assumes v: "volume_ok w" and c: "changes {n, p} w w1" and n: "entries_of w1 n n = {}" "entries_of w n n = {}" and pn: "p \<noteq> n"
  shows "names_of w1 n = {(d, x) \<in> names_of w n. d \<noteq> p} \<union> {p} \<times> entries_of w1 p n"
proof -
  have "entries_of w1 d n = entries_of w d n" if "d \<noteq> p" for d
    using n changes_entries [OF v c, of d n] that by (cases "d = n") simp_all
  then show ?thesis by (auto simp: names_of_def) metis+
qed

end
