(* ===== verification/Ufs_Create.thy ===== *)
theory Ufs_Create
  imports Ufs_Parent
begin

text \<open>
  \<open>ufs_create\<close> and \<open>ufs_mkdir\<close> on a well-formed volume: the order of their errors, what they create, and
  that nothing else changes. The one late error, a parent directory that cannot grow, gives the inode
  back.
\<close>

section \<open>Giving an inode back\<close>

lemma give_back:
  assumes v: "volume_ok w" and c: "changes {n} w u" and vu: "volume_ok u" and uu: "used_inodes u = insert n (used_inodes w)"
    and n: "n \<notin> used_inodes w" "1 \<le> n" and none: "is_dir u n \<Longrightarrow> dir_map n u = Map.empty"
  shows "\<exists>w1. fail_after (free_inode n) u = (None :: unit option, w1) \<and> volume_ok w1 \<and> errno w1 = errno u \<and> nothing_changed w w1"
proof -
  have refs: "n \<notin> ran (dir_map d u)" if "is_dir u d" for d
  proof (cases "d = n")
    case True
    then show ?thesis using that none by simp
  next
    case False
    then have "is_dir w d" using that uu changes_other(2) [OF v c, of d] by (auto simp: is_dir_used)
    then show ?thesis using changes_dir(3) [OF v c] False dir_refs [OF v] n(1) by auto
  qed
  have "n \<in> used_inodes u" by (simp add: uu)
  then obtain x where f: "free_inode n u = (Some (), x)" "changes {n} u x" "volume_ok x" "used_inodes x = used_inodes u - {n}"
    using free_step [OF vu, of n] refs n(2) by auto
  define w1 where "w1 = x\<lparr>errno := errno u\<rparr>"
  have s: "same_view w1 x" by (simp add: w1_def)
  note sv = same_view_step [OF s f(3)]
  have used: "used_inodes w1 = used_inodes w" using same_view(2) [OF s] f(4) uu n(1) by auto
  have "changes {n} w w1" using changes_trans [OF c changes_trans [OF f(2) sv(1)]] .
  then have "changes (- used_inodes w) w w1" by (rule changes_more [OF v]) (use n(1) in simp)
  then have "nothing_changed w w1" using used by (simp add: nothing_changed_def)
  then show ?thesis using f(1) sv(2) by (simp add: fail_after_def w1_def)
qed

section \<open>New nodes\<close>

text \<open>The order of the errors up to the allocation of the inode.\<close>

definition new_name_error :: "string \<Rightarrow> (nat \<Rightarrow> world \<Rightarrow> errno option) \<Rightarrow> world \<Rightarrow> errno option" where
  "new_name_error path late w =
     (case find_parent path w of Inl e \<Rightarrow> Some e | Inr p \<Rightarrow>
        if ino_type (inode_at w p) \<noteq> UFS_TYPE_DIR then Some ENOTDIR
        else if dir_map p w (last (components path)) \<noteq> None then Some EEXIST
        else if unused_slots inode_used 1 UFS_MAX_INODES w = {} then Some ENOSPC
        else late p w)"

definition new_mode :: "u32 \<Rightarrow> world \<Rightarrow> u32" where
  "new_mode type w =
     (if type = UFS_TYPE_SYMLINK then 0x1FF
      else (if type = UFS_TYPE_DIR then 0x1FF else 0x1B6) AND NOT (ufs_umask w))"

definition new_node :: "nat \<Rightarrow> string \<Rightarrow> u32 \<Rightarrow> world \<Rightarrow> world \<Rightarrow> nat \<Rightarrow> bool" where
  "new_node p name type w w1 n \<longleftrightarrow>
     n \<in> unused_slots inode_used 1 UFS_MAX_INODES w \<and> (\<forall>m \<in> unused_slots inode_used 1 UFS_MAX_INODES w. n \<le> m) \<and>
     changes {n, p} w w1 \<and> used_inodes w1 = insert n (used_inodes w) \<and>
     dir_map p w1 = (dir_map p w)(name \<mapsto> n) \<and> same_attrs (inode_at w1 p) (inode_at w p) \<and>
     ino_type (inode_at w1 n) = type \<and> ino_mode (inode_at w1 n) = new_mode type w \<and>
     ino_uid (inode_at w1 n) = euid w \<and> ino_gid (inode_at w1 n) = egid w \<and> ino_link_count (inode_at w1 n) = 1 \<and>
     ino_generation (inode_at w1 n) = next_generation (ino_generation (inode_at w n)) \<and>
     (type = UFS_TYPE_DIR \<longrightarrow> dir_map n w1 = Map.empty)"

text \<open>The inode claimed and prepared, not yet written.\<close>

lemma prepare_run:
  assumes v: "volume_ok w" and n: "n < UFS_MAX_INODES" "n \<notin> used_inodes w"
    and ty: "type \<in> {UFS_TYPE_FILE, UFS_TYPE_DIR} \<and> requested = 0 \<or> type = UFS_TYPE_SYMLINK"
  obtains j u where "prepare_inode n type requested (claim_inode n w) = (Some j, u)" "changes {n} w u" "volume_ok u"
    "used_inodes u = insert n (used_inodes w)" "bare (inode_at u n)" "ino_type (inode_at u n) = 0" "bare j" "ino_type j = type"
    "ino_mode j = new_mode type w" "ino_uid j = euid w" "ino_gid j = egid w" "ino_link_count j = 1"
    "ino_generation j = next_generation (ino_generation (inode_at w n))" "blk u = blk (claim_inode n w)"
proof -
  define x where "x = claim_inode n w"
  note cl = claim_step [OF v n, folded x_def]
  have l: "live w" "live x" by (rule volume_okD(2) [OF v] volume_okD(2) [OF cl(2)])+
  have s: "script x = []" by (rule live_script [OF l(2)])
  have proc: "ufs_umask x = ufs_umask w" "euid x = euid w" "egid x = egid w"
    by (simp_all add: x_def claim_inode_def flushed_def add_free_inodes_def)
  obtain t tk where c: "ufs_get_current_disk_time x = (Some t, x\<lparr>ticks := tk\<rparr>)" using current_time_calm [OF s] by blast
  have um: "get_ufs_umask x = (Some (ufs_umask w), x)"
    using s proc by (simp add: get_ufs_umask_def discard_def io_simps asking_def ret_def)
  have d: "default_mode 0 m = m" for m by (simp add: default_mode_def)
  have md: "(if type = UFS_TYPE_FILE then ret (default_mode requested 0x1B6 AND NOT (ufs_umask w))
        else if type = UFS_TYPE_DIR then ret (default_mode requested 0x1FF AND NOT (ufs_umask w))
        else if type = UFS_TYPE_SYMLINK then ret 0x1FF else fail EINVAL) x = (Some (new_mode type w), x)"
    using ty by (auto simp: d ret_def new_mode_def)
  define j where "j = (ufs_init_inode type)\<lparr>ino_generation := ino_generation (inode_at x n),
      ino_type := type, ino_mode := new_mode type w,
      ino_uid := euid w, ino_gid := egid w, ino_link_count := 1, ino_atime := t, ino_mtime := t, ino_ctime := t\<rparr>"
  define u where "u = x\<lparr>ticks := tk\<rparr>"
  have run: "prepare_inode n type requested x = (Some j, u)"
    unfolding prepare_inode_def ufs_initialize_metadata_def
    by (simp only: on_ok_Some read_inode_live [OF l(2) n(1)] um md c) (simp add: asking_def ret_def proc j_def u_def)
  have sv: "same_view u x" by (simp add: u_def)
  note st = same_view_step [OF sv cl(2)] and views = same_view [OF sv]
  have "bare j" by (simp add: bare_def j_def ino_wf_def same_pointers_def) (simp add: ufs_init_inode_def)
  moreover have "ino_generation j = next_generation (ino_generation (inode_at w n))"
    using claim_inode_views(5) [OF l(1) n(1) n(1)] by (simp add: j_def x_def)
  moreover have "blk u = blk x" using sv by (simp add: same_view_def)
  ultimately show ?thesis
    using that [OF run [unfolded x_def] changes_trans [OF cl(1) st(1)] st(2)] cl(3-5) views(1,2)
    by (simp add: x_def [symmetric]) (simp add: j_def)
qed

text \<open>The last step of every creation: the node is on the disk and gets its name, or is given back.\<close>

lemma enter_node:
  assumes v: "volume_ok w" and p: "is_dir w p" and nul: "CHR 0x00 \<notin> set name" and n: "n \<notin> used_inodes w" "1 \<le> n"
    and c: "changes {n} w u" and vu: "volume_ok u" and uu: "used_inodes u = insert n (used_inodes w)"
    and none: "is_dir u n \<Longrightarrow> dir_map n u = Map.empty" and step: "m x = directory_add p name n type u"
  shows "case attempt m (\<lambda>_. touch_parent p) (fail_after (free_inode n)) x of (r, w1) \<Rightarrow> volume_ok w1 \<and>
     (case add_error p name type u of
       Some e \<Rightarrow> r = None \<and> errno w1 = e \<and> nothing_changed w w1
     | None \<Rightarrow> r = Some () \<and> changes {n, p} w w1 \<and> used_inodes w1 = insert n (used_inodes w) \<and>
         dir_map p w1 = (dir_map p w)(name \<mapsto> n) \<and> same_attrs (inode_at w1 p) (inode_at w p) \<and>
         inode_at w1 n = inode_at u n \<and> contents (file_at w1 n) = contents (file_at u n) \<and>
         (is_dir u n \<longrightarrow> dir_map n w1 = Map.empty))"
proof -
  have pn: "p \<noteq> n" "p \<in> used_inodes w" using p n(1) by (auto simp: is_dir_used)
  note dirc = changes_dir [OF v c p]
  have pu: "is_dir u p" and nu: "n \<in> used_inodes u" using dirc(1) pn uu by simp_all
  note add = add_name_step [OF vu pu nul nu, of type]
  show ?thesis
  proof (cases "add_error p name type u")
    case (Some e)
    define y where "y = u\<lparr>errno := e\<rparr>"
    have s: "same_view y u" by (simp add: y_def)
    note sv = same_view_step [OF s vu] and views = same_view [OF s]
    have a: "directory_add p name n type u = (None, y)" using add Some by (auto simp: y_def split: prod.splits)
    have "is_dir y n \<Longrightarrow> dir_map n y = Map.empty" using none views(3,6) by simp
    from give_back [OF v changes_trans [OF c sv(1)] sv(2) _ n this] uu views(2)
    show ?thesis using Some a by (auto simp: attempt_def step y_def)
  next
    case None
    obtain y where a: "directory_add p name n type u = (Some (), y)" "changes {p} u y" "volume_ok y"
        "used_inodes y = used_inodes u" "is_dir y p" "dir_map p y = (dir_map p u)(name \<mapsto> n)"
        "same_attrs (inode_at y p) (inode_at u p)"
      using add None by (auto split: prod.splits)
    obtain z where e: "touch_parent p y = (Some (), z)" "changes {p} y z" "volume_ok z"
        "used_inodes z = used_inodes y" "is_dir z p" "dir_map p z = dir_map p y" "same_attrs (inode_at z p) (inode_at y p)"
      using touch_parent_run [OF a(3,5)] by blast
    have pe: "changes {p} u z" by (rule changes_trans [OF a(2) e(2)])
    have "changes {n, p} w z"
      by (rule changes_trans [OF changes_more [OF v c] changes_more [OF vu pe]]) simp_all
    moreover have "inode_at z n = inode_at u n" "contents (file_at z n) = contents (file_at u n)"
      using changes_other(2,8) [OF vu pe nu] pn(1) by simp_all
    moreover have "is_dir u n \<longrightarrow> dir_map n z = Map.empty" using changes_dir(3) [OF vu pe, of n] pn(1) none by auto
    moreover have "dir_map p z = (dir_map p w)(name \<mapsto> n)" using e(6) a(6) dirc(3) pn(1) by simp
    moreover have "same_attrs (inode_at z p) (inode_at w p)"
      using e(7) a(7) changes_other(2) [OF v c pn(2)] pn(1) by (simp add: same_attrs_def)
    moreover have "used_inodes z = insert n (used_inodes w)" using e(4) a(4) uu by simp
    ultimately show ?thesis using None e(1,3) a(1) by (simp add: attempt_def step)
  qed
qed

lemma new_node_views:
  assumes v: "same_view v w" and v1: "same_view v1 w1"
  shows "new_node p name type v v1 n = new_node p name type w w1 n"
  using v same_view [OF v] same_view [OF v1] same_view_changes [OF v v1]
  by (simp add: new_node_def unused_slots_def new_mode_def) (simp add: same_view_def)

text \<open>The common beginning: the parent, the name, the inode.\<close>

lemma new_name_run:
  assumes v: "volume_ok w" and nul: "CHR 0x00 \<notin> set path"
    and m: "m = on_ok (writable_parent path) (\<lambda>(p, name). if_name_free p name (on_ok allocate_inode (late p name)))"
    and rest: "\<And>p n u. same_view u w \<Longrightarrow> volume_ok u \<Longrightarrow> is_dir u p \<Longrightarrow> CHR 0x00 \<notin> set (last (components path)) \<Longrightarrow>
       n \<in> unused_slots inode_used 1 UFS_MAX_INODES u \<Longrightarrow> \<forall>m \<in> unused_slots inode_used 1 UFS_MAX_INODES u. n \<le> m \<Longrightarrow>
       case late p (last (components path)) n (claim_inode n u) of (r, w1) \<Rightarrow> volume_ok w1 \<and>
         (case err p w of Some e \<Rightarrow> r = None \<and> errno w1 = e \<and> nothing_changed u w1 | None \<Rightarrow> r = Some () \<and> Q p u w1 n)"
    and views: "\<And>p u w1 n. same_view u w \<Longrightarrow> Q p u w1 n = Q p w w1 n"
  shows "case m w of (r, w1) \<Rightarrow> volume_ok w1 \<and>
    (case new_name_error path err w of
       Some e \<Rightarrow> r = None \<and> errno w1 = e \<and> nothing_changed w w1
     | None \<Rightarrow> r = Some () \<and> (\<exists>p n. find_parent path w = Inr p \<and> Q p w w1 n))"
proof -
  have t: "tree_ok w" and l: "live w" by (rule volume_okD [OF v])+
  have early: ?thesis if "m w = (None, w\<lparr>errno := e\<rparr>)" "new_name_error path err w = Some e" for e
    using that nothing_changed_errno [OF v, of e] by simp
  note wp = writable_parent_run [OF t, of path]
  define name where "name = last (components path)"
  show ?thesis
  proof (cases "find_parent path w")
    case (Inl e)
    then show ?thesis by (intro early [of e]) (use wp in \<open>simp_all add: m new_name_error_def run_simps\<close>)
  next
    case (Inr p)
    have pu: "p \<in> used_inodes w" using find_parent_used [OF t Inr] .
    have mw: "m w = if_name_free p name (on_ok allocate_inode (late p name)) w"
      using wp Inr by (simp add: m run_simps name_def)
    note free = if_name_free_run [OF t pu, of name "on_ok allocate_inode (late p name)"]
    show ?thesis
    proof (cases "ino_type (inode_at w p) = UFS_TYPE_DIR \<and> dir_map p w name = None")
      case False
      then show ?thesis
        by (intro early [of "if ino_type (inode_at w p) \<noteq> UFS_TYPE_DIR then ENOTDIR else EEXIST"])
          (use mw free Inr in \<open>auto simp: new_name_error_def name_def\<close>)
    next
      case dir: True
      define u where "u = w\<lparr>errno := ENOENT\<rparr>"
      have mu: "m w = on_ok allocate_inode (late p name) u" using mw free dir by (simp add: u_def)
      have same: "same_view u w" by (simp add: u_def)
      note sv = same_view_step [OF same v] and du = same_view [OF same]
      have us: "unused_slots inode_used 1 UFS_MAX_INODES u = unused_slots inode_used 1 UFS_MAX_INODES w"
        by (simp add: unused_slots_def du)
      have lu: "live u" using volume_okD(2) [OF sv(2)] .
      show ?thesis
      proof (cases "first_from (\<lambda>i. \<not> inode_used u i) 1 UFS_MAX_INODES")
        case none: None
        then have "unused_slots inode_used 1 UFS_MAX_INODES w = {}" unfolding us [symmetric] by (simp only: none_unused)
        moreover have "m w = (None, w\<lparr>errno := ENOSPC\<rparr>)"
          unfolding mu using none lu by (simp add: allocate_inode_live run_simps fail_def u_def)
        ultimately show ?thesis by (intro early) (use Inr dir in \<open>simp_all add: new_name_error_def name_def\<close>)
      next
        case (Some n)
        have n: "n \<in> unused_slots inode_used 1 UFS_MAX_INODES u" "\<forall>m \<in> unused_slots inode_used 1 UFS_MAX_INODES u. n \<le> m"
          using Some by (auto simp: unused_slots_def first_from_Some not_le [symmetric])
        have pd: "is_dir u p" using dir pu by (simp add: du is_dir_used)
        have run: "m w = late p name n (claim_inode n u)"
          unfolding mu using Some lu by (simp add: allocate_inode_live run_simps)
        have ce: "new_name_error path err w = err p w"
          using Inr dir n(1) unfolding us by (auto simp: new_name_error_def name_def)
        have nc: "nothing_changed u w1 = nothing_changed w w1" for w1
          by (rule nothing_changed_views; simp add: same)
        show ?thesis
          using rest [OF same sv(2) pd find_parent_name [OF Inr nul] n] Inr views [OF same]
          unfolding run ce nc name_def by (auto split: prod.splits option.splits)
      qed
    qed
  qed
qed

section \<open>Creation\<close>

definition create_error :: "string \<Rightarrow> u32 \<Rightarrow> world \<Rightarrow> errno option" where
  "create_error path type = new_name_error path (\<lambda>p. add_error p (last (components path)) type)"

definition created :: "nat \<Rightarrow> string \<Rightarrow> u32 \<Rightarrow> world \<Rightarrow> world \<Rightarrow> nat \<Rightarrow> bool" where
  "created p name type w w1 n \<longleftrightarrow> new_node p name type w w1 n \<and> contents (file_at w1 n) = []"

lemma add_error_same:
  assumes v: "volume_ok w" and c: "changes {n} w w1" and none: "blocks_of {n} w = {}" "blocks_of {n} w1 = {}"
    and p: "is_dir w p" "p \<noteq> n"
  shows "add_error p name type w1 = add_error p name type w"
proof -
  note d = changes_dir [OF v c p(1)]
  have i: "inode_at w1 p = inode_at w p" using changes_other(2) [OF v c] p by (simp add: is_dir_used)
  have "full w1 = full w" using changesD(2) [OF c] by (simp add: full_def none)
  then show ?thesis using d(3,4) p(2) by (simp add: add_error_def dir_blocks_def file_at_def i)
qed

lemma make_entry_run:
  assumes v: "volume_ok w" and p: "is_dir w p" and nul: "CHR 0x00 \<notin> set name" and ty: "type \<in> {UFS_TYPE_FILE, UFS_TYPE_DIR}"
    and n: "n \<in> unused_slots inode_used 1 UFS_MAX_INODES w" "\<forall>m \<in> unused_slots inode_used 1 UFS_MAX_INODES w. n \<le> m"
  shows "case attempt
       (on_ok (prepare_inode n type 0) (\<lambda>inode. on_ok (write_inode n inode) (\<lambda>_. directory_add p name n type)))
       (\<lambda>_. touch_parent p) (fail_after (free_inode n)) (claim_inode n w) of (r, w1) \<Rightarrow> volume_ok w1 \<and>
     (case add_error p name type w of
       Some e \<Rightarrow> r = None \<and> errno w1 = e \<and> nothing_changed w w1
     | None \<Rightarrow> r = Some () \<and> created p name type w w1 n)"
proof -
  have nn: "1 \<le> n" "n < UFS_MAX_INODES" "n \<notin> used_inodes w" using n(1) by (simp_all add: unused_slots_def used_inodes_def)
  have pn: "p \<noteq> n" using p nn(3) by (auto simp: is_dir_used)
  have "type \<in> {UFS_TYPE_FILE, UFS_TYPE_DIR} \<and> 0 = (0 :: u32) \<or> type = UFS_TYPE_SYMLINK" using ty by blast
  then obtain j x where pr: "prepare_inode n type 0 (claim_inode n w) = (Some j, x)" "changes {n} w x" "volume_ok x"
    "used_inodes x = insert n (used_inodes w)" "bare (inode_at x n)" "ino_type (inode_at x n) = 0" "bare j" "ino_type j = type"
    "ino_mode j = new_mode type w" "ino_uid j = euid w" "ino_gid j = egid w" "ino_link_count j = 1"
    "ino_generation j = next_generation (ino_generation (inode_at w n))"
    by (rule prepare_run [OF v nn(2,3)]) blast
  have wf: "same_pointers j (inode_at x n)" "ino_wf j" using pr(5,7) by (simp_all add: bare_def same_pointers_def)
  define u where "u = put_inode n j x"
  have nx: "n \<in> used_inodes x" by (simp add: pr(4))
  note pc = put_inode_changes [OF pr(3) nx wf, folded u_def]
  have at: "inode_at u n = j" using wf by (simp add: u_def)
  have uu: "used_inodes u = insert n (used_inodes w)" by (simp add: pc(6) pr(4))
  have c: "changes {n} w u" using changes_trans [OF pr(2) pc(1)] .
  have vu: "volume_ok u" by (rule bare_step [OF v c]) (use pr(7,8) at uu nn ty in auto)
  have none: "blocks_of {n} w = {}" "blocks_of {n} u = {}"
    using nn(3) bare_file(2) [OF pr(7)] pc(2) by (simp_all add: blocks_of_def)
  note ae = add_error_same [OF v c none p pn, of name type]
  have step: "on_ok (prepare_inode n type 0) (\<lambda>inode. on_ok (write_inode n inode) (\<lambda>_. directory_add p name n type)) (claim_inode n w) =
      directory_add p name n type u"
    using pr(1) wf volume_okD(2) [OF pr(3)] nn(2) by (simp add: on_ok_Some u_def [symmetric] write_inode_live)
  have "is_dir u n \<Longrightarrow> dir_map n u = Map.empty" using bare_dir_map [of u n] pr(7) at by simp
  note enter = enter_node [where m = "on_ok (prepare_inode n type 0) (\<lambda>inode. on_ok (write_inode n inode) (\<lambda>_. directory_add p name n type))"
      and x = "claim_inode n w", OF v p nul nn(3,1) c vu uu this step]
  have "contents (file_at u n) = []" using pc(2) bare_file(3) [OF pr(7)] by simp
  moreover have "is_dir u n \<longleftrightarrow> type = UFS_TYPE_DIR" using uu at pr(8) by (simp add: is_dir_used)
  ultimately show ?thesis
    using enter pr(8-13) n unfolding ae by (simp add: created_def new_node_def at split: prod.splits option.splits)
qed

lemma created_views:
  assumes "same_view v w" and "same_view v1 w1"
  shows "created p name type v v1 n = created p name type w w1 n"
  using new_node_views [OF assms] same_view(9) [OF assms(2)] by (simp add: created_def)

lemma new_name_error_views:
  assumes "same_view v w" and "\<And>p. late p v = late p w"
  shows "new_name_error path late v = new_name_error path late w"
  by (simp only: new_name_error_def same_view_parent [OF assms(1)] same_view [OF assms(1)] unused_slots_def assms(2))

lemma create_error_views:
  assumes "same_view v w" shows "create_error path type v = create_error path type w"
  unfolding create_error_def by (rule new_name_error_views [OF assms]) (simp only: same_view [OF assms] add_error_def)

lemma create_node_run:
  assumes v: "volume_ok w" and nul: "CHR 0x00 \<notin> set path" and ty: "type \<in> {UFS_TYPE_FILE, UFS_TYPE_DIR}"
  shows "case create_node path type w of (r, w1) \<Rightarrow> volume_ok w1 \<and>
    (case create_error path type w of
       Some e \<Rightarrow> r = None \<and> errno w1 = e \<and> nothing_changed w w1
     | None \<Rightarrow> r = Some () \<and> (\<exists>p n. find_parent path w = Inr p \<and> created p (last (components path)) type w w1 n))"
  unfolding create_error_def
proof (rule new_name_run [OF v nul create_node_def])
  fix p n u
  assume "same_view u w" and u: "volume_ok u" "is_dir u p" "CHR 0x00 \<notin> set (last (components path))"
    "n \<in> unused_slots inode_used 1 UFS_MAX_INODES u" "\<forall>m \<in> unused_slots inode_used 1 UFS_MAX_INODES u. n \<le> m"
  then have "add_error p (last (components path)) type u = add_error p (last (components path)) type w"
    by (simp only: same_view add_error_def)
  then show "case attempt (on_ok (prepare_inode n type 0) (\<lambda>inode. on_ok (write_inode n inode)
      (\<lambda>_. directory_add p (last (components path)) n type))) (\<lambda>_. touch_parent p) (fail_after (free_inode n)) (claim_inode n u) of
    (r, w1) \<Rightarrow> volume_ok w1 \<and> (case add_error p (last (components path)) type w of
       Some e \<Rightarrow> r = None \<and> errno w1 = e \<and> nothing_changed u w1
     | None \<Rightarrow> r = Some () \<and> created p (last (components path)) type u w1 n)"
    using make_entry_run [OF u(1-3) ty u(4,5)] by simp
qed (rule created_views; simp)

lemma new_node_namespace:
  assumes ns: "namespace_ok w" and v1: "volume_ok w1" and cr: "new_node p name type w w1 n"
    and p: "is_dir w p" "dir_map p w name = None"
  shows "namespace_ok w1"
proof -
  have v: "volume_ok w" using ns by (simp add: namespace_ok_def)
  have n: "n \<notin> used_inodes w" "1 \<le> n" using cr by (simp_all add: new_node_def unused_slots_def used_inodes_def)
  have c: "changes {n, p} w w1" and u: "used_inodes w1 = insert n (used_inodes w)"
    and map: "dir_map p w1 = (dir_map p w)(name \<mapsto> n)" and at: "same_attrs (inode_at w1 p) (inode_at w p)"
    and ln: "ino_link_count (inode_at w1 n) = 1" and dn: "ino_type (inode_at w1 n) = UFS_TYPE_DIR \<longrightarrow> dir_map n w1 = Map.empty"
    using cr by (simp_all add: new_node_def)
  have pu: "p \<in> used_inodes w" "p \<noteq> n" using p(1) n(1) by (auto simp: is_dir_used)
  have p1: "is_dir w1 p" using p(1) at u by (simp add: is_dir_used same_attrs_def)
  have en: "entries_of w1 n m = {}" "entries_of w n m = {}" for m
    using dn n(1) by (auto simp: entries_of_def is_dir_used)
  have ep: "entries_of w1 p m = (if m = n then insert name (entries_of w p m) else entries_of w p m)" for m
    using p p1 map by (auto simp: entries_of_def)
  have none: "names_of w n = {}" by (rule unused_names [OF v n(1)])
  then have "entries_of w p n = {}" by (auto simp: names_of_def)
  then have "names_of w1 n = {(p, name)}" using step_names [OF v c en pu(2)] none ep by simp
  then have "link_count_ok w1 n" using ln n(2) by (simp add: link_count_ok_def)
  then show ?thesis using namespace_step [OF ns v1 c _ pu(2) at] u en ep by simp
qed

section \<open>Public operations\<close>

lemma public_create:
  assumes ns: "namespace_ok w" and d: "lock_depth w = 0" and nul: "CHR 0x00 \<notin> set path" and ty: "type \<in> {UFS_TYPE_FILE, UFS_TYPE_DIR}"
  shows "case with_lock ufs_operation_write_lock (create_node path type) w of (r, w1) \<Rightarrow> namespace_ok w1 \<and> unlocked w1 \<and>
    (case create_error path type w of
       Some e \<Rightarrow> r = None \<and> errno w1 = e \<and> nothing_changed w w1
     | None \<Rightarrow> r = Some () \<and> (\<exists>p n. find_parent path w = Inr p \<and> created p (last (components path)) type w w1 n))"
proof (rule public_change [OF ns d ctx.quiet_create(1)])
  have v: "volume_ok w" and s: "same_view (locked F_WRLCK w) w" using ns by (simp_all add: namespace_ok_def)
  have "created p nm type (locked F_WRLCK w) u n = created p nm type w u n" for p nm u n by (rule created_views [OF s]) simp
  then show "case create_node path type (locked F_WRLCK w) of (r, u) \<Rightarrow> volume_ok u \<and>
    (case create_error path type w of
       Some e \<Rightarrow> r = None \<and> errno u = e \<and> nothing_changed (locked F_WRLCK w) u
     | None \<Rightarrow> r = Some () \<and> (\<exists>p n. find_parent path w = Inr p \<and> created p (last (components path)) type w u n))"
    using create_node_run [OF same_view_step(2) [OF s v] nul ty] by (simp only: create_error_views [OF s] same_view_parent [OF s])
  fix u v assume sv: "same_view v u" and vv: "volume_ok v" and None: "create_error path type w = None"
    and "\<exists>p n. find_parent path w = Inr p \<and> created p (last (components path)) type w u n"
  then obtain p n where r: "find_parent path w = Inr p" "created p (last (components path)) type w v n"
    using created_views [OF same_view_simps(1) sv] by auto
  have "is_dir w p" "dir_map p w (last (components path)) = None"
    using None r(1) find_parent_used [OF volume_okD(1) [OF \<open>volume_ok w\<close>] r(1)]
    by (simp_all add: create_error_def new_name_error_def is_dir_used split: if_splits)
  then show "namespace_ok v \<and> (\<exists>p n. find_parent path w = Inr p \<and> created p (last (components path)) type w v n)"
    using new_node_namespace [OF ns vv, of p "last (components path)" type n] r by (auto simp: created_def)
qed

text \<open>The volume with an empty root, and what creation needs of it.\<close>

lemma sample_volume: "namespace_ok sample_tree" "lock_depth sample_tree = 0" "dir_map 0 sample_tree = Map.empty"
  "inode_at sample_tree 0 = ufs_init_inode UFS_TYPE_DIR" "used_inodes sample_tree = {0}" "\<not> full sample_tree" "euid sample_tree = 0"
proof -
  have l: "live sample_tree" by (rule tree_okD(1) [OF sample_tree_ok(1)])
  show i: "inode_at sample_tree 0 = ufs_init_inode UFS_TYPE_DIR" by (simp add: sample_tree_def)
  have used: "\<forall>n < UFS_MAX_INODES. inode_used sample_tree n \<longleftrightarrow> n = UFS_ROOT_INODE"
    using blank_inode_unused by (simp add: sample_tree_def)
  then show "used_inodes sample_tree = {0}" by (auto simp: used_inodes_def)
  have t: "ino_type (ufs_init_inode UFS_TYPE_DIR) = UFS_TYPE_DIR" "ino_block_count (ufs_init_inode UFS_TYPE_DIR) = 0"
    "ino_size (ufs_init_inode UFS_TYPE_DIR) = 0" by (simp_all add: ufs_init_inode_def)
  note r = namespace_with_empty_root [OF l used, unfolded i, OF t(1) same_pointers_refl t(2,3)]
  show "namespace_ok sample_tree" "dir_map 0 sample_tree = Map.empty" by (rule r)+
  have e: "euid blank_world = 0" "lock_depth blank_world = 0" unfolding blank_world_def by simp_all
  then show "euid sample_tree = 0" "lock_depth sample_tree = 0"
    by (simp_all add: sample_tree_def put_inode_def claim_inode_def flushed_def add_free_inodes_def)
  have "\<not> block_used sample_tree UFS_DATA_REGION_START_BLK" using blank_unused by (simp add: sample_tree_def)
  moreover have "in_data_region UFS_DATA_REGION_START_BLK" by (simp add: in_data_region_def)
  ultimately show "\<not> full sample_tree" unfolding full_def by blast
qed

lemma sample_parent: "find_parent ''/a'' sample_tree = Inr 0" "components ''/a'' = [''a'']"
proof -
  have vp: "valid_path ''/a''" "components ''/a'' = [''a'']"
    by (simp_all add: valid_path_def path_of_in_iff path_parts.simps valid_component_def components_def)
  have "walk sample_tree False 39 [] = Inr 0" by (simp add: numeral_eq_Suc)
  then show "find_parent ''/a'' sample_tree = Inr 0" using vp by (simp add: find_parent_def writable_def sample_volume(7))
  show "components ''/a'' = [''a'']" by (rule vp)
qed

lemma sample_unused: "unused_slots inode_used 1 UFS_MAX_INODES sample_tree = {m. 1 \<le> m \<and> m < UFS_MAX_INODES}"
proof (rule set_eqI)
  fix m
  have "m \<in> used_inodes sample_tree \<longleftrightarrow> m = 0" by (simp add: sample_volume(5))
  then show "m \<in> unused_slots inode_used 1 UFS_MAX_INODES sample_tree \<longleftrightarrow> m \<in> {m. 1 \<le> m \<and> m < UFS_MAX_INODES}"
    unfolding unused_slots_def used_inodes_def by auto
qed

lemma sample_create:
  assumes ty: "type \<in> {UFS_TYPE_FILE, UFS_TYPE_DIR}"
  shows "create_error ''/a'' type sample_tree = None"
proof -
  have some: "1 \<in> unused_slots inode_used 1 UFS_MAX_INODES sample_tree" unfolding sample_unused by simp
  have z: "dir_blocks (file_at sample_tree 0) = 0" "ino_type (ufs_init_inode UFS_TYPE_DIR) = UFS_TYPE_DIR"
    by (simp_all add: dir_blocks_def file_at_def sample_volume(4)) (simp_all add: ufs_init_inode_def)
  have "add_error 0 ''a'' type sample_tree = None" using ty by (auto simp: add_error_def sample_volume(3,6) z)
  then show ?thesis using some z(2) by (auto simp: create_error_def new_name_error_def sample_volume(3,4) sample_parent)
qed

lemma sample_created: "created p name type sample_tree w1 n \<Longrightarrow> n = 1"
proof -
  assume "created p name type sample_tree w1 n"
  then have "n \<in> unused_slots inode_used 1 UFS_MAX_INODES sample_tree"
    "1 \<in> unused_slots inode_used 1 UFS_MAX_INODES sample_tree \<longrightarrow> n \<le> 1" unfolding created_def new_node_def by blast+
  then show "n = 1" unfolding sample_unused by simp
qed

text \<open>C3: Creating a file or a directory. In a well-formed namespace \<open>ufs_create\<close> and \<open>ufs_mkdir\<close> fail exactly as
  \<open>create_error\<close> says, in this order: EINVAL for a malformed path or the root, the error of walking to the
  parent, EACCES without write and search permission there, ENOTDIR when it is no directory, EEXIST,
  ENOSPC without a free inode or when the directory cannot take another name, in which case the inode
  already allocated is given back. After an error nothing that is in use has changed. Otherwise the call
  succeeds: the new inode is the lowest unused one from 1 on, empty, with the type, the default mode less
  the umask, the caller's ids, one link and the next generation of its slot; the parent maps the name to
  it and every other name as before; no other inode and no block of another file changes. In all cases
  the namespace is well formed again, link counts included, and the lock is released.\<close>

theorem create_spec:
  assumes "namespace_ok w" and "lock_depth w = 0" and "CHR 0x00 \<notin> set path"
    and "op = ufs_create \<and> type = UFS_TYPE_FILE \<or> op = ufs_mkdir \<and> type = UFS_TYPE_DIR"
  shows "case op path w of (r, w1) \<Rightarrow> namespace_ok w1 \<and> unlocked w1 \<and>
    (case create_error path type w of
       Some e \<Rightarrow> r = None \<and> errno w1 = e \<and> nothing_changed w w1
     | None \<Rightarrow> r = Some () \<and> (\<exists>p n. find_parent path w = Inr p \<and> created p (last (components path)) type w w1 n))"
proof -
  have ty: "type \<in> {UFS_TYPE_FILE, UFS_TYPE_DIR}" using assms(4) by auto
  have "op path = with_lock ufs_operation_write_lock (create_node path type)"
    using assms(4) by (auto simp: ufs_create_def ufs_mkdir_def ufs_create_unlocked_def ufs_mkdir_unlocked_def)
  then show ?thesis using public_create [OF assms(1-3) ty] by simp
qed

theorem create_spec_witness:
  "case ufs_mkdir ''/a'' sample_tree of (r, w1) \<Rightarrow> r = Some () \<and> namespace_ok w1 \<and> dir_map 0 w1 ''a'' = Some 1"
proof -
  obtain r w1 where run: "ufs_mkdir ''/a'' sample_tree = (r, w1)" by fastforce
  have "CHR 0x00 \<notin> set ''/a''" by simp
  from create_spec [OF sample_volume(1,2) this, of ufs_mkdir UFS_TYPE_DIR]
  obtain n where n: "r = Some ()" "namespace_ok w1" "created 0 ''a'' UFS_TYPE_DIR sample_tree w1 n"
    by (auto simp: sample_parent sample_create run)
  then show ?thesis using sample_created [OF n(3)] run by (simp add: created_def new_node_def)
qed

end
