(* ===== verification/Ufs_Remove.thy ===== *)
theory Ufs_Remove
  imports Ufs_Create Ufs_Tables
begin

text \<open>
  \<open>ufs_unlink\<close>, \<open>ufs_rmdir\<close> and \<open>ufs_link\<close> on a well-formed volume: the order of their errors, the name
  they remove or add, the inode that goes with its last name, and that nothing else changes.
\<close>

section \<open>The target of a removal\<close>

definition find_entry :: "string \<Rightarrow> world \<Rightarrow> errno + nat \<times> nat" where
  "find_entry path w =
     (case find_parent path w of Inl e \<Rightarrow> Inl e | Inr p \<Rightarrow>
        if ino_type (inode_at w p) \<noteq> UFS_TYPE_DIR then Inl ENOTDIR
        else case dir_map p w (last (components path)) of None \<Rightarrow> Inl ENOENT | Some n \<Rightarrow> Inr (p, n))"

lemma find_entry_run:
  assumes ok: "tree_ok w"
  shows "on_ok (writable_parent path) (\<lambda>(p, name). on_ok (directory_find p name) (\<lambda>n. on_ok (read_inode n) (k p name n))) w =
    (case find_entry path w of Inl e \<Rightarrow> (None, w\<lparr>errno := e\<rparr>)
     | Inr (p, n) \<Rightarrow> k p (last (components path)) n (inode_at w n) w)"
proof (cases "find_parent path w")
  case (Inl e)
  then show ?thesis using writable_parent_run [OF ok, of path] by (simp add: find_entry_def run_simps)
next
  case (Inr p)
  have l: "live w" by (rule tree_okD(1) [OF ok])
  have pu: "p \<in> used_inodes w" "p < UFS_MAX_INODES" using find_parent_used [OF ok Inr] by (simp_all add: used_inodes_def)
  have wp: "writable_parent path w = (Some (p, last (components path)), w)" using writable_parent_run [OF ok, of path] Inr by simp
  show ?thesis
  proof (cases "ino_type (inode_at w p) = UFS_TYPE_DIR")
    case False
    then have "directory_find p (last (components path)) w = (None, w\<lparr>errno := ENOTDIR\<rparr>)"
      using l pu(2) by (simp add: directory_find_def io_simps run_simps fail_def)
    then show ?thesis using wp Inr False by (simp add: find_entry_def run_simps)
  next
    case True
    then have p: "is_dir w p" using pu by (simp add: is_dir_used)
    note find = directory_find_run [OF tree_ok_dir(1) [OF ok p], of "last (components path)"]
    show ?thesis
    proof (cases "dir_map p w (last (components path))")
      case None
      then show ?thesis using wp Inr True find by (simp add: find_entry_def run_simps)
    next
      case (Some n)
      then have "n < UFS_MAX_INODES" using tree_ok_dir(2) [OF ok p] by blast
      then show ?thesis using wp Inr True find Some l by (simp add: find_entry_def run_simps io_simps)
    qed
  qed
qed

lemma find_entryD:
  assumes ns: "namespace_ok w" and e: "find_entry path w = Inr (p, n)"
  shows "is_dir w p" "dir_map p w (last (components path)) = Some n" "n \<in> used_inodes w" "n \<noteq> UFS_ROOT_INODE"
    "(p, last (components path)) \<in> names_of w n"
proof -
  have v: "volume_ok w" using ns by (simp add: namespace_ok_def)
  have f: "find_parent path w = Inr p" "ino_type (inode_at w p) = UFS_TYPE_DIR"
    using e by (auto simp: find_entry_def split: sum.splits if_splits option.splits)
  then show p: "is_dir w p" using find_parent_used [OF volume_okD(1) [OF v] f(1)] by (simp add: is_dir_used)
  show m: "dir_map p w (last (components path)) = Some n"
    using e by (auto simp: find_entry_def split: sum.splits if_splits option.splits)
  show u: "n \<in> used_inodes w" using dir_refs [OF v p] m by (auto simp: ran_def)
  show name: "(p, last (components path)) \<in> names_of w n" using p m by (simp add: names_of_def entries_of_def)
  show "n \<noteq> UFS_ROOT_INODE"
  proof
    assume r: "n = UFS_ROOT_INODE"
    have "link_count_ok w n" using ns u by (simp add: namespace_ok_def)
    then show False using name r by (simp add: link_count_ok_def)
  qed
qed

text \<open>The counted names: a directory has one, any other inode as many as it counts.\<close>

lemma counted:
  assumes ns: "namespace_ok w" and n: "n \<in> used_inodes w" "n \<noteq> UFS_ROOT_INODE"
  shows "ino_type (inode_at w n) = UFS_TYPE_DIR \<Longrightarrow> card (names_of w n) = 1"
    "ino_type (inode_at w n) \<noteq> UFS_TYPE_DIR \<Longrightarrow> card (names_of w n) = unat (ino_link_count (inode_at w n))"
    "0 < card (names_of w n)"
proof -
  have lc: "link_count_ok w n" using ns n(1) by (simp add: namespace_ok_def)
  then show "ino_type (inode_at w n) = UFS_TYPE_DIR \<Longrightarrow> card (names_of w n) = 1"
    "ino_type (inode_at w n) \<noteq> UFS_TYPE_DIR \<Longrightarrow> card (names_of w n) = unat (ino_link_count (inode_at w n))"
    using n(2) by (simp_all add: link_count_ok_def)
  have "names_of w n \<noteq> {}" using lc n(2) by (simp add: link_count_ok_def)
  then show "0 < card (names_of w n)" using finite_names [of w n] by (simp add: card_gt_0_iff)
qed

lemma only_name: "card S = 1 \<Longrightarrow> x \<in> S \<Longrightarrow> S = {x}"
  by (auto simp: card_1_singleton_iff)

section \<open>The tails of the operations\<close>

text \<open>Free or rewrite the inode, then stamp the parent.\<close>

lemma free_then_touch:
  assumes v: "volume_ok w" and p: "is_dir w p" "p \<noteq> n" and n: "n \<in> used_inodes w" "n \<noteq> UFS_ROOT_INODE"
    and refs: "\<And>d. is_dir w d \<Longrightarrow> d \<noteq> n \<Longrightarrow> n \<notin> ran (dir_map d w)"
  shows "\<exists>w1. attempt (free_inode n) (\<lambda>_. touch_parent p) err w = (Some (), w1) \<and> volume_ok w1 \<and> changes {n, p} w w1 \<and>
    used_inodes w1 = used_inodes w - {n} \<and> dir_map p w1 = dir_map p w \<and> same_attrs (inode_at w1 p) (inode_at w p)"
proof -
  obtain wa where a: "free_inode n w = (Some (), wa)" "changes {n} w wa" "volume_ok wa" "used_inodes wa = used_inodes w - {n}"
    using free_step [OF v n refs] by blast
  note d = changes_dir [OF v a(2) p(1)]
  have i: "inode_at wa p = inode_at w p" using changes_other(2) [OF v a(2)] p by (simp add: is_dir_used)
  have dp: "is_dir wa p" using d(1) p(2) by simp
  obtain wb where b: "touch_parent p wa = (Some (), wb)" "changes {p} wa wb" "volume_ok wb" "used_inodes wb = used_inodes wa"
      "dir_map p wb = dir_map p wa" "same_attrs (inode_at wb p) (inode_at wa p)"
    using touch_parent_run [OF a(3) dp] by blast
  have "changes {n, p} w wb" by (rule changes_trans [OF changes_more [OF v a(2)] changes_more [OF a(3) b(2)]]) simp_all
  then show ?thesis using a b d(3) i p(2) by (simp add: attempt_def)
qed

lemma update_then_touch:
  assumes v: "volume_ok w" and p: "is_dir w p" "p \<noteq> n" and n: "n \<in> used_inodes w" and j: "same_layout j (inode_at w n)"
  shows "\<exists>w1. attempt (write_inode n j) (\<lambda>_. touch_parent p) err w = (Some (), w1) \<and> volume_ok w1 \<and> changes {n, p} w w1 \<and>
    used_inodes w1 = used_inodes w \<and> dir_map p w1 = dir_map p w \<and> same_attrs (inode_at w1 p) (inode_at w p) \<and>
    inode_at w1 n = j \<and> contents (file_at w1 n) = contents (file_at w n)"
proof -
  define wa where "wa = put_inode n j w"
  note a = update_inode [OF v n j, folded wa_def]
  have wf: "ino_wf j" using j by (simp add: same_layout_def)
  have run: "write_inode n j w = (Some (), wa)"
    using wf volume_okD(2,4) [OF v] n by (simp add: write_inode_live wa_def)
  have ja: "inode_at wa n = j" using wf volume_okD(2,4) [OF v] n by (simp add: wa_def)
  have ua: "used_inodes wa = used_inodes w" using wf by (simp add: wa_def used_inodes_def)
  note d = changes_dir [OF v a(1) p(1)]
  have i: "inode_at wa p = inode_at w p" using changes_other(2) [OF v a(1)] p by (simp add: is_dir_used)
  have dp: "is_dir wa p" using d(1) p(2) by simp
  obtain wb where b: "touch_parent p wa = (Some (), wb)" "changes {p} wa wb" "volume_ok wb" "used_inodes wb = used_inodes wa"
      "dir_map p wb = dir_map p wa" "same_attrs (inode_at wb p) (inode_at wa p)"
    using touch_parent_run [OF a(2) dp] by blast
  have "changes {n, p} w wb" by (rule changes_trans [OF changes_more [OF v a(1)] changes_more [OF a(2) b(2)]]) simp_all
  moreover have "inode_at wb n = j" "contents (file_at wb n) = contents (file_at wa n)"
    using changes_other(2,8) [OF a(2) b(2)] n ua p(2) ja by simp_all
  ultimately show ?thesis using run a(4) b d(3) i p(2) ua by (simp add: attempt_def)
qed

section \<open>Unlinking\<close>

text \<open>An inode with an open descriptor or a mapping.\<close>

definition busy :: "nat \<Rightarrow> world \<Rightarrow> bool" where
  "busy n w \<longleftrightarrow> inode_is_open n w \<or> (\<exists>k < UFS_MAX_MAPPINGS. map_in_use (mapping_table w ! k) \<and>
     unat (map_inode_number (mapping_table w ! k)) = n)"

definition unlink_error :: "string \<Rightarrow> world \<Rightarrow> errno option" where
  "unlink_error path w =
     (if path = [slash] then Some EISDIR
      else case find_entry path w of Inl e \<Rightarrow> Some e | Inr (p, n) \<Rightarrow>
        let type = ino_type (inode_at w n) in
        if type = UFS_TYPE_DIR then Some EISDIR
        else if type \<noteq> UFS_TYPE_FILE \<and> type \<noteq> UFS_TYPE_SYMLINK then Some EINVAL
        else if busy n w then Some EBUSY else None)"

definition removed :: "nat \<Rightarrow> string \<Rightarrow> nat \<Rightarrow> world \<Rightarrow> world \<Rightarrow> bool" where
  "removed p name n w w1 \<longleftrightarrow> changes {n, p} w w1 \<and> dir_map p w1 = (dir_map p w)(name := None) \<and>
     same_attrs (inode_at w1 p) (inode_at w p)"

definition unlinked :: "nat \<Rightarrow> string \<Rightarrow> nat \<Rightarrow> world \<Rightarrow> world \<Rightarrow> bool" where
  "unlinked p name n w w1 \<longleftrightarrow> removed p name n w w1 \<and>
     (if names_of w n = {(p, name)} then used_inodes w1 = used_inodes w - {n}
      else used_inodes w1 = used_inodes w \<and> contents (file_at w1 n) = contents (file_at w n) \<and>
        (\<exists>t. inode_at w1 n = (inode_at w n)\<lparr>ino_link_count := ino_link_count (inode_at w n) - 1, ino_ctime := t\<rparr>))"

lemma touch_ctime_calm:
  assumes "script w = []"
  shows "\<exists>t tk. ufs_touch_ctime i w = (Some (i\<lparr>ino_ctime := t\<rparr>), w\<lparr>ticks := tk\<rparr>)"
proof -
  obtain t tk where "ufs_get_current_disk_time w = (Some t, w\<lparr>ticks := tk\<rparr>)" using current_time_calm [OF assms] by blast
  then show ?thesis by (simp add: ufs_touch_ctime_def run_simps ret_def) blast
qed

text \<open>The state after the name is gone, seen from the inode it named.\<close>

lemma remove_entry:
  assumes ns: "namespace_ok w" and p: "is_dir w p" and m: "dir_map p w name = Some n" and pn: "p \<noteq> n"
  shows "\<exists>w1. directory_remove p name w = (Some (), w1) \<and> volume_ok w1 \<and> removed p name n w w1 \<and> used_inodes w1 = used_inodes w \<and>
    is_dir w1 p \<and> inode_at w1 n = inode_at w n \<and> contents (file_at w1 n) = contents (file_at w n) \<and>
    (names_of w n = {(p, name)} \<longrightarrow> (\<forall>d. is_dir w1 d \<longrightarrow> n \<notin> ran (dir_map d w1)))"
proof -
  have v: "volume_ok w" using ns by (simp add: namespace_ok_def)
  have n: "n \<in> used_inodes w" using dir_refs [OF v p] m by (auto simp: ran_def)
  obtain w1 where r: "directory_remove p name w = (Some (), w1)" "changes {p} w w1" "volume_ok w1" "used_inodes w1 = used_inodes w"
      "is_dir w1 p" "dir_map p w1 = (dir_map p w)(name := None)" "same_attrs (inode_at w1 p) (inode_at w p)"
    using remove_name_step [OF v p] m by blast
  have "changes {n, p} w w1" by (rule changes_more [OF v r(2)]) simp
  moreover have "inode_at w1 n = inode_at w n" "contents (file_at w1 n) = contents (file_at w n)"
    using changes_other(2,8) [OF v r(2) n] pn by simp_all
  moreover have "n \<notin> ran (dir_map d w1)" if o: "names_of w n = {(p, name)}" and d: "is_dir w1 d" for d
  proof -
    have "entries_of w1 d n = (if d = p then entries_of w p n - {name} else entries_of w d n)"
      using changes_entries [OF v r(2), of d n] r(6) p d by (auto simp: entries_of_def)
    then have "entries_of w1 d n = {}" using o by (auto simp: names_of_def)
    then show ?thesis using d by (auto simp: entries_of_def ran_def)
  qed
  ultimately show ?thesis using r by (simp add: removed_def)
qed

lemma unlink_run:
  assumes ns: "namespace_ok w"
  shows "case ufs_unlink_unlocked path w of (r, w1) \<Rightarrow> volume_ok w1 \<and>
    (case unlink_error path w of
       Some e \<Rightarrow> r = None \<and> errno w1 = e \<and> nothing_changed w w1
     | None \<Rightarrow> r = Some () \<and> (\<exists>p n. find_entry path w = Inr (p, n) \<and> unlinked p (last (components path)) n w w1))"
proof -
  have v: "volume_ok w" using ns by (simp add: namespace_ok_def)
  have t: "tree_ok w" and l: "live w" by (rule volume_okD [OF v])+
  have early: ?thesis if "ufs_unlink_unlocked path w = (None, w\<lparr>errno := e\<rparr>)" "unlink_error path w = Some e" for e
    using that nothing_changed_errno [OF v, of e] by simp
  note fe = find_entry_run [OF t, of path]
  define name where "name = last (components path)"
  show ?thesis
  proof (cases "path = [slash]")
    case True
    then show ?thesis by (intro early [of EISDIR]) (simp_all add: ufs_unlink_unlocked_def unlink_error_def run_simps fail_def)
  next
    case ps: False
    show ?thesis
    proof (cases "find_entry path w")
      case (Inl e)
      then show ?thesis by (intro early [of e]) (use fe ps in \<open>simp_all add: ufs_unlink_unlocked_def unlink_error_def run_simps\<close>)
    next
      case (Inr pn)
      obtain p n where pn: "pn = (p, n)" by fastforce
      note e = find_entryD [OF ns Inr [unfolded pn], folded name_def]
      define i where "i = inode_at w n"
      have bz: "on_ok (if inode_is_open n w then ret True else ufs_mmap_inode_is_mapped n) k w = k (busy n w) w" for k :: "bool \<Rightarrow> unit op"
        using live_script [OF l] by (simp add: busy_def ufs_mmap_inode_is_mapped_calm on_ok_Some ret_def)
      define late where "late = on_ok (directory_remove p name) (\<lambda>_.
        let restore = directory_add p name n (ino_type i) in
        if ino_link_count i = 0 then discard restore (fail EIO)
        else on_ok (ufs_touch_ctime (i\<lparr>ino_link_count := ino_link_count i - 1\<rparr>)) (\<lambda>target.
          attempt (if ino_link_count target = 0 then free_inode n else write_inode n target)
            (\<lambda>_. touch_parent p) (fail_after restore)))"
      have run: "ufs_unlink_unlocked path w =
          (if ino_type i = UFS_TYPE_DIR then (None, w\<lparr>errno := EISDIR\<rparr>)
           else if ino_type i \<noteq> UFS_TYPE_FILE \<and> ino_type i \<noteq> UFS_TYPE_SYMLINK then (None, w\<lparr>errno := EINVAL\<rparr>)
           else if busy n w then (None, w\<lparr>errno := EBUSY\<rparr>) else late w)"
        using ps bz
        by (simp only: ufs_unlink_unlocked_def require_def if_True not_False_eq_True, subst find_entry_run [OF t])
          (simp only: Inr pn sum.case prod.case i_def [symmetric] name_def [symmetric] late_def [symmetric], simp add: fail_def asking_def)
      have ue: "unlink_error path w = (if ino_type i = UFS_TYPE_DIR then Some EISDIR
          else if ino_type i \<noteq> UFS_TYPE_FILE \<and> ino_type i \<noteq> UFS_TYPE_SYMLINK then Some EINVAL
          else if busy n w then Some EBUSY else None)"
        using ps Inr by (simp add: unlink_error_def pn i_def Let_def)
      show ?thesis
      proof (cases "unlink_error path w")
        case (Some err)
        then show ?thesis by (intro early [of err]) (use run ue in \<open>auto split: if_splits\<close>)
      next
        case None
        then have ty: "ino_type i \<noteq> UFS_TYPE_DIR" and late: "ufs_unlink_unlocked path w = late w"
          using run ue by (auto split: if_splits)
        have np: "p \<noteq> n" using e(1) ty by (auto simp: is_dir_used i_def)
        obtain wa where a: "directory_remove p name w = (Some (), wa)" "volume_ok wa" "removed p name n w wa"
            "used_inodes wa = used_inodes w" "is_dir wa p" "inode_at wa n = i" "contents (file_at wa n) = contents (file_at w n)"
            "names_of w n = {(p, name)} \<longrightarrow> (\<forall>d. is_dir wa d \<longrightarrow> n \<notin> ran (dir_map d wa))"
          using remove_entry [OF ns e(1,2) np] unfolding i_def by blast
        have c: "card (names_of w n) = unat (ino_link_count i)" "0 < card (names_of w n)"
          using counted(2,3) [OF ns e(3,4)] ty by (simp_all add: i_def)
        then have lc: "ino_link_count i \<noteq> 0" by auto
        obtain t tk where tc: "ufs_touch_ctime (i\<lparr>ino_link_count := ino_link_count i - 1\<rparr>) wa =
            (Some (i\<lparr>ino_link_count := ino_link_count i - 1, ino_ctime := t\<rparr>), wa\<lparr>ticks := tk\<rparr>)"
          using touch_ctime_calm [OF live_script [OF volume_okD(2) [OF a(2)]]] by force
        define j where "j = i\<lparr>ino_link_count := ino_link_count i - 1, ino_ctime := t\<rparr>"
        define wb where "wb = wa\<lparr>ticks := tk\<rparr>"
        have sb: "same_view wb wa" by (simp add: wb_def)
        note b = same_view_step [OF sb a(2)] and bv = same_view [OF sb]
        have lr: "late w = attempt (if ino_link_count i = 1 then free_inode n else write_inode n j) (\<lambda>_. touch_parent p)
            (fail_after (directory_add p name n (ino_type i))) wb"
          using a(1) tc lc by (simp add: late_def on_ok_Some wb_def j_def Let_def)
        have one: "names_of w n = {(p, name)} \<longleftrightarrow> ino_link_count i = 1"
        proof
          assume "names_of w n = {(p, name)}"
          then have "unat (ino_link_count i) = unat (1 :: u32)" using c by simp
          then show "ino_link_count i = 1" by (simp only: word_unat_eq_iff)
        next
          assume "ino_link_count i = 1"
          then show "names_of w n = {(p, name)}" using c(1) e(5) by (intro only_name) simp_all
        qed
        show ?thesis
        proof (cases "ino_link_count i = 1")
          case True
          have "is_dir wb p" "n \<in> used_inodes wb" "\<forall>d. is_dir wb d \<longrightarrow> n \<notin> ran (dir_map d wb)"
            using a(4,5,8) e(3) True one by (simp_all add: bv)
          then obtain wc where f: "late w = (Some (), wc)" "volume_ok wc" "changes {n, p} wb wc"
              "used_inodes wc = used_inodes wb - {n}" "dir_map p wc = dir_map p wb" "same_attrs (inode_at wc p) (inode_at wb p)"
            using free_then_touch [OF b(2) _ np _ e(4)] True lr by fastforce
          have "changes {n, p} w wc" using changes_trans [OF _ changes_trans [OF b(1) f(3)]] a(3) by (simp add: removed_def)
          then have "unlinked p name n w wc"
            using f a(3,4) True one by (simp add: unlinked_def removed_def bv same_attrs_def)
          then show ?thesis using late f(1,2) None Inr pn by (auto simp: name_def)
        next
          case False
          have wf: "ino_wf i" using l by (simp add: i_def)
          then have "same_layout j (inode_at wb n)"
            by (simp add: bv a(6) same_layout_def j_def same_pointers_def ino_wf_def)
          moreover have "is_dir wb p" "n \<in> used_inodes wb" using a(4,5) e(3) by (simp_all add: bv)
          ultimately obtain wc where f: "late w = (Some (), wc)" "volume_ok wc" "changes {n, p} wb wc"
              "used_inodes wc = used_inodes wb" "dir_map p wc = dir_map p wb" "same_attrs (inode_at wc p) (inode_at wb p)"
              "inode_at wc n = j" "contents (file_at wc n) = contents (file_at wb n)"
            using update_then_touch [OF b(2) _ np] False lr by fastforce
          have "changes {n, p} w wc" using changes_trans [OF _ changes_trans [OF b(1) f(3)]] a(3) by (simp add: removed_def)
          then have "unlinked p name n w wc"
            using f a(3,4,7) False one by (auto simp: unlinked_def removed_def bv same_attrs_def j_def i_def)
          then show ?thesis using late f(1,2) None Inr pn by (auto simp: name_def)
        qed
      qed
    qed
  qed
qed

section \<open>Removing a directory\<close>

definition rmdir_error :: "string \<Rightarrow> world \<Rightarrow> errno option" where
  "rmdir_error path w =
     (if path = [slash] then Some EBUSY
      else case find_entry path w of Inl e \<Rightarrow> Some e | Inr (p, n) \<Rightarrow>
        if ino_type (inode_at w n) \<noteq> UFS_TYPE_DIR then Some ENOTDIR
        else if dir_map n w \<noteq> Map.empty then Some ENOTEMPTY else None)"

lemma rmdir_run:
  assumes ns: "namespace_ok w"
  shows "case ufs_rmdir_unlocked path w of (r, w1) \<Rightarrow> volume_ok w1 \<and>
    (case rmdir_error path w of
       Some e \<Rightarrow> r = None \<and> errno w1 = e \<and> nothing_changed w w1
     | None \<Rightarrow> r = Some () \<and> (\<exists>p n. find_entry path w = Inr (p, n) \<and> p \<noteq> n \<and>
         removed p (last (components path)) n w w1 \<and> used_inodes w1 = used_inodes w - {n}))"
proof -
  have v: "volume_ok w" using ns by (simp add: namespace_ok_def)
  have t: "tree_ok w" and l: "live w" by (rule volume_okD [OF v])+
  have early: ?thesis if "ufs_rmdir_unlocked path w = (None, w\<lparr>errno := e\<rparr>)" "rmdir_error path w = Some e" for e
    using that nothing_changed_errno [OF v, of e] by simp
  note fe = find_entry_run [OF t, of path]
  define name where "name = last (components path)"
  show ?thesis
  proof (cases "path = [slash]")
    case True
    then show ?thesis by (intro early [of EBUSY]) (simp_all add: ufs_rmdir_unlocked_def rmdir_error_def run_simps fail_def)
  next
    case ps: False
    show ?thesis
    proof (cases "find_entry path w")
      case (Inl e)
      then show ?thesis by (intro early [of e]) (use fe ps in \<open>simp_all add: ufs_rmdir_unlocked_def rmdir_error_def run_simps\<close>)
    next
      case (Inr pn)
      obtain p n where pn: "pn = (p, n)" by fastforce
      note e = find_entryD [OF ns Inr [unfolded pn], folded name_def]
      define late where "late = on_ok (directory_remove p name) (\<lambda>_. attempt (free_inode n) (\<lambda>_. touch_parent p)
        (fail_after (directory_add p name n UFS_TYPE_DIR)))"
      have empty: "directory_is_empty n w = (Some (dir_map n w = Map.empty), w)" if "ino_type (inode_at w n) = UFS_TYPE_DIR"
        using that e(3) by (intro directory_is_empty_run tree_ok_dir(1) [OF t]) (simp add: is_dir_used)
      have run: "ufs_rmdir_unlocked path w =
          (if ino_type (inode_at w n) \<noteq> UFS_TYPE_DIR then (None, w\<lparr>errno := ENOTDIR\<rparr>)
           else if dir_map n w \<noteq> Map.empty then (None, w\<lparr>errno := ENOTEMPTY\<rparr>) else late w)"
        using ps empty
        by (simp only: ufs_rmdir_unlocked_def require_def if_True not_False_eq_True, subst find_entry_run [OF t])
          (simp only: Inr pn sum.case prod.case name_def [symmetric] late_def [symmetric], simp add: fail_def on_ok_Some)
      have re: "rmdir_error path w = (if ino_type (inode_at w n) \<noteq> UFS_TYPE_DIR then Some ENOTDIR
          else if dir_map n w \<noteq> Map.empty then Some ENOTEMPTY else None)"
        using ps Inr by (simp add: rmdir_error_def pn)
      show ?thesis
      proof (cases "rmdir_error path w")
        case (Some err)
        then show ?thesis by (intro early [of err]) (use run re in \<open>auto split: if_splits\<close>)
      next
        case None
        then have ty: "ino_type (inode_at w n) = UFS_TYPE_DIR" "dir_map n w = Map.empty" and late: "ufs_rmdir_unlocked path w = late w"
          using run re by (auto split: if_splits)
        have np: "p \<noteq> n" using e(2) ty(2) by auto
        have one: "names_of w n = {(p, name)}" using counted(1) [OF ns e(3,4) ty(1)] e(5) by (rule only_name)
        obtain wa where a: "directory_remove p name w = (Some (), wa)" "volume_ok wa" "removed p name n w wa"
            "used_inodes wa = used_inodes w" "is_dir wa p" "\<forall>d. is_dir wa d \<longrightarrow> n \<notin> ran (dir_map d wa)"
          using remove_entry [OF ns e(1,2) np] one by blast
        obtain wb where f: "late w = (Some (), wb)" "volume_ok wb" "changes {n, p} wa wb" "used_inodes wb = used_inodes wa - {n}"
            "dir_map p wb = dir_map p wa" "same_attrs (inode_at wb p) (inode_at wa p)"
          using free_then_touch [OF a(2,5) np _ e(4)] a(1,4,6) e(3) by (fastforce simp: late_def on_ok_Some)
        have "changes {n, p} w wb" using changes_trans [OF _ f(3)] a(3) by (simp add: removed_def)
        then have "removed p name n w wb" using f(5,6) a(3) by (simp add: removed_def same_attrs_def)
        then show ?thesis using late f(1,2,4) a(4) None Inr pn np by (auto simp: name_def)
      qed
    qed
  qed
qed

section \<open>A further name\<close>

definition link_error :: "string \<Rightarrow> string \<Rightarrow> world \<Rightarrow> errno option" where
  "link_error path new w =
     (if \<not> valid_path path then Some EINVAL
      else case walk w True 39 (components path) of Inl e \<Rightarrow> Some e | Inr n \<Rightarrow>
        let i = inode_at w n in
        if ino_type i = UFS_TYPE_DIR then Some EPERM
        else if ino_type i \<noteq> UFS_TYPE_FILE \<and> ino_type i \<noteq> UFS_TYPE_SYMLINK then Some EINVAL
        else if ino_link_count i = - 1 then Some EMLINK
        else case find_parent new w of Inl e \<Rightarrow> Some e | Inr p \<Rightarrow>
          if ino_type (inode_at w p) \<noteq> UFS_TYPE_DIR then Some ENOTDIR
          else if dir_map p w (last (components new)) \<noteq> None then Some EEXIST
          else add_error p (last (components new)) (ino_type i) w)"

definition linked :: "nat \<Rightarrow> string \<Rightarrow> nat \<Rightarrow> world \<Rightarrow> world \<Rightarrow> bool" where
  "linked p name n w w1 \<longleftrightarrow> changes {n, p} w w1 \<and> used_inodes w1 = used_inodes w \<and>
     dir_map p w1 = (dir_map p w)(name \<mapsto> n) \<and> same_attrs (inode_at w1 p) (inode_at w p) \<and>
     contents (file_at w1 n) = contents (file_at w n) \<and>
     (\<exists>t. inode_at w1 n = (inode_at w n)\<lparr>ino_link_count := ino_link_count (inode_at w n) + 1, ino_ctime := t\<rparr>)"

text \<open>The steps of \<open>ufs_link\<close> after the guards.\<close>

lemma link_steps:
  assumes v: "volume_ok w" and p: "is_dir w p" and nul: "CHR 0x00 \<notin> set name" and n: "n \<in> used_inodes w" "p \<noteq> n"
  defines "i \<equiv> inode_at w n"
  shows "case on_ok (directory_add p name n (ino_type i)) (\<lambda>_.
       on_ok (ufs_touch_ctime (i\<lparr>ino_link_count := ino_link_count i + 1\<rparr>)) (\<lambda>inode.
       attempt (write_inode n inode) (\<lambda>_. touch_parent p) (fail_after (directory_remove p name)))) w of (r, w1) \<Rightarrow>
    (case add_error p name (ino_type i) w of
       Some e \<Rightarrow> r = None \<and> w1 = w\<lparr>errno := e\<rparr>
     | None \<Rightarrow> r = Some () \<and> volume_ok w1 \<and> linked p name n w w1)"
proof (cases "add_error p name (ino_type i) w")
  case (Some e)
  then show ?thesis using add_name_step [OF v p nul n(1), of "ino_type i"] by (auto simp: run_simps split: prod.splits)
next
  case None
  obtain wa where a: "directory_add p name n (ino_type i) w = (Some (), wa)" "changes {p} w wa" "volume_ok wa"
      "used_inodes wa = used_inodes w" "is_dir wa p" "dir_map p wa = (dir_map p w)(name \<mapsto> n)"
      "same_attrs (inode_at wa p) (inode_at w p)"
    using add_name_step [OF v p nul n(1), of "ino_type i"] None by (auto split: prod.splits)
  have an: "inode_at wa n = i" "contents (file_at wa n) = contents (file_at w n)"
    using changes_other(2,8) [OF v a(2) n(1)] n(2) by (simp_all add: i_def)
  obtain t tk where tc: "ufs_touch_ctime (i\<lparr>ino_link_count := ino_link_count i + 1\<rparr>) wa =
      (Some (i\<lparr>ino_link_count := ino_link_count i + 1, ino_ctime := t\<rparr>), wa\<lparr>ticks := tk\<rparr>)"
    using touch_ctime_calm [OF live_script [OF volume_okD(2) [OF a(3)]]] by force
  define j where "j = i\<lparr>ino_link_count := ino_link_count i + 1, ino_ctime := t\<rparr>"
  define wb where "wb = wa\<lparr>ticks := tk\<rparr>"
  have sb: "same_view wb wa" by (simp add: wb_def)
  note b = same_view_step [OF sb a(3)] and bv = same_view [OF sb]
  have "ino_wf i" using volume_okD(2) [OF v] by (simp add: i_def)
  then have "same_layout j (inode_at wb n)"
    by (simp add: bv an(1) same_layout_def j_def same_pointers_def ino_wf_def)
  moreover have "is_dir wb p" "n \<in> used_inodes wb" using a(4,5) n(1) by (simp_all add: bv)
  ultimately obtain wc where c: "attempt (write_inode n j) (\<lambda>_. touch_parent p) (fail_after (directory_remove p name)) wb = (Some (), wc)"
      "volume_ok wc" "changes {n, p} wb wc" "used_inodes wc = used_inodes wb" "dir_map p wc = dir_map p wb"
      "same_attrs (inode_at wc p) (inode_at wb p)" "inode_at wc n = j" "contents (file_at wc n) = contents (file_at wb n)"
    using update_then_touch [OF b(2) _ n(2)] by blast
  have "changes {n, p} w wa" by (rule changes_more [OF v a(2)]) simp
  then have "changes {n, p} w wc" by (rule changes_trans [OF _ changes_trans [OF b(1) c(3)]])
  then have "linked p name n w wc"
    using c a(4,6,7) an(2) by (auto simp: linked_def bv same_attrs_def j_def i_def)
  then show ?thesis using a(1) tc c(1,2) None by (simp add: on_ok_Some j_def [symmetric] wb_def [symmetric])
qed

lemma link_run:
  assumes v: "volume_ok w" and nul: "CHR 0x00 \<notin> set new"
  shows "case ufs_link_unlocked path new w of (r, w1) \<Rightarrow> volume_ok w1 \<and>
    (case link_error path new w of
       Some e \<Rightarrow> r = None \<and> errno w1 = e \<and> nothing_changed w w1
     | None \<Rightarrow> r = Some () \<and> (\<exists>n p. walk w True 39 (components path) = Inr n \<and> find_parent new w = Inr p \<and>
         is_dir w p \<and> p \<noteq> n \<and> linked p (last (components new)) n w w1))"
proof -
  have t: "tree_ok w" and l: "live w" by (rule volume_okD [OF v])+
  have early: ?thesis if "ufs_link_unlocked path new w = (None, w\<lparr>errno := e\<rparr>)" "link_error path new w = Some e" for e
    using that nothing_changed_errno [OF v, of e] by simp
  have res: "resolve_path_ex path UFS_RESOLVE_NOFOLLOW_FINAL w =
      (if valid_path path then outcome (walk w True 39 (components path)) w else (None, w\<lparr>errno := EINVAL\<rparr>))"
    using resolve_run [OF t, of path UFS_RESOLVE_NOFOLLOW_FINAL] by simp
  show ?thesis
  proof (cases "valid_path path")
    case False
    then show ?thesis
      by (intro early [of EINVAL]) (use res in \<open>simp_all add: ufs_link_unlocked_def link_error_def run_simps\<close>)
  next
    case vp: True
    show ?thesis
    proof (cases "walk w True 39 (components path)")
      case (Inl e)
      then show ?thesis
        by (intro early [of e]) (use res vp in \<open>simp_all add: ufs_link_unlocked_def link_error_def outcome_def run_simps\<close>)
    next
      case wk: (Inr n)
      have nu: "n \<in> used_inodes w" "n < UFS_MAX_INODES" using walk_used [OF t wk] by (simp_all add: used_inodes_def)
      define i where "i = inode_at w n"
      define name where "name = last (components new)"
      define late where "late = (\<lambda>p. on_ok (directory_add p name n (ino_type i)) (\<lambda>_.
         on_ok (ufs_touch_ctime (i\<lparr>ino_link_count := ino_link_count i + 1\<rparr>)) (\<lambda>inode.
         attempt (write_inode n inode) (\<lambda>_. touch_parent p) (fail_after (directory_remove p name)))))"
      define guard where "guard = (if ino_type i = UFS_TYPE_DIR then Some EPERM
        else if ino_type i \<noteq> UFS_TYPE_FILE \<and> ino_type i \<noteq> UFS_TYPE_SYMLINK then Some EINVAL
        else if ino_link_count i = - 1 then Some EMLINK else None)"
      have rd: "read_inode n w = (Some i, w)" using l nu(2) by (simp add: i_def read_inode_live)
      have run: "ufs_link_unlocked path new w =
          (case guard of Some e \<Rightarrow> (None, w\<lparr>errno := e\<rparr>) | None \<Rightarrow>
             case find_parent new w of Inl e \<Rightarrow> (None, w\<lparr>errno := e\<rparr>) | Inr p \<Rightarrow> if_name_free p name (late p) w)"
        using res vp wk rd writable_parent_run [OF t, of new]
        by (simp add: ufs_link_unlocked_def outcome_def on_ok_Some require_def fail_def guard_def late_def name_def run_simps
            split: sum.split)
      have le: "link_error path new w = (case guard of Some e \<Rightarrow> Some e | None \<Rightarrow>
          case find_parent new w of Inl e \<Rightarrow> Some e | Inr p \<Rightarrow>
            if ino_type (inode_at w p) \<noteq> UFS_TYPE_DIR then Some ENOTDIR
            else if dir_map p w name \<noteq> None then Some EEXIST else add_error p name (ino_type i) w)"
        unfolding link_error_def guard_def name_def [symmetric] Let_def using vp wk by (simp only: sum.case not_True_eq_False if_False i_def [symmetric])
          (simp split: sum.split)
      show ?thesis
      proof (cases guard)
        case (Some e)
        then show ?thesis by (intro early [of e]) (use run le in simp_all)
      next
        case ok: None
        show ?thesis
        proof (cases "find_parent new w")
          case (Inl e)
          then show ?thesis by (intro early [of e]) (use run le ok in simp_all)
        next
          case (Inr p)
          have pu: "p \<in> used_inodes w" by (rule find_parent_used [OF t Inr])
          note free = if_name_free_run [OF t pu, of name "late p"]
          show ?thesis
          proof (cases "ino_type (inode_at w p) = UFS_TYPE_DIR \<and> dir_map p w name = None")
            case False
            then show ?thesis
              by (intro early [of "if ino_type (inode_at w p) \<noteq> UFS_TYPE_DIR then ENOTDIR else EEXIST"])
                (use run le ok free Inr in auto)
          next
            case dir: True
            define x where "x = w\<lparr>errno := ENOENT\<rparr>"
            have same: "same_view x w" by (simp add: x_def)
            note sx = same_view_step [OF same v] and dx = same_view [OF same]
            have p: "is_dir w p" using dir pu by (simp add: is_dir_used)
            have np: "p \<noteq> n" using dir ok by (auto simp: guard_def i_def split: if_splits)
            have ln: "ufs_link_unlocked path new w = late p x" using run ok Inr free dir by (simp add: x_def)
            have xs: "is_dir x p" "n \<in> used_inodes x" using p nu by (simp_all add: dx)
            have ae: "add_error p name (ino_type i) x = link_error path new w"
              using le ok Inr dir by (simp add: add_error_def dx)
            note st = link_steps [OF sx(2) xs(1) find_parent_name [OF Inr nul] xs(2) np, folded name_def, unfolded dx, folded i_def,
                folded late_def, unfolded ae]
            have lv: "linked p nm n x w1 = linked p nm n w w1" for nm w1
              using same_view_changes [OF same same_view_simps(1)] by (simp add: linked_def dx)
            show ?thesis
            proof (cases "link_error path new w")
              case (Some e)
              then have "ufs_link_unlocked path new w = (None, w\<lparr>errno := e\<rparr>)" using st ln by (auto simp: x_def late_def split: prod.splits)
              then show ?thesis by (rule early) (rule Some)
            next
              case None
              then show ?thesis using st ln wk Inr p np by (auto simp: lv name_def late_def split: prod.splits)
            qed
          qed
        qed
      qed
    qed
  qed
qed

section \<open>Link counts\<close>

lemma changed_entries:
  assumes "is_dir w p" and "is_dir w1 p"
  shows "dir_map p w1 = (dir_map p w)(name := None) \<Longrightarrow> dir_map p w name = Some n \<Longrightarrow>
      entries_of w1 p m = (if m = n then entries_of w p m - {name} else entries_of w p m)"
    "dir_map p w1 = (dir_map p w)(name \<mapsto> n) \<Longrightarrow> dir_map p w name = None \<Longrightarrow>
      entries_of w1 p m = (if m = n then insert name (entries_of w p m) else entries_of w p m)"
  using assms by (auto simp: entries_of_def)

lemma still_dir: "is_dir w p \<Longrightarrow> p \<in> used_inodes w1 \<Longrightarrow> same_attrs (inode_at w1 p) (inode_at w p) \<Longrightarrow> is_dir w1 p"
  by (simp add: is_dir_used same_attrs_def)

lemma no_entries: "n \<notin> used_inodes w \<or> ino_type (inode_at w n) \<noteq> UFS_TYPE_DIR \<or> dir_map n w = Map.empty \<Longrightarrow> entries_of w n m = {}"
  by (auto simp: entries_of_def is_dir_used)

text \<open>A removal that takes the inode with it.\<close>

lemma last_name_namespace:
  assumes ns: "namespace_ok w" and v1: "volume_ok w1" and rm: "removed p name n w w1" and u: "used_inodes w1 = used_inodes w - {n}"
    and e: "is_dir w p" "dir_map p w name = Some n" "p \<noteq> n" "ino_type (inode_at w n) \<noteq> UFS_TYPE_DIR \<or> dir_map n w = Map.empty"
  shows "namespace_ok w1"
proof -
  have c: "changes {n, p} w w1" and m: "dir_map p w1 = (dir_map p w)(name := None)" and at: "same_attrs (inode_at w1 p) (inode_at w p)"
    using rm by (simp_all add: removed_def)
  have "is_dir w1 p" using still_dir [OF e(1) _ at] e(1,3) u by (simp add: is_dir_used)
  then have "entries_of w1 p x = entries_of w p x" if "x \<noteq> n" for x using changed_entries(1) [OF e(1) _ m e(2)] that by simp
  moreover have "entries_of w1 n x = entries_of w n x" for x using no_entries [of n w1] no_entries [of n w] e(4) u by simp
  moreover have "used_inodes w1 \<subseteq> insert n (used_inodes w)" using u by blast
  ultimately show ?thesis using namespace_step [OF ns v1 c _ e(3) at] u by simp
qed

text \<open>A removal or an addition that changes the count.\<close>

lemma counted_namespace:
  assumes ns: "namespace_ok w" and v1: "volume_ok w1" and c: "changes {n, p} w w1" and u: "used_inodes w1 = used_inodes w"
    and at: "same_attrs (inode_at w1 p) (inode_at w p)" and p: "is_dir w p" "p \<noteq> n"
    and n: "n \<in> used_inodes w" "ino_type (inode_at w n) \<noteq> UFS_TYPE_DIR" "ino_type (inode_at w1 n) = ino_type (inode_at w n)"
    and k: "dir_map p w1 = (dir_map p w)(name := None) \<and> dir_map p w name = Some n \<and> names_of w n \<noteq> {(p, name)} \<and>
        ino_link_count (inode_at w1 n) = ino_link_count (inode_at w n) - 1 \<or>
      dir_map p w1 = (dir_map p w)(name \<mapsto> n) \<and> dir_map p w name = None \<and> ino_link_count (inode_at w n) \<noteq> - 1 \<and>
        ino_link_count (inode_at w1 n) = ino_link_count (inode_at w n) + 1"
  shows "namespace_ok w1"
proof -
  have v: "volume_ok w" using ns by (simp add: namespace_ok_def)
  have root: "n \<noteq> UFS_ROOT_INODE"
  proof
    assume "n = UFS_ROOT_INODE"
    then show False using root_used [OF v] n(2) by (simp only: is_dir_used)
  qed
  have p1: "is_dir w1 p" using still_dir [OF p(1) _ at] p(1) u by (simp add: is_dir_used)
  note ce = changed_entries [OF p(1) p1]
  have none: "entries_of w1 n x = {}" "entries_of w n x = {}" for x
    by (rule no_entries; use n(2,3) in simp)+
  have names: "names_of w1 n = {(d, x) \<in> names_of w n. d \<noteq> p} \<union> {p} \<times> entries_of w1 p n"
    by (rule step_names [OF v c none p(2)])
  define c0 where "c0 = unat (ino_link_count (inode_at w n))"
  have old: "card (names_of w n) = c0" using counted(2) [OF ns n(1) root n(2)] by (simp add: c0_def)
  have "link_count_ok w1 n"
    using k
  proof (elim disjE conjE)
    assume m: "dir_map p w1 = (dir_map p w)(name := None)" "dir_map p w name = Some n" "names_of w n \<noteq> {(p, name)}"
      and lc: "ino_link_count (inode_at w1 n) = ino_link_count (inode_at w n) - 1"
    have x: "(p, name) \<in> names_of w n" using p(1) m(2) by (simp add: names_of_def entries_of_def)
    have e: "names_of w1 n = names_of w n - {(p, name)}"
      unfolding names using ce(1) [OF m(1,2), of n] by (auto simp: names_of_def)
    then have "names_of w1 n \<noteq> {}" using m(3) x by blast
    moreover have "card (names_of w1 n) = c0 - 1" unfolding e using x old by simp
    moreover have "unat (ino_link_count (inode_at w n) - 1) = c0 - 1"
    proof -
      have "0 < c0" using x old finite_names [of w n] by (metis card_gt_0_iff empty_iff)
      then have "1 \<le> ino_link_count (inode_at w n)" by (simp add: c0_def word_le_nat_alt)
      then show ?thesis by (simp add: unat_sub c0_def)
    qed
    ultimately show ?thesis using root n(2,3) lc by (simp add: link_count_ok_def)
  next
    assume m: "dir_map p w1 = (dir_map p w)(name \<mapsto> n)" "dir_map p w name = None" "ino_link_count (inode_at w n) \<noteq> - 1"
      and lc: "ino_link_count (inode_at w1 n) = ino_link_count (inode_at w n) + 1"
    have e: "names_of w1 n = insert (p, name) (names_of w n)"
      unfolding names using ce(2) [OF m(1,2), of n] by (auto simp: names_of_def)
    moreover have "(p, name) \<notin> names_of w n" using m(2) by (simp add: names_of_def entries_of_def)
    ultimately have "card (names_of w1 n) = Suc c0" using finite_names [of w n] old by simp
    moreover have "unat (ino_link_count (inode_at w n) + 1) = Suc c0"
      using m(3) by (simp add: c0_def add.commute unatSuc eq_neg_iff_add_eq_0)
    ultimately show ?thesis using root n(2,3) lc e by (simp add: link_count_ok_def)
  qed
  moreover have "entries_of w1 p x = entries_of w p x" if "x \<noteq> n" for x
    using k ce(1) [of name n x] ce(2) [of name n x] that by metis
  moreover have "used_inodes w1 \<subseteq> insert n (used_inodes w)" using u by blast
  ultimately show ?thesis using namespace_step [OF ns v1 c _ p(2) at] none by simp
qed

section \<open>Public operations\<close>

lemma busy_views: "same_view v w \<Longrightarrow> busy n v = busy n w"
  by (simp add: busy_def inode_is_open_def same_view_def)

lemma find_entry_views: "same_view v w \<Longrightarrow> find_entry path v = find_entry path w"
  by (simp only: find_entry_def same_view_parent same_view)

lemma error_views:
  assumes s: "same_view v w"
  shows "unlink_error path v = unlink_error path w" "rmdir_error path v = rmdir_error path w"
    "link_error path new v = link_error path new w"
  by (simp_all only: unlink_error_def rmdir_error_def link_error_def find_entry_views [OF s] same_view [OF s]
      busy_views [OF s] same_view_parent [OF s] add_error_def)

lemma change_views:
  assumes v: "same_view v w" and v1: "same_view v1 w1"
  shows "removed p name n v v1 = removed p name n w w1" "unlinked p name n v v1 = unlinked p name n w w1"
    "linked p name n v v1 = linked p name n w w1"
proof -
  note s = same_view [OF v] same_view [OF v1] same_view_changes [OF v v1] same_view_names [OF v]
  show r: "removed p name n v v1 = removed p name n w w1" by (simp add: removed_def s)
  show "unlinked p name n v v1 = unlinked p name n w w1" by (simp add: unlinked_def r s)
  show "linked p name n v v1 = linked p name n w w1" by (simp add: linked_def s)
qed

lemma public_unlink:
  assumes ns: "namespace_ok w" and d: "lock_depth w = 0"
  shows "case ufs_unlink path w of (r, w1) \<Rightarrow> namespace_ok w1 \<and> unlocked w1 \<and>
    (case unlink_error path w of
       Some e \<Rightarrow> r = None \<and> errno w1 = e \<and> nothing_changed w w1
     | None \<Rightarrow> r = Some () \<and> (\<exists>p n. find_entry path w = Inr (p, n) \<and> unlinked p (last (components path)) n w w1))"
  unfolding ufs_unlink_def
proof (rule public_change [OF ns d ctx.quiet_create(3)])
  have s: "same_view (locked F_WRLCK w) w" by simp
  show "case ufs_unlink_unlocked path (locked F_WRLCK w) of (r, u) \<Rightarrow> volume_ok u \<and>
    (case unlink_error path w of
       Some e \<Rightarrow> r = None \<and> errno u = e \<and> nothing_changed (locked F_WRLCK w) u
     | None \<Rightarrow> r = Some () \<and> (\<exists>p n. find_entry path w = Inr (p, n) \<and> unlinked p (last (components path)) n w u))"
    using unlink_run [OF same_view_namespace [OF s ns]]
    by (simp only: error_views [OF s] find_entry_views [OF s] change_views [OF s same_view_simps(1)])
  fix u v assume sv: "same_view v u" and vv: "volume_ok v" and None: "unlink_error path w = None"
    and "\<exists>p n. find_entry path w = Inr (p, n) \<and> unlinked p (last (components path)) n w u"
  then obtain p n where r: "find_entry path w = Inr (p, n)" "unlinked p (last (components path)) n w v"
    using change_views(2) [OF same_view_simps(1) sv] by blast
  note e = find_entryD [OF ns r(1)]
  have ty: "ino_type (inode_at w n) \<noteq> UFS_TYPE_DIR" using None r(1) by (auto simp: unlink_error_def Let_def split: if_splits)
  have pn: "p \<noteq> n" using e(1) ty by (auto simp: is_dir_used)
  have rm: "removed p (last (components path)) n w v" using r(2) by (simp add: unlinked_def)
  have "namespace_ok v"
  proof (cases "names_of w n = {(p, last (components path))}")
    case True
    then show ?thesis using last_name_namespace [OF ns vv rm _ e(1,2) pn] r(2) ty by (simp add: unlinked_def)
  next
    case False
    then show ?thesis
      using r(2) rm ty e(2) by (intro counted_namespace [OF ns vv _ _ _ e(1) pn e(3) ty]) (auto simp: unlinked_def removed_def)
  qed
  then show "namespace_ok v \<and> (\<exists>p n. find_entry path w = Inr (p, n) \<and> unlinked p (last (components path)) n w v)"
    using r by blast
qed

lemma public_rmdir:
  assumes ns: "namespace_ok w" and d: "lock_depth w = 0"
  shows "case ufs_rmdir path w of (r, w1) \<Rightarrow> namespace_ok w1 \<and> unlocked w1 \<and>
    (case rmdir_error path w of
       Some e \<Rightarrow> r = None \<and> errno w1 = e \<and> nothing_changed w w1
     | None \<Rightarrow> r = Some () \<and> (\<exists>p n. find_entry path w = Inr (p, n) \<and> removed p (last (components path)) n w w1 \<and>
         used_inodes w1 = used_inodes w - {n}))"
  unfolding ufs_rmdir_def
proof (rule public_change [OF ns d ctx.quiet_create(2), where Q = "\<lambda>u. \<exists>p n. find_entry path w = Inr (p, n) \<and> p \<noteq> n \<and>
    removed p (last (components path)) n w u \<and> used_inodes u = used_inodes w - {n}"])
  have s: "same_view (locked F_WRLCK w) w" by simp
  show "case ufs_rmdir_unlocked path (locked F_WRLCK w) of (r, u) \<Rightarrow> volume_ok u \<and>
    (case rmdir_error path w of
       Some e \<Rightarrow> r = None \<and> errno u = e \<and> nothing_changed (locked F_WRLCK w) u
     | None \<Rightarrow> r = Some () \<and> (\<exists>p n. find_entry path w = Inr (p, n) \<and> p \<noteq> n \<and> removed p (last (components path)) n w u \<and>
         used_inodes u = used_inodes w - {n}))"
    using rmdir_run [OF same_view_namespace [OF s ns]]
    by (simp only: error_views [OF s] find_entry_views [OF s] change_views [OF s same_view_simps(1)] same_view [OF s])
  fix u v assume sv: "same_view v u" and vv: "volume_ok v" and None: "rmdir_error path w = None"
    and "\<exists>p n. find_entry path w = Inr (p, n) \<and> p \<noteq> n \<and> removed p (last (components path)) n w u \<and>
      used_inodes u = used_inodes w - {n}"
  then obtain p n where r: "find_entry path w = Inr (p, n)" "p \<noteq> n" "removed p (last (components path)) n w v"
      "used_inodes v = used_inodes w - {n}"
    using change_views(1) [OF same_view_simps(1) sv] same_view(2) [OF sv] by auto
  note e = find_entryD [OF ns r(1)]
  have "dir_map n w = Map.empty" using None r(1) by (simp add: rmdir_error_def split: if_splits)
  then show "namespace_ok v \<and> (\<exists>p n. find_entry path w = Inr (p, n) \<and> removed p (last (components path)) n w v \<and>
      used_inodes v = used_inodes w - {n})"
    using last_name_namespace [OF ns vv r(3,4) e(1,2) r(2)] r by blast
qed

lemma public_link:
  assumes ns: "namespace_ok w" and d: "lock_depth w = 0" and nul: "CHR 0x00 \<notin> set new"
  shows "case ufs_link path new w of (r, w1) \<Rightarrow> namespace_ok w1 \<and> unlocked w1 \<and>
    (case link_error path new w of
       Some e \<Rightarrow> r = None \<and> errno w1 = e \<and> nothing_changed w w1
     | None \<Rightarrow> r = Some () \<and> (\<exists>n p. walk w True 39 (components path) = Inr n \<and> find_parent new w = Inr p \<and>
         linked p (last (components new)) n w w1))"
  unfolding ufs_link_def
proof (rule public_change [OF ns d ctx.quiet_create(7), where Q = "\<lambda>u. \<exists>n p. walk w True 39 (components path) = Inr n \<and>
    find_parent new w = Inr p \<and> is_dir w p \<and> p \<noteq> n \<and> linked p (last (components new)) n w u"])
  have s: "same_view (locked F_WRLCK w) w" and v: "volume_ok w" using ns by (simp_all add: namespace_ok_def)
  show "case ufs_link_unlocked path new (locked F_WRLCK w) of (r, u) \<Rightarrow> volume_ok u \<and>
    (case link_error path new w of
       Some e \<Rightarrow> r = None \<and> errno u = e \<and> nothing_changed (locked F_WRLCK w) u
     | None \<Rightarrow> r = Some () \<and> (\<exists>n p. walk w True 39 (components path) = Inr n \<and> find_parent new w = Inr p \<and>
         is_dir w p \<and> p \<noteq> n \<and> linked p (last (components new)) n w u))"
    using link_run [OF same_view_step(2) [OF s v] nul, of path]
    by (simp only: error_views [OF s] same_view_parent [OF s] change_views [OF s same_view_simps(1)] same_view [OF s])
  fix u v assume sv: "same_view v u" and vv: "volume_ok v" and None: "link_error path new w = None"
    and "\<exists>n p. walk w True 39 (components path) = Inr n \<and> find_parent new w = Inr p \<and> is_dir w p \<and> p \<noteq> n \<and>
      linked p (last (components new)) n w u"
  then obtain n p where r: "walk w True 39 (components path) = Inr n" "find_parent new w = Inr p" "is_dir w p" "p \<noteq> n"
      "linked p (last (components new)) n w v"
    using change_views(3) [OF same_view_simps(1) sv] by blast
  have u: "n \<in> used_inodes w" using walk_used [OF _ r(1)] ns volume_okD(1) [of w] by (simp add: namespace_ok_def)
  have g: "ino_type (inode_at w n) \<noteq> UFS_TYPE_DIR" "ino_link_count (inode_at w n) \<noteq> - 1"
      "dir_map p w (last (components new)) = None"
    using None r(1,2) by (auto simp: link_error_def Let_def split: if_splits)
  have "namespace_ok v"
    using r(5) g by (intro counted_namespace [OF ns vv _ _ _ r(3,4) u g(1)]) (auto simp: linked_def)
  then show "namespace_ok v \<and> (\<exists>n p. walk w True 39 (components path) = Inr n \<and> find_parent new w = Inr p \<and>
      linked p (last (components new)) n w v)"
    using r by blast
qed

section \<open>A volume with one entry\<close>

text \<open>No public operation on names touches the mappings or the caller.\<close>

definition in_process :: "ufs_mapping list \<times> u32 \<Rightarrow> world \<Rightarrow> bool" where
  "in_process c w \<longleftrightarrow> (mapping_table w, euid w) = c"

interpretation process: table_frame "in_process c" for c
  by unfold_locales (simp_all add: in_process_def set_offset_def set_descriptor_def descriptor_table_reset_def)

lemma sample_tables: "\<not> busy n sample_tree"
proof -
  have t: "descriptor_table sample_tree = replicate UFS_MAX_OPEN_FILES zero_descriptor"
    "mapping_table sample_tree = replicate 32 zero_mapping"
    by (simp_all add: sample_tree_def put_inode_def claim_inode_def flushed_def add_free_inodes_def)
      (simp_all add: blank_world_def)
  show ?thesis unfolding busy_def inode_is_open_def t
    by (auto simp: first_from_None zero_descriptor_def zero_mapping_def)
qed

text \<open>A directory with one name has room for another.\<close>

lemma one_name_room:
  assumes v: "volume_ok w" and p: "is_dir w p" and m: "dir_map p w = [c \<mapsto> n]"
  shows "\<exists>d \<in> set (dir_entries (file_at w p)). de_used d = 0"
proof (rule ccontr)
  assume full: "\<not> ?thesis"
  define es where "es = dir_entries (file_at w p)"
  have em: "entry_map es = [c \<mapsto> n]" using m by (simp add: dir_map_def es_def)
  have u: "names_unique es"
    using tree_ok_dir(1) [OF volume_okD(1) [OF v] p] by (simp add: dir_inv_def dir_ok_def file_at_def es_def)
  have "entry_map es c \<noteq> None" by (simp add: em)
  then have "length es \<noteq> 0" by (auto simp: entry_map_def)
  then have len: "1 < length es" by (simp add: es_def length_dir_entries)
  have "entry_named c (es ! k)" if k: "k < length es" for k
  proof -
    define x where "x = c_string (de_name (es ! k))"
    have "de_used (es ! k) \<noteq> 0" using full nth_mem [OF k] unfolding es_def [symmetric] by blast
    then have x: "entry_named x (es ! k)" by (simp add: entry_named_def x_def)
    then have "entry_map es x \<noteq> None" using k by (auto simp: entry_map_None)
    then show ?thesis using x by (simp add: em split: if_splits)
  qed
  then have "(0::nat) = 1" using u len unfolding names_unique_def by (metis less_trans zero_less_one)
  then show False by simp
qed

lemma sample_node:
  assumes op: "op = ufs_create \<and> type = UFS_TYPE_FILE \<or> op = ufs_mkdir \<and> type = UFS_TYPE_DIR"
  shows "\<exists>w1. op ''/a'' sample_tree = (Some (), w1) \<and> namespace_ok w1 \<and> lock_depth w1 = 0 \<and>
    created 0 ''a'' type sample_tree w1 1 \<and> find_entry ''/a'' w1 = Inr (0, 1) \<and> \<not> busy 1 w1 \<and>
    (\<forall>nofollow. type = UFS_TYPE_FILE \<longrightarrow> walk w1 nofollow 39 [''a''] = Inr 1) \<and> find_parent ''/b'' w1 = Inr 0 \<and>
    unlocked w1 \<and> descriptor_table w1 = descriptor_table sample_tree \<and> euid w1 = 0"
proof -
  have ty: "type \<in> {UFS_TYPE_FILE, UFS_TYPE_DIR}" using op by auto
  have public: "op ''/a'' = with_lock ufs_operation_write_lock (create_node ''/a'' type)"
    using op by (auto simp: ufs_create_def ufs_mkdir_def ufs_create_unlocked_def ufs_mkdir_unlocked_def)
  obtain r w1 where run: "op ''/a'' sample_tree = (r, w1)" by fastforce
  have "CHR 0x00 \<notin> set ''/a''" by simp
  from public_create [OF sample_volume(1,2) this ty, folded public, unfolded run sample_create [OF ty]]
  obtain n where n: "r = Some ()" "namespace_ok w1" "unlocked w1" "created 0 ''a'' type sample_tree w1 n"
    by (auto simp: sample_parent)
  note cr = n(4) [unfolded sample_created [OF n(4)]]
  have frame: "preserves (in_process (mapping_table sample_tree, euid sample_tree)) (op ''/a'')"
    using op process.namespace_keeps(1,2) by blast
  have pr: "mapping_table w1 = mapping_table sample_tree" "euid w1 = 0"
    using preservesD [OF frame, of sample_tree] run sample_volume(7) by (simp_all add: in_process_def)
  have dt: "descriptor_table w1 = descriptor_table sample_tree" using cr by (simp add: created_def new_node_def changes_def)
  have b: "\<not> busy 1 w1" using sample_tables [of 1] by (simp add: busy_def inode_is_open_def pr dt)
  have p0: "is_dir w1 0" using root_used n(2) by (simp add: namespace_ok_def)
  have m: "dir_map 0 w1 ''a'' = Some 1" using cr by (simp add: created_def new_node_def)
  have wr: "writable w1 i" "searchable w1 i" for i by (simp_all add: writable_def searchable_def pr(2))
  have vp: "valid_path ''/a''" "components ''/a'' = [''a'']" "valid_path ''/b''" "components ''/b'' = [''b'']"
    by (simp_all add: valid_path_def path_of_in_iff path_parts.simps valid_component_def components_def)
  have par: "find_parent ''/a'' w1 = Inr 0" "find_parent ''/b'' w1 = Inr 0"
    using vp wr by (simp_all add: find_parent_def numeral_eq_Suc)
  have "ino_type (inode_at w1 0) = UFS_TYPE_DIR" using p0 by (simp add: is_dir_used)
  then have e: "find_entry ''/a'' w1 = Inr (0, 1)" using par m vp by (simp add: find_entry_def)
  have "walk w1 nofollow 39 [''a''] = Inr 1" if "type = UFS_TYPE_FILE" for nofollow
    using that cr m wr p0 by (simp add: created_def new_node_def is_dir_used numeral_eq_Suc)
  then show ?thesis using run n cr b e par dt pr(2) by (simp add: unlocked_def)
qed

section \<open>Properties\<close>

text \<open>C5: Unlinking. In a well-formed namespace \<open>ufs_unlink\<close> fails exactly as \<open>unlink_error\<close> says, in this
  order: EISDIR for the root, the errors of finding and permission to change the parent, ENOTDIR when
  it is no directory, ENOENT, EISDIR for a directory, EBUSY while a descriptor or a mapping has the
  file; nothing in use has changed then. Otherwise the parent loses the name and no other. With the
  last name go the inode and all blocks of the file; otherwise the inode and the bytes stay, only the
  link count drops by one and the change time is set. No other inode or file changes, the namespace is
  well formed again, link counts included, and the lock is released.\<close>

theorem unlink_spec:
  assumes "namespace_ok w" and "lock_depth w = 0"
  shows "case ufs_unlink path w of (r, w1) \<Rightarrow> namespace_ok w1 \<and> unlocked w1 \<and>
    (case unlink_error path w of
       Some e \<Rightarrow> r = None \<and> errno w1 = e \<and> nothing_changed w w1
     | None \<Rightarrow> r = Some () \<and> (\<exists>p n. find_entry path w = Inr (p, n) \<and> unlinked p (last (components path)) n w w1))"
  by (rule public_unlink [OF assms])

theorem unlink_spec_witness:
  "case ufs_unlink ''/a'' (snd (ufs_create ''/a'' sample_tree)) of (r, w1) \<Rightarrow>
    r = Some () \<and> namespace_ok w1 \<and> dir_map 0 w1 = Map.empty \<and> used_inodes w1 = {0}"
proof -
  obtain w1 where c: "ufs_create ''/a'' sample_tree = (Some (), w1)" "namespace_ok w1" "lock_depth w1 = 0"
      "created 0 ''a'' UFS_TYPE_FILE sample_tree w1 1" "find_entry ''/a'' w1 = Inr (0, 1)" "\<not> busy 1 w1"
    using sample_node [of ufs_create UFS_TYPE_FILE] by blast
  have i: "ino_type (inode_at w1 1) = UFS_TYPE_FILE" "ino_link_count (inode_at w1 1) = 1" "used_inodes w1 = {0, 1}"
      "dir_map 0 w1 = [''a'' \<mapsto> 1]"
    using c(4) by (auto simp: created_def new_node_def sample_volume(3,5))
  have ue: "unlink_error ''/a'' w1 = None" using c(5,6) i(1) by (simp add: unlink_error_def)
  note e = find_entryD [OF c(2,5)]
  have "names_of w1 1 = {(0, ''a'')}"
    using counted(2) [OF c(2) e(3,4)] e(5) i(1,2) by (intro only_name) (simp_all add: sample_parent(2))
  then have one: "names_of w1 1 = {(0, last (components ''/a''))}" by (simp add: sample_parent(2))
  obtain r w2 where run: "ufs_unlink ''/a'' w1 = (r, w2)" by fastforce
  note sp = unlink_spec [OF c(2,3), of "''/a''", unfolded run prod.case ue option.case]
  then have "unlinked 0 ''a'' 1 w1 w2" using c(5) by (simp add: sample_parent(2))
  then have "dir_map 0 w2 = Map.empty" "used_inodes w2 = {0}"
    using one i(3,4) by (auto simp: unlinked_def removed_def sample_parent(2))
  then show ?thesis using run c(1) sp by simp
qed

text \<open>C13: Removing a directory. In a well-formed namespace \<open>ufs_rmdir\<close> fails exactly as \<open>rmdir_error\<close> says,
  in this order: EBUSY for the root, the errors of finding and permission to change the parent,
  ENOTDIR when it is no directory, ENOENT, ENOTDIR when the target is none, ENOTEMPTY; nothing in use
  has changed then. Otherwise the parent loses the name and no other, the inode and all blocks of
  the directory are free, nothing else changes, the namespace is well formed again, and the lock is
  released.\<close>

theorem rmdir_spec:
  assumes "namespace_ok w" and "lock_depth w = 0"
  shows "case ufs_rmdir path w of (r, w1) \<Rightarrow> namespace_ok w1 \<and> unlocked w1 \<and>
    (case rmdir_error path w of
       Some e \<Rightarrow> r = None \<and> errno w1 = e \<and> nothing_changed w w1
     | None \<Rightarrow> r = Some () \<and> (\<exists>p n. find_entry path w = Inr (p, n) \<and> removed p (last (components path)) n w w1 \<and>
         used_inodes w1 = used_inodes w - {n}))"
  by (rule public_rmdir [OF assms])

theorem rmdir_spec_witness:
  "case ufs_rmdir ''/a'' (snd (ufs_mkdir ''/a'' sample_tree)) of (r, w1) \<Rightarrow>
    r = Some () \<and> namespace_ok w1 \<and> dir_map 0 w1 = Map.empty \<and> used_inodes w1 = {0}"
proof -
  obtain w1 where c: "ufs_mkdir ''/a'' sample_tree = (Some (), w1)" "namespace_ok w1" "lock_depth w1 = 0"
      "created 0 ''a'' UFS_TYPE_DIR sample_tree w1 1" "find_entry ''/a'' w1 = Inr (0, 1)"
    using sample_node [of ufs_mkdir UFS_TYPE_DIR] by blast
  have i: "ino_type (inode_at w1 1) = UFS_TYPE_DIR" "used_inodes w1 = {0, 1}" "dir_map 0 w1 = [''a'' \<mapsto> 1]"
      "dir_map 1 w1 = Map.empty"
    using c(4) by (auto simp: created_def new_node_def sample_volume(3,5))
  have re: "rmdir_error ''/a'' w1 = None" using c(5) i(1,4) by (simp add: rmdir_error_def)
  obtain r w2 where run: "ufs_rmdir ''/a'' w1 = (r, w2)" by fastforce
  note sp = rmdir_spec [OF c(2,3), of "''/a''", unfolded run prod.case re option.case]
  then have "removed 0 ''a'' 1 w1 w2" "used_inodes w2 = used_inodes w1 - {1}" using c(5) by (simp_all add: sample_parent(2))
  then have "dir_map 0 w2 = Map.empty" "used_inodes w2 = {0}" using i(2,3) by (auto simp: removed_def)
  then show ?thesis using run c(1) sp by simp
qed

text \<open>C12: Hard links. In a well-formed namespace \<open>ufs_link\<close> fails exactly as \<open>link_error\<close> says, in this
  order: EINVAL for a malformed existing path or the error of walking it, a final symbolic link not
  followed, EPERM for a directory, EMLINK when the count cannot grow, the errors of finding and
  permission to change the new parent, ENOTDIR, EEXIST, ENOSPC when the directory cannot take the
  name; nothing in use has changed then. Otherwise the new parent has the name for the same inode, whose
  count is one more; its bytes and all other files are as before, the namespace is well formed
  again, link counts included, and the lock is released.\<close>

theorem link_spec:
  assumes "namespace_ok w" and "lock_depth w = 0" and "CHR 0x00 \<notin> set new"
  shows "case ufs_link path new w of (r, w1) \<Rightarrow> namespace_ok w1 \<and> unlocked w1 \<and>
    (case link_error path new w of
       Some e \<Rightarrow> r = None \<and> errno w1 = e \<and> nothing_changed w w1
     | None \<Rightarrow> r = Some () \<and> (\<exists>n p. walk w True 39 (components path) = Inr n \<and> find_parent new w = Inr p \<and>
         linked p (last (components new)) n w w1))"
  by (rule public_link [OF assms])

theorem link_spec_witness:
  "case ufs_link ''/a'' ''/b'' (snd (ufs_create ''/a'' sample_tree)) of (r, w1) \<Rightarrow>
    r = Some () \<and> namespace_ok w1 \<and> dir_map 0 w1 = [''a'' \<mapsto> 1, ''b'' \<mapsto> 1] \<and> ino_link_count (inode_at w1 1) = 2"
proof -
  obtain w1 where c: "ufs_create ''/a'' sample_tree = (Some (), w1)" "namespace_ok w1" "lock_depth w1 = 0"
      "created 0 ''a'' UFS_TYPE_FILE sample_tree w1 1" "walk w1 True 39 [''a''] = Inr 1" "find_parent ''/b'' w1 = Inr 0"
    using sample_node [of ufs_create UFS_TYPE_FILE] by blast
  have i: "ino_type (inode_at w1 1) = UFS_TYPE_FILE" "ino_link_count (inode_at w1 1) = 1" "dir_map 0 w1 = [''a'' \<mapsto> 1]"
    using c(4) by (auto simp: created_def new_node_def sample_volume(3))
  have d: "is_dir w1 0" using root_used c(2) by (simp add: namespace_ok_def)
  have vp: "valid_path ''/a''" "components ''/b'' = [''b'']"
    by (simp_all add: valid_path_def path_of_in_iff path_parts.simps valid_component_def components_def)
  have "\<exists>d \<in> set (dir_entries (file_at w1 0)). de_used d = 0"
    using one_name_room [OF _ d i(3)] c(2) by (simp add: namespace_ok_def)
  then have le: "link_error ''/a'' ''/b'' w1 = None"
    using c(5,6) vp d i by (simp add: link_error_def sample_parent(2) is_dir_used add_error_def)
  obtain r w2 where run: "ufs_link ''/a'' ''/b'' w1 = (r, w2)" by fastforce
  have "CHR 0x00 \<notin> set ''/b''" by simp
  note sp = link_spec [OF c(2,3) this, of "''/a''", unfolded run prod.case le option.case]
  then have "linked 0 ''b'' 1 w1 w2" using c(5,6) by (simp add: sample_parent(2) vp)
  then have "dir_map 0 w2 = [''a'' \<mapsto> 1, ''b'' \<mapsto> 1]" "ino_link_count (inode_at w2 1) = 2"
    using i by (auto simp: linked_def)
  then show ?thesis using run c(1) sp by simp
qed

end
