(* ===== verification/Ufs_Files.thy ===== *)
theory Ufs_Files
  imports Ufs_Remove
begin

text \<open>
  Regular files of a well-formed volume, through paths and through descriptors: a change of the bytes of
  one file keeps the whole namespace, every other file and where every path leads; opening and closing;
  truncation by path; and read and write of \<open>Ufs_OpenFile\<close> on the volume.
\<close>

section \<open>Worlds with the same disk\<close>

lemma same_blocks:
  assumes d: "blk v = blk w"
  shows "dir_entries (file_at v m) = dir_entries (file_at w m)" "dir_map m v = dir_map m w" "link_text v m = link_text w m"
    "entries_of v m = entries_of w m" "names_of v m = names_of w m"
proof -
  note s = same_disk [OF d]
  have data: "block_data (i, v) lb = block_data (i, w) lb" for i lb
    using slot_ptr_blk [OF d] by (simp add: block_data_def bmap_def d)
  show de: "dir_entries (file_at v m) = dir_entries (file_at w m)" for m
    using data by (simp add: s(1) dir_entries_def dir_blocks_def file_at_def)
  show dm: "dir_map m v = dir_map m w" for m by (simp add: dir_map_def de)
  show "link_text v m = link_text w m"
    using data by (simp add: link_text_def s(5) file_size_def) (simp add: file_at_def)
  show en: "entries_of v m = entries_of w m" for m by (simp add: entries_of_def dm s(3) fun_eq_iff)
  show "names_of v m = names_of w m" by (simp add: names_of_def en)
qed

lemma same_blocks_namespace:
  assumes d: "blk v = blk w" and l: "live v" and ns: "namespace_ok w"
  shows "volume_ok v" "namespace_ok v"
proof -
  have v: "volume_ok w" using ns by (simp add: namespace_ok_def)
  note s = same_disk [OF d] and b = same_blocks [OF d]
  have keep: "blk v b = blk w b \<and> block_used v b" if "file_wf (i, w)" "b \<in> owned_blocks (i, w)" for i b
    using owned_used [OF that] by (simp add: d s(7))
  have "dir_ok (file_at v n)" if "is_dir w n" for n
  proof -
    have ok: "dir_ok (inode_at w n, w)"
      using tree_ok_dir(1) [OF volume_okD(1) [OF v] that] by (simp add: dir_inv_def file_at_def)
    show ?thesis unfolding s(5) by (rule kept_dir(1) [OF ok keep [OF dir_okD(1) [OF ok]]])
  qed
  moreover have "link_ok (file_at v n)" if "n < UFS_MAX_INODES \<and> inode_used w n" "ino_type (inode_at w n) = UFS_TYPE_SYMLINK" for n
  proof -
    have ok: "link_ok (inode_at w n, w)"
      using tree_ok_link [OF volume_okD(1) [OF v] that] by (simp add: file_at_def)
    then have wf: "file_wf (inode_at w n, w)" by (simp add: link_ok_def)
    show ?thesis unfolding s(5) by (rule kept_link(1) [OF ok keep [OF wf]])
  qed
  ultimately have "tree_ok v"
    using l tree_okD(3) [OF volume_okD(1) [OF v]] tree_ok_dir(2) [OF volume_okD(1) [OF v]]
    by (auto simp: tree_ok_def s b(2) ran_def)
  moreover have "file_at w n = (inode_at w n, w)" for n by (simp add: file_at_def)
  then have "files_ok (used_inodes v) v" using v by (simp add: volume_ok_def files_ok_def s)
  ultimately show vv: "volume_ok v" by (simp add: volume_ok_def)
  have "link_count_ok v n = link_count_ok w n" for n by (rule link_count_same) (simp_all add: b s(1))
  then show "namespace_ok v" using ns vv by (simp add: namespace_ok_def s(2))
qed

section \<open>A change of one file\<close>

text \<open>Where paths lead is a matter of the directories, the links and the permissions.\<close>

definition same_callers :: "world \<Rightarrow> world \<Rightarrow> bool" where
  "same_callers v w \<longleftrightarrow> euid v = euid w \<and> egid v = egid w \<and> sup_groups v = sup_groups w"

lemma walk_kept:
  assumes ok: "tree_ok w" and c: "same_callers v w"
    and at: "\<And>m. m \<in> used_inodes w \<Longrightarrow> same_attrs (inode_at v m) (inode_at w m)"
    and dirs: "\<And>d. is_dir w d \<Longrightarrow> dir_map d v = dir_map d w"
    and links: "\<And>m. m \<in> used_inodes w \<Longrightarrow> ino_type (inode_at w m) = UFS_TYPE_SYMLINK \<Longrightarrow> link_text v m = link_text w m"
  shows "walk v nf n cs = walk w nf n cs"
proof -
  have scan: "is_dir w n \<or> cs = [] \<Longrightarrow> scan v nf pre n cs = scan w nf pre n cs" for pre n cs
  proof (induction cs arbitrary: pre n)
    case (Cons a cs)
    then have d: "is_dir w n" by simp
    have se: "searchable v (inode_at v n) = searchable w (inode_at w n)"
      using c at [of n] d by (simp add: searchable_def same_callers_def same_attrs_def access_class_def is_dir_used)
    show ?case
    proof (cases "dir_map n w a")
      case None
      then show ?thesis using dirs [OF d] se by simp
    next
      case (Some m)
      have m: "m \<in> used_inodes w" using tree_ok_dir(2) [OF ok d Some] by (simp add: used_inodes_def)
      then have ty: "ino_type (inode_at v m) = ino_type (inode_at w m)" using at by (simp add: same_attrs_def)
      have lk: "link_components v m pre cs = link_components w m pre cs" if "ino_type (inode_at w m) = UFS_TYPE_SYMLINK"
        using links [OF m that] by (simp add: link_components_def)
      have rec: "scan v nf (pre @ [a]) m cs = scan w nf (pre @ [a]) m cs"
        if "cs \<noteq> [] \<longrightarrow> ino_type (inode_at w m) = UFS_TYPE_DIR"
        using that m by (intro Cons.IH) (auto simp: is_dir_used)
      show ?thesis using dirs [OF d] se Some ty lk rec by simp
    qed
  qed simp
  have "scan v nf [] UFS_ROOT_INODE cs = scan w nf [] UFS_ROOT_INODE cs" for cs
    by (rule scan) (use tree_okD(3) [OF ok] in blast)
  then show ?thesis by (induction n arbitrary: cs) (simp_all only: walk.simps cong: scan_result.case_cong)
qed

definition is_file :: "world \<Rightarrow> nat \<Rightarrow> bool" where
  "is_file w n \<longleftrightarrow> n \<in> used_inodes w \<and> ino_type (inode_at w n) = UFS_TYPE_FILE"

text \<open>Only the bytes and the times of file \<open>n\<close> and the tables have changed.\<close>

definition file_change :: "nat \<Rightarrow> world \<Rightarrow> world \<Rightarrow> bool" where
  "file_change n w w1 \<longleftrightarrow> changes {n} w (w1\<lparr>descriptor_table := descriptor_table w\<rparr>) \<and> live w1 \<and> file_ok (file_at w1 n) \<and>
     inode_used w1 n = inode_used w n \<and> same_attrs (inode_at w1 n) (inode_at w n) \<and> same_callers w1 w"

lemma file_change:
  assumes ns: "namespace_ok w" and n: "is_file w n" and c: "file_change n w w1"
  shows "namespace_ok w1" "used_inodes w1 = used_inodes w" "is_file w1 m = is_file w m"
    "\<And>m. m \<noteq> n \<Longrightarrow> m \<in> used_inodes w \<Longrightarrow> inode_at w1 m = inode_at w m \<and> contents (file_at w1 m) = contents (file_at w m)"
    "\<And>d. is_dir w1 d = is_dir w d" "\<And>d. is_dir w d \<Longrightarrow> dir_map d w1 = dir_map d w" "walk w1 nf links cs = walk w nf links cs"
proof -
  define v where "v = w1\<lparr>descriptor_table := descriptor_table w\<rparr>"
  have b: "blk v = blk w1" "live v" using c by (simp_all add: v_def file_change_def)
  note s = same_disk [OF b(1)] and sb = same_blocks [OF b(1)]
  have vw: "volume_ok w" and ty: "ino_type (inode_at w n) = UFS_TYPE_FILE" and u: "n \<in> used_inodes w"
    using ns n by (simp_all add: namespace_ok_def is_file_def)
  have ch: "changes {n} w v" and at: "same_attrs (inode_at w1 n) (inode_at w n)" using c by (simp_all add: file_change_def v_def)
  show used: "used_inodes w1 = used_inodes w"
  proof -
    have "inode_used w1 m = inode_used w m" if "m < UFS_MAX_INODES" for m
      using changesD(5) [OF ch that] c by (cases "m = n") (simp_all add: s(8) file_change_def)
    then show ?thesis by (auto simp: used_inodes_def)
  qed
  show other: "inode_at w1 m = inode_at w m \<and> contents (file_at w1 m) = contents (file_at w m)" if "m \<noteq> n" "m \<in> used_inodes w" for m
    using changes_other(2,8) [OF vw ch that(2)] that(1) s(1) by (simp add: s(5,10)) (simp add: file_at_def)
  have attrs: "same_attrs (inode_at w1 m) (inode_at w m)" if "m \<in> used_inodes w" for m
    using other [OF _ that] at by (cases "m = n") simp_all
  show dir: "is_dir w1 d = is_dir w d" for d using attrs used by (auto simp: is_dir_used same_attrs_def)
  show "is_file w1 m = is_file w m" using attrs used by (auto simp: is_file_def same_attrs_def)
  have nodir: "\<not> is_dir w n" using ty by (simp add: is_dir_used)
  show map: "dir_map d w1 = dir_map d w" if "is_dir w d" for d
    using changes_dir(3) [OF vw ch that] nodir that sb(2) [of d] by auto
  have links: "link_text w1 m = link_text w m" if "m \<in> used_inodes w" "ino_type (inode_at w m) = UFS_TYPE_SYMLINK" for m
    using changes_link(2) [OF vw ch that(1) _ that(2)] ty that(2) sb(3) [of m] by (cases "m = n") auto
  show "walk w1 nf links cs = walk w nf links cs"
    using c by (intro walk_kept [OF volume_okD(1) [OF vw]] attrs map links) (simp_all add: file_change_def)
  have root: "is_dir v UFS_ROOT_INODE" using tree_okD(3) [OF volume_okD(1) [OF vw]] by (simp add: s(3) dir)
  have "volume_ok v"
  proof (rule changes_volume [OF vw ch root])
    fix d assume d: "is_dir w d"
    show "ran (dir_map d w) \<subseteq> used_inodes v"
      unfolding s(2) used using tree_ok_dir(2) [OF volume_okD(1) [OF vw] d] by (auto simp: ran_def used_inodes_def)
  next
    fix m assume "m \<in> {n}"
    then have m: "m = n" by simp
    have "file_at v n = (inode_at w1 n, v)" "file_at w1 n = (inode_at w1 n, w1)" by (simp_all add: file_at_def s(1))
    then show "file_ok (file_at v m)" using c m by (simp add: file_change_def s(9))
    show "is_dir v m \<Longrightarrow> dir_ok (file_at v m) \<and> ran (dir_map m v) \<subseteq> used_inodes v" using nodir m by (simp add: s(3) dir)
    show "ino_type (inode_at v m) = UFS_TYPE_SYMLINK \<Longrightarrow> link_ok (file_at v m)"
      using at ty m by (simp add: s(1) same_attrs_def)
  qed simp
  moreover have "link_count_ok v m" if "m \<in> used_inodes w" for m
  proof -
    have "names_of v m = names_of w m"
      using nodir dir by (intro changes_names [OF vw ch]) (simp add: entries_of_def s(3))
    then have "link_count_ok v m = link_count_ok w m" by (rule link_count_same) (simp add: s(1) attrs [OF that])
    then show ?thesis using ns that by (simp add: namespace_ok_def)
  qed
  ultimately have "namespace_ok v" by (simp add: namespace_ok_def s(2) used)
  moreover have "live w1" using c by (simp add: file_change_def)
  ultimately show "namespace_ok w1" by (intro same_blocks_namespace(2) [OF b(1) [symmetric]])
qed

text \<open>A change of the tables and of \<open>errno\<close>.\<close>

lemma tables_change:
  assumes ns: "namespace_ok w" and n: "is_file w n" and b: "blk w1 = blk w" and l: "live w1" and c: "same_callers w1 w"
  shows "file_change n w w1"
proof -
  have v: "volume_ok w" and u: "n \<in> used_inodes w" using ns n by (simp_all add: namespace_ok_def is_file_def)
  note s = same_disk [OF b]
  have "changes {n} w (w1\<lparr>descriptor_table := descriptor_table w\<rparr>)" using b l by (intro same_disk_step(1) [OF v]) simp_all
  moreover have "file_ok (inode_at w n, w)" using volume_okD(3) [OF v u] by (simp add: file_at_def)
  ultimately show ?thesis using l c by (simp add: file_change_def s)
qed

lemma file_change_trans:
  assumes a: "file_change n w u" and b: "file_change n u w1"
  shows "file_change n w w1"
proof -
  define u0 where "u0 = u\<lparr>descriptor_table := descriptor_table w\<rparr>"
  define v0 where "v0 = w1\<lparr>descriptor_table := descriptor_table u\<rparr>"
  define v where "v = w1\<lparr>descriptor_table := descriptor_table w\<rparr>"
  have eq: "blk u0 = blk u" "blk v = blk v0" "live v" "live u0" using a b by (simp_all add: u0_def v_def v0_def file_change_def)
  have "changes {n} u0 v"
    using b same_disk [OF eq(1)] same_disk [OF eq(2)] eq
    by (simp add: file_change_def changes_def v0_def [symmetric]) (simp add: u0_def v_def)
  then have "changes {n} w v" using a changes_trans by (auto simp: file_change_def u0_def)
  then show ?thesis using a b same_attrs_trans by (auto simp: file_change_def v_def same_callers_def)
qed

section \<open>Open and close\<close>

lemma open_flags_run:
  "validate_open_flags fl w = (if legal_flags fl then (Some (), w) else (None, w\<lparr>errno := EINVAL\<rparr>))"
proof (cases "legal_flags fl")
  case True
  then show ?thesis by (auto simp: legal_flags_def validate_open_flags_def ret_def)
next
  case False
  then have "fst (validate_open_flags fl w) = None"
    using returns_flags [of fl] by (cases "validate_open_flags fl w"; cases "fst (validate_open_flags fl w)") (auto simp: returns_def)
  then show ?thesis using False by (auto simp: validate_open_flags_def Let_def require_def fail_def ret_def split: if_splits)
qed

definition may_access :: "world \<Rightarrow> ufs_inode \<Rightarrow> u32 \<Rightarrow> bool" where
  "may_access w i r \<longleftrightarrow> euid w = 0 \<or>
     (+) (access_class i (euid w) (egid w) (sup_groups w)) ` bits_of r \<subseteq> bits_of (ino_mode i)"

lemma access_run:
  assumes "script w = []" and "r \<in> {2, 4, 6}"
  shows "ufs_check_access_inode i r w = (if may_access w i r then (Some (), w) else (None, w\<lparr>errno := EACCES\<rparr>))"
proof -
  have "bits_of (4 OR 2 :: u32) = {1, 2}" "bits_of (4 :: u32) = {2}" "bits_of (2 :: u32) = {1}"
    unfolding bits_of_def bit_or_iff bit_pow2_u32 by auto
  then have "bits_of r \<subseteq> {..<3}" "r \<noteq> 0" using assms(2) by auto
  then show ?thesis
    using ufs_check_access_inode_calm [OF assms(1), of i r] by (auto simp: mode_allows_run may_access_def)
qed

definition open_request :: "u32 \<Rightarrow> u32" where
  "open_request fl = (if fl AND UFS_O_RDWR \<noteq> UFS_O_WRONLY then R_OK else 0) OR (if fl AND UFS_O_RDWR \<noteq> UFS_O_RDONLY then W_OK else 0)"

lemma open_request: "legal_flags fl \<Longrightarrow> open_request fl \<in> {2, 4, 6}"
  by (auto simp: legal_flags_def open_request_def)

definition free_descriptor :: "world \<Rightarrow> nat option" where
  "free_descriptor w = first_from (\<lambda>fd. \<not> fde_in_use (descriptor_table w ! fd)) 0 UFS_MAX_OPEN_FILES"

text \<open>The file a path leads to, when it may be opened, or the error.\<close>

definition open_result :: "string \<Rightarrow> u32 \<Rightarrow> world \<Rightarrow> errno + nat" where
  "open_result path fl w =
     (if \<not> legal_flags fl \<or> \<not> valid_path path then Inl EINVAL
      else case walk w False 39 (components path) of Inl e \<Rightarrow> Inl e | Inr n \<Rightarrow>
        if ino_type (inode_at w n) = UFS_TYPE_DIR then Inl EISDIR
        else if ino_type (inode_at w n) \<noteq> UFS_TYPE_FILE then Inl EINVAL
        else if \<not> may_access w (inode_at w n) (open_request fl) then Inl EACCES
        else if free_descriptor w = None then Inl EMFILE else Inr n)"

definition new_handle :: "world \<Rightarrow> nat \<Rightarrow> u32 \<Rightarrow> file_io_descriptor" where
  "new_handle w n fl = \<lparr>fde_in_use = True, fde_inode_number = of_nat n, fde_inode_generation = ino_generation (inode_at w n),
     fde_offset = 0, fde_flags = fl\<rparr>"

definition opened :: "errno + nat \<Rightarrow> u32 \<Rightarrow> world \<Rightarrow> nat option \<times> world" where
  "opened r fl w = (case r of Inl e \<Rightarrow> (None, w\<lparr>errno := e\<rparr>)
     | Inr n \<Rightarrow> (free_descriptor w, set_descriptor (the (free_descriptor w)) (new_handle w n fl) w))"

lemma open_run:
  assumes ok: "tree_ok w"
  shows "ufs_open_unlocked path fl w = opened (open_result path fl w) fl w"
proof -
  have l: "live w" "script w = []" by (rule tree_okD [OF ok])+
  have m: "require_mounted w = (Some (), w)" by (rule require_mounted_live [OF l(1)])
  have alloc: "allocate_descriptor w = (case free_descriptor w of Some k \<Rightarrow> (Some k, w) | None \<Rightarrow> (None, w\<lparr>errno := EMFILE\<rparr>))"
    by (simp add: allocate_descriptor_def asking_def free_descriptor_def ret_def fail_def split: option.splits)
  note res = resolve_run [OF ok, of path UFS_RESOLVE_FOLLOW_FINAL]
  show ?thesis
  proof (cases "legal_flags fl \<and> valid_path path")
    case False
    then show ?thesis using m res open_flags_run [of fl w]
      by (cases "legal_flags fl") (simp_all add: ufs_open_unlocked_def run_simps open_result_def opened_def)
  next
    case v: True
    show ?thesis
    proof (cases "walk w False 39 (components path)")
      case (Inl e)
      then show ?thesis using m v res open_flags_run [of fl w]
        by (simp add: ufs_open_unlocked_def run_simps open_result_def opened_def outcome_def)
    next
      case (Inr n)
      have n: "n < UFS_MAX_INODES" using walk_used [OF ok Inr] by (simp add: used_inodes_def)
      note acc = access_run [OF l(2) open_request, of fl "inode_at w n"]
      show ?thesis using m v res open_flags_run [of fl w] Inr n l acc alloc
        by (simp add: ufs_open_unlocked_def run_simps io_simps open_result_def opened_def outcome_def open_request_def [symmetric]
            require_def fail_def modify_def ret_def new_handle_def split: option.splits)
    qed
  qed
qed

lemma opened_file:
  assumes ok: "tree_ok w" and r: "open_result path fl w = Inr n"
  obtains k where "free_descriptor w = Some k" "k < UFS_MAX_OPEN_FILES" "is_file w n" "legal_flags fl"
    "walk w False 39 (components path) = Inr n"
proof -
  have g: "legal_flags fl" "walk w False 39 (components path) = Inr n" "ino_type (inode_at w n) = UFS_TYPE_FILE" "free_descriptor w \<noteq> None"
    using r by (auto simp: open_result_def split: if_splits sum.splits)
  then obtain k where k: "free_descriptor w = Some k" by auto
  then have "k < UFS_MAX_OPEN_FILES" by (simp add: free_descriptor_def first_from_Some)
  then show ?thesis using that [OF k] g walk_used [OF ok g(2)] by (simp add: is_file_def)
qed

text \<open>The lock is taken and given back by an operation that changes nothing but the tables.\<close>

lemma table_step:
  assumes l: "live w" and un: "unlocked w" and ctx: "\<And>c. preserves (in_context c) m"
    and run: "m (locked F_WRLCK w) = (r, locked F_WRLCK u)" and u: "live u" "unlocked u"
  shows "with_lock ufs_operation_write_lock m w = (r, u)"
proof -
  have "released (locked F_WRLCK u) = u" using u(2) by (cases u) (simp add: released_def locked_def unlocked_def)
  then show ?thesis using with_lock_live [OF l _ run ctx] un u(1) by (simp add: unlocked_def)
qed

lemma locked_updates:
  "set_descriptor k d (locked kd w) = locked kd (set_descriptor k d w)" "(locked kd w)\<lparr>errno := e\<rparr> = locked kd (w\<lparr>errno := e\<rparr>)"
  by (simp_all add: locked_def set_descriptor_def)

lemma public_open:
  assumes ns: "namespace_ok w" and un: "unlocked w"
  shows "ufs_open path fl w = opened (open_result path fl w) fl w"
proof -
  have v: "volume_ok w" "live w" using ns volume_okD(2) by (simp_all add: namespace_ok_def)
  let ?l = "locked F_WRLCK w"
  have sv: "same_view ?l w" by simp
  have "volume_ok ?l" by (rule same_view_step(2) [OF sv v(1)])
  note run = open_run [OF volume_okD(1) [OF this], of path fl]
  have ctx: "preserves (in_context c) (ufs_open_unlocked path fl)" for c by (rule context_tables(1))
  have cl: "euid ?l = euid w" "egid ?l = egid w" "sup_groups ?l = sup_groups w" by (simp_all add: locked_def)
  have same: "open_result path fl ?l = open_result path fl w" "free_descriptor ?l = free_descriptor w" "new_handle ?l n fl = new_handle w n fl" for n
  proof -
    have ma: "may_access ?l i q = may_access w i q" for i q by (simp add: may_access_def cl)
    show fr: "free_descriptor ?l = free_descriptor w" by (simp add: free_descriptor_def)
    show "open_result path fl ?l = open_result path fl w" unfolding open_result_def same_view(1,8) [OF sv] ma fr ..
    show "new_handle ?l n fl = new_handle w n fl" for n by (simp add: new_handle_def same_view(1) [OF sv])
  qed
  define u where "u = snd (opened (open_result path fl w) fl w)"
  have u: "live u" "unlocked u"
    using v(2) un by (auto simp: u_def opened_def unlocked_def set_descriptor_def split: sum.splits)
  have "ufs_open_unlocked path fl ?l = (fst (opened (open_result path fl w) fl w), locked F_WRLCK u)"
    unfolding run same u_def opened_def locked_updates by (simp split: sum.splits)
  from table_step [OF v(2) un ctx this u] show ?thesis unfolding ufs_open_def by (simp add: u_def)
qed

text \<open>A descriptor on a file of the volume.\<close>

definition volume_open :: "nat \<Rightarrow> world \<Rightarrow> bool" where
  "volume_open k w \<longleftrightarrow> namespace_ok w \<and> idle_open k w \<and> is_file w (fd_number k w) \<and>
     length (descriptor_table w) = UFS_MAX_OPEN_FILES"

lemma volume_openD:
  assumes "volume_open k w"
  shows "namespace_ok w" "is_file w (fd_number k w)" "length (descriptor_table w) = UFS_MAX_OPEN_FILES" "unlocked w"
    "k < UFS_MAX_OPEN_FILES"
  using assms idle_openD(4) open_okD(3) idle_openD(1) unfolding volume_open_def by blast+

lemma open_success:
  assumes ns: "namespace_ok w" and un: "unlocked w" and tab: "length (descriptor_table w) = UFS_MAX_OPEN_FILES"
    and r: "open_result path fl w = Inr n"
  obtains k w1 where "ufs_open path fl w = (Some k, w1)" "volume_open k w1" "file_change n w w1" "fd_number k w1 = n" "fd_position k w1 = 0"
    "fde_flags (descriptor k w1) = fl" "fd_contents k w1 = contents (file_at w n)" "free_descriptor w = Some k"
    "w1 = set_descriptor k (new_handle w n fl) w"
proof -
  have v: "volume_ok w" "live w" using ns volume_okD(2) by (simp_all add: namespace_ok_def)
  obtain k where k: "free_descriptor w = Some k" "k < UFS_MAX_OPEN_FILES" "is_file w n" using opened_file [OF volume_okD(1) [OF v(1)] r] by blast
  define w1 where "w1 = set_descriptor k (new_handle w n fl) w"
  have run: "ufs_open path fl w = (Some k, w1)" using public_open [OF ns un, of path fl] r k(1) by (simp add: opened_def w1_def)
  have b: "blk w1 = blk w" by (simp add: w1_def set_descriptor_def)
  have l1: "live w1" using v(2) by (simp add: w1_def)
  have "same_callers w1 w" by (simp add: w1_def same_callers_def set_descriptor_def)
  note c = tables_change [OF ns k(3) b l1 this]
  note s = same_disk [OF b]
  have n: "n < UFS_MAX_INODES" using k(3) by (simp add: is_file_def used_inodes_def)
  have d: "descriptor k w1 = new_handle w n fl" using k(2) tab by (simp add: w1_def descriptor_def set_descriptor_def)
  have num: "fd_number k w1 = n" using n by (simp add: fd_number_def d new_handle_def unat_of_nat)
  have fo: "file_ok (inode_at w n, w)" using volume_okD(3) [OF v(1)] k(3) by (simp add: file_at_def is_file_def)
  have tab1: "length (descriptor_table w1) = UFS_MAX_OPEN_FILES" using tab by (simp add: w1_def set_descriptor_def)
  have "open_ok k w1" using l1 k(2) num d n fo tab1 by (simp add: open_ok_def fd_file_def s new_handle_def)
  moreover have "unlocked w1" using un by (simp add: w1_def unlocked_def set_descriptor_def)
  ultimately have "volume_open k w1"
    using file_change(1,3) [OF ns k(3) c] num k(3) tab1 by (simp add: volume_open_def idle_open_def)
  moreover have "fd_contents k w1 = contents (file_at w n)" by (simp add: fd_contents_def fd_file_def num s file_at_def)
  moreover have "fd_position k w1 = 0" "fde_flags (descriptor k w1) = fl" by (simp_all add: fd_position_def d new_handle_def)
  ultimately show ?thesis using that [OF run _ c num] k(1) w1_def by simp
qed

lemma close_success:
  assumes o: "volume_open k w"
  shows "ufs_close (int k) w = (Some (), set_descriptor k zero_descriptor w)"
    "file_change (fd_number k w) w (set_descriptor k zero_descriptor w)"
proof -
  have ns: "namespace_ok w" and id: "idle_open k w" and n: "is_file w (fd_number k w)" using o by (simp_all add: volume_open_def)
  let ?l = "locked F_WRLCK w" and ?u = "set_descriptor k zero_descriptor w"
  note il = idle_locked(1) [OF id, of F_WRLCK]
  have run: "ufs_close_unlocked (int k) ?l = (Some (), locked F_WRLCK ?u)"
    unfolding ufs_close_unlocked_def entry_checks(1) [OF il] by (simp add: modify_def ret_def locked_updates)
  have u: "live ?u" "unlocked ?u" using idle_openD(2,4) [OF id] by (simp_all add: unlocked_def set_descriptor_def)
  show "ufs_close (int k) w = (Some (), ?u)"
    unfolding ufs_close_def by (rule table_step [OF idle_openD(2,4) [OF id] context_tables(2) run u])
  show "file_change (fd_number k w) w ?u"
    using u(1) by (intro tables_change [OF ns n]) (simp_all add: same_callers_def set_descriptor_def)
qed

section \<open>Read and write\<close>

text \<open>No public operation changes the credentials or the length of the table.\<close>

definition caller_is :: "u32 \<times> u32 \<times> u32 list \<Rightarrow> world \<Rightarrow> bool" where
  "caller_is c w \<longleftrightarrow> (euid w, egid w, sup_groups w) = c \<and> length (descriptor_table w) = UFS_MAX_OPEN_FILES"

interpretation caller: table_frame "caller_is c" for c
  by unfold_locales (simp_all add: caller_is_def set_offset_def set_descriptor_def descriptor_table_reset_def)

lemma caller_kept:
  assumes "\<And>c. preserves (caller_is c) m" and "m w = (r, w1)" and "length (descriptor_table w) = UFS_MAX_OPEN_FILES"
  shows "same_callers w1 w" "length (descriptor_table w1) = UFS_MAX_OPEN_FILES"
  using preservesD [OF assms(1), of "(euid w, egid w, sup_groups w)" w] assms(2,3) by (simp_all add: caller_is_def same_callers_def)

lemma elsewhere_change:
  assumes o: "volume_open k w" and e: "elsewhere_kept k w w1" and id: "idle_open k w1" and c: "same_callers w1 w"
    and tab: "length (descriptor_table w1) = UFS_MAX_OPEN_FILES"
  shows "file_change (fd_number k w) w w1" "volume_open k w1" "fd_number k w1 = fd_number k w"
    "fde_flags (descriptor k w1) = fde_flags (descriptor k w)"
proof -
  define n where "n = fd_number k w"
  define v where "v = w1\<lparr>descriptor_table := descriptor_table w\<rparr>"
  have ns: "namespace_ok w" and u: "is_file w n" using o by (simp_all add: volume_open_def n_def)
  have sh: "same_handle k w w1" using e by (simp add: elsewhere_kept_def)
  show num: "fd_number k w1 = fd_number k w" and "fde_flags (descriptor k w1) = fde_flags (descriptor k w)"
    using same_handleD [OF sh] by (simp_all add: fd_number_def)
  have at: "inode_at v = inode_at w1" using same_disk(1) [of v w1] by (simp add: v_def)
  have k: "others_kept n (file_at w n) (file_at v n)" and sa: "same_attrs (inode_at w1 n) (inode_at w n)"
    using e at by (simp_all add: elsewhere_kept_def file_at_def fd_file_def n_def v_def [symmetric])
  have "changes {n} w v" using changes_one [OF k] u by (simp add: is_file_def)
  moreover have "inode_used w1 n = inode_used w n" using k same_disk(8) [of v w1] by (simp add: others_kept_def file_at_def v_def)
  moreover have "file_ok (file_at w1 n)" using open_okD(6) [OF idle_openD(1) [OF id]] num by (simp add: file_at_def n_def)
  ultimately show fc: "file_change (fd_number k w) w w1"
    using sa c idle_openD(2) [OF id] by (simp add: file_change_def v_def n_def)
  show "volume_open k w1"
    using file_change(1,3) [OF ns u fc [folded n_def]] id num u tab by (simp add: volume_open_def n_def)
qed

lemma volume_read:
  assumes o: "volume_open k w" and rd: "descriptor_can_read (descriptor k w)" and c: "count \<le> 2 ^ 63 - 1"
  obtains w1 where "ufs_read (int k) count w = (Some (take count (drop (fd_position k w) (fd_contents k w))), w1)"
    "volume_open k w1" "file_change (fd_number k w) w w1" "fd_number k w1 = fd_number k w" "fd_contents k w1 = fd_contents k w"
    "fd_position k w1 = fd_position k w + length (take count (drop (fd_position k w) (fd_contents k w)))"
    "fde_flags (descriptor k w1) = fde_flags (descriptor k w)"
    "only_atime (inode_at w1 (fd_number k w)) (inode_at w (fd_number k w))" "\<And>m. m \<noteq> k \<Longrightarrow> descriptor m w1 = descriptor m w"
proof -
  obtain w1 where w1: "ufs_read (int k) count w = (Some (take count (drop (fd_position k w) (fd_contents k w))), w1)"
    "idle_open k w1" "fd_contents k w1 = fd_contents k w" "elsewhere_kept k w w1"
    "fd_position k w1 = fd_position k w + length (take count (drop (fd_position k w) (fd_contents k w)))"
    "only_atime (inode_at w1 (fd_number k w)) (inode_at w (fd_number k w))"
    using public_read [OF _ rd c] o by (auto simp: volume_open_def)
  have other: "\<And>m. m \<noteq> k \<Longrightarrow> descriptor m w1 = descriptor m w" using w1(4) by (simp add: elsewhere_kept_def)
  note e = elsewhere_change [OF o w1(4,2) caller_kept [OF caller.transfers_keep(1) w1(1) volume_openD(3) [OF o]]]
  show ?thesis by (rule that [OF w1(1) e(2,1,3) w1(3,5) e(4) w1(6) other])
qed

lemma volume_write:
  assumes o: "volume_open k w" and wr: "descriptor_can_write (descriptor k w)" and buf: "buf \<noteq> []" "length buf \<le> 2 ^ 63 - 1"
    and run: "ufs_write (int k) buf w = (r, w1)"
  shows "volume_open k w1" "file_change (fd_number k w) w w1" "fd_number k w1 = fd_number k w"
    "fde_flags (descriptor k w1) = fde_flags (descriptor k w)"
    "r = Some m \<Longrightarrow> m = length buf \<and> fd_contents k w1 = overlay (write_start k w) buf
          (resize (max (length (fd_contents k w)) (write_start k w + length buf)) (fd_contents k w)) \<and>
        fd_position k w1 = write_start k w + length buf"
    "r = None \<Longrightarrow> fd_contents k w1 = fd_contents k w \<and> length (fd_contents k w) < write_start k w + length buf \<and>
        fd_position k w1 = write_start k w \<and> errno w1 = (if UFS_MAX_FILE_BLOCKS * 512 < write_start k w + length buf then EFBIG else ENOSPC)"
proof -
  have id: "idle_open k w" using o by (simp add: volume_open_def)
  note p = public_write [OF id wr buf, unfolded run prod.case]
  have k: "idle_open k w1" "elsewhere_kept k w w1" using p by (cases r; simp)+
  note e = elsewhere_change [OF o k(2,1) caller_kept [OF caller.transfers_keep(2) run volume_openD(3) [OF o]]]
  show "volume_open k w1" "file_change (fd_number k w) w w1" "fd_number k w1 = fd_number k w"
    "fde_flags (descriptor k w1) = fde_flags (descriptor k w)" by (rule e)+
  show "r = Some m \<Longrightarrow> m = length buf \<and> fd_contents k w1 = overlay (write_start k w) buf
          (resize (max (length (fd_contents k w)) (write_start k w + length buf)) (fd_contents k w)) \<and>
        fd_position k w1 = write_start k w + length buf"
    "r = None \<Longrightarrow> fd_contents k w1 = fd_contents k w \<and> length (fd_contents k w) < write_start k w + length buf \<and>
        fd_position k w1 = write_start k w \<and> errno w1 = (if UFS_MAX_FILE_BLOCKS * 512 < write_start k w + length buf then EFBIG else ENOSPC)"
    using p by simp_all
qed

section \<open>Truncation by path\<close>

definition truncate_target :: "string \<Rightarrow> world \<Rightarrow> errno + nat" where
  "truncate_target path w =
     (if \<not> valid_path path then Inl EINVAL
      else case walk w False 39 (components path) of Inl e \<Rightarrow> Inl e | Inr n \<Rightarrow>
        if ino_type (inode_at w n) = UFS_TYPE_DIR then Inl EISDIR
        else if ino_type (inode_at w n) \<noteq> UFS_TYPE_FILE then Inl EINVAL
        else if \<not> may_access w (inode_at w n) W_OK then Inl EACCES else Inr n)"

definition resized_file :: "nat \<Rightarrow> u64 \<Rightarrow> unit option \<Rightarrow> world \<Rightarrow> world \<Rightarrow> bool" where
  "resized_file n sz r w w1 \<longleftrightarrow> (case r of
      Some _ \<Rightarrow> unat sz \<le> UFS_MAX_FILE_BLOCKS * 512 \<and> contents (file_at w1 n) = resize (unat sz) (contents (file_at w n))
    | None \<Rightarrow> contents (file_at w1 n) = contents (file_at w n) \<and> length (contents (file_at w n)) < unat sz \<and>
        errno w1 = (if UFS_MAX_FILE_BLOCKS * 512 < unat sz then EFBIG else ENOSPC))"

lemma truncate_path_error:
  assumes ok: "tree_ok w" and e: "truncate_target path w = Inl e"
  shows "ufs_truncate_unlocked path sz w = (None, w\<lparr>errno := e\<rparr>)"
proof -
  have l: "script w = []" "ufs_mounted w" "live w" using tree_okD(1,2) [OF ok] unfolding live_def by blast+
  note res = resolve_run [OF ok, of path UFS_RESOLVE_FOLLOW_FINAL]
  show ?thesis
  proof (cases "valid_path path")
    case True
    show ?thesis
    proof (cases "walk w False 39 (components path)")
      case (Inl d)
      then show ?thesis using res True e l
        by (simp add: ufs_truncate_unlocked_def asking_def resolve_path_def run_simps outcome_def truncate_target_def)
    next
      case (Inr n)
      have "n < UFS_MAX_INODES" using walk_used [OF ok Inr] by (simp add: used_inodes_def)
      then show ?thesis using res True Inr e l access_run [OF l(1), of W_OK "inode_at w n"]
        by (auto simp: ufs_truncate_unlocked_def asking_def resolve_path_def run_simps io_simps outcome_def truncate_target_def
            require_def fail_def split: if_splits)
    qed
  next
    case False
    then show ?thesis using res e l
      by (simp add: ufs_truncate_unlocked_def asking_def resolve_path_def run_simps truncate_target_def)
  qed
qed

lemma truncate_path_run:
  assumes v: "volume_ok w" and t: "truncate_target path w = Inr n"
  obtains r w1 where "ufs_truncate_unlocked path sz w = (r, w1)" "is_file w n" "live w1" "descriptor_table w1 = descriptor_table w"
    "changes {n} w w1" "file_ok (file_at w1 n)" "inode_used w1 n = inode_used w n" "same_attrs (inode_at w1 n) (inode_at w n)"
    "resized_file n sz r w w1"
proof -
  have ok: "tree_ok w" and l: "live w" "script w = []" using volume_okD(1) [OF v] tree_okD by blast+
  have g: "valid_path path" "walk w False 39 (components path) = Inr n" "ino_type (inode_at w n) = UFS_TYPE_FILE"
      "may_access w (inode_at w n) W_OK"
    using t by (auto simp: truncate_target_def split: if_splits sum.splits)
  have u: "n \<in> used_inodes w" by (rule walk_used [OF ok g(2)])
  then have f: "is_file w n" and n: "n < UFS_MAX_INODES" using g(3) by (simp_all add: is_file_def used_inodes_def)
  define i where "i = inode_at w n"
  have fo: "file_ok (i, w)" using volume_okD(3) [OF v u] by (simp add: file_at_def i_def)
  have len: "length (contents (i, w)) = unat (ino_size i)" by (simp add: file_size_def)
  have mounted: "ufs_mounted w" using l(1) unfolding live_def by blast
  have run: "ufs_truncate_unlocked path sz w =
      on_ok (with_inode (ufs_truncate_inode n sz) i) (\<lambda>inode. on_ok (ufs_touch_mtime_ctime inode) (persist_inode n)) w"
    using resolve_run [OF ok, of path UFS_RESOLVE_FOLLOW_FINAL] g l n mounted access_run [OF l(2), of W_OK i]
    by (simp add: ufs_truncate_unlocked_def asking_def resolve_path_def run_simps io_simps outcome_def i_def)
  obtain r j x where tr: "ufs_truncate_inode n sz (i, w) = (r, (j, x))" by (metis prod.exhaust)
  note e = truncate_run [OF l(1) fo n, of sz, unfolded tr prod.case]
  have k: "others_kept n (i, w) (j, x)" "file_ok (j, x)" using e by (cases r; simp)+
  have at: "inode_at x n = j" and sa: "same_attrs j i" using e same_meta_attrs by (cases r; auto simp: i_def)+
  have x: "live x" "descriptor_table x = descriptor_table w" "inode_used x = inode_used w" using k(1) by (simp_all add: others_kept_def)
  have ch: "changes {n} w x" using changes_one [of n w x] k(1) u at by (simp add: file_at_def i_def)
  show ?thesis
  proof (cases r)
    case None
    have "ufs_truncate_unlocked path sz w = (None, x)" unfolding run using tr None by (simp add: with_inode_def run_simps)
    moreover have "resized_file n sz None w x"
      using e None at len by (simp add: resized_file_def file_at_def i_def word_less_nat_alt)
    ultimately show ?thesis using that [OF _ f x(1,2) ch] k(2) at sa x(3) by (simp add: file_at_def i_def)
  next
    case (Some a)
    obtain t tk where tm: "ufs_touch_mtime_ctime j x = (Some (j\<lparr>ino_mtime := t, ino_ctime := t\<rparr>), x\<lparr>ticks := tk\<rparr>)"
      using touch_calm(1) [OF live_script [OF x(1)]] by blast
    define y where "y = x\<lparr>ticks := tk\<rparr>"
    define j1 where "j1 = j\<lparr>ino_mtime := t, ino_ctime := t\<rparr>"
    have y: "blk y = blk x" "live y" "descriptor_table y = descriptor_table x" using x(1) by (simp_all add: y_def blk_def fun_eq_iff)
    have oy: "file_ok (j, y)" "contents (j, y) = contents (j, x)" using file_blk [OF y(1)] k(2) by simp_all
    have j1: "ino_wf j1" "same_pointers j1 j" "ino_size j1 = ino_size j" "same_attrs j1 j"
      using file_wf_ino [OF file_okD(1) [OF k(2)]] by (simp_all add: j1_def ino_wf_def same_pointers_def same_attrs_def)
    obtain w1 where w1: "persist_inode n j1 y = (Some (), w1)" "live w1" "file_ok (j1, w1)" "contents (j1, w1) = contents (j, y)"
      "\<forall>m < UFS_MAX_INODES. inode_at w1 m = (if m = n then j1 else inode_at y m)" "descriptor_table w1 = descriptor_table y"
      "others_kept n (j, y) (j1, w1)"
      using persist_file [OF y(2) oy(1) n j1(1-3)] by blast
    have a1: "inode_at w1 n = j1" using w1(5) n by simp
    have "others_kept n (j, x) (j1, w1)" using others_kept_views [OF w1(7), of x w1] y w1(2,6) by simp
    then have ok1: "others_kept n (i, w) (j1, w1)" by (rule others_kept_trans [OF k(1)])
    have "ufs_truncate_unlocked path sz w = (Some (), w1)"
      unfolding run using tr Some tm w1(1) by (simp add: with_inode_def run_simps j1_def y_def)
    moreover have "changes {n} w w1" using changes_one [of n w w1] ok1 u a1 by (simp add: file_at_def i_def)
    moreover have "resized_file n sz (Some ()) w w1"
      using e Some a1 w1(4) oy(2) by (simp add: resized_file_def file_at_def i_def)
    ultimately show ?thesis
      using that [OF _ f w1(2)] w1(3,6) y(3) x(2) a1 same_attrs_trans [OF j1(4) sa] ok1
      by (simp add: file_at_def i_def others_kept_def)
  qed
qed

lemma same_view_target: "same_view v w \<Longrightarrow> truncate_target path v = truncate_target path w"
proof -
  assume sv: "same_view v w"
  then have ma: "may_access v i q = may_access w i q" for i q by (simp add: may_access_def same_view_def)
  show ?thesis unfolding truncate_target_def same_view(1,8) [OF sv] ma ..
qed

lemma public_truncate:
  assumes ns: "namespace_ok w" and un: "unlocked w"
  shows "case truncate_target path w of
      Inl e \<Rightarrow> ufs_truncate path sz w = (None, w\<lparr>errno := e\<rparr>)
    | Inr n \<Rightarrow> (case ufs_truncate path sz w of (r, w1) \<Rightarrow> is_file w n \<and> file_change n w w1 \<and> namespace_ok w1 \<and> unlocked w1 \<and>
        descriptor_table w1 = descriptor_table w \<and> resized_file n sz r w w1)"
proof -
  have v: "volume_ok w" "live w" using ns volume_okD(2) by (simp_all add: namespace_ok_def)
  let ?l = "locked F_WRLCK w"
  have sv: "same_view ?l w" by simp
  have nl: "namespace_ok ?l" by (rule same_view_namespace [OF sv ns])
  then have vl: "volume_ok ?l" by (simp add: namespace_ok_def)
  have tgt: "truncate_target path ?l = truncate_target path w" by (rule same_view_target [OF sv])
  have ctx: "preserves (in_context c) (ufs_truncate_unlocked path sz)" for c
    unfolding ufs_truncate_unlocked_def by (intro preserves_intros; simp)
  show ?thesis
  proof (cases "truncate_target path w")
    case (Inl e)
    have "ufs_truncate_unlocked path sz ?l = (None, locked F_WRLCK (w\<lparr>errno := e\<rparr>))"
      using truncate_path_error [OF volume_okD(1) [OF vl]] tgt Inl by (simp add: locked_updates)
    from table_step [OF v(2) un ctx this] v(2) un Inl show ?thesis by (simp add: ufs_truncate_def unlocked_def)
  next
    case (Inr n)
    obtain r u where run: "ufs_truncate_unlocked path sz ?l = (r, u)" and f: "is_file ?l n" "live u" "descriptor_table u = descriptor_table ?l"
      "changes {n} ?l u" "file_ok (file_at u n)" "inode_used u n = inode_used ?l n" "same_attrs (inode_at u n) (inode_at ?l n)"
      "resized_file n sz r ?l u"
      using truncate_path_run [OF vl] tgt Inr by metis
    have cu: "same_callers u ?l"
      using preservesD [OF ctx, of "context_of ?l" ?l] run by (simp add: in_context_def context_of_def same_callers_def)
    have "u\<lparr>descriptor_table := descriptor_table ?l\<rparr> = u" using f(3) by (cases u) simp
    then have fcl: "file_change n ?l u" unfolding file_change_def using f cu by (simp only: simp_thms)
    have vu: "volume_ok u" using file_change(1) [OF nl f(1) fcl] by (simp add: namespace_ok_def)
    note pub = public_step [OF v(1) _ ctx run vu]
    have d: "lock_depth w = 0" using un by (simp add: unlocked_def)
    have trunc: "ufs_truncate path sz w = (r, released u)" using pub(1) [OF d] by (simp add: ufs_truncate_def)
    have b: "blk (released u) = blk u" "blk ?l = blk w" by simp_all
    note su = same_disk [OF b(1)] and sw = same_disk [OF b(2)]
    have fw: "is_file w n" using f(1) by (simp add: is_file_def sw)
    have "changes {n} w (released u)" using same_view_changes [OF same_view_sym [OF sv] pub(2) [OF d]] f(4) by blast
    then have "changes {n} w ((released u)\<lparr>descriptor_table := descriptor_table w\<rparr>)"
      using f(3) by (cases u) (simp add: released_def)
    moreover have "file_ok (file_at (released u) n)" using f(5) by (simp add: su(5,9)) (simp add: file_at_def)
    moreover have "same_callers (released u) w" using cu by (simp add: same_callers_def released_def locked_def)
    ultimately have fc: "file_change n w (released u)"
      using f(2,6,7) by (simp add: file_change_def su(1,8) sw(1,8))
    have "resized_file n sz r w (released u)" using f(8) by (simp add: resized_file_def file_at_def su(1,10) sw(1,10) cong: option.case_cong)
    then show ?thesis
      using Inr trunc fw fc file_change(1) [OF ns fw fc] pub(3) [OF d] f(3) by simp
  qed
qed

section \<open>A sample\<close>

text \<open>The empty file \<open>/a\<close> in an otherwise empty root directory.\<close>

definition ready :: "world \<Rightarrow> bool" where
  "ready w \<longleftrightarrow> namespace_ok w \<and> unlocked w \<and> length (descriptor_table w) = UFS_MAX_OPEN_FILES"

definition sample_file :: world where
  "sample_file = snd (ufs_create ''/a'' sample_tree)"

lemma sample_file:
  shows "ready sample_file" "contents (file_at sample_file 1) = []" "is_file sample_file 1" "truncate_target ''/a'' sample_file = Inr 1"
    "legal_flags fl \<Longrightarrow> open_result ''/a'' fl sample_file = Inr 1" "free_descriptor sample_file = Some 0"
    "may_access sample_file i q"
proof -
  obtain w1 where c: "ufs_create ''/a'' sample_tree = (Some (), w1)" "namespace_ok w1" "created 0 ''a'' UFS_TYPE_FILE sample_tree w1 1"
      "walk w1 False 39 [''a''] = Inr 1" "unlocked w1" "descriptor_table w1 = descriptor_table sample_tree" "euid w1 = 0"
    using sample_node [of ufs_create UFS_TYPE_FILE] by blast
  have w1: "sample_file = w1" using c(1) by (simp add: sample_file_def)
  have t: "descriptor_table w1 = replicate UFS_MAX_OPEN_FILES zero_descriptor"
    unfolding c(6) by (simp add: sample_tree_def put_inode_def claim_inode_def flushed_def add_free_inodes_def) (simp add: blank_world_def)
  show "ready sample_file" using c(2,5) t by (simp add: ready_def w1)
  show fd: "free_descriptor sample_file = Some 0"
    by (simp add: free_descriptor_def first_from_Some w1 t zero_descriptor_def)
  show ma: "may_access sample_file i q" for i q using c(7) by (simp add: may_access_def w1)
  have ty: "ino_type (inode_at w1 1) = UFS_TYPE_FILE" using c(3) by (simp add: created_def new_node_def)
  then show "is_file sample_file 1" using c(3) by (simp add: is_file_def w1 created_def new_node_def)
  show "contents (file_at sample_file 1) = []" using c(3) by (simp add: w1 created_def new_node_def)
  have vp: "valid_path ''/a''" "components ''/a'' = [''a'']"
    by (simp_all add: valid_path_def path_of_in_iff path_parts.simps valid_component_def components_def)
  show "truncate_target ''/a'' sample_file = Inr 1" "legal_flags fl \<Longrightarrow> open_result ''/a'' fl sample_file = Inr 1"
    using c(4) vp ty ma fd by (simp_all add: truncate_target_def open_result_def w1)
qed

section \<open>Properties\<close>

text \<open>C9: Opening a file. On a well-formed volume \<open>ufs_open\<close> fails exactly as \<open>open_result\<close> says, in this order:
  EINVAL for illegal flags or a malformed path, the error of walking the path, EISDIR for a directory, EINVAL for anything else
  that is no file, EACCES when the caller may not read or write as the flags ask, EMFILE when all 32 descriptors
  are in use; only \<open>errno\<close> is changed then. Otherwise the lowest free descriptor is open on the file the path
  leads to, at position 0 and with the current generation of its inode, and nothing else is changed.\<close>

theorem open_spec:
  assumes "namespace_ok w" and "unlocked w" and "length (descriptor_table w) = UFS_MAX_OPEN_FILES"
  shows "case open_result path fl w of
      Inl e \<Rightarrow> ufs_open path fl w = (None, w\<lparr>errno := e\<rparr>)
    | Inr n \<Rightarrow> \<exists>k w1. ufs_open path fl w = (Some k, w1) \<and> free_descriptor w = Some k \<and>
        w1 = set_descriptor k (new_handle w n fl) w \<and> volume_open k w1 \<and> fd_number k w1 = n \<and> fd_position k w1 = 0 \<and>
        fde_flags (descriptor k w1) = fl \<and> fd_contents k w1 = contents (file_at w n)"
proof (cases "open_result path fl w")
  case (Inl e)
  then show ?thesis using public_open [OF assms(1,2), of path fl] by (simp add: opened_def)
next
  case (Inr n)
  then show ?thesis using open_success [OF assms Inr] by (simp only: sum.case) metis
qed

theorem open_spec_witness:
  "case ufs_open ''/a'' UFS_O_RDWR sample_file of (r, w1) \<Rightarrow> r = Some 0 \<and> volume_open 0 w1 \<and> fd_contents 0 w1 = []"
proof -
  have fl: "legal_flags UFS_O_RDWR" by (simp add: legal_flags_def)
  have "namespace_ok sample_file" "unlocked sample_file" "length (descriptor_table sample_file) = UFS_MAX_OPEN_FILES"
    using sample_file(1) by (simp_all only: ready_def)
  from open_spec [OF this, of "''/a''" UFS_O_RDWR] show ?thesis
    unfolding sample_file(5) [OF fl] sample_file(6) sum.case by (auto simp: sample_file(2) [simplified])
qed

text \<open>C14: Truncation by path. On a well-formed volume \<open>ufs_truncate\<close> fails exactly as \<open>truncate_target\<close> says, in this
  order: EINVAL for a malformed path, the error of walking it, EISDIR, EINVAL for anything else that is no file,
  EACCES without write permission; only \<open>errno\<close> is changed then. Otherwise the file is cut or padded with zeros to the new
  size, or keeps its bytes, with EFBIG beyond the largest file size and ENOSPC when the data region is full. In both cases the
  volume is well formed, no other file or directory changes, and the lock is free.\<close>

theorem truncate_path_spec:
  assumes "namespace_ok w" and "unlocked w"
  shows "case truncate_target path w of
      Inl e \<Rightarrow> ufs_truncate path sz w = (None, w\<lparr>errno := e\<rparr>)
    | Inr n \<Rightarrow> (case ufs_truncate path sz w of (r, w1) \<Rightarrow> namespace_ok w1 \<and> unlocked w1 \<and>
        descriptor_table w1 = descriptor_table w \<and> used_inodes w1 = used_inodes w \<and>
        (\<forall>m \<in> used_inodes w - {n}. inode_at w1 m = inode_at w m \<and> contents (file_at w1 m) = contents (file_at w m)) \<and>
        (\<forall>d. is_dir w d \<longrightarrow> dir_map d w1 = dir_map d w) \<and>
        (case r of
           Some _ \<Rightarrow> unat sz \<le> UFS_MAX_FILE_BLOCKS * 512 \<and> contents (file_at w1 n) = resize (unat sz) (contents (file_at w n))
         | None \<Rightarrow> contents (file_at w1 n) = contents (file_at w n) \<and> length (contents (file_at w n)) < unat sz \<and>
             errno w1 = (if UFS_MAX_FILE_BLOCKS * 512 < unat sz then EFBIG else ENOSPC)))"
proof (cases "truncate_target path w")
  case (Inl e)
  then show ?thesis using public_truncate [OF assms, of path sz] by simp
next
  case (Inr n)
  obtain r w1 where run: "ufs_truncate path sz w = (r, w1)" by fastforce
  note t = public_truncate [OF assms, of path sz, unfolded Inr run sum.case prod.case resized_file_def]
  have "is_file w n" "file_change n w w1" using t by blast+
  note c = file_change(2,4,6) [OF assms(1) this]
  show ?thesis unfolding Inr run sum.case prod.case using t c by blast
qed

theorem truncate_path_spec_witness:
  "case ufs_truncate ''/a'' 3 sample_file of (r, w1) \<Rightarrow>
     contents (file_at w1 1) = (case r of None \<Rightarrow> [] | Some _ \<Rightarrow> [0, 0, 0]) \<and> namespace_ok w1"
proof -
  have pre: "namespace_ok sample_file" "unlocked sample_file" using sample_file(1) by (simp_all only: ready_def)
  have three: "resize (unat (3 :: u64)) [] = [0, 0, 0]" by (simp add: resize_def) (simp add: numeral_eq_Suc)
  show ?thesis using truncate_path_spec [OF pre, of "''/a''" 3]
    unfolding sample_file(2,4) three sum.case by (auto split: option.splits)
qed

end
