(* ===== verification/Ufs_Commands.thy ===== *)
theory Ufs_Commands
  imports Ufs_Session Ufs_Files
begin

text \<open>
  What two commands of the shell do on a well-formed volume, down to the disk and back: \<open>cat\<close> prints the
  bytes of the file, and \<open>write\<close> followed by \<open>cat\<close> prints the text that was written.
\<close>

section \<open>Copying a file to the terminal\<close>

lemma drop_add: "drop (length ys) (drop m xs) = drop (m + length ys) xs"
  by (simp add: add.commute)

lemma drop_take_length: "take c xs @ drop (length (take c xs)) xs = xs"
  by (cases "length xs \<le> c") simp_all

lemma copy_run:
  assumes "volume_open k w" and "descriptor_can_read (descriptor k w)"
  shows "\<exists>w1. copy_loop what k c (s, w) = c (s\<lparr>printed := printed s @ text_of (drop (fd_position k w) (fd_contents k w))\<rparr>, w1) \<and>
    volume_open k w1 \<and> file_change (fd_number k w) w w1 \<and> fd_number k w1 = fd_number k w \<and> fd_contents k w1 = fd_contents k w \<and>
    only_atime (inode_at w1 (fd_number k w)) (inode_at w (fd_number k w)) \<and> (\<forall>m. m \<noteq> k \<longrightarrow> descriptor m w1 = descriptor m w)"
  using assms
proof (induction "length (fd_contents k w) - fd_position k w" arbitrary: s w rule: less_induct)
  case less
  define bs where "bs = take 256 (drop (fd_position k w) (fd_contents k w))"
  obtain u where u: "ufs_read (int k) 256 w = (Some bs, u)" "volume_open k u" "file_change (fd_number k w) w u"
    "fd_number k u = fd_number k w" "fd_contents k u = fd_contents k w" "fd_position k u = fd_position k w + length bs"
    "descriptor_can_read (descriptor k u)" "only_atime (inode_at u (fd_number k w)) (inode_at w (fd_number k w))"
    "\<And>m. m \<noteq> k \<Longrightarrow> descriptor m u = descriptor m w"
    by (rule volume_read [OF less.prems, of 256], simp) (use that less.prems(2) in \<open>auto simp: bs_def descriptor_can_read_def\<close>)
  show ?case
  proof (cases "bs = []")
    case True
    then have "drop (fd_position k w) (fd_contents k w) = []" by (simp add: bs_def)
    then show ?thesis using u(1-5,8,9) True by (intro exI [of _ u]) (subst copy_loop.simps, simp add: text_of_def)
  next
    case False
    have rest: "drop (fd_position k w) (fd_contents k w) = bs @ drop (fd_position k u) (fd_contents k u)"
      unfolding u(5,6) bs_def drop_add [symmetric] by (rule drop_take_length [symmetric])
    have "length (fd_contents k u) - fd_position k u < length (fd_contents k w) - fd_position k w"
      using False unfolding u(5,6) by (simp add: bs_def)
    from less.hyps [OF this u(2,7), of "s\<lparr>printed := printed s @ text_of bs\<rparr>"]
    obtain w1 where w1: "copy_loop what k c (s\<lparr>printed := printed s @ text_of bs\<rparr>, u) =
        c (s\<lparr>printed := printed s @ text_of bs @ text_of (drop (fd_position k u) (fd_contents k u))\<rparr>, w1)"
      "volume_open k w1" "file_change (fd_number k u) u w1" "fd_number k w1 = fd_number k u" "fd_contents k w1 = fd_contents k u"
      "only_atime (inode_at w1 (fd_number k u)) (inode_at u (fd_number k u))" "\<forall>m. m \<noteq> k \<longrightarrow> descriptor m w1 = descriptor m u"
      by auto
    have "copy_loop what k c (s, w) = copy_loop what k c (s\<lparr>printed := printed s @ text_of bs\<rparr>, u)"
      using u(1) False by (subst copy_loop.simps) simp
    then show ?thesis
      using w1 u(3-5,9) rest file_change_trans [OF u(3), of w1] only_atime_trans [OF _ u(8)]
      by (intro exI [of _ w1]) (simp add: text_of_def)
  qed
qed

text \<open>The shell accepts the path \<open>input\<close> as \<open>path\<close>.\<close>

definition accepts :: "shell \<Rightarrow> string \<Rightarrow> string \<Rightarrow> world \<Rightarrow> bool" where
  "accepts s input path w \<longleftrightarrow> mounted s \<and> normalize_shell_path (current_directory s) (Some input) w = (Some path, w)"

lemma resolve_accepted:
  "accepts s input path w \<Longrightarrow> require_shell_mount err (resolve_shell_path (Some input) False err2 k) (s, w) = k path (s, w)"
  by (simp add: accepts_def require_shell_mount_def resolve_shell_path_def with_shell_def calling_def)

lemma closed_ready:
  assumes o: "volume_open k w"
  shows "ready (set_descriptor k zero_descriptor w)" "free_descriptor (set_descriptor k zero_descriptor w) \<noteq> None"
proof -
  note v = volume_openD [OF o]
  show "ready (set_descriptor k zero_descriptor w)"
    using file_change(1) [OF v(1,2) close_success(2) [OF o]] v(3,4) by (simp add: ready_def unlocked_def set_descriptor_def)
  have "\<not> fde_in_use (descriptor_table (set_descriptor k zero_descriptor w) ! k)"
    using v(3,5) by (simp add: set_descriptor_def zero_descriptor_def)
  then show "free_descriptor (set_descriptor k zero_descriptor w) \<noteq> None"
    using v(5) by (auto simp: free_descriptor_def first_from_None)
qed

definition cat_text :: "string \<Rightarrow> bytes \<Rightarrow> string" where
  "cat_text path bs = line (''----- '' @ path @ '' -----'') @ text_of bs @ line [] @ line ''------------------------------''"

lemma cat_command_run:
  assumes a: "accepts s input path w" and w: "ready w" and r: "open_result path UFS_O_RDONLY w = Inr n"
  obtains w1 where "command_cat (Some input) (s, w) = Some (s\<lparr>printed := printed s @ cat_text path (contents (file_at w n))\<rparr>, w1)"
    "file_change n w w1" "ready w1" "contents (file_at w1 n) = contents (file_at w n)" "only_atime (inode_at w1 n) (inode_at w n)"
    "descriptor_table w1 = (descriptor_table w)[the (free_descriptor w) := zero_descriptor]"
proof -
  obtain k u where u: "ufs_open path UFS_O_RDONLY w = (Some k, u)" "volume_open k u" "file_change n w u" "fd_number k u = n"
      "fd_position k u = 0" "fde_flags (descriptor k u) = UFS_O_RDONLY" "fd_contents k u = contents (file_at w n)"
      "free_descriptor w = Some k" "u = set_descriptor k (new_handle w n UFS_O_RDONLY) w"
    using open_success [OF _ _ _ r] w by (metis ready_def)
  have rd: "descriptor_can_read (descriptor k u)" using u(6) by (simp add: descriptor_can_read_def)
  define close where "close = print (line [] @ line ''------------------------------'')
      (calling (ufs_close (int k)) (print_error ''cat close'' stop) (\<lambda>_. stop))"
  define s1 where "s1 = s\<lparr>printed := printed s @ line (''----- '' @ path @ '' -----'')\<rparr>"
  obtain v where v: "copy_loop ''cat'' k close (s1, u) = close (s1\<lparr>printed := printed s1 @ text_of (fd_contents k u)\<rparr>, v)"
      "volume_open k v" "file_change n u v" "fd_number k v = n" "fd_contents k v = fd_contents k u"
      "only_atime (inode_at v n) (inode_at u n)" "\<forall>m. m \<noteq> k \<longrightarrow> descriptor m v = descriptor m u"
    using copy_run [OF u(2) rd, of "''cat''" close s1] u(4,5) by auto
  let ?w = "set_descriptor k zero_descriptor v"
  have run: "command_cat (Some input) (s, w) = copy_loop ''cat'' k close (s1, u)"
    by (simp add: command_cat_def resolve_accepted [OF a] calling_def [of "ufs_open path UFS_O_RDONLY"] u(1) close_def s1_def)
      (simp add: print_def [of "line (_ @ path @ _)"] print_def [of "line (_ # _)"])
  have "command_cat (Some input) (s, w) = Some (s\<lparr>printed := printed s @ cat_text path (contents (file_at w n))\<rparr>, ?w)"
    unfolding run v(1) u(7)
    by (simp add: close_def print_def calling_def close_success(1) [OF v(2)] stop_def s1_def cat_text_def)
  moreover have "file_change n w ?w"
    using file_change_trans [OF file_change_trans [OF u(3) v(3)]] close_success(2) [OF v(2)] v(4) by simp
  moreover have "contents (file_at ?w n) = contents (file_at w n)"
    using v(4,5) u(7) same_disk [of ?w v] by (simp add: fd_contents_def fd_file_def file_at_def)
  moreover have "only_atime (inode_at ?w n) (inode_at w n)"
    using v(6) same_disk(1) [of ?w v] same_disk(1) [of u w] u(9) by simp
  moreover have "descriptor_table ?w = (descriptor_table w)[the (free_descriptor w) := zero_descriptor]"
  proof (rule nth_equalityI)
    show "length (descriptor_table ?w) = length ((descriptor_table w)[the (free_descriptor w) := zero_descriptor])"
      using w volume_openD(3) [OF v(2)] by (simp add: ready_def set_descriptor_def)
    show "descriptor_table ?w ! m = (descriptor_table w)[the (free_descriptor w) := zero_descriptor] ! m"
      if "m < length (descriptor_table ?w)" for m
      using that v(7) w volume_openD(3) [OF v(2)]
      by (cases "m = k") (simp_all add: u(8,9) ready_def set_descriptor_def descriptor_def)
  qed
  ultimately show ?thesis using that closed_ready(1) [OF v(2)] by blast
qed

section \<open>Writing a file from the terminal\<close>

lemma whole_overlay: "overlay 0 bs (resize (length bs) []) = bs"
  by (simp add: overlay_def resize_def)

text \<open>A file that may be opened for writing may be truncated.\<close>

lemma open_target:
  assumes "open_result path UFS_O_WRONLY w = Inr n"
  shows "truncate_target path w = Inr n" "free_descriptor w \<noteq> None"
  using assms by (auto simp: open_result_def truncate_target_def open_request_def split: if_splits sum.splits)

text \<open>What a change of a file leaves of the ways to open it.\<close>

lemma file_change_open:
  assumes w: "ready w" and n: "is_file w n" and c: "file_change n w w1" and r: "open_result path fl w = Inr n"
    and fl: "legal_flags fl1" "may_access w (inode_at w n) (open_request fl1)" and d: "free_descriptor w1 \<noteq> None"
  shows "open_result path fl1 w1 = Inr n"
proof -
  have g: "valid_path path" "walk w False 39 (components path) = Inr n" "ino_type (inode_at w n) = UFS_TYPE_FILE"
    using r by (auto simp: open_result_def split: if_splits sum.splits)
  have ns: "namespace_ok w" using w by (simp add: ready_def)
  have at: "same_attrs (inode_at w1 n) (inode_at w n)" "same_callers w1 w" using c by (simp_all add: file_change_def)
  have "may_access w1 (inode_at w1 n) q = may_access w (inode_at w n) q" for q
    using at by (simp add: may_access_def access_class_def same_attrs_def same_callers_def)
  then show ?thesis
    using g fl d at(1) file_change(7) [OF ns n c] by (simp add: open_result_def same_attrs_def)
qed

definition write_outcome :: "string \<Rightarrow> string \<Rightarrow> nat \<Rightarrow> shell \<Rightarrow> world \<Rightarrow> shell \<times> world \<Rightarrow> bool" where
  "write_outcome path text n s w x \<longleftrightarrow> (case x of (s1, w1) \<Rightarrow>
     (s1 = s\<lparr>printed := printed s @ line (''OK: wrote '' @ dec (length text) @ '' byte(s) to '' @ path @ ''.'')\<rparr> \<and>
        contents (file_at w1 n) = map byte_of_char text) \<or>
     (\<exists>e \<in> {EFBIG, ENOSPC}. s1 = s\<lparr>printed := printed s @ line (''ERROR: write: '' @ messages s e)\<rparr> \<and>
        contents (file_at w1 n) = []))"

lemma write_command_run:
  assumes a: "accepts s input path w" and w: "ready w" and r: "open_result path UFS_O_WRONLY w = Inr n"
    and t: "text \<noteq> []" "length text \<le> 2 ^ 63 - 1"
  obtains s1 w1 where "command_write (Some input) (Some text) False (s, w) = Some (s1, w1)" "write_outcome path text n s w (s1, w1)"
    "is_file w n" "file_change n w w1" "ready w1" "free_descriptor w1 \<noteq> None"
proof -
  have ns: "namespace_ok w" and un: "unlocked w" and tab: "length (descriptor_table w) = UFS_MAX_OPEN_FILES"
    using w by (simp_all add: ready_def)
  note g = open_target [OF r]
  obtain u where u: "ufs_truncate path 0 w = (Some (), u)" and f: "is_file w n" "file_change n w u" "namespace_ok u" "unlocked u"
      "descriptor_table u = descriptor_table w" "contents (file_at u n) = []"
    using public_truncate [OF ns un, of path 0] g(1)
    by (cases "ufs_truncate path 0 w"; cases "fst (ufs_truncate path 0 w)") (auto simp: resized_file_def resize_def)
  have ru: "ready u" using f tab by (simp add: ready_def)
  have fl: "legal_flags UFS_O_WRONLY" "may_access w (inode_at w n) (open_request UFS_O_WRONLY)"
    using r by (auto simp: open_result_def split: if_splits sum.splits)
  have "free_descriptor u \<noteq> None" using g(2) f(5) by (simp add: free_descriptor_def)
  then have ou: "open_result path UFS_O_WRONLY u = Inr n" by (rule file_change_open [OF w f(1,2) r fl])
  obtain k v where v: "ufs_open path UFS_O_WRONLY u = (Some k, v)" "volume_open k v" "file_change n u v" "fd_number k v = n"
      "fd_position k v = 0" "fde_flags (descriptor k v) = UFS_O_WRONLY" "fd_contents k v = []"
    using open_success [OF f(3,4) _ ou] f(5,6) tab by metis
  have wr: "descriptor_can_write (descriptor k v)" "write_start k v = 0"
    using v(5,6) by (simp_all add: descriptor_can_write_def write_start_def)
  define buf where "buf = map byte_of_char text"
  have buf: "buf \<noteq> []" "length buf \<le> 2 ^ 63 - 1" "length buf = length text" using t by (simp_all add: buf_def)
  obtain m x where wx: "ufs_write (int k) buf v = (m, x)" by fastforce
  note e = volume_write [OF v(2) wr(1) buf(1,2) wx]
  let ?w = "set_descriptor k zero_descriptor x"
  have fx: "file_change n w ?w"
    using file_change_trans [OF file_change_trans [OF file_change_trans [OF f(2) v(3)]]] e(2,3) v(4) close_success(2) [OF e(1)] by simp
  have cont: "contents (file_at ?w n) = fd_contents k x"
    using v(4) e(3) same_disk [of ?w x] by (simp add: fd_contents_def fd_file_def file_at_def)
  have run: "command_write (Some input) (Some text) False (s, w) =
      (let failed = print_error ''write'' (closing k stop) in
       calling (ufs_write (int k) buf) failed (\<lambda>amount. if amount \<noteq> length text then failed else
         calling (ufs_close (int k)) (print_error ''close'' stop) (\<lambda>_.
           print (line (''OK: wrote '' @ dec (length text) @ '' byte(s) to '' @ path @ ''.'')) stop)) (s, v))"
    by (simp add: command_write_def Let_def resolve_accepted [OF a] buf_def)
      (simp add: calling_def [of "ufs_truncate path 0"] calling_def [of "ufs_open path UFS_O_WRONLY"] u v(1))
  obtain s1 where "command_write (Some input) (Some text) False (s, w) = Some (s1, ?w)" "write_outcome path text n s w (s1, ?w)"
  proof (cases m)
    case None
    then have "errno x \<in> {EFBIG, ENOSPC}" "fd_contents k x = []" using e(6) v(7) by auto
    moreover have "command_write (Some input) (Some text) False (s, w) =
        Some (s\<lparr>printed := printed s @ line (''ERROR: write: '' @ messages s (errno x))\<rparr>, ?w)"
      unfolding run using None
      by (simp add: calling_def wx print_error_def with_shell_def with_world_def print_def closing_def close_success(1) [OF e(1)] stop_def)
    ultimately show ?thesis using that cont unfolding write_outcome_def by auto
  next
    case (Some l)
    then have l: "l = length text" "fd_contents k x = buf" using e(5) [OF Some] wr(2) v(7) buf(3) whole_overlay [of buf] by simp_all
    have "command_write (Some input) (Some text) False (s, w) =
        Some (s\<lparr>printed := printed s @ line (''OK: wrote '' @ dec (length text) @ '' byte(s) to '' @ path @ ''.'')\<rparr>, ?w)"
      unfolding run using Some l(1) by (simp add: calling_def wx print_def close_success(1) [OF e(1)] stop_def)
    then show ?thesis using that cont l(2) unfolding write_outcome_def buf_def by auto
  qed
  then show ?thesis using that [OF _ _ f(1) fx] closed_ready [OF e(1)] by blast
qed

text \<open>Whether a path is accepted does not depend on the world.\<close>

lemma accepts_any:
  assumes cwd: "valid_path (current_directory s)" and a: "accepts s input path w"
  shows "accepts s input path v"
  using a by (auto simp: accepts_def normalize_shell_path_run [OF cwd] split: if_splits option.splits)

section \<open>A sample\<close>

definition sample_shell :: shell where
  "sample_shell = \<lparr>mounted = True, image_path = ''i'', current_directory = ''/'', messages = (\<lambda>_. ''?''), printed = []\<rparr>"

lemma sample_accepts: "valid_path (current_directory sample_shell)" "accepts sample_shell ''a'' ''/a'' w"
proof -
  have "valid_path ''/''" "components ''/'' = []" by (simp_all add: valid_path_examples components_def path_parts.simps)
  then show "valid_path (current_directory sample_shell)" "accepts sample_shell ''a'' ''/a'' w"
    by (simp_all add: accepts_def sample_shell_def normalize_shell_path_run path_parts.simps path_of_def)
qed

section \<open>Properties\<close>

text \<open>C26: The command \<open>cat\<close>. On a mounted, well-formed volume, with a path that the shell accepts and that leads
  to a file the caller may read, it ends after printing a heading with the path, exactly the bytes of
  the file, however many reads that takes, and a closing line. Afterwards the descriptor that it opened, the lowest free one, is
  closed and every other one is as before; the same inodes are in use, each with the contents it had; the
  inode of the file has at most another access time and every other inode is as before; every path leads where it led,
  the namespace is well formed and the lock is free.\<close>

theorem cat_spec:
  assumes "mounted s" and "normalize_shell_path (current_directory s) (Some input) w = (Some path, w)"
    and "namespace_ok w" and "unlocked w" and "length (descriptor_table w) = UFS_MAX_OPEN_FILES"
    and "open_result path UFS_O_RDONLY w = Inr n"
  shows "\<exists>w1. command_cat (Some input) (s, w) =
      Some (s\<lparr>printed := printed s @ line (''----- '' @ path @ '' -----'') @ map char_of_byte (contents (file_at w n)) @
        line [] @ line ''------------------------------''\<rparr>, w1) \<and>
    namespace_ok w1 \<and> unlocked w1 \<and> contents (file_at w1 n) = contents (file_at w n) \<and> walk w1 = walk w \<and>
    (\<forall>m \<in> used_inodes w - {n}. inode_at w1 m = inode_at w m \<and> contents (file_at w1 m) = contents (file_at w m)) \<and>
    used_inodes w1 = used_inodes w \<and> (\<exists>t. inode_at w1 n = (inode_at w n)\<lparr>ino_atime := t\<rparr>) \<and>
    (\<exists>k. free_descriptor w = Some k \<and> descriptor_table w1 = (descriptor_table w)[k := zero_descriptor])"
proof -
  have a: "accepts s input path w" and r: "ready w" using assms by (simp_all add: accepts_def ready_def)
  obtain w1 where w1: "command_cat (Some input) (s, w) = Some (s\<lparr>printed := printed s @ cat_text path (contents (file_at w n))\<rparr>, w1)"
    "file_change n w w1" "ready w1" "contents (file_at w1 n) = contents (file_at w n)" "only_atime (inode_at w1 n) (inode_at w n)"
    "descriptor_table w1 = (descriptor_table w)[the (free_descriptor w) := zero_descriptor]"
    by (rule cat_command_run [OF a r assms(6)])
  have t: "tree_ok w" using assms(3) by (simp add: namespace_ok_def volume_ok_def)
  obtain k where k: "free_descriptor w = Some k" "is_file w n" by (rule opened_file [OF t assms(6)])
  note c = file_change(4,7,2) [OF assms(3) k(2) w1(2)]
  have "walk w1 = walk w" by (intro ext) (rule c(2))
  moreover obtain at where "inode_at w1 n = (inode_at w n)\<lparr>ino_atime := at\<rparr>" using w1(5) by (auto simp: only_atime_def)
  ultimately show ?thesis using w1(1,3,4,6) c(1,3) k(1)
    by (intro exI [of _ w1] conjI exI [of _ at] exI [of _ k]) (simp_all add: ready_def cat_text_def text_of_def)
qed

theorem cat_spec_witness:
  "\<exists>w1. command_cat (Some ''a'') (sample_shell, sample_file) =
     Some (sample_shell\<lparr>printed := ''----- /a -----'' @ [CHR 0x0A, CHR 0x0A] @ ''------------------------------'' @ [CHR 0x0A]\<rparr>, w1)"
proof -
  have pre: "namespace_ok sample_file" "unlocked sample_file" "length (descriptor_table sample_file) = UFS_MAX_OPEN_FILES"
    "mounted sample_shell" "normalize_shell_path (current_directory sample_shell) (Some ''a'') sample_file = (Some ''/a'', sample_file)"
    using sample_file(1) sample_accepts(2) [of sample_file] by (simp_all only: ready_def accepts_def)
  have fl: "legal_flags UFS_O_RDONLY" by (simp add: legal_flags_def)
  show ?thesis
    using cat_spec [OF pre(4,5,1-3) sample_file(5) [OF fl]] unfolding sample_file(2)
    by (auto simp: line_def sample_shell_def)
qed

text \<open>C16: Writing and reading back at the prompt. On a mounted, well-formed volume, \<open>write\<close> of a text to a file that
  the caller may write either says how many bytes it wrote and leaves exactly the text in the file, or reports EFBIG or
  ENOSPC and leaves the file empty; no other file is changed and the volume stays well formed. \<open>cat\<close> of the
  same path then prints what is in the file: the text, if the write said it succeeded.\<close>

theorem write_then_cat:
  assumes "mounted s" and "valid_path (current_directory s)"
    and "normalize_shell_path (current_directory s) (Some input) w = (Some path, w)"
    and "namespace_ok w" and "unlocked w" and "length (descriptor_table w) = UFS_MAX_OPEN_FILES"
    and "open_result path UFS_O_WRONLY w = Inr n" and "may_access w (inode_at w n) R_OK"
    and "t \<noteq> []" and "length t \<le> 2 ^ 63 - 1"
  shows "\<exists>s1 w1 w2 stored. command_write (Some input) (Some t) False (s, w) = Some (s1, w1) \<and> namespace_ok w1 \<and>
    (s1 = s\<lparr>printed := printed s @ line (''OK: wrote '' @ dec (length t) @ '' byte(s) to '' @ path @ ''.'')\<rparr> \<and> stored = t \<or>
     (\<exists>e \<in> {EFBIG, ENOSPC}. s1 = s\<lparr>printed := printed s @ line (''ERROR: write: '' @ messages s e)\<rparr>) \<and> stored = []) \<and>
    (\<forall>m \<in> used_inodes w - {n}. inode_at w1 m = inode_at w m \<and> contents (file_at w1 m) = contents (file_at w m)) \<and>
    command_cat (Some input) (s1, w1) = Some (s1\<lparr>printed := printed s1 @ line (''----- '' @ path @ '' -----'') @ stored @
        line [] @ line ''------------------------------''\<rparr>, w2)"
proof -
  have a: "accepts s input path w" and rd: "ready w" using assms(1,3-6) by (simp_all add: accepts_def ready_def)
  obtain s1 w1 where w1: "command_write (Some input) (Some t) False (s, w) = Some (s1, w1)" "write_outcome path t n s w (s1, w1)"
      "is_file w n" "file_change n w w1" "ready w1" "free_descriptor w1 \<noteq> None"
    by (rule write_command_run [OF a rd assms(7,9,10)])
  note c = file_change(4) [OF assms(4) w1(3,4)]
  have fl: "legal_flags UFS_O_RDONLY" "open_request UFS_O_RDONLY = R_OK" by (simp_all add: legal_flags_def open_request_def)
  have ro: "open_result path UFS_O_RDONLY w1 = Inr n"
    by (rule file_change_open [OF rd w1(3,4) assms(7) fl(1) _ w1(6)]) (simp only: fl(2) assms(8))
  have "mounted s1" "current_directory s1 = current_directory s"
    using w1(2) assms(1) by (auto simp: write_outcome_def)
  then have "accepts s1 input path w1" using accepts_any [OF assms(2) a, of w1] by (simp add: accepts_def)
  then obtain w2 where w2: "command_cat (Some input) (s1, w1) = Some (s1\<lparr>printed := printed s1 @ cat_text path (contents (file_at w1 n))\<rparr>, w2)"
    by (rule cat_command_run [OF _ w1(5) ro])
  define stored where "stored = text_of (contents (file_at w1 n))"
  have "s1 = s\<lparr>printed := printed s @ line (''OK: wrote '' @ dec (length t) @ '' byte(s) to '' @ path @ ''.'')\<rparr> \<and> stored = t \<or>
     (\<exists>e \<in> {EFBIG, ENOSPC}. s1 = s\<lparr>printed := printed s @ line (''ERROR: write: '' @ messages s e)\<rparr>) \<and> stored = []"
    using w1(2) by (auto simp: write_outcome_def stored_def text_of_def comp_def)
  then show ?thesis using w1(1,5) c w2 by (intro exI [of _ s1] exI [of _ w1] exI [of _ w2] exI [of _ stored])
      (simp add: ready_def cat_text_def stored_def)
qed

theorem write_then_cat_witness:
  "case command_write (Some ''a'') (Some ''hi'') False (sample_shell, sample_file) of
     None \<Rightarrow> False
   | Some (s1, w1) \<Rightarrow> \<exists>w2 stored. stored \<in> {''hi'', []} \<and> command_cat (Some ''a'') (s1, w1) =
       Some (s1\<lparr>printed := printed s1 @ line ''----- /a -----'' @ stored @ line [] @ line ''------------------------------''\<rparr>, w2)"
proof -
  have pre: "namespace_ok sample_file" "unlocked sample_file" "length (descriptor_table sample_file) = UFS_MAX_OPEN_FILES"
    "mounted sample_shell" "normalize_shell_path (current_directory sample_shell) (Some ''a'') sample_file = (Some ''/a'', sample_file)"
    using sample_file(1) sample_accepts(2) [of sample_file] by (simp_all only: ready_def accepts_def)
  have fl: "legal_flags UFS_O_WRONLY" by (simp add: legal_flags_def)
  have "''hi'' \<noteq> []" "length ''hi'' \<le> 2 ^ 63 - 1" by simp_all
  from write_then_cat [OF pre(4) sample_accepts(1) pre(5,1-3) sample_file(5) [OF fl] sample_file(7) this]
  obtain s1 w1 w2 stored where w: "command_write (Some ''a'') (Some ''hi'') False (sample_shell, sample_file) = Some (s1, w1)"
      "stored = ''hi'' \<or> stored = []" "command_cat (Some ''a'') (s1, w1) =
       Some (s1\<lparr>printed := printed s1 @ line (''----- '' @ ''/a'' @ '' -----'') @ stored @ line [] @ line ''------------------------------''\<rparr>, w2)"
    by blast
  then have "stored \<in> {''hi'', []}" by blast
  then show ?thesis using w(1,3) by auto
qed

end
