(* ===== verification/Ufs_Cursor.thy ===== *)
theory Ufs_Cursor
  imports Ufs_Files
begin

text \<open>
  What a sequence of reads, writes and seeks through one descriptor does, as an abstract file: the bytes
  and the position, and the reply to each call.
\<close>

section \<open>Calls\<close>

datatype file_call = CallRead nat | CallWrite bytes | CallSeek u64 int

datatype file_reply = GotBytes "bytes option" | GotCount "nat option" | GotPosition "u64 option"

fun call_file :: "nat \<Rightarrow> file_call \<Rightarrow> world \<Rightarrow> file_reply \<times> world" where
  "call_file k (CallRead count) w = map_prod GotBytes id (ufs_read (int k) count w)"
| "call_file k (CallWrite buf) w = map_prod GotCount id (ufs_write (int k) buf w)"
| "call_file k (CallSeek offset whence) w = map_prod GotPosition id (ufs_seek (int k) offset whence w)"

fun call_files :: "nat \<Rightarrow> file_call list \<Rightarrow> world \<Rightarrow> file_reply list \<times> world" where
  "call_files k [] w = ([], w)"
| "call_files k (c # cs) w = (case call_file k c w of (r, w) \<Rightarrow> (case call_files k cs w of (rs, w) \<Rightarrow> (r # rs, w)))"

section \<open>The abstract file\<close>

type_synonym cursor = "bytes \<times> nat"

text \<open>The next state after a call with its reply; \<open>None\<close> when the call never has this reply.\<close>

fun cursor_next :: "u32 \<Rightarrow> file_call \<Rightarrow> file_reply \<Rightarrow> cursor \<Rightarrow> cursor option" where
  "cursor_next fl (CallRead count) (GotBytes r) (bs, p) =
     (let got = take count (drop p bs) in
      if fl AND UFS_O_RDWR = UFS_O_WRONLY \<or> 2 ^ 63 - 1 < count then if r = None then Some (bs, p) else None
      else if r = Some got then Some (bs, p + length got) else None)"
| "cursor_next fl (CallWrite buf) (GotCount r) (bs, p) =
     (let start = (if fl AND UFS_O_APPEND \<noteq> 0 then length bs else p); after = start + length buf in
      if fl AND UFS_O_RDWR = UFS_O_RDONLY \<or> 2 ^ 63 - 1 < length buf then if r = None then Some (bs, p) else None
      else if buf = [] then if r = Some 0 then Some (bs, p) else None
      else case r of
        Some m \<Rightarrow> if m = length buf then Some (overlay start buf (resize (max (length bs) after) bs), after) else None
      | None \<Rightarrow> if length bs < after then Some (bs, start) else None)"
| "cursor_next fl (CallSeek offset whence) (GotPosition r) (bs, p) =
     (let base = (if whence = SEEK_SET then 0 else if whence = SEEK_CUR then int p else int (length bs));
          new = base + sint offset in
      if whence \<notin> {SEEK_SET, SEEK_CUR, SEEK_END} \<or> new < 0 \<or> 2 ^ 63 - 1 < new then if r = None then Some (bs, p) else None
      else if r = Some (of_int new) then Some (bs, nat new) else None)"
| "cursor_next fl _ _ _ = None"

fun cursor_run :: "u32 \<Rightarrow> (file_call \<times> file_reply) list \<Rightarrow> cursor \<Rightarrow> cursor option" where
  "cursor_run fl [] x = Some x"
| "cursor_run fl ((c, r) # h) x = (case cursor_next fl c r x of None \<Rightarrow> None | Some y \<Rightarrow> cursor_run fl h y)"

definition cursor_of :: "nat \<Rightarrow> world \<Rightarrow> cursor" where
  "cursor_of k w = (fd_contents k w, fd_position k w)"

section \<open>One call\<close>

definition proper_open :: "nat \<Rightarrow> world \<Rightarrow> bool" where
  "proper_open k w \<longleftrightarrow> volume_open k w \<and> fd_position k w \<le> 2 ^ 63 - 1"

text \<open>The file behind the descriptor, and that only it changes.\<close>

definition same_open :: "nat \<Rightarrow> world \<Rightarrow> world \<Rightarrow> bool" where
  "same_open k w w1 \<longleftrightarrow> file_change (fd_number k w) w w1 \<and> fd_number k w1 = fd_number k w \<and>
     fde_flags (descriptor k w1) = fde_flags (descriptor k w)"

lemma same_open_trans: "same_open k w u \<Longrightarrow> same_open k u w1 \<Longrightarrow> same_open k w w1"
  using file_change_trans by (auto simp: same_open_def)

lemma contents_fit:
  assumes "volume_open k w" shows "length (fd_contents k w) \<le> UFS_MAX_FILE_BLOCKS * 512"
  using assms file_okD(2) [OF open_okD(6) [OF idle_openD(1)]]
  by (auto simp: volume_open_def fd_contents_def fd_file_def file_size_def)

text \<open>A call that changes at most \<open>errno\<close> or the position.\<close>

lemma table_call:
  assumes o: "volume_open k w"
  shows "volume_open k (w\<lparr>errno := e\<rparr>)" "same_open k w (w\<lparr>errno := e\<rparr>)" "cursor_of k (w\<lparr>errno := e\<rparr>) = cursor_of k w"
    "volume_open k (set_offset k p w)" "same_open k w (set_offset k p w)" "cursor_of k (set_offset k p w) = (fd_contents k w, unat p)"
proof -
  have id: "idle_open k w" using o by (simp add: volume_open_def)
  note op = idle_openD(1) [OF id] and v = volume_openD [OF o]
  have b: "blk (w\<lparr>errno := e\<rparr>) = blk w" "blk (set_offset k p w) = blk w" by (simp_all add: blk_def fun_eq_iff)
  have l: "live (w\<lparr>errno := e\<rparr>)" "live (set_offset k p w)" using idle_openD(2) [OF id] by simp_all
  have c: "same_callers (w\<lparr>errno := e\<rparr>) w" "same_callers (set_offset k p w) w"
    by (simp_all add: same_callers_def set_offset_def set_descriptor_def)
  note fc = tables_change [OF v(1,2) b(1) l(1) c(1)] tables_change [OF v(1,2) b(2) l(2) c(2)]
  have d: "descriptor k (w\<lparr>errno := e\<rparr>) = descriptor k w" by (simp add: descriptor_def)
  have n: "fd_number k (w\<lparr>errno := e\<rparr>) = fd_number k w" by (simp add: fd_number_def d)
  note so = open_set_offset [OF op, of p]
  have un: "unlocked (w\<lparr>errno := e\<rparr>)" "unlocked (set_offset k p w)"
    using v(4) by (simp_all add: unlocked_def set_offset_def set_descriptor_def)
  show "volume_open k (w\<lparr>errno := e\<rparr>)" "volume_open k (set_offset k p w)"
    using file_change(1,3) [OF v(1,2) fc(1)] file_change(1,3) [OF v(1,2) fc(2)] open_errno(1) [OF op] so(1,3) v(2,3) un n
    by (simp_all add: volume_open_def idle_open_def set_offset_def set_descriptor_def)
  show "same_open k w (w\<lparr>errno := e\<rparr>)" "same_open k w (set_offset k p w)"
    using fc n d so(3) open_okD(2) [OF op] by (simp_all add: same_open_def)
  show "cursor_of k (w\<lparr>errno := e\<rparr>) = cursor_of k w" "cursor_of k (set_offset k p w) = (fd_contents k w, unat p)"
    using open_errno(2) so(2,4) by (simp_all add: cursor_of_def fd_position_def d)
qed

text \<open>The calls that return before the file is looked at.\<close>

lemma early_calls:
  assumes o: "volume_open k w"
  shows "\<not> descriptor_can_read (descriptor k w) \<Longrightarrow> ufs_read (int k) count w = (None, w\<lparr>errno := EBADF\<rparr>)"
    "descriptor_can_read (descriptor k w) \<Longrightarrow> 2 ^ 63 - 1 < count \<Longrightarrow> ufs_read (int k) count w = (None, w\<lparr>errno := EINVAL\<rparr>)"
    "\<not> descriptor_can_write (descriptor k w) \<Longrightarrow> ufs_write (int k) buf w = (None, w\<lparr>errno := EBADF\<rparr>)"
    "descriptor_can_write (descriptor k w) \<Longrightarrow> ufs_write (int k) [] w = (Some 0, w)"
    "descriptor_can_write (descriptor k w) \<Longrightarrow> 2 ^ 63 - 1 < length buf \<Longrightarrow> ufs_write (int k) buf w = (None, w\<lparr>errno := EINVAL\<rparr>)"
proof -
  have id: "idle_open k w" using o by (simp add: volume_open_def)
  let ?l = "locked F_WRLCK w"
  note l = idle_openD(2,4) [OF id]
  note checks = entry_checks(1) [OF idle_locked(1) [OF id, of F_WRLCK]] and d = idle_locked(4) [OF id, of F_WRLCK]
  have u: "live (w\<lparr>errno := e\<rparr>)" "unlocked (w\<lparr>errno := e\<rparr>)" for e using l by (simp_all add: unlocked_def)
  note read_step = table_step [OF l ctx.quiet_ranges(1), folded ufs_read_def]
    and write_step = table_step [OF l ctx.quiet_ranges(2), folded ufs_write_def]
  show "ufs_read (int k) count w = (None, w\<lparr>errno := EBADF\<rparr>)" if "\<not> descriptor_can_read (descriptor k w)"
    by (rule read_step [OF _ u]) (use that in \<open>simp add: ufs_read_unlocked_def checks asking_def d require_def fail_def locked_updates\<close>)
  show "ufs_read (int k) count w = (None, w\<lparr>errno := EINVAL\<rparr>)" if "descriptor_can_read (descriptor k w)" "2 ^ 63 - 1 < count"
    by (rule read_step [OF _ u]) (use that in \<open>simp add: ufs_read_unlocked_def checks asking_def d require_def fail_def locked_updates\<close>)
  show "ufs_write (int k) buf w = (None, w\<lparr>errno := EBADF\<rparr>)" if "\<not> descriptor_can_write (descriptor k w)"
    by (rule write_step [OF _ u]) (use that in \<open>simp add: ufs_write_unlocked_def checks asking_def d require_def fail_def locked_updates\<close>)
  show "ufs_write (int k) [] w = (Some 0, w)" if "descriptor_can_write (descriptor k w)"
    by (rule write_step [OF _ l]) (use that in \<open>simp add: ufs_write_unlocked_def checks asking_def d require_def ret_def\<close>)
  show "ufs_write (int k) buf w = (None, w\<lparr>errno := EINVAL\<rparr>)" if "descriptor_can_write (descriptor k w)" "2 ^ 63 - 1 < length buf"
    by (rule write_step [OF _ u]) (use that in \<open>auto simp: ufs_write_unlocked_def checks asking_def d require_def fail_def locked_updates\<close>)
qed

definition call_done :: "nat \<Rightarrow> file_call \<Rightarrow> file_reply \<Rightarrow> world \<Rightarrow> world \<Rightarrow> bool" where
  "call_done k c r w w1 \<longleftrightarrow> proper_open k w1 \<and> same_open k w w1 \<and>
     cursor_next (fde_flags (descriptor k w)) c r (cursor_of k w) = Some (cursor_of k w1)"

lemma unchanged_call:
  assumes o: "proper_open k w" and n: "cursor_next (fde_flags (descriptor k w)) c r (cursor_of k w) = Some (cursor_of k w)"
  shows "call_done k c r w (w\<lparr>errno := e\<rparr>)" "call_done k c r w w"
proof -
  have v: "volume_open k w" "fd_position k w \<le> 2 ^ 63 - 1" using o by (simp_all add: proper_open_def)
  note t = table_call(1-3) [OF v(1)]
  have "fd_position k (w\<lparr>errno := e\<rparr>) = fd_position k w" for e using t(3) [of e] by (simp add: cursor_of_def)
  then show d: "call_done k c r w (w\<lparr>errno := e\<rparr>)" for e using t n v(2) by (simp add: call_done_def proper_open_def)
  show "call_done k c r w w" using d [of "errno w"] by simp
qed

lemma read_call:
  assumes o: "proper_open k w" and run: "ufs_read (int k) count w = (r, w1)"
  shows "call_done k (CallRead count) (GotBytes r) w w1"
proof -
  have v: "volume_open k w" "fd_position k w \<le> 2 ^ 63 - 1" using o by (simp_all add: proper_open_def)
  let ?d = "descriptor k w"
  consider "\<not> descriptor_can_read ?d" | "descriptor_can_read ?d" "2 ^ 63 - 1 < count" | "descriptor_can_read ?d" "count \<le> 2 ^ 63 - 1"
    by linarith
  then show ?thesis
  proof cases
    case 1
    then show ?thesis using early_calls(1) [OF v(1)] run unchanged_call(1) [OF o]
      by (auto simp: cursor_of_def descriptor_can_read_def)
  next
    case 2
    then show ?thesis using early_calls(2) [OF v(1)] run unchanged_call(1) [OF o]
      by (auto simp: cursor_of_def)
  next
    case 3
    define got where "got = take count (drop (fd_position k w) (fd_contents k w))"
    have w1: "r = Some got" "volume_open k w1" "same_open k w w1" "fd_contents k w1 = fd_contents k w"
        "fd_position k w1 = fd_position k w + length got"
      using volume_read [OF v(1) 3] run unfolding got_def same_open_def by (metis Pair_inject)+
    have "length got \<le> length (fd_contents k w) - fd_position k w" by (simp add: got_def)
    then have "fd_position k w1 \<le> 2 ^ 63 - 1" using w1(5) contents_fit [OF v(1)] v(2) by auto
    then show ?thesis using w1 3
      by (simp add: call_done_def proper_open_def cursor_of_def descriptor_can_read_def Let_def got_def [symmetric])
  qed
qed

lemma write_call:
  assumes o: "proper_open k w" and run: "ufs_write (int k) buf w = (r, w1)"
  shows "call_done k (CallWrite buf) (GotCount r) w w1"
proof -
  have v: "volume_open k w" "fd_position k w \<le> 2 ^ 63 - 1" using o by (simp_all add: proper_open_def)
  let ?d = "descriptor k w"
  consider "\<not> descriptor_can_write ?d" | "descriptor_can_write ?d" "2 ^ 63 - 1 < length buf" | "descriptor_can_write ?d" "buf = []"
    | "descriptor_can_write ?d" "buf \<noteq> []" "length buf \<le> 2 ^ 63 - 1"
    by linarith
  then show ?thesis
  proof cases
    case 1
    then show ?thesis using early_calls(3) [OF v(1)] run unchanged_call(1) [OF o]
      by (auto simp: cursor_of_def descriptor_can_write_def Let_def)
  next
    case 2
    then show ?thesis using early_calls(5) [OF v(1)] run unchanged_call(1) [OF o]
      by (auto simp: cursor_of_def Let_def)
  next
    case 3
    then show ?thesis using early_calls(4) [OF v(1)] run unchanged_call(2) [OF o]
      by (auto simp: cursor_of_def descriptor_can_write_def Let_def)
  next
    case 4
    note e = volume_write [OF v(1) 4 run]
    have so: "same_open k w w1" using e(2-4) by (simp add: same_open_def)
    have st: "write_start k w = (if fde_flags ?d AND UFS_O_APPEND \<noteq> 0 then length (fd_contents k w) else fd_position k w)"
      by (simp add: write_start_def)
    have start: "write_start k w \<le> 2 ^ 63 - 1" using contents_fit [OF v(1)] v(2) by (simp add: st)
    have "fd_position k w1 \<le> 2 ^ 63 - 1"
    proof (cases r)
      case None
      then show ?thesis using e(6) start by simp
    next
      case (Some m)
      then show ?thesis using e(5) [OF Some] contents_fit [OF e(1)] 4(2) by (simp add: overlay_def resize_def)
    qed
    then show ?thesis
      using e(1) so e(5,6) 4(1,2) 4(3) [folded not_less] by (cases r) (auto simp: call_done_def proper_open_def cursor_of_def descriptor_can_write_def Let_def st)
  qed
qed

lemma seek_call:
  assumes o: "proper_open k w" and run: "ufs_seek (int k) offset whence w = (r, w1)"
  shows "call_done k (CallSeek offset whence) (GotPosition r) w w1"
proof -
  have v: "volume_open k w" "fd_position k w \<le> 2 ^ 63 - 1" using o by (simp_all add: proper_open_def)
  then have id: "idle_open k w" by (simp add: volume_open_def)
  note run = run [unfolded public_seek [OF id v(2)]]
  define base where "base = (if whence = SEEK_SET then 0 else if whence = SEEK_CUR then int (fd_position k w) else int (length (fd_contents k w)))"
  define new where "new = base + sint offset"
  show ?thesis
  proof (cases "whence \<notin> {SEEK_SET, SEEK_CUR, SEEK_END} \<or> new < 0 \<or> 2 ^ 63 - 1 < new")
    case True
    then have "r = None \<and> w1 = w\<lparr>errno := EINVAL\<rparr>"
      using run by (auto simp: seek_base_def base_def new_def split: if_splits)
    then show ?thesis using True unchanged_call(1) [OF o] by (auto simp: cursor_of_def Let_def base_def new_def)
  next
    case False
    then have r: "r = Some (of_int new)" "w1 = set_offset k (of_int new) w"
      using run by (auto simp: seek_base_def base_def new_def split: if_splits)
    have "unat (of_int new :: u64) = nat new"
      using False by (simp add: unsigned_of_int take_bit_int_eq_self)
    then have "cursor_of k w1 = (fd_contents k w, nat new)" using table_call(6) [OF v(1)] r(2) by simp
    moreover have "nat new \<le> 2 ^ 63 - 1" using False by (simp add: nat_le_iff)
    ultimately have "proper_open k w1" "cursor_of k w1 = (fd_contents k w, nat new)"
      using table_call(4) [OF v(1)] r(2) by (simp_all add: proper_open_def cursor_of_def)
    then show ?thesis using r False table_call(5) [OF v(1)]
      by (simp add: call_done_def cursor_of_def Let_def base_def [symmetric] new_def [symmetric])
  qed
qed

lemma file_call:
  assumes o: "proper_open k w" and run: "call_file k c w = (r, w1)"
  shows "call_done k c r w w1"
proof (cases c)
  case (CallRead count)
  then obtain r' where "ufs_read (int k) count w = (r', w1)" "r = GotBytes r'" using run by (cases "ufs_read (int k) count w") auto
  then show ?thesis using read_call [OF o] CallRead by simp
next
  case (CallWrite buf)
  then obtain r' where "ufs_write (int k) buf w = (r', w1)" "r = GotCount r'" using run by (cases "ufs_write (int k) buf w") auto
  then show ?thesis using write_call [OF o] CallWrite by simp
next
  case (CallSeek off wh)
  then obtain r' where "ufs_seek (int k) off wh w = (r', w1)" "r = GotPosition r'" using run by (cases "ufs_seek (int k) off wh w") auto
  then show ?thesis using seek_call [OF o] CallSeek by simp
qed

lemma file_calls:
  assumes "proper_open k w" and "call_files k cs w = (rs, w1)"
  shows "length rs = length cs \<and> proper_open k w1 \<and> (cs = [] \<or> same_open k w w1) \<and>
    cursor_run (fde_flags (descriptor k w)) (zip cs rs) (cursor_of k w) = Some (cursor_of k w1)"
  using assms
proof (induction cs arbitrary: w rs)
  case (Cons c cs)
  obtain r u where u: "call_file k c w = (r, u)" by fastforce
  obtain qs where qs: "call_files k cs u = (qs, w1)" "rs = r # qs" using Cons.prems(2) u by (auto split: prod.splits)
  note d = file_call [OF Cons.prems(1) u, unfolded call_done_def]
  have so: "same_open k w u" and f: "fde_flags (descriptor k u) = fde_flags (descriptor k w)" using d by (simp_all add: same_open_def)
  show ?case
    using Cons.IH [OF _ qs(1)] d qs f same_open_trans [OF so, of w1] by (cases cs) auto
qed simp

section \<open>Properties\<close>

text \<open>C4: Reads, writes and seeks implement an abstract file. For any sequence of calls of \<open>ufs_read\<close>,
  \<open>ufs_write\<close> and \<open>ufs_seek\<close> on a descriptor that is open on a file of a well-formed volume, the replies and the final
  bytes and position are those of \<open>cursor_next\<close>, which says for each call what it may reply and what it
  makes of bytes and position, wrong access modes, over-long counts and a full volume included. The volume stays well
  formed; no other inode, file or directory is changed, and every path leads where it led.\<close>

theorem file_history_refines:
  assumes "volume_open k w" and "fd_position k w \<le> 2 ^ 63 - 1" and "call_files k cs w = (rs, w1)"
  shows "length rs = length cs \<and> volume_open k w1 \<and> fd_number k w1 = fd_number k w \<and>
    cursor_run (fde_flags (descriptor k w)) (zip cs rs) (fd_contents k w, fd_position k w) =
      Some (fd_contents k w1, fd_position k w1) \<and>
    used_inodes w1 = used_inodes w \<and>
    (\<forall>m \<in> used_inodes w - {fd_number k w}. inode_at w1 m = inode_at w m \<and> contents (file_at w1 m) = contents (file_at w m)) \<and>
    (\<forall>d. is_dir w d \<longrightarrow> is_dir w1 d \<and> dir_map d w1 = dir_map d w) \<and> walk w1 = walk w"
proof -
  have o: "proper_open k w" using assms(1,2) by (simp add: proper_open_def)
  note h = file_calls [OF o assms(3)]
  note v = volume_openD [OF assms(1)]
  show ?thesis
  proof (cases "cs = []")
    case True
    then show ?thesis using assms by simp
  next
    case False
    then have so: "same_open k w w1" using h by simp
    note c = file_change [OF v(1,2), of w1]
    have "file_change (fd_number k w) w w1" using so by (simp add: same_open_def)
    note c = c [OF this]
    have "walk w1 = walk w" by (intro ext) (rule c(7))
    then show ?thesis using h so c(2,4-6) by (simp add: proper_open_def same_open_def cursor_of_def)
  qed
qed

theorem file_history_refines_witness:
  "case call_files 0 [CallWrite [7, 8], CallSeek 0 SEEK_SET, CallRead 5] (snd (ufs_open ''/a'' UFS_O_RDWR sample_file)) of
    (rs, w1) \<Rightarrow> namespace_ok w1 \<and> (rs ! 0 = GotCount (Some 2) \<longrightarrow> rs ! 2 = GotBytes (Some [7, 8]))"
proof -
  have fl: "legal_flags UFS_O_RDWR" by (simp add: legal_flags_def)
  obtain k w where w: "ufs_open ''/a'' UFS_O_RDWR sample_file = (Some k, w)" "volume_open k w" "fd_position k w = 0"
      "fde_flags (descriptor k w) = UFS_O_RDWR" "fd_contents k w = []" "free_descriptor sample_file = Some k"
    using open_success [OF _ _ _ sample_file(5) [OF fl]] sample_file(1,2) by (metis ready_def)
  have k: "k = 0" using w(6) sample_file(6) by simp
  obtain rs w1 where run: "call_files 0 [CallWrite [7, 8], CallSeek 0 SEEK_SET, CallRead 5] w = (rs, w1)" by fastforce
  have "fd_position 0 w \<le> 2 ^ 63 - 1" using w(3) k by simp
  note sp = file_history_refines [OF w(2) [unfolded k] this run]
  then have "length rs = 3" by simp
  then obtain a b c where rs: "rs = [a, b, c]" by (auto simp: numeral_eq_Suc length_Suc_conv)
  have h: "cursor_run UFS_O_RDWR [(CallWrite [7, 8], a), (CallSeek 0 SEEK_SET, b), (CallRead 5, c)] ([], 0) =
      Some (fd_contents 0 w1, fd_position 0 w1)"
    using sp unfolding w(3-5) [unfolded k] rs by simp
  have "c = GotBytes (Some [7, 8])" if a: "a = GotCount (Some 2)"
    using h unfolding a by (cases b; cases c) (auto simp: Let_def overlay_def resize_def split: if_splits)
  then show ?thesis using sp run rs w(1) by (simp add: volume_open_def)
qed

end
