(* ===== verification/Ufs_Mapped.thy ===== *)
theory Ufs_Mapped
  imports Ufs_Cursor
begin

text \<open>
  Mappings on a well-formed volume: what \<open>ufs_mmap\<close> copies from a file into memory, and what \<open>ufs_msync\<close>
  and \<open>ufs_munmap\<close> copy back.
\<close>

section \<open>Copying a range\<close>

lemma read_range_run:
  assumes l: "live w" and ok: "file_ok (i, w)"
  shows "moved \<le> count \<Longrightarrow> unat off + count \<le> unat (ino_size i) \<Longrightarrow>
    read_range_loop i off count moved buf w = (Some (buf @ field (unat off + moved) (count - moved) (contents (i, w))), w)"
proof (induction "count - moved" arbitrary: moved buf rule: less_induct)
  case less
  show ?case
  proof (cases "moved < count")
    case False
    then show ?thesis using less.prems(1) by (subst read_range_loop.simps) (simp add: field_def)
  next
    case True
    let ?p = "off + of_nat moved"
    let ?c = "chunk_at ?p (count - moved)"
    have up: "unat ?p = unat off + moved"
      using less.prems True file_okD(2) [OF ok] by (intro unat_plus_small) simp
    then have p: "unat ?p < unat (ino_size i)" using less.prems(2) True by simp
    note pb = position_block [OF ok l p]
    have left: "0 < count - moved" using True by simp
    note ch = chunk_bounds [OF pb(6) left]
    have read: "on_ok (mapped_block i ?p) ufs_read_block w = (Some (block_data (i, w) (unat ?p div 512)), w)"
      using pb(1,4) l by (simp add: run_simps io_simps block_data_def)
    have fit: "unat ?p + ?c \<le> unat (ino_size i)" using ch(2) True less.prems(2) up by linarith
    have "field (unat ?p mod 512) ?c (block_data (i, w) (unat ?p div 512)) = field (unat ?p) ?c (contents (i, w))"
      using ch(1) fit by (intro field_block) (simp_all add: file_size_def)
    then have data: "field (inside_block ?p) ?c (block_data (i, w) (unat ?p div 512)) = field (unat off + moved) ?c (contents (i, w))"
      unfolding pb(6) up .
    have h: "count - (moved + ?c) < count - moved" "moved + ?c \<le> count" using ch(2,3) True by linarith+
    note IH = less.hyps [OF h less.prems(2), of "buf @ field (unat off + moved) ?c (contents (i, w))"]
    have "read_range_loop i off count moved buf w =
        read_range_loop i off count (moved + ?c) (buf @ field (unat off + moved) ?c (contents (i, w))) w"
      by (subst read_range_loop.simps) (simp add: Let_def True read data)
    also note IH
    also have "(buf @ field (unat off + moved) ?c (contents (i, w))) @ field (unat off + (moved + ?c)) (count - (moved + ?c)) (contents (i, w)) =
        buf @ field (unat off + moved) (count - moved) (contents (i, w))"
      unfolding append_assoc add.assoc [symmetric] diff_diff_left [symmetric] field_join le_add_diff_inverse [OF ch(2)] by (rule refl)
    finally show ?thesis .
  qed
qed

text \<open>The write loops of \<open>ufs_write\<close> and of a mapping do the same when they complete.\<close>

lemma write_range_loop_same:
  "write_loop k i off buf moved w = (Some (m, True), w1) \<Longrightarrow> write_range_loop i off buf moved w = (Some m, w1)"
proof (induction "length buf - moved" arbitrary: moved w rule: less_induct)
  case less
  define step where "step = on_ok (mapped_block i (off + of_nat moved)) (\<lambda>physical.
      write_chunk physical (inside_block (off + of_nat moved)) (field moved (chunk_at (off + of_nat moved) (length buf - moved)) buf))"
  show ?case
  proof (cases "moved < length buf")
    case False
    then show ?thesis using less.prems by (simp add: write_loop.simps [of k] write_range_loop.simps [of i])
  next
    case True
    let ?c = "chunk_at (off + of_nat moved) (length buf - moved)"
    obtain r u where s: "step w = (r, u)" by fastforce
    have run: "write_loop k i off buf moved w = (case r of
        None \<Rightarrow> if 0 < moved then (Some (moved, False), set_offset k (off + of_nat moved) u) else (None, u)
      | Some _ \<Rightarrow> write_loop k i off buf (moved + ?c) u)"
      using True s by (subst write_loop.simps) (simp add: Let_def step_def [symmetric])
    obtain x where r: "r = Some x" and rest: "write_loop k i off buf (moved + ?c) u = (Some (m, True), w1)"
      using less.prems unfolding run by (cases r) (auto split: if_splits)
    have "length buf - (moved + ?c) < length buf - moved" using True chunk_at_pos [of "length buf - moved" "off + of_nat moved"] by simp
    from less.hyps [OF this rest] show ?thesis
      using True s r by (subst write_range_loop.simps) (simp add: Let_def step_def [symmetric])
  qed
qed

text \<open>A file whose bytes are changed in place, through the inode \<open>n\<close>.\<close>

definition rewritten :: "nat \<Rightarrow> world \<Rightarrow> world \<Rightarrow> bool" where
  "rewritten n w w1 \<longleftrightarrow> others_kept n (inode_at w n, w) (inode_at w1 n, w1) \<and> file_ok (inode_at w1 n, w1) \<and>
     same_attrs (inode_at w1 n) (inode_at w n) \<and> descriptor_table w1 = descriptor_table w"

lemma write_inode_range_run:
  assumes l: "live w" and n: "n < UFS_MAX_INODES" and ok: "file_ok (inode_at w n, w)" and ty: "ino_type (inode_at w n) = UFS_TYPE_FILE"
    and fit: "unat off + length buf \<le> UFS_MAX_FILE_BLOCKS * 512"
  shows "case write_inode_range n (ino_generation (inode_at w n)) buf off w of
      (Some m, w1) \<Rightarrow> m = length buf \<and> rewritten n w w1 \<and> contents (inode_at w1 n, w1) =
        overlay (unat off) buf (resize (max (unat (ino_size (inode_at w n))) (unat off + length buf)) (contents (inode_at w n, w)))
    | (None, w1) \<Rightarrow> rewritten n w w1 \<and> contents (inode_at w1 n, w1) = contents (inode_at w n, w) \<and>
        unat (ino_size (inode_at w n)) < unat off + length buf \<and> errno w1 = ENOSPC"
proof -
  define i where "i = inode_at w n"
  define sz where "sz = off + of_nat (length buf)"
  have sz: "unat sz = unat off + length buf" unfolding sz_def using fit by (intro unat_plus_small) simp
  define tail where "tail inode = on_ok (write_range_loop inode off buf 0) (\<lambda>moved.
      on_ok (ufs_touch_mtime_ctime inode) (\<lambda>inode. on_ok (persist_inode n inode) (\<lambda>_. ret moved)))" for inode
  have small: "\<not> 2 ^ 64 - 1 - unat off < length buf" "\<not> UFS_MAX_MAPPED_FILE_SIZE < sz"
    using fit sz by (simp_all add: word_less_nat_alt)
  have rd: "read_inode n w = (Some i, w)" using l n by (simp add: io_simps i_def)
  have run: "write_inode_range n (ino_generation i) buf off w =
      on_ok (if ino_size i < sz then with_inode (ufs_truncate_inode n sz) i else ret i) tail w"
    unfolding write_inode_range_def Let_def sz_def [symmetric] tail_def
    using small rd ty by (simp add: require_def run_simps i_def [symmetric])
  have finish: "\<exists>w1. tail j u = (Some (length buf), w1) \<and> rewritten n w w1 \<and>
      contents (inode_at w1 n, w1) = overlay (unat off) buf (contents (j, u))"
    if u: "live u" "file_ok (j, u)" "descriptor_table u = descriptor_table w" "others_kept n (i, w) (j, u)" "same_attrs j i"
      "unat sz \<le> unat (ino_size j)" for j u
  proof -
    obtain v where v: "write_loop 0 j off buf 0 u = (Some (length buf, True), v)" "file_step n (j, u) (j, v)" "file_ok (j, v)"
        "contents (j, v) = overlay (unat off) buf (contents (j, u))" "descriptor_table v = descriptor_table u"
      using write_loop_run [OF u(1,2), of 0 buf off 0 n] u(6) sz by auto
    note lv = write_range_loop_same [OF v(1)]
    have l1: "live v" using file_stepD(2) [OF v(2)] by simp
    obtain t tk where t: "ufs_touch_mtime_ctime j v = (Some (j\<lparr>ino_mtime := t, ino_ctime := t\<rparr>), v\<lparr>ticks := tk\<rparr>)"
      using touch_calm(1) [OF live_script [OF l1]] by blast
    define y where "y = v\<lparr>ticks := tk\<rparr>"
    define j1 where "j1 = j\<lparr>ino_mtime := t, ino_ctime := t\<rparr>"
    have y: "blk y = blk v" "live y" "descriptor_table y = descriptor_table v" using l1 by (simp_all add: y_def)
    have oy: "file_ok (j, y)" "contents (j, y) = contents (j, v)" using file_blk [OF y(1)] v(3) by simp_all
    have j1: "ino_wf j1" "same_pointers j1 j" "ino_size j1 = ino_size j" "same_attrs j1 j"
      using file_wf_ino [OF file_okD(1) [OF u(2)]] by (simp_all add: j1_def ino_wf_def same_pointers_def same_attrs_def)
    obtain w1 where w1: "persist_inode n j1 y = (Some (), w1)" "live w1" "file_ok (j1, w1)" "contents (j1, w1) = contents (j, y)"
        "\<forall>m < UFS_MAX_INODES. inode_at w1 m = (if m = n then j1 else inode_at y m)" "descriptor_table w1 = descriptor_table y"
        "others_kept n (j, y) (j1, w1)"
      using persist_file [OF y(2) oy(1) n j1(1-3)] by blast
    have a1: "inode_at w1 n = j1" using w1(5) n by simp
    have "others_kept n (j, v) (j1, w1)" using others_kept_views [OF w1(7), of v w1] y w1(2,6) by simp
    then have "others_kept n (i, w) (j1, w1)"
      by (rule others_kept_trans [OF others_kept_trans [OF u(4) file_stepD(4) [OF v(2)]]])
    then have "rewritten n w w1"
      using w1(3,6) y(3) v(5) u(3) same_attrs_trans [OF j1(4) u(5)] by (simp add: rewritten_def a1 i_def [symmetric])
    moreover have "tail j u = (Some (length buf), w1)"
      using lv t w1(1) by (simp add: tail_def run_simps y_def [symmetric] j1_def [symmetric] ret_def)
    ultimately show ?thesis using w1(4) oy(2) v(4) a1 by (intro exI [of _ w1]) simp
  qed
  have len: "length (contents (i, w)) = unat (ino_size i)" by (simp add: file_size_def)
  show ?thesis
  proof (cases "ino_size i < sz")
    case False
    then have le: "unat sz \<le> unat (ino_size i)" by (simp add: word_less_nat_alt)
    have "others_kept n (i, w) (i, w)" using others_kept_refl [of "(i, w)"] l file_okD(1) [OF ok] by (simp add: i_def)
    from finish [OF l ok [folded i_def] refl this _ le] obtain w1 where
      w1: "tail i w = (Some (length buf), w1)" "rewritten n w w1" "contents (inode_at w1 n, w1) = overlay (unat off) buf (contents (i, w))"
      using same_attrs_refl by blast
    have "resize (max (unat (ino_size i)) (unat off + length buf)) (contents (i, w)) = contents (i, w)"
      using le sz len by (simp add: resize_def max_def)
    then show ?thesis using run w1 False by (simp add: run_simps i_def [symmetric])
  next
    case True
    then have lt: "unat (ino_size i) < unat off + length buf" using sz by (simp add: word_less_nat_alt)
    obtain r j u where tr: "ufs_truncate_inode n sz (i, w) = (r, (j, u))" by (metis prod.exhaust)
    note e = truncate_run [OF l ok [folded i_def] n, of sz, unfolded tr prod.case]
    show ?thesis
    proof (cases r)
      case None
      then have "inode_at u n = j" "same_attrs j i" using e same_meta_attrs by (auto simp: i_def)
      then have "rewritten n w u" using e None by (simp add: rewritten_def i_def [symmetric] others_kept_def)
      then show ?thesis using run e tr None True lt fit sz \<open>inode_at u n = j\<close>
        by (simp add: with_inode_def run_simps i_def [symmetric])
    next
      case (Some x)
      then have f: "others_kept n (i, w) (j, u)" "file_ok (j, u)" "contents (j, u) = resize (unat sz) (contents (i, w))"
          "ino_size j = sz" "same_attrs j i"
        using e by simp_all
      have "live u" "descriptor_table u = descriptor_table w" using f(1) by (simp_all add: others_kept_def)
      from finish [OF this(1) f(2) this(2) f(1,5)] f(4) obtain w1 where
        w1: "tail j u = (Some (length buf), w1)" "rewritten n w w1" "contents (inode_at w1 n, w1) = overlay (unat off) buf (contents (j, u))"
        by auto
      then show ?thesis using run tr Some True lt f(3) sz by (simp add: with_inode_def run_simps i_def [symmetric] max_def)
    qed
  qed
qed

section \<open>The copy of a file\<close>

text \<open>The mappings and their memory are left alone by everything but the calls on mappings.\<close>

definition in_regions :: "ufs_mapping list \<times> (nat \<Rightarrow> u8) \<times> nat \<Rightarrow> world \<Rightarrow> bool" where
  "in_regions c w \<longleftrightarrow> (mapping_table w, memory w, next_map w) = c"

interpretation regions: lock_frame "in_regions c" for c
  by unfold_locales (simp_all add: in_regions_def)

definition same_regions :: "world \<Rightarrow> world \<Rightarrow> bool" where
  "same_regions v w \<longleftrightarrow> mapping_table v = mapping_table w \<and> memory v = memory w \<and> next_map v = next_map w"

lemma regions_kept:
  assumes "\<And>c. preserves (in_regions c) m" and "m w = (r, w1)" shows "same_regions w1 w"
  using preservesD [OF assms(1), of "(mapping_table w, memory w, next_map w)" w] assms(2) by (simp add: in_regions_def same_regions_def)

text \<open>What is kept elsewhere depends on the blocks and the descriptors only.\<close>

lemma elsewhere_views:
  assumes e: "elsewhere_kept k v v1" and op: "open_ok k w" and v: "blk v = blk w" "descriptor_table v = descriptor_table w"
    and w1: "blk w1 = blk v1" "descriptor_table w1 = descriptor_table v1" "live v1" "live w1"
  shows "elsewhere_kept k w w1"
proof -
  have d: "descriptor m v = descriptor m w" "descriptor m w1 = descriptor m v1" for m using v w1 by (simp_all add: descriptor_def)
  have n: "fd_number k v = fd_number k w" by (simp add: fd_number_def d)
  have at: "inode_at v = inode_at w" "inode_at w1 = inode_at v1" using same_disk(1) v(1) w1(1) by blast+
  show ?thesis
  proof (rule elsewhere_keptI)
    show "others_kept (fd_number k w) (inode_at w (fd_number k w), v)
        (inode_at w1 (fd_number k w), v1\<lparr>descriptor_table := descriptor_table v\<rparr>)"
      using e by (simp add: elsewhere_kept_def fd_file_def n at)
    show "same_attrs (inode_at w1 (fd_number k w)) (inode_at w (fd_number k w))" using e by (simp add: elsewhere_kept_def n at)
    show "same_handle k w w1" "\<And>m. m \<noteq> k \<Longrightarrow> descriptor m w1 = descriptor m w"
      using e by (simp_all add: elsewhere_kept_def same_handle_def d)
  qed (use v w1 in simp_all)
qed

lemma elsewhere_same:
  assumes op: "open_ok k w" shows "elsewhere_kept k w w"
  using others_kept_refl [of "(inode_at w (fd_number k w), w)"] open_okD(1) [OF op] file_okD(1) [OF open_okD(6) [OF op]]
  by (intro elsewhere_keptI) (simp_all add: same_handle_def)

lemma mapped_read:
  assumes op: "open_ok k w" and ty: "ino_type (inode_at w (fd_number k w)) = UFS_TYPE_FILE"
  obtains w1 where "read_inode_range (fd_number k w) (fde_inode_generation (descriptor k w)) count off w =
      (Some (take count (drop (unat off) (fd_contents k w))), w1)"
    "open_ok k w1" "fd_contents k w1 = fd_contents k w" "descriptor_table w1 = descriptor_table w" "elsewhere_kept k w w1" "same_regions w1 w"
proof -
  define n where "n = fd_number k w"
  define i where "i = inode_at w n"
  note ok = open_okD(6) [OF op, folded n_def i_def]
  have len: "length (fd_contents k w) = unat (ino_size i)" by (simp add: fd_contents_def fd_file_def i_def n_def file_size_def)
  define c where "c = (if unat (ino_size i - off) < count then unat (ino_size i - off) else count)"
  define finish :: "bytes \<Rightarrow> bytes op" where "finish buf = on_ok (attempt (ufs_should_update_atime i) ret (ret True)) (\<lambda>update.
      if update then keeping_errno (on_ok (ufs_touch_atime i) (persist_inode n)) (ret buf) else ret buf)" for buf
  have rd: "read_inode n w = (Some i, w)" using entry_checks(2) [OF op] by (simp add: n_def i_def)
  have gen: "ino_generation i = fde_inode_generation (descriptor k w)" using open_okD(5) [OF op] by (simp add: n_def i_def)
  have run: "read_inode_range n (fde_inode_generation (descriptor k w)) count off w = (if ino_size i \<le> off then (Some [], w)
      else on_ok (read_range_loop i off c 0 []) (\<lambda>buf. if buf \<noteq> [] then finish buf else ret buf) w)"
    unfolding read_inode_range_def finish_def c_def Let_def
    using rd gen ty by (simp add: run_simps ret_def n_def [symmetric] i_def [symmetric])
  define data where "data = take count (drop (unat off) (fd_contents k w))"
  show ?thesis
  proof (cases "ino_size i \<le> off")
    case True
    then have "data = []" by (simp add: data_def len word_le_nat_alt)
    then show ?thesis using that [of w] run True op elsewhere_same [OF op] unfolding data_def n_def by (simp add: same_regions_def)
  next
    case False
    then have lt: "unat off < unat (ino_size i)" "off \<le> ino_size i" by (simp_all add: word_le_nat_alt not_le)
    have av: "unat (ino_size i - off) = unat (ino_size i) - unat off" using lt(2) by (rule unat_sub)
    have c: "unat off + c \<le> unat (ino_size i)" using lt(1) unfolding c_def av by arith
    have "field (unat off) c (contents (i, w)) = data"
      using take_field [of "unat off" "fd_contents k w" count] unfolding len data_def c_def av
      by (simp add: fd_contents_def fd_file_def i_def n_def)
    then have loop: "read_range_loop i off c 0 [] w = (Some data, w)"
      using read_range_run [OF open_okD(1) [OF op] ok, of 0 c off "[]"] c by simp
    obtain w1 where w1: "on_ok (attempt (ufs_should_update_atime i) ret (ret False)) (\<lambda>update.
        if update then keeping_errno (on_ok (ufs_touch_atime i) (persist_inode n)) (ret data) else ret data) w = (Some data, w1)"
        "open_ok k w1" "fd_contents k w1 = fd_contents k w" "descriptor_table w1 = descriptor_table w" "elsewhere_kept k w w1"
      using read_done [OF op, of data] unfolding n_def i_def by blast
    obtain u tk where upd: "ufs_should_update_atime i w = (Some u, w\<lparr>ticks := tk\<rparr>)"
      using touch_calm(3) [OF live_script [OF open_okD(1) [OF op]]] by blast
    have fin: "finish data w = (Some data, w1)"
      using w1(1) unfolding finish_def on_ok_def attempt_def upd prod.case option.case .
    have "preserves (in_regions c) (finish data)" for c
      unfolding finish_def by (intro preserves_intros; simp)
    from regions_kept [OF this fin] have same: "same_regions w1 w" .
    show ?thesis
    proof (cases "data = []")
      case True
      then show ?thesis using that [of w] run loop False op elsewhere_same [OF op]
        unfolding data_def n_def by (simp add: same_regions_def run_simps ret_def)
    next
      case nonempty: False
      have "read_inode_range n (fde_inode_generation (descriptor k w)) count off w = (Some data, w1)"
        using run loop False nonempty fin by (simp add: run_simps)
      then show ?thesis using that [OF _ w1(2-5) same] unfolding data_def n_def by blast
    qed
  qed
qed

section \<open>Making a mapping\<close>

definition free_slot :: "world \<Rightarrow> nat option" where
  "free_slot w = first_from (\<lambda>s. \<not> map_in_use (mapping_table w ! s)) 0 UFS_MAX_MAPPINGS"

definition mmap_error :: "nat \<Rightarrow> u64 \<Rightarrow> u32 \<Rightarrow> u32 \<Rightarrow> u64 \<Rightarrow> world \<Rightarrow> errno option" where
  "mmap_error k len prot fl off w = (let access = fde_flags (descriptor k w) AND UFS_O_RDWR in
     if len = 0 \<or> sint off < 0 \<or> prot \<notin> {UFS_PROT_READ, UFS_PROT_READ OR UFS_PROT_WRITE} \<or> fl \<notin> {UFS_MAP_SHARED, UFS_MAP_PRIVATE} \<or>
        UFS_MAX_FILE_BLOCKS * UFS_BLOCK_SIZE < unat off + unat len then Some EINVAL
     else if access = UFS_O_WRONLY \<or> prot AND UFS_PROT_WRITE \<noteq> 0 \<and> fl = UFS_MAP_SHARED \<and> access = UFS_O_RDONLY then Some EACCES
     else if free_slot w = None then Some ENOMEM else None)"

definition new_mapping :: "nat \<Rightarrow> u64 \<Rightarrow> u32 \<Rightarrow> u32 \<Rightarrow> u64 \<Rightarrow> world \<Rightarrow> ufs_mapping" where
  "new_mapping k len prot fl off w = \<lparr>map_in_use = True, map_address = next_map w, map_length = len, map_file_offset = off,
     map_inode_number = fde_inode_number (descriptor k w), map_inode_generation = fde_inode_generation (descriptor k w),
     map_protection = prot, map_flags = fl\<rparr>"

text \<open>The memory behind the next free address is the range of the file, padded with zeros.\<close>

definition mapped :: "nat \<Rightarrow> u64 \<Rightarrow> u32 \<Rightarrow> u32 \<Rightarrow> u64 \<Rightarrow> world \<Rightarrow> world \<Rightarrow> bool" where
  "mapped k len prot fl off w w1 \<longleftrightarrow>
     mapping_table w1 = (mapping_table w)[the (free_slot w) := new_mapping k len prot fl off w] \<and>
     memory w1 = write_bytes (next_map w) (resize (unat len) (drop (unat off) (fd_contents k w))) (memory w) \<and>
     next_map w1 = next_map w + unat len \<and> descriptor_table w1 = descriptor_table w"

lemma range_check:
  "- 1 - off < len \<or> UFS_MAX_MAPPED_FILE_SIZE < off + len \<longleftrightarrow>
   UFS_MAX_FILE_BLOCKS * UFS_BLOCK_SIZE < unat (off :: u64) + unat len"
proof (cases "unat off + unat len \<le> UFS_MAX_FILE_BLOCKS * UFS_BLOCK_SIZE")
  case False
  then show ?thesis using range_fits [of off len] by linarith
next
  case True
  have "unat (off + len) = unat off + unat len" using True by (subst unat_plus_if') simp
  moreover have "unat (- 1 - off) = unat (- 1 :: u64) - unat off" by (rule unat_sub) simp
  moreover have "unat (- 1 :: u64) = 2 ^ 64 - 1" by (simp add: unsigned_minus_1_eq_mask mask_eq_exp_minus_1)
  ultimately show ?thesis using True by (simp add: word_less_nat_alt)
qed

lemma protection_check: "prot AND NOT 3 \<noteq> 0 \<or> prot AND 1 = 0 \<longleftrightarrow> (prot :: u32) \<notin> {1, 3}"
  using legal_protection [of prot] by auto

lemma write_zeros:
  "length bs \<le> n \<Longrightarrow> write_bytes a bs (write_bytes a (replicate n 0) f) = write_bytes a (resize n bs) f"
  by (auto simp: write_bytes_def resize_def fun_eq_iff nth_append)

lemma resize_take: "resize n (take n bs) = resize n bs"
  by (simp add: resize_def min_def)

lemma mmap_run:
  assumes op: "open_ok k w" and ty: "ino_type (inode_at w (fd_number k w)) = UFS_TYPE_FILE"
  shows "case mmap_error k len prot fl off w of
      Some e \<Rightarrow> ufs_mmap_unlocked (int k) len prot fl off w = (None, w\<lparr>errno := e\<rparr>)
    | None \<Rightarrow> \<exists>w1. ufs_mmap_unlocked (int k) len prot fl off w = (Some (next_map w), w1) \<and> mapped k len prot fl off w w1 \<and>
        open_ok k w1 \<and> elsewhere_kept k w w1 \<and> fd_contents k w1 = fd_contents k w"
proof -
  have l: "live w" "script w = []" using open_okD(1) [OF op] live_script by blast+
  let ?d = "descriptor k w"
  have info: "file_io_get_fd_info (int k) w = (Some (fde_inode_number ?d, fde_inode_generation ?d, fde_flags ?d), w)"
    unfolding file_io_get_fd_info_def entry_checks(1) [OF op] by (simp add: asking_def ret_def)
  have rd: "read_inode (unat (fde_inode_number ?d)) w = (Some (inode_at w (fd_number k w)), w)"
    using entry_checks(2) [OF op] by (simp add: fd_number_def)
  have gen: "ino_generation (inode_at w (fd_number k w)) = fde_inode_generation ?d" by (rule open_okD(5) [OF op])
  have mo: "require_mounted w = (Some (), w)" by (rule require_mounted_live [OF l(1)])
  have args: "(len = 0 \<or> sint off < 0 \<or> prot AND NOT (UFS_PROT_READ OR UFS_PROT_WRITE) \<noteq> 0 \<or> prot AND UFS_PROT_READ = 0 \<or>
      (fl \<noteq> UFS_MAP_SHARED \<and> fl \<noteq> UFS_MAP_PRIVATE) \<or> - 1 - off < len \<or> UFS_MAX_MAPPED_FILE_SIZE < off + len) \<longleftrightarrow>
      (len = 0 \<or> sint off < 0 \<or> prot \<notin> {UFS_PROT_READ, UFS_PROT_READ OR UFS_PROT_WRITE} \<or> fl \<notin> {UFS_MAP_SHARED, UFS_MAP_PRIVATE} \<or>
        UFS_MAX_FILE_BLOCKS * UFS_BLOCK_SIZE < unat off + unat len)"
    using range_check [of off len] protection_check [of prot] by auto
  define body where "body = ufs_mmap_unlocked (int k) len prot fl off w"
  show ?thesis
  proof (cases "mmap_error k len prot fl off w")
    case (Some e)
    then have "ufs_mmap_unlocked (int k) len prot fl off w = (None, w\<lparr>errno := e\<rparr>)"
      unfolding ufs_mmap_unlocked_def args mmap_error_def Let_def free_slot_def
      using mo info rd gen l
      by (auto simp: run_simps io_simps require_def fail_def asking_def split: if_splits option.splits)
    then show ?thesis using Some by simp
  next
    case None
    then obtain slot where slot: "free_slot w = Some slot" and g: "unat off + unat len \<le> UFS_MAX_FILE_BLOCKS * UFS_BLOCK_SIZE"
      by (auto simp: mmap_error_def Let_def split: if_splits)
    let ?a = "next_map w"
    define v where "v = w\<lparr>next_map := ?a + unat len, memory := write_bytes ?a (replicate (unat len) 0) (memory w)\<rparr>"
    have v: "blk v = blk w" "live v" "descriptor_table v = descriptor_table w" using l(1) by (simp_all add: v_def)
    note ov = open_views [OF op v]
    have tv: "ino_type (inode_at v (fd_number k v)) = UFS_TYPE_FILE" using ty ov(3,5) by simp
    obtain x where x: "read_inode_range (fd_number k v) (fde_inode_generation (descriptor k v)) (unat len) off v =
        (Some (take (unat len) (drop (unat off) (fd_contents k v))), x)"
      "open_ok k x" "fd_contents k x = fd_contents k v" "descriptor_table x = descriptor_table v" "elsewhere_kept k v x" "same_regions x v"
      by (rule mapped_read [OF ov(1) tv])
    define got where "got = take (unat len) (drop (unat off) (fd_contents k w))"
    define w1 where "w1 = set_mapping slot (new_mapping k len prot fl off w) (x\<lparr>memory := write_bytes ?a got (memory x)\<rparr>)"
    have lx: "live x" "script x = []" using open_okD(1) [OF x(2)] live_script by blast+
    have read: "read_inode_range (unat (fde_inode_number ?d)) (fde_inode_generation ?d) (unat len) off v = (Some got, x)"
      using x(1) unfolding got_def by (simp add: ov fd_number_def)
    have "script w1 = []" using lx(2) by (simp add: w1_def set_mapping_def)
    then have give: "discard unlock_mappings (ret ?a) w1 = (Some ?a, w1)" by (simp add: run_simps io_simps ret_def)
    have args_ok: "\<not> (len = 0 \<or> sint off < 0 \<or> prot \<notin> {UFS_PROT_READ, UFS_PROT_READ OR UFS_PROT_WRITE} \<or>
        fl \<notin> {UFS_MAP_SHARED, UFS_MAP_PRIVATE} \<or> UFS_MAX_FILE_BLOCKS * UFS_BLOCK_SIZE < unat off + unat len)"
      and access: "\<not> (fde_flags ?d AND UFS_O_RDWR = UFS_O_WRONLY \<or>
        prot AND UFS_PROT_WRITE \<noteq> 0 \<and> fl = UFS_MAP_SHARED \<and> fde_flags ?d AND UFS_O_RDWR = UFS_O_RDONLY)"
      using None by (auto simp: mmap_error_def Let_def split: if_splits)
    have "ufs_mmap_unlocked (int k) len prot fl off w = (Some ?a, w1)"
      unfolding ufs_mmap_unlocked_def args Let_def
      using slot mo info rd gen l lx read give
      by (simp add: run_simps io_simps require_def asking_def free_slot_def mmap_anonymous_def modify_def ret_def
            v_def [symmetric] w1_def new_mapping_def, insert args_ok access, auto)
    moreover have "mapped k len prot fl off w w1"
      using x(4,6) slot v(3) write_zeros [of got "unat len" ?a "memory w"] resize_take [of "unat len" "drop (unat off) (fd_contents k w)"]
      by (simp add: mapped_def w1_def set_mapping_def same_regions_def v_def got_def)
    moreover have b1: "blk w1 = blk x" "descriptor_table w1 = descriptor_table x" "live w1" using lx(1) by (simp_all add: w1_def set_mapping_def)
    note o1 = open_views [OF x(2) b1(1,3,2)]
    have "elsewhere_kept k w w1" by (rule elsewhere_views [OF x(5) op v(1,3) b1(1,2) lx(1) b1(3)])
    ultimately show ?thesis using None o1(1,2) x(3) ov(2) by auto
  qed
qed

lemma public_mmap:
  assumes o: "volume_open k w"
  shows "case mmap_error k len prot fl off w of
      Some e \<Rightarrow> ufs_mmap (int k) len prot fl off w = (None, w\<lparr>errno := e\<rparr>)
    | None \<Rightarrow> \<exists>w1. ufs_mmap (int k) len prot fl off w = (Some (next_map w), w1) \<and> mapped k len prot fl off w w1 \<and>
        volume_open k w1 \<and> file_change (fd_number k w) w w1 \<and> fd_number k w1 = fd_number k w \<and> fd_contents k w1 = fd_contents k w"
proof -
  have id: "idle_open k w" using o by (simp add: volume_open_def)
  note v = volume_openD [OF o] and l = idle_openD(2-4) [OF id]
  let ?l = "locked F_WRLCK w"
  note il = idle_locked [OF id, of F_WRLCK]
  have fields: "mapping_table ?l = mapping_table w" "next_map ?l = next_map w" "memory ?l = memory w" by (simp_all add: locked_def)
  have ty: "ino_type (inode_at ?l (fd_number k ?l)) = UFS_TYPE_FILE"
    using v(2) same_disk(1) [of ?l w] il(4) by (simp add: is_file_def fd_number_def)
  have fs: "free_slot ?l = free_slot w" by (simp add: free_slot_def fields)
  have er: "mmap_error k len prot fl off ?l = mmap_error k len prot fl off w"
    unfolding mmap_error_def fs il(4) ..
  note run = mmap_run [OF il(1) ty, of len prot fl off, unfolded er]
  have ctx: "preserves (in_context c) (ufs_mmap_unlocked (int k) len prot fl off)" for c by (rule context_tables(3))
  show ?thesis
  proof (cases "mmap_error k len prot fl off w")
    case (Some e)
    have u: "live (w\<lparr>errno := e\<rparr>)" "unlocked (w\<lparr>errno := e\<rparr>)" using l by (simp_all add: unlocked_def)
    have "ufs_mmap_unlocked (int k) len prot fl off ?l = (None, locked F_WRLCK (w\<lparr>errno := e\<rparr>))"
      using run Some by (simp add: locked_updates)
    from table_step [OF l(1,3) ctx this u] Some show ?thesis by (simp add: ufs_mmap_def)
  next
    case None
    obtain u where u: "ufs_mmap_unlocked (int k) len prot fl off ?l = (Some (next_map w), u)" "mapped k len prot fl off ?l u"
        "open_ok k u" "elsewhere_kept k ?l u" "fd_contents k u = fd_contents k ?l"
      using run None fields(2) by auto
    have lu: "live u" by (rule open_okD(1) [OF u(3)])
    have pub: "ufs_mmap (int k) len prot fl off w = (Some (next_map w), released u)"
      unfolding ufs_mmap_def by (rule with_lock_live [OF l(1,2) u(1) ctx lu])
    note rel = open_released [OF u(3)]
    have el: "elsewhere_kept k w (released u)" by (rule elsewhere_kept_lock [OF u(4) lu])
    have "same_callers u ?l"
      using preservesD [OF ctx, of "context_of ?l" ?l] u(1) by (simp add: in_context_def context_of_def same_callers_def)
    then have c: "same_callers (released u) w" by (simp add: same_callers_def released_def locked_def)
    have m: "mapped k len prot fl off w (released u)"
      using u(2) by (simp add: mapped_def free_slot_def new_mapping_def il fields) (simp add: released_def)
    then have tab: "length (descriptor_table (released u)) = UFS_MAX_OPEN_FILES" using v(3) by (simp add: mapped_def)
    note e = elsewhere_change [OF o el rel(1) c tab]
    show ?thesis using None pub m e(1-3) rel(2) u(5) il(2) by auto
  qed
qed

section \<open>Writing a mapping back\<close>

definition mapping_at :: "nat \<Rightarrow> world \<Rightarrow> nat option" where
  "mapping_at a w = first_from (\<lambda>s. map_in_use (mapping_table w ! s) \<and> map_address (mapping_table w ! s) = a) 0 UFS_MAX_MAPPINGS"

definition map_number :: "ufs_mapping \<Rightarrow> nat" where
  "map_number m = unat (map_inode_number m)"

text \<open>A mapping of a file of the volume, with the generation of its inode.\<close>

definition file_mapping :: "ufs_mapping \<Rightarrow> world \<Rightarrow> bool" where
  "file_mapping m w \<longleftrightarrow> is_file w (map_number m) \<and> ino_generation (inode_at w (map_number m)) = map_inode_generation m \<and>
     unat (map_file_offset m) + unat (map_length m) \<le> UFS_MAX_FILE_BLOCKS * UFS_BLOCK_SIZE"

definition writes_back :: "ufs_mapping \<Rightarrow> bool" where
  "writes_back m \<longleftrightarrow> map_flags m \<noteq> UFS_MAP_PRIVATE \<and> map_protection m AND UFS_PROT_WRITE \<noteq> 0"

definition sync_error :: "nat \<Rightarrow> u64 \<Rightarrow> world \<Rightarrow> bool" where
  "sync_error a len w \<longleftrightarrow> a = 0 \<or> a = UFS_MAP_FAILED \<or> len = 0 \<or>
     (case mapping_at a w of None \<Rightarrow> True | Some s \<Rightarrow> map_length (mapping_table w ! s) < len)"

text \<open>What the bytes of the file are after the first \<open>len\<close> bytes of a mapping have been written back.\<close>

definition written_back :: "ufs_mapping \<Rightarrow> nat \<Rightarrow> world \<Rightarrow> bytes" where
  "written_back m n w = (let bs = contents (file_at w (map_number m)); off = unat (map_file_offset m) in
     if writes_back m then overlay off (memory_range (map_address m) n w) (resize (max (length bs) (off + n)) bs) else bs)"

definition sync_effect :: "ufs_mapping \<Rightarrow> nat \<Rightarrow> unit option \<Rightarrow> world \<Rightarrow> world \<Rightarrow> bool" where
  "sync_effect m n r w w1 \<longleftrightarrow> (case r of
      Some _ \<Rightarrow> contents (file_at w1 (map_number m)) = written_back m n w
    | None \<Rightarrow> writes_back m \<and> contents (file_at w1 (map_number m)) = contents (file_at w (map_number m)) \<and>
        length (contents (file_at w (map_number m))) < unat (map_file_offset m) + n \<and> errno w1 = ENOSPC)"

lemma sync_run:
  assumes v: "volume_ok w" and m: "file_mapping m w" and n: "unat len \<le> unat (map_length m)"
  obtains r w1 where "sync_mapping m len w = (r, w1)" "rewritten (map_number m) w w1" "sync_effect m (unat len) r w w1"
proof -
  define k where "k = map_number m"
  have l: "live w" by (rule volume_okD(2) [OF v])
  have f: "k \<in> used_inodes w" "ino_type (inode_at w k) = UFS_TYPE_FILE" "ino_generation (inode_at w k) = map_inode_generation m"
      "unat (map_file_offset m) + unat (map_length m) \<le> UFS_MAX_FILE_BLOCKS * UFS_BLOCK_SIZE"
    using m by (simp_all add: file_mapping_def is_file_def k_def)
  have kk: "k < UFS_MAX_INODES" using f(1) by (simp add: used_inodes_def)
  have ok: "file_ok (inode_at w k, w)" using volume_okD(3) [OF v f(1)] by (simp add: file_at_def)
  define buf where "buf = memory_range (map_address m) (unat len) w"
  have lb: "length buf = unat len" by (simp add: buf_def memory_range_def)
  show ?thesis
  proof (cases "writes_back m")
    case False
    have "rewritten k w w"
      using others_kept_refl [of "(inode_at w k, w)"] l ok file_okD(1) [OF ok] same_attrs_refl by (simp add: rewritten_def)
    moreover have "sync_mapping m len w = (Some (), w)" using False by (auto simp: sync_mapping_def writes_back_def ret_def)
    ultimately show ?thesis using that False by (simp add: sync_effect_def written_back_def k_def Let_def)
  next
    case True
    have fit: "unat (map_file_offset m) + length buf \<le> UFS_MAX_FILE_BLOCKS * 512" using f(4) n lb by simp
    obtain r w1 where wr: "write_inode_range k (map_inode_generation m) buf (map_file_offset m) w = (r, w1)" by fastforce
    note e = write_inode_range_run [OF l kk ok f(2) fit, unfolded f(3) wr prod.case]
    have run: "sync_mapping m len w = on_ok (\<lambda>w. (r, w1)) (\<lambda>written. require (written = unat len) EIO ufs_sync_image) w"
      using True wr by (auto simp: sync_mapping_def writes_back_def asking_def on_ok_def buf_def k_def map_number_def)
    have len: "length (contents (inode_at w k, w)) = unat (ino_size (inode_at w k))" by (simp add: file_size_def)
    show ?thesis
    proof (cases r)
      case None
      then show ?thesis using that [of None w1] run e True len lb
        by (simp add: run_simps sync_effect_def file_at_def k_def [symmetric])
    next
      case (Some x)
      then have w1: "x = unat len" "rewritten k w w1" using e lb by simp_all
      have "live w1" using w1(2) by (simp add: rewritten_def others_kept_def)
      then have c: "calm w1" "live (synced w1)" unfolding live_def by (simp_all add: synced_def)
      have at: "inode_at (synced w1) = inode_at w1" using same_disk(1) [of "synced w1" w1] by simp
      note fb = file_blk [of "synced w1" w1]
      have "others_kept k (inode_at w k, w) (inode_at w1 k, synced w1)"
        using others_kept_views [of k "inode_at w k" w "inode_at w1 k" w1 w "synced w1"] w1(2) c(2)
        by (simp add: rewritten_def) (simp add: synced_def)
      then have "rewritten k w (synced w1)" using w1(2) fb(1) at by (simp add: rewritten_def) (simp add: synced_def)
      moreover have "sync_mapping m len w = (Some (), synced w1)"
        unfolding run using Some w1(1) sync_calm [OF c(1)] by (simp add: run_simps require_def)
      moreover have "contents (file_at (synced w1) k) = written_back m (unat len) w"
        using e Some True len lb at fb(2) by (simp add: written_back_def file_at_def k_def [symmetric] buf_def Let_def)
      ultimately show ?thesis using that by (simp add: sync_effect_def k_def)
    qed
  qed
qed

lemma rewritten_views:
  assumes "rewritten n u v" and "blk u1 = blk u" "descriptor_table u1 = descriptor_table u"
    and "blk v1 = blk v" "descriptor_table v1 = descriptor_table v" "live v1"
  shows "rewritten n u1 v1"
proof -
  have at: "inode_at u1 = inode_at u" "inode_at v1 = inode_at v" using same_disk(1) assms(2,4) by blast+
  have k: "others_kept n (inode_at u n, u) (inode_at v n, v)" "descriptor_table v = descriptor_table u"
    using assms(1) by (simp_all add: rewritten_def)
  show ?thesis
    using assms others_kept_views [OF k(1) assms(2,4,6)] file_blk(1) [OF assms(4)] at k(2) by (simp add: rewritten_def)
qed

text \<open>The lock around an operation that rewrites a file.\<close>

lemma public_rewrite:
  assumes ns: "namespace_ok w" and un: "unlocked w" and n: "is_file w n" and ctx: "\<And>c. preserves (in_context c) op"
    and run: "op (locked F_WRLCK w) = (r, u)" and re: "rewritten n (locked F_WRLCK w) u" and l: "live u"
  shows "with_lock ufs_operation_write_lock op w = (r, released u)" "file_change n w (released u)" "namespace_ok (released u)"
    "unlocked (released u)" "descriptor_table (released u) = descriptor_table w"
proof -
  have v: "volume_ok w" "live w" using ns volume_okD(2) by (simp_all add: namespace_ok_def)
  show "with_lock ufs_operation_write_lock op w = (r, released u)"
    using un by (intro with_lock_live [OF v(2) _ run ctx l]) (simp add: unlocked_def)
  have b: "rewritten n w (released u)" by (rule rewritten_views [OF re]) (use l in simp_all)
  have at: "file_at w n = (inode_at w n, w)" "file_at (released u) n = (inode_at (released u) n, released u)" by (simp_all add: file_at_def)
  show d: "descriptor_table (released u) = descriptor_table w" using b by (simp add: rewritten_def)
  then have same: "(released u)\<lparr>descriptor_table := descriptor_table w\<rparr> = released u" by (cases "released u") simp
  have "changes {n} w (released u)"
    using changes_one [of n w "released u"] b n unfolding at by (simp add: rewritten_def is_file_def)
  moreover have "same_callers u (locked F_WRLCK w)"
    using preservesD [OF ctx, of "context_of (locked F_WRLCK w)" "locked F_WRLCK w"] run
    by (simp add: in_context_def context_of_def same_callers_def)
  then have "same_callers (released u) w" by (simp add: same_callers_def released_def locked_def)
  ultimately show fc: "file_change n w (released u)"
    using b l unfolding file_change_def same at by (simp add: rewritten_def others_kept_def)
  show "namespace_ok (released u)" by (rule file_change(1) [OF ns n fc])
  show "unlocked (released u)" by (simp add: unlocked_def released_def)
qed

lemma sync_effect_views:
  assumes "sync_effect m n r u v" and "blk u1 = blk u" "memory u1 = memory u" "blk v1 = blk v" "errno v1 = errno v"
  shows "sync_effect m n r u1 v1"
proof -
  have c: "contents (file_at u1 k) = contents (file_at u k)" "contents (file_at v1 k) = contents (file_at v k)" for k
    using assms(2,4) file_blk(2) same_disk(1) unfolding file_at_def by metis+
  have "written_back m n u1 = written_back m n u" unfolding written_back_def c memory_range_def assms(3) ..
  then show ?thesis using assms(1,5) by (simp add: sync_effect_def c split: option.splits)
qed

lemma msync_run:
  assumes v: "volume_ok w"
  shows "sync_error a len w \<Longrightarrow> ufs_msync_unlocked a len w = (None, w\<lparr>errno := EINVAL\<rparr>)"
    "\<not> sync_error a len w \<Longrightarrow> mapping_at a w = Some s \<Longrightarrow> sync_mapping (mapping_table w ! s) len w = (r, w1) \<Longrightarrow> live w1 \<Longrightarrow>
      ufs_msync_unlocked a len w = (r, w1)"
proof -
  have l: "live w" "script w = []" using volume_okD(2) [OF v] live_script by blast+
  have mo: "require_mounted w = (Some (), w)" by (rule require_mounted_live [OF l(1)])
  have find: "find_mapping a w = (case mapping_at a w of Some s \<Rightarrow> (Some s, w) | None \<Rightarrow> (None, w\<lparr>errno := EINVAL\<rparr>))"
    by (simp add: find_mapping_def asking_def mapping_at_def ret_def fail_def split: option.splits)
  show "ufs_msync_unlocked a len w = (None, w\<lparr>errno := EINVAL\<rparr>)" if "sync_error a len w"
    using that mo find l
    by (auto simp: ufs_msync_unlocked_def sync_error_def run_simps io_simps require_def fail_def asking_def fail_same_def split: option.splits if_splits)
  show "ufs_msync_unlocked a len w = (r, w1)" if "\<not> sync_error a len w" "mapping_at a w = Some s"
    "sync_mapping (mapping_table w ! s) len w = (r, w1)" "live w1"
    using that mo find l live_script [OF that(4)]
    by (cases r) (auto simp: ufs_msync_unlocked_def sync_error_def run_simps io_simps require_def asking_def fail_same_def ret_def)
qed

definition unmap_error :: "nat \<Rightarrow> u64 \<Rightarrow> world \<Rightarrow> bool" where
  "unmap_error a len w \<longleftrightarrow> a = 0 \<or> a = UFS_MAP_FAILED \<or> len = 0 \<or>
     (case mapping_at a w of None \<Rightarrow> True | Some s \<Rightarrow> map_length (mapping_table w ! s) \<noteq> len)"

lemma munmap_run:
  assumes v: "volume_ok w"
  shows "unmap_error a len w \<Longrightarrow> ufs_munmap_unlocked a len w = (None, w\<lparr>errno := EINVAL\<rparr>)"
    "\<not> unmap_error a len w \<Longrightarrow> mapping_at a w = Some s \<Longrightarrow> sync_mapping (mapping_table w ! s) len w = (r, w1) \<Longrightarrow> live w1 \<Longrightarrow>
      ufs_munmap_unlocked a len w = (r, if r = None then w1 else set_mapping s zero_mapping w1)"
proof -
  have l: "live w" "script w = []" using volume_okD(2) [OF v] live_script by blast+
  have mo: "require_mounted w = (Some (), w)" by (rule require_mounted_live [OF l(1)])
  have find: "find_mapping a w = (case mapping_at a w of Some s \<Rightarrow> (Some s, w) | None \<Rightarrow> (None, w\<lparr>errno := EINVAL\<rparr>))"
    by (simp add: find_mapping_def asking_def mapping_at_def ret_def fail_def split: option.splits)
  show "ufs_munmap_unlocked a len w = (None, w\<lparr>errno := EINVAL\<rparr>)" if "unmap_error a len w"
    using that mo find l
    by (auto simp: ufs_munmap_unlocked_def unmap_error_def run_simps io_simps require_def fail_def asking_def fail_same_def split: option.splits if_splits)
  show "ufs_munmap_unlocked a len w = (r, if r = None then w1 else set_mapping s zero_mapping w1)"
    if "\<not> unmap_error a len w" "mapping_at a w = Some s" "sync_mapping (mapping_table w ! s) len w = (r, w1)" "live w1"
    using that mo find l live_script [OF that(4)]
    by (cases r) (auto simp: ufs_munmap_unlocked_def unmap_error_def run_simps io_simps require_def asking_def fail_same_def ret_def
        modify_def set_mapping_def)
qed

text \<open>The table of mappings, apart from \<open>ufs_mmap\<close> and \<open>ufs_munmap\<close>.\<close>

definition in_slots :: "ufs_mapping list \<Rightarrow> world \<Rightarrow> bool" where
  "in_slots c w \<longleftrightarrow> mapping_table w = c"

interpretation slots: quiet_frame "in_slots c" for c
  by unfold_locales (simp_all add: in_slots_def set_offset_def set_descriptor_def)

lemma slots_kept: "(\<And>c. preserves (in_slots c) m) \<Longrightarrow> m w = (r, w1) \<Longrightarrow> mapping_table w1 = mapping_table w"
  using preservesD [of "in_slots (mapping_table w)" m w] by (simp add: in_slots_def)

text \<open>Both operations, as far as they write back.\<close>

definition synced_file :: "ufs_mapping \<Rightarrow> nat \<Rightarrow> unit option \<Rightarrow> world \<Rightarrow> world \<Rightarrow> bool" where
  "synced_file m n r w w1 \<longleftrightarrow> file_change (map_number m) w w1 \<and> namespace_ok w1 \<and> unlocked w1 \<and>
     descriptor_table w1 = descriptor_table w \<and> sync_effect m n r w w1"

lemma locked_mappings: "mapping_table (locked kd w) = mapping_table w" "memory (locked kd w) = memory w"
    "mapping_table (released w) = mapping_table w" "errno (released w) = errno w"
    "mapping_at a (locked kd w) = mapping_at a w" "sync_error a len (locked kd w) = sync_error a len w"
    "unmap_error a len (locked kd w) = unmap_error a len w"
proof -
  show t: "mapping_table (locked kd w) = mapping_table w" "memory (locked kd w) = memory w"
    "mapping_table (released w) = mapping_table w" "errno (released w) = errno w"
    by (simp_all add: locked_def released_def)
  show m: "mapping_at a (locked kd w) = mapping_at a w" by (simp add: mapping_at_def t)
  show "sync_error a len (locked kd w) = sync_error a len w" "unmap_error a len (locked kd w) = unmap_error a len w"
    unfolding sync_error_def unmap_error_def m t by (rule refl)+
qed

lemma locked_sync:
  assumes ns: "namespace_ok w" and m: "file_mapping m w" and n: "unat len \<le> unat (map_length m)"
  obtains r u where "sync_mapping m len (locked F_WRLCK w) = (r, u)" "rewritten (map_number m) (locked F_WRLCK w) u"
    "sync_effect m (unat len) r w (released u)" "live u" "volume_ok (locked F_WRLCK w)" "mapping_table u = mapping_table w"
proof -
  let ?l = "locked F_WRLCK w"
  have sv: "same_view ?l w" by simp
  have v: "volume_ok ?l" using same_view_namespace [OF sv ns] by (simp add: namespace_ok_def)
  have "file_mapping m ?l" using m same_disk [of ?l w] by (simp add: file_mapping_def is_file_def)
  then obtain r u where run: "sync_mapping m len ?l = (r, u)" "rewritten (map_number m) ?l u" "sync_effect m (unat len) r ?l u"
    using sync_run [OF v _ n] by blast
  have "sync_effect m (unat len) r w (released u)"
    by (rule sync_effect_views [OF run(3)]) (simp_all add: locked_mappings)
  moreover have "live u" using run(2) by (simp add: rewritten_def others_kept_def)
  moreover have "mapping_table u = mapping_table w" using slots_kept [OF slots.quiet_sync run(1)] by (simp add: locked_mappings)
  ultimately show ?thesis using that run(1,2) v by blast
qed

lemma public_msync:
  assumes ns: "namespace_ok w" and un: "unlocked w"
  shows "sync_error a len w \<Longrightarrow> ufs_msync a len w = (None, w\<lparr>errno := EINVAL\<rparr>)"
    "\<not> sync_error a len w \<Longrightarrow> mapping_at a w = Some s \<Longrightarrow> file_mapping (mapping_table w ! s) w \<Longrightarrow> ufs_msync a len w = (r, w1) \<Longrightarrow>
      synced_file (mapping_table w ! s) (unat len) r w w1 \<and> mapping_table w1 = mapping_table w"
proof -
  have v: "volume_ok w" "live w" using ns volume_okD(2) by (simp_all add: namespace_ok_def)
  let ?l = "locked F_WRLCK w"
  have sv: "same_view ?l w" by simp
  have vl: "volume_ok ?l" using same_view_namespace [OF sv ns] by (simp add: namespace_ok_def)
  show "ufs_msync a len w = (None, w\<lparr>errno := EINVAL\<rparr>)" if "sync_error a len w"
  proof -
    have "ufs_msync_unlocked a len ?l = (None, locked F_WRLCK (w\<lparr>errno := EINVAL\<rparr>))"
      using msync_run(1) [OF vl] that by (simp add: locked_mappings locked_updates)
    then show ?thesis unfolding ufs_msync_def
      by (rule table_step [OF v(2) un ctx.quiet_mappings]) (use v(2) un in \<open>simp_all add: unlocked_def\<close>)
  qed
  show "synced_file (mapping_table w ! s) (unat len) r w w1 \<and> mapping_table w1 = mapping_table w"
    if "\<not> sync_error a len w" "mapping_at a w = Some s" "file_mapping (mapping_table w ! s) w" "ufs_msync a len w = (r, w1)"
  proof -
    note given = that
    let ?m = "mapping_table w ! s"
    have n: "unat len \<le> unat (map_length ?m)" using that(1,2) by (simp add: sync_error_def not_less word_le_nat_alt)
    obtain q u where u: "sync_mapping ?m len ?l = (q, u)" "rewritten (map_number ?m) ?l u" "sync_effect ?m (unat len) q w (released u)"
        "live u" "mapping_table u = mapping_table w"
      by (rule locked_sync [OF ns given(3) n])
    have run: "ufs_msync_unlocked a len ?l = (q, u)"
      using msync_run(2) [OF vl _ _ _ u(4), of a len s q] given(1,2) u(1) by (simp add: locked_mappings)
    have f: "is_file w (map_number ?m)" using given(3) by (simp add: file_mapping_def)
    note p = public_rewrite [OF ns un f ctx.quiet_mappings run u(2,4), folded ufs_msync_def]
    have "r = q" "w1 = released u" using p(1) given(4) by simp_all
    then show ?thesis using p(2-5) u(3,5) by (simp add: synced_file_def locked_mappings)
  qed
qed

lemma public_munmap:
  assumes ns: "namespace_ok w" and un: "unlocked w"
  shows "unmap_error a len w \<Longrightarrow> ufs_munmap a len w = (None, w\<lparr>errno := EINVAL\<rparr>)"
    "\<not> unmap_error a len w \<Longrightarrow> mapping_at a w = Some s \<Longrightarrow> file_mapping (mapping_table w ! s) w \<Longrightarrow> ufs_munmap a len w = (r, w1) \<Longrightarrow>
      synced_file (mapping_table w ! s) (unat len) r w w1 \<and>
      mapping_table w1 = (if r = None then mapping_table w else (mapping_table w)[s := zero_mapping])"
proof -
  have v: "volume_ok w" "live w" using ns volume_okD(2) by (simp_all add: namespace_ok_def)
  let ?l = "locked F_WRLCK w"
  have sv: "same_view ?l w" by simp
  have vl: "volume_ok ?l" using same_view_namespace [OF sv ns] by (simp add: namespace_ok_def)
  show "ufs_munmap a len w = (None, w\<lparr>errno := EINVAL\<rparr>)" if "unmap_error a len w"
  proof -
    have "ufs_munmap_unlocked a len ?l = (None, locked F_WRLCK (w\<lparr>errno := EINVAL\<rparr>))"
      using munmap_run(1) [OF vl] that by (simp add: locked_mappings locked_updates)
    then show ?thesis unfolding ufs_munmap_def
      by (rule table_step [OF v(2) un context_tables(4)]) (use v(2) un in \<open>simp_all add: unlocked_def\<close>)
  qed
  show "synced_file (mapping_table w ! s) (unat len) r w w1 \<and>
      mapping_table w1 = (if r = None then mapping_table w else (mapping_table w)[s := zero_mapping])"
    if "\<not> unmap_error a len w" "mapping_at a w = Some s" "file_mapping (mapping_table w ! s) w" "ufs_munmap a len w = (r, w1)"
  proof -
    note given = that
    let ?m = "mapping_table w ! s"
    have n: "unat len \<le> unat (map_length ?m)" using that(1,2) by (simp add: unmap_error_def)
    obtain q u where u: "sync_mapping ?m len ?l = (q, u)" "rewritten (map_number ?m) ?l u" "sync_effect ?m (unat len) q w (released u)"
        "live u" "mapping_table u = mapping_table w"
      by (rule locked_sync [OF ns given(3) n])
    define x where "x = (if q = None then u else set_mapping s zero_mapping u)"
    have run: "ufs_munmap_unlocked a len ?l = (q, x)"
      using munmap_run(2) [OF vl _ _ _ u(4), of a len s q] given(1,2) u(1) by (simp add: locked_mappings x_def)
    have bx: "blk x = blk u" "descriptor_table x = descriptor_table u" "live x" "errno x = errno u" using u(4) by (simp_all add: x_def set_mapping_def)
    have f: "is_file w (map_number ?m)" using given(3) by (simp add: file_mapping_def)
    have re: "rewritten (map_number ?m) ?l x" by (rule rewritten_views [OF u(2)]) (use bx in simp_all)
    note p = public_rewrite [OF ns un f context_tables(4) run re bx(3), folded ufs_munmap_def]
    have rw: "r = q" "w1 = released x" using p(1) given(4) by simp_all
    have "sync_effect ?m (unat len) q w (released x)"
      by (rule sync_effect_views [OF u(3)]) (use bx in \<open>simp_all add: locked_mappings\<close>)
    then show ?thesis using p(2-5) u(5) rw by (simp add: synced_file_def locked_mappings x_def set_mapping_def)
  qed
qed

text \<open>Storing in a mapping changes no block.\<close>

lemma stored:
  assumes o: "volume_open k w"
  shows "volume_open k (w\<lparr>memory := f\<rparr>)" "fd_contents k (w\<lparr>memory := f\<rparr>) = fd_contents k w" "fd_number k (w\<lparr>memory := f\<rparr>) = fd_number k w"
proof -
  let ?w = "w\<lparr>memory := f\<rparr>"
  have id: "idle_open k w" using o by (simp add: volume_open_def)
  note v = volume_openD [OF o]
  have b: "blk ?w = blk w" "live ?w" using idle_openD(2) [OF id] by simp_all
  note ov = open_views [OF idle_openD(1) [OF id] b]
  show "fd_contents k ?w = fd_contents k w" "fd_number k ?w = fd_number k w" by (rule ov(2,3); simp)+
  then show "volume_open k ?w"
    using same_blocks_namespace(2) [OF b v(1)] ov(1) v(2-4) same_disk [OF b(1)]
    by (simp add: volume_open_def idle_open_def unlocked_def is_file_def)
qed

text \<open>The new mapping is found at its address.\<close>

lemma new_mapping_found:
  assumes tab: "length (mapping_table w) = UFS_MAX_MAPPINGS"
    and below: "\<And>m. m \<in> set (mapping_table w) \<Longrightarrow> map_in_use m \<Longrightarrow> map_address m < next_map w"
    and m: "mapped k len prot fl off w w1" and s: "free_slot w = Some s"
  shows "mapping_at (next_map w) (w1\<lparr>memory := f\<rparr>) = Some s" "mapping_table w1 ! s = new_mapping k len prot fl off w"
proof -
  have t: "mapping_table w1 = (mapping_table w)[s := new_mapping k len prot fl off w]" using m s by (simp add: mapped_def)
  have sl: "s < UFS_MAX_MAPPINGS" using s by (simp add: free_slot_def first_from_Some)
  then show n: "mapping_table w1 ! s = new_mapping k len prot fl off w" using tab by (simp add: t)
  have "\<not> (map_in_use (mapping_table w1 ! j) \<and> map_address (mapping_table w1 ! j) = next_map w)" if "j < s" for j
    using below [OF nth_mem, of j] that sl tab by (auto simp: t)
  then show "mapping_at (next_map w) (w1\<lparr>memory := f\<rparr>) = Some s"
    using sl n by (simp add: mapping_at_def first_from_Some) (simp add: new_mapping_def)
qed

text \<open>A mapping just made is one that \<open>ufs_msync\<close> and \<open>ufs_munmap\<close> accept, whatever is stored in it.\<close>

lemma new_mapping_ready:
  assumes o: "volume_open k w" and none: "mmap_error k len prot fl off w = None"
    and tab: "length (mapping_table w) = UFS_MAX_MAPPINGS" and a: "0 < next_map w" "next_map w < 2 ^ 64 - 1"
    and below: "\<And>m. m \<in> set (mapping_table w) \<Longrightarrow> map_in_use m \<Longrightarrow> map_address m < next_map w"
  obtains s w1 where "ufs_mmap (int k) len prot fl off w = (Some (next_map w), w1)" "volume_open k (w1\<lparr>memory := f\<rparr>)"
    "fd_contents k (w1\<lparr>memory := f\<rparr>) = fd_contents k w" "fd_number k (w1\<lparr>memory := f\<rparr>) = fd_number k w"
    "mapping_at (next_map w) (w1\<lparr>memory := f\<rparr>) = Some s"
    "mapping_table w1 ! s = new_mapping k len prot fl off w" "file_mapping (new_mapping k len prot fl off w) (w1\<lparr>memory := f\<rparr>)"
    "map_number (new_mapping k len prot fl off w) = fd_number k w"
    "\<not> sync_error (next_map w) len (w1\<lparr>memory := f\<rparr>)" "\<not> unmap_error (next_map w) len (w1\<lparr>memory := f\<rparr>)"
proof -
  obtain w1 where w1: "ufs_mmap (int k) len prot fl off w = (Some (next_map w), w1)" "mapped k len prot fl off w w1"
      "volume_open k w1" "fd_contents k w1 = fd_contents k w" "fd_number k w1 = fd_number k w"
    using public_mmap [OF o, of len prot fl off] none by auto
  obtain s where s: "free_slot w = Some s" and g: "len \<noteq> 0" "unat off + unat len \<le> UFS_MAX_FILE_BLOCKS * UFS_BLOCK_SIZE"
    using none by (auto simp: mmap_error_def Let_def split: if_splits)
  let ?w = "w1\<lparr>memory := f\<rparr>" and ?m = "new_mapping k len prot fl off w"
  note st = stored [OF w1(3), of f]
  note found = new_mapping_found [OF tab below w1(2) s]
  have t: "mapping_table ?w = mapping_table w1" by simp
  have num: "map_number ?m = fd_number k w" by (simp add: map_number_def new_mapping_def fd_number_def)
  have d: "descriptor k ?w = descriptor k w" using w1(2) by (simp add: mapped_def descriptor_def)
  have "open_ok k ?w" using st(1) idle_openD(1) by (simp add: volume_open_def)
  from open_okD(5) [OF this] have "file_mapping ?m ?w"
    using volume_openD(2) [OF st(1)] st(3) w1(5) g(2) num d unfolding file_mapping_def by (simp add: new_mapping_def)
  moreover have "\<not> sync_error (next_map w) len ?w" "\<not> unmap_error (next_map w) len ?w"
    using a g(1) found(2) by (simp_all add: sync_error_def unmap_error_def found(1) [of f]) (simp_all add: new_mapping_def)
  ultimately show ?thesis using that [OF w1(1) st(1) _ _ found] st(2,3) w1(4,5) num by simp
qed

section \<open>A sample\<close>

text \<open>Descriptor 0 is open for reading and writing on the empty file of \<open>sample_file\<close>.\<close>

definition sample_user :: world where
  "sample_user = snd (ufs_open ''/a'' UFS_O_RDWR sample_file)"

lemma sample_user:
  shows "volume_open 0 sample_user" "fde_flags (descriptor 0 sample_user) = UFS_O_RDWR" "fd_contents 0 sample_user = []"
    "mapping_table sample_user = replicate 32 zero_mapping" "next_map sample_user = 65536"
proof -
  have fl: "legal_flags UFS_O_RDWR" by (simp add: legal_flags_def)
  obtain k w1 where w1: "ufs_open ''/a'' UFS_O_RDWR sample_file = (Some k, w1)" "volume_open k w1" "fde_flags (descriptor k w1) = UFS_O_RDWR"
      "fd_contents k w1 = []" "free_descriptor sample_file = Some k" "w1 = set_descriptor k (new_handle sample_file 1 UFS_O_RDWR) sample_file"
    using open_success [OF _ _ _ sample_file(5) [OF fl]] sample_file(1,2) by (metis ready_def)
  have k: "k = 0" "sample_user = w1" using w1(1,5) sample_file(6) by (simp_all add: sample_user_def)
  then show "volume_open 0 sample_user" "fde_flags (descriptor 0 sample_user) = UFS_O_RDWR" "fd_contents 0 sample_user = []"
    using w1 by simp_all
  have "preserves (in_regions c) (ufs_create ''/a'')" for c
    unfolding ufs_create_def by (intro regions.with_lock_keeps regions.quiet_make)
  then have "same_regions sample_file sample_tree"
    using regions_kept [of "ufs_create ''/a''" sample_tree] by (simp add: sample_file_def prod_eq_iff)
  moreover have "mapping_table sample_tree = replicate 32 zero_mapping" "next_map sample_tree = 65536"
    by (simp_all add: sample_tree_def put_inode_def claim_inode_def flushed_def add_free_inodes_def) (simp_all add: blank_world_def)
  moreover have eq: "sample_user = set_descriptor k (new_handle sample_file 1 UFS_O_RDWR) sample_file" using w1(6) k(2) by simp
  ultimately show "mapping_table sample_user = replicate 32 zero_mapping" "next_map sample_user = 65536"
    unfolding eq by (simp_all add: same_regions_def set_descriptor_def)
qed

lemma sample_mmap: "mmap_error 0 3 (UFS_PROT_READ OR UFS_PROT_WRITE) UFS_MAP_SHARED 0 sample_user = None"
proof -
  have "free_slot sample_user = Some 0" by (simp add: free_slot_def first_from_Some sample_user(4) zero_mapping_def)
  then show ?thesis by (simp add: mmap_error_def sample_user(2))
qed

definition sample_mapped :: world where
  "sample_mapped = (snd (ufs_mmap 0 3 (UFS_PROT_READ OR UFS_PROT_WRITE) UFS_MAP_SHARED 0 sample_user))\<lparr>memory := (\<lambda>_. 7)\<rparr>"

lemma sample_mapped:
  shows "namespace_ok sample_mapped" "unlocked sample_mapped" "\<not> sync_error 65536 3 sample_mapped" "\<not> unmap_error 65536 3 sample_mapped"
    "mapping_at 65536 sample_mapped = Some s \<Longrightarrow> file_mapping (mapping_table sample_mapped ! s) sample_mapped \<and>
      written_back (mapping_table sample_mapped ! s) 3 sample_mapped = [7, 7, 7]"
proof -
  let ?m = "new_mapping 0 3 (UFS_PROT_READ OR UFS_PROT_WRITE) UFS_MAP_SHARED 0 sample_user"
  have pre: "length (mapping_table sample_user) = UFS_MAX_MAPPINGS" "0 < next_map sample_user" "next_map sample_user < 2 ^ 64 - 1"
    by (simp_all add: sample_user(4,5))
  have below: "m \<in> set (mapping_table sample_user) \<Longrightarrow> map_in_use m \<Longrightarrow> map_address m < next_map sample_user" for m
    by (simp add: sample_user(4) zero_mapping_def)
  obtain t w1 where w1: "ufs_mmap (int 0) 3 (UFS_PROT_READ OR UFS_PROT_WRITE) UFS_MAP_SHARED 0 sample_user = (Some (next_map sample_user), w1)"
      "volume_open 0 (w1\<lparr>memory := (\<lambda>_. 7)\<rparr>)" "fd_contents 0 (w1\<lparr>memory := (\<lambda>_. 7)\<rparr>) = fd_contents 0 sample_user"
      "fd_number 0 (w1\<lparr>memory := (\<lambda>_. 7)\<rparr>) = fd_number 0 sample_user"
      "mapping_at (next_map sample_user) (w1\<lparr>memory := (\<lambda>_. 7)\<rparr>) = Some t" "mapping_table w1 ! t = ?m"
      "file_mapping ?m (w1\<lparr>memory := (\<lambda>_. 7)\<rparr>)" "map_number ?m = fd_number 0 sample_user"
      "\<not> sync_error (next_map sample_user) 3 (w1\<lparr>memory := (\<lambda>_. 7)\<rparr>)" "\<not> unmap_error (next_map sample_user) 3 (w1\<lparr>memory := (\<lambda>_. 7)\<rparr>)"
    by (rule new_mapping_ready [OF sample_user(1) sample_mmap pre below, where f = "\<lambda>_. 7"])
  have sm: "sample_mapped = w1\<lparr>memory := (\<lambda>_. 7)\<rparr>" using w1(1) by (simp add: sample_mapped_def)
  note w = w1(2-10) [folded sm]
  show "namespace_ok sample_mapped" "unlocked sample_mapped" using volume_openD(1,4) [OF w(1)] .
  show "\<not> sync_error 65536 3 sample_mapped" "\<not> unmap_error 65536 3 sample_mapped" using w(8,9) by (simp_all add: sample_user(5))
  assume s: "mapping_at 65536 sample_mapped = Some s"
  then have "s = t" using w(4) by (simp add: sample_user(5))
  then have m: "mapping_table sample_mapped ! s = ?m" using w(5) unfolding sm by simp
  have "contents (file_at sample_mapped (map_number ?m)) = []"
    using trans [OF w(2) sample_user(3)] unfolding w(7) fd_contents_def fd_file_def file_at_def w(3) .
  moreover have "writes_back ?m" "map_file_offset ?m = 0" by (simp_all add: writes_back_def new_mapping_def)
  moreover have "memory_range a 3 sample_mapped = [7, 7, 7]" for a by (simp add: memory_range_def sm numeral_3_eq_3)
  ultimately have "written_back ?m 3 sample_mapped = [7, 7, 7]"
    by (simp add: written_back_def overlay_def resize_def)
  then show "file_mapping (mapping_table sample_mapped ! s) sample_mapped \<and>
      written_back (mapping_table sample_mapped ! s) 3 sample_mapped = [7, 7, 7]"
    unfolding m using w(6) by blast
qed

section \<open>Properties\<close>

lemma memory_range_written: "length bs = n \<Longrightarrow> memory w = write_bytes a bs f \<Longrightarrow> memory_range a n w = bs"
  by (auto simp: memory_range_def write_bytes_def intro!: nth_equalityI)

text \<open>C19: Mapping a file. On a descriptor that is open on a file of a well-formed volume, \<open>ufs_mmap\<close> fails exactly as
  \<open>mmap_error\<close> says: EINVAL for an empty range, a negative offset, a range that ends behind the largest file size (computed
  without wrap-around), or a wrong protection or kind, EACCES when the descriptor cannot read, or cannot write what a shared
  writable mapping needs, ENOMEM when all 32 mappings are in use; only \<open>errno\<close> is changed then. Otherwise
  the next free addresses hold the bytes of the range, padded with zeros behind the end of the file, other memory is
  untouched, the first free entry of the table describes the mapping, and the file and the volume are as before.\<close>

theorem mmap_spec:
  assumes "volume_open k w"
  shows "case mmap_error k len prot fl off w of
      Some e \<Rightarrow> ufs_mmap (int k) len prot fl off w = (None, w\<lparr>errno := e\<rparr>)
    | None \<Rightarrow> (case ufs_mmap (int k) len prot fl off w of
          (None, w1) \<Rightarrow> False
        | (Some a, w1) \<Rightarrow> a = next_map w \<and> memory_range a (unat len) w1 = resize (unat len) (drop (unat off) (fd_contents k w)) \<and>
            (\<forall>b. b < a \<or> a + unat len \<le> b \<longrightarrow> memory w1 b = memory w b) \<and>
            mapping_table w1 = (mapping_table w)[the (free_slot w) := new_mapping k len prot fl off w] \<and>
            volume_open k w1 \<and> fd_contents k w1 = fd_contents k w \<and> walk w1 = walk w)"
proof (cases "mmap_error k len prot fl off w")
  case (Some e)
  then show ?thesis using public_mmap [OF assms, of len prot fl off] by simp
next
  case None
  obtain w1 where w1: "ufs_mmap (int k) len prot fl off w = (Some (next_map w), w1)" "mapped k len prot fl off w w1"
      "volume_open k w1" "file_change (fd_number k w) w w1" "fd_contents k w1 = fd_contents k w"
    using public_mmap [OF assms, of len prot fl off] None by auto
  define bs where "bs = resize (unat len) (drop (unat off) (fd_contents k w))"
  have m: "memory w1 = write_bytes (next_map w) bs (memory w)" and lb: "length bs = unat len"
    using w1(2) by (simp_all add: mapped_def bs_def) (simp add: resize_def)
  have "memory w1 b = memory w b" if "b < next_map w \<or> next_map w + unat len \<le> b" for b
    using that by (auto simp: m write_bytes_def lb)
  moreover have "walk w1 = walk w" by (intro ext) (rule file_change(7) [OF volume_openD(1,2) [OF assms] w1(4)])
  ultimately show ?thesis
    using None w1 memory_range_written [OF lb m] by (simp add: bs_def mapped_def)
qed

theorem mmap_spec_witness:
  "case ufs_mmap 0 3 (UFS_PROT_READ OR UFS_PROT_WRITE) UFS_MAP_SHARED 0 sample_user of
      (None, w1) \<Rightarrow> False
    | (Some a, w1) \<Rightarrow> a = 65536 \<and> memory_range a 3 w1 = [0, 0, 0] \<and> volume_open 0 w1"
proof -
  have three: "resize (unat (3 :: u64)) [] = [0, 0, 0]" by (simp add: resize_def) (simp add: numeral_eq_Suc)
  show ?thesis
    using mmap_spec [OF sample_user(1), where len = 3 and prot = "UFS_PROT_READ OR UFS_PROT_WRITE" and fl = UFS_MAP_SHARED and off = 0]
    unfolding sample_mmap option.case sample_user(3) drop_Nil three by (auto simp: sample_user(5) split: option.splits)
qed

text \<open>C20: Synchronizing a mapping. On a well-formed volume, where the mapping at the address is one of a file with
  its current generation, \<open>ufs_msync\<close> fails with EINVAL and no other change for a zero address or length, an address that is no
  mapping's, or a length beyond the mapping. Otherwise, for a shared writable mapping, the first \<open>len\<close> bytes of its memory are
  stored in the file at the offset of the mapping, the file growing to hold them, or the file cannot grow: ENOSPC, and it
  keeps its bytes. Any other mapping leaves the file alone. No other file changes, the table of mappings stays, and the volume
  is well formed again.\<close>

theorem msync_spec:
  assumes "namespace_ok w" and "unlocked w" and "\<And>s. mapping_at a w = Some s \<Longrightarrow> file_mapping (mapping_table w ! s) w"
  shows "case ufs_msync a len w of (r, w1) \<Rightarrow>
    if sync_error a len w then r = None \<and> w1 = w\<lparr>errno := EINVAL\<rparr>
    else \<exists>s m n. mapping_at a w = Some s \<and> m = mapping_table w ! s \<and> n = map_number m \<and> namespace_ok w1 \<and> unlocked w1 \<and>
      mapping_table w1 = mapping_table w \<and> descriptor_table w1 = descriptor_table w \<and>
      (\<forall>x \<in> used_inodes w - {n}. inode_at w1 x = inode_at w x \<and> contents (file_at w1 x) = contents (file_at w x)) \<and>
      (case r of
         Some _ \<Rightarrow> contents (file_at w1 n) = written_back m (unat len) w
       | None \<Rightarrow> writes_back m \<and> contents (file_at w1 n) = contents (file_at w n) \<and>
           length (contents (file_at w n)) < unat (map_file_offset m) + unat len \<and> errno w1 = ENOSPC)"
proof -
  obtain r w1 where run: "ufs_msync a len w = (r, w1)" by fastforce
  show ?thesis
  proof (cases "sync_error a len w")
    case True
    then show ?thesis using public_msync(1) [OF assms(1,2), of a len] run by simp
  next
    case False
    then obtain s where s: "mapping_at a w = Some s" by (auto simp: sync_error_def split: option.splits)
    note e = public_msync(2) [OF assms(1,2) False s assms(3) [OF s] run]
    define m where "m = mapping_table w ! s"
    have f: "is_file w (map_number m)" using assms(3) [OF s] by (simp add: file_mapping_def m_def)
    have c: "file_change (map_number m) w w1" using e by (simp add: synced_file_def m_def)
    note c = file_change(4) [OF assms(1) f c]
    have sy: "namespace_ok w1" "unlocked w1" "descriptor_table w1 = descriptor_table w" "sync_effect m (unat len) r w w1"
        "mapping_table w1 = mapping_table w"
      using e by (simp_all add: synced_file_def m_def)
    show ?thesis unfolding run prod.case if_not_P [OF False]
      by (intro exI [of _ s] exI [of _ m] exI [of _ "map_number m"] conjI s m_def refl sy(1-3,5) ballI)
        (use c sy(4) in \<open>auto simp: sync_effect_def\<close>)
  qed
qed

theorem msync_spec_witness:
  "case ufs_msync 65536 3 sample_mapped of (r, w1) \<Rightarrow> \<exists>n. contents (file_at w1 n) = (if r = None then contents (file_at sample_mapped n) else [7, 7, 7])"
proof -
  have f: "mapping_at 65536 sample_mapped = Some s \<Longrightarrow> file_mapping (mapping_table sample_mapped ! s) sample_mapped" for s
    using sample_mapped(5) by blast
  obtain r w1 where run: "ufs_msync 65536 3 sample_mapped = (r, w1)" by fastforce
  have three: "unat (3 :: u64) = 3" by simp
  obtain s where "mapping_at 65536 sample_mapped = Some s" "case r of
         Some _ \<Rightarrow> contents (file_at w1 (map_number (mapping_table sample_mapped ! s))) = written_back (mapping_table sample_mapped ! s) 3 sample_mapped
       | None \<Rightarrow> contents (file_at w1 (map_number (mapping_table sample_mapped ! s))) = contents (file_at sample_mapped (map_number (mapping_table sample_mapped ! s)))"
    using msync_spec [OF sample_mapped(1,2) f, where a = 65536 and len = 3, unfolded run prod.case if_not_P [OF sample_mapped(3)] three]
    by (auto split: option.splits)
  then show ?thesis using sample_mapped(5) by (auto simp: run split: option.splits)
qed

text \<open>C18: A mapping is a window on the file. Map a range of a file, store anything in memory, and unmap: for a shared
  writable mapping the range of the file then holds what was in the memory of the mapping, the file being as
  long as the range needs; a private or read-only mapping leaves the file as it was. Unmapping fails only when the
  file would have to grow and cannot (ENOSPC), with its bytes kept. Addresses are handed out in ascending order, so that
  no older mapping lies above the next one.\<close>

theorem mapping_roundtrip:
  assumes "volume_open k w" and "mmap_error k len prot fl off w = None"
    and "length (mapping_table w) = UFS_MAX_MAPPINGS" and "0 < next_map w" and "next_map w < 2 ^ 64 - 1"
    and "\<And>m. m \<in> set (mapping_table w) \<Longrightarrow> map_in_use m \<Longrightarrow> map_address m < next_map w"
  shows "case ufs_mmap (int k) len prot fl off w of
      (None, w1) \<Rightarrow> False
    | (Some a, w1) \<Rightarrow> (case ufs_munmap a len (w1\<lparr>memory := f\<rparr>) of
          (None, w2) \<Rightarrow> fl = UFS_MAP_SHARED \<and> prot = UFS_PROT_READ OR UFS_PROT_WRITE \<and> errno w2 = ENOSPC \<and>
            length (fd_contents k w) < unat off + unat len \<and> fd_contents k w2 = fd_contents k w
        | (Some _, w2) \<Rightarrow> fd_contents k w2 =
            (if fl = UFS_MAP_SHARED \<and> prot = UFS_PROT_READ OR UFS_PROT_WRITE
             then overlay (unat off) (map f [a..<a + unat len])
               (resize (max (length (fd_contents k w)) (unat off + unat len)) (fd_contents k w))
             else fd_contents k w))"
proof -
  let ?m = "new_mapping k len prot fl off w"
  obtain s w1 where w1: "ufs_mmap (int k) len prot fl off w = (Some (next_map w), w1)" "volume_open k (w1\<lparr>memory := f\<rparr>)"
      "fd_contents k (w1\<lparr>memory := f\<rparr>) = fd_contents k w" "fd_number k (w1\<lparr>memory := f\<rparr>) = fd_number k w"
      "mapping_at (next_map w) (w1\<lparr>memory := f\<rparr>) = Some s" "mapping_table w1 ! s = ?m" "file_mapping ?m (w1\<lparr>memory := f\<rparr>)"
      "map_number ?m = fd_number k w" "\<not> sync_error (next_map w) len (w1\<lparr>memory := f\<rparr>)"
      "\<not> unmap_error (next_map w) len (w1\<lparr>memory := f\<rparr>)"
    by (rule new_mapping_ready [OF assms, where f = f])
  define v where "v = w1\<lparr>memory := f\<rparr>"
  note v = w1(2-5,7,10) [folded v_def]
  have tv: "mapping_table v ! s = ?m" using w1(6) by (simp add: v_def)
  obtain r w2 where run: "ufs_munmap (next_map w) len v = (r, w2)" by fastforce
  note e = public_munmap(2) [OF volume_openD(1,4) [OF v(1)] v(6,4) _ run, unfolded tv, OF v(5)]
  have d: "fd_number k w2 = fd_number k w" using e v(3) by (simp add: synced_file_def fd_number_def descriptor_def)
  have cv: "contents (file_at v (fd_number k w)) = fd_contents k w" using v(2,3) by (simp add: fd_contents_def fd_file_def file_at_def)
  have c2: "fd_contents k w2 = contents (file_at w2 (fd_number k w))" by (simp add: fd_contents_def fd_file_def file_at_def d)
  have "prot = 1 \<or> prot = 3" "fl = 1 \<or> fl = 2" using assms(2) by (auto simp: mmap_error_def Let_def split: if_splits)
  then have wb: "writes_back ?m \<longleftrightarrow> fl = UFS_MAP_SHARED \<and> prot = UFS_PROT_READ OR UFS_PROT_WRITE"
    by (auto simp: writes_back_def new_mapping_def)
  have m: "map_file_offset ?m = off" "memory_range (map_address ?m) (unat len) v = map f [next_map w..<next_map w + unat len]"
    by (simp_all add: new_mapping_def memory_range_def v_def)
  have "sync_effect ?m (unat len) r v w2" using e by (simp add: synced_file_def)
  then have "case r of
      Some _ \<Rightarrow> fd_contents k w2 = (if fl = UFS_MAP_SHARED \<and> prot = UFS_PROT_READ OR UFS_PROT_WRITE
        then overlay (unat off) (map f [next_map w..<next_map w + unat len])
          (resize (max (length (fd_contents k w)) (unat off + unat len)) (fd_contents k w)) else fd_contents k w)
    | None \<Rightarrow> fl = UFS_MAP_SHARED \<and> prot = UFS_PROT_READ OR UFS_PROT_WRITE \<and> fd_contents k w2 = fd_contents k w \<and>
        length (fd_contents k w) < unat off + unat len \<and> errno w2 = ENOSPC"
    unfolding sync_effect_def written_back_def w1(8) m wb cv Let_def c2 [symmetric] by (simp split: option.splits)
  then show ?thesis unfolding w1(1) prod.case option.case v_def [symmetric] run by (cases r) auto
qed

theorem mapping_roundtrip_witness:
  "case ufs_mmap 0 3 (UFS_PROT_READ OR UFS_PROT_WRITE) UFS_MAP_SHARED 0 sample_user of
      (None, w1) \<Rightarrow> False
    | (Some a, w1) \<Rightarrow> (case ufs_munmap a 3 (w1\<lparr>memory := (\<lambda>_. 7)\<rparr>) of
          (None, w2) \<Rightarrow> errno w2 = ENOSPC \<and> fd_contents 0 w2 = []
        | (Some _, w2) \<Rightarrow> fd_contents 0 w2 = [7, 7, 7])"
proof -
  have pre: "length (mapping_table sample_user) = UFS_MAX_MAPPINGS" "0 < next_map sample_user" "next_map sample_user < 2 ^ 64 - 1"
    by (simp_all add: sample_user(4,5))
  have below: "m \<in> set (mapping_table sample_user) \<Longrightarrow> map_in_use m \<Longrightarrow> map_address m < next_map sample_user" for m
    by (simp add: sample_user(4) zero_mapping_def)
  have "overlay 0 (map (\<lambda>_. 7) [a..<a + unat (3 :: u64)]) (resize (unat (3 :: u64)) []) = ([7, 7, 7] :: bytes)" for a
    by (simp add: overlay_def resize_def map_replicate_const) (simp add: numeral_eq_Suc)
  then show ?thesis
    using mapping_roundtrip [OF sample_user(1) sample_mmap pre below, where f = "\<lambda>_. 7"] unfolding sample_user(3)
    by (auto split: option.splits)
qed

end
