(* ===== verification/Ufs_Symlink.thy ===== *)
theory Ufs_Symlink
  imports Ufs_Files
begin

text \<open>
  Symbolic links on a well-formed volume: what \<open>ufs_symlink\<close> creates, the exact condition of each of its errors,
  after which the inode and the block taken are free again, and what \<open>ufs_readlink\<close> gives back.
\<close>

section \<open>The block of a link\<close>

text \<open>A bare inode gets its first block, with the text in it.\<close>

definition padded_text :: "bytes \<Rightarrow> bytes" where
  "padded_text bs = bs @ replicate (512 - length bs) 0"

definition one_block :: "nat \<Rightarrow> nat \<Rightarrow> ufs_inode \<Rightarrow> ufs_inode" where
  "one_block b len j = (set_direct 0 (of_nat b) j)\<lparr>ino_block_count := 1, ino_size := of_nat len\<rparr>"

lemma fill_block:
  assumes v: "volume_ok w" and n: "n \<in> used_inodes w" "bare (inode_at w n)" and b: "in_data_region b" "\<not> block_used w b"
    and j: "bare j" and len: "0 < length bs" "length bs \<le> 512"
  defines "k \<equiv> one_block b (length bs) j" and "u \<equiv> put_blk b (padded_text bs) (grab_block b w)"
  defines "w1 \<equiv> put_inode n k u"
  shows "live (grab_block b w)" "live u" "ino_wf k" "changes {n} w w1" "used_inodes w1 = used_inodes w"
    "file_at w1 n = (k, w1)" "file_ok (k, w1)" "contents (k, w1) = bs" "bmap w1 k 0 \<noteq> UFS_INVALID_BLOCK"
    "in_data_region c \<Longrightarrow> block_used w1 c \<longleftrightarrow> c = b \<or> block_used w c"
proof -
  define i where "i = inode_at w n"
  define j1 where "j1 = set_direct 0 (of_nat b) j"
  have l: "live w" and nn: "n < UFS_MAX_INODES" and si: "file_at w n = (i, w)"
    using volume_okD(2,4) [OF v] n(1) by (simp_all add: file_at_def i_def)
  have wfj: "file_ok (j, w)" "owned_blocks (j, w) = {}" "owned_blocks (i, w) = {}" "file_size (j, w) = 0"
    using bare_file(1,2) [OF j] bare_file(2) [OF n(2)] j by (simp_all add: i_def bare_def file_size_def)
  note wf = file_okD(1) [OF wfj(1)]
  have free: "bmap w j lb = UFS_INVALID_BLOCK" if "lb < UFS_MAX_FILE_BLOCKS" for lb
    using wfj(1,4) that by (simp add: file_ok_def maps_exactly_def blocks_needed_bounds)
  note bb = in_data_regionD [OF b(1)]
  note ub = unat_block [OF bb(2)]
  have rd: "Ufs_Filemap.ready (Data 0) (j, w)" using free [of 0] by (simp add: Ufs_Filemap.ready_def bmap_def)
  have cl: "claim_slot (Data 0) b (j, w) = (j1, grab_block b w)" by (simp add: claim_slot_def j1_def)
  note g = grown_claim [OF l wf rd b, unfolded cl]
  have st0: "file_step n (j, w) (j1, grab_block b w)" by (rule grown_file_step [OF g(1) wf])
  then have l0: "live (grab_block b w)" and wf0: "file_wf (j1, grab_block b w)" by (simp_all add: file_step_def others_kept_def)
  show "live (grab_block b w)" by (rule l0)
  have bk: "bmap (grab_block b w) j1 0 = of_nat b" using g(2) by (simp add: bmap_def)
  have lbs: "length (padded_text bs) = 512" using len by (simp add: padded_text_def)
  have m0: "0 < UFS_MAX_FILE_BLOCKS" by simp
  note pd = put_data_block [OF l0 wf0 m0, unfolded bk ub(1), OF ub(2) lbs, folded u_def]
  note st1 = file_step_trans [OF st0 pd(1)]
  have l1: "live u" and wf1: "file_wf (j1, u)" and ok1: "others_kept n (j, w) (j1, u)"
    using st1 by (simp_all add: file_step_def others_kept_def)
  show "live u" by (rule l1)
  have kk: "same_pointers k j1" "ino_wf k"
    using file_wf_ino [OF wf] by (simp_all add: k_def one_block_def j1_def set_direct_def same_pointers_def ino_wf_def)
  show "ino_wf k" by (rule kk(2))
  note sf = same_pointers_file [OF wf1 kk]
  have at: "inode_at w1 n = k" using l1 nn kk(2) by (simp add: w1_def)
  then show s1: "file_at w1 n = (k, w1)" by (simp add: file_at_def)
  have "others_kept n (j, w) (k, u)" using ok1 sf(2) by (simp add: others_kept_def)
  then have "others_kept n (j, w) (k, w1)" unfolding w1_def by (rule put_inode_others [OF _ sf(1) nn kk(2)])
  then have ok2: "others_kept n (i, w) (k, w1)" by (simp add: others_kept_def wfj)
  then show "changes {n} w w1" using n(1) by (intro changes_one) (simp_all add: si s1)
  show "used_inodes w1 = used_inodes w" using ok2 by (simp add: others_kept_def used_inodes_def)
  have map: "bmap w1 k lb = (if lb = 0 then of_nat b else UFS_INVALID_BLOCK)" if lb: "lb < UFS_MAX_FILE_BLOCKS" for lb
  proof -
    have "bmap w1 k lb = bmap (grab_block b w) j1 lb"
      unfolding w1_def using put_inode_bmap [OF sf(1) l1 kk(2) nn lb] sf(3) [OF lb] pd(2) [OF lb] by simp
    also have "\<dots> = (if lb = 0 then of_nat b else bmap w j lb)"
      using bk grownD(7) [OF g(1), of "Data lb"] lb by (simp add: bmap_def)
    finally show ?thesis using free [OF lb] by simp
  qed
  show "bmap w1 k 0 \<noteq> UFS_INVALID_BLOCK" using map [of 0] ub(2) by simp
  have data: "block_data (k, w1) 0 = padded_text bs"
  proof -
    have "bmap u k 0 \<noteq> UFS_INVALID_BLOCK" using sf(3) [of 0] pd(2) [of 0] bk ub(2) by simp
    then have "block_data (k, w1) 0 = block_data (j1, u) 0"
      unfolding w1_def using put_inode_data [OF sf(1) l1 kk(2) nn] sf(3) [of 0] by (simp add: block_data_def)
    then show ?thesis using pd(3) [of 0] bk ub(2) by simp
  qed
  have sz: "file_size (k, w1) = length bs" using len by (simp add: file_size_def k_def one_block_def unat_of_nat)
  have need: "blocks_needed (length bs) = 1"
    using len unfolding blocks_needed_def by (intro div_nat_eqI) (simp_all add: Suc_le_eq)
  have byte: "file_byte (k, w1) q = padded_text bs ! q" if "q < 512" for q using that data by (simp add: file_byte_def)
  have "file_wf (k, w1)" unfolding w1_def by (rule put_inode_file(1) [OF sf(1) l1 kk(2) nn])
  moreover have "maps_exactly 1 (k, w1)" using map ub(2) by (auto simp: maps_exactly_def)
  moreover have "zero_behind (length bs) (k, w1)"
    unfolding zero_behind_def need using byte by (simp add: padded_text_def nth_append)
  ultimately show "file_ok (k, w1)" using len by (simp add: file_ok_def sz need lean_def)
  have "contents (k, w1) = map ((!) (padded_text bs)) [0..<length bs]"
    using byte len(2) by (simp add: contents_def sz)
  also have "\<dots> = bs" by (rule nth_equalityI) (simp_all add: padded_text_def nth_append)
  finally show "contents (k, w1) = bs" .
  show "block_used w1 c \<longleftrightarrow> c = b \<or> block_used w c" if "in_data_region c"
    using grab_block_views(3) [OF l bb] in_data_regionD [OF that] l0 bb lbs kk(2) nn by (simp add: w1_def u_def)
qed


section \<open>Creation of a link\<close>

definition one_left :: "world \<Rightarrow> bool" where
  "one_left w \<longleftrightarrow> (\<exists>!b. in_data_region b \<and> \<not> block_used w b)"

text \<open>The link takes a block of its own before the directory may need one.\<close>

definition late_error :: "nat \<Rightarrow> string \<Rightarrow> world \<Rightarrow> errno option" where
  "late_error p name w =
     (if full w then Some ENOSPC
      else case add_error p name UFS_TYPE_SYMLINK w of Some e \<Rightarrow> Some e
      | None \<Rightarrow> if (\<forall>d \<in> set (dir_entries (file_at w p)). de_used d \<noteq> 0) \<and> one_left w then Some ENOSPC else None)"

definition symlink_error :: "string \<Rightarrow> string \<Rightarrow> world \<Rightarrow> errno option" where
  "symlink_error target path w =
     (if target = [] then Some ENOENT else if UFS_MAX_PATH < length target then Some ENAMETOOLONG
      else new_name_error path (\<lambda>p. late_error p (last (components path))) w)"

definition symlinked :: "nat \<Rightarrow> string \<Rightarrow> string \<Rightarrow> world \<Rightarrow> world \<Rightarrow> nat \<Rightarrow> bool" where
  "symlinked p name target w w1 n \<longleftrightarrow> new_node p name UFS_TYPE_SYMLINK w w1 n \<and> contents (file_at w1 n) = map byte_of_char target"

lemma link_node_step:
  assumes v: "volume_ok x" and n: "n \<in> used_inodes x" "ino_type (inode_at x n) = 0" and c: "changes {n} x u"
    and u: "used_inodes u = used_inodes x" "file_at u n = (k, u)" "file_ok (k, u)" "bmap u k 0 \<noteq> UFS_INVALID_BLOCK"
    and k: "ino_type k = UFS_TYPE_SYMLINK" "ino_block_count k \<noteq> 0" "0 < unat (ino_size k)" "unat (ino_size k) \<le> UFS_MAX_PATH"
  shows "volume_ok u" "\<not> is_dir u n"
proof -
  have at: "inode_at u n = k" using u(2) by (simp add: file_at_def)
  have nd: "\<not> is_dir x n" using n(2) by (simp add: is_dir_def)
  show ud: "\<not> is_dir u n" using at k(1) by (simp add: is_dir_def)
  show "volume_ok u"
  proof (rule changes_volume [OF v c])
    show "is_dir u UFS_ROOT_INODE" using changes_dir(1) [OF v c root_used [OF v]] root_used [OF v] nd by (cases "n = 0") auto
    show "ran (dir_map d x) \<subseteq> used_inodes u" if "is_dir x d" for d using dir_refs [OF v that] u(1) by simp
    show "file_ok (file_at u m)" if "m \<in> {n}" for m using that u(2,3) by simp
    show "dir_ok (file_at u m) \<and> ran (dir_map m u) \<subseteq> used_inodes u" if "m \<in> {n}" "is_dir u m" for m using that ud by simp
    show "link_ok (file_at u m)" if "m \<in> {n}" for m
      using that u(2,4) k file_okD(1) [OF u(3)] by (simp add: link_ok_def file_size_def)
  qed simp
qed

lemma late_error_run:
  assumes v: "volume_ok w" and c: "changes {n} w u" and p: "is_dir w p" "p \<noteq> n" and b: "in_data_region b" "\<not> block_used w b"
    and used: "\<And>c. in_data_region c \<Longrightarrow> block_used u c \<longleftrightarrow> c = b \<or> block_used w c"
  shows "add_error p name UFS_TYPE_SYMLINK u = late_error p name w"
proof -
  note d = changes_dir [OF v c p(1)]
  have i: "inode_at u p = inode_at w p" using changes_other(2) [OF v c] p by (simp add: is_dir_used)
  have "full u \<longleftrightarrow> one_left w" using used b by (auto simp: full_def one_left_def)
  moreover have "\<not> full w" using b by (auto simp: full_def)
  ultimately show ?thesis using d(3,4) p(2) by (auto simp: late_error_def add_error_def dir_blocks_def file_at_def i)
qed

definition enter_link :: "string \<Rightarrow> nat \<Rightarrow> string \<Rightarrow> nat \<Rightarrow> unit op" where
  "enter_link target p name n = attempt
       (on_ok (prepare_inode n UFS_TYPE_SYMLINK 0x1FF) (\<lambda>inode.
        on_ok allocate_data_block (\<lambda>physical. ret (inode, physical))))
       (\<lambda>(inode, physical).
          attempt (ufs_write_block physical (padded_text (map byte_of_char target)))
            (\<lambda>_. attempt
               (on_ok (write_inode n (one_block physical (length target) inode)) (\<lambda>_. directory_add p name n UFS_TYPE_SYMLINK))
               (\<lambda>_. touch_parent p)
               (fail_after (free_inode n)))
            (fail_after (discard (free_data_block physical) (free_inode n))))
       (fail_after (free_inode n))"

lemma symlink_steps:
  "ufs_symlink_unlocked target path =
     require (target \<noteq> []) ENOENT (
     require (length target \<le> UFS_MAX_PATH) ENAMETOOLONG (
     on_ok (writable_parent path) (\<lambda>(p, name). if_name_free p name (on_ok allocate_inode (enter_link target p name)))))"
  unfolding ufs_symlink_unlocked_def enter_link_def Let_def padded_text_def one_block_def by simp

lemma enter_link_run:
  assumes v: "volume_ok w" and p: "is_dir w p" and nul: "CHR 0x00 \<notin> set name"
    and target: "target \<noteq> []" "length target \<le> UFS_MAX_PATH"
    and n: "n \<in> unused_slots inode_used 1 UFS_MAX_INODES w" "\<forall>m \<in> unused_slots inode_used 1 UFS_MAX_INODES w. n \<le> m"
  shows "case enter_link target p name n (claim_inode n w) of (r, w1) \<Rightarrow> volume_ok w1 \<and>
     (case late_error p name w of
       Some e \<Rightarrow> r = None \<and> errno w1 = e \<and> nothing_changed w w1
     | None \<Rightarrow> r = Some () \<and> symlinked p name target w w1 n)"
proof -
  define bs where "bs = map byte_of_char target"
  have bs: "0 < length bs" "length bs \<le> 512" "length target = length bs" using target by (simp_all add: bs_def)
  have nn: "1 \<le> n" "n < UFS_MAX_INODES" "n \<notin> used_inodes w" using n(1) by (simp_all add: unused_slots_def used_inodes_def)
  have pn: "p \<noteq> n" using p nn(3) by (auto simp: is_dir_used)
  obtain j x where pr: "prepare_inode n UFS_TYPE_SYMLINK 0x1FF (claim_inode n w) = (Some j, x)" "changes {n} w x" "volume_ok x"
    "used_inodes x = insert n (used_inodes w)" "bare (inode_at x n)" "ino_type (inode_at x n) = 0" "bare j" "ino_type j = UFS_TYPE_SYMLINK"
    "ino_mode j = new_mode UFS_TYPE_SYMLINK w" "ino_uid j = euid w" "ino_gid j = egid w" "ino_link_count j = 1"
    "ino_generation j = next_generation (ino_generation (inode_at w n))" "blk x = blk (claim_inode n w)"
    by (rule prepare_run [where type = UFS_TYPE_SYMLINK and requested = "0x1FF", OF v nn(2,3)]) simp_all
  have lx: "live x" by (rule volume_okD(2) [OF pr(3)])
  have none: "blocks_of {n} w = {}" "blocks_of {n} x = {}"
    using nn(3) bare_file(2) [OF pr(5)] by (simp_all add: blocks_of_def file_at_def)
  have bu: "block_used x c \<longleftrightarrow> block_used w c" if "in_data_region c" for c
    using changesD(2) [OF pr(2) that] none by simp
  have nx: "n \<in> used_inodes x" by (simp add: pr(4))
  from lx show ?thesis
  proof (cases rule: allocate_cases)
    case full
    define y where "y = x\<lparr>errno := ENOSPC\<rparr>"
    have s: "same_view y x" by (simp add: y_def)
    note sv = same_view_step [OF s pr(3)] and views = same_view [OF s]
    have fw: "full w" using full(2) bu by (simp add: full_def)
    have "is_dir y n \<Longrightarrow> dir_map n y = Map.empty" using pr(6) by (simp add: views is_dir_used)
    from give_back [OF v changes_trans [OF pr(2) sv(1)] sv(2) _ nn(3,1) this] pr(4) views(2)
    have "\<exists>w1. fail_after (free_inode n) y = (None :: unit option, w1) \<and> volume_ok w1 \<and> errno w1 = errno y \<and> nothing_changed w w1"
      by simp
    then show ?thesis using pr(1) full(1) fw by (auto simp: enter_link_def run_simps attempt_def late_error_def y_def)
  next
    case (block b)
    define k where "k = one_block b (length bs) j"
    note fill = fill_block [OF pr(3) nx pr(5) block(2,3) pr(7) bs(1,2), folded k_def]
    define u where "u = put_inode n k (put_blk b (padded_text bs) (grab_block b x))"
    note fill = fill [folded u_def]
    have c: "changes {n} w u" using changes_trans [OF pr(2) fill(4)] .
    have kk: "ino_type k = UFS_TYPE_SYMLINK" "ino_block_count k \<noteq> 0" "unat (ino_size k) = length bs" "ino_mode k = ino_mode j"
        "ino_uid k = ino_uid j" "ino_gid k = ino_gid j" "ino_link_count k = ino_link_count j" "ino_generation k = ino_generation j"
      using pr(8) bs by (simp_all add: k_def one_block_def set_direct_def unat_of_nat)
    note vol = link_node_step [OF pr(3) nx pr(6) fill(4-7,9) kk(1,2)]
    have vu: "volume_ok u" "\<not> is_dir u n" using vol kk(3) bs target by simp_all
    have at: "inode_at u n = k" using fill(6) by (simp add: file_at_def)
    have uu: "used_inodes u = insert n (used_inodes w)" using fill(5) pr(4) by simp
    have used: "block_used u c \<longleftrightarrow> c = b \<or> block_used w c" if "in_data_region c" for c using fill(10) [OF that] bu [OF that] by simp
    have "\<not> block_used w b" using block(2,3) bu by simp
    then have ae: "add_error p name UFS_TYPE_SYMLINK u = late_error p name w"
      by (rule late_error_run [OF v c p pn block(2)]) (rule used)
    define m where "m = on_ok (write_inode n k) (\<lambda>_. directory_add p name n UFS_TYPE_SYMLINK)"
    have step: "m (put_blk b (padded_text bs) (grab_block b x)) = directory_add p name n UFS_TYPE_SYMLINK u"
      using fill(2,3) nn(2) by (simp add: m_def run_simps io_simps u_def)
    have "is_dir u n \<Longrightarrow> dir_map n u = Map.empty" using vu(2) by simp
    note enter = enter_node [where m = m and x = "put_blk b (padded_text bs) (grab_block b x)",
        OF v p nul nn(3,1) c vu(1) uu this step, unfolded ae]
    have wb: "ufs_write_block b (padded_text bs) (grab_block b x) = (Some (), put_blk b (padded_text bs) (grab_block b x))"
      using fill(1) in_data_regionD [OF block(2)] bs by (simp add: io_simps padded_text_def)
    have run: "enter_link target p name n (claim_inode n w) =
        attempt m (\<lambda>_. touch_parent p) (fail_after (free_inode n)) (put_blk b (padded_text bs) (grab_block b x))"
      unfolding enter_link_def bs_def [symmetric] bs(3) attempt_def m_def k_def
      using pr(1) block(1) wb by (simp add: run_simps ret_def)
    have "contents (file_at u n) = bs" using fill(6,8) by simp
    then show ?thesis
      using enter kk pr(9-13) n unfolding run
      by (simp add: symlinked_def new_node_def at bs_def split: prod.splits option.splits)
  qed
qed

lemma symlinked_views:
  assumes "same_view v w" and "same_view v1 w1"
  shows "symlinked p name target v v1 n = symlinked p name target w w1 n"
  using new_node_views [OF assms] same_view(9) [OF assms(2)] by (simp add: symlinked_def)

lemma late_error_views: "same_view v w \<Longrightarrow> late_error p name v = late_error p name w"
  by (simp only: same_view late_error_def add_error_def one_left_def)

lemma symlink_error_views: "same_view v w \<Longrightarrow> symlink_error target path v = symlink_error target path w"
  by (simp only: symlink_error_def new_name_error_views [OF _ late_error_views])

lemma symlink_run:
  assumes v: "volume_ok w" and nul: "CHR 0x00 \<notin> set path"
  shows "case ufs_symlink_unlocked target path w of (r, w1) \<Rightarrow> volume_ok w1 \<and>
    (case symlink_error target path w of
       Some e \<Rightarrow> r = None \<and> errno w1 = e \<and> nothing_changed w w1
     | None \<Rightarrow> r = Some () \<and> (\<exists>p n. find_parent path w = Inr p \<and> symlinked p (last (components path)) target w w1 n))"
proof (cases "target \<noteq> [] \<and> length target \<le> UFS_MAX_PATH")
  case False
  then show ?thesis using nothing_changed_errno [OF v] by (auto simp: symlink_steps run_simps fail_def symlink_error_def)
next
  case t: True
  define m where "m = on_ok (writable_parent path) (\<lambda>(p, name). if_name_free p name (on_ok allocate_inode (enter_link target p name)))"
  have run: "ufs_symlink_unlocked target path w = m w" using t by (simp add: symlink_steps m_def require_def)
  have err: "symlink_error target path w = new_name_error path (\<lambda>p. late_error p (last (components path))) w"
    using t by (simp add: symlink_error_def)
  show ?thesis unfolding run err
  proof (rule new_name_run [OF v nul m_def])
    fix p n u
    assume s: "same_view u w" and u: "volume_ok u" "is_dir u p" "CHR 0x00 \<notin> set (last (components path))"
      "n \<in> unused_slots inode_used 1 UFS_MAX_INODES u" "\<forall>m \<in> unused_slots inode_used 1 UFS_MAX_INODES u. n \<le> m"
    show "case enter_link target p (last (components path)) n (claim_inode n u) of
      (r, w1) \<Rightarrow> volume_ok w1 \<and> (case late_error p (last (components path)) w of
         Some e \<Rightarrow> r = None \<and> errno w1 = e \<and> nothing_changed u w1
       | None \<Rightarrow> r = Some () \<and> symlinked p (last (components path)) target u w1 n)"
      using enter_link_run [OF u(1-3) _ _ u(4,5), of target] t by (simp add: late_error_views [OF s])
  qed (rule symlinked_views; simp)
qed

lemma public_symlink:
  assumes ns: "namespace_ok w" and d: "lock_depth w = 0" and nul: "CHR 0x00 \<notin> set path"
  shows "case ufs_symlink target path w of (r, w1) \<Rightarrow> namespace_ok w1 \<and> unlocked w1 \<and>
    (case symlink_error target path w of
       Some e \<Rightarrow> r = None \<and> errno w1 = e \<and> nothing_changed w w1
     | None \<Rightarrow> r = Some () \<and> (\<exists>p n. find_parent path w = Inr p \<and> symlinked p (last (components path)) target w w1 n))"
  unfolding ufs_symlink_def
proof (rule public_change [OF ns d ctx.quiet_create(8)])
  have v: "volume_ok w" and s: "same_view (locked F_WRLCK w) w" using ns by (simp_all add: namespace_ok_def)
  have "symlinked p nm target (locked F_WRLCK w) u n = symlinked p nm target w u n" for p nm u n by (rule symlinked_views [OF s]) simp
  then show "case ufs_symlink_unlocked target path (locked F_WRLCK w) of (r, u) \<Rightarrow> volume_ok u \<and>
    (case symlink_error target path w of
       Some e \<Rightarrow> r = None \<and> errno u = e \<and> nothing_changed (locked F_WRLCK w) u
     | None \<Rightarrow> r = Some () \<and> (\<exists>p n. find_parent path w = Inr p \<and> symlinked p (last (components path)) target w u n))"
    using symlink_run [OF same_view_step(2) [OF s v] nul, of target] by (simp only: symlink_error_views [OF s] same_view_parent [OF s])
  fix u v assume sv: "same_view v u" and vv: "volume_ok v" and None: "symlink_error target path w = None"
    and "\<exists>p n. find_parent path w = Inr p \<and> symlinked p (last (components path)) target w u n"
  then obtain p n where r: "find_parent path w = Inr p" "symlinked p (last (components path)) target w v n"
    using symlinked_views [OF same_view_simps(1) sv] by auto
  have "is_dir w p" "dir_map p w (last (components path)) = None"
    using None r(1) find_parent_used [OF volume_okD(1) [OF \<open>volume_ok w\<close>] r(1)]
    by (simp_all add: symlink_error_def new_name_error_def is_dir_used split: if_splits)
  then show "namespace_ok v \<and> (\<exists>p n. find_parent path w = Inr p \<and> symlinked p (last (components path)) target w v n)"
    using new_node_namespace [OF ns vv, of p "last (components path)" UFS_TYPE_SYMLINK n] r by (auto simp: symlinked_def)
qed

section \<open>Reading a link\<close>

definition readlink_result :: "string \<Rightarrow> nat \<Rightarrow> world \<Rightarrow> errno + nat" where
  "readlink_result path bufsize w =
     (if bufsize = 0 \<or> \<not> valid_path path then Inl EINVAL
      else case walk w True 39 (components path) of Inl e \<Rightarrow> Inl e | Inr m \<Rightarrow>
        if ino_type (inode_at w m) \<noteq> UFS_TYPE_SYMLINK then Inl EINVAL else Inr m)"

text \<open>Nothing but the access time of inode \<open>m\<close> has changed.\<close>

definition accessed :: "nat \<Rightarrow> world \<Rightarrow> world \<Rightarrow> bool" where
  "accessed m w w1 \<longleftrightarrow> changes {m} w w1 \<and> used_inodes w1 = used_inodes w \<and>
     (\<exists>t. inode_at w1 m = (inode_at w m)\<lparr>ino_atime := t\<rparr>) \<and> contents (file_at w1 m) = contents (file_at w m)"

lemma accessed_views: "same_view v w \<Longrightarrow> same_view v1 w1 \<Longrightarrow> accessed m v v1 = accessed m w w1"
  by (simp add: accessed_def same_view same_view_changes)

lemma readlink_result_views: "same_view v w \<Longrightarrow> readlink_result path bufsize v = readlink_result path bufsize w"
  by (simp only: readlink_result_def same_view)

lemma link_contents:
  assumes v: "volume_ok w" and m: "m \<in> used_inodes w" "ino_type (inode_at w m) = UFS_TYPE_SYMLINK"
  shows "read_symlink_target (inode_at w m) w = (Some (contents (file_at w m)), w)"
    "length (contents (file_at w m)) = unat (ino_size (inode_at w m))"
proof -
  define i where "i = inode_at w m"
  have s: "file_at w m = (i, w)" by (simp add: file_at_def i_def)
  have l: "live w" by (rule volume_okD(2) [OF v])
  have "link_ok (i, w)" using tree_ok_link [OF volume_okD(1) [OF v] _ m(2)] m(1) by (simp add: used_inodes_def s)
  then have lk: "file_wf (i, w)" "0 < unat (ino_size i)" "unat (ino_size i) \<le> UFS_MAX_PATH" "ino_block_count i \<noteq> 0"
    "bmap w i 0 \<noteq> UFS_INVALID_BLOCK"
    by (simp_all add: link_ok_def file_size_def)
  have "ino_size i \<noteq> 0" using lk(2) by auto
  then have run: "read_symlink_target i w = (Some (take (unat (ino_size i)) (block_data (i, w) 0)), w)"
    using lk l m(2) get_inode_data_block_live [OF l lk(1), of 0] in_data_regionD [OF bmap_region(1) [OF lk(1) _ lk(5)]]
    by (simp add: read_symlink_target_def run_simps io_simps ret_def block_data_def i_def [symmetric])
  have "take (unat (ino_size i)) (block_data (i, w) 0) = contents (i, w)"
    using lk(3) by (intro nth_equalityI) (simp_all add: file_size_def nth_contents file_byte_def)
  then show "read_symlink_target (inode_at w m) w = (Some (contents (file_at w m)), w)"
    "length (contents (file_at w m)) = unat (ino_size (inode_at w m))"
    using run by (simp_all add: s i_def [symmetric] file_size_def)
qed

lemma readlink_run:
  assumes v: "volume_ok w"
  shows "case ufs_readlink_unlocked path bufsize w of (r, w1) \<Rightarrow> volume_ok w1 \<and>
    (case readlink_result path bufsize w of
       Inl e \<Rightarrow> r = None \<and> errno w1 = e \<and> nothing_changed w w1
     | Inr m \<Rightarrow> r = Some (take bufsize (contents (file_at w m))) \<and> accessed m w w1)"
proof -
  have t: "tree_ok w" and l: "live w" by (rule volume_okD [OF v])+
  note res = resolve_run [OF t, of path UFS_RESOLVE_NOFOLLOW_FINAL]
  have early: ?thesis if "ufs_readlink_unlocked path bufsize w = (None, w\<lparr>errno := e\<rparr>)" "readlink_result path bufsize w = Inl e" for e
    using that nothing_changed_errno [OF v, of e] by simp
  show ?thesis
  proof (cases "bufsize = 0 \<or> \<not> valid_path path")
    case True
    then show ?thesis
      by (intro early [of EINVAL]) (use res in \<open>auto simp: ufs_readlink_unlocked_def readlink_result_def run_simps fail_def require_def\<close>)
  next
    case ok: False
    show ?thesis
    proof (cases "walk w True 39 (components path)")
      case (Inl e)
      then show ?thesis using res ok
        by (intro early [of e]) (simp_all add: ufs_readlink_unlocked_def readlink_result_def run_simps outcome_def)
    next
      case (Inr m)
      have u: "m \<in> used_inodes w" "m < UFS_MAX_INODES" using walk_used [OF t Inr] by (simp_all add: used_inodes_def)
      define i where "i = inode_at w m"
      have ri: "read_inode m w = (Some i, w)" using l u by (simp add: io_simps i_def)
      show ?thesis
      proof (cases "ino_type i = UFS_TYPE_SYMLINK")
        case False
        then show ?thesis using res ok Inr ri
          by (intro early [of EINVAL])
            (simp_all add: ufs_readlink_unlocked_def readlink_result_def run_simps outcome_def fail_def i_def [symmetric])
      next
        case link: True
        define bs where "bs = contents (file_at w m)"
        note con = link_contents [OF v u(1), folded i_def bs_def, OF link]
        have tk: "take (if unat (ino_size i) < bufsize then unat (ino_size i) else bufsize) bs = take bufsize bs"
          using con(2) by simp
        obtain upd c1 where up: "ufs_should_update_atime i w = (Some upd, w\<lparr>ticks := c1\<rparr>)"
          using touch_calm(3) [OF live_script [OF l]] by blast
        define x where "x = w\<lparr>ticks := c1\<rparr>"
        have rr: "readlink_result path bufsize w = Inr m" using ok Inr link by (simp add: readlink_result_def i_def)
        have run: "ufs_readlink_unlocked path bufsize w =
            (if upd then on_ok (ufs_touch_atime i) (\<lambda>inode. on_ok (write_inode m inode) (\<lambda>_. ret (take bufsize bs)))
             else ret (take bufsize bs)) x"
          using res ok Inr ri link con(1) up tk
          by (simp add: ufs_readlink_unlocked_def run_simps outcome_def Let_def attempt_def ret_def x_def)
        have sx: "same_view x w" by (simp add: x_def)
        note stx = same_view_step [OF sx v] and views = same_view [OF sx]
        show ?thesis
        proof (cases upd)
          case False
          have "\<exists>t. i = i\<lparr>ino_atime := t\<rparr>" by (rule exI [of _ "ino_atime i"]) simp
          then have "accessed m w x" using stx(1) views by (simp add: accessed_def i_def)
          then show ?thesis using run False stx(2) rr by (simp add: ret_def bs_def)
        next
          case True
          have lx: "live x" by (rule volume_okD(2) [OF stx(2)])
          obtain tm c2 where ta: "ufs_touch_atime i x = (Some (i\<lparr>ino_atime := tm\<rparr>), x\<lparr>ticks := c2\<rparr>)"
            using touch_calm(2) [OF live_script [OF lx]] by blast
          define y where "y = x\<lparr>ticks := c2\<rparr>"
          define j where "j = i\<lparr>ino_atime := tm\<rparr>"
          have sy: "same_view y w" by (simp add: y_def x_def)
          note sty = same_view_step [OF sy v] and viewsy = same_view [OF sy]
          have wfi: "ino_wf i" using l by (simp add: i_def)
          then have wf: "ino_wf j" by (simp add: j_def ino_wf_def)
          have lay: "same_layout j (inode_at y m)" using wf
            by (simp add: same_layout_def viewsy i_def [symmetric] j_def same_pointers_def)
          have uy: "m \<in> used_inodes y" using u by (simp add: viewsy)
          note up = update_inode [OF sty(2) uy lay]
          define w1 where "w1 = put_inode m j y"
          have "ufs_readlink_unlocked path bufsize w = (Some (take bufsize bs), w1)"
            using run True ta volume_okD(2) [OF sty(2)] u(2) wf
            by (simp add: run_simps io_simps ret_def y_def [symmetric] j_def [symmetric] w1_def)
          moreover have "changes {m} w w1" using changes_trans [OF sty(1) up(1)] by (simp add: w1_def)
          moreover have "inode_at w1 m = j" using wf by (simp add: w1_def)
          moreover have "used_inodes w1 = used_inodes w" using wf viewsy(2) by (simp add: w1_def used_inodes_def)
          moreover have "volume_ok w1" "contents (file_at w1 m) = contents (file_at w m)"
            using up(2,4) viewsy(9) by (simp_all add: w1_def)
          ultimately show ?thesis using rr by (auto simp: accessed_def j_def i_def bs_def)
        qed
      qed
    qed
  qed
qed

lemma accessed_namespace:
  assumes ns: "namespace_ok w" and v1: "volume_ok w1" and a: "accessed m w w1" and ty: "\<not> is_dir w m"
  shows "namespace_ok w1"
proof -
  have v: "volume_ok w" and c: "changes {m} w w1" and u: "used_inodes w1 = used_inodes w"
    and at: "same_attrs (inode_at w1 m) (inode_at w m)"
    using ns a by (auto simp: namespace_ok_def accessed_def same_attrs_def)
  have ty1: "\<not> is_dir w1 m" using ty at u by (simp add: is_dir_used same_attrs_def)
  have "link_count_ok w1 n" if n: "n \<in> used_inodes w" for n
  proof -
    have "names_of w1 n = names_of w n" using ty ty1 by (intro changes_names [OF v c]) (simp add: entries_of_def)
    moreover have "same_attrs (inode_at w1 n) (inode_at w n)" using at changes_other(2) [OF v c n] by (cases "n = m") simp_all
    ultimately have "link_count_ok w1 n = link_count_ok w n" by (rule link_count_same)
    then show ?thesis using ns n by (simp add: namespace_ok_def)
  qed
  then show ?thesis using v1 u by (simp add: namespace_ok_def)
qed

lemma public_readlink:
  assumes ns: "namespace_ok w" and d: "lock_depth w = 0"
  shows "case ufs_readlink path bufsize w of (r, w1) \<Rightarrow> namespace_ok w1 \<and> unlocked w1 \<and>
    (case readlink_result path bufsize w of
       Inl e \<Rightarrow> r = None \<and> errno w1 = e \<and> nothing_changed w w1
     | Inr m \<Rightarrow> r = Some (take bufsize (contents (file_at w m))) \<and> accessed m w w1)"
proof -
  have v: "volume_ok w" using ns by (simp add: namespace_ok_def)
  define x where "x = locked F_RDLCK w"
  have s: "same_view x w" by (simp add: x_def)
  obtain r u where run: "ufs_readlink_unlocked path bufsize x = (r, u)" by fastforce
  note b = readlink_run [where path = path and bufsize = bufsize, OF same_view_step(2) [OF s v], unfolded run prod.case readlink_result_views [OF s]]
  have vu: "volume_ok u" using b by (rule conjunct1)
  have lu: "live u" by (rule volume_okD(2) [OF vu])
  have pub: "ufs_readlink path bufsize w = (r, released u)"
    unfolding ufs_readlink_def by (rule with_read_lock_live [OF volume_okD(2) [OF v] d run [unfolded x_def] ctx.quiet_create(9) lu])
  have su: "same_view (released u) u" using lu by simp
  have vr: "volume_ok (released u)" by (rule same_view_step(2) [OF su vu])
  have un: "unlocked (released u)" by (simp add: unlocked_def released_def)
  show ?thesis
  proof (cases "readlink_result path bufsize w")
    case (Inl e)
    then have "nothing_changed w (released u)" using b nothing_changed_views [OF same_view_sym [OF s] su] by simp
    then show ?thesis using nothing_changed_namespace [OF ns vr] pub un b Inl by simp
  next
    case (Inr m)
    then have a: "accessed m w (released u)" using b accessed_views [OF same_view_sym [OF s] su] by simp
    have "ino_type (inode_at w m) = UFS_TYPE_SYMLINK" using Inr by (auto simp: readlink_result_def split: if_splits sum.splits)
    then have "\<not> is_dir w m" by (simp add: is_dir_def)
    from accessed_namespace [OF ns vr a this] show ?thesis using pub un b Inr a same_view(9) [OF s] by simp
  qed
qed

section \<open>The way to a new link\<close>

text \<open>No operation on names changes the credentials.\<close>

definition credentials :: "u32 \<times> u32 \<times> u32 list \<Rightarrow> world \<Rightarrow> bool" where
  "credentials c w \<longleftrightarrow> (euid w, egid w, sup_groups w) = c"

interpretation credentials: table_frame "credentials c" for c
  by unfold_locales (simp_all add: credentials_def set_offset_def set_descriptor_def descriptor_table_reset_def)

lemma writable_searchable: "writable w i \<Longrightarrow> searchable w i"
  by (auto simp: writable_def searchable_def Let_def)

lemma same_caller_attrs:
  assumes "same_callers v w" and "same_attrs j i"
  shows "searchable v j = searchable w i" "writable v j = writable w i"
  using assms by (simp_all add: searchable_def writable_def same_callers_def same_attrs_def access_class_def)

text \<open>A walk without links leads to the new name as it led to its directory.\<close>

lemma scan_new_name:
  assumes v: "volume_ok w" and nn: "new_node p name UFS_TYPE_SYMLINK w w1 new" and c: "same_callers w1 w"
    and p: "is_dir w p" "dir_map p w name = None" "searchable w (inode_at w p)"
  shows "is_dir w n \<Longrightarrow> scan w False pre n cs = Found p \<Longrightarrow> scan w1 True pre n (cs @ [name]) = Found new"
proof (induction cs arbitrary: pre n)
  case (Nil pre n)
  then have n: "n = p" by simp
  have "same_attrs (inode_at w1 p) (inode_at w p)" using nn by (simp add: new_node_def)
  then have "searchable w1 (inode_at w1 p)" using p(3) same_caller_attrs(1) [OF c] by metis
  then show ?case using nn by (simp add: n new_node_def)
next
  case (Cons a cs)
  have ch: "changes {new, p} w w1" and out: "new \<notin> used_inodes w"
    using nn by (auto simp: new_node_def unused_slots_def used_inodes_def)
  have at: "same_attrs (inode_at w1 m) (inode_at w m)" if m: "m \<in> used_inodes w" for m
  proof (cases "m = p")
    case True
    then show ?thesis using nn by (simp add: new_node_def)
  next
    case False
    moreover have "m \<noteq> new" using m out by blast
    ultimately show ?thesis using changes_other(2) [OF v ch m] by simp
  qed
  have nu: "n \<in> used_inodes w" "n \<noteq> new" using Cons.prems(1) out by (auto simp: is_dir_used)
  have se: "searchable w1 (inode_at w1 n) = searchable w (inode_at w n)" by (rule same_caller_attrs(1) [OF c at [OF nu(1)]])
  obtain m where m: "searchable w (inode_at w n)" "dir_map n w a = Some m"
      "\<not> ino_type (inode_at w m) = UFS_TYPE_SYMLINK" "cs \<noteq> [] \<longrightarrow> ino_type (inode_at w m) = UFS_TYPE_DIR"
      "scan w False (pre @ [a]) m cs = Found p"
    using Cons.prems(2) by (auto split: if_splits option.splits)
  have mu: "m \<in> used_inodes w" using dir_refs [OF v Cons.prems(1)] m(2) by (auto intro: ranI)
  have d: "is_dir w m"
  proof (cases "cs = []")
    case True
    then show ?thesis using m(5) p(1) by simp
  next
    case False
    then show ?thesis using m(4) mu by (simp add: is_dir_used)
  qed
  have "dir_map n w1 a = Some m"
  proof (cases "n = p")
    case True
    then have "a \<noteq> name" using m(2) p(2) by auto
    then show ?thesis using m(2) nn True by (simp add: new_node_def)
  next
    case False
    then show ?thesis using changes_dir(3) [OF v ch Cons.prems(1)] nu(2) m(2) by simp
  qed
  moreover have "ino_type (inode_at w1 m) = UFS_TYPE_DIR" using at [OF mu] d by (simp add: is_dir_used same_attrs_def)
  ultimately show ?case using m(1) se Cons.IH [OF d m(5)] by simp
qed

lemma symlink_found:
  assumes ns: "namespace_ok w" and d: "lock_depth w = 0" and nul: "CHR 0x00 \<notin> set path"
    and way: "scan w False [] UFS_ROOT_INODE (butlast (components path)) = Found p"
    and run: "ufs_symlink target path w = (Some (), w1)"
  obtains n where "namespace_ok w1" "lock_depth w1 = 0" "valid_path path" "walk w1 True 39 (components path) = Inr n"
    "symlinked p (last (components path)) target w w1 n"
proof -
  have v: "volume_ok w" using ns by (simp add: namespace_ok_def)
  note pub = public_symlink [OF ns d nul, of target, unfolded run prod.case]
  then obtain q n where err: "symlink_error target path w = None" and q: "find_parent path w = Inr q"
      and sl: "symlinked q (last (components path)) target w w1 n"
    by (cases "symlink_error target path w") auto
  have vp: "valid_path path" "path \<noteq> [slash]" "walk w False 39 (butlast (components path)) = Inr q" "writable w (inode_at w q)"
    using q by (auto simp: find_parent_def split: if_splits sum.splits)
  have walk: "walk x nf 39 cs = Inr m" if "scan x nf [] UFS_ROOT_INODE cs = Found m" for x nf cs m
  proof -
    have "walk x nf (Suc 38) cs = Inr m" using that by (simp only: walk.simps scan_result.case)
    then show ?thesis by simp
  qed
  have qp: "q = p" using vp(3) walk [OF way] by simp
  have kept: "preserves (credentials (euid w, egid w, sup_groups w)) (ufs_symlink target path)" by (rule credentials.namespace_keeps(9))
  have c: "same_callers w1 w" using preservesD [OF kept, of w] run by (simp add: credentials_def same_callers_def)
  have p: "is_dir w p" "dir_map p w (last (components path)) = None"
    using err q find_parent_used [OF volume_okD(1) [OF v] q] unfolding qp
    by (simp_all add: symlink_error_def new_name_error_def is_dir_used split: if_splits)
  have "components path \<noteq> []" using components_valid [OF vp(1)] vp(2) by (auto simp: path_of_def)
  then have cs: "butlast (components path) @ [last (components path)] = components path" by simp
  have nn: "new_node p (last (components path)) UFS_TYPE_SYMLINK w w1 n" using sl by (simp add: symlinked_def qp)
  note found = scan_new_name [OF v nn c p writable_searchable [OF vp(4) [unfolded qp]] root_used [OF v] way, unfolded cs]
  show ?thesis
    by (rule that [OF _ _ vp(1) walk [OF found]]) (use pub sl qp err in \<open>simp_all add: unlocked_def\<close>)
qed

section \<open>Properties\<close>

text \<open>C11: Making a symbolic link. In a well-formed namespace \<open>ufs_symlink\<close> fails exactly as \<open>symlink_error\<close>
  says, in this order: ENOENT for an empty target, ENAMETOOLONG for one of more than 255 bytes, the errors of
  finding and of permission to change the parent, ENOTDIR, EEXIST, ENOSPC without a free inode or a free block,
  the errors of adding the name, and ENOSPC when the directory needs a block and the link took the last one. After an error
  nothing that is in use has changed: the inode and the block already allocated are given back. Otherwise the new inode is
  the lowest unused one, a link with mode 0777, whatever the umask, with the caller's ids, one
  link and the bytes of the target as its contents; the parent maps the name to it and every other name as before, and
  no other inode and no block of another file changes. In all cases the namespace is well formed again,
  and the lock is released.\<close>

theorem symlink_spec:
  assumes "namespace_ok w" and "lock_depth w = 0" and "CHR 0x00 \<notin> set path"
  shows "case ufs_symlink target path w of (r, w1) \<Rightarrow> namespace_ok w1 \<and> unlocked w1 \<and>
    (case symlink_error target path w of
       Some e \<Rightarrow> r = None \<and> errno w1 = e \<and> nothing_changed w w1
     | None \<Rightarrow> r = Some () \<and> (\<exists>p n. find_parent path w = Inr p \<and> symlinked p (last (components path)) target w w1 n))"
  by (rule public_symlink [OF assms])

text \<open>C21: Reading a symbolic link. On a well-formed volume \<open>ufs_readlink\<close> fails with EINVAL for an empty buffer,
  a malformed path or an inode that is no link, and with the error of walking the path, whose last name is not followed;
  nothing in use has changed then. Otherwise it gives the bytes of the link, cut to the buffer, and changes
  nothing but the access time of the link, if that. The namespace is well formed again and the lock is released.\<close>

theorem readlink_spec:
  assumes "namespace_ok w" and "lock_depth w = 0"
  shows "case ufs_readlink path bufsize w of (r, w1) \<Rightarrow> namespace_ok w1 \<and> unlocked w1 \<and>
    (case readlink_result path bufsize w of
       Inl e \<Rightarrow> r = None \<and> errno w1 = e \<and> nothing_changed w w1
     | Inr m \<Rightarrow> r = Some (take bufsize (contents (file_at w m))) \<and> accessed m w w1)"
  by (rule public_readlink [OF assms])

text \<open>C17: A symbolic link keeps its target. When the way to the parent of the path has no symbolic link in it and
  \<open>ufs_symlink\<close> succeeds, \<open>ufs_readlink\<close> of the same path, with any buffer that is not empty, succeeds and gives the
  bytes of the target, as many as fit.\<close>

theorem link_roundtrip:
  assumes "namespace_ok w" and "lock_depth w = 0" and "CHR 0x00 \<notin> set path"
    and "scan w False [] UFS_ROOT_INODE (butlast (components path)) = Found p"
    and "ufs_symlink target path w = (Some (), w1)" and "0 < bufsize"
  shows "\<exists>w2. ufs_readlink path bufsize w1 = (Some (take bufsize (map byte_of_char target)), w2)"
proof -
  obtain n where n: "namespace_ok w1" "lock_depth w1 = 0" "valid_path path" "walk w1 True 39 (components path) = Inr n"
      "symlinked p (last (components path)) target w w1 n"
    using symlink_found [OF assms(1-5)] by blast
  then have "readlink_result path bufsize w1 = Inr n"
    using assms(6) by (simp add: readlink_result_def symlinked_def new_node_def)
  then show ?thesis
    using public_readlink [where path = path and bufsize = bufsize, OF n(1,2)] n(5) by (simp add: symlinked_def split: prod.splits)
qed

text \<open>A link in the root of the sample volume.\<close>

lemma sample_link:
  obtains w1 where "ufs_symlink ''/t'' ''/a'' sample_tree = (Some (), w1)"
    "scan sample_tree False [] UFS_ROOT_INODE (butlast (components ''/a'')) = Found 0" "CHR 0x00 \<notin> set ''/a''"
    "namespace_ok w1" "lock_depth w1 = 0"
proof -
  have some: "1 \<in> unused_slots inode_used 1 UFS_MAX_INODES sample_tree" unfolding sample_unused by simp
  have z: "dir_blocks (file_at sample_tree 0) = 0" "ino_type (ufs_init_inode UFS_TYPE_DIR) = UFS_TYPE_DIR"
    by (simp_all add: dir_blocks_def file_at_def sample_volume(4)) (simp_all add: ufs_init_inode_def)
  have "add_error 0 ''a'' UFS_TYPE_SYMLINK sample_tree = None" by (simp add: add_error_def sample_volume(3,6) z)
  moreover have "\<not> one_left sample_tree"
  proof
    assume o: "one_left sample_tree"
    have f: "in_data_region b \<and> \<not> block_used sample_tree b" if "2186 \<le> b" "b < 32768" for b
      using that blank_unused [of b] by (simp add: sample_tree_def in_data_region_def)
    have g: "in_data_region 2186 \<and> \<not> block_used sample_tree 2186" "in_data_region 2187 \<and> \<not> block_used sample_tree 2187"
      by (rule f; simp)+
    obtain b where "\<And>c. in_data_region c \<and> \<not> block_used sample_tree c \<Longrightarrow> c = b" using o unfolding one_left_def by blast
    from this [OF g(1)] this [OF g(2)] show False by simp
  qed
  ultimately have late: "late_error 0 ''a'' sample_tree = None" by (simp add: late_error_def sample_volume(6))
  have "new_name_error ''/a'' (\<lambda>p. late_error p ''a'') sample_tree = None"
    using some z(2) late by (auto simp: new_name_error_def sample_volume(3,4) sample_parent)
  then have "symlink_error ''/t'' ''/a'' sample_tree = None" by (simp add: symlink_error_def sample_parent)
  moreover have nul: "CHR 0x00 \<notin> set ''/a''" by simp
  ultimately show ?thesis
    using that public_symlink [OF sample_volume(1,2) nul, of "''/t''"]
    by (auto simp: sample_parent unlocked_def split: prod.splits)
qed

theorem symlink_spec_witness:
  "\<exists>w1 n. ufs_symlink ''/t'' ''/a'' sample_tree = (Some (), w1) \<and> symlinked 0 ''a'' ''/t'' sample_tree w1 n"
proof -
  obtain w1 where s: "ufs_symlink ''/t'' ''/a'' sample_tree = (Some (), w1)" "CHR 0x00 \<notin> set ''/a''" by (rule sample_link)
  show ?thesis using symlink_spec [OF sample_volume(1,2) s(2), of "''/t''"] s(1) by (auto simp: sample_parent split: option.splits)
qed

theorem readlink_spec_witness:
  "\<exists>w1 w2. ufs_symlink ''/t'' ''/a'' sample_tree = (Some (), w1) \<and>
     ufs_readlink ''/a'' 1 w1 = (Some [byte_of_char (CHR ''/'')], w2) \<and> namespace_ok w2"
proof -
  obtain w1 where s: "ufs_symlink ''/t'' ''/a'' sample_tree = (Some (), w1)" "CHR 0x00 \<notin> set ''/a''"
      "scan sample_tree False [] UFS_ROOT_INODE (butlast (components ''/a'')) = Found 0"
    by (rule sample_link)
  obtain n where n: "namespace_ok w1" "lock_depth w1 = 0" "valid_path ''/a''" "walk w1 True 39 (components ''/a'') = Inr n"
      "symlinked 0 ''a'' ''/t'' sample_tree w1 n"
    using symlink_found [OF sample_volume(1,2) s(2,3,1)] sample_parent(2) by auto
  then have "readlink_result ''/a'' 1 w1 = Inr n" by (simp add: readlink_result_def symlinked_def new_node_def)
  then show ?thesis
    using readlink_spec [where path = "''/a''" and bufsize = 1, OF n(1,2)] n(5) s(1) by (auto simp: symlinked_def split: prod.splits)
qed

theorem link_roundtrip_witness:
  "\<exists>w1 w2. ufs_symlink ''/t'' ''/a'' sample_tree = (Some (), w1) \<and>
     ufs_readlink ''/a'' 255 w1 = (Some (map byte_of_char ''/t''), w2)"
proof -
  obtain w1 where s: "ufs_symlink ''/t'' ''/a'' sample_tree = (Some (), w1)" "CHR 0x00 \<notin> set ''/a''"
      "scan sample_tree False [] UFS_ROOT_INODE (butlast (components ''/a'')) = Found 0"
    by (rule sample_link)
  show ?thesis using link_roundtrip [OF sample_volume(1,2) s(2,3,1), of 255] s(1) by simp
qed

end
