(* ===== verification/Ufs_Attributes.thy ===== *)
theory Ufs_Attributes
  imports Ufs_Files
begin

text \<open>
  \<open>ufs_chmod\<close> and \<open>ufs_chown\<close> on a well-formed volume, from the path to the disk: who may do what, with the exact error
  of every refusal, what becomes of the inode, and that nothing else changes. The inode goes through the journal, so that
  the volume is compared outside the journal area.
\<close>

section \<open>A commit as a step of the volume\<close>

lemma journal_apart: "in_data_region b \<Longrightarrow> \<not> in_journal b"
  by (simp add: in_data_region_def in_journal_def)

text \<open>Worlds that agree outside the journal have the same volume.\<close>

lemma journal_step:
  assumes v: "volume_ok w" and l: "live w1" and d: "\<And>b. \<not> in_journal b \<Longrightarrow> blk w1 b = blk w b"
    and t: "descriptor_table w1 = descriptor_table w"
  shows "changes {} w w1" "volume_ok w1" "used_inodes w1 = used_inodes w"
    "m < UFS_MAX_INODES \<Longrightarrow> inode_at w1 m = inode_at w m"
proof -
  have "block_bitmap w1 = block_bitmap w"
    unfolding block_bitmap_def using d by (intro arg_cong [where f = concat] map_cong) (simp_all add: in_journal_def)
  then have used: "block_used w1 = block_used w" "inode_used w1 = inode_used w"
    using d by (simp_all add: block_used_def inode_used_def fun_eq_iff in_journal_def)
  show ino: "inode_at w1 m = inode_at w m" if "m < UFS_MAX_INODES" for m
  proof -
    have "m div 4 < 128" using that by linarith
    then show ?thesis using d by (simp add: inode_at_def in_journal_def)
  qed
  show iu: "used_inodes w1 = used_inodes w" by (simp add: used_inodes_def used)
  have none: "blocks_of {} x = {}" for x by (simp add: blocks_of_def)
  show c: "changes {} w w1"
    unfolding changes_def none using l t used ino d journal_apart by simp
  show "volume_ok w1"
  proof (rule changes_volume [OF v c])
    show "is_dir w1 UFS_ROOT_INODE" by (rule changes_dir(1) [OF v c root_used [OF v]]) simp
    show "ran (dir_map x w) \<subseteq> used_inodes w1" if "is_dir w x" for x using dir_refs [OF v that] iu by simp
  qed simp_all
qed

section \<open>A change of attributes\<close>

text \<open>Inode \<open>n\<close> becomes \<open>j\<close>; every file, directory and link has the bytes it had.\<close>

definition attr_change :: "nat \<Rightarrow> ufs_inode \<Rightarrow> world \<Rightarrow> world \<Rightarrow> bool" where
  "attr_change n j w w1 \<longleftrightarrow> changes {n} w w1 \<and> used_inodes w1 = used_inodes w \<and> inode_at w1 n = j \<and>
     (\<forall>m \<in> used_inodes w. contents (file_at w1 m) = contents (file_at w m)) \<and>
     (\<forall>d. is_dir w1 d = is_dir w d \<and> (is_dir w d \<longrightarrow> dir_map d w1 = dir_map d w))"

text \<open>What an operation on attributes may do to an inode.\<close>

definition attrs_only :: "ufs_inode \<Rightarrow> ufs_inode \<Rightarrow> bool" where
  "attrs_only j i \<longleftrightarrow> j = i\<lparr>ino_mode := ino_mode j, ino_uid := ino_uid j, ino_gid := ino_gid j, ino_ctime := ino_ctime j\<rparr>"

lemma attrs_only_fields:
  assumes "attrs_only j i"
  shows "ino_type j = ino_type i" "ino_size j = ino_size i" "ino_block_count j = ino_block_count i" "same_pointers j i"
    "ino_link_count j = ino_link_count i" "ino_wf j = ino_wf i"
  using assms by (cases i; cases j; simp add: attrs_only_def same_pointers_def ino_wf_def)+

lemma attrs_only_updates [simp]:
  "attrs_only (i\<lparr>ino_mode := m\<rparr>) i" "attrs_only (chowned uid gid i) i" "attrs_only (j\<lparr>ino_ctime := t\<rparr>) i = attrs_only j i"
  by (cases i; simp add: attrs_only_def chowned_def) (cases i; cases j; simp add: attrs_only_def chowned_def)+

lemma attr_persist:
  assumes v: "volume_ok w" and n: "n \<in> used_inodes w" and j: "attrs_only j (inode_at w n)"
  obtains w1 where "persist_inode n j w = (Some (), w1)" "volume_ok w1" "attr_change n j w w1"
proof -
  have l: "live w" and nn: "n < UFS_MAX_INODES" using volume_okD(2,4) [OF v] n by blast+
  have wf: "ino_wf j" using attrs_only_fields(6) [OF j] l by simp
  have lay: "same_layout j (inode_at w n)" using attrs_only_fields(1-4) [OF j] wf by (simp add: same_layout_def)
  define u where "u = put_inode n j w"
  note up = update_inode [OF v n lay, folded u_def]
  obtain w1 where p: "persist_inode n j w = (Some (), w1)" "live w1" "\<forall>b. \<not> in_journal b \<longrightarrow> blk w1 b = blk u b"
      "descriptor_table w1 = descriptor_table w"
    using persist_inode_live [OF l nn wf] by (auto simp: u_def)
  have t: "descriptor_table w1 = descriptor_table u" using p(4) changesD(6) [OF up(1)] by simp
  have out: "\<not> in_journal b \<Longrightarrow> blk w1 b = blk u b" for b using p(3) by blast
  have js: "changes {} u w1" "volume_ok w1" "used_inodes w1 = used_inodes u"
    "m < UFS_MAX_INODES \<Longrightarrow> inode_at w1 m = inode_at u m" for m
    using journal_step [OF up(2) p(2) out t] by blast+
  have at: "inode_at u n = j" using wf by (simp add: u_def)
  have used: "used_inodes u = used_inodes w" using wf by (simp add: u_def used_inodes_def)
  have ch: "changes {n} w w1" using changes_trans [OF up(1) changes_more [OF up(2) js(1)]] by simp
  have i1: "inode_at w1 n = j" using js(4) [OF nn] at by simp
  have con: "contents (file_at w1 m) = contents (file_at w m)" if m: "m \<in> used_inodes w" for m
  proof -
    have "contents (file_at w1 m) = contents (file_at u m)" using changes_other(8) [OF up(2) js(1)] m used by simp
    also have "\<dots> = contents (file_at w m)" using changes_other(8) [OF v up(1) m] up(4) by (cases "m = n") simp_all
    finally show ?thesis .
  qed
  have "is_dir w1 d = is_dir w d" for d
  proof (cases "d \<in> used_inodes w")
    case True
    then show ?thesis using changes_other(2) [OF v ch True] i1 attrs_only_fields(1) [OF j] js(3) used
      by (cases "d = n") (simp_all add: is_dir_used)
  qed (simp add: is_dir_used js(3) used)
  moreover have "dir_map d w1 = dir_map d w" if d: "is_dir w d" for d
  proof (cases "d = n")
    case False
    then show ?thesis using changes_dir(3) [OF v ch d] by simp
  next
    case True
    have "is_dir u n" using d at attrs_only_fields(1) [OF j] used by (simp add: True is_dir_used)
    then show ?thesis using changes_dir(3) [OF up(2) js(1)] up(3) d by (simp add: True)
  qed
  ultimately show ?thesis using that [OF p(1) js(2)] ch js(3) used i1 con by (simp add: attr_change_def)
qed

lemma attr_change_namespace:
  assumes ns: "namespace_ok w" and v1: "volume_ok w1" and a: "attr_change n j w w1" and j: "attrs_only j (inode_at w n)"
  shows "namespace_ok w1"
proof -
  have v: "volume_ok w" using ns by (simp add: namespace_ok_def)
  have c: "changes {n} w w1" and i: "inode_at w1 n = j"
    and d: "\<And>x. is_dir w1 x = is_dir w x" "\<And>x. is_dir w x \<Longrightarrow> dir_map x w1 = dir_map x w"
    using a by (simp_all add: attr_change_def)
  have "link_count_ok w1 m" if m: "m \<in> used_inodes w" for m
  proof -
    have names: "names_of w1 m = names_of w m" using d by (simp add: names_of_def entries_of_def cong: conj_cong)
    have "ino_type (inode_at w1 m) = ino_type (inode_at w m) \<and> ino_link_count (inode_at w1 m) = ino_link_count (inode_at w m)"
      using changes_other(2) [OF v c m] i attrs_only_fields(1,5) [OF j] by (cases "m = n") simp_all
    moreover have "names_of w1 0 = names_of w 0" using d by (simp add: names_of_def entries_of_def cong: conj_cong)
    ultimately have "link_count_ok w1 m = link_count_ok w m" using names by (simp add: link_count_ok_def)
    then show ?thesis using ns m by (simp add: namespace_ok_def)
  qed
  then show ?thesis using v1 a by (simp add: namespace_ok_def attr_change_def)
qed

lemma attr_change_views: "same_view v w \<Longrightarrow> same_view v1 w1 \<Longrightarrow> attr_change n j v v1 = attr_change n j w w1"
  by (simp add: attr_change_def same_view same_view_changes)

section \<open>The operations\<close>

text \<open>The inode whose attributes a path names, or the error; \<open>may\<close> is the permission.\<close>

definition attr_target :: "(world \<Rightarrow> ufs_inode \<Rightarrow> bool) \<Rightarrow> string \<Rightarrow> world \<Rightarrow> errno + nat" where
  "attr_target may path w =
     (if \<not> valid_path path then Inl EINVAL
      else case walk w False 39 (components path) of Inl e \<Rightarrow> Inl e | Inr n \<Rightarrow>
        if \<not> may w (inode_at w n) then Inl EPERM else Inr n)"

text \<open>The body that the two operations share.\<close>

definition change_attrs :: "string \<Rightarrow> (ufs_inode \<Rightarrow> ufs_inode op) \<Rightarrow> unit op" where
  "change_attrs path change = on_ok (get_inode_from_path path) (\<lambda>(n, inode).
     on_ok (change inode) (\<lambda>inode. on_ok (ufs_touch_ctime inode) (persist_inode n)))"

lemma change_attrs_run:
  assumes v: "volume_ok w" and ch: "\<And>i. change i w = (if may w i then (Some (f i), w) else (None, w\<lparr>errno := EPERM\<rparr>))"
    and f: "\<And>i. attrs_only (f i) i"
  shows "case attr_target may path w of
      Inl e \<Rightarrow> change_attrs path change w = (None, w\<lparr>errno := e\<rparr>)
    | Inr n \<Rightarrow> \<exists>w1 t. change_attrs path change w = (Some (), w1) \<and> volume_ok w1 \<and>
        attr_change n ((f (inode_at w n))\<lparr>ino_ctime := t\<rparr>) w w1"
proof -
  have ok: "tree_ok w" and l: "live w" "script w = []" using volume_okD(1) [OF v] tree_okD by blast+
  have ne: "\<not> valid_path []" by (auto simp: valid_path_def path_of_def)
  note res = resolve_run [OF ok, of path 0]
  show ?thesis
  proof (cases "valid_path path")
    case False
    then show ?thesis using res
      by (cases "path = []") (simp_all add: attr_target_def change_attrs_def get_inode_from_path_def run_simps fail_def)
  next
    case vp: True
    then have p: "path \<noteq> []" using ne by auto
    show ?thesis
    proof (cases "walk w False 39 (components path)")
      case (Inl e)
      then show ?thesis using res vp p
        by (simp add: attr_target_def change_attrs_def get_inode_from_path_def run_simps outcome_def)
    next
      case (Inr n)
      have u: "n \<in> used_inodes w" by (rule walk_used [OF ok Inr])
      then have n: "n < UFS_MAX_INODES" by (simp add: used_inodes_def)
      define i where "i = inode_at w n"
      have run: "change_attrs path change w = on_ok (change i) (\<lambda>inode. on_ok (ufs_touch_ctime inode) (persist_inode n)) w"
        using res vp p Inr l n
        by (simp add: change_attrs_def get_inode_from_path_def run_simps io_simps outcome_def ret_def i_def)
      show ?thesis
      proof (cases "may w i")
        case False
        then show ?thesis using run ch [of i] vp Inr by (simp add: attr_target_def run_simps i_def)
      next
        case True
        obtain t tk where tc: "ufs_touch_ctime (f i) w = (Some ((f i)\<lparr>ino_ctime := t\<rparr>), w\<lparr>ticks := tk\<rparr>)"
          using touch_ctime_calm [OF l(2)] by blast
        define x where "x = w\<lparr>ticks := tk\<rparr>"
        have s: "same_view x w" by (simp add: x_def)
        note st = same_view_step [OF s v] and views = same_view [OF s]
        have ux: "n \<in> used_inodes x" using u views(2) by simp
        have ao: "attrs_only ((f i)\<lparr>ino_ctime := t\<rparr>) (inode_at x n)" using f by (simp add: views i_def)
        obtain w1 where w1: "persist_inode n ((f i)\<lparr>ino_ctime := t\<rparr>) x = (Some (), w1)" "volume_ok w1"
            "attr_change n ((f i)\<lparr>ino_ctime := t\<rparr>) x w1"
          by (rule attr_persist [OF st(2) ux ao])
        have "change_attrs path change w = (Some (), w1)" using run ch [of i] True tc w1(1) by (simp add: run_simps x_def)
        then show ?thesis using vp Inr True w1(2,3) attr_change_views [OF s same_view_simps(1)]
          by (auto simp: attr_target_def i_def)
      qed
    qed
  qed
qed

lemma public_attrs:
  assumes ns: "namespace_ok w" and un: "unlocked w"
    and ctx: "\<And>c i. preserves (in_context c) (change i)"
    and ch: "\<And>v i. script v = [] \<Longrightarrow> change i v = (if may v i then (Some (f i), v) else (None, v\<lparr>errno := EPERM\<rparr>))"
    and f: "\<And>i. attrs_only (f i) i" and may: "\<And>i. may (locked F_WRLCK w) i = may w i"
  shows "case attr_target may path w of
      Inl e \<Rightarrow> with_lock ufs_operation_write_lock (change_attrs path change) w = (None, w\<lparr>errno := e\<rparr>)
    | Inr n \<Rightarrow> \<exists>w1 t. with_lock ufs_operation_write_lock (change_attrs path change) w = (Some (), w1) \<and> namespace_ok w1 \<and>
        unlocked w1 \<and> attr_change n ((f (inode_at w n))\<lparr>ino_ctime := t\<rparr>) w w1"
proof -
  have v: "volume_ok w" "live w" using ns volume_okD(2) by (simp_all add: namespace_ok_def)
  let ?l = "locked F_WRLCK w"
  have sv: "same_view ?l w" by simp
  have vl: "volume_ok ?l" by (rule same_view_step(2) [OF sv v(1)])
  have sl: "script ?l = []" using live_script [OF volume_okD(2) [OF vl]] .
  have tgt: "attr_target may path ?l = attr_target may path w" unfolding attr_target_def same_view(1,8) [OF sv] may ..
  have pre: "preserves (in_context c) (change_attrs path change)" for c
    unfolding change_attrs_def get_inode_from_path_def persist_inode_def by (intro preserves_intros ctx; simp)
  note run = change_attrs_run [where w = ?l and path = path and change = change and may = may and f = f, OF vl ch [OF sl] f,
      unfolded tgt same_view(1) [OF sv]]
  show ?thesis
  proof (cases "attr_target may path w")
    case (Inl e)
    then have "change_attrs path change ?l = (None, locked F_WRLCK (w\<lparr>errno := e\<rparr>))" using run by (simp add: locked_updates)
    from table_step [OF v(2) un pre this] v(2) un Inl show ?thesis by (simp add: unlocked_def)
  next
    case (Inr n)
    then obtain u t where u: "change_attrs path change ?l = (Some (), u)" "volume_ok u"
        "attr_change n ((f (inode_at w n))\<lparr>ino_ctime := t\<rparr>) ?l u"
      using run by auto
    have d: "lock_depth w = 0" using un by (simp add: unlocked_def)
    note pub = public_step [OF v(1) d pre u(1,2)]
    have a: "attr_change n ((f (inode_at w n))\<lparr>ino_ctime := t\<rparr>) w (released u)"
      using attr_change_views [OF same_view_sym [OF sv] pub(2)] u(3) by blast
    have "attrs_only ((f (inode_at w n))\<lparr>ino_ctime := t\<rparr>) (inode_at w n)" using f by simp
    from attr_change_namespace [OF ns same_view_step(2) [OF pub(2) u(2)] a this] show ?thesis using Inr pub(1,3) a by auto
  qed
qed

definition may_chmod :: "world \<Rightarrow> ufs_inode \<Rightarrow> bool" where
  "may_chmod w i \<longleftrightarrow> euid w = 0 \<or> euid w = ino_uid i"

definition chmodded :: "u32 \<Rightarrow> ufs_inode \<Rightarrow> ufs_inode" where
  "chmodded mode i = i\<lparr>ino_mode := (ino_mode i AND NOT 0xFFF) OR mode\<rparr>"

lemma public_chmod:
  assumes ns: "namespace_ok w" and un: "unlocked w" and mode: "mode AND NOT 0xFFF = 0"
  shows "case attr_target may_chmod path w of
      Inl e \<Rightarrow> ufs_chmod path mode w = (None, w\<lparr>errno := e\<rparr>)
    | Inr n \<Rightarrow> \<exists>w1 t. ufs_chmod path mode w = (Some (), w1) \<and> namespace_ok w1 \<and> unlocked w1 \<and>
        attr_change n ((chmodded mode (inode_at w n))\<lparr>ino_ctime := t\<rparr>) w w1"
proof -
  define change where "change i = asking euid (\<lambda>caller_uid.
      require (\<not> (caller_uid \<noteq> 0 \<and> caller_uid \<noteq> ino_uid i)) EPERM (ret (chmodded mode i)))" for i
  have "mode = (mode AND 0xFFF) OR (mode AND NOT 0xFFF)" by (simp add: bit_eq_iff bit_simps) blast
  then have low: "mode AND 0xFFF = mode" using mode by simp
  have body: "on_ok (get_inode_from_path path) (\<lambda>(inode_number, inode).
       asking euid (\<lambda>caller_uid.
       require (\<not> (caller_uid \<noteq> 0 \<and> caller_uid \<noteq> ino_uid inode)) EPERM (
       on_ok (ufs_touch_ctime (inode\<lparr>ino_mode := (ino_mode inode AND NOT 0xFFF) OR (mode AND 0xFFF)\<rparr>)) (\<lambda>inode.
       persist_inode inode_number inode)))) = change_attrs path change"
    unfolding change_attrs_def change_def chmodded_def low
    by (intro ext arg_cong2 [where f = on_ok, THEN fun_cong] refl)
      (auto simp: fun_eq_iff asking_def require_def on_ok_def ret_def fail_def)
  have m: "ufs_mounted w" using ns volume_okD(2) unfolding namespace_ok_def live_def by blast
  have e: "\<not> valid_path []" by (auto simp: valid_path_def path_of_def)
  have run: "ufs_chmod path mode w = (if path = [] then (None, w\<lparr>errno := EINVAL\<rparr>)
      else with_lock ufs_operation_write_lock (change_attrs path change) w)"
    unfolding ufs_chmod_def body using m mode by (simp add: asking_def require_def fail_def)
  have "case attr_target may_chmod path w of
      Inl e \<Rightarrow> with_lock ufs_operation_write_lock (change_attrs path change) w = (None, w\<lparr>errno := e\<rparr>)
    | Inr n \<Rightarrow> \<exists>w1 t. with_lock ufs_operation_write_lock (change_attrs path change) w = (Some (), w1) \<and> namespace_ok w1 \<and>
        unlocked w1 \<and> attr_change n ((chmodded mode (inode_at w n))\<lparr>ino_ctime := t\<rparr>) w w1"
  proof (rule public_attrs [OF ns un])
    show "preserves (in_context c) (change i)" for c i unfolding change_def by (intro preserves_intros; simp)
    show "change i v = (if may_chmod v i then (Some (chmodded mode i), v) else (None, v\<lparr>errno := EPERM\<rparr>))" for i v
      by (simp add: change_def asking_def require_def ret_def fail_def may_chmod_def)
    show "attrs_only (chmodded mode i) i" for i by (simp add: chmodded_def)
    show "may_chmod (locked F_WRLCK w) i = may_chmod w i" for i by (simp add: may_chmod_def locked_def)
  qed
  note spec = this
  show ?thesis
  proof (cases "path = []")
    case True
    then show ?thesis using run e by (simp add: attr_target_def)
  next
    case False
    then show ?thesis using spec by (simp only: run if_False)
  qed
qed

lemma public_chown:
  assumes ns: "namespace_ok w" and un: "unlocked w"
  shows "case attr_target (\<lambda>w. may_chown w uid gid) path w of
      Inl e \<Rightarrow> ufs_chown path uid gid w = (None, w\<lparr>errno := e\<rparr>)
    | Inr n \<Rightarrow> \<exists>w1 t. ufs_chown path uid gid w = (Some (), w1) \<and> namespace_ok w1 \<and> unlocked w1 \<and>
        attr_change n ((chowned uid gid (inode_at w n))\<lparr>ino_ctime := t\<rparr>) w w1"
proof -
  have m: "ufs_mounted w" using ns volume_okD(2) unfolding namespace_ok_def live_def by blast
  have e: "\<not> valid_path []" by (auto simp: valid_path_def path_of_def)
  have run: "ufs_chown path uid gid w = (if path = [] then (None, w\<lparr>errno := EINVAL\<rparr>)
      else with_lock ufs_operation_write_lock (change_attrs path (chown_inode uid gid)) w)"
    unfolding ufs_chown_def change_attrs_def using m by (simp add: asking_def require_def fail_def)
  have "case attr_target (\<lambda>w. may_chown w uid gid) path w of
      Inl e \<Rightarrow> with_lock ufs_operation_write_lock (change_attrs path (chown_inode uid gid)) w = (None, w\<lparr>errno := e\<rparr>)
    | Inr n \<Rightarrow> \<exists>w1 t. with_lock ufs_operation_write_lock (change_attrs path (chown_inode uid gid)) w = (Some (), w1) \<and>
        namespace_ok w1 \<and> unlocked w1 \<and> attr_change n ((chowned uid gid (inode_at w n))\<lparr>ino_ctime := t\<rparr>) w w1"
  proof (rule public_attrs [OF ns un])
    show "preserves (in_context c) (chown_inode uid gid i)" for c i by (rule ctx.quiet_attr(2))
    show "may_chown (locked F_WRLCK w) uid gid i = may_chown w uid gid i" for i by (simp add: may_chown_def locked_def)
  qed (simp_all add: chown_rule)
  note spec = this
  show ?thesis
  proof (cases "path = []")
    case True
    then show ?thesis using run e by (simp add: attr_target_def)
  next
    case False
    then show ?thesis using spec by (simp only: run if_False)
  qed
qed

section \<open>Properties\<close>

text \<open>C35: \<open>ufs_chown\<close> in a well-formed namespace. The errors are, in this order, EINVAL for a path that is not
  valid, the error of walking to it, and EPERM unless \<open>may_chown\<close>: the superuser may set any owner and group, the owner
  of the inode may keep its owner (or pass -1) and set its group to the one it has or one the caller is a member of; after
  an error only errno has changed. Otherwise the inode the path leads to (a final link is followed) gets the owner and
  group asked for, where -1 leaves the old value, and a new change time, and nothing else of it changes. All other
  inodes, the bytes of every file, every directory, the block and inode accounting and the descriptors are as before, and the namespace stays
  well formed.\<close>

theorem chown_spec:
  assumes "namespace_ok w" "unlocked w"
  shows "case attr_target (\<lambda>w. may_chown w uid gid) path w of
      Inl e \<Rightarrow> ufs_chown path uid gid w = (None, w\<lparr>errno := e\<rparr>)
    | Inr n \<Rightarrow> \<exists>w1 t. ufs_chown path uid gid w = (Some (), w1) \<and> namespace_ok w1 \<and> unlocked w1 \<and>
        attr_change n ((chowned uid gid (inode_at w n))\<lparr>ino_ctime := t\<rparr>) w w1"
  by (rule public_chown [OF assms])

text \<open>C36: \<open>ufs_chmod\<close> in a well-formed namespace. The errors are, in this order, EINVAL for a mode with bits outside
  07777 or a path that is not valid, the error of walking to it, and EPERM unless the caller is the superuser or owns the
  inode; after an error only errno has changed. Otherwise the low twelve bits of the inode's mode are those asked for,
  it gets a new change time, and nothing else of it changes; all other inodes, the bytes of every file, every directory,
  the block and inode accounting and the descriptors are as before, and the namespace stays well formed.\<close>

theorem chmod_spec:
  assumes "namespace_ok w" "unlocked w"
  shows "case (if mode AND NOT 0xFFF \<noteq> 0 then Inl EINVAL else attr_target may_chmod path w) of
      Inl e \<Rightarrow> ufs_chmod path mode w = (None, w\<lparr>errno := e\<rparr>)
    | Inr n \<Rightarrow> \<exists>w1 t. ufs_chmod path mode w = (Some (), w1) \<and> namespace_ok w1 \<and> unlocked w1 \<and>
        attr_change n ((chmodded mode (inode_at w n))\<lparr>ino_ctime := t\<rparr>) w w1"
proof (cases "mode AND NOT 0xFFF = 0")
  case True
  then show ?thesis using public_chmod [OF assms True, of path] by simp
next
  case False
  have "ufs_mounted w" using assms(1) volume_okD(2) unfolding namespace_ok_def live_def by blast
  then show ?thesis using False by (simp add: ufs_chmod_def asking_def require_def fail_def)
qed

text \<open>The superuser changes \<open>/a\<close>.\<close>

lemma sample_attr:
  shows "namespace_ok sample_file" "unlocked sample_file"
    "(\<And>i. may sample_file i) \<Longrightarrow> attr_target may ''/a'' sample_file = Inr 1" "euid sample_file = 0"
proof -
  show "namespace_ok sample_file" "unlocked sample_file" using sample_file(1) by (simp_all only: ready_def)
  show "attr_target may ''/a'' sample_file = Inr 1" if "\<And>i. may sample_file i"
    using sample_file(4) that by (simp add: truncate_target_def attr_target_def split: if_splits sum.splits)
  show "euid sample_file = 0" using sample_node [of ufs_create UFS_TYPE_FILE] by (auto simp: sample_file_def)
qed

theorem chown_spec_witness:
  "case ufs_chown ''/a'' 7 (- 1) sample_file of (r, w1) \<Rightarrow>
     r = Some () \<and> ino_uid (inode_at w1 1) = 7 \<and> ino_gid (inode_at w1 1) = ino_gid (inode_at sample_file 1) \<and> namespace_ok w1"
proof -
  have t: "attr_target (\<lambda>w. may_chown w 7 (- 1)) ''/a'' sample_file = Inr 1"
    by (rule sample_attr(3)) (simp add: may_chown_def sample_attr(4))
  show ?thesis using chown_spec [OF sample_attr(1,2), where uid = 7 and gid = "- 1" and path = "''/a''"] unfolding t sum.case
    by (auto simp: attr_change_def chowned_def)
qed

theorem chmod_spec_witness:
  "case ufs_chmod ''/a'' 0x180 sample_file of (r, w1) \<Rightarrow>
     r = Some () \<and> ino_mode (inode_at w1 1) AND 0xFFF = 0x180 \<and> namespace_ok w1"
proof -
  have t: "attr_target may_chmod ''/a'' sample_file = Inr 1" by (rule sample_attr(3)) (simp add: may_chmod_def sample_attr(4))
  have low: "(0x180 :: u32) AND NOT 0xFFF = 0" by simp
  have mode: "((m AND - 4096) OR 0x180) AND 0xFFF = 0x180" for m :: u32
    by (simp add: bit.conj_disj_distrib2 and.assoc)
  show ?thesis using chmod_spec [OF sample_attr(1,2), where mode = "0x180" and path = "''/a''"]
    unfolding t low by (auto simp: attr_change_def chmodded_def mode)
qed

end
