(* ===== verification/Ufs_Fresh.thy ===== *)
theory Ufs_Fresh
  imports Ufs_Walk Ufs_Lifecycle Ufs_Volume
begin

text \<open>
  From nothing to a usable file system: \<open>ufs_format\<close> writes an image that \<open>ufs_mount\<close> accepts, and what
  is mounted is a well-formed tree with an empty root, all data blocks free and all inodes but the
  root's free.
\<close>

section \<open>What formatting writes\<close>

definition zero_block_bytes :: bytes where
  "zero_block_bytes = replicate 512 0"

lemma length_zero_block [simp]: "length zero_block_bytes = 512"
  by (simp add: zero_block_bytes_def)

lemma sb_wf_format [simp]: "sb_wf format_superblock" "sb_wf (format_superblock\<lparr>sb_state := s\<rparr>)"
proof -
  have "sb_wf (dec_superblock zero_block_bytes)" by (rule sb_wf_dec) simp
  then show "sb_wf format_superblock" "sb_wf (format_superblock\<lparr>sb_state := s\<rparr>)"
    by (simp_all add: sb_wf_def format_superblock_def zero_superblock_def zero_block_bytes_def)
qed

lemma fold_bitmap_set:
  assumes "n \<le> 8 * length bm" and "j < 8 * length bm"
  shows "length (fold (\<lambda>k bm. bitmap_set bm k) [0..<n] bm) = length bm"
    "bitmap_test (fold (\<lambda>k bm. bitmap_set bm k) [0..<n] bm) j \<longleftrightarrow> j < n \<or> bitmap_test bm j"
proof -
  have "length (fold (\<lambda>k bm. bitmap_set bm k) [0..<n] bm) = length bm \<and>
    (bitmap_test (fold (\<lambda>k bm. bitmap_set bm k) [0..<n] bm) j \<longleftrightarrow> j < n \<or> bitmap_test bm j)"
    using assms(1)
  proof (induction n)
    case 0
    then show ?case by simp
  next
    case (Suc n)
    then show ?case using assms(2) by (auto simp: bitmap_test_set less_Suc_eq)
  qed
  then show "length (fold (\<lambda>k bm. bitmap_set bm k) [0..<n] bm) = length bm"
    "bitmap_test (fold (\<lambda>k bm. bitmap_set bm k) [0..<n] bm) j \<longleftrightarrow> j < n \<or> bitmap_test bm j"
    by simp_all
qed

lemma zero_bitmap: "\<not> bitmap_test (replicate m 0) j" if "j < 8 * m"
proof -
  have "j div 8 < m" using that by (simp add: less_mult_imp_div_less mult.commute)
  then show ?thesis by (simp add: bitmap_test_def)
qed

lemma format_bitmap:
  "length format_block_bitmap = 4096" "j < UFS_TOTAL_BLOCKS \<Longrightarrow> bitmap_test format_block_bitmap j \<longleftrightarrow> j < UFS_DATA_REGION_START_BLK"
proof -
  show "length format_block_bitmap = 4096"
    unfolding format_block_bitmap_def by (subst fold_bitmap_set(1) [where j = 0]) (simp_all only: length_replicate)
  show "j < UFS_TOTAL_BLOCKS \<Longrightarrow> bitmap_test format_block_bitmap j \<longleftrightarrow> j < UFS_DATA_REGION_START_BLK"
    unfolding format_block_bitmap_def
    by (subst fold_bitmap_set(2)) (simp_all only: length_replicate, simp_all add: zero_bitmap)
qed

text \<open>The image as \<open>ufs_format\<close> leaves it, with the root inode it wrote.\<close>

definition fresh_image :: "ufs_inode \<Rightarrow> world \<Rightarrow> bool" where
  "fresh_image root w \<longleftrightarrow> blk w 0 = enc_superblock format_superblock \<and> blk w 1 = bitmap_set zero_block_bytes 0 \<and>
     block_bitmap w = format_block_bitmap \<and> blk w 10 = overlay 0 (enc_inode root) zero_block_bytes \<and>
     (\<forall>b. 10 < b \<longrightarrow> b < UFS_TOTAL_BLOCKS \<longrightarrow> blk w b = zero_block_bytes)"

definition root_of :: "world \<Rightarrow> ufs_inode \<Rightarrow> bool" where
  "root_of w root \<longleftrightarrow> ino_wf root \<and> ino_type root = UFS_TYPE_DIR \<and> ino_mode root = 0x1ED \<and> ino_uid root = euid w \<and>
     ino_gid root = egid w \<and> ino_link_count root = 1 \<and> same_pointers root (ufs_init_inode UFS_TYPE_DIR) \<and>
     ino_block_count root = 0 \<and> ino_size root = 0"

text \<open>What stays while the image is written.\<close>

definition same_process :: "world \<Rightarrow> world \<Rightarrow> bool" where
  "same_process w w1 \<longleftrightarrow> ufs_fd w1 = ufs_fd w \<and> ufs_mounted w1 = ufs_mounted w \<and> img_exists w1 = img_exists w \<and>
     euid w1 = euid w \<and> egid w1 = egid w \<and> sup_groups w1 = sup_groups w"

lemma img_exists_put_all [simp]: "img_exists (put_all put_blk xs w) = img_exists w"
proof (induction xs arbitrary: w)
  case (Cons x xs)
  then show ?case by (cases x) simp
qed simp

lemma img_exists_put_block_bitmap [simp]: "img_exists (put_block_bitmap bm w) = img_exists w"
  unfolding put_block_bitmap_def by (rule img_exists_put_all)

lemma same_process_simps [simp]:
  "same_process w w" "same_process w (put_blk b buf w1) = same_process w w1"
  "same_process w (w1\<lparr>errno := e\<rparr>) = same_process w w1" "same_process w (w1\<lparr>ticks := k\<rparr>) = same_process w w1"
  "same_process w (w1\<lparr>stable := st, unsynced := us\<rparr>) = same_process w w1"
  by (simp_all add: same_process_def)

lemma zero_blocks_run:
  assumes "calm w" and "img w = (\<lambda>_. 0)"
  obtains w1 where "for_each [0..<UFS_TOTAL_BLOCKS] (\<lambda>b _. ufs_write_block b (replicate UFS_BLOCK_SIZE 0)) () w = (Some (), w1)"
    and "calm w1" and "img w1 = (\<lambda>_. 0)" and "same_process w w1"
proof -
  define I where "I = (\<lambda>(k :: nat) (v :: unit) u. calm u \<and> img u = (\<lambda>_. 0) \<and> same_process w u)"
  have "case for_each [0..<UFS_TOTAL_BLOCKS] (\<lambda>b _. ufs_write_block b (replicate UFS_BLOCK_SIZE 0)) () w of
      (Some v', w') \<Rightarrow> I UFS_TOTAL_BLOCKS v' w' | (None, w') \<Rightarrow> False"
  proof (rule for_each_cases)
    show "I 0 () w" using assms by (simp add: I_def)
    fix k v u assume k: "k < UFS_TOTAL_BLOCKS" and u: "I k v u"
    have z: "zero_block_bytes ! m = 0" if "m < 512" for m
      unfolding zero_block_bytes_def using that by (rule nth_replicate)
    have "img (put_blk k zero_block_bytes u) = write_bytes (k * 512) zero_block_bytes (\<lambda>_. 0)"
      using u by (simp add: I_def put_blk_def)
    also have "\<dots> = (\<lambda>_. 0)" using z by (auto simp: write_bytes_def fun_eq_iff)
    finally have "img (put_blk k zero_block_bytes u) = (\<lambda>_. 0)" .
    then have "I (Suc k) () (put_blk k zero_block_bytes u)" using u k by (simp add: I_def)
    then show "case ufs_write_block k (replicate UFS_BLOCK_SIZE 0) u of (Some v', w') \<Rightarrow> I (Suc k) v' w' | (None, w') \<Rightarrow> False"
      unfolding zero_block_bytes_def [symmetric]
      using u k by (simp add: I_def io_simps)
  qed simp
  then show ?thesis using that by (auto simp: I_def split: prod.splits option.splits)
qed

lemma format_root_run:
  assumes "script w = []"
  obtains root k where "format_root w = (Some root, w\<lparr>ticks := k\<rparr>)" and "root_of w root"
proof -
  obtain now k where c: "clock_gettime w = (Some now, w\<lparr>ticks := k\<rparr>)"
    using assms by (simp add: clock_gettime_def syscall_calm asking_def modify_def ret_def)
  define t where "t = \<lparr>dt_sec = tv_sec now, dt_nsec = ucast (tv_nsec now), dt_reserved = 0\<rparr>"
  define root where "root = (ufs_init_inode UFS_TYPE_DIR)\<lparr>ino_mode := 0x1ED, ino_uid := euid w, ino_gid := egid w,
       ino_link_count := 1, ino_generation := 1, ino_atime := t, ino_mtime := t, ino_ctime := t\<rparr>"
  have "format_root w = (Some root, w\<lparr>ticks := k\<rparr>)"
    by (simp add: format_root_def asking_def run_simps c Let_def ret_def root_def t_def)
  moreover have "root_of w root"
    by (simp add: root_of_def root_def ino_wf_def ufs_init_inode_def same_pointers_def)
  ultimately show ?thesis using that by blast
qed

lemma write_fresh_image_run:
  assumes s: "script w = []" "ufs_fd w = 3" "img w = (\<lambda>_. 0)"
  obtains root w1 where "write_fresh_image w = (Some (), w1)" and "calm w1" and "fresh_image root w1" and "root_of w root"
    and "same_process w w1"
proof -
  define w0 where "w0 = w\<lparr>img_len := UFS_IMAGE_SIZE\<rparr>"
  have w0: "calm w0" "img w0 = (\<lambda>_. 0)" "same_process w w0" using s by (simp_all add: w0_def calm_def same_process_def)
  have ft: "ftruncate_image UFS_IMAGE_SIZE w = (Some (), w0)"
    using s by (simp add: ftruncate_image_def run_simps io_simps modify_def ret_def w0_def)
  obtain wz where z: "for_each [0..<UFS_TOTAL_BLOCKS] (\<lambda>b _. ufs_write_block b (replicate UFS_BLOCK_SIZE 0)) () w0 = (Some (), wz)"
    "calm wz" "img wz = (\<lambda>_. 0)" "same_process w0 wz"
    using zero_blocks_run [OF w0(1,2)] .
  have zb: "blk wz b = zero_block_bytes" for b
    using z(3) unfolding zero_block_bytes_def by (simp add: blk_def blk_of_def map_replicate_const)
  define sb where "sb = enc_superblock format_superblock"
  define ib where "ib = bitmap_set zero_block_bytes 0"
  have len: "length sb = 512" "length ib = 512" by (simp_all add: sb_def ib_def)
  define w2 where "w2 = put_block_bitmap format_block_bitmap (put_blk 1 ib (put_blk 0 sb wz))"
  have c2: "calm w2" using z(2) len by (simp add: w2_def format_bitmap)
  have bm: "for_each [0..<UFS_BLOCK_BITMAP_BLOCKS] (\<lambda>i _.
       ufs_write_block (UFS_BLOCK_BITMAP_START_BLK + i)
         (field (i * UFS_BLOCK_SIZE) UFS_BLOCK_SIZE format_block_bitmap)) () (put_blk 1 ib (put_blk 0 sb wz)) = (Some (), w2)"
    unfolding w2_def put_block_bitmap_def
    by (rule for_each_write_blocks) (use z(2) len format_bitmap(1) in auto)
  obtain root k where r: "format_root w2 = (Some root, w2\<lparr>ticks := k\<rparr>)" "root_of w2 root"
    using format_root_run [of w2] c2 by (auto simp: calm_def)
  define rb where "rb = overlay 0 (enc_inode root) zero_block_bytes"
  have rl: "length rb = 512" using r(2) by (simp add: rb_def root_of_def)
  define w3 where "w3 = put_blk 10 rb (w2\<lparr>ticks := k\<rparr>)"
  define w1 where "w1 = w3\<lparr>stable := img w3, unsynced := []\<rparr>"
  have c3: "calm w3" using c2 rl by (simp add: w3_def)
  have fs: "fsync_image w3 = (Some (), w1)"
    using c3 by (simp add: fsync_image_def calm_def syscall_calm modify_def ret_def w1_def)
  have s0: "ufs_write_block 0 sb wz = (Some (), put_blk 0 sb wz)"
    and s1: "ufs_write_block 1 ib (put_blk 0 sb wz) = (Some (), put_blk 1 ib (put_blk 0 sb wz))"
    and s10: "ufs_write_block 10 rb (w2\<lparr>ticks := k\<rparr>) = (Some (), w3)"
    using z(2) len c2 rl by (simp_all add: io_simps w3_def)
  have "write_fresh_image w = (Some (), w1)"
    unfolding write_fresh_image_def zero_block_bytes_def [symmetric] sb_def [symmetric] ib_def [symmetric]
    by (simp only: on_ok_Some ft z(1) [folded zero_block_bytes_def] s0 s1 bm r(1) rb_def [symmetric] s10 fs)
  moreover have "calm w1" using c3 by (simp add: w1_def)
  moreover have "block_bitmap w1 = block_bitmap w2"
    by (rule block_bitmap_cong) (simp add: w1_def w3_def rl)
  then have "block_bitmap w1 = format_block_bitmap" using format_bitmap(1) by (simp add: w2_def)
  then have "fresh_image root w1"
    using zb len rl format_bitmap(1)
    by (simp add: fresh_image_def) (simp add: w1_def w3_def w2_def blk_put_block_bitmap sb_def ib_def rb_def)
  moreover have "same_process w w1"
    using w0(3) z(4) by (simp add: same_process_def w1_def w3_def w2_def)
  moreover have "root_of w root" using r(2) \<open>same_process w w1\<close> by (simp add: root_of_def same_process_def w1_def w3_def)
  ultimately show ?thesis using that by blast
qed

lemma blk_of_same_img: "img v = img w \<Longrightarrow> blk v = blk w"
  by (rule ext) (simp add: blk_def)

lemma fresh_image_img: "img v = img w \<Longrightarrow> fresh_image root v = fresh_image root w"
  using blk_of_same_img [of v w] block_bitmap_cong [of v w] by (simp add: fresh_image_def)

lemma format_run:
  assumes s: "script w = []" "\<not> ufs_mounted w" "image_path \<noteq> []"
  obtains root w1 where "ufs_format image_path UFS_IMAGE_SIZE w = (Some (), w1)" and "script w1 = []"
    and "img_len w1 = UFS_IMAGE_SIZE" and "img_exists w1" and "\<not> ufs_mounted w1" and "fresh_image root w1" and "root_of w root"
    and "euid w1 = euid w" and "egid w1 = egid w"
proof -
  define w0 where "w0 = set_fd 3 (w\<lparr>img_exists := True, img_len := 0, img := (\<lambda>_. 0)\<rparr>)"
  have w0: "script w0 = []" "ufs_fd w0 = 3" "img w0 = (\<lambda>_. 0)" "img_exists w0" "\<not> ufs_mounted w0" "euid w0 = euid w" "egid w0 = egid w"
    using s by (simp_all add: w0_def set_fd_def)
  obtain root w2 where f: "write_fresh_image w0 = (Some (), w2)" "calm w2" "fresh_image root w2" "root_of w0 root" "same_process w0 w2"
    using write_fresh_image_run [OF w0(1-3)] .
  define w1 where "w1 = w2\<lparr>image_lock := None, ufs_fd := - 1\<rparr>"
  have op: "open_image True w = (Some 3, w\<lparr>img_exists := True, img_len := 0, img := (\<lambda>_. 0)\<rparr>)"
    using s by (simp add: open_image_def run_simps io_simps asking_def modify_def ret_def)
  have cl: "close_format_done w2 = (Some (), w1)"
    using f(2) by (simp add: close_format_done_def asking_def close_image_def attempt_def plain_call_calm calm_def modify_def
        set_fd_def ret_def w1_def)
  have "ufs_format image_path UFS_IMAGE_SIZE w = (Some (), w1)"
    using s op f(1) cl by (simp add: ufs_format_def asking_def run_simps modify_def w0_def)
  moreover have "script w1 = []" "img_len w1 = UFS_IMAGE_SIZE" using f(2) by (simp_all add: w1_def calm_def)
  moreover have "img_exists w1" "\<not> ufs_mounted w1" "euid w1 = euid w" "egid w1 = egid w"
    using f(5) w0 by (simp_all add: w1_def same_process_def)
  moreover have "fresh_image root w1" using f(3) fresh_image_img [of w1 w2] by (simp add: w1_def)
  moreover have "root_of w root" using f(4) w0 by (simp add: root_of_def)
  ultimately show ?thesis using that by blast
qed

section \<open>Mounting\<close>

lemma validate_format: "validate_superblock format_superblock w = (Some (), w)"
  by (simp add: validate_superblock_def format_superblock_def ret_def)

lemma no_journal: "jh_magic (dec_header zero_block_bytes) = 0"
proof -
  have "field 0 4 zero_block_bytes = [0, 0, 0, 0]"
    unfolding zero_block_bytes_def field_def drop_0 take_replicate by (simp add: numeral_eq_Suc)
  then show ?thesis by (simp add: dec_header_def of_le32_def)
qed

lemma mount_run:
  assumes s: "script w = []" "img_len w = UFS_IMAGE_SIZE" "img_exists w" "\<not> ufs_mounted w" "image_path \<noteq> []"
    and fi: "fresh_image root w"
  obtains w1 where "ufs_mount image_path w = (Some (), w1)" and "live w1"
    and "ufs_sb w1 = format_superblock\<lparr>sb_state := UFS_STATE_DIRTY\<rparr>"
    and "\<forall>b. 0 < b \<longrightarrow> b < UFS_TOTAL_BLOCKS \<longrightarrow> blk w1 b = blk w b"
    and "descriptor_table w1 = replicate UFS_MAX_OPEN_FILES zero_descriptor" and "euid w1 = euid w" and "egid w1 = egid w"
proof -
  define dirty where "dirty = format_superblock\<lparr>sb_state := UFS_STATE_DIRTY\<rparr>"
  define wa where "wa = w\<lparr>ufs_fd := 3\<rparr>"
  define wb where "wb = wa\<lparr>ufs_sb := format_superblock\<rparr>"
  define wc where "wc = wb\<lparr>ufs_sb := dirty, ufs_mounted := True\<rparr>"
  define wd where "wd = put_blk 0 (enc_superblock dirty) wc"
  define w1 where "w1 = descriptor_table_reset (wd\<lparr>stable := img wd, unsynced := []\<rparr>)"
  have c: "calm wa" "calm wb" "calm wc" using s by (simp_all add: wa_def wb_def wc_def calm_def)
  have wf: "sb_wf dirty" by (simp add: dirty_def)
  have blks: "blk wa = blk w" "blk wb = blk w" "blk wc = blk w" by (rule blk_of_same_img; simp add: wa_def wb_def wc_def)+
  have rd: "read_valid_superblock v = (Some format_superblock, v)" if "calm v" "blk v = blk w" for v
    using that fi validate_format by (simp add: read_valid_superblock_def io_simps run_simps ret_def fresh_image_def)
  have "blk wb 138 = zero_block_bytes" using fi by (simp add: blks fresh_image_def)
  moreover have "jh_magic (dec_header zero_block_bytes) = 0" by (rule no_journal)
  ultimately have jr: "ufs_journal_recover wb = (Some (), wb)"
    using c(2) by (simp add: ufs_journal_recover_def io_simps run_simps Let_def ret_def)
  have fl: "ufs_flush_superblock wc = (Some (), wd)"
    using c(3) wf by (simp add: io_simps wc_def wd_def)
  have sy: "ufs_sync_image wd = (Some (), wd\<lparr>stable := img wd, unsynced := []\<rparr>)"
    using c(3) wf by (simp add: io_simps wd_def)
  have op: "open_image False w = (Some 3, w)" "fstat_size w = (Some UFS_IMAGE_SIZE, w)"
    using s by (simp_all add: open_image_def fstat_size_def run_simps io_simps asking_def ret_def)
  have "ufs_mount image_path w = (Some (), w1)"
    using s op rd [OF c(1) blks(1)] rd [OF c(2) blks(2)] jr fl sy
    by (simp add: ufs_mount_def asking_def run_simps modify_def set_fd_def wa_def [symmetric] wb_def [symmetric]
        dirty_def [symmetric] wc_def [symmetric] ret_def w1_def)
  moreover have "live wd" unfolding live_def using c(3) wf by (simp add: wd_def wc_def)
  then have "live w1" by (simp add: w1_def descriptor_table_reset_def)
  moreover have "ufs_sb w1 = dirty" "descriptor_table w1 = replicate UFS_MAX_OPEN_FILES zero_descriptor"
    "euid w1 = euid w" "egid w1 = egid w"
    by (simp_all add: w1_def descriptor_table_reset_def wd_def wc_def wb_def wa_def)
  moreover have "blk w1 b = blk w b" if "0 < b" "b < UFS_TOTAL_BLOCKS" for b
  proof -
    have "blk w1 b = blk wd b" using blk_of_same_img [of w1 wd] by (simp add: w1_def descriptor_table_reset_def)
    then show ?thesis using that wf blks(3) by (simp add: wd_def)
  qed
  ultimately show ?thesis using that by (simp add: dirty_def)
qed

section \<open>Format, then mount\<close>

text \<open>What a freshly formatted image holds once it is mounted.\<close>

definition fresh_mount :: "world \<Rightarrow> bool" where
  "fresh_mount w \<longleftrightarrow> namespace_ok w \<and> dir_map UFS_ROOT_INODE w = Map.empty \<and>
     (\<forall>n < UFS_MAX_INODES. inode_used w n \<longleftrightarrow> n = UFS_ROOT_INODE) \<and>
     (\<forall>b < UFS_TOTAL_BLOCKS. block_used w b \<longleftrightarrow> b < UFS_DATA_REGION_START_BLK) \<and>
     sb_free_inodes (ufs_sb w) = of_nat (UFS_MAX_INODES - 1) \<and>
     sb_free_blocks (ufs_sb w) = of_nat UFS_DATA_REGION_BLOCKS \<and>
     sb_state (ufs_sb w) = UFS_STATE_DIRTY \<and>
     (\<forall>k < UFS_MAX_OPEN_FILES. \<not> fde_in_use (descriptor k w)) \<and>
     ino_mode (inode_at w UFS_ROOT_INODE) = 0x1ED \<and> ino_uid (inode_at w UFS_ROOT_INODE) = euid w \<and>
     ino_gid (inode_at w UFS_ROOT_INODE) = egid w"

lemma format_mount_run:
  assumes s: "script w = []" "\<not> ufs_mounted w" "image_path \<noteq> []"
  shows "case on_ok (ufs_format image_path UFS_IMAGE_SIZE) (\<lambda>_. ufs_mount image_path) w of (r, w1) \<Rightarrow>
    r = Some () \<and> fresh_mount w1 \<and> euid w1 = euid w \<and> egid w1 = egid w"
proof -
  obtain root wf where f: "ufs_format image_path UFS_IMAGE_SIZE w = (Some (), wf)" "script wf = []" "img_len wf = UFS_IMAGE_SIZE"
    "img_exists wf" "\<not> ufs_mounted wf" "fresh_image root wf" "root_of w root" "euid wf = euid w" "egid wf = egid w"
    using format_run [OF s] .
  obtain w1 where m: "ufs_mount image_path wf = (Some (), w1)" "live w1"
    "ufs_sb w1 = format_superblock\<lparr>sb_state := UFS_STATE_DIRTY\<rparr>"
    "\<forall>b. 0 < b \<longrightarrow> b < UFS_TOTAL_BLOCKS \<longrightarrow> blk w1 b = blk wf b"
    "descriptor_table w1 = replicate UFS_MAX_OPEN_FILES zero_descriptor" "euid w1 = euid wf" "egid w1 = egid wf"
    using mount_run [OF f(2-5) s(3) f(6)] .
  have used: "inode_used w1 n \<longleftrightarrow> n = UFS_ROOT_INODE" if "n < UFS_MAX_INODES" for n
  proof -
    have "inode_used w1 n = bitmap_test (bitmap_set zero_block_bytes 0) n"
      using m(4) f(6) by (simp add: inode_used_def fresh_image_def)
    moreover have "\<not> bitmap_test zero_block_bytes n" unfolding zero_block_bytes_def using that by (intro zero_bitmap) simp
    ultimately show ?thesis using that by (simp add: bitmap_test_set)
  qed
  have root: "inode_at w1 0 = root"
  proof -
    have "blk w1 10 = overlay 0 (enc_inode root) zero_block_bytes" using m(4) f(6) by (simp add: fresh_image_def)
    then show ?thesis using f(7) inode_in_overlay [of root zero_block_bytes 0 0] by (simp add: inode_at_def root_of_def)
  qed
  have blocks: "block_used w1 b \<longleftrightarrow> b < UFS_DATA_REGION_START_BLK" if "b < UFS_TOTAL_BLOCKS" for b
  proof -
    have "block_bitmap w1 = block_bitmap wf" by (rule block_bitmap_cong) (simp add: m(4))
    then show ?thesis using f(6) format_bitmap(2) [OF that] by (simp add: block_used_def fresh_image_def)
  qed
  have rt: "ino_type root = UFS_TYPE_DIR" "same_pointers root (ufs_init_inode UFS_TYPE_DIR)" "ino_block_count root = 0" "ino_size root = 0"
    "ino_mode root = 0x1ED" "ino_uid root = euid w" "ino_gid root = egid w"
    using f(7) by (simp_all add: root_of_def)
  note tree = namespace_with_empty_root [OF m(2), unfolded root, OF _ rt(1-4)]
  have sb: "sb_free_inodes (ufs_sb w1) = of_nat (UFS_MAX_INODES - 1)" "sb_free_blocks (ufs_sb w1) = of_nat UFS_DATA_REGION_BLOCKS"
    "sb_state (ufs_sb w1) = UFS_STATE_DIRTY"
    unfolding m(3) format_superblock_def by simp_all
  have dt: "\<not> fde_in_use (descriptor k w1)" if "k < UFS_MAX_OPEN_FILES" for k
    unfolding descriptor_def m(5) nth_replicate [OF that] by (simp add: zero_descriptor_def)
  have "fresh_mount w1"
    unfolding fresh_mount_def root using tree used blocks sb dt rt f(8,9) m(6,7) by simp
  then show ?thesis using m(1,6,7) f(1,8,9) by (simp add: on_ok_Some)
qed

text \<open>C8: A formatted image can be mounted, and what is mounted is an empty file system. In a process
  without faults and with nothing mounted, \<open>ufs_format\<close> of an image of the one legal size succeeds and
  \<open>ufs_mount\<close> accepts what it wrote: the superblock passes validation, the journal is empty, the
  namespace is well formed with an empty root directory of mode 0755 that belongs to the caller, exactly the root's
  inode and the metadata blocks are in use, the free counts say so, the state is dirty and no
  descriptor is open.\<close>

theorem format_then_mount:
  assumes "script w = []" and "\<not> ufs_mounted w" and "image_path \<noteq> []"
  shows "case on_ok (ufs_format image_path UFS_IMAGE_SIZE) (\<lambda>_. ufs_mount image_path) w of (r, w1) \<Rightarrow>
    r = Some () \<and> fresh_mount w1 \<and> euid w1 = euid w \<and> egid w1 = egid w"
  by (rule format_mount_run [OF assms])

theorem format_then_mount_witness:
  "fst (on_ok (ufs_format ''fs.img'' UFS_IMAGE_SIZE) (\<lambda>_. ufs_mount ''fs.img'') (blank_world\<lparr>ufs_mounted := False\<rparr>)) = Some ()"
proof -
  have "script (blank_world\<lparr>ufs_mounted := False\<rparr>) = []" by (simp add: blank_world_def)
  then show ?thesis using format_then_mount [of "blank_world\<lparr>ufs_mounted := False\<rparr>" "''fs.img''"] by (auto split: prod.splits)
qed

end
