(* ===== verification/Spec2Isabelle.thy ===== *)
theory Spec2Isabelle
  imports Ufs_Commands Ufs_Mapped Ufs_Symlink Ufs_Attributes Ufs_Fresh
begin

text \<open>
  A verification development for UserFS, a file system that lives in one image file of 16 MiB (32768 blocks
  of 512 bytes) and is used through a C library and an interactive shell. The definitions are
  translated from the C sources, function by function and with the names of the source; this theory only
  collects the development.

  The program. A public operation (\<open>ufs_create\<close>, \<open>ufs_write\<close>, ...) takes the operation lock
  (\<open>src/ufs_sync.c\<close>: a mutex, a recursion depth, an \<open>fcntl\<close> lock on the image), resolves its path to an inode
  (\<open>src/namespace.c\<close>, with permission checks from \<open>src/metadata.c\<close> and at most 39 symbolic links, ELOOP at the 40th), changes
  inodes, directories and blocks through \<open>src/userfs_storage.c\<close> (two bitmaps, the inode table, the block map
  of a file with direct, single and double indirect blocks), and gives the lock back.
  \<open>src/file_io.c\<close> and \<open>src/mmap_io.c\<close> keep tables of 32 open files and 32 copy-backed mappings. A write
  to a file stores its inode through a transaction of the redo journal (\<open>src/journal.c\<close>), which
  \<open>ufs_mount\<close> replays after a crash. \<open>src/userfs.c\<close> reads and writes blocks of the image and formats, mounts and
  unmounts it. \<open>apps/userfs_shell.c\<close> reads lines and calls the public operations, and some internal
  ones for inspection.

  The model. A process is a record \<open>world\<close> (\<open>Ufs_World\<close>): the bytes of the image, the bytes that are known to be
  stable and the writes since then, the globals of the C files (superblock, tables, lock,
  journal sequence number, umask, the mounted image), \<open>errno\<close>, the credentials, the clock, the memory of
  mappings, and a script of outcomes for the system calls to come: each call takes the next outcome,
  which may be a failure with any error or a short transfer. A function that returns -1 or a value is an
  \<open>op\<close>, from a world to an optional value and a world; it leaves the world changed also when it fails.
  The combinators \<open>on_ok\<close>, \<open>attempt\<close>, \<open>discard\<close>, \<open>require\<close> and \<open>fail_after\<close> are the shapes of C error handling.
  Functions with an in/out inode work on pairs of an inode and a world. Fields of disk structures are words of
  their width, so that conversions and overflow are those of the code; block and inode numbers
  used as indices are natural numbers. Paths are strings without NUL.

  The theories, in the order of the code.
  \<^item> \<open>Ufs_Prelude\<close>, \<open>Ufs_Layout\<close>, \<open>Ufs_World\<close>: integers and little-endian encodings; constants and packed structures of
    \<open>include/userfs.h\<close> and \<open>include/ufs_internal.h\<close>; the world and its system calls.
  \<^item> \<open>Ufs_Interfaces\<close>: the contracts between components as locales. \<open>cell_store\<close> is interpreted by the blocks and
    the inodes of the image, \<open>slot_allocator\<close> and \<open>recycling_allocator\<close> by both bitmaps, \<open>name_map\<close> by directories.
  \<^item> \<open>Ufs_Image\<close>, \<open>Ufs_Crash\<close>, \<open>Ufs_Lifecycle\<close>, \<open>Ufs_Fresh\<close>: \<open>src/userfs.c\<close>. Block transfers under short and interrupted
    system calls; what a crash leaves of unsynced writes (any selection of them, a write of one sector being
    atomic); format, mount, unmount; what mounting a formatted image gives.
  \<^item> \<open>Ufs_Journal\<close>, \<open>Ufs_Recovery\<close>, \<open>Ufs_Commit\<close>, \<open>Ufs_Persist\<close>: \<open>src/journal.c\<close>. A commit is four batches of writes, each ended
    by an \<open>fsync\<close>; recovery as a function on images; a crash anywhere leaves all or nothing, as long as no
    commit record of an earlier transaction is left over, and a counterexample when one is.
  \<^item> \<open>Ufs_Bitmap\<close>, \<open>Ufs_Inode\<close>, \<open>Ufs_Alloc\<close>, \<open>Ufs_Blockmap\<close>: \<open>src/userfs_storage.c\<close>. \<open>Ufs_Filemap\<close>, \<open>Ufs_Extend\<close>, \<open>Ufs_Release\<close> and
    \<open>Ufs_Content\<close> compare the block map with a function from slots to blocks, extension and release with updates
    of it, and truncation with a list of bytes.
  \<^item> \<open>Ufs_Sync\<close>: \<open>src/ufs_sync.c\<close>. \<open>Ufs_Metadata\<close>, \<open>Ufs_Attr\<close>: \<open>src/metadata.c\<close> and truncation by path.
  \<^item> \<open>Ufs_Path\<close>, \<open>Ufs_Directory\<close>, \<open>Ufs_Resolve\<close>, \<open>Ufs_Namespace\<close>: \<open>src/namespace.c\<close>. \<open>Ufs_Entries\<close>, \<open>Ufs_Dirmap\<close> and \<open>Ufs_Names\<close>
    compare a directory with a finite map, \<open>Ufs_Walk\<close> path resolution with a walk through such maps.
  \<^item> \<open>Ufs_Handles\<close>, \<open>Ufs_FileIO\<close>, \<open>Ufs_Mmap\<close>: \<open>src/file_io.c\<close>, \<open>src/mmap_io.c\<close>. \<open>Ufs_Bytes\<close>, \<open>Ufs_ReadWrite\<close> and \<open>Ufs_OpenFile\<close> compare
    an open file with a list of bytes and a position.
  \<^item> \<open>Ufs_Volume\<close>, \<open>Ufs_Steps\<close>, \<open>Ufs_Parent\<close>, \<open>Ufs_Create\<close>, \<open>Ufs_Remove\<close>: the invariant of a whole volume (every directory and
    file well formed, no block with two owners, no name without an inode, link counts equal to
    the number of names), the steps that keep it, and what creating, linking and removing names do, with the
    exact error of every failure. \<open>Ufs_Files\<close> and \<open>Ufs_Cursor\<close> do the same for the files of a volume: opening,
    truncating, and any sequence of reads, writes and seeks, as an abstract file with bytes and a position;
    \<open>Ufs_Mapped\<close> for mapping a range of a file, synchronizing and unmapping it.
    \<open>Ufs_Symlink\<close> makes and reads symbolic links, and shows that a target is read back as it was given;
    \<open>Ufs_Attributes\<close> changes the mode, the owner and the group of what a path leads to.
  \<^item> \<open>Ufs_Frame\<close>, \<open>Ufs_Tables\<close>, \<open>Ufs_Progress\<close>: what holds of every public operation for every pattern of faults, in
    locales for properties that do not look at what the operations change: \<open>base_frame\<close>, \<open>quiet_frame\<close>
    (interpreted by the context of an operation and by the table of mappings), \<open>host_frame\<close> (by the state of the lock), \<open>lock_frame\<close> (by the
    descriptor table and by the memory of mappings), \<open>table_frame\<close> (by the invariant of both tables, by the process state that removal needs and by the credentials).
  \<^item> \<open>Ufs_Terminal\<close>, \<open>Ufs_Shell\<close>, \<open>Ufs_Session\<close>: \<open>apps/userfs_shell.c\<close>. The shell is a record of its globals, of \<open>strerror\<close> and of
    what it printed; a command takes the shell and the world to those it leaves, or to \<open>None\<close> when it
    does not return or its behaviour is undefined. \<open>shell_frame\<close> carries an invariant of the library through all
    commands. \<open>Ufs_Commands\<close> follows \<open>write\<close> and \<open>cat\<close> from the prompt down to the bytes of the file.

  Faults. Theorems on crashes, locks, tables and sessions hold for every script of system-call outcomes. The
  functional specifications are about worlds without faults to come (\<open>calm\<close>, or \<open>live\<close> when an image is
  mounted); they state every error that the program itself detects.

  Termination. Every function of the model is total, except for the loop that copies a file to the terminal,
  which is a \<open>partial_function\<close> with its termination proved. The loops of the code have
  measures: the bytes left to transfer, the entries of the script (retries after EINTR: an empty script
  has no faults), the rest of a path, the blocks behind a limit. Path resolution has the
  code's limit on symbolic links as its measure; there is no other fuel.

  Not modelled. The tests and the Makefile. Other threads and processes: a lock is taken or fails, and what
  others do to the image in between is not seen. The placement of mappings by the kernel and their page protection
  (a mapping gets the next free region of the modelled memory), the tracing output of \<open>file_io.c\<close>, and the host's directories: the image
  exists or not, and opening it may fail. Uninitialized padding on the stack is an
  arbitrary value (\<open>stack_junk\<close>). The command \<open>show\<close> is modelled up to its buffer overrun. Output errors of the
  shell have no effect, as in the code. Structures are packed, the machine is little endian and
  \<open>size_t\<close> has 64 bits.
\<close>

end
